(* ===== verification/Prelude.thy ===== *)
theory Prelude
  imports Main "HOL-Library.Word"
begin

text \<open>
  Shared vocabulary of the development: the machine types, the byte representation of
  scalars, raw memory regions, the state-and-exception computations that every C++
  component is written in, and the interface of byte codecs.

  Nothing here is specific to one component; the lemmas are the ones at least two
  components use, in the collections \<open>mem_simps\<close> (memory regions), \<open>op_simps\<close>
  (computations) and the default simpset.
\<close>

named_theorems mem_simps \<open>reading and writing memory regions\<close>
named_theorems op_simps \<open>unfolding state-and-exception computations\<close>

type_synonym byte = "8 word"
type_synonym u16 = "16 word"
type_synonym u32 = "32 word"
type_synonym u64 = "64 word"

section \<open>Little-endian byte strings\<close>

text \<open>
  The object representation of an unsigned scalar: \<open>le_bytes k n\<close> is the low \<open>k\<close> bytes of
  \<open>n\<close>, least significant first, and \<open>le_nat\<close> reads such a string back.
\<close>

fun le_bytes :: "nat \<Rightarrow> nat \<Rightarrow> byte list" where
  "le_bytes 0 n = []"
| "le_bytes (Suc k) n = of_nat n # le_bytes k (n div 256)"

fun le_nat :: "byte list \<Rightarrow> nat" where
  "le_nat [] = 0"
| "le_nat (b # bs) = unat b + 256 * le_nat bs"

lemma length_le_bytes [simp]: "length (le_bytes k n) = k"
  by (induction k arbitrary: n) auto

lemma le_bytes_numeral:
  "le_bytes (numeral k) n = of_nat n # le_bytes (pred_numeral k) (n div 256)"
  by (simp only: numeral_eq_Suc [of k] le_bytes.simps)

lemma unat_of_nat_byte: "unat (of_nat n :: byte) = n mod 256"
  by (simp add: unat_of_nat)

lemma le_nat_le_bytes: "le_nat (le_bytes k n) = n mod 256 ^ k"
proof (induction k arbitrary: n)
  case 0
  then show ?case by simp
next
  case (Suc k)
  have "n mod 256 + 256 * (n div 256 mod 256 ^ k) = n mod (256 * 256 ^ k)"
    by (simp add: mod_mult2_eq)
  then show ?case by (simp add: Suc unat_of_nat_byte)
qed

lemma unat_byte_less: "unat (b :: byte) < 256"
proof -
  have "unat b < 2 ^ LENGTH(8)" by (rule unsigned_less)
  then show ?thesis by simp
qed

lemma le_nat_less: "le_nat bs < 256 ^ length bs"
proof (induction bs)
  case (Cons b bs)
  have "unat b + 256 * le_nat bs < 256 + 256 * le_nat bs"
    using unat_byte_less [of b] by simp
  also have "\<dots> \<le> 256 * 256 ^ length bs"
    using Cons.IH by (metis Suc_leI add.commute mult_Suc_right mult_le_mono2)
  finally show ?case by simp
qed simp

lemma le_bytes_le_nat: "le_bytes (length bs) (le_nat bs) = bs"
proof (induction bs)
  case (Cons b bs)
  have "of_nat (unat b + 256 * le_nat bs) = b"
  proof -
    have "unat (of_nat (unat b + 256 * le_nat bs) :: byte) = unat b"
      using unat_byte_less [of b] by (simp only: unat_of_nat_byte) simp
    then show ?thesis by (simp only: word_unat_eq_iff)
  qed
  moreover have "(unat b + 256 * le_nat bs) div 256 = le_nat bs"
    using unat_byte_less [of b] by simp
  ultimately show ?case using Cons.IH by simp
qed simp


lemma le_bytes_inj: "n < 256 ^ k \<Longrightarrow> m < 256 ^ k \<Longrightarrow> le_bytes k n = le_bytes k m \<Longrightarrow> n = m"
  by (metis le_nat_le_bytes mod_less)

lemma unat_less_16: "unat (w :: u16) < 256 ^ 2"
proof -
  have "unat w < 2 ^ LENGTH(16)" by (rule unsigned_less)
  then show ?thesis by simp
qed

lemma unat_less_32: "unat (w :: u32) < 256 ^ 4"
proof -
  have "unat w < 2 ^ LENGTH(32)" by (rule unsigned_less)
  then show ?thesis by simp
qed

lemma unat_less_64: "unat (w :: u64) < 256 ^ 8"
proof -
  have "unat w < 2 ^ LENGTH(64)" by (rule unsigned_less)
  then show ?thesis by simp
qed

section \<open>Memory regions\<close>

text \<open>
  A C buffer is the list of its bytes. \<open>mem_put off ys xs\<close> is the region after a write of
  \<open>ys\<close> at offset \<open>off\<close>; \<open>mem_get off n xs\<close> is a read of \<open>n\<close> bytes. Bounds are checked by the
  operation that uses them: these two are only meaningful inside the region.
\<close>

definition mem_put :: "nat \<Rightarrow> 'a list \<Rightarrow> 'a list \<Rightarrow> 'a list" where
  "mem_put off ys xs = take off xs @ ys @ drop (off + length ys) xs"

definition mem_get :: "nat \<Rightarrow> nat \<Rightarrow> 'a list \<Rightarrow> 'a list" where
  "mem_get off n xs = take n (drop off xs)"

lemma length_mem_put [mem_simps]:
  "off + length ys \<le> length xs \<Longrightarrow> length (mem_put off ys xs) = length xs"
  by (simp add: mem_put_def)

lemma length_mem_get [mem_simps]: "length (mem_get off n xs) = min n (length xs - off)"
  by (simp add: mem_get_def)

lemma mem_get_mem_put_same [mem_simps]:
  "off + length ys \<le> length xs \<Longrightarrow> mem_get off (length ys) (mem_put off ys xs) = ys"
  by (simp add: mem_get_def mem_put_def)

lemma take_mem_put [mem_simps]:
  "off \<le> length xs \<Longrightarrow> n \<le> off \<Longrightarrow> take n (mem_put off ys xs) = take n xs"
  by (simp add: mem_put_def)

lemma take_mem_put_end [mem_simps]:
  "off + length ys \<le> length xs \<Longrightarrow> n = off + length ys \<Longrightarrow>
     take n (mem_put off ys xs) = take off xs @ ys"
  by (simp add: mem_put_def)

lemma drop_mem_put [mem_simps]:
  "off + length ys \<le> length xs \<Longrightarrow> off + length ys \<le> n \<Longrightarrow>
     drop n (mem_put off ys xs) = drop n xs"
  by (simp add: mem_put_def)

lemma mem_get_mem_put_disjoint:
  assumes "o' + length ys \<le> length xs" and "off + n \<le> o' \<or> o' + length ys \<le> off"
  shows "mem_get off n (mem_put o' ys xs) = mem_get off n xs"
  using assms(2)
proof
  assume le: "off + n \<le> o'"
  have "take n (drop off (take o' xs @ ys @ drop (o' + length ys) xs)) = take n (drop off (take o' xs))"
    using le assms(1) by simp
  also have "\<dots> = take n (drop off xs)"
    using le by (simp add: drop_take min_def)
  finally show ?thesis by (simp add: mem_get_def mem_put_def)
next
  assume "o' + length ys \<le> off"
  with assms(1) show ?thesis by (simp add: mem_get_def mem_simps)
qed

lemma mem_get_mem_put_within:
  assumes "off + length ys \<le> n" and "base + n \<le> length xs"
  shows "mem_get base n (mem_put (base + off) ys xs) = mem_put off ys (mem_get base n xs)"
proof -
  let ?k = "off + length ys"
  have len: "length (take off (drop base xs)) = off" "n - off - length ys = n - ?k"
    using assms by simp_all
  have "drop base (mem_put (base + off) ys xs) = take off (drop base xs) @ ys @ drop ?k (drop base xs)"
    using assms by (simp add: mem_put_def ac_simps take_drop)
  then have "mem_get base n (mem_put (base + off) ys xs)
      = take off (drop base xs) @ ys @ take (n - ?k) (drop ?k (drop base xs))"
    using assms len by (simp add: mem_get_def)
  also have "take (n - ?k) (drop ?k (drop base xs)) = drop ?k (take n (drop base xs))"
    using assms by (simp add: drop_take)
  also have "take off (drop base xs) = take off (take n (drop base xs))"
    using assms by simp
  finally show ?thesis by (simp only: mem_put_def mem_get_def)
qed

lemma mem_put_Nil [mem_simps]: "off \<le> length xs \<Longrightarrow> mem_put off [] xs = xs"
  by (simp add: mem_put_def)

lemma mem_put_zero [mem_simps]: "mem_put 0 ys xs = ys @ drop (length ys) xs"
  by (simp add: mem_put_def)

lemma mem_get_zero [mem_simps]: "mem_get 0 n xs = take n xs"
  by (simp add: mem_get_def)

lemma mem_put_mem_put_adjacent [mem_simps]:
  assumes "off + length ys + length zs \<le> length xs" and "m = off + length ys"
  shows "mem_put m zs (mem_put off ys xs) = mem_put off (ys @ zs) xs"
  using assms by (simp add: mem_put_def ac_simps)

section \<open>Faults\<close>

text \<open>
  What the C++ abstract machine leaves undefined is a value of the model, so that a
  theorem that an operation returns normally is also a theorem that it is memory safe.
\<close>

datatype fault = OutOfBounds | NullDeref | UseAfterFree | ShiftTooFar

section \<open>Computations with state and exceptions\<close>

text \<open>
  \<open>('s, 'e, 'a) op\<close> runs on a state and returns a result or an exception, and in both
  cases the state it leaves: a C++ \<open>throw\<close> does not undo what was done before it.
\<close>

type_synonym ('s, 'e, 'a) op = "'s \<Rightarrow> ('e + 'a) \<times> 's"

definition returnM :: "'a \<Rightarrow> ('s, 'e, 'a) op" where
  "returnM x = (\<lambda>s. (Inr x, s))"

definition throwM :: "'e \<Rightarrow> ('s, 'e, 'a) op" where
  "throwM e = (\<lambda>s. (Inl e, s))"

definition bindM :: "('s, 'e, 'a) op \<Rightarrow> ('a \<Rightarrow> ('s, 'e, 'b) op) \<Rightarrow> ('s, 'e, 'b) op" where
  "bindM m f = (\<lambda>s. case m s of (Inl e, s') \<Rightarrow> (Inl e, s') | (Inr x, s') \<Rightarrow> f x s')"

definition seqM :: "('s, 'e, 'a) op \<Rightarrow> ('s, 'e, 'b) op \<Rightarrow> ('s, 'e, 'b) op" where
  "seqM m n = bindM m (\<lambda>_. n)"

lemma returnM_apply [simp]: "returnM x s = (Inr x, s)"
  by (simp add: returnM_def)

lemma throwM_apply [simp]: "throwM e s = (Inl e, s)"
  by (simp add: throwM_def)

lemma bindM_Inr [op_simps]: "m s = (Inr x, s') \<Longrightarrow> bindM m f s = f x s'"
  by (simp add: bindM_def)

lemma bindM_Inl [op_simps]: "m s = (Inl e, s') \<Longrightarrow> bindM m f s = (Inl e, s')"
  by (simp add: bindM_def)

lemma seqM_Inr [op_simps]: "m s = (Inr x, s') \<Longrightarrow> seqM m n s = n s'"
  by (simp add: seqM_def bindM_Inr)

lemma seqM_Inl [op_simps]: "m s = (Inl e, s') \<Longrightarrow> seqM m n s = (Inl e, s')"
  by (simp add: seqM_def bindM_Inl)

lemma bindM_returnM [simp]: "bindM (returnM x) f = f x"
  by (simp add: bindM_def fun_eq_iff)

lemma seqM_returnM [simp]: "seqM m (returnM ()) = m"
  by (auto simp: seqM_def bindM_def fun_eq_iff split: prod.splits sum.splits)

lemma seqM_assoc: "seqM (seqM m n) k = seqM m (seqM n k)"
  by (auto simp: seqM_def bindM_def fun_eq_iff split: prod.splits sum.splits)

lemma bindM_assoc: "bindM (bindM m f) g = bindM m (\<lambda>x. bindM (f x) g)"
  by (auto simp: bindM_def fun_eq_iff split: prod.splits sum.splits)

text \<open>An assertion on the state that a computation keeps, whether it returns or throws.\<close>

definition keeps :: "('s \<Rightarrow> bool) \<Rightarrow> ('s, 'e, 'a) op \<Rightarrow> bool" where
  "keeps P m \<longleftrightarrow> (\<forall>s. P s \<longrightarrow> P (snd (m s)))"

lemma keepsI: "(\<And>s. P s \<Longrightarrow> P (snd (m s))) \<Longrightarrow> keeps P m"
  by (simp add: keeps_def)

lemma keepsD: "keeps P m \<Longrightarrow> P s \<Longrightarrow> P (snd (m s))"
  by (simp add: keeps_def)

lemma keeps_returnM [intro, simp]: "keeps P (returnM x)"
  by (simp add: keeps_def)

lemma keeps_throwM [intro, simp]: "keeps P (throwM e)"
  by (simp add: keeps_def)

lemma keeps_bindM [intro]:
  assumes "keeps P m" and "\<And>x. keeps P (f x)"
  shows "keeps P (bindM m f)"
  using assms by (auto simp: keeps_def bindM_def split: prod.splits sum.splits)

lemma keeps_seqM [intro]: "keeps P m \<Longrightarrow> keeps P n \<Longrightarrow> keeps P (seqM m n)"
  by (auto simp: seqM_def)

section \<open>Byte codecs\<close>

text \<open>
  The contract between a writer and the reader of its bytes: decoding consumes exactly the
  bytes of one value and leaves the rest. Scalars, protocol packets and tagged data of the
  event library all promise it, and what follows from it is proved here once.
\<close>

locale byte_codec =
  fixes enc :: "'v \<Rightarrow> byte list"
    and dec :: "byte list \<Rightarrow> ('v \<times> byte list) option"
    and valid :: "'v \<Rightarrow> bool"
  assumes dec_enc: "valid v \<Longrightarrow> dec (enc v @ rest) = Some (v, rest)"
begin

lemma enc_prefix_free:
  assumes "valid v" and "valid w" and "enc v @ xs = enc w @ ys"
  shows "v = w \<and> xs = ys"
proof -
  have "Some (v, xs) = dec (enc v @ xs)" by (simp only: dec_enc [OF assms(1)])
  also have "\<dots> = Some (w, ys)" by (simp only: assms(3) dec_enc [OF assms(2)])
  finally show ?thesis by simp
qed

lemma enc_inj: "valid v \<Longrightarrow> valid w \<Longrightarrow> enc v = enc w \<Longrightarrow> v = w"
  using enc_prefix_free [of v w "[]" "[]"] by simp

fun dec_many :: "nat \<Rightarrow> byte list \<Rightarrow> ('v list \<times> byte list) option" where
  "dec_many 0 bs = Some ([], bs)"
| "dec_many (Suc n) bs =
     (case dec bs of None \<Rightarrow> None
      | Some (v, rest) \<Rightarrow> map_option (\<lambda>(vs, r). (v # vs, r)) (dec_many n rest))"

lemma dec_many_concat:
  "list_all valid vs \<Longrightarrow> dec_many (length vs) (concat (map enc vs) @ rest) = Some (vs, rest)"
proof (induction vs)
  case (Cons v vs)
  then have "dec (enc v @ (concat (map enc vs) @ rest)) = Some (v, concat (map enc vs) @ rest)"
    by (intro dec_enc) simp
  with Cons show ?case by simp
qed simp

lemma concat_enc_inj:
  assumes "list_all valid vs" and "list_all valid ws" and "length vs = length ws"
    and "concat (map enc vs) = concat (map enc ws)"
  shows "vs = ws"
  using dec_many_concat [OF assms(1), of "[]"] dec_many_concat [OF assms(2), of "[]"] assms(3,4)
  by simp

end

text \<open>The little-endian representation is a codec for numbers below \<open>256 ^ k\<close>.\<close>

definition le_dec :: "nat \<Rightarrow> byte list \<Rightarrow> (nat \<times> byte list) option" where
  "le_dec k bs = (if length bs < k then None else Some (le_nat (take k bs), drop k bs))"

interpretation le: byte_codec "le_bytes k" "le_dec k" "\<lambda>n. n < 256 ^ k" for k
  by unfold_locales (simp add: le_dec_def le_nat_le_bytes)

end
