(* ===== verification/Malloc.thy ===== *)
theory Malloc
  imports Prelude
begin

text \<open>
  The memory pools of \<^verbatim>\<open>libbase/MallocPool.cpp\<close> and the manager of
  \<^verbatim>\<open>libbase/MallocManager.cpp\<close> that every \<open>__new\<close> and \<open>__delete\<close> of the server goes
  through.

  The language's own \<open>new char[n]\<close> and \<open>delete[]\<close> are the record \<open>memory\<close>: a block is a
  number never used before, a pointer is a block and an offset, and \<open>blocks\<close> maps the live
  blocks to their bytes. What \<open>new\<close> answers is arbitrary: \<open>answers\<close> says for the number of the next block and a size
  whether there is one, and which bytes it happens to hold. Without one the process ends (the code calls
  \<open>abort\<close>; a \<open>new\<close> that throws does not come back either): the result of the operation is \<open>None\<close>. A \<open>mallocPool*\<close> is the key of its pool in \<open>small_list\<close>. Every public
  operation of the manager runs under its lock, so one call is one step. The build without
  \<open>_TEST_MEM_\<close> is modelled.
\<close>

section \<open>Memory\<close>

type_synonym ptr = "nat \<times> nat"

record memory =
  blocks :: "nat \<Rightarrow> byte list option"
  next_block :: nat
  answers :: "nat \<Rightarrow> nat \<Rightarrow> (nat \<Rightarrow> byte) option"

definition block_of :: "(nat \<Rightarrow> byte) \<Rightarrow> nat \<Rightarrow> byte list" where
  "block_of junk n = map junk [0..<n]"

definition new_char :: "nat \<Rightarrow> memory \<Rightarrow> (nat \<times> memory) option" where
  "new_char n m =
     (case answers m (next_block m) n of
        None \<Rightarrow> None
      | Some junk \<Rightarrow>
          Some (next_block m, m\<lparr>blocks := (blocks m)(next_block m \<mapsto> block_of junk n), next_block := Suc (next_block m)\<rparr>))"

definition delete_block :: "nat \<Rightarrow> memory \<Rightarrow> memory" where
  "delete_block b m = m\<lparr>blocks := (blocks m)(b := None)\<rparr>"

definition mem_write :: "ptr \<Rightarrow> byte list \<Rightarrow> memory \<Rightarrow> memory" where
  "mem_write p bs m =
     (case blocks m (fst p) of None \<Rightarrow> m
      | Some c \<Rightarrow> m\<lparr>blocks := (blocks m)(fst p \<mapsto> mem_put (snd p) bs c)\<rparr>)"

definition mem_read :: "ptr \<Rightarrow> nat \<Rightarrow> memory \<Rightarrow> byte list" where
  "mem_read p n m = (case blocks m (fst p) of None \<Rightarrow> [] | Some c \<Rightarrow> mem_get (snd p) n c)"

definition memset :: "ptr \<Rightarrow> byte \<Rightarrow> nat \<Rightarrow> memory \<Rightarrow> memory" where
  "memset p v n m = mem_write p (replicate n v) m"

section \<open>One pool\<close>

record mallocPool =
  p_size :: u32
  p_count :: u32
  all_mem_list :: "nat list"
  free_list :: "ptr list"
  history_count :: u64
  history_get :: u64
  history_free :: u64

text \<open>The loop that cuts a block into \<open>count\<close> pieces.\<close>

fun split_block :: "nat \<Rightarrow> nat \<Rightarrow> nat \<Rightarrow> nat \<Rightarrow> ptr list" where
  "split_block b np sz 0 = []"
| "split_block b np sz (Suc n) = (b, np) # split_block b (np + sz) sz n"

definition doExpand :: "mallocPool \<Rightarrow> memory \<Rightarrow> (mallocPool \<times> memory) option" where
  "doExpand pool m =
     (case new_char (unat (p_size pool * p_count pool)) m of
        None \<Rightarrow> None
      | Some (p, m) \<Rightarrow>
          let m = memset (p, 0) 0 (unat (p_size pool * p_count pool)) m
          in Some (pool\<lparr>all_mem_list := all_mem_list pool @ [p],
                free_list := free_list pool @ split_block p 0 (unat (p_size pool)) (unat (p_count pool)),
                history_count := history_count pool + ucast (p_count pool)\<rparr>, m))"

definition mallocPool_new :: "u32 \<Rightarrow> u32 \<Rightarrow> memory \<Rightarrow> (mallocPool \<times> memory) option" where
  "mallocPool_new sz count m =
     doExpand \<lparr>p_size = sz, p_count = count, all_mem_list = [], free_list = [],
               history_count = 0, history_get = 0, history_free = 0\<rparr> m"

definition pool_malloc :: "mallocPool \<Rightarrow> memory \<Rightarrow> (ptr option \<times> mallocPool \<times> memory) option" where
  "pool_malloc pool m =
     (case (if free_list pool = [] then doExpand pool m else Some (pool, m)) of
        None \<Rightarrow> None
      | Some (pool, m) \<Rightarrow>
          (case free_list pool of
             [] \<Rightarrow> Some (None, pool, m)
           | p # ps \<Rightarrow> Some (Some p, pool\<lparr>free_list := ps, history_get := history_get pool + 1\<rparr>, m)))"

definition pool_free :: "ptr option \<Rightarrow> mallocPool \<Rightarrow> memory \<Rightarrow> bool \<times> mallocPool \<times> memory" where
  "pool_free pt pool m =
     (case pt of
        None \<Rightarrow> (False, pool, m)
      | Some p \<Rightarrow>
          (True, pool\<lparr>free_list := free_list pool @ [p], history_free := history_free pool + 1\<rparr>,
           memset p 0 (unat (p_size pool)) m))"

section \<open>The manager\<close>

abbreviation mem_max_size :: u32 where
  "mem_max_size \<equiv> 1024 * 10"

record mallocManager =
  small_list :: "u32 \<Rightarrow> mallocPool option"
  small_ptr_list :: "ptr \<Rightarrow> u32 option"
  big_ptr_list :: "ptr \<Rightarrow> u32 option"
  mem :: memory

definition mallocManager_new :: "(nat \<Rightarrow> nat \<Rightarrow> (nat \<Rightarrow> byte) option) \<Rightarrow> mallocManager" where
  "mallocManager_new sys =
     \<lparr>small_list = Map.empty, small_ptr_list = Map.empty, big_ptr_list = Map.empty,
      mem = \<lparr>blocks = Map.empty, next_block = 0, answers = sys\<rparr>\<rparr>"

definition fixSize :: "u32 \<Rightarrow> u32" where
  "fixSize fsize =
     (if fsize \<le> 8 then 8
      else if fsize \<le> 16 then 16
      else if fsize \<le> 32 then 32
      else if fsize \<le> 64 then 64
      else if fsize \<le> 128 then 128
      else if fsize \<le> 256 then 256
      else if fsize \<le> 512 then 512
      else if fsize \<le> 1024 then 1024
      else if fsize \<le> 2048 then 2048
      else if fsize \<le> 4096 then 4096
      else if fsize \<le> 8192 then 8192
      else if fsize \<le> mem_max_size then mem_max_size
      else fsize)"

definition getCount :: "u32 \<Rightarrow> u32" where
  "getCount sz = (if sz \<ge> mem_max_size then 1 else mem_max_size div sz)"

text \<open>\<open>unordered_map::insert\<close> leaves an entry that is already there alone.\<close>

definition map_insert :: "'k \<Rightarrow> 'v \<Rightarrow> ('k \<Rightarrow> 'v option) \<Rightarrow> ('k \<Rightarrow> 'v option)" where
  "map_insert k v m = (case m k of None \<Rightarrow> m(k \<mapsto> v) | Some _ \<Rightarrow> m)"

definition mm_malloc :: "u32 \<Rightarrow> mallocManager \<Rightarrow> (ptr option \<times> mallocManager) option" where
  "mm_malloc req g =
     (let sz = fixSize req; count = getCount sz
      in if sz < mem_max_size then
           (case (case small_list g sz of
                    None \<Rightarrow> (case mallocPool_new sz count (mem g) of
                               None \<Rightarrow> None
                             | Some (pool, m) \<Rightarrow> Some (map_insert sz pool (small_list g), m))
                  | Some _ \<Rightarrow> Some (small_list g, mem g)) of
              None \<Rightarrow> None
            | Some (sl, m) \<Rightarrow>
                (case sl sz of
                   None \<Rightarrow> Some (None, g\<lparr>small_list := sl, mem := m\<rparr>)
                 | Some pool \<Rightarrow>
                     (case pool_malloc pool m of
                        None \<Rightarrow> None
                      | Some (ret, pool, m) \<Rightarrow>
                          Some (ret, g\<lparr>small_list := sl(sz \<mapsto> pool),
                              small_ptr_list := (case ret of None \<Rightarrow> small_ptr_list g
                                 | Some p \<Rightarrow> map_insert p sz (small_ptr_list g)),
                              mem := m\<rparr>))))
         else
           (case new_char (unat sz) (mem g) of
              None \<Rightarrow> None
            | Some (b, m) \<Rightarrow>
                let m = memset (b, 0) 0 (unat sz) m
                in Some (Some (b, 0), g\<lparr>big_ptr_list := map_insert (b, 0) sz (big_ptr_list g), mem := m\<rparr>)))"

definition mm_free :: "ptr option \<Rightarrow> mallocManager \<Rightarrow> bool \<times> mallocManager" where
  "mm_free pt g =
     (case pt of
        None \<Rightarrow> (False, g)
      | Some p \<Rightarrow>
          (case small_ptr_list g p of
             Some sz \<Rightarrow>
               (case small_list g sz of
                  None \<Rightarrow> (False, g)
                | Some pool \<Rightarrow>
                    let (ret, pool, m) = pool_free (Some p) pool (mem g)
                    in (ret, g\<lparr>small_list := (small_list g)(sz \<mapsto> pool),
                               small_ptr_list := (small_ptr_list g)(p := None), mem := m\<rparr>))
           | None \<Rightarrow>
               (case big_ptr_list g p of
                  Some _ \<Rightarrow> (True, g\<lparr>big_ptr_list := (big_ptr_list g)(p := None),
                                     mem := delete_block (fst p) (mem g)\<rparr>)
                | None \<Rightarrow> (False, g))))"

definition mm_avail :: "ptr option \<Rightarrow> mallocManager \<Rightarrow> bool" where
  "mm_avail pt g =
     (case pt of None \<Rightarrow> False
      | Some p \<Rightarrow> if small_ptr_list g p \<noteq> None then True
                  else if big_ptr_list g p \<noteq> None then True else False)"

text \<open>The capacity a live pointer gives its owner: what \<open>fixSize\<close> made of the request.\<close>

definition capacity :: "mallocManager \<Rightarrow> ptr \<Rightarrow> u32 option" where
  "capacity g p = (case small_ptr_list g p of Some s \<Rightarrow> Some s | None \<Rightarrow> big_ptr_list g p)"

text \<open>A store by the owner of a live pointer, inside its capacity: what the server does with it.\<close>

definition mm_poke :: "ptr \<Rightarrow> nat \<Rightarrow> byte list \<Rightarrow> mallocManager \<Rightarrow> mallocManager" where
  "mm_poke p off bs g =
     (case capacity g p of
        None \<Rightarrow> g
      | Some s \<Rightarrow> if off + length bs \<le> unat s
                  then g\<lparr>mem := mem_write (fst p, snd p + off) bs (mem g)\<rparr> else g)"

section \<open>Size classes\<close>

definition pool_class :: "u32 \<Rightarrow> bool" where
  "pool_class s \<longleftrightarrow> s \<in> {8, 16, 32, 64, 128, 256, 512, 1024, 2048, 4096, 8192}"

text \<open>Case analysis on the chain of comparisons.\<close>

lemma fixSize_cases:
  assumes "P (8 :: u32)" "P 16" "P 32" "P 64" "P 128" "P 256" "P 512" "P 1024" "P 2048" "P 4096"
    "P 8192" "P mem_max_size" "mem_max_size < n \<Longrightarrow> P n"
  shows "P (fixSize n)"
  using assms unfolding fixSize_def by (simp only: if_split not_le simp_thms) blast

lemma fixSize_class: "fixSize n < mem_max_size \<Longrightarrow> pool_class (fixSize n)"
  by (rule fixSize_cases [of "\<lambda>c. c < mem_max_size \<longrightarrow> pool_class c", rule_format])
    (simp_all add: pool_class_def)

lemma pool_class_count:
  "pool_class s \<Longrightarrow> 0 < unat s \<and> 0 < unat (getCount s)
     \<and> unat (s * getCount s) = unat s * unat (getCount s) \<and> s < mem_max_size"
  by (auto simp: pool_class_def getCount_def)

definition fixed_point :: "u32 \<Rightarrow> bool" where
  "fixed_point c \<longleftrightarrow> pool_class c \<or> mem_max_size \<le> c"

lemma fixSize_fixed_point: "fixed_point (fixSize n)"
  by (cases "fixSize n < mem_max_size") (auto simp: fixed_point_def fixSize_class)

lemma fixSize_ge: "n \<le> fixSize n"
  by (simp add: fixSize_def)

lemma fixSize_max: "fixSize n \<le> mem_max_size \<or> fixSize n = n"
  by (rule fixSize_cases) simp_all

lemma fixSize_least_class: "pool_class c \<Longrightarrow> n \<le> c \<Longrightarrow> fixSize n \<le> c"
  unfolding pool_class_def by (elim insertE emptyE) (simp_all add: fixSize_def)

lemma fixSize_least: "fixed_point c \<Longrightarrow> n \<le> c \<Longrightarrow> fixSize n \<le> c"
  unfolding fixed_point_def
proof (elim disjE)
  assume "mem_max_size \<le> c" "n \<le> c"
  then show "fixSize n \<le> c" using fixSize_max [of n] by (metis order_trans)
qed (rule fixSize_least_class)

text \<open>
  The size classes. Rounding never shrinks a request, rounds a rounded size to itself, is
  monotone, and wastes less than half of the memory it hands out for requests above eight
  bytes that the pools serve; a pool's block holds at least one piece and never exceeds the
  ten kilobytes the manager plans for.
\<close>

theorem fixSize_spec:
  "n \<le> fixSize n \<and> fixSize (fixSize n) = fixSize n \<and> (k \<le> n \<longrightarrow> fixSize k \<le> fixSize n)
   \<and> (8 < n \<and> n \<le> 8192 \<longrightarrow> unat (fixSize n) < 2 * unat n)
   \<and> (fixSize n < mem_max_size \<longrightarrow>
        0 < getCount (fixSize n) \<and> unat (fixSize n) * unat (getCount (fixSize n)) \<le> 10240)"
proof (intro conjI impI)
  show "n \<le> fixSize n" by (rule fixSize_ge)
  show "fixSize (fixSize n) = fixSize n"
    by (intro antisym fixSize_least fixSize_fixed_point fixSize_ge order_refl)
  show "fixSize k \<le> fixSize n" if "k \<le> n"
    using that fixSize_ge [of n] by (intro fixSize_least fixSize_fixed_point) (rule order_trans)
  show "unat (fixSize n) < 2 * unat n" if "8 < n \<and> n \<le> 8192"
    using that by (auto simp: fixSize_def word_le_nat_alt word_less_nat_alt)
  assume "fixSize n < mem_max_size"
  then have "pool_class (fixSize n)" by (rule fixSize_class)
  then show "0 < getCount (fixSize n)" "unat (fixSize n) * unat (getCount (fixSize n)) \<le> 10240"
    by (auto simp: pool_class_def getCount_def)
qed

theorem fixSize_spec_witness: "unat (fixSize 100) < 2 * 100 \<and> fixSize 60 \<le> fixSize 100"
  using fixSize_spec [of 100 60] by simp


section \<open>Pieces of blocks\<close>

definition chunks :: "mallocPool \<Rightarrow> ptr set" where
  "chunks pool =
     {(b, i * unat (p_size pool)) |b i. b \<in> set (all_mem_list pool) \<and> i < unat (p_count pool)}"

lemma split_block_map: "split_block b np sz n = map (\<lambda>i. (b, np + i * sz)) [0..<n]"
proof (induction n arbitrary: np)
  case (Suc n)
  have "[0..<Suc n] = 0 # map Suc [0..<n]" by (simp add: upt_conv_Cons map_Suc_upt)
  then show ?case using Suc by (simp add: o_def add.assoc)
qed simp

lemma set_split_block: "set (split_block b 0 sz n) = {(b, i * sz) |i. i < n}"
  by (auto simp: split_block_map)

lemma distinct_split_block: "0 < sz \<Longrightarrow> distinct (split_block b 0 sz n)"
  by (auto simp: split_block_map distinct_map inj_on_def)

lemma mem_read_write_other:
  assumes "fst p \<noteq> fst q \<or> snd q + n \<le> snd p \<or> snd p + length bs \<le> snd q"
    and "\<And>c. blocks m (fst p) = Some c \<Longrightarrow> snd p + length bs \<le> length c"
  shows "mem_read q n (mem_write p bs m) = mem_read q n m"
  using assms
  by (cases "blocks m (fst p)")
    (auto simp: mem_read_def mem_write_def mem_get_mem_put_disjoint split: option.splits)

lemma mem_read_write_same:
  assumes "blocks m (fst p) = Some c" and "snd p + length bs \<le> length c"
  shows "mem_read p (length bs) (mem_write p bs m) = bs"
  using assms by (simp add: mem_read_def mem_write_def mem_simps)

lemma chunk_apart:
  fixes i j s :: nat
  assumes "i \<noteq> j"
  shows "i * s + s \<le> j * s \<or> j * s + s \<le> i * s"
proof (cases "i < j")
  case True
  then have "Suc i * s \<le> j * s" by (intro mult_le_mono) simp_all
  then show ?thesis by simp
next
  case False
  with assms have "Suc j * s \<le> i * s" by (intro mult_le_mono) simp_all
  then show ?thesis by simp
qed

lemma chunks_apart:
  assumes "p \<in> chunks pool" and "q \<in> chunks pool" and "p \<noteq> q"
  shows "fst p \<noteq> fst q \<or> snd q + unat (p_size pool) \<le> snd p \<or> snd p + unat (p_size pool) \<le> snd q"
  using assms chunk_apart by (fastforce simp: chunks_def)

lemma chunk_inside:
  assumes "p \<in> chunks pool"
  shows "snd p + unat (p_size pool) \<le> unat (p_size pool) * unat (p_count pool)"
proof -
  from assms obtain i where i: "i < unat (p_count pool)" "snd p = i * unat (p_size pool)"
    by (auto simp: chunks_def)
  then have "Suc i * unat (p_size pool) \<le> unat (p_count pool) * unat (p_size pool)"
    by (intro mult_le_mono) simp_all
  then show ?thesis using i by (simp add: mult.commute)
qed

section \<open>The invariant of a pool\<close>

text \<open>
  \<open>live\<close> is the set of pieces of the pool that callers hold. The pieces of the pool's blocks
  are exactly the free ones and the live ones, no piece is both, no piece is twice in the
  free list, and free pieces are zero.
\<close>

definition pool_inv :: "memory \<Rightarrow> u32 \<Rightarrow> mallocPool \<Rightarrow> ptr set \<Rightarrow> bool" where
  "pool_inv m s pool live \<longleftrightarrow>
     pool_class s \<and> p_size pool = s \<and> p_count pool = getCount s
     \<and> distinct (all_mem_list pool)
     \<and> (\<forall>b \<in> set (all_mem_list pool). \<exists>c. blocks m b = Some c \<and> length c = unat s * unat (getCount s))
     \<and> distinct (free_list pool) \<and> set (free_list pool) \<inter> live = {}
     \<and> set (free_list pool) \<union> live = chunks pool
     \<and> (\<forall>p \<in> set (free_list pool). mem_read p (unat s) m = replicate (unat s) 0)"

definition fresh :: "memory \<Rightarrow> bool" where
  "fresh m \<longleftrightarrow> (\<forall>b. blocks m b \<noteq> None \<longrightarrow> b < next_block m)"

lemma pool_inv_frame:
  assumes "pool_inv m s pool live" and "\<And>b. b \<in> set (all_mem_list pool) \<Longrightarrow> blocks m' b = blocks m b"
  shows "pool_inv m' s pool live"
proof -
  have "mem_read p (unat s) m' = mem_read p (unat s) m" if "p \<in> set (free_list pool)" for p
  proof -
    have "p \<in> chunks pool" using assms(1) that by (auto simp: pool_inv_def)
    then show ?thesis using assms(2) by (auto simp: mem_read_def chunks_def)
  qed
  with assms show ?thesis by (auto simp: pool_inv_def)
qed

lemma pool_inv_empty:
  "pool_class s \<Longrightarrow> pool_inv m s \<lparr>p_size = s, p_count = getCount s, all_mem_list = [], free_list = [],
     history_count = a, history_get = b, history_free = c\<rparr> {}"
  by (simp add: pool_inv_def chunks_def)

lemma pool_blocks_old:
  assumes "pool_inv m s pool live" and "fresh m"
  shows "next_block m \<notin> set (all_mem_list pool)" and "p \<in> live \<Longrightarrow> fst p \<noteq> next_block m"
    and "p \<in> set (free_list pool) \<Longrightarrow> fst p \<noteq> next_block m"
proof -
  show *: "next_block m \<notin> set (all_mem_list pool)"
    using assms by (fastforce simp: pool_inv_def fresh_def)
  have "p \<in> chunks pool \<Longrightarrow> fst p \<noteq> next_block m"
    using * by (auto simp: chunks_def)
  moreover have "set (free_list pool) \<union> live = chunks pool"
    using assms by (simp add: pool_inv_def)
  ultimately show "p \<in> live \<Longrightarrow> fst p \<noteq> next_block m"
    "p \<in> set (free_list pool) \<Longrightarrow> fst p \<noteq> next_block m"
    by blast+
qed

lemma length_block_of [simp]: "length (block_of junk n) = n"
  by (simp add: block_of_def)

lemma mem_put_whole: "length ys = length xs \<Longrightarrow> mem_put 0 ys xs = ys"
  by (simp add: mem_put_def)

text \<open>A new block that is cleared: whatever it held, it is all zero afterwards.\<close>

lemma cleared_block:
  "new_char n m = None \<longleftrightarrow> answers m (next_block m) n = None"
  "new_char n m = Some (b, m1) \<Longrightarrow> b = next_block m \<and>
     memset (b, 0) 0 n m1 = m\<lparr>blocks := (blocks m)(next_block m \<mapsto> replicate n 0), next_block := Suc (next_block m)\<rparr>"
  by (auto simp: new_char_def memset_def mem_write_def mem_put_whole split: option.splits)

lemma doExpand_eq:
  assumes "pool_inv m s pool live"
  shows "doExpand pool m =
    (if answers m (next_block m) (unat s * unat (getCount s)) = None then None
     else Some (pool\<lparr>all_mem_list := all_mem_list pool @ [next_block m],
          free_list := free_list pool @ split_block (next_block m) 0 (unat s) (unat (getCount s)),
          history_count := history_count pool + ucast (getCount s)\<rparr>,
     m\<lparr>blocks := (blocks m)(next_block m \<mapsto> replicate (unat s * unat (getCount s)) 0),
       next_block := Suc (next_block m)\<rparr>))"
  using assms pool_class_count [of s] cleared_block [of "unat s * unat (getCount s)" m]
  by (auto simp: doExpand_def pool_inv_def Let_def split: option.splits)

lemma mem_get_replicate: "off + n \<le> k \<Longrightarrow> mem_get off n (replicate k x) = replicate n x"
  by (simp add: mem_get_def)

lemma doExpand_inv:
  assumes inv: "pool_inv m s pool live" and fr: "fresh m" and ex: "doExpand pool m = Some (pool', m')"
  shows "pool_inv m' s pool' live" and "fresh m'" and "free_list pool' \<noteq> []"
    and "set (all_mem_list pool') = insert (next_block m) (set (all_mem_list pool))"
    and "\<And>b. b \<noteq> next_block m \<Longrightarrow> blocks m' b = blocks m b"
    and "next_block m' = Suc (next_block m)" and "answers m' = answers m"
proof -
  let ?b = "next_block m" and ?n = "unat (getCount s)"
  let ?new = "split_block ?b 0 (unat s) ?n"
  have cls: "pool_class s" "p_size pool = s" "p_count pool = getCount s"
    using inv by (simp_all add: pool_inv_def)
  note cnt = pool_class_count [OF cls(1)] and old = pool_blocks_old [OF inv fr]
  have pool': "all_mem_list pool' = all_mem_list pool @ [?b]" "free_list pool' = free_list pool @ ?new"
    "p_size pool' = s" "p_count pool' = getCount s"
    and m': "blocks m' = (blocks m)(?b \<mapsto> replicate (unat s * ?n) 0)" "next_block m' = Suc ?b" "answers m' = answers m"
    using ex cls by (auto simp: doExpand_eq [OF inv] split: if_splits)
  have chunks': "chunks pool' = chunks pool \<union> set ?new"
    using cls pool' by (auto simp: chunks_def set_split_block)
  have zero: "mem_read p (unat s) m' = replicate (unat s) 0" if "p \<in> set ?new" for p
  proof -
    have p: "p \<in> chunks pool'" "fst p = ?b" using that chunks' by (auto simp: set_split_block)
    from chunk_inside [OF p(1)] show ?thesis
      using p(2) pool' m' by (simp add: mem_read_def mem_get_replicate)
  qed
  have old_zero: "mem_read p (unat s) m' = replicate (unat s) 0" if "p \<in> set (free_list pool)" for p
    using that old(3) [OF that] inv m' by (simp add: mem_read_def pool_inv_def)
  have disj: "set (free_list pool) \<inter> set ?new = {}" "live \<inter> set ?new = {}"
    using old(2,3) by (auto simp: set_split_block) fastforce+
  show "pool_inv m' s pool' live"
    using inv cls pool' m' chunks' disj zero old_zero old(1) cnt
    by (auto simp: pool_inv_def distinct_split_block)
  show "fresh m'" using fr m' by (auto simp: fresh_def less_Suc_eq)
  show "free_list pool' \<noteq> []" using cnt pool' by (simp add: split_block_map)
  show "set (all_mem_list pool') = insert ?b (set (all_mem_list pool))" using pool' by auto
  show "\<And>b. b \<noteq> ?b \<Longrightarrow> blocks m' b = blocks m b" "next_block m' = Suc ?b" "answers m' = answers m" using m' by auto
qed


lemma pool_pop_inv:
  assumes inv: "pool_inv m s pool live" and fl: "free_list pool = p # ps"
  shows "pool_inv m s (pool\<lparr>free_list := ps, history_get := h\<rparr>) (insert p live)"
    and "p \<notin> live" and "p \<in> chunks pool" and "mem_read p (unat s) m = replicate (unat s) 0"
proof -
  have "p \<notin> set ps" "p \<notin> live" "set ps \<inter> live = {}" "set ps \<union> insert p live = chunks pool"
    using inv fl by (auto simp: pool_inv_def)
  then show "pool_inv m s (pool\<lparr>free_list := ps, history_get := h\<rparr>) (insert p live)" "p \<notin> live"
    "p \<in> chunks pool"
    using inv fl by (auto simp: pool_inv_def chunks_def)
  show "mem_read p (unat s) m = replicate (unat s) 0"
    using inv fl by (simp add: pool_inv_def)
qed

lemma pool_malloc_inv:
  assumes inv: "pool_inv m s pool live" and fr: "fresh m" and ma: "pool_malloc pool m = Some (ret, pool', m')"
  obtains p where "ret = Some p" and "p \<notin> live" and "pool_inv m' s pool' (insert p live)"
    and "p \<in> chunks pool'" and "mem_read p (unat s) m' = replicate (unat s) 0" and "fresh m'"
    and "set (all_mem_list pool') \<subseteq> insert (next_block m) (set (all_mem_list pool))"
    and "\<And>b. b \<noteq> next_block m \<Longrightarrow> blocks m' b = blocks m b"
proof -
  obtain pool1 m1 where e: "(if free_list pool = [] then doExpand pool m else Some (pool, m)) = Some (pool1, m1)"
    using ma by (auto simp: pool_malloc_def split: option.splits)
  have 1: "pool_inv m1 s pool1 live" "fresh m1" "free_list pool1 \<noteq> []"
    "set (all_mem_list pool1) \<subseteq> insert (next_block m) (set (all_mem_list pool))"
    "\<And>b. b \<noteq> next_block m \<Longrightarrow> blocks m1 b = blocks m b"
    using e inv fr doExpand_inv [OF inv fr] by (auto split: if_splits)
  then obtain p ps where fl: "free_list pool1 = p # ps" by (cases "free_list pool1") auto
  have res: "ret = Some p" "m' = m1" "pool' = pool1\<lparr>free_list := ps, history_get := history_get pool1 + 1\<rparr>"
    using ma e fl by (auto simp: pool_malloc_def)
  note pop = pool_pop_inv [OF 1(1) fl]
  have "p \<in> chunks pool'" using pop(3) res(3) by (simp add: chunks_def)
  then show ?thesis
    using that [OF res(1)] pop(1,2,4) 1 res by simp
qed

lemma pool_free_inv:
  assumes inv: "pool_inv m s pool live" and p: "p \<in> live"
    and fe: "pool_free (Some p) pool m = (ret, pool', m')"
  shows "ret" and "pool_inv m' s pool' (live - {p})" and "all_mem_list pool' = all_mem_list pool"
    and "\<And>b. b \<notin> set (all_mem_list pool) \<Longrightarrow> blocks m' b = blocks m b"
    and "\<And>b. blocks m' b = None \<longleftrightarrow> blocks m b = None" and "next_block m' = next_block m"
    and "\<And>q. q \<in> chunks pool \<Longrightarrow> q \<noteq> p \<Longrightarrow> mem_read q (unat s) m' = mem_read q (unat s) m"
proof -
  let ?z = "replicate (unat s) (0 :: byte)"
  have cls: "p_size pool = s" "p_count pool = getCount s" and sets: "set (free_list pool) \<union> live = chunks pool"
    using inv by (auto simp: pool_inv_def)
  have res: "ret" "m' = mem_write p ?z m"
    "pool' = pool\<lparr>free_list := free_list pool @ [p], history_free := history_free pool + 1\<rparr>"
    using fe cls by (auto simp: pool_free_def memset_def)
  have pc: "p \<in> chunks pool" using p sets by auto
  then have "fst p \<in> set (all_mem_list pool)" by (auto simp: chunks_def)
  with inv obtain c where c: "blocks m (fst p) = Some c" "length c = unat s * unat (getCount s)"
    by (auto simp: pool_inv_def)
  have inside: "snd p + length ?z \<le> length c"
    using chunk_inside [OF pc] cls c(2) by simp
  have self: "mem_read p (unat s) m' = ?z"
    using mem_read_write_same [OF c(1) inside] res(2) by simp
  show others: "\<And>q. q \<in> chunks pool \<Longrightarrow> q \<noteq> p \<Longrightarrow> mem_read q (unat s) m' = mem_read q (unat s) m"
    using chunks_apart [OF pc] cls inside c(1) unfolding res(2)
    by (intro mem_read_write_other) fastforce+
  have zero: "mem_read q (unat s) m' = ?z" if "q \<in> set (free_list pool)" for q
    using that inv self others [of q] sets by (cases "q = p") (auto simp: pool_inv_def)
  have blk: "blocks m' b = (if b = fst p then Some (mem_put (snd p) ?z c) else blocks m b)" for b
    using c res(2) by (simp add: mem_write_def)
  have "p \<notin> set (free_list pool)" using inv p by (auto simp: pool_inv_def)
  moreover have "chunks pool' = chunks pool" using res(3) by (simp add: chunks_def)
  ultimately show "pool_inv m' s pool' (live - {p})"
    using inv p self zero blk c inside res(3) sets by (auto simp: pool_inv_def mem_simps)
  show "ret" "all_mem_list pool' = all_mem_list pool" using res by simp_all
  show "\<And>b. b \<notin> set (all_mem_list pool) \<Longrightarrow> blocks m' b = blocks m b"
    using blk \<open>fst p \<in> set (all_mem_list pool)\<close> by auto
  show "\<And>b. blocks m' b = None \<longleftrightarrow> blocks m b = None" using blk c(1) by auto
  show "next_block m' = next_block m" using res(2) c(1) by (simp add: mem_write_def)
qed

section \<open>The invariant of the manager\<close>

definition live :: "mallocManager \<Rightarrow> u32 \<Rightarrow> ptr set" where
  "live g s = {p. small_ptr_list g p = Some s}"

definition mm_inv :: "mallocManager \<Rightarrow> bool" where
  "mm_inv g \<longleftrightarrow>
     fresh (mem g)
     \<and> (\<forall>s. case small_list g s of None \<Rightarrow> live g s = {} | Some pool \<Rightarrow> pool_inv (mem g) s pool (live g s))
     \<and> (\<forall>s s' pool pool'. s \<noteq> s' \<longrightarrow> small_list g s = Some pool \<longrightarrow> small_list g s' = Some pool' \<longrightarrow>
          set (all_mem_list pool) \<inter> set (all_mem_list pool') = {})
     \<and> (\<forall>p s. big_ptr_list g p = Some s \<longrightarrow>
          snd p = 0 \<and> (\<exists>c. blocks (mem g) (fst p) = Some c \<and> length c = unat s)
          \<and> (\<forall>s' pool. small_list g s' = Some pool \<longrightarrow> fst p \<notin> set (all_mem_list pool)))"

lemma mm_inv_new: "mm_inv (mallocManager_new sys)"
  by (simp add: mm_inv_def mallocManager_new_def fresh_def live_def)

lemma mm_invD:
  assumes "mm_inv g"
  shows "fresh (mem g)"
    and "small_list g s = Some pool \<Longrightarrow> pool_inv (mem g) s pool (live g s)"
    and "small_list g s = None \<Longrightarrow> live g s = {}"
    and "s \<noteq> s' \<Longrightarrow> small_list g s = Some pool \<Longrightarrow> small_list g s' = Some pool' \<Longrightarrow>
      set (all_mem_list pool) \<inter> set (all_mem_list pool') = {}"
    and "big_ptr_list g p = Some s \<Longrightarrow> snd p = 0 \<and> (\<exists>c. blocks (mem g) (fst p) = Some c \<and> length c = unat s)"
    and "big_ptr_list g p = Some s \<Longrightarrow> small_list g s' = Some pool \<Longrightarrow> fst p \<notin> set (all_mem_list pool)"
proof -
  note i = assms [unfolded mm_inv_def]
  show "fresh (mem g)" using i by (rule conjunct1)
  have "\<forall>s. case small_list g s of None \<Rightarrow> live g s = {} | Some pool \<Rightarrow> pool_inv (mem g) s pool (live g s)"
    using i by blast
  then show "small_list g s = Some pool \<Longrightarrow> pool_inv (mem g) s pool (live g s)"
    "small_list g s = None \<Longrightarrow> live g s = {}"
    by (auto dest: spec [of _ s])
  show "s \<noteq> s' \<Longrightarrow> small_list g s = Some pool \<Longrightarrow> small_list g s' = Some pool' \<Longrightarrow>
      set (all_mem_list pool) \<inter> set (all_mem_list pool') = {}"
    using i by blast
  show "big_ptr_list g p = Some s \<Longrightarrow> snd p = 0 \<and> (\<exists>c. blocks (mem g) (fst p) = Some c \<and> length c = unat s)"
    "big_ptr_list g p = Some s \<Longrightarrow> small_list g s' = Some pool \<Longrightarrow> fst p \<notin> set (all_mem_list pool)"
    using i by blast+
qed

lemma live_pool:
  assumes "mm_inv g" and "small_ptr_list g p = Some s"
  obtains pool where "small_list g s = Some pool" and "pool_inv (mem g) s pool (live g s)"
    and "p \<in> live g s" and "p \<in> chunks pool" and "fst p \<in> set (all_mem_list pool)"
proof -
  have p: "p \<in> live g s" using assms(2) by (simp add: live_def)
  with mm_invD(3) [OF assms(1), of s] obtain pool where pool: "small_list g s = Some pool"
    by (cases "small_list g s") auto
  from mm_invD(2) [OF assms(1) pool] have inv: "pool_inv (mem g) s pool (live g s)" .
  then have "p \<in> chunks pool" using p by (auto simp: pool_inv_def)
  then show ?thesis using that [OF pool inv p] by (auto simp: chunks_def)
qed


subsection \<open>Allocation\<close>

text \<open>The pool the request is served from, created if this is the first request of its size.\<close>

definition the_pool :: "u32 \<Rightarrow> mallocManager \<Rightarrow> (mallocPool \<times> memory) option" where
  "the_pool sz g =
     (case small_list g sz of None \<Rightarrow> mallocPool_new sz (getCount sz) (mem g) | Some pool \<Rightarrow> Some (pool, mem g))"

lemma mm_malloc_small:
  assumes "fixSize req < mem_max_size"
  shows "mm_malloc req g =
    (case the_pool (fixSize req) g of
       None \<Rightarrow> None
     | Some (pool, m) \<Rightarrow>
         (case pool_malloc pool m of
            None \<Rightarrow> None
          | Some (ret, pool, m) \<Rightarrow>
              Some (ret, g\<lparr>small_list := (small_list g)(fixSize req \<mapsto> pool),
                small_ptr_list := (case ret of None \<Rightarrow> small_ptr_list g
                  | Some p \<Rightarrow> map_insert p (fixSize req) (small_ptr_list g)), mem := m\<rparr>)))"
  using assms
  by (cases "small_list g (fixSize req)")
    (auto simp: mm_malloc_def the_pool_def map_insert_def Let_def split: option.splits)

lemma the_pool_inv:
  assumes inv: "mm_inv g" and cls: "pool_class sz" and tp: "the_pool sz g = Some (pool, m)"
  shows "pool_inv m sz pool (live g sz)" and "fresh m"
    and "b \<in> set (all_mem_list pool) \<Longrightarrow> blocks (mem g) b = None
      \<or> (\<exists>old. small_list g sz = Some old \<and> b \<in> set (all_mem_list old))"
    and "blocks (mem g) b \<noteq> None \<Longrightarrow> blocks m b = blocks (mem g) b"
    and "next_block (mem g) \<le> next_block m"
proof -
  have fr: "fresh (mem g)" using inv by (rule mm_invD)
  have unused: "blocks (mem g) (next_block (mem g)) = None"
    using fr by (auto simp: fresh_def)
  have "pool_inv m sz pool (live g sz) \<and> fresh m
    \<and> (b \<in> set (all_mem_list pool) \<longrightarrow> blocks (mem g) b = None
        \<or> (\<exists>old. small_list g sz = Some old \<and> b \<in> set (all_mem_list old)))
    \<and> (blocks (mem g) b \<noteq> None \<longrightarrow> blocks m b = blocks (mem g) b) \<and> next_block (mem g) \<le> next_block m"
  proof (cases "small_list g sz")
    case (Some old)
    with tp inv fr show ?thesis using mm_invD(2) [OF inv Some] by (auto simp: the_pool_def)
  next
    case None
    let ?e = "\<lparr>p_size = sz, p_count = getCount sz, all_mem_list = [], free_list = [],
      history_count = 0, history_get = 0, history_free = 0\<rparr>"
    have ex: "doExpand ?e (mem g) = Some (pool, m)"
      using None tp by (simp add: the_pool_def mallocPool_new_def)
    from doExpand_inv [OF pool_inv_empty [OF cls] fr ex] unused mm_invD(3) [OF inv None]
    show ?thesis by (cases "b = next_block (mem g)") auto
  qed
  then show "pool_inv m sz pool (live g sz)" "fresh m"
    "b \<in> set (all_mem_list pool) \<Longrightarrow> blocks (mem g) b = None
      \<or> (\<exists>old. small_list g sz = Some old \<and> b \<in> set (all_mem_list old))"
    "blocks (mem g) b \<noteq> None \<Longrightarrow> blocks m b = blocks (mem g) b"
    "next_block (mem g) \<le> next_block m"
    by blast+
qed

text \<open>
  What a small allocation does: only the pool of its size class changes, it gains one live,
  zeroed piece, and every block that was live before keeps its contents.
\<close>

lemma small_malloc_step:
  assumes inv: "mm_inv g" and small: "fixSize req < mem_max_size" and ma: "mm_malloc req g = Some (ret, g')"
  obtains p pool' where "ret = Some p" and "p \<notin> live g (fixSize req)" and "p \<in> chunks pool'"
    and "g' = g\<lparr>small_list := (small_list g)(fixSize req \<mapsto> pool'),
               small_ptr_list := map_insert p (fixSize req) (small_ptr_list g), mem := mem g'\<rparr>"
    and "pool_inv (mem g') (fixSize req) pool' (insert p (live g (fixSize req)))" and "fresh (mem g')"
    and "mem_read p (unat (fixSize req)) (mem g') = replicate (unat (fixSize req)) 0"
    and "\<And>b. b \<in> set (all_mem_list pool') \<Longrightarrow> blocks (mem g) b = None
           \<or> (\<exists>old. small_list g (fixSize req) = Some old \<and> b \<in> set (all_mem_list old))"
    and "\<And>b. blocks (mem g) b \<noteq> None \<Longrightarrow> blocks (mem g') b = blocks (mem g) b"
proof -
  let ?sz = "fixSize req"
  obtain pool m r pool' m' where tp: "the_pool ?sz g = Some (pool, m)"
    and pm: "pool_malloc pool m = Some (r, pool', m')"
    and g1: "ret = r" "g' = g\<lparr>small_list := (small_list g)(?sz \<mapsto> pool'),
      small_ptr_list := (case r of None \<Rightarrow> small_ptr_list g | Some p \<Rightarrow> map_insert p ?sz (small_ptr_list g)), mem := m'\<rparr>"
    using ma by (auto simp: mm_malloc_small [OF small] split: option.splits)
  note i = the_pool_inv [OF inv fixSize_class [OF small] tp]
  from pool_malloc_inv [OF i(1,2) pm] obtain p where p: "r = Some p" "p \<notin> live g ?sz"
    "pool_inv m' ?sz pool' (insert p (live g ?sz))" "p \<in> chunks pool'"
    "mem_read p (unat ?sz) m' = replicate (unat ?sz) 0" "fresh m'"
    "set (all_mem_list pool') \<subseteq> insert (next_block m) (set (all_mem_list pool))"
    "\<And>b. b \<noteq> next_block m \<Longrightarrow> blocks m' b = blocks m b" by metis
  have g': "ret = Some p" "g' = g\<lparr>small_list := (small_list g)(?sz \<mapsto> pool'),
      small_ptr_list := map_insert p ?sz (small_ptr_list g), mem := m'\<rparr>"
    using g1 p(1) by simp_all
  have next_unused: "blocks (mem g) (next_block m) = None"
    using mm_invD(1) [OF inv] i(5) by (force simp: fresh_def)
  show ?thesis
  proof (rule that [OF g'(1) p(2,4)])
    show "blocks (mem g) b = None \<or> (\<exists>old. small_list g ?sz = Some old \<and> b \<in> set (all_mem_list old))"
      if "b \<in> set (all_mem_list pool')" for b
      using that p(7) i(3) [of b] next_unused by auto
    show "blocks (mem g') b = blocks (mem g) b" if "blocks (mem g) b \<noteq> None" for b
      using that p(8) [of b] i(4) [of b] next_unused g'(2) by (cases "b = next_block m") auto
  qed (use g'(2) p in simp_all)
qed


lemma pool_blocks_live:
  "mm_inv g \<Longrightarrow> small_list g s = Some pool \<Longrightarrow> b \<in> set (all_mem_list pool) \<Longrightarrow> blocks (mem g) b \<noteq> None"
  using mm_invD(2) [of g s pool] by (auto simp: pool_inv_def)

lemma live_other [simp]: "s' \<noteq> s \<Longrightarrow> live (g\<lparr>small_ptr_list := (small_ptr_list g)(p \<mapsto> s)\<rparr>) s' = live g s' - {p}"
  by (auto simp: live_def)

lemma small_malloc_fresh:
  assumes inv: "mm_inv g" and p: "p \<notin> live g sz" "p \<in> chunks pool'"
    and old: "\<And>b. b \<in> set (all_mem_list pool') \<Longrightarrow> blocks (mem g) b = None
           \<or> (\<exists>old. small_list g sz = Some old \<and> b \<in> set (all_mem_list old))"
  shows "small_ptr_list g p = None" and "big_ptr_list g p = None"
proof -
  have b: "fst p \<in> set (all_mem_list pool')" using p(2) by (auto simp: chunks_def)
  show "small_ptr_list g p = None"
  proof (rule ccontr)
    assume "small_ptr_list g p \<noteq> None"
    then obtain s where s: "small_ptr_list g p = Some s" by auto
    from live_pool [OF inv s] obtain pool where pool: "small_list g s = Some pool" "p \<in> live g s"
      "fst p \<in> set (all_mem_list pool)" by metis
    with pool_blocks_live [OF inv pool(1,3)] old [OF b] obtain o' where
      "small_list g sz = Some o'" "fst p \<in> set (all_mem_list o')" by auto
    with mm_invD(4) [OF inv _ pool(1), of sz o'] pool p(1) show False by auto
  qed
  show "big_ptr_list g p = None"
  proof (rule ccontr)
    assume "big_ptr_list g p \<noteq> None"
    then obtain s where s: "big_ptr_list g p = Some s" by auto
    with mm_invD(5,6) [OF inv s] old [OF b] show False by fastforce
  qed
qed

lemma mm_invI:
  assumes "fresh (mem g)"
    and "\<And>s. small_list g s = None \<Longrightarrow> live g s = {}"
    and "\<And>s pool. small_list g s = Some pool \<Longrightarrow> pool_inv (mem g) s pool (live g s)"
    and "\<And>s s' pool pool'. s \<noteq> s' \<Longrightarrow> small_list g s = Some pool \<Longrightarrow> small_list g s' = Some pool' \<Longrightarrow>
      set (all_mem_list pool) \<inter> set (all_mem_list pool') = {}"
    and "\<And>p s. big_ptr_list g p = Some s \<Longrightarrow>
      snd p = 0 \<and> (\<exists>c. blocks (mem g) (fst p) = Some c \<and> length c = unat s)"
    and "\<And>p s s' pool. big_ptr_list g p = Some s \<Longrightarrow> small_list g s' = Some pool \<Longrightarrow>
      fst p \<notin> set (all_mem_list pool)"
  shows "mm_inv g"
  unfolding mm_inv_def
proof (intro conjI allI impI)
  show "case small_list g s of None \<Rightarrow> live g s = {} | Some pool \<Rightarrow> pool_inv (mem g) s pool (live g s)" for s
    using assms(2,3) by (cases "small_list g s") simp_all
qed (use assms in blast)+

lemma mm_malloc_small_inv:
  assumes inv: "mm_inv g" and small: "fixSize req < mem_max_size" and ma: "mm_malloc req g = Some (ret, g')"
  shows "mm_inv g'"
proof (rule small_malloc_step [OF assms])
  let ?sz = "fixSize req"
  fix p pool'
  assume p: "p \<notin> live g ?sz" "p \<in> chunks pool'"
    and g': "g' = g\<lparr>small_list := (small_list g)(?sz \<mapsto> pool'),
           small_ptr_list := map_insert p ?sz (small_ptr_list g), mem := mem g'\<rparr>"
    and pinv: "pool_inv (mem g') ?sz pool' (insert p (live g ?sz))" and fr: "fresh (mem g')"
    and old: "\<And>b. b \<in> set (all_mem_list pool') \<Longrightarrow> blocks (mem g) b = None
       \<or> (\<exists>old. small_list g ?sz = Some old \<and> b \<in> set (all_mem_list old))"
    and keep: "\<And>b. blocks (mem g) b \<noteq> None \<Longrightarrow> blocks (mem g') b = blocks (mem g) b"
  have none: "small_ptr_list g p = None"
    by (rule small_malloc_fresh(1) [OF inv p old])
  have sl: "small_list g' = (small_list g)(?sz \<mapsto> pool')"
    by (subst g') simp
  have bl: "big_ptr_list g' = big_ptr_list g"
    by (subst g') simp
  have sp: "small_ptr_list g' = (small_ptr_list g)(p \<mapsto> ?sz)"
    by (subst g') (simp add: none map_insert_def)
  have live': "live g' s = (if s = ?sz then insert p (live g s) else live g s)" for s
    using none by (auto simp: live_def sp)
  have apart: "set (all_mem_list pool') \<inter> set (all_mem_list q) = {}"
    if "s \<noteq> ?sz" "small_list g s = Some q" for s q
    using old pool_blocks_live [OF inv that(2)] mm_invD(4) [OF inv that(1,2)] by fastforce
  show ?thesis
  proof (rule mm_invI [OF fr])
    show "live g' s = {}" if "small_list g' s = None" for s
      using that mm_invD(3) [OF inv, of s] by (auto simp: sl live' split: if_splits)
    show "pool_inv (mem g') s pool (live g' s)" if "small_list g' s = Some pool" for s pool
    proof (cases "s = ?sz")
      case True
      with that pinv show ?thesis by (simp add: sl live')
    next
      case False
      with that have q: "small_list g s = Some pool" by (simp add: sl)
      have "pool_inv (mem g') s pool (live g s)"
        using pool_blocks_live [OF inv q] keep by (intro pool_inv_frame [OF mm_invD(2) [OF inv q]]) blast
      with False show ?thesis by (simp add: live')
    qed
    show "set (all_mem_list q) \<inter> set (all_mem_list q') = {}"
      if "s \<noteq> s'" "small_list g' s = Some q" "small_list g' s' = Some q'" for s s' q q'
    proof (cases "s = ?sz \<or> s' = ?sz")
      case True
      then show ?thesis using that apart [of s' q'] apart [of s q] by (auto simp: sl)
    next
      case False
      then show ?thesis using that mm_invD(4) [OF inv that(1)] by (simp add: sl)
    qed
    show "snd q = 0 \<and> (\<exists>c. blocks (mem g') (fst q) = Some c \<and> length c = unat s)"
      if "big_ptr_list g' q = Some s" for q s
      using that mm_invD(5) [OF inv, of q s] keep [of "fst q"] by (auto simp: bl)
    show "fst q \<notin> set (all_mem_list pool)"
      if "big_ptr_list g' q = Some s" "small_list g' s' = Some pool" for q s s' pool
    proof -
      have q: "big_ptr_list g q = Some s" using that(1) by (simp add: bl)
      note b = mm_invD(5) [OF inv q] mm_invD(6) [OF inv q]
      show ?thesis
      proof (cases "s' = ?sz")
        case True
        with that(2) have "pool = pool'" by (simp add: sl)
        with b old [of "fst q"] show ?thesis by auto
      next
        case False
        with that(2) b(2) show ?thesis by (simp add: sl)
      qed
    qed
  qed
qed

lemma mm_malloc_big:
  assumes "\<not> fixSize req < mem_max_size" and "mm_malloc req g = Some (ret, g')"
  shows "ret = Some (next_block (mem g), 0)"
    and "g' = g\<lparr>big_ptr_list := map_insert (next_block (mem g), 0) (fixSize req) (big_ptr_list g),
      mem := (mem g)\<lparr>blocks := (blocks (mem g))(next_block (mem g) \<mapsto> replicate (unat (fixSize req)) 0),
        next_block := Suc (next_block (mem g))\<rparr>\<rparr>"
  using assms cleared_block(2) [of "unat (fixSize req)" "mem g"]
  by (auto simp: mm_malloc_def Let_def split: option.splits)

lemma next_block_unused:
  assumes "mm_inv g"
  shows "blocks (mem g) (next_block (mem g)) = None" and "big_ptr_list g (next_block (mem g), n) = None"
    and "small_ptr_list g (next_block (mem g), n) = None"
    and "small_list g s = Some pool \<Longrightarrow> next_block (mem g) \<notin> set (all_mem_list pool)"
proof -
  show *: "blocks (mem g) (next_block (mem g)) = None"
    using mm_invD(1) [OF assms] by (auto simp: fresh_def)
  show "big_ptr_list g (next_block (mem g), n) = None"
  proof (rule ccontr)
    assume "big_ptr_list g (next_block (mem g), n) \<noteq> None"
    then obtain s where "big_ptr_list g (next_block (mem g), n) = Some s" by auto
    from mm_invD(5) [OF assms this] * show False by auto
  qed
  show "small_list g s = Some pool \<Longrightarrow> next_block (mem g) \<notin> set (all_mem_list pool)"
    using pool_blocks_live [OF assms] * by blast
  show "small_ptr_list g (next_block (mem g), n) = None"
  proof (rule ccontr)
    assume "small_ptr_list g (next_block (mem g), n) \<noteq> None"
    then obtain s where s: "small_ptr_list g (next_block (mem g), n) = Some s" by auto
    obtain pool where "small_list g s = Some pool" "next_block (mem g) \<in> set (all_mem_list pool)"
      using live_pool [OF assms s] by auto
    from pool_blocks_live [OF assms this] * show False by simp
  qed
qed

lemma mm_malloc_big_inv:
  assumes inv: "mm_inv g" and big: "\<not> fixSize req < mem_max_size" and ma: "mm_malloc req g = Some (ret, g')"
  shows "mm_inv g'"
proof -
  let ?b = "next_block (mem g)"
  note g' = mm_malloc_big(2) [OF big ma] and nb = next_block_unused [OF inv]
  have fields: "small_list g' = small_list g" "small_ptr_list g' = small_ptr_list g"
    "big_ptr_list g' = (big_ptr_list g)((?b, 0) \<mapsto> fixSize req)"
    "blocks (mem g') = (blocks (mem g))(?b \<mapsto> replicate (unat (fixSize req)) 0)"
    "next_block (mem g') = Suc ?b"
    using nb(2) [of 0] by (simp_all add: g' map_insert_def)
  have live': "live g' = live g" by (auto simp: live_def fields)
  show ?thesis
  proof (rule mm_invI)
    show "fresh (mem g')"
      using mm_invD(1) [OF inv] by (auto simp: fresh_def fields less_Suc_eq)
    show "live g' s = {}" if "small_list g' s = None" for s
      using that mm_invD(3) [OF inv] by (simp add: fields live')
    show "pool_inv (mem g') s pool (live g' s)" if "small_list g' s = Some pool" for s pool
    proof -
      have q: "small_list g s = Some pool" using that by (simp add: fields)
      show ?thesis
        unfolding live' using nb(4) [OF q]
        by (intro pool_inv_frame [OF mm_invD(2) [OF inv q]]) (auto simp: fields)
    qed
    show "snd q = 0 \<and> (\<exists>c. blocks (mem g') (fst q) = Some c \<and> length c = unat s)"
      "small_list g' s' = Some pool \<Longrightarrow> fst q \<notin> set (all_mem_list pool)"
      if "big_ptr_list g' q = Some s" for q s s' pool
      using that mm_invD(5,6) [OF inv, of q s] nb(1) nb(4) [of s' pool]
      by (auto simp: fields split: if_splits)
  qed (use mm_invD(4) [OF inv] in \<open>simp add: fields\<close>)
qed

lemma mm_malloc_inv: "mm_inv g \<Longrightarrow> mm_malloc req g = Some (ret, g') \<Longrightarrow> mm_inv g'"
  using mm_malloc_small_inv mm_malloc_big_inv by blast


subsection \<open>Release\<close>

lemma mm_free_small:
  assumes "small_ptr_list g p = Some s" and "small_list g s = Some pool"
    and "pool_free (Some p) pool (mem g) = (ret, pool', m')"
  shows "mm_free (Some p) g = (ret, g\<lparr>small_list := (small_list g)(s \<mapsto> pool'),
    small_ptr_list := (small_ptr_list g)(p := None), mem := m'\<rparr>)"
  using assms by (simp add: mm_free_def)

lemma mm_free_big:
  assumes "small_ptr_list g p = None" and "big_ptr_list g p = Some s"
  shows "mm_free (Some p) g = (True, g\<lparr>big_ptr_list := (big_ptr_list g)(p := None),
    mem := delete_block (fst p) (mem g)\<rparr>)"
  using assms by (simp add: mm_free_def)

lemma mm_free_unknown: "capacity g p = None \<Longrightarrow> mm_free (Some p) g = (False, g)"
  by (auto simp: mm_free_def capacity_def split: option.splits)

text \<open>Two blocks of the manager with different owners are different blocks.\<close>

lemma small_big_apart:
  assumes "mm_inv g" and "small_ptr_list g p = Some s" and "big_ptr_list g q = Some t"
  shows "fst p \<noteq> fst q"
proof -
  obtain pool where "small_list g s = Some pool" "fst p \<in> set (all_mem_list pool)"
    using live_pool [OF assms(1,2)] by metis
  with mm_invD(6) [OF assms(1,3)] show ?thesis by metis
qed

lemma small_small_apart:
  assumes inv: "mm_inv g" and p: "small_ptr_list g p = Some s" and q: "small_ptr_list g q = Some t"
    and "s \<noteq> t"
  shows "fst p \<noteq> fst q"
proof -
  obtain pool where "small_list g s = Some pool" "fst p \<in> set (all_mem_list pool)"
    using live_pool [OF inv p] by metis
  moreover obtain pool' where "small_list g t = Some pool'" "fst q \<in> set (all_mem_list pool')"
    using live_pool [OF inv q] by metis
  ultimately show ?thesis using mm_invD(4) [OF inv \<open>s \<noteq> t\<close>] by fastforce
qed

lemma mm_free_small_inv:
  assumes inv: "mm_inv g" and p: "small_ptr_list g p = Some s" and fe: "mm_free (Some p) g = (ret, g')"
  shows "ret" and "mm_inv g'"
proof -
  obtain pool where pool: "small_list g s = Some pool" "pool_inv (mem g) s pool (live g s)"
    "p \<in> live g s" "fst p \<in> set (all_mem_list pool)"
    using live_pool [OF inv p] by metis
  obtain r pool' m' where pf: "pool_free (Some p) pool (mem g) = (r, pool', m')"
    by (cases "pool_free (Some p) pool (mem g)") auto
  note st = pool_free_inv [OF pool(2,3) pf]
  have g': "ret = r" "g' = g\<lparr>small_list := (small_list g)(s \<mapsto> pool'),
      small_ptr_list := (small_ptr_list g)(p := None), mem := m'\<rparr>"
    using fe mm_free_small [OF p pool(1) pf] by simp_all
  then show ret using st(1) by simp
  have fields: "small_list g' = (small_list g)(s \<mapsto> pool')" "mem g' = m'"
    "small_ptr_list g' = (small_ptr_list g)(p := None)" "big_ptr_list g' = big_ptr_list g"
    by (simp_all add: g'(2))
  have live': "live g' t = (if t = s then live g s - {p} else live g t)" for t
    using p by (auto simp: live_def fields)
  have same: "all_mem_list q = all_mem_list (the (small_list g t))" "small_list g t \<noteq> None"
    if "small_list g' t = Some q" for t q
    using that st(3) pool(1) by (auto simp: fields split: if_splits)
  show "mm_inv g'"
  proof (rule mm_invI)
    show "fresh (mem g')"
      using mm_invD(1) [OF inv] st(5,6) by (auto simp: fresh_def fields)
    show "live g' t = {}" if "small_list g' t = None" for t
      using that mm_invD(3) [OF inv, of t] by (auto simp: live' fields split: if_splits)
    show "pool_inv (mem g') t q (live g' t)" if "small_list g' t = Some q" for t q
    proof (cases "t = s")
      case True
      with that st(2) show ?thesis by (simp add: live' fields)
    next
      case False
      with that have q: "small_list g t = Some q" by (simp add: fields)
      have "pool_inv (mem g') t q (live g t)"
        using mm_invD(4) [OF inv False q pool(1)] st(4)
        by (intro pool_inv_frame [OF mm_invD(2) [OF inv q]]) (auto simp: fields)
      with False show ?thesis by (simp add: live')
    qed
    show "set (all_mem_list q) \<inter> set (all_mem_list q') = {}"
      if "t \<noteq> t'" "small_list g' t = Some q" "small_list g' t' = Some q'" for t t' q q'
      using same [OF that(2)] same [OF that(3)] mm_invD(4) [OF inv that(1)] by auto
    show "snd q = 0 \<and> (\<exists>c. blocks (mem g') (fst q) = Some c \<and> length c = unat t)"
      if "big_ptr_list g' q = Some t" for q t
    proof -
      have q: "big_ptr_list g q = Some t" using that by (simp add: fields)
      from mm_invD(5) [OF inv q] st(4) [of "fst q"] mm_invD(6) [OF inv q pool(1)]
      show ?thesis by (simp add: fields)
    qed
    show "fst q \<notin> set (all_mem_list r)"
      if "big_ptr_list g' q = Some t" "small_list g' t' = Some r" for q t t' r
    proof -
      have q: "big_ptr_list g q = Some t" using that(1) by (simp add: fields)
      from same [OF that(2)] mm_invD(6) [OF inv q] show ?thesis by auto
    qed
  qed
qed

lemma mm_free_big_inv:
  assumes inv: "mm_inv g" and sp: "small_ptr_list g p = None" and p: "big_ptr_list g p = Some s"
    and fe: "mm_free (Some p) g = (ret, g')"
  shows "ret" and "mm_inv g'"
proof -
  have g': "ret" "g' = g\<lparr>big_ptr_list := (big_ptr_list g)(p := None), mem := delete_block (fst p) (mem g)\<rparr>"
    using fe mm_free_big [OF sp p] by simp_all
  then show ret by simp
  have fields: "small_list g' = small_list g" "small_ptr_list g' = small_ptr_list g"
    "blocks (mem g') = (blocks (mem g))(fst p := None)" "next_block (mem g') = next_block (mem g)"
    "big_ptr_list g' = (big_ptr_list g)(p := None)"
    by (simp_all add: g' delete_block_def)
  have live': "live g' = live g" by (auto simp: live_def fields)
  have same_block: "q = p" if "big_ptr_list g q = Some t" "fst q = fst p" for q t
    using that mm_invD(5) [OF inv that(1)] mm_invD(5) [OF inv p] by (simp add: prod_eq_iff)
  show "mm_inv g'"
  proof (rule mm_invI)
    show "fresh (mem g')"
      using mm_invD(1) [OF inv] by (auto simp: fresh_def fields)
    show "live g' t = {}" if "small_list g' t = None" for t
      using that mm_invD(3) [OF inv] by (simp add: fields live')
    show "pool_inv (mem g') t q (live g' t)" if "small_list g' t = Some q" for t q
    proof -
      have q: "small_list g t = Some q" using that by (simp add: fields)
      show ?thesis
        unfolding live' using mm_invD(6) [OF inv p q]
        by (intro pool_inv_frame [OF mm_invD(2) [OF inv q]]) (auto simp: fields)
    qed
    show "snd q = 0 \<and> (\<exists>c. blocks (mem g') (fst q) = Some c \<and> length c = unat t)"
      if "big_ptr_list g' q = Some t" for q t
      using that mm_invD(5) [OF inv, of q t] same_block [of q t] by (auto simp: fields split: if_splits)
    show "fst q \<notin> set (all_mem_list r)"
      if "big_ptr_list g' q = Some t" "small_list g' t' = Some r" for q t t' r
      using that mm_invD(6) [OF inv, of q t t' r] by (auto simp: fields split: if_splits)
  qed (use mm_invD(4) [OF inv] in \<open>simp add: fields\<close>)
qed

lemma capacity_cases:
  assumes "capacity g p = Some c"
  obtains (small) "small_ptr_list g p = Some c" | (big) "small_ptr_list g p = None" "big_ptr_list g p = Some c"
  using assms by (auto simp: capacity_def split: option.splits)

lemma mm_free_live:
  assumes "mm_inv g" and "capacity g p = Some c" and "mm_free (Some p) g = (ret, g')"
  shows "ret" and "mm_inv g'"
proof -
  from assms(2) have "ret \<and> mm_inv g'"
  proof (cases rule: capacity_cases)
    case small
    from mm_free_small_inv [OF assms(1) this assms(3)] show ?thesis by simp
  next
    case big
    from mm_free_big_inv [OF assms(1) big assms(3)] show ?thesis by simp
  qed
  then show "ret" "mm_inv g'" by simp_all
qed

lemma mm_free_inv:
  assumes "mm_inv g" and "mm_free pt g = (ret, g')"
  shows "mm_inv g'"
proof (cases pt)
  case None
  with assms show ?thesis by (simp add: mm_free_def)
next
  case (Some p)
  show ?thesis
  proof (cases "capacity g p")
    case None
    from mm_free_unknown [OF this] assms Some show ?thesis by simp
  next
    case c: (Some c)
    from mm_free_live [OF assms(1) c] assms(2) Some show ?thesis by simp
  qed
qed


subsection \<open>What the owner of a live pointer may rely on\<close>

definition bytes_at :: "mallocManager \<Rightarrow> ptr \<Rightarrow> nat \<Rightarrow> byte list" where
  "bytes_at g p n = mem_read p n (mem g)"

lemma live_inside:
  assumes inv: "mm_inv g" and p: "capacity g p = Some c"
  shows "\<exists>d. blocks (mem g) (fst p) = Some d \<and> snd p + unat c \<le> length d"
  using p
proof (cases rule: capacity_cases)
  case small
  obtain pool where pool: "pool_inv (mem g) c pool (live g c)" "p \<in> chunks pool"
    "fst p \<in> set (all_mem_list pool)"
    using live_pool [OF inv small] by metis
  with chunk_inside [OF pool(2)] show ?thesis by (fastforce simp: pool_inv_def)
next
  case big
  with mm_invD(5) [OF inv big(2)] show ?thesis by auto
qed

lemma live_apart:
  assumes inv: "mm_inv g" and p: "capacity g p = Some c" and q: "capacity g q = Some d" and ne: "p \<noteq> q"
  shows "fst p \<noteq> fst q \<or> snd q + unat d \<le> snd p \<or> snd p + unat c \<le> snd q"
  using p
proof (cases rule: capacity_cases)
  case small: small
  from q show ?thesis
  proof (cases rule: capacity_cases)
    case sq: small
    show ?thesis
    proof (cases "c = d")
      case True
      obtain pool where pool: "small_list g c = Some pool" "pool_inv (mem g) c pool (live g c)"
        "p \<in> chunks pool"
        using live_pool [OF inv small] by metis
      obtain pool' where "small_list g d = Some pool'" "q \<in> chunks pool'"
        using live_pool [OF inv sq] by metis
      with pool True have "q \<in> chunks pool" "p_size pool = c" by (simp_all add: pool_inv_def)
      with chunks_apart [OF pool(3) this(1) ne] True show ?thesis by simp
    next
      case False
      then show ?thesis using small_small_apart [OF inv small sq] by simp
    qed
  next
    case big
    with small_big_apart [OF inv small] show ?thesis by metis
  qed
next
  case big: big
  from q show ?thesis
  proof (cases rule: capacity_cases)
    case sq: small
    from small_big_apart [OF inv sq big(2)] show ?thesis by simp
  next
    case bq: big
    from mm_invD(5) [OF inv big(2)] mm_invD(5) [OF inv bq(2)] ne show ?thesis by (auto simp: prod_eq_iff)
  qed
qed

lemma same_block_read:
  "blocks m' (fst q) = blocks m (fst q) \<Longrightarrow> mem_read q n m' = mem_read q n m"
  by (simp add: mem_read_def)

lemma mm_malloc_spec:
  assumes inv: "mm_inv g" and ma: "mm_malloc req g = Some (ret, g')"
  shows "\<exists>p. ret = Some p \<and> mm_inv g' \<and> capacity g p = None
    \<and> capacity g' = (capacity g)(p \<mapsto> fixSize req)
    \<and> bytes_at g' p (unat (fixSize req)) = replicate (unat (fixSize req)) 0
    \<and> (\<forall>q d. capacity g q = Some d \<longrightarrow> bytes_at g' q (unat d) = bytes_at g q (unat d))"
proof (cases "fixSize req < mem_max_size")
  case True
  show ?thesis
  proof (rule small_malloc_step [OF inv True ma])
    let ?sz = "fixSize req"
    fix p pool'
    assume p: "ret = Some p" "p \<notin> live g ?sz" "p \<in> chunks pool'"
      and g': "g' = g\<lparr>small_list := (small_list g)(?sz \<mapsto> pool'),
             small_ptr_list := map_insert p ?sz (small_ptr_list g), mem := mem g'\<rparr>"
      and zero: "mem_read p (unat ?sz) (mem g') = replicate (unat ?sz) 0"
      and old: "\<And>b. b \<in> set (all_mem_list pool') \<Longrightarrow> blocks (mem g) b = None
         \<or> (\<exists>old. small_list g ?sz = Some old \<and> b \<in> set (all_mem_list old))"
      and keep: "\<And>b. blocks (mem g) b \<noteq> None \<Longrightarrow> blocks (mem g') b = blocks (mem g) b"
    note none = small_malloc_fresh [OF inv p(2,3) old]
    have bl: "big_ptr_list g' = big_ptr_list g" by (subst g') simp
    have sp: "small_ptr_list g' = (small_ptr_list g)(p \<mapsto> ?sz)"
      by (subst g') (simp add: none map_insert_def)
    have "bytes_at g' q (unat d) = bytes_at g q (unat d)" if "capacity g q = Some d" for q d
      using live_inside [OF inv that] keep [of "fst q"] by (auto simp: bytes_at_def mem_read_def)
    moreover have "capacity g p = None" using none by (simp add: capacity_def)
    moreover have "capacity g' = (capacity g)(p \<mapsto> ?sz)"
      by (auto simp: capacity_def fun_eq_iff sp bl split: option.splits)
    ultimately show ?thesis
      using p(1) zero mm_malloc_inv [OF inv ma] by (auto simp: bytes_at_def)
  qed
next
  case False
  let ?p = "(next_block (mem g), 0 :: nat)"
  note big = mm_malloc_big [OF False ma] and nb = next_block_unused [OF inv]
  have fields: "small_ptr_list g' = small_ptr_list g"
    "big_ptr_list g' = (big_ptr_list g)(?p \<mapsto> fixSize req)"
    "blocks (mem g') = (blocks (mem g))(fst ?p \<mapsto> replicate (unat (fixSize req)) 0)"
    using nb(2) [of 0] by (simp_all add: big map_insert_def)
  have "bytes_at g' q (unat d) = bytes_at g q (unat d)" if "capacity g q = Some d" for q d
    using live_inside [OF inv that] nb(1) unfolding bytes_at_def
    by (intro same_block_read) (auto simp: fields)
  moreover have "capacity g ?p = None" using nb(2,3) by (simp add: capacity_def)
  moreover have "capacity g' = (capacity g)(?p \<mapsto> fixSize req)"
    using nb(3) [of 0] by (auto simp: capacity_def fun_eq_iff fields split: option.splits)
  moreover have "bytes_at g' ?p (unat (fixSize req)) = replicate (unat (fixSize req)) 0"
    by (simp add: bytes_at_def mem_read_def fields mem_get_def)
  ultimately show ?thesis
    using big(1) mm_malloc_inv [OF inv ma] by auto
qed


lemma mm_free_spec:
  assumes inv: "mm_inv g" and p: "capacity g p = Some c" and fe: "mm_free (Some p) g = (ret, g')"
  shows "ret" and "mm_inv g'" and "capacity g' = (capacity g)(p := None)"
    and "q \<noteq> p \<Longrightarrow> capacity g q = Some d \<Longrightarrow> bytes_at g' q (unat d) = bytes_at g q (unat d)"
proof -
  show "ret" "mm_inv g'" using mm_free_live [OF assms] by simp_all
  from p have "capacity g' = (capacity g)(p := None)
    \<and> (q \<noteq> p \<longrightarrow> capacity g q = Some d \<longrightarrow> bytes_at g' q (unat d) = bytes_at g q (unat d))"
  proof (cases rule: capacity_cases)
    case small
    obtain pool where pool: "small_list g c = Some pool" "pool_inv (mem g) c pool (live g c)"
      "p \<in> live g c" "p \<in> chunks pool" "fst p \<in> set (all_mem_list pool)"
      using live_pool [OF inv small] by metis
    obtain r pool' m' where pf: "pool_free (Some p) pool (mem g) = (r, pool', m')"
      by (cases "pool_free (Some p) pool (mem g)") auto
    note st = pool_free_inv [OF pool(2,3) pf]
    have fields: "small_ptr_list g' = (small_ptr_list g)(p := None)" "big_ptr_list g' = big_ptr_list g"
      "mem g' = m'"
      using fe mm_free_small [OF small pool(1) pf] by auto
    have none: "big_ptr_list g p = None"
    proof (cases "big_ptr_list g p")
      case (Some t)
      from small_big_apart [OF inv small Some] show ?thesis by simp
    qed simp
    have cap: "capacity g' = (capacity g)(p := None)"
      using none by (auto simp: capacity_def fun_eq_iff fields split: option.splits)
    have "bytes_at g' q (unat d) = bytes_at g q (unat d)" if ne: "q \<noteq> p" and q: "capacity g q = Some d"
      using q
    proof (cases rule: capacity_cases)
      case sq: small
      show ?thesis
      proof (cases "d = c")
        case True
        obtain pool2 where "small_list g d = Some pool2" "q \<in> chunks pool2"
          using live_pool [OF inv sq] by metis
        with pool(1) True have "q \<in> chunks pool" by simp
        from st(7) [OF this ne] True show ?thesis by (simp add: bytes_at_def fields)
      next
        case False
        obtain pool2 where "small_list g d = Some pool2" "fst q \<in> set (all_mem_list pool2)"
          using live_pool [OF inv sq] by metis
        with mm_invD(4) [OF inv False this(1) pool(1)] have "fst q \<notin> set (all_mem_list pool)" by auto
        from st(4) [OF this] show ?thesis
          unfolding bytes_at_def by (intro same_block_read) (simp add: fields)
      qed
    next
      case big
      from st(4) [OF mm_invD(6) [OF inv big(2) pool(1)]] show ?thesis
        unfolding bytes_at_def by (intro same_block_read) (simp add: fields)
    qed
    with cap show ?thesis by simp
  next
    case big
    have g': "g' = g\<lparr>big_ptr_list := (big_ptr_list g)(p := None), mem := delete_block (fst p) (mem g)\<rparr>"
      using fe mm_free_big [OF big] by simp
    have cap: "capacity g' = (capacity g)(p := None)"
      using big(1) by (auto simp: g' capacity_def fun_eq_iff split: option.splits)
    have "bytes_at g' q (unat d) = bytes_at g q (unat d)" if ne: "q \<noteq> p" and q: "capacity g q = Some d"
    proof -
      have "fst q \<noteq> fst p" using q
      proof (cases rule: capacity_cases)
        case small
        from small_big_apart [OF inv this big(2)] show ?thesis .
      next
        case bq: big
        from mm_invD(5) [OF inv big(2)] mm_invD(5) [OF inv bq(2)] ne show ?thesis
          by (auto simp: prod_eq_iff)
      qed
      then show ?thesis
        unfolding bytes_at_def by (intro same_block_read) (simp add: g' delete_block_def)
    qed
    with cap show ?thesis by simp
  qed
  then show "capacity g' = (capacity g)(p := None)"
    "q \<noteq> p \<Longrightarrow> capacity g q = Some d \<Longrightarrow> bytes_at g' q (unat d) = bytes_at g q (unat d)"
    by simp_all
qed

text \<open>A write into a live piece touches no free piece of its pool.\<close>

lemma pool_write_inv:
  assumes inv: "pool_inv m s pool held" and p: "p \<in> held" and n: "off + length bs \<le> unat s"
  shows "pool_inv (mem_write (fst p, snd p + off) bs m) s pool held"
proof -
  let ?m = "mem_write (fst p, snd p + off) bs m"
  have cls: "p_size pool = s" "p_count pool = getCount s" and pc: "p \<in> chunks pool"
    using inv p by (auto simp: pool_inv_def)
  then have "fst p \<in> set (all_mem_list pool)" by (auto simp: chunks_def)
  with inv obtain c where c: "blocks m (fst p) = Some c" "length c = unat s * unat (getCount s)"
    by (auto simp: pool_inv_def)
  have inside: "snd p + off + length bs \<le> length c"
    using chunk_inside [OF pc] cls c(2) n by simp
  have blk: "blocks ?m b = (if b = fst p then Some (mem_put (snd p + off) bs c) else blocks m b)" for b
    using c by (simp add: mem_write_def)
  have free: "mem_read q (unat s) ?m = replicate (unat s) 0" if "q \<in> set (free_list pool)" for q
  proof -
    have "q \<in> chunks pool" "p \<noteq> q" using that inv p by (auto simp: pool_inv_def)
    from chunks_apart [OF pc this] cls inside c(1) n
    have "mem_read q (unat s) ?m = mem_read q (unat s) m"
      by (intro mem_read_write_other) fastforce+
    with that inv show ?thesis by (simp add: pool_inv_def)
  qed
  have "\<exists>d. blocks ?m b = Some d \<and> length d = unat s * unat (getCount s)"
    if "b \<in> set (all_mem_list pool)" for b
    using that inv c inside by (simp add: blk pool_inv_def mem_simps)
  with inv free show ?thesis by (simp add: pool_inv_def)
qed

lemma mm_poke_spec:
  assumes inv: "mm_inv g" and p: "capacity g p = Some c" and n: "off + length bs \<le> unat c"
  shows "mm_inv (mm_poke p off bs g)" and "capacity (mm_poke p off bs g) = capacity g"
    and "bytes_at (mm_poke p off bs g) p (unat c) = mem_put off bs (bytes_at g p (unat c))"
    and "q \<noteq> p \<Longrightarrow> capacity g q = Some d \<Longrightarrow>
           bytes_at (mm_poke p off bs g) q (unat d) = bytes_at g q (unat d)"
proof -
  let ?g = "mm_poke p off bs g"
  obtain e where e: "blocks (mem g) (fst p) = Some e" "snd p + unat c \<le> length e"
    using live_inside [OF inv p] by auto
  have g': "?g = g\<lparr>mem := mem_write (fst p, snd p + off) bs (mem g)\<rparr>"
    using p n by (simp add: mm_poke_def)
  have fields: "small_list ?g = small_list g" "small_ptr_list ?g = small_ptr_list g"
    "big_ptr_list ?g = big_ptr_list g" "next_block (mem ?g) = next_block (mem g)"
    and blk: "blocks (mem ?g) = (blocks (mem g))(fst p \<mapsto> mem_put (snd p + off) bs e)"
    using e by (simp_all add: g' mem_write_def)
  have len: "length (mem_put (snd p + off) bs e) = length e"
    using e n by (intro length_mem_put) simp
  have live': "live ?g = live g" by (auto simp: live_def fields)
  show "capacity ?g = capacity g" by (simp add: capacity_def fun_eq_iff fields split: option.splits)
  show "mm_inv ?g"
  proof (rule mm_invI)
    show "fresh (mem ?g)" using mm_invD(1) [OF inv] e(1) by (auto simp: fresh_def fields blk)
    show "pool_inv (mem ?g) t pool (live ?g t)" if "small_list ?g t = Some pool" for t pool
    proof -
      have t: "small_list g t = Some pool" using that by (simp add: fields)
      note pinv = mm_invD(2) [OF inv t]
      show ?thesis
      proof (cases "p \<in> live g t")
        case True
        with p n have "off + length bs \<le> unat t" by (simp add: live_def capacity_def)
        from pool_write_inv [OF pinv True this] show ?thesis by (simp add: live') (simp add: g')
      next
        case False
        have "fst p \<notin> set (all_mem_list pool)" using p
        proof (cases rule: capacity_cases)
          case small
          then obtain pool2 where "small_list g c = Some pool2" "fst p \<in> set (all_mem_list pool2)"
            using live_pool [OF inv] by metis
          moreover have "c \<noteq> t" using False small by (auto simp: live_def)
          ultimately show ?thesis using mm_invD(4) [OF inv _ _ t] by fastforce
        next
          case big
          from mm_invD(6) [OF inv big(2) t] show ?thesis .
        qed
        then show ?thesis
          unfolding live' by (intro pool_inv_frame [OF pinv]) (auto simp: blk)
      qed
    qed
    show "snd q = 0 \<and> (\<exists>c. blocks (mem ?g) (fst q) = Some c \<and> length c = unat t)"
      if "big_ptr_list ?g q = Some t" for q t
      using that mm_invD(5) [OF inv, of q t] len e(1) by (auto simp: fields blk)
  qed (use mm_invD(3,4,6) [OF inv] in \<open>auto simp: fields live'\<close>)
  show "bytes_at ?g p (unat c) = mem_put off bs (bytes_at g p (unat c))"
    using e n by (simp add: bytes_at_def mem_read_def blk mem_get_mem_put_within)
  show "bytes_at ?g q (unat d) = bytes_at g q (unat d)" if ne: "q \<noteq> p" and q: "capacity g q = Some d"
    using live_apart [OF inv p q] ne n e unfolding bytes_at_def g'
    by (simp, intro mem_read_write_other) auto
qed


section \<open>The contract of an allocator\<close>

text \<open>
  What the rest of the server relies on: a request that comes back is served with fresh zeroed
  bytes, a release of a live pointer succeeds and frees that pointer only, a release of any
  other pointer is refused and changes nothing, and no operation disturbs the bytes of a
  pointer it is not about.
\<close>

locale allocator =
  fixes alloc :: "u32 \<Rightarrow> 's \<Rightarrow> ('p option \<times> 's) option"
    and release :: "'p option \<Rightarrow> 's \<Rightarrow> bool \<times> 's"
    and cap :: "'s \<Rightarrow> 'p \<Rightarrow> u32 option"
    and cell :: "'s \<Rightarrow> 'p \<Rightarrow> nat \<Rightarrow> byte list"
    and inv :: "'s \<Rightarrow> bool"
  assumes alloc_law: "inv s \<Longrightarrow> alloc n s = Some (r, s') \<Longrightarrow>
      \<exists>p c. r = Some p \<and> inv s' \<and> cap s p = None \<and> cap s' = (cap s)(p \<mapsto> c) \<and> n \<le> c
        \<and> cell s' p (unat c) = replicate (unat c) 0
        \<and> (\<forall>q d. cap s q = Some d \<longrightarrow> cell s' q (unat d) = cell s q (unat d))"
    and release_law: "inv s \<Longrightarrow> cap s p = Some c \<Longrightarrow> release (Some p) s = (ok, s') \<Longrightarrow>
      ok \<and> inv s' \<and> cap s' = (cap s)(p := None)
        \<and> (\<forall>q d. q \<noteq> p \<longrightarrow> cap s q = Some d \<longrightarrow> cell s' q (unat d) = cell s q (unat d))"
    and release_unknown: "cap s p = None \<Longrightarrow> release (Some p) s = (False, s)"
begin

fun alloc_all :: "u32 list \<Rightarrow> 's \<Rightarrow> ('p option list \<times> 's) option" where
  "alloc_all [] s = Some ([], s)"
| "alloc_all (n # ns) s =
     (case alloc n s of
        None \<Rightarrow> None
      | Some (r, s) \<Rightarrow> (case alloc_all ns s of None \<Rightarrow> None | Some (rs, s) \<Rightarrow> Some (r # rs, s)))"

fun release_all :: "'p list \<Rightarrow> 's \<Rightarrow> bool list \<times> 's" where
  "release_all [] s = ([], s)"
| "release_all (p # ps) s =
     (case release (Some p) s of (b, s) \<Rightarrow> case release_all ps s of (bs, s) \<Rightarrow> (b # bs, s))"

lemma alloc_all_spec:
  assumes "inv s" and "alloc_all ns s = Some (rs, s')"
  shows "\<exists>ps cs. rs = map Some ps \<and> inv s' \<and> distinct ps \<and> list_all2 (\<le>) ns cs \<and> length ps = length ns
    \<and> (\<forall>p \<in> set ps. cap s p = None) \<and> cap s' = cap s ++ map_of (zip ps cs)
    \<and> (\<forall>q d. cap s q = Some d \<longrightarrow> cell s' q (unat d) = cell s q (unat d))"
  using assms
proof (induction ns arbitrary: s rs)
  case Nil
  then show ?case by (intro exI [of _ "[]"]) simp
next
  case (Cons n ns)
  obtain r s1 rs1 where 1: "alloc n s = Some (r, s1)"
    and 2: "alloc_all ns s1 = Some (rs1, s')" "rs = r # rs1"
    using Cons.prems(2) by (auto split: option.splits)
  from alloc_law [OF Cons.prems(1) 1] obtain p c where p: "r = Some p" "inv s1" "cap s p = None"
    "cap s1 = (cap s)(p \<mapsto> c)" "n \<le> c"
    "\<And>q d. cap s q = Some d \<Longrightarrow> cell s1 q (unat d) = cell s q (unat d)" by metis
  from Cons.IH [OF p(2) 2(1)] obtain ps cs where ps: "rs1 = map Some ps" "inv s'" "distinct ps"
    "list_all2 (\<le>) ns cs" "length ps = length ns" "\<And>q. q \<in> set ps \<Longrightarrow> cap s1 q = None"
    "cap s' = cap s1 ++ map_of (zip ps cs)"
    "\<And>q d. cap s1 q = Some d \<Longrightarrow> cell s' q (unat d) = cell s1 q (unat d)" by metis
  have new: "p \<notin> set ps" using ps(6) [of p] p(4) by auto
  have "dom (map_of (zip ps cs)) \<subseteq> set ps" by (auto simp: dom_map_of_conv_image_fst dest: set_zip_leftD)
  then have "map_of (zip ps cs) p = None" using new by (auto simp: domIff)
  then have cap': "cap s' = cap s ++ map_of (zip (p # ps) (c # cs))"
    by (auto simp: ps(7) p(4) map_add_def fun_eq_iff split: option.splits)
  have "cap s q = None" if "q \<in> set (p # ps)" for q
    using that p(3,4) ps(6) [of q] by (cases "q = p") auto
  moreover have "cell s' q (unat d) = cell s q (unat d)" if "cap s q = Some d" for q d
    using that p(3,4,6) ps(8) [of q d] by (cases "q = p") auto
  ultimately show ?case
    by (intro exI [of _ "p # ps"] exI [of _ "c # cs"] conjI cap')
      (use 2(2) p(1,5) ps(1-5) new in auto)
qed

lemma release_all_spec:
  assumes "inv s" and "distinct ps" and "\<And>p. p \<in> set ps \<Longrightarrow> cap s p \<noteq> None"
    and "release_all ps s = (bs, s')"
  shows "bs = replicate (length ps) True \<and> inv s' \<and> cap s' = (cap s) |` (- set ps)
    \<and> (\<forall>q d. q \<notin> set ps \<longrightarrow> cap s q = Some d \<longrightarrow> cell s' q (unat d) = cell s q (unat d))"
  using assms
proof (induction ps arbitrary: s bs)
  case (Cons p ps)
  obtain b s1 where 1: "release (Some p) s = (b, s1)" by fastforce
  obtain bs1 where 2: "release_all ps s1 = (bs1, s')" "bs = b # bs1"
    using Cons.prems(4) 1 by (auto split: prod.splits)
  from Cons.prems(3) obtain c where "cap s p = Some c" by fastforce
  from release_law [OF Cons.prems(1) this 1] have r: "b" "inv s1" "cap s1 = (cap s)(p := None)"
    "\<And>q d. q \<noteq> p \<Longrightarrow> cap s q = Some d \<Longrightarrow> cell s1 q (unat d) = cell s q (unat d)" by simp_all
  have "cap s1 q \<noteq> None" if "q \<in> set ps" for q
    using that Cons.prems(2,3) r(3) by (auto simp: fun_upd_apply)
  with Cons.IH [OF r(2) _ _ 2(1)] Cons.prems(2) have ih: "bs1 = replicate (length ps) True" "inv s'"
    "cap s' = (cap s1) |` (- set ps)"
    "\<And>q d. q \<notin> set ps \<Longrightarrow> cap s1 q = Some d \<Longrightarrow> cell s' q (unat d) = cell s1 q (unat d)" by simp_all
  have "cap s' = cap s |` (- set (p # ps))"
    by (auto simp: ih(3) r(3) restrict_map_def fun_eq_iff)
  with ih r(1,3,4) 2(2) show ?case by simp
qed (simp add: restrict_map_def)

text \<open>Everything that is allocated can be given back, in any order, and nothing else is lost.\<close>

lemma alloc_release:
  assumes "inv s" and al: "alloc_all ns s = Some (map Some ps, s1)" and per: "distinct qs" "set qs = set ps"
    and re: "release_all qs s1 = (bs, s2)"
  shows "bs = replicate (length ns) True" and "inv s2" and "cap s2 = cap s"
    and "cap s q = Some d \<Longrightarrow> cell s2 q (unat d) = cell s q (unat d)"
proof -
  have inj: "map Some ps = map Some ps' \<Longrightarrow> ps = ps'" for ps' :: "'p list"
    by (simp add: inj_map_eq_map)
  from alloc_all_spec [OF assms(1) al] inj obtain cs where a: "inv s1" "distinct ps" "list_all2 (\<le>) ns cs"
    "length ps = length ns" "\<And>p. p \<in> set ps \<Longrightarrow> cap s p = None" "cap s1 = cap s ++ map_of (zip ps cs)"
    "\<And>q d. cap s q = Some d \<Longrightarrow> cell s1 q (unat d) = cell s q (unat d)" by metis
  have "length cs = length ps" using a(3,4) by (simp add: list_all2_lengthD)
  then have dom: "dom (map_of (zip ps cs)) = set ps" by (simp add: dom_map_of_zip)
  have live: "cap s1 p \<noteq> None" if "p \<in> set qs" for p
  proof -
    have "p \<in> dom (map_of (zip ps cs))" using that dom per(2) by simp
    then show ?thesis by (auto simp: a(6) map_add_Some_iff)
  qed
  note r = release_all_spec [OF a(1) per(1) live re]
  have "length qs = length ns"
    using per a(2,4) by (metis distinct_card)
  with r show "bs = replicate (length ns) True" "inv s2" by auto
  show "cap s2 = cap s"
  proof
    fix q
    show "cap s2 q = cap s q"
    proof (cases "q \<in> set ps")
      case True
      then show ?thesis using r a(5) per(2) by simp
    next
      case False
      with dom have "map_of (zip ps cs) q = None" by auto
      with False r per(2) show ?thesis by (simp add: a(6) map_add_def)
    qed
  qed
  show "cell s2 q (unat d) = cell s q (unat d)" if "cap s q = Some d"
  proof -
    have "q \<notin> set ps" using that a(5) by auto
    moreover from this dom have "map_of (zip ps cs) q = None" by auto
    ultimately show ?thesis using that r a(7) per(2) by (simp add: a(6) map_add_def)
  qed
qed

end

interpretation mm: allocator mm_malloc mm_free capacity bytes_at mm_inv
proof unfold_locales
  show "\<exists>p c. r = Some p \<and> mm_inv s' \<and> capacity s p = None \<and> capacity s' = (capacity s)(p \<mapsto> c) \<and> n \<le> c
        \<and> bytes_at s' p (unat c) = replicate (unat c) 0
        \<and> (\<forall>q d. capacity s q = Some d \<longrightarrow> bytes_at s' q (unat d) = bytes_at s q (unat d))"
    if "mm_inv s" "mm_malloc n s = Some (r, s')" for s n r s'
    using mm_malloc_spec [OF that] fixSize_ge [of n] by blast
  show "ok \<and> mm_inv s' \<and> capacity s' = (capacity s)(p := None)
        \<and> (\<forall>q d. q \<noteq> p \<longrightarrow> capacity s q = Some d \<longrightarrow> bytes_at s' q (unat d) = bytes_at s q (unat d))"
    if "mm_inv s" "capacity s p = Some c" "mm_free (Some p) s = (ok, s')" for s p c ok s'
    using mm_free_spec [OF that] by blast
qed (rule mm_free_unknown)


section \<open>Reachable states\<close>

text \<open>
  What the server can make of a new manager, whatever memory the system has for it: requests, releases of any pointer at all (live,
  stale, null), and stores through any pointer.
\<close>

datatype mm_call = Malloc u32 | Free "ptr option" | Store ptr nat "byte list"

inductive mm_step :: "mallocManager \<Rightarrow> mm_call \<Rightarrow> mallocManager \<Rightarrow> bool" where
  "mm_malloc n g = Some (r, g') \<Longrightarrow> mm_step g (Malloc n) g'"
| "mm_step g (Free pt) (snd (mm_free pt g))"
| "mm_step g (Store p off bs) (mm_poke p off bs g)"

inductive_cases mm_stepE: "mm_step g c g'"

inductive mm_reach :: "mallocManager \<Rightarrow> bool" where
  mm_reach_new: "mm_reach (mallocManager_new sys)"
| mm_reach_step: "mm_reach g \<Longrightarrow> mm_step g c g' \<Longrightarrow> mm_reach g'"

lemma mm_poke_idle: "capacity g p = None \<Longrightarrow> mm_poke p off bs g = g"
  by (simp add: mm_poke_def)

lemma mm_poke_inv: "mm_inv g \<Longrightarrow> mm_inv (mm_poke p off bs g)"
proof (cases "capacity g p")
  case (Some c)
  assume "mm_inv g"
  with mm_poke_spec(1) [OF this Some] Some show ?thesis
    by (cases "off + length bs \<le> unat c") (simp_all add: mm_poke_def)
qed (simp add: mm_poke_idle)

lemma mm_step_inv: "mm_step g c g' \<Longrightarrow> mm_inv g \<Longrightarrow> mm_inv g'"
  by (elim mm_stepE) (metis mm_malloc_inv mm_free_inv mm_poke_inv prod.collapse)+

lemma mm_reach_inv: "mm_reach g \<Longrightarrow> mm_inv g"
  by (induction rule: mm_reach.induct) (auto intro: mm_inv_new mm_step_inv)

text \<open>Two requests that share a block and one too big for the pools, for the witnesses.\<close>

definition mm_demo1 :: mallocManager where
  "mm_demo1 = snd (the (mm_malloc 4000 (mallocManager_new (\<lambda>b n. Some (\<lambda>i. 0xAA)))))"

definition mm_demo2 :: mallocManager where
  "mm_demo2 = snd (the (mm_malloc 3000 mm_demo1))"

definition mm_demo :: mallocManager where
  "mm_demo = snd (the (mm_malloc 12288 mm_demo2))"

lemma memset_simps [simp]:
  "next_block (memset p v n m) = next_block m" "answers (memset p v n m) = answers m"
  by (simp_all add: memset_def mem_write_def split: option.split)

lemmas mm_eval = mm_malloc_def mm_free_def mallocPool_new_def doExpand_def new_char_def pool_malloc_def pool_free_def
  map_insert_def fixSize_def getCount_def Let_def split_block_map upt_rec

lemma mm_demo1:
  "mm_malloc 4000 (mallocManager_new (\<lambda>b n. Some (\<lambda>i. 0xAA))) = Some (Some (0, 0), mm_demo1)"
  "small_list mm_demo1 = [4096 \<mapsto> \<lparr>p_size = 4096, p_count = 2, all_mem_list = [0], free_list = [(0, 4096)],
     history_count = 2, history_get = 1, history_free = 0\<rparr>]"
  "small_ptr_list mm_demo1 = [(0, 0) \<mapsto> 4096]" "big_ptr_list mm_demo1 = Map.empty" "next_block (mem mm_demo1) = 1"
  "answers (mem mm_demo1) = (\<lambda>b n. Some (\<lambda>i. 0xAA))"
  by (simp_all add: mm_demo1_def mallocManager_new_def mm_eval)

lemma mm_demo2:
  "mm_malloc 3000 mm_demo1 = Some (Some (0, 4096), mm_demo2)"
  "small_list mm_demo2 = [4096 \<mapsto> \<lparr>p_size = 4096, p_count = 2, all_mem_list = [0], free_list = [],
     history_count = 2, history_get = 2, history_free = 0\<rparr>]"
  "small_ptr_list mm_demo2 = [(0, 0) \<mapsto> 4096, (0, 4096) \<mapsto> 4096]" "big_ptr_list mm_demo2 = Map.empty"
  "next_block (mem mm_demo2) = 1" "answers (mem mm_demo2) = (\<lambda>b n. Some (\<lambda>i. 0xAA))"
  by (simp_all add: mm_demo2_def mm_demo1(2-6) mm_eval)

lemma mm_demo:
  "mm_malloc 12288 mm_demo2 = Some (Some (1, 0), mm_demo)"
  "small_list mm_demo = [4096 \<mapsto> \<lparr>p_size = 4096, p_count = 2, all_mem_list = [0], free_list = [],
     history_count = 2, history_get = 2, history_free = 0\<rparr>]"
  "small_ptr_list mm_demo = [(0, 0) \<mapsto> 4096, (0, 4096) \<mapsto> 4096]" "big_ptr_list mm_demo = [(1, 0) \<mapsto> 12288]"
  "next_block (mem mm_demo) = 2" "answers (mem mm_demo) = (\<lambda>b n. Some (\<lambda>i. 0xAA))"
  by (simp_all add: mm_demo_def mm_demo2(2-6) mm_eval)

lemma mm_demo_reach: "mm_reach mm_demo"
  by (rule mm_reach_new mm_reach_step mm_step.intros(1) mm_demo1(1) mm_demo2(1) mm_demo(1))+

lemma mm_demo_capacity:
  "capacity mm_demo (0, 0) = Some 4096" "capacity mm_demo (0, 4096) = Some 4096"
  "capacity mm_demo (1, 0) = Some 12288" "capacity mm_demo (7, 0) = None"
  by (simp_all add: capacity_def mm_demo)

text \<open>
  C3: No aliasing. In every reachable state of the manager, whatever sequence of requests,
  releases (double and bogus ones included) and stores led to it, the bytes a live pointer owns
  lie inside one live block of memory, and two different live pointers own disjoint bytes.
\<close>

theorem mm_live_disjoint:
  assumes "mm_reach g" and "capacity g p = Some c" and "capacity g q = Some d" and "p \<noteq> q"
  shows "(\<exists>bs. blocks (mem g) (fst p) = Some bs \<and> snd p + unat c \<le> length bs)
    \<and> (fst p \<noteq> fst q \<or> snd q + unat d \<le> snd p \<or> snd p + unat c \<le> snd q)"
  using live_inside [OF mm_reach_inv assms(2)] live_apart [OF mm_reach_inv assms(2-4)] assms(1) by blast

theorem mm_live_disjoint_witness:
  "mm_reach mm_demo \<and> capacity mm_demo (0, 0) = Some 4096 \<and> capacity mm_demo (0, 4096) = Some 4096
   \<and> (\<exists>bs. blocks (mem mm_demo) 0 = Some bs \<and> 4096 \<le> length bs)"
  using mm_live_disjoint [OF mm_demo_reach mm_demo_capacity(1,2)] mm_demo_reach mm_demo_capacity by simp

text \<open>
  The block a request needs from the system, if it needs one: none while a piece of its size is
  free.
\<close>

definition block_needed :: "u32 \<Rightarrow> mallocManager \<Rightarrow> nat option" where
  "block_needed req g =
     (let sz = fixSize req
      in if \<not> sz < mem_max_size then Some (unat sz)
         else case small_list g sz of
             None \<Rightarrow> Some (unat sz * unat (getCount sz))
           | Some pool \<Rightarrow> if free_list pool = [] then Some (unat sz * unat (getCount sz)) else None)"

lemma pool_malloc_None:
  assumes "pool_inv m s pool held"
  shows "pool_malloc pool m = None \<longleftrightarrow>
    free_list pool = [] \<and> answers m (next_block m) (unat s * unat (getCount s)) = None"
  using doExpand_eq [OF assms] by (auto simp: pool_malloc_def split: option.splits list.splits)

lemma mm_malloc_None:
  assumes inv: "mm_inv g"
  shows "mm_malloc req g = None \<longleftrightarrow>
    (\<exists>n. block_needed req g = Some n \<and> answers (mem g) (next_block (mem g)) n = None)"
proof (cases "fixSize req < mem_max_size")
  case small: True
  let ?sz = "fixSize req"
  note cls = fixSize_class [OF small]
  show ?thesis
  proof (cases "small_list g ?sz")
    case (Some pool)
    have "mm_malloc req g = None \<longleftrightarrow> pool_malloc pool (mem g) = None"
      using Some by (auto simp: mm_malloc_small [OF small] the_pool_def split: option.splits)
    then show ?thesis
      using pool_malloc_None [OF mm_invD(2) [OF inv Some]] Some small by (simp add: block_needed_def Let_def)
  next
    case None
    let ?e = "\<lparr>p_size = ?sz, p_count = getCount ?sz, all_mem_list = [], free_list = [],
      history_count = 0, history_get = 0, history_free = 0\<rparr>"
    note e = pool_inv_empty [OF cls, of "mem g" 0 0 0]
    have "pool_malloc pool m \<noteq> None" if "doExpand ?e (mem g) = Some (pool, m)" for pool m
      using doExpand_inv(3) [OF e mm_invD(1) [OF inv] that] by (simp add: pool_malloc_def split: list.split)
    then have "mm_malloc req g = None \<longleftrightarrow> doExpand ?e (mem g) = None"
      using None by (auto simp: mm_malloc_small [OF small] the_pool_def mallocPool_new_def split: option.splits)
    then show ?thesis
      using doExpand_eq [OF e] None small by (simp add: block_needed_def Let_def)
  qed
next
  case False
  then show ?thesis
    using cleared_block(1) [of "unat (fixSize req)" "mem g"]
    by (auto simp: mm_malloc_def block_needed_def Let_def split: option.splits)
qed

text \<open>
  C4: Service. A request to a reachable manager fails only by ending the process, and this exactly if no
  piece of its size is free and the system has no block for it (the null pointer that \<^verbatim>\<open>MallocPool.h\<close> speaks of
  is never returned). Otherwise it is served: with a pointer that was not
  live, of the capacity \<open>fixSize\<close> says (so at least what was asked for), whose bytes are all
  zero whatever the system's memory held and even if an earlier owner wrote to them; no other pointer becomes live or changes
  capacity, and no live pointer's bytes change.
\<close>

theorem mm_malloc_serves:
  assumes "mm_reach g"
  shows "(mm_malloc req g = None \<longleftrightarrow>
      (\<exists>n. block_needed req g = Some n \<and> answers (mem g) (next_block (mem g)) n = None))
    \<and> (\<forall>r g'. mm_malloc req g = Some (r, g') \<longrightarrow> (\<exists>p. r = Some p \<and> capacity g p = None
    \<and> capacity g' = (capacity g)(p \<mapsto> fixSize req) \<and> req \<le> fixSize req
    \<and> bytes_at g' p (unat (fixSize req)) = replicate (unat (fixSize req)) 0
    \<and> (\<forall>q d. capacity g q = Some d \<longrightarrow> bytes_at g' q (unat d) = bytes_at g q (unat d))))"
  using mm_malloc_None [OF mm_reach_inv [OF assms], of req] mm_malloc_spec [OF mm_reach_inv [OF assms], of req]
    fixSize_ge [of req] by meson

theorem mm_malloc_serves_witness:
  "\<exists>p g'. mm_malloc 100 mm_demo = Some (Some p, g') \<and> capacity g' p = Some 128
    \<and> bytes_at g' p 128 = replicate 128 0"
proof -
  have "answers (mem mm_demo) k n \<noteq> None" for k n by (simp add: mm_demo(6))
  then have "mm_malloc 100 mm_demo \<noteq> None" using mm_malloc_serves [OF mm_demo_reach, of 100] by blast
  then obtain r g' where r: "mm_malloc 100 mm_demo = Some (r, g')" by auto
  from mm_malloc_serves [OF mm_demo_reach, of 100] r obtain p where "r = Some p" "capacity g' = (capacity mm_demo)(p \<mapsto> fixSize 100)"
    "bytes_at g' p (unat (fixSize 100)) = replicate (unat (fixSize 100)) 0" by blast
  then show ?thesis using r by (simp add: fixSize_def)
qed

text \<open>
  Release. Releasing a live pointer of a reachable manager succeeds, makes that pointer and
  no other dead, and leaves every other owner's bytes alone; releasing a pointer that is not
  live, so also the same pointer a second time, or null, is refused and changes nothing at all.
\<close>

theorem mm_free_releases:
  assumes "mm_reach g"
  shows "(if capacity g p = None then mm_free (Some p) g = (False, g)
     else \<exists>g'. mm_free (Some p) g = (True, g') \<and> capacity g' = (capacity g)(p := None)
       \<and> \<not> mm_avail (Some p) g' \<and> mm_free (Some p) g' = (False, g')
       \<and> (\<forall>q d. q \<noteq> p \<longrightarrow> capacity g q = Some d \<longrightarrow> bytes_at g' q (unat d) = bytes_at g q (unat d)))
    \<and> mm_free None g = (False, g)"
proof (cases "capacity g p")
  case (Some c)
  obtain ret g' where fe: "mm_free (Some p) g = (ret, g')" by fastforce
  note r = mm_free_spec [OF mm_reach_inv [OF assms] Some fe]
  have dead: "capacity g' p = None" using r(3) by simp
  then have "\<not> mm_avail (Some p) g'" by (auto simp: mm_avail_def capacity_def split: option.splits)
  with mm_free_unknown [OF dead] r fe Some show ?thesis by (auto simp: mm_free_def)
qed (simp add: mm_free_unknown, simp add: mm_free_def)

theorem mm_free_releases_witness:
  "\<exists>g'. mm_free (Some (0, 4096)) mm_demo = (True, g') \<and> mm_free (Some (0, 4096)) g' = (False, g')
    \<and> capacity g' (0, 0) = Some 4096 \<and> mm_free (Some (7, 0)) mm_demo = (False, mm_demo)"
  using mm_free_releases [OF mm_demo_reach, of "(0, 4096)"] mm_free_releases [OF mm_demo_reach, of "(7, 0)"]
    mm_demo_capacity by auto

text \<open>
  Nothing leaks. Any requests made to a reachable manager can be given back in any order:
  every release succeeds, the manager ends with exactly the live pointers it started with, and
  their bytes are what they were.
\<close>

theorem mm_alloc_release:
  assumes "mm_reach g" and "mm.alloc_all ns g = Some (map Some ps, g1)"
    and "distinct qs" and "set qs = set ps" and "mm.release_all qs g1 = (bs, g2)"
  shows "bs = replicate (length ns) True \<and> capacity g2 = capacity g
    \<and> (\<forall>q d. capacity g q = Some d \<longrightarrow> bytes_at g2 q (unat d) = bytes_at g q (unat d))"
  using mm.alloc_release [OF mm_reach_inv [OF assms(1)] assms(2-5)] by blast

theorem mm_alloc_release_witness:
  "\<exists>g1. mm.alloc_all [100] mm_demo = Some (map Some [(2, 0)], g1) \<and> capacity (snd (mm.release_all [(2, 0)] g1)) = capacity mm_demo"
proof -
  obtain g where g: "mm_malloc 100 mm_demo = Some (Some (2, 0), g)"
    by (simp add: mm_demo(2-6) mm_eval)
  then have g1: "mm.alloc_all [100] mm_demo = Some (map Some [(2, 0)], g)" by simp
  obtain bs g2 where g2: "mm.release_all [(2, 0)] g = (bs, g2)" by fastforce
  from mm_alloc_release [OF mm_demo_reach g1 _ _ g2] g1 g2 show ?thesis by simp
qed

text \<open>
  A store inside the capacity of a live pointer is read back by its owner, keeps the set of
  live pointers and changes no byte of another owner.
\<close>

theorem mm_store_owner:
  assumes "mm_reach g" and "capacity g p = Some c" and "off + length bs \<le> unat c"
  shows "mm_reach (mm_poke p off bs g) \<and> capacity (mm_poke p off bs g) = capacity g
    \<and> bytes_at (mm_poke p off bs g) p (unat c) = mem_put off bs (bytes_at g p (unat c))
    \<and> (\<forall>q d. q \<noteq> p \<longrightarrow> capacity g q = Some d \<longrightarrow>
          bytes_at (mm_poke p off bs g) q (unat d) = bytes_at g q (unat d))"
  using mm_poke_spec [OF mm_reach_inv [OF assms(1)] assms(2,3)]
    mm_reach_step [OF assms(1) mm_step.intros(3)] by blast

theorem mm_store_owner_witness:
  "bytes_at (mm_poke (0, 4096) 2 [7, 8] mm_demo) (0, 4096) 4096
     = mem_put 2 [7, 8] (bytes_at mm_demo (0, 4096) 4096)
   \<and> mm_reach (mm_poke (0, 4096) 2 [7, 8] mm_demo)"
  using mm_store_owner [OF mm_demo_reach mm_demo_capacity(2), of 2 "[7, 8]"] by simp

end
