(* ===== verification/Biostream.thy ===== *)
theory Biostream
  imports Prelude
begin

text \<open>
  The binary stream of \<^verbatim>\<open>include/protocol/Biosream.h\<close>: \<open>bios\<close> (the buffer and its three
  pointers), \<open>bostream\<close> (the writer) and \<open>bistream\<close> (the reader).

  The region the stream was attached to is the list \<open>region\<close> of the bytes the program may
  touch from \<open>pbase\<close> on; \<open>pcurr\<close> and \<open>pend\<close> are kept relative to \<open>pbase\<close>, so \<open>pbase\<close>
  itself is 0. Both may leave the region, as the C++ pointers may: an access outside it is
  \<open>Fault OutOfBounds\<close>. The argument \<open>hb\<close> of the operations is the byte order of the machine
  the code runs on (true: big-endian); the sizes of the scalar types are those of the LP64
  data model of the Makefile's platform.
\<close>

section \<open>State and exceptions\<close>

datatype BIOSEXCEPTION_CODE = exc_none | exc_end | exc_overflow | exc_stringtoolong

datatype ERRORTYPE = err_none | invalidcmd | rangeerror

datatype bio_exn =
    biosexception BIOSEXCEPTION_CODE
  | agproexception ERRORTYPE
  | Fault fault

datatype mode = mode_unset | mode_in | mode_out

datatype seek_dir = sd_beg | sd_cur | sd_end

record bios =
  region :: "byte list"
  pcurr :: int
  pend :: int
  m_mode :: mode
  m_bigendian :: bool

type_synonym 'a bio = "(bios, bio_exn, 'a) op"

definition bios_new :: "bool \<Rightarrow> bios" where
  "bios_new bigendian =
     \<lparr>region = [], pcurr = 0, pend = 0, m_mode = mode_unset, m_bigendian = bigendian\<rparr>"

definition bostream_new :: "bool \<Rightarrow> bios" where
  "bostream_new bigendian = (bios_new bigendian)\<lparr>m_mode := mode_out\<rparr>"

definition bistream_new :: "bool \<Rightarrow> bios" where
  "bistream_new bigendian = (bios_new bigendian)\<lparr>m_mode := mode_in\<rparr>"

definition attach :: "byte list \<Rightarrow> int \<Rightarrow> bios \<Rightarrow> bios" where
  "attach pch nLength s = s\<lparr>region := pch, pcurr := 0, pend := nLength\<rparr>"

definition detach :: "bios \<Rightarrow> bios" where
  "detach s = s\<lparr>region := [], pcurr := 0, pend := 0\<rparr>"

definition avail :: "bios \<Rightarrow> int" where
  "avail s = pend s - pcurr s"

definition bios_length :: "bios \<Rightarrow> int" where
  "bios_length s = pcurr s"

section \<open>Byte order\<close>

text \<open>The object representation of an unsigned scalar on the machine, and its reading.\<close>

definition host_bytes :: "bool \<Rightarrow> nat \<Rightarrow> nat \<Rightarrow> byte list" where
  "host_bytes hb k n = (if hb then rev (le_bytes k n) else le_bytes k n)"

definition host_value :: "bool \<Rightarrow> byte list \<Rightarrow> nat" where
  "host_value hb bs = le_nat (if hb then rev bs else bs)"

definition IS_BIGENDIAN :: "bool \<Rightarrow> bool" where
  "IS_BIGENDIAN hb = (hd (host_bytes hb 2 0x1122) = 0x11)"

definition IS_SAME_ENDIAN :: "bool \<Rightarrow> bool \<Rightarrow> bool" where
  "IS_SAME_ENDIAN hb bigendian =
     ((bigendian \<and> IS_BIGENDIAN hb) \<or> (\<not> bigendian \<and> \<not> IS_BIGENDIAN hb))"

lemma IS_BIGENDIAN_iff [simp]: "IS_BIGENDIAN hb = hb"
  by (simp add: IS_BIGENDIAN_def host_bytes_def le_bytes_numeral)

lemma IS_SAME_ENDIAN_iff [simp]: "IS_SAME_ENDIAN hb be = (hb = be)"
  by (auto simp: IS_SAME_ENDIAN_def)

lemma length_host_bytes [simp]: "length (host_bytes hb k n) = k"
  by (simp add: host_bytes_def)

lemma host_value_host_bytes: "host_value hb (host_bytes hb k n) = n mod 256 ^ k"
  by (simp add: host_value_def host_bytes_def le_nat_le_bytes)

section \<open>Moving bytes\<close>

text \<open>
  \<open>memcpy\<close> at the current pointer, which then moves on. \<open>size_to_long\<close> is the cast
  \<^verbatim>\<open>(long)len\<close> of the guards.
\<close>

definition size_to_long :: "nat \<Rightarrow> int" where
  "size_to_long n = (if n < 2 ^ 63 then int n else int n - 2 ^ 64)"

definition store :: "byte list \<Rightarrow> unit bio" where
  "store bs = (\<lambda>s.
     if 0 \<le> pcurr s \<and> pcurr s + int (length bs) \<le> int (length (region s))
     then (Inr (), s\<lparr>region := mem_put (nat (pcurr s)) bs (region s),
                     pcurr := pcurr s + int (length bs)\<rparr>)
     else (Inl (Fault OutOfBounds), s))"

definition fetch :: "nat \<Rightarrow> byte list bio" where
  "fetch n = (\<lambda>s.
     if 0 \<le> pcurr s \<and> pcurr s + int n \<le> int (length (region s))
     then (Inr (mem_get (nat (pcurr s)) n (region s)), s\<lparr>pcurr := pcurr s + int n\<rparr>)
     else (Inl (Fault OutOfBounds), s))"

section \<open>The writer: bostream\<close>

definition bo_write_order :: "byte list \<Rightarrow> nat \<Rightarrow> unit bio" where
  "bo_write_order p len = (\<lambda>s.
     if avail s < size_to_long len then (Inl (biosexception exc_overflow), s)
     else if length p < len then (Inl (Fault OutOfBounds), s)
     else store (take len p) s)"

text \<open>
  The \<^verbatim>\<open>do \<dots> while (times)\<close> loop of \<open>write_opposite\<close>. The argument is \<open>times\<close>. Entered with 0 the counter
  wraps below zero and the loop runs out of both buffers.
\<close>

fun write_opposite_loop :: "byte list \<Rightarrow> nat \<Rightarrow> unit bio" where
  "write_opposite_loop p 0 = throwM (Fault OutOfBounds)"
| "write_opposite_loop p (Suc t) =
     seqM (if t < length p then store [p ! t] else throwM (Fault OutOfBounds))
          (if t = 0 then returnM () else write_opposite_loop p t)"

definition bo_write_opposite :: "byte list \<Rightarrow> nat \<Rightarrow> unit bio" where
  "bo_write_opposite p len = (\<lambda>s.
     if avail s < size_to_long len then (Inl (biosexception exc_overflow), s)
     else write_opposite_loop p len s)"

definition bo_write :: "byte list \<Rightarrow> nat \<Rightarrow> unit bio" where
  "bo_write p len = (\<lambda>s.
     if avail s < size_to_long len then (Inl (biosexception exc_overflow), s)
     else if length p < len then (Inl (Fault OutOfBounds), s)
     else store (take len p) s)"

definition write_care_endian :: "bool \<Rightarrow> byte list \<Rightarrow> nat \<Rightarrow> unit bio" where
  "write_care_endian hb p len = (\<lambda>s.
     if IS_SAME_ENDIAN hb (m_bigendian s) then bo_write_order p len s
     else bo_write_opposite p len s)"

definition seek_to :: "int \<Rightarrow> seek_dir \<Rightarrow> bios \<Rightarrow> int" where
  "seek_to offset dir s =
     (case dir of sd_beg \<Rightarrow> offset | sd_cur \<Rightarrow> pcurr s + offset | sd_end \<Rightarrow> pend s + offset)"

definition seekp :: "int \<Rightarrow> seek_dir \<Rightarrow> unit bio" where
  "seekp offset dir = (\<lambda>s.
     let s' = s\<lparr>pcurr := seek_to offset dir s\<rparr>
     in if avail s' < 0 \<or> avail s' > pend s' then (Inl (biosexception exc_overflow), s')
        else (Inr (), s'))"

definition put_char :: "byte \<Rightarrow> unit bio" where
  "put_char c = bo_write [c] 1"

definition put_uchar :: "byte \<Rightarrow> unit bio" where
  "put_uchar c = bo_write [c] 1"

definition put_schar :: "byte \<Rightarrow> unit bio" where
  "put_schar c = bo_write [c] 1"

definition put_short :: "bool \<Rightarrow> u16 \<Rightarrow> unit bio" where
  "put_short hb w = write_care_endian hb (host_bytes hb 2 (unat w)) 2"

definition put_ushort :: "bool \<Rightarrow> u16 \<Rightarrow> unit bio" where
  "put_ushort hb w = write_care_endian hb (host_bytes hb 2 (unat w)) 2"

definition put_int :: "bool \<Rightarrow> u32 \<Rightarrow> unit bio" where
  "put_int hb w = write_care_endian hb (host_bytes hb 4 (unat w)) 4"

definition put_uint :: "bool \<Rightarrow> u32 \<Rightarrow> unit bio" where
  "put_uint hb w = write_care_endian hb (host_bytes hb 4 (unat w)) 4"

definition put_long :: "bool \<Rightarrow> u64 \<Rightarrow> unit bio" where
  "put_long hb w = write_care_endian hb (host_bytes hb 8 (unat w)) 8"

definition put_ulong :: "bool \<Rightarrow> u64 \<Rightarrow> unit bio" where
  "put_ulong hb w = write_care_endian hb (host_bytes hb 8 (unat w)) 8"

definition put_longlong :: "bool \<Rightarrow> u64 \<Rightarrow> unit bio" where
  "put_longlong hb w = write_care_endian hb (host_bytes hb 8 (unat w)) 8"

definition put_ulonglong :: "bool \<Rightarrow> u64 \<Rightarrow> unit bio" where
  "put_ulonglong hb w = write_care_endian hb (host_bytes hb 8 (unat w)) 8"

text \<open>Floating-point values are written as their bit patterns.\<close>

definition put_float :: "bool \<Rightarrow> u32 \<Rightarrow> unit bio" where
  "put_float hb w = write_care_endian hb (host_bytes hb 4 (unat w)) 4"

definition put_double :: "bool \<Rightarrow> u64 \<Rightarrow> unit bio" where
  "put_double hb w = write_care_endian hb (host_bytes hb 8 (unat w)) 8"

definition put_bool :: "bool \<Rightarrow> unit bio" where
  "put_bool b = bo_write [of_bool b] 1"

text \<open>\<open>strlen\<close>: the index of the first NUL, \<open>None\<close> when it would read past the region.\<close>

fun c_strlen :: "byte list \<Rightarrow> nat option" where
  "c_strlen [] = None"
| "c_strlen (b # bs) = (if b = 0 then Some 0 else map_option Suc (c_strlen bs))"

definition put_cstr :: "bool \<Rightarrow> byte list \<Rightarrow> unit bio" where
  "put_cstr hb str =
     (case c_strlen str of
        None \<Rightarrow> throwM (Fault OutOfBounds)
      | Some n \<Rightarrow>
          let slen = sint (of_nat n :: u32)
          in seqM
              (if slen < 255 then put_uchar (of_int slen)
               else if slen < 0xfffe then seqM (put_uchar 0xff) (put_ushort hb (of_int slen))
               else seqM (put_uchar 0xff) (seqM (put_ushort hb 0xffff) (put_ulong hb (of_int slen))))
              (bo_write str (nat (slen mod 2 ^ 64))))"

section \<open>The reader: bistream\<close>

definition bi_read_order :: "nat \<Rightarrow> byte list bio" where
  "bi_read_order len = (\<lambda>s.
     if avail s < size_to_long len then (Inl (biosexception exc_overflow), s)
     else fetch len s)"

text \<open>
  The loop of \<open>read_opposite\<close> fills the destination from its last byte to its first; the
  bytes stored so far are the argument \<open>p\<close>.
\<close>

fun read_opposite_loop :: "nat \<Rightarrow> byte list \<Rightarrow> byte list bio" where
  "read_opposite_loop 0 p = throwM (Fault OutOfBounds)"
| "read_opposite_loop (Suc t) p =
     bindM (fetch 1) (\<lambda>b. if t = 0 then returnM (b @ p) else read_opposite_loop t (b @ p))"

definition bi_read_opposite :: "nat \<Rightarrow> byte list bio" where
  "bi_read_opposite len = (\<lambda>s.
     if avail s < size_to_long len then (Inl (biosexception exc_overflow), s)
     else read_opposite_loop len [] s)"

definition bi_read :: "nat \<Rightarrow> byte list bio" where
  "bi_read len = (\<lambda>s.
     if avail s < size_to_long len then (Inl (biosexception exc_end), s)
     else fetch len s)"

definition read_care_endian :: "bool \<Rightarrow> nat \<Rightarrow> byte list bio" where
  "read_care_endian hb len = (\<lambda>s.
     if IS_SAME_ENDIAN hb (m_bigendian s) then bi_read_order len s
     else bi_read_opposite len s)"

definition peek :: "int bio" where
  "peek = (\<lambda>s.
     if pcurr s \<ge> pend s then (Inl (biosexception exc_end), s)
     else if 0 \<le> pcurr s \<and> pcurr s < int (length (region s))
     then (Inr (sint (region s ! nat (pcurr s))), s)
     else (Inl (Fault OutOfBounds), s))"

definition seekg :: "int \<Rightarrow> seek_dir \<Rightarrow> unit bio" where
  "seekg offset dir = (\<lambda>s.
     let s' = s\<lparr>pcurr := seek_to offset dir s\<rparr>
     in if avail s' < 0 \<or> avail s' > pend s' then (Inl (biosexception exc_end), s')
        else (Inr (), s'))"

definition get_char :: "byte bio" where
  "get_char = bindM (bi_read 1) (\<lambda>bs. returnM (hd bs))"

definition get_schar :: "byte bio" where
  "get_schar = bindM (bi_read 1) (\<lambda>bs. returnM (hd bs))"

definition get_uchar :: "byte bio" where
  "get_uchar = bindM (bi_read 1) (\<lambda>bs. returnM (hd bs))"

definition get_short :: "bool \<Rightarrow> u16 bio" where
  "get_short hb = bindM (read_care_endian hb 2) (\<lambda>bs. returnM (of_nat (host_value hb bs)))"

definition get_ushort :: "bool \<Rightarrow> u16 bio" where
  "get_ushort hb = bindM (read_care_endian hb 2) (\<lambda>bs. returnM (of_nat (host_value hb bs)))"

definition get_int :: "bool \<Rightarrow> u32 bio" where
  "get_int hb = bindM (read_care_endian hb 4) (\<lambda>bs. returnM (of_nat (host_value hb bs)))"

definition get_uint :: "bool \<Rightarrow> u32 bio" where
  "get_uint hb = bindM (read_care_endian hb 4) (\<lambda>bs. returnM (of_nat (host_value hb bs)))"

definition get_long :: "bool \<Rightarrow> u64 bio" where
  "get_long hb = bindM (read_care_endian hb 8) (\<lambda>bs. returnM (of_nat (host_value hb bs)))"

definition get_ulong :: "bool \<Rightarrow> u64 bio" where
  "get_ulong hb = bindM (read_care_endian hb 8) (\<lambda>bs. returnM (of_nat (host_value hb bs)))"

definition get_longlong :: "bool \<Rightarrow> u64 bio" where
  "get_longlong hb = bindM (read_care_endian hb 8) (\<lambda>bs. returnM (of_nat (host_value hb bs)))"

definition get_ulonglong :: "bool \<Rightarrow> u64 bio" where
  "get_ulonglong hb = bindM (read_care_endian hb 8) (\<lambda>bs. returnM (of_nat (host_value hb bs)))"

definition get_float :: "bool \<Rightarrow> u32 bio" where
  "get_float hb = bindM (read_care_endian hb 4) (\<lambda>bs. returnM (of_nat (host_value hb bs)))"

definition get_double :: "bool \<Rightarrow> u64 bio" where
  "get_double hb = bindM (read_care_endian hb 8) (\<lambda>bs. returnM (of_nat (host_value hb bs)))"

definition get_bool :: "bool bio" where
  "get_bool = bindM (bi_read 1) (\<lambda>bs. returnM (hd bs \<noteq> 0))"

text \<open>
  Reading into a caller's array: the state is the stream and the array \<open>dst\<close>, whose length
  is its capacity.
\<close>

type_synonym 'a bio_into = "(bios \<times> byte list, bio_exn, 'a) op"

definition on_stream :: "'a bio \<Rightarrow> 'a bio_into" where
  "on_stream m = (\<lambda>(s, dst). case m s of (r, s') \<Rightarrow> (r, (s', dst)))"

definition copy_to :: "byte list \<Rightarrow> unit bio_into" where
  "copy_to bs = (\<lambda>(s, dst).
     if length bs \<le> length dst then (Inr (), (s, mem_put 0 bs dst))
     else (Inl (Fault OutOfBounds), (s, dst)))"

definition read_into :: "nat \<Rightarrow> unit bio_into" where
  "read_into len = bindM (on_stream (bi_read len)) copy_to"

definition store_byte :: "nat \<Rightarrow> byte \<Rightarrow> unit bio_into" where
  "store_byte i b = (\<lambda>(s, dst).
     if i < length dst then (Inr (), (s, dst[i := b])) else (Inl (Fault OutOfBounds), (s, dst)))"

definition get_cstr :: "bool \<Rightarrow> unit bio_into" where
  "get_cstr hb =
     bindM (on_stream get_uchar) (\<lambda>blen.
       if blen < 0xff then read_into (unat blen)
       else bindM (on_stream (get_ushort hb)) (\<lambda>wlen.
         if wlen < 0xfffe then read_into (unat wlen)
         else bindM (on_stream (get_ulong hb)) (\<lambda>dwlen. read_into (unat dwlen))))"

definition readcstring :: "bool \<Rightarrow> nat \<Rightarrow> unit bio_into" where
  "readcstring hb ssize =
     (if ssize \<le> 0 then throwM (agproexception rangeerror)
      else seqM (store_byte (ssize - 1) 0)
        (bindM (on_stream get_uchar) (\<lambda>blen.
          if blen < 0xff then
            (if ssize \<le> unat blen
             then seqM (on_stream (seekg (- 1) sd_cur)) (throwM (agproexception rangeerror))
             else read_into (unat blen))
          else bindM (on_stream (get_ushort hb)) (\<lambda>wlen.
            if wlen < 0xfffe then
              (if ssize \<le> unat wlen
               then seqM (on_stream (seekg (- 2) sd_cur)) (throwM (agproexception rangeerror))
               else read_into (unat wlen))
            else bindM (on_stream (get_ulong hb)) (\<lambda>dwlen.
              if ssize \<le> unat dwlen
              then seqM (on_stream (seekg (- 8) sd_cur)) (throwM (agproexception rangeerror))
              else read_into (unat dwlen))))))"


section \<open>Basic facts about moving bytes\<close>

definition stream_ok :: "bios \<Rightarrow> bool" where
  "stream_ok s \<longleftrightarrow>
     0 \<le> pcurr s \<and> pcurr s \<le> pend s \<and> pend s \<le> int (length (region s)) \<and> pend s < 2 ^ 63"

lemma attach_sel [simp]:
  "region (attach p n s) = p" "pcurr (attach p n s) = 0" "pend (attach p n s) = n"
  "m_bigendian (attach p n s) = m_bigendian s" "m_mode (attach p n s) = m_mode s"
  by (simp_all add: attach_def)

lemma stream_new_sel [simp]:
  "m_bigendian (bostream_new be) = be" "m_bigendian (bistream_new be) = be"
  by (simp_all add: bostream_new_def bistream_new_def bios_new_def)

lemma avail_attach [simp]: "avail (attach p n s) = n"
  by (simp add: avail_def)

lemma stream_ok_attach [intro]:
  "0 \<le> n \<Longrightarrow> n \<le> int (length p) \<Longrightarrow> n < 2 ^ 63 \<Longrightarrow> stream_ok (attach p n s)"
  by (simp add: stream_ok_def)

lemma size_to_long_small [simp]: "n < 2 ^ 63 \<Longrightarrow> size_to_long n = int n"
  by (simp add: size_to_long_def)

lemma store_fits:
  "0 \<le> pcurr s \<Longrightarrow> pcurr s + int (length bs) \<le> int (length (region s)) \<Longrightarrow>
   store bs s = (Inr (), s\<lparr>region := mem_put (nat (pcurr s)) bs (region s),
                          pcurr := pcurr s + int (length bs)\<rparr>)"
  by (simp add: store_def)

lemma fetch_fits:
  "0 \<le> pcurr s \<Longrightarrow> pcurr s + int n \<le> int (length (region s)) \<Longrightarrow>
   fetch n s = (Inr (mem_get (nat (pcurr s)) n (region s)), s\<lparr>pcurr := pcurr s + int n\<rparr>)"
  by (simp add: fetch_def)

lemma store_append:
  assumes "0 \<le> pcurr s" and "pcurr s + int (length xs + length ys) \<le> int (length (region s))"
  shows "seqM (store xs) (store ys) s = store (xs @ ys) s"
proof -
  let ?s = "s\<lparr>region := mem_put (nat (pcurr s)) xs (region s), pcurr := pcurr s + int (length xs)\<rparr>"
  have len: "length (mem_put (nat (pcurr s)) xs (region s)) = length (region s)"
    using assms by (intro length_mem_put) linarith
  have "mem_put (nat (pcurr s + int (length xs))) ys (mem_put (nat (pcurr s)) xs (region s))
      = mem_put (nat (pcurr s)) (xs @ ys) (region s)"
    using assms by (intro mem_put_mem_put_adjacent) linarith+
  moreover have "store xs s = (Inr (), ?s)"
    using assms by (intro store_fits) auto
  ultimately show ?thesis
    using assms len by (simp add: seqM_Inr store_fits add.assoc)
qed

lemma write_opposite_loop_rev:
  assumes "0 < t" and "t \<le> length p" and "0 \<le> pcurr s"
    and "pcurr s + int t \<le> int (length (region s))"
  shows "write_opposite_loop p t s = store (rev (take t p)) s"
  using assms
proof (induction t arbitrary: s)
  case (Suc t)
  have step: "write_opposite_loop p (Suc t) s
      = seqM (store [p ! t]) (if t = 0 then returnM () else write_opposite_loop p t) s"
    using Suc.prems by simp
  have rv: "rev (take (Suc t) p) = p ! t # rev (take t p)"
    using Suc.prems by (simp add: take_Suc_conv_app_nth)
  show ?case
  proof (cases "t = 0")
    case True
    with Suc.prems show ?thesis
      by (auto simp: step seqM_def bindM_def store_fits rv [simplified True])
  next
    case False
    let ?s = "s\<lparr>region := mem_put (nat (pcurr s)) [p ! t] (region s), pcurr := pcurr s + 1\<rparr>"
    have "length (mem_put (nat (pcurr s)) [p ! t] (region s)) = length (region s)"
      using Suc.prems by (intro length_mem_put) simp
    then have "write_opposite_loop p t ?s = store (rev (take t p)) ?s"
      using Suc.prems False by (intro Suc.IH) simp_all
    moreover have "store [p ! t] s = (Inr (), ?s)"
      using Suc.prems by (simp add: store_fits)
    ultimately have "write_opposite_loop p (Suc t) s = seqM (store [p ! t]) (store (rev (take t p))) s"
      using False Suc.prems by (simp add: step seqM_Inr)
    also have "\<dots> = store (rev (take (Suc t) p)) s"
      using Suc.prems by (subst store_append) (simp_all add: rv)
    finally show ?thesis .
  qed
qed simp

lemma write_opposite_loop_fault:
  "0 < t \<Longrightarrow> (\<And>b. store [b] s = (Inl (Fault OutOfBounds), s)) \<Longrightarrow>
   write_opposite_loop p t s = (Inl (Fault OutOfBounds), s)"
  by (cases t) (simp_all add: seqM_def bindM_def)

lemma mem_get_Suc: "off < length xs \<Longrightarrow> mem_get off (Suc n) xs = xs ! off # mem_get (Suc off) n xs"
  by (simp add: mem_get_def Cons_nth_drop_Suc [symmetric])

lemma read_opposite_loop_rev:
  assumes "0 < t" and "0 \<le> pcurr s" and "pcurr s + int t \<le> int (length (region s))"
  shows "read_opposite_loop t p s
    = (Inr (rev (mem_get (nat (pcurr s)) t (region s)) @ p), s\<lparr>pcurr := pcurr s + int t\<rparr>)"
  using assms
proof (induction t arbitrary: s p)
  case (Suc t)
  have first: "fetch 1 s = (Inr [region s ! nat (pcurr s)], s\<lparr>pcurr := pcurr s + 1\<rparr>)"
    using Suc.prems by (simp add: fetch_fits mem_get_Suc mem_get_def take_Suc_conv_app_nth)
  have sl: "mem_get (nat (pcurr s)) (Suc t) (region s)
      = region s ! nat (pcurr s) # mem_get (nat (pcurr s + 1)) t (region s)"
    using Suc.prems by (simp add: mem_get_Suc nat_add_distrib)
  show ?case
  proof (cases "t = 0")
    case True
    then show ?thesis using first sl by (simp add: bindM_def mem_get_def)
  next
    case False
    have "read_opposite_loop t ([region s ! nat (pcurr s)] @ p) (s\<lparr>pcurr := pcurr s + 1\<rparr>)
        = (Inr (rev (mem_get (nat (pcurr s + 1)) t (region s)) @ [region s ! nat (pcurr s)] @ p),
           s\<lparr>pcurr := pcurr s + 1 + int t\<rparr>)"
      using Suc.prems False by (subst Suc.IH) simp_all
    then show ?thesis
      using first sl False by (simp add: bindM_def add.commute add.left_commute)
  qed
qed simp

section \<open>Scalars on the wire\<close>

lemma host_bytes_swap: "hb \<noteq> be \<Longrightarrow> rev (host_bytes hb k n) = host_bytes be k n"
  by (auto simp: host_bytes_def)

lemma host_value_swap: "hb \<noteq> be \<Longrightarrow> host_value hb (rev bs) = host_value be bs"
  by (cases hb; cases be) (auto simp: host_value_def)

text \<open>What the writer puts on the wire depends on the stream's byte order only.\<close>

lemma write_care_endian_wire:
  assumes "stream_ok s" and "int k \<le> avail s" and "0 < k"
  shows "write_care_endian hb (host_bytes hb k n) k s = store (host_bytes (m_bigendian s) k n) s"
proof -
  have k: "k < 2 ^ 63"
    using assms by (simp add: stream_ok_def avail_def)
  show ?thesis
  proof (cases "hb = m_bigendian s")
    case True
    with assms k show ?thesis
      by (simp add: write_care_endian_def bo_write_order_def)
  next
    case False
    with assms k have "write_care_endian hb (host_bytes hb k n) k s
        = write_opposite_loop (host_bytes hb k n) k s"
      by (simp add: write_care_endian_def bo_write_opposite_def)
    also have "\<dots> = store (rev (host_bytes hb k n)) s"
      using assms by (subst write_opposite_loop_rev) (auto simp: stream_ok_def avail_def)
    finally show ?thesis using False by (simp add: host_bytes_swap)
  qed
qed

lemma write_care_endian_overflow:
  assumes "k < 2 ^ 63" and "avail s < int k"
  shows "write_care_endian hb p k s = (Inl (biosexception exc_overflow), s)"
  using assms by (simp add: write_care_endian_def bo_write_order_def bo_write_opposite_def)

lemma read_care_endian_wire:
  assumes "stream_ok s" and "int k \<le> avail s" and "0 < k"
  obtains bs where "read_care_endian hb k s = (Inr bs, s\<lparr>pcurr := pcurr s + int k\<rparr>)"
    and "host_value hb bs = host_value (m_bigendian s) (mem_get (nat (pcurr s)) k (region s))"
proof (cases "hb = m_bigendian s")
  case True
  with assms show ?thesis
    by (intro that [of "mem_get (nat (pcurr s)) k (region s)"])
      (auto simp: stream_ok_def avail_def read_care_endian_def bi_read_order_def fetch_fits)
next
  case False
  with assms have "read_care_endian hb k s = read_opposite_loop k [] s"
    by (auto simp: stream_ok_def avail_def read_care_endian_def bi_read_opposite_def)
  also have "\<dots> = (Inr (rev (mem_get (nat (pcurr s)) k (region s))), s\<lparr>pcurr := pcurr s + int k\<rparr>)"
    using assms by (subst read_opposite_loop_rev) (auto simp: stream_ok_def avail_def)
  finally show ?thesis
    by (rule that [OF _ host_value_swap [OF False]])
qed

lemma read_care_endian_short:
  assumes "k < 2 ^ 63" and "avail s < int k"
  shows "read_care_endian hb k s = (Inl (biosexception exc_overflow), s)"
  using assms by (simp add: read_care_endian_def bi_read_order_def bi_read_opposite_def)

lemmas stream_put_defs =
  put_char_def put_uchar_def put_schar_def put_short_def put_ushort_def put_int_def put_uint_def
  put_long_def put_ulong_def put_longlong_def put_ulonglong_def put_float_def put_double_def
  put_bool_def

lemmas stream_get_defs =
  get_char_def get_uchar_def get_schar_def get_short_def get_ushort_def get_int_def get_uint_def
  get_long_def get_ulong_def get_longlong_def get_ulonglong_def get_float_def get_double_def
  get_bool_def


section \<open>Typed values: a message is a list of scalars\<close>

datatype scalar = S8 byte | S16 u16 | S32 u32 | S64 u64

datatype scalar_type = T8 | T16 | T32 | T64

fun type_of :: "scalar \<Rightarrow> scalar_type" where
  "type_of (S8 _) = T8" | "type_of (S16 _) = T16" | "type_of (S32 _) = T32" | "type_of (S64 _) = T64"

fun put_scalar :: "bool \<Rightarrow> scalar \<Rightarrow> unit bio" where
  "put_scalar hb (S8 b) = put_uchar b"
| "put_scalar hb (S16 w) = put_ushort hb w"
| "put_scalar hb (S32 w) = put_uint hb w"
| "put_scalar hb (S64 w) = put_ulong hb w"

fun get_scalar :: "bool \<Rightarrow> scalar_type \<Rightarrow> scalar bio" where
  "get_scalar hb T8 = bindM get_uchar (\<lambda>b. returnM (S8 b))"
| "get_scalar hb T16 = bindM (get_ushort hb) (\<lambda>w. returnM (S16 w))"
| "get_scalar hb T32 = bindM (get_uint hb) (\<lambda>w. returnM (S32 w))"
| "get_scalar hb T64 = bindM (get_ulong hb) (\<lambda>w. returnM (S64 w))"

fun put_all :: "bool \<Rightarrow> scalar list \<Rightarrow> unit bio" where
  "put_all hb [] = returnM ()"
| "put_all hb (v # vs) = seqM (put_scalar hb v) (put_all hb vs)"

fun get_all :: "bool \<Rightarrow> scalar_type list \<Rightarrow> scalar list bio" where
  "get_all hb [] = returnM []"
| "get_all hb (t # ts) =
     bindM (get_scalar hb t) (\<lambda>v. bindM (get_all hb ts) (\<lambda>vs. returnM (v # vs)))"

fun width :: "scalar_type \<Rightarrow> nat" where
  "width T8 = 1" | "width T16 = 2" | "width T32 = 4" | "width T64 = 8"

fun scalar_nat :: "scalar \<Rightarrow> nat" where
  "scalar_nat (S8 b) = unat b" | "scalar_nat (S16 w) = unat w" | "scalar_nat (S32 w) = unat w"
| "scalar_nat (S64 w) = unat w"

text \<open>The abstract specification: the bytes a value occupies on a stream of byte order \<open>be\<close>.\<close>

definition wire :: "bool \<Rightarrow> scalar \<Rightarrow> byte list" where
  "wire be v = host_bytes be (width (type_of v)) (scalar_nat v)"

definition wires :: "bool \<Rightarrow> scalar list \<Rightarrow> byte list" where
  "wires be vs = concat (map (wire be) vs)"

lemma length_wire [simp]: "length (wire be v) = width (type_of v)"
  by (simp add: wire_def)

lemma width_pos [simp]: "0 < width t"
  by (cases t) auto

lemma width_le: "width t \<le> 8"
  by (cases t) auto

lemma wires_Nil [simp]: "wires be [] = []"
  by (simp add: wires_def)

lemma wires_Cons [simp]: "wires be (v # vs) = wire be v @ wires be vs"
  by (simp add: wires_def)

lemma scalar_nat_less: "scalar_nat v < 256 ^ width (type_of v)"
  using unat_byte_less unat_less_16 unat_less_32 unat_less_64 by (cases v) auto

lemma host_value_wire: "host_value be (wire be v) = scalar_nat v"
  using scalar_nat_less [of v] by (simp add: wire_def host_value_host_bytes)

lemma le_nat_wire [simp]: "le_nat (wire False v) = scalar_nat v"
  using host_value_wire [of False v] by (simp add: host_value_def)

lemma host_bytes_1 [simp]: "host_bytes be 1 n = [of_nat n]" "host_bytes be (Suc 0) n = [of_nat n]"
  by (simp_all add: host_bytes_def)

lemma wire_S8 [simp]: "wire be (S8 b) = [b]"
  by (simp add: wire_def)

lemma put_scalar_wire:
  assumes "stream_ok s" and "int (width (type_of v)) \<le> avail s"
  shows "put_scalar hb v s = store (wire (m_bigendian s) v) s"
proof (cases v)
  case (S8 b)
  with assms show ?thesis
    by (simp add: put_uchar_def bo_write_def wire_def)
next
  case (S16 w)
  with assms show ?thesis
    using write_care_endian_wire [OF assms(1), of 2 hb "unat w"]
    by (simp add: put_ushort_def wire_def)
next
  case (S32 w)
  with assms show ?thesis
    using write_care_endian_wire [OF assms(1), of 4 hb "unat w"]
    by (simp add: put_uint_def wire_def)
next
  case (S64 w)
  with assms show ?thesis
    using write_care_endian_wire [OF assms(1), of 8 hb "unat w"]
    by (simp add: put_ulong_def wire_def)
qed

lemma put_scalar_overflow:
  assumes "avail s < int (width (type_of v))"
  shows "put_scalar hb v s = (Inl (biosexception exc_overflow), s)"
  using assms
  by (cases v) (simp_all add: stream_put_defs write_care_endian_overflow bo_write_def)

lemma store_ok:
  assumes "stream_ok s" and "int (length bs) \<le> avail s"
  obtains s' where "store bs s = (Inr (), s')" and "stream_ok s'"
    and "avail s' = avail s - int (length bs)" and "pcurr s' = pcurr s + int (length bs)"
    and "m_bigendian s' = m_bigendian s" and "pend s' = pend s" and "m_mode s' = m_mode s"
    and "region s' = mem_put (nat (pcurr s)) bs (region s)"
proof -
  let ?s = "s\<lparr>region := mem_put (nat (pcurr s)) bs (region s), pcurr := pcurr s + int (length bs)\<rparr>"
  have "store bs s = (Inr (), ?s)"
    using assms by (intro store_fits) (auto simp: stream_ok_def avail_def)
  moreover have "length (mem_put (nat (pcurr s)) bs (region s)) = length (region s)"
    using assms by (intro length_mem_put) (auto simp: stream_ok_def avail_def)
  ultimately show ?thesis
    using assms by (intro that [of ?s]) (auto simp: stream_ok_def avail_def)
qed

lemma put_all_wires:
  assumes "stream_ok s" and "int (length (wires (m_bigendian s) vs)) \<le> avail s"
  shows "put_all hb vs s = store (wires (m_bigendian s) vs) s"
  using assms
proof (induction vs arbitrary: s)
  case Nil
  then have "mem_put (nat (pcurr s)) [] (region s) = region s"
    by (intro mem_put_Nil) (auto simp: stream_ok_def)
  with Nil show ?case
    by (simp add: store_fits stream_ok_def)
next
  case (Cons v vs)
  let ?be = "m_bigendian s"
  from Cons.prems have fits: "int (length (wire ?be v)) \<le> avail s" by simp
  from store_ok [OF Cons.prems(1) fits] obtain s' where s': "store (wire ?be v) s = (Inr (), s')"
    "stream_ok s'" "avail s' = avail s - int (length (wire ?be v))" "m_bigendian s' = ?be"
    by metis
  have "put_all hb (v # vs) s = put_all hb vs s'"
    using put_scalar_wire [OF Cons.prems(1), of v hb] fits s'(1) by (simp add: seqM_Inr)
  also have "\<dots> = store (wires ?be vs) s'"
    using Cons.IH [OF s'(2)] Cons.prems(2) s' by simp
  also have "\<dots> = seqM (store (wire ?be v)) (store (wires ?be vs)) s"
    using s'(1) by (simp add: seqM_Inr)
  also have "\<dots> = store (wires ?be (v # vs)) s"
    using Cons.prems by (subst store_append) (auto simp: stream_ok_def avail_def)
  finally show ?case .
qed


section \<open>The reader implements decoding\<close>

definition scalar_of :: "scalar_type \<Rightarrow> nat \<Rightarrow> scalar" where
  "scalar_of t n =
     (case t of T8 \<Rightarrow> S8 (of_nat n) | T16 \<Rightarrow> S16 (of_nat n) | T32 \<Rightarrow> S32 (of_nat n)
      | T64 \<Rightarrow> S64 (of_nat n))"

definition dec_scalar :: "bool \<Rightarrow> scalar_type \<Rightarrow> byte list \<Rightarrow> (scalar \<times> byte list) option" where
  "dec_scalar be t bs =
     (if length bs < width t then None
      else Some (scalar_of t (host_value be (take (width t) bs)), drop (width t) bs))"

lemma scalar_of_nat [simp]: "scalar_of (type_of v) (scalar_nat v) = v"
  by (cases v) (simp_all add: scalar_of_def)

text \<open>One value on the wire is a codec, so messages decode uniquely.\<close>

interpretation wirec: byte_codec "wire be" "dec_scalar be t" "\<lambda>v. type_of v = t" for be t
proof
  fix v rest
  assume "type_of v = t"
  then show "dec_scalar be t (wire be v @ rest) = Some (v, rest)"
    by (auto simp: dec_scalar_def host_value_wire)
qed

text \<open>The bytes between the current pointer and the end of the buffer.\<close>

definition unread :: "bios \<Rightarrow> byte list" where
  "unread s = mem_get (nat (pcurr s)) (nat (avail s)) (region s)"

definition short_read :: "scalar_type \<Rightarrow> bio_exn" where
  "short_read t = (case t of T8 \<Rightarrow> biosexception exc_end | _ \<Rightarrow> biosexception exc_overflow)"

lemma length_unread: "stream_ok s \<Longrightarrow> int (length (unread s)) = avail s"
  by (auto simp: unread_def stream_ok_def avail_def mem_simps)

lemma unread_split:
  assumes "stream_ok s" and "int n \<le> avail s"
  shows "take n (unread s) = mem_get (nat (pcurr s)) n (region s)"
    and "drop n (unread s) = unread (s\<lparr>pcurr := pcurr s + int n\<rparr>)"
proof -
  have "nat (pcurr s + int n) = n + nat (pcurr s)" "nat (pend s - (pcurr s + int n)) = nat (avail s) - n"
    using assms by (auto simp: stream_ok_def avail_def)
  then show "drop n (unread s) = unread (s\<lparr>pcurr := pcurr s + int n\<rparr>)"
    by (simp add: unread_def mem_get_def avail_def drop_take)
  show "take n (unread s) = mem_get (nat (pcurr s)) n (region s)"
    using assms by (simp add: unread_def mem_get_def min_absorb1 le_nat_iff stream_ok_def avail_def)
qed

lemma unread_attach [simp]: "unread (attach p (int n) s) = take n p"
  by (simp add: unread_def mem_get_def)

lemma get_scalar_unfold:
  "get_scalar hb T8 s = (case bi_read 1 s of (Inl e, s') \<Rightarrow> (Inl e, s')
     | (Inr bs, s') \<Rightarrow> (Inr (S8 (hd bs)), s'))"
  "t \<noteq> T8 \<Longrightarrow> get_scalar hb t s = (case read_care_endian hb (width t) s of (Inl e, s') \<Rightarrow> (Inl e, s')
     | (Inr bs, s') \<Rightarrow> (Inr (scalar_of t (host_value hb bs)), s'))"
  by (cases t; simp add: stream_get_defs bindM_def scalar_of_def split: prod.splits sum.splits)+

declare get_scalar.simps [simp del]

lemma host_value_1: "length bs = 1 \<Longrightarrow> of_nat (host_value be bs) = hd bs"
  by (cases bs) (auto simp: host_value_def)

lemma get_scalar_dec:
  assumes ok: "stream_ok s"
  shows "get_scalar hb t s =
    (case dec_scalar (m_bigendian s) t (unread s) of
       None \<Rightarrow> (Inl (short_read t), s)
     | Some (v, _) \<Rightarrow> (Inr v, s\<lparr>pcurr := pcurr s + int (width t)\<rparr>))"
proof (cases "int (width t) \<le> avail s")
  case False
  then have none: "dec_scalar (m_bigendian s) t (unread s) = None"
    using length_unread [OF ok] by (simp add: dec_scalar_def)
  from False none show ?thesis
    by (cases t) (simp_all add: get_scalar_unfold bi_read_def read_care_endian_short short_read_def)
next
  case True
  have some: "dec_scalar (m_bigendian s) t (unread s)
      = Some (scalar_of t (host_value (m_bigendian s) (mem_get (nat (pcurr s)) (width t) (region s))),
              drop (width t) (unread s))"
    using length_unread [OF ok] True unread_split(1) [OF ok True] by (simp add: dec_scalar_def)
  show ?thesis
  proof (cases "t = T8")
    case t: True
    have "bi_read 1 s = (Inr (mem_get (nat (pcurr s)) 1 (region s)), s\<lparr>pcurr := pcurr s + 1\<rparr>)"
      using ok True t by (auto simp: bi_read_def fetch_fits stream_ok_def avail_def)
    moreover have "length (mem_get (nat (pcurr s)) 1 (region s)) = 1"
      using ok True t by (auto simp: mem_simps stream_ok_def avail_def)
    ultimately show ?thesis
      using t some by (simp add: get_scalar_unfold scalar_of_def host_value_1)
  next
    case t: False
    from read_care_endian_wire [OF ok True width_pos] obtain bs where
      "read_care_endian hb (width t) s = (Inr bs, s\<lparr>pcurr := pcurr s + int (width t)\<rparr>)"
      "host_value hb bs = host_value (m_bigendian s) (mem_get (nat (pcurr s)) (width t) (region s))" .
    with t some show ?thesis by (simp add: get_scalar_unfold)
  qed
qed

lemma advance_ok:
  "stream_ok s \<Longrightarrow> int n \<le> avail s \<Longrightarrow> stream_ok (s\<lparr>pcurr := pcurr s + int n\<rparr>)"
  by (auto simp: stream_ok_def avail_def)

lemma get_all_wires:
  assumes "stream_ok s" and "unread s = wires (m_bigendian s) vs @ rest"
  shows "get_all hb (map type_of vs) s
    = (Inr vs, s\<lparr>pcurr := pcurr s + int (length (wires (m_bigendian s) vs))\<rparr>)"
  using assms
proof (induction vs arbitrary: s)
  case (Cons v vs)
  let ?be = "m_bigendian s"
  let ?s = "s\<lparr>pcurr := pcurr s + int (width (type_of v))\<rparr>"
  have dec: "dec_scalar ?be (type_of v) (unread s) = Some (v, wires ?be vs @ rest)"
    using Cons.prems(2) wirec.dec_enc [of v "type_of v" ?be "wires ?be vs @ rest"] by simp
  have fits: "int (width (type_of v)) \<le> avail s"
    using dec length_unread [OF Cons.prems(1)] by (simp add: dec_scalar_def split: if_splits)
  have "get_all hb (map type_of vs) ?s = (Inr vs, ?s\<lparr>pcurr := pcurr ?s + int (length (wires ?be vs))\<rparr>)"
    using Cons.prems fits unread_split(2) [OF Cons.prems(1) fits]
    by (subst Cons.IH) (simp_all add: advance_ok)
  moreover have "get_scalar hb (type_of v) s = (Inr v, ?s)"
    using get_scalar_dec [OF Cons.prems(1), of hb "type_of v"] dec by simp
  ultimately show ?case
    by (simp add: bindM_def ac_simps)
qed simp


section \<open>Safety of stream programs\<close>

text \<open>
  \<open>safe m\<close>: on a well-formed stream \<open>m\<close> never touches a byte outside the buffer, and the
  stream is well-formed afterwards, whether \<open>m\<close> returned or threw.
\<close>

definition safe :: "'a bio \<Rightarrow> bool" where
  "safe m \<longleftrightarrow> (\<forall>s. stream_ok s \<longrightarrow> stream_ok (snd (m s)) \<and> (\<forall>f. fst (m s) \<noteq> Inl (Fault f)))"

lemma safeI:
  "(\<And>s. stream_ok s \<Longrightarrow> stream_ok (snd (m s)) \<and> (\<forall>f. fst (m s) \<noteq> Inl (Fault f))) \<Longrightarrow> safe m"
  by (simp add: safe_def)

lemma safe_returnM [intro, simp]: "safe (returnM x)" "safe (Pair (Inr x))"
  by (simp_all add: safe_def)

lemma safe_bindM [intro]:
  assumes "safe m" and "\<And>x. safe (f x)"
  shows "safe (bindM m f)"
proof (rule safeI)
  fix s assume "stream_ok s"
  with assms show "stream_ok (snd (bindM m f s)) \<and> (\<forall>fl. fst (bindM m f s) \<noteq> Inl (Fault fl))"
    by (auto simp: safe_def bindM_def split: prod.splits sum.splits)
qed

lemma safe_seqM [intro]: "safe m \<Longrightarrow> safe n \<Longrightarrow> safe (seqM m n)"
  by (auto simp: seqM_def)

lemma safe_put_scalar [simp]: "safe (put_scalar hb v)"
proof (rule safeI)
  fix s assume ok: "stream_ok s"
  show "stream_ok (snd (put_scalar hb v s)) \<and> (\<forall>f. fst (put_scalar hb v s) \<noteq> Inl (Fault f))"
  proof (cases "int (width (type_of v)) \<le> avail s")
    case True
    with ok have "int (length (wire (m_bigendian s) v)) \<le> avail s" by simp
    with store_ok [OF ok] put_scalar_wire [OF ok True] show ?thesis by (metis Inr_Inl_False fst_conv snd_conv)
  next
    case False
    with ok show ?thesis by (simp add: put_scalar_overflow)
  qed
qed

lemma safe_get_scalar [simp]: "safe (get_scalar hb t)"
proof (rule safeI)
  fix s assume ok: "stream_ok s"
  show "stream_ok (snd (get_scalar hb t s)) \<and> (\<forall>f. fst (get_scalar hb t s) \<noteq> Inl (Fault f))"
  proof (cases "dec_scalar (m_bigendian s) t (unread s)")
    case None
    then show ?thesis
      using ok by (cases t) (simp_all add: get_scalar_dec [OF ok] short_read_def)
  next
    case (Some a)
    then have "int (width t) \<le> avail s"
      using length_unread [OF ok] by (simp add: dec_scalar_def split: if_splits)
    with Some ok show ?thesis
      by (cases a) (simp add: get_scalar_dec [OF ok] advance_ok)
  qed
qed

lemma safe_peek [simp]: "safe peek"
  by (auto simp: safe_def peek_def stream_ok_def)

lemma bo_write_fits:
  assumes "stream_ok s" and "int len \<le> avail s" and "len \<le> length p"
  shows "bo_write p len s = store (take len p) s"
  using assms by (auto simp: bo_write_def stream_ok_def avail_def)

lemma safe_bo_write: "len < 2 ^ 63 \<Longrightarrow> len \<le> length p \<Longrightarrow> safe (bo_write p len)"
proof (rule safeI)
  fix s assume len: "len < 2 ^ 63" "len \<le> length p" and ok: "stream_ok s"
  show "stream_ok (snd (bo_write p len s)) \<and> (\<forall>f. fst (bo_write p len s) \<noteq> Inl (Fault f))"
  proof (cases "int len \<le> avail s")
    case True
    with len have "int (length (take len p)) \<le> avail s" by simp
    with store_ok [OF ok] bo_write_fits [OF ok True len(2)] show ?thesis
      by (metis Inr_Inl_False fst_conv snd_conv)
  next
    case False
    with len ok show ?thesis by (simp add: bo_write_def)
  qed
qed

lemma c_strlen_bound: "c_strlen str = Some n \<Longrightarrow> n < length str"
  by (induction str arbitrary: n) (auto split: if_splits)

lemma c_strlen_append: "0 \<notin> set str \<Longrightarrow> c_strlen (str @ 0 # rest) = Some (length str)"
  by (induction str) auto

lemma sint_of_nat_32: "n < 2 ^ 31 \<Longrightarrow> sint (of_nat n :: u32) = int n"
  by (simp add: signed_of_nat signed_take_bit_int_eq_self_iff)

definition cstr_head :: "nat \<Rightarrow> scalar list" where
  "cstr_head n =
     (if n < 255 then [S8 (of_nat n)]
      else if n < 0xfffe then [S8 0xff, S16 (of_nat n)]
      else [S8 0xff, S16 0xffff, S64 (of_nat n)])"

lemma put_cstr_head:
  assumes "c_strlen str = Some n" and "n < 2 ^ 31"
  shows "put_cstr hb str = seqM (put_all hb (cstr_head n)) (bo_write str n)"
proof -
  have "sint (of_nat n :: u32) = int n"
    using assms(2) by (rule sint_of_nat_32)
  moreover have "int n mod 2 ^ 64 = int n"
    using assms(2) by simp
  ultimately show ?thesis
    using assms(1) by (simp add: put_cstr_def cstr_head_def Let_def del: seqM_returnM)
      (simp add: seqM_assoc)
qed

lemma safe_put_all [simp]: "safe (put_all hb vs)"
  by (induction vs) auto

lemma safe_put_cstr:
  assumes "c_strlen str = Some n" and "n < 2 ^ 31"
  shows "safe (put_cstr hb str)"
proof -
  have "safe (bo_write str n)"
    using assms c_strlen_bound [OF assms(1)] by (intro safe_bo_write) auto
  then show ?thesis by (simp only: put_cstr_head [OF assms] safe_seqM safe_put_all)
qed

lemma seek_safe:
  assumes "stream_ok s" and "fst (seekg offset dir s) = Inr () \<or> fst (seekp offset dir s) = Inr ()"
  shows "stream_ok (s\<lparr>pcurr := seek_to offset dir s\<rparr>)"
  using assms by (auto simp: seekg_def seekp_def stream_ok_def avail_def Let_def split: if_splits)


lemma safe_bi_read: "len < 2 ^ 63 \<Longrightarrow> safe (bi_read len)"
  by (auto simp: safe_def bi_read_def fetch_def stream_ok_def avail_def)

lemma get_scalar_steps:
  assumes "stream_ok s" and "get_scalar hb t s = (r, s')"
  shows "case r of Inl e \<Rightarrow> (\<forall>f. e \<noteq> Fault f) \<and> s' = s
    | Inr v \<Rightarrow> s' = s\<lparr>pcurr := pcurr s + int (width t)\<rparr> \<and> stream_ok s'"
proof (cases "dec_scalar (m_bigendian s) t (unread s)")
  case None
  then show ?thesis using assms(2) by (cases t) (auto simp: get_scalar_dec [OF assms(1)] short_read_def)
next
  case (Some a)
  then have "int (width t) \<le> avail s"
    using length_unread [OF assms(1)] by (simp add: dec_scalar_def split: if_splits)
  with Some assms show ?thesis
    by (cases a) (auto simp: get_scalar_dec [OF assms(1)] advance_ok)
qed

lemma get_number_steps:
  assumes "stream_ok s"
  shows "get_uchar s = (r1, s') \<Longrightarrow> case r1 of Inl e \<Rightarrow> (\<forall>f. e \<noteq> Fault f) \<and> s' = s
      | Inr v \<Rightarrow> s' = s\<lparr>pcurr := pcurr s + 1\<rparr> \<and> stream_ok s'"
    and "get_ushort hb s = (r2, s') \<Longrightarrow> case r2 of Inl e \<Rightarrow> (\<forall>f. e \<noteq> Fault f) \<and> s' = s
      | Inr v \<Rightarrow> s' = s\<lparr>pcurr := pcurr s + 2\<rparr> \<and> stream_ok s'"
    and "get_ulong hb s = (r3, s') \<Longrightarrow> case r3 of Inl e \<Rightarrow> (\<forall>f. e \<noteq> Fault f) \<and> s' = s
      | Inr v \<Rightarrow> s' = s\<lparr>pcurr := pcurr s + 8\<rparr> \<and> stream_ok s'"
proof -
  note simps = get_scalar.simps bindM_def
  show "get_uchar s = (r1, s') \<Longrightarrow> case r1 of Inl e \<Rightarrow> (\<forall>f. e \<noteq> Fault f) \<and> s' = s
      | Inr v \<Rightarrow> s' = s\<lparr>pcurr := pcurr s + 1\<rparr> \<and> stream_ok s'"
    using get_scalar_steps [OF assms, of hb T8 "map_sum id S8 r1" s'] by (cases r1) (auto simp: simps)
  show "get_ushort hb s = (r2, s') \<Longrightarrow> case r2 of Inl e \<Rightarrow> (\<forall>f. e \<noteq> Fault f) \<and> s' = s
      | Inr v \<Rightarrow> s' = s\<lparr>pcurr := pcurr s + 2\<rparr> \<and> stream_ok s'"
    using get_scalar_steps [OF assms, of hb T16 "map_sum id S16 r2" s'] by (cases r2) (auto simp: simps)
  show "get_ulong hb s = (r3, s') \<Longrightarrow> case r3 of Inl e \<Rightarrow> (\<forall>f. e \<noteq> Fault f) \<and> s' = s
      | Inr v \<Rightarrow> s' = s\<lparr>pcurr := pcurr s + 8\<rparr> \<and> stream_ok s'"
    using get_scalar_steps [OF assms, of hb T64 "map_sum id S64 r3" s'] by (cases r3) (auto simp: simps)
qed

lemma safe_seek_back:
  assumes "stream_ok s" and "0 \<le> k" and "k \<le> pcurr s"
  shows "seekg (- k) sd_cur s = (Inr (), s\<lparr>pcurr := pcurr s - k\<rparr>) \<and> stream_ok (s\<lparr>pcurr := pcurr s - k\<rparr>)"
  using assms by (auto simp: seekg_def seek_to_def stream_ok_def avail_def Let_def)

lemma safe_read_into:
  assumes "stream_ok s" and "n \<le> length dst" and "n < 2 ^ 63" and "read_into n (s, dst) = (r, (s', dst'))"
  shows "stream_ok s' \<and> (\<forall>f. r \<noteq> Inl (Fault f))"
proof -
  have "safe (bi_read n)" using assms(3) by (rule safe_bi_read)
  moreover have "length bs = n" if "bi_read n s = (Inr bs, s1)" for bs s1
    using that assms(1) by (auto simp: bi_read_def fetch_def stream_ok_def length_mem_get split: if_splits)
  ultimately show ?thesis
    using assms(1,2,4)
    by (auto simp: safe_def read_into_def bindM_def on_stream_def copy_to_def split: prod.splits sum.splits if_splits)
qed

lemma bindM_on_stream:
  "bindM (on_stream m) f (s, dst) = (case m s of (Inl e, s') \<Rightarrow> (Inl e, (s', dst)) | (Inr x, s') \<Rightarrow> f x (s', dst))"
  by (simp add: bindM_def on_stream_def split: prod.split sum.split)

lemma safe_readcstring:
  assumes ok: "stream_ok s" and cap: "ssize \<le> length dst" "length dst < 2 ^ 63"
    and run: "readcstring hb ssize (s, dst) = (r, (s', dst'))"
  shows "stream_ok s' \<and> (\<forall>f. r \<noteq> Inl (Fault f))"
proof (cases "ssize = 0")
  case True
  then show ?thesis using ok run by (auto simp: readcstring_def)
next
  case False
  let ?d = "dst[ssize - 1 := 0]"
  have ri: "stream_ok s1 \<Longrightarrow> n < ssize \<Longrightarrow> read_into n (s1, ?d) = (r, (s', dst')) \<Longrightarrow> ?thesis" for s1 n
    using safe_read_into [of s1 n ?d r s' dst'] cap by simp
  have rewound: "?thesis" if "stream_ok s1" "0 \<le> k" "k \<le> pcurr s1"
    "seqM (on_stream (seekg (- k) sd_cur)) (throwM (agproexception rangeerror)) (s1, ?d) = (r, (s', dst'))" for s1 k
    using safe_seek_back [OF that(1-3)] that(4) by (auto simp: seqM_def bindM_def on_stream_def)
  obtain r1 s1 where 1: "get_uchar s = (r1, s1)" by fastforce
  note st1 = get_number_steps(1) [OF ok 1]
  have pos: "0 \<le> pcurr s" using ok by (simp add: stream_ok_def)
  have in_dst: "ssize - Suc 0 < length dst" using False cap by simp
  have go: "readcstring hb ssize (s, dst) =
      (case r1 of Inl e \<Rightarrow> (Inl e, (s1, ?d))
       | Inr blen \<Rightarrow>
          (if blen < 0xff then
             (if ssize \<le> unat blen
              then seqM (on_stream (seekg (- 1) sd_cur)) (throwM (agproexception rangeerror))
              else read_into (unat blen))
           else bindM (on_stream (get_ushort hb)) (\<lambda>wlen.
             if wlen < 0xfffe then
               (if ssize \<le> unat wlen
                then seqM (on_stream (seekg (- 2) sd_cur)) (throwM (agproexception rangeerror))
                else read_into (unat wlen))
             else bindM (on_stream (get_ulong hb)) (\<lambda>dwlen.
               if ssize \<le> unat dwlen
               then seqM (on_stream (seekg (- 8) sd_cur)) (throwM (agproexception rangeerror))
               else read_into (unat dwlen)))) (s1, ?d))"
    using in_dst False 1
    by (simp add: readcstring_def seqM_def bindM_def on_stream_def store_byte_def split: sum.split)
  show ?thesis
  proof (cases r1)
    case (Inl e)
    then show ?thesis using st1 ok run go by auto
  next
    case blen: (Inr blen)
    then have s1: "stream_ok s1" "1 \<le> pcurr s1" using st1 pos by auto
    show ?thesis
    proof (cases "blen < 0xff")
      case True
      then show ?thesis using go run blen rewound [OF s1(1), of 1] ri [OF s1(1), of "unat blen"] s1(2) by (auto split: if_splits)
    next
      case big: False
      obtain r2 s2 where 2: "get_ushort hb s1 = (r2, s2)" by fastforce
      note st2 = get_number_steps(2) [OF s1(1) 2]
      show ?thesis
      proof (cases r2)
        case (Inl e)
        then show ?thesis using st2 s1 run go blen big 2 by (auto simp: bindM_on_stream)
      next
        case wlen: (Inr wlen)
        then have s2: "stream_ok s2" "3 \<le> pcurr s2" using st2 s1 by auto
        show ?thesis
        proof (cases "wlen < 0xfffe")
          case True
          have go2: "readcstring hb ssize (s, dst) = (if ssize \<le> unat wlen
               then seqM (on_stream (seekg (- 2) sd_cur)) (throwM (agproexception rangeerror))
               else read_into (unat wlen)) (s2, ?d)"
            using go blen big 2 wlen True
            by (simp add: bindM_on_stream)
          then show ?thesis
            using run rewound [OF s2(1), of 2] ri [OF s2(1), of "unat wlen"] s2(2) by (auto split: if_splits)
        next
          case huge: False
          obtain r3 s3 where 3: "get_ulong hb s2 = (r3, s3)" by fastforce
          note st3 = get_number_steps(3) [OF s2(1) 3]
          have go3: "readcstring hb ssize (s, dst) = (case r3 of Inl e \<Rightarrow> (Inl e, (s3, ?d))
             | Inr dwlen \<Rightarrow> (if ssize \<le> unat dwlen
               then seqM (on_stream (seekg (- 8) sd_cur)) (throwM (agproexception rangeerror))
               else read_into (unat dwlen)) (s3, ?d))"
            using go blen big 2 wlen huge 3
            by (simp add: bindM_on_stream split: sum.split)
          show ?thesis
          proof (cases r3)
            case (Inl e)
            then show ?thesis using st3 s2 run go3 by auto
          next
            case (Inr dwlen)
            then have "stream_ok s3" "8 \<le> pcurr s3" using st3 s2 by auto
            then show ?thesis
              using go3 run Inr rewound [of s3 8] ri [of s3 "unat dwlen"] by (auto split: if_splits)
          qed
        qed
      qed
    qed
  qed
qed

section \<open>Programs over a stream\<close>

text \<open>
  The public operations as commands, raw blocks of any length and bounded strings included (the unbounded
  \<open>>> char*\<close> takes a length from the wire and checks no capacity). A caller may catch what an operation
  throws and go on with the next, as \<open>run_cmds\<close> does; only after a seek that threw does it leave the stream
  alone. A fault ends everything.
\<close>

datatype stream_cmd =
    CPut scalar
  | CPutStr "byte list"
  | CWrite "byte list" nat
  | CGet scalar_type
  | CRead nat
  | CReadCString "byte list" nat
  | CPeek
  | CSeekp int seek_dir
  | CSeekg int seek_dir

fun run_cmd :: "bool \<Rightarrow> stream_cmd \<Rightarrow> unit bio" where
  "run_cmd hb (CPut v) = put_scalar hb v"
| "run_cmd hb (CPutStr str) = put_cstr hb str"
| "run_cmd hb (CWrite p len) = bo_write p len"
| "run_cmd hb (CGet t) = bindM (get_scalar hb t) (\<lambda>_. returnM ())"
| "run_cmd hb (CRead len) = bindM (bi_read len) (\<lambda>_. returnM ())"
| "run_cmd hb (CReadCString dst ssize) = (\<lambda>s. case readcstring hb ssize (s, dst) of (r, (s, _)) \<Rightarrow> (r, s))"
| "run_cmd hb CPeek = bindM peek (\<lambda>_. returnM ())"
| "run_cmd hb (CSeekp off dir) = seekp off dir"
| "run_cmd hb (CSeekg off dir) = seekg off dir"

fun is_seek :: "stream_cmd \<Rightarrow> bool" where
  "is_seek (CSeekp _ _) = True"
| "is_seek (CSeekg _ _) = True"
| "is_seek _ = False"

fun is_fault :: "bio_exn \<Rightarrow> bool" where
  "is_fault (Fault _) = True"
| "is_fault _ = False"

fun run_cmds :: "bool \<Rightarrow> stream_cmd list \<Rightarrow> unit bio" where
  "run_cmds hb [] s = (Inr (), s)"
| "run_cmds hb (c # cs) s =
     (case run_cmd hb c s of
        (Inr _, s) \<Rightarrow> run_cmds hb cs s
      | (Inl e, s) \<Rightarrow> if is_fault e \<or> is_seek c then (Inl e, s) else run_cmds hb cs s)"

text \<open>
  String arguments are NUL-terminated and of a length an \<open>int\<close> holds; a raw block lies inside the caller's array,
  and a \<open>size_t\<close> stays positive as a \<open>long\<close>.
\<close>

fun cmd_ok :: "stream_cmd \<Rightarrow> bool" where
  "cmd_ok (CPutStr str) = (case c_strlen str of None \<Rightarrow> False | Some n \<Rightarrow> n < 2 ^ 31)"
| "cmd_ok (CWrite p len) = (len \<le> length p \<and> len < 2 ^ 63)"
| "cmd_ok (CRead len) = (len < 2 ^ 63)"
| "cmd_ok (CReadCString dst ssize) = (ssize \<le> length dst \<and> length dst < 2 ^ 63)"
| "cmd_ok _ = True"

lemma run_cmd_safe: "cmd_ok c \<Longrightarrow> \<not> is_seek c \<Longrightarrow> safe (run_cmd hb c)"
proof (cases c)
  case (CReadCString dst ssize)
  assume "cmd_ok c"
  show ?thesis
  proof (rule safeI)
    fix s assume "stream_ok s"
    obtain r s' d where run: "readcstring hb ssize (s, dst) = (r, (s', d))" by (metis surj_pair)
    from safe_readcstring [OF \<open>stream_ok s\<close> _ _ run] \<open>cmd_ok c\<close> CReadCString
    show "stream_ok (snd (run_cmd hb c s)) \<and> (\<forall>f. fst (run_cmd hb c s) \<noteq> Inl (Fault f))" by (simp add: run)
  qed
qed (auto split: option.splits intro!: safe_put_cstr safe_bo_write safe_bi_read safe_bindM)

lemma run_cmd_seek:
  assumes "is_seek c" and "stream_ok s"
  shows "(\<forall>f. fst (run_cmd hb c s) \<noteq> Inl (Fault f))
    \<and> (fst (run_cmd hb c s) = Inr () \<longrightarrow> stream_ok (snd (run_cmd hb c s)))"
  using assms by (cases c) (auto simp: seekp_def seekg_def stream_ok_def avail_def Let_def)

text \<open>
  C2: Memory safety of the stream. Whatever sequence of operations a caller performs on a well-formed
  stream (writes and reads of scalars, of strings through the bounded \<open>readcstring\<close> and of raw blocks, peeks
  and seeks), also when it catches what they throw and goes on with the next, no byte outside the attached
  buffer is ever read or written, and if no seek threw the stream is still well-formed at the end. Two
  conditions: a caller goes on after every exception but that of a seek, which has already moved the pointer
  when it throws; and the arguments are legal: a string to write is NUL-terminated and shorter than \<open>2 ^ 31\<close>, a
  raw length is below \<open>2 ^ 63\<close> and within the array written from, the size given to \<open>readcstring\<close> within the
  array read to.
\<close>

theorem stream_programs_safe:
  assumes "stream_ok s" and "list_all cmd_ok cs"
  shows "(\<forall>f. fst (run_cmds hb cs s) \<noteq> Inl (Fault f))
    \<and> (fst (run_cmds hb cs s) = Inr () \<longrightarrow> stream_ok (snd (run_cmds hb cs s)))
    \<and> (fst (run_cmds hb cs s) \<noteq> Inr () \<longrightarrow> (\<exists>c\<in>set cs. is_seek c))"
  using assms
proof (induction cs arbitrary: s)
  case (Cons c cs)
  obtain r s' where run: "run_cmd hb c s = (r, s')" by fastforce
  show ?case
  proof (cases "is_seek c")
    case True
    note st = run_cmd_seek [OF True Cons.prems(1), of hb]
    show ?thesis
    proof (cases r)
      case (Inl e)
      then show ?thesis using st run True by auto
    next
      case (Inr u)
      then have "stream_ok s'" using st run by simp
      then show ?thesis using Cons.IH [of s'] Cons.prems(2) run Inr by auto
    qed
  next
    case False
    have "safe (run_cmd hb c)" using run_cmd_safe [OF _ False] Cons.prems(2) by simp
    then have ok: "stream_ok s'" "\<And>f. r \<noteq> Inl (Fault f)" using Cons.prems(1) run by (auto simp: safe_def)
    have "\<not> is_fault e" if "r = Inl e" for e using ok(2) that by (cases e) auto
    then have "run_cmds hb (c # cs) s = run_cmds hb cs s'" using run False by (auto split: sum.split)
    then show ?thesis using Cons.IH [OF ok(1)] Cons.prems(2) by auto
  qed
qed simp

theorem stream_programs_safe_witness:
  "fst (run_cmds False [CPut (S32 7), CPut (S32 8), CSeekp 0 sd_beg, CGet T16, CPutStr [65, 0], CRead 9]
     (attach [0, 0, 0, 0] 4 (bostream_new False))) \<noteq> Inl (Fault OutOfBounds)"
proof -
  have "stream_ok (attach [0, 0, 0, 0] 4 (bostream_new False))"
    by (simp add: stream_ok_def attach_def bostream_new_def bios_new_def)
  from stream_programs_safe [OF this, of "[CPut (S32 7), CPut (S32 8), CSeekp 0 sd_beg, CGet T16, CPutStr [65, 0], CRead 9]" False]
  show ?thesis by simp
qed

text \<open>
  C1: A message written on a machine of one byte order and read on a machine of another
  comes back unchanged: the list of scalars the reader returns is the list the writer put,
  the bytes in between being those the writer's \<open>length()\<close> counts, whatever follows them.
\<close>

theorem stream_roundtrip:
  assumes fits: "length (wires be vs) \<le> n" "n \<le> length buf" "length buf < 2 ^ 62"
    and put: "put_all hb1 vs (attach buf (int n) (bostream_new be)) = (r, s')"
    and junk: "length junk < 2 ^ 62"
  shows "r = Inr () \<and> bios_length s' = int (length (wires be vs))
    \<and> fst (get_all hb2 (map type_of vs)
         (attach (take (length (wires be vs)) (region s') @ junk)
                 (int (length (wires be vs) + length junk)) (bistream_new be))) = Inr vs"
proof -
  let ?w = "wires be vs"
  let ?s = "attach buf (int n) (bostream_new be)"
  have ok: "stream_ok ?s"
    using fits by (intro stream_ok_attach) auto
  have "put_all hb1 vs ?s = store ?w ?s"
    using put_all_wires [OF ok, of vs hb1] fits(1) by simp
  also have "\<dots> = (Inr (), ?s\<lparr>region := mem_put 0 ?w buf, pcurr := int (length ?w)\<rparr>)"
    using fits by (subst store_fits) simp_all
  finally have eq: "r = Inr ()" "bios_length s' = int (length ?w)" "region s' = mem_put 0 ?w buf"
    using put by (auto simp: bios_length_def)
  let ?t = "attach (?w @ junk) (int (length ?w + length junk)) (bistream_new be)"
  have "stream_ok ?t"
    using fits junk by (intro stream_ok_attach) auto
  moreover have "unread ?t = wires (m_bigendian ?t) vs @ junk"
    by (simp only: unread_attach) simp
  ultimately have "fst (get_all hb2 (map type_of vs) ?t) = Inr vs"
    by (subst get_all_wires) simp_all
  moreover have "take (length ?w) (region s') = ?w"
    using eq(3) by (simp add: mem_simps)
  ultimately show ?thesis
    using eq by simp
qed

theorem stream_roundtrip_witness:
  "\<exists>r s'. put_all False [S16 0x1122, S32 0x33445566] (attach (replicate 6 0) (int 6) (bostream_new False)) = (r, s')
     \<and> fst (get_all True [T16, T32] (attach (take 6 (region s')) 6 (bistream_new False)))
       = Inr [S16 0x1122, S32 0x33445566]"
proof -
  let ?p = "put_all False [S16 0x1122, S32 0x33445566] (attach (replicate 6 0) (int 6) (bostream_new False))"
  obtain r s' where p: "?p = (r, s')" by fastforce
  have "length (wires False [S16 0x1122, S32 0x33445566]) = 6" by simp
  with stream_roundtrip [of False "[S16 0x1122, S32 0x33445566]" 6 "replicate 6 0" False r s' "[]" True] p
  have "fst (get_all True [T16, T32] (attach (take 6 (region s')) 6 (bistream_new False)))
      = Inr [S16 0x1122, S32 0x33445566]"
    by (simp del: get_all.simps)
  with p show ?thesis by blast
qed


section \<open>Strings\<close>

lemma unread_advance:
  assumes "stream_ok s" and "unread s = xs @ rest"
  shows "unread (s\<lparr>pcurr := pcurr s + int (length xs)\<rparr>) = rest"
    and "stream_ok (s\<lparr>pcurr := pcurr s + int (length xs)\<rparr>)"
    and "int (length xs) \<le> avail s"
proof -
  show fits: "int (length xs) \<le> avail s"
    using length_unread [OF assms(1)] assms(2) by simp
  show "unread (s\<lparr>pcurr := pcurr s + int (length xs)\<rparr>) = rest"
    using unread_split(2) [OF assms(1) fits] assms(2) by simp
  show "stream_ok (s\<lparr>pcurr := pcurr s + int (length xs)\<rparr>)"
    using assms(1) fits by (rule advance_ok)
qed

lemma get_scalar_wire:
  assumes "stream_ok s" and "unread s = wire (m_bigendian s) v @ rest"
  shows "get_scalar hb (type_of v) s = (Inr v, s\<lparr>pcurr := pcurr s + int (width (type_of v))\<rparr>)"
  using get_scalar_dec [OF assms(1), of hb "type_of v"] assms(2) wirec.dec_enc [of v "type_of v"]
  by simp

lemma get_one_wire:
  assumes "stream_ok s"
  shows "unread s = b # rest \<Longrightarrow> get_uchar s = (Inr b, s\<lparr>pcurr := pcurr s + 1\<rparr>)"
    and "unread s = wire (m_bigendian s) (S16 w) @ rest \<Longrightarrow>
      get_ushort hb s = (Inr w, s\<lparr>pcurr := pcurr s + 2\<rparr>)"
    and "unread s = wire (m_bigendian s) (S32 d) @ rest \<Longrightarrow>
      get_uint hb s = (Inr d, s\<lparr>pcurr := pcurr s + 4\<rparr>)"
    and "unread s = wire (m_bigendian s) (S64 q) @ rest \<Longrightarrow>
      get_ulong hb s = (Inr q, s\<lparr>pcurr := pcurr s + 8\<rparr>)"
  using get_scalar_wire [OF assms, of "S8 b" rest hb] get_scalar_wire [OF assms, of "S16 w" rest hb]
    get_scalar_wire [OF assms, of "S32 d" rest hb] get_scalar_wire [OF assms, of "S64 q" rest hb]
  by (simp_all add: get_scalar.simps wire_def bindM_def split: prod.splits sum.splits)

lemma read_into_unread:
  assumes "stream_ok s" and "unread s = str @ rest" and "length str \<le> length dst"
    and "length str < 2 ^ 63"
  shows "read_into (length str) (s, dst)
    = (Inr (), (s\<lparr>pcurr := pcurr s + int (length str)\<rparr>, mem_put 0 str dst))"
proof -
  note fits = unread_advance(3) [OF assms(1,2)]
  have "mem_get (nat (pcurr s)) (length str) (region s) = str"
    using unread_split(1) [OF assms(1) fits] assms(2) by simp
  then have "bi_read (length str) s = (Inr str, s\<lparr>pcurr := pcurr s + int (length str)\<rparr>)"
    using assms(1,4) fits by (auto simp: bi_read_def fetch_fits stream_ok_def avail_def)
  then show ?thesis
    using assms(3) by (simp add: read_into_def bindM_def on_stream_def copy_to_def)
qed

lemma put_cstr_store:
  assumes "stream_ok s" and "c_strlen str = Some n" and "n < 2 ^ 31"
    and "int (length (wires (m_bigendian s) (cstr_head n)) + n) \<le> avail s"
  shows "put_cstr hb str s = store (wires (m_bigendian s) (cstr_head n) @ take n str) s"
proof -
  let ?w = "wires (m_bigendian s) (cstr_head n)"
  have n: "n \<le> length str" using c_strlen_bound [OF assms(2)] by simp
  have fits: "int (length ?w) \<le> avail s" using assms(4) by simp
  from store_ok [OF assms(1) fits] obtain s' where s': "store ?w s = (Inr (), s')" "stream_ok s'"
    "avail s' = avail s - int (length ?w)" by metis
  have "put_cstr hb str s = bo_write str n s'"
    using put_cstr_head [OF assms(2,3)] put_all_wires [OF assms(1) fits] s'(1) by (simp add: seqM_Inr)
  also have "\<dots> = store (take n str) s'"
    using s' assms(4) n by (intro bo_write_fits) auto
  also have "\<dots> = seqM (store ?w) (store (take n str)) s"
    using s'(1) by (simp add: seqM_Inr)
  also have "\<dots> = store (?w @ take n str) s"
    using assms(1,4) n by (intro store_append) (auto simp: stream_ok_def avail_def)
  finally show ?thesis .
qed

lemma get_cstr_short:
  assumes ok: "stream_ok s" and n: "length str < 255" and cap: "length str \<le> length dst"
    and un: "unread s = [of_nat (length str)] @ str @ rest"
  shows "get_cstr hb (s, dst)
    = (Inr (), (s\<lparr>pcurr := pcurr s + 1 + int (length str)\<rparr>, mem_put 0 str dst))"
proof -
  let ?s = "s\<lparr>pcurr := pcurr s + 1\<rparr>"
  have u: "unat (of_nat (length str) :: byte) = length str" using n by (simp add: unat_of_nat)
  then have lt: "(of_nat (length str) :: byte) < 0xff" using n by (simp add: word_less_nat_alt)
  have "get_uchar s = (Inr (of_nat (length str)), ?s)"
    using get_one_wire(1) [OF ok] un by simp
  moreover have "read_into (length str) (?s, dst)
      = (Inr (), (?s\<lparr>pcurr := pcurr ?s + int (length str)\<rparr>, mem_put 0 str dst))"
    using unread_advance [OF ok un] cap n by (intro read_into_unread) simp_all
  ultimately show ?thesis
    using lt u by (simp add: get_cstr_def bindM_def on_stream_def ac_simps)
qed

text \<open>Reading the two longer length fields, one after the other.\<close>

lemma read_head_medium:
  assumes ok: "stream_ok s" and un: "unread s = [0xff] @ wire (m_bigendian s) (S16 w) @ rest"
  shows "get_uchar s = (Inr 0xff, s\<lparr>pcurr := pcurr s + 1\<rparr>)"
    and "get_ushort hb (s\<lparr>pcurr := pcurr s + 1\<rparr>) = (Inr w, s\<lparr>pcurr := pcurr s + 3\<rparr>)"
    and "unread (s\<lparr>pcurr := pcurr s + 3\<rparr>) = rest" and "stream_ok (s\<lparr>pcurr := pcurr s + 3\<rparr>)"
proof -
  let ?s = "s\<lparr>pcurr := pcurr s + 1\<rparr>"
  note s1 = unread_advance [OF ok un]
  show "get_uchar s = (Inr 0xff, ?s)" using get_one_wire(1) [OF ok] un by simp
  have "get_ushort hb ?s = (Inr w, ?s\<lparr>pcurr := pcurr ?s + 2\<rparr>)"
    using s1 by (intro get_one_wire(2) [where rest = rest]) simp_all
  then show "get_ushort hb ?s = (Inr w, s\<lparr>pcurr := pcurr s + 3\<rparr>)" by simp
  show "unread (s\<lparr>pcurr := pcurr s + 3\<rparr>) = rest" "stream_ok (s\<lparr>pcurr := pcurr s + 3\<rparr>)"
    using unread_advance [of ?s "wire (m_bigendian s) (S16 w)" rest] s1 by (simp_all add: add.commute)
qed

lemma read_head_long:
  assumes ok: "stream_ok s"
    and un: "unread s = [0xff] @ wire (m_bigendian s) (S16 w) @ wire (m_bigendian s) (S64 q) @ rest"
  shows "get_ulong hb (s\<lparr>pcurr := pcurr s + 3\<rparr>) = (Inr q, s\<lparr>pcurr := pcurr s + 11\<rparr>)"
    and "unread (s\<lparr>pcurr := pcurr s + 11\<rparr>) = rest" and "stream_ok (s\<lparr>pcurr := pcurr s + 11\<rparr>)"
proof -
  let ?s = "s\<lparr>pcurr := pcurr s + 3\<rparr>"
  note s3 = read_head_medium(3,4) [OF ok un]
  have "get_ulong hb ?s = (Inr q, ?s\<lparr>pcurr := pcurr ?s + 8\<rparr>)"
    using s3 by (intro get_one_wire(4) [where rest = rest]) simp_all
  then show "get_ulong hb ?s = (Inr q, s\<lparr>pcurr := pcurr s + 11\<rparr>)" by simp
  show "unread (s\<lparr>pcurr := pcurr s + 11\<rparr>) = rest" "stream_ok (s\<lparr>pcurr := pcurr s + 11\<rparr>)"
    using unread_advance [of ?s "wire (m_bigendian s) (S64 q)" rest] s3 by (simp_all add: add.commute)
qed

lemma get_cstr_medium:
  assumes ok: "stream_ok s" and n: "length str < 0xfffe" and cap: "length str \<le> length dst"
    and un: "unread s = [0xff] @ wire (m_bigendian s) (S16 (of_nat (length str))) @ str @ rest"
  shows "get_cstr hb (s, dst)
    = (Inr (), (s\<lparr>pcurr := pcurr s + 3 + int (length str)\<rparr>, mem_put 0 str dst))"
proof -
  let ?n = "length str" and ?s = "s\<lparr>pcurr := pcurr s + 3\<rparr>"
  have u: "unat (of_nat ?n :: u16) = ?n" using n by (simp add: unat_of_nat)
  then have lt: "(of_nat ?n :: u16) < 0xfffe" using n by (simp add: word_less_nat_alt)
  note hd = read_head_medium [OF ok un]
  have "read_into ?n (?s, dst) = (Inr (), (?s\<lparr>pcurr := pcurr ?s + int ?n\<rparr>, mem_put 0 str dst))"
    using hd(3,4) cap n by (intro read_into_unread) simp_all
  then show ?thesis
    using lt u hd(1,2) by (simp add: get_cstr_def bindM_def on_stream_def)
qed

lemma marker_not_less: "\<not> (0xffff :: u16) < 0xfffe" "\<not> (0xff :: byte) < 0xff"
  by (simp_all add: word_less_nat_alt)

lemma get_cstr_long:
  assumes ok: "stream_ok s" and n: "length str < 2 ^ 31" and cap: "length str \<le> length dst"
    and un: "unread s = [0xff] @ wire (m_bigendian s) (S16 0xffff)
      @ wire (m_bigendian s) (S64 (of_nat (length str))) @ str @ rest"
  shows "get_cstr hb (s, dst)
    = (Inr (), (s\<lparr>pcurr := pcurr s + 11 + int (length str)\<rparr>, mem_put 0 str dst))"
proof -
  let ?n = "length str" and ?s = "s\<lparr>pcurr := pcurr s + 11\<rparr>"
  have u: "unat (of_nat ?n :: u64) = ?n" using n by (simp add: unat_of_nat)
  note hd = read_head_medium [OF ok un] and hl = read_head_long [OF ok un]
  have "read_into ?n (?s, dst) = (Inr (), (?s\<lparr>pcurr := pcurr ?s + int ?n\<rparr>, mem_put 0 str dst))"
    using hl(2,3) cap n by (intro read_into_unread) simp_all
  then show ?thesis
    using u hd(1,2) hl(1) marker_not_less by (simp add: get_cstr_def bindM_def on_stream_def)
qed

lemma get_cstr_wires:
  assumes "stream_ok s" and "length str < 2 ^ 31" and "length str \<le> length dst"
    and "unread s = wires (m_bigendian s) (cstr_head (length str)) @ str @ rest"
  shows "get_cstr hb (s, dst)
    = (Inr (), (s\<lparr>pcurr := pcurr s + int (length (wires (m_bigendian s) (cstr_head (length str)) @ str))\<rparr>,
                mem_put 0 str dst))"
proof -
  consider "length str < 255" | "\<not> length str < 255" "length str < 0xfffe" | "\<not> length str < 0xfffe"
    by linarith
  then show ?thesis
  proof cases
    case 1
    with get_cstr_short [OF assms(1) 1 assms(3), of rest hb] assms(4) show ?thesis
      by (simp add: cstr_head_def ac_simps)
  next
    case 2
    with get_cstr_medium [OF assms(1) 2(2) assms(3), of rest hb] assms(4) show ?thesis
      by (simp add: cstr_head_def ac_simps)
  next
    case 3
    with get_cstr_long [OF assms(1,2,3), of rest hb] assms(4) show ?thesis
      by (simp add: cstr_head_def ac_simps)
  qed
qed

text \<open>
  The three length formats of strings agree. A string of any length below 2 GiB written
  with \<open>operator<<(const char*)\<close> is read back by \<open>operator>>(char*)\<close> byte for byte into any
  array that is large enough, and the reader stops exactly where the writer stopped.
\<close>

theorem cstr_roundtrip:
  assumes "0 \<notin> set str" and "length str < 2 ^ 31" and "length str \<le> length dst"
    and "length (wires be (cstr_head (length str))) + length str \<le> n"
    and "n \<le> length buf" and "length buf < 2 ^ 62"
    and "put_cstr hb1 (str @ 0 # tail) (attach buf (int n) (bostream_new be)) = (r, s')"
  shows "r = Inr ()
    \<and> get_cstr hb2 (attach (region s') (bios_length s') (bistream_new be), dst)
      = (Inr (), ((attach (region s') (bios_length s') (bistream_new be))\<lparr>pcurr := bios_length s'\<rparr>,
                  mem_put 0 str dst))"
proof -
  let ?h = "wires be (cstr_head (length str))"
  let ?s = "attach buf (int n) (bostream_new be)"
  have ok: "stream_ok ?s" using assms by (intro stream_ok_attach) auto
  have "put_cstr hb1 (str @ 0 # tail) ?s = store (?h @ str) ?s"
    using put_cstr_store [OF ok c_strlen_append [OF assms(1)] assms(2)] assms(4) by simp
  also have "\<dots> = (Inr (), ?s\<lparr>region := mem_put 0 (?h @ str) buf, pcurr := int (length (?h @ str))\<rparr>)"
    using assms by (subst store_fits) simp_all
  finally have eq: "r = Inr ()" "bios_length s' = int (length (?h @ str))"
    "region s' = mem_put 0 (?h @ str) buf"
    using assms(7) by (auto simp: bios_length_def)
  let ?t = "attach (region s') (bios_length s') (bistream_new be)"
  have "stream_ok ?t"
    unfolding eq using assms by (intro stream_ok_attach) (auto simp: mem_simps)
  moreover have "unread ?t = wires (m_bigendian ?t) (cstr_head (length str)) @ str @ []"
    by (simp only: eq unread_attach) (simp add: mem_simps)
  ultimately show ?thesis
    using get_cstr_wires [of ?t str dst "[]" hb2] assms(2,3) eq by (simp add: attach_def)
qed

theorem cstr_roundtrip_witness:
  "\<exists>r s'. put_cstr False [104, 105, 0] (attach (replicate 8 0) (int 8) (bostream_new True)) = (r, s')
     \<and> snd (snd (get_cstr True (attach (region s') (bios_length s') (bistream_new True), replicate 4 0)))
       = [104, 105, 0, 0]"
proof -
  obtain r s' where p: "put_cstr False ([104, 105] @ 0 # []) (attach (replicate 8 0) (int 8) (bostream_new True)) = (r, s')"
    by fastforce
  from cstr_roundtrip [OF _ _ _ _ _ _ p, of "replicate 4 0" True]
  have "snd (snd (get_cstr True (attach (region s') (bios_length s') (bistream_new True), replicate 4 0)))
      = mem_put 0 [104, 105] (replicate 4 0)"
    by (simp add: cstr_head_def)
  with p show ?thesis by (auto simp: mem_put_def eval_nat_numeral)
qed


subsection \<open>Strings into bounded arrays\<close>

text \<open>
  How far \<open>readcstring\<close> has rewound when it refuses a string: it steps back over the last
  length field it read, not over the marker bytes before it.
\<close>

definition refused_at :: "nat \<Rightarrow> int" where
  "refused_at n = (if n < 255 then 0 else if n < 0xfffe then 1 else 3)"

lemma seekg_back:
  "stream_ok s \<Longrightarrow> k \<le> pcurr s \<Longrightarrow> 0 \<le> k \<Longrightarrow>
   seekg (- k) sd_cur s = (Inr (), s\<lparr>pcurr := pcurr s - k\<rparr>)"
  by (auto simp: seekg_def seek_to_def Let_def avail_def stream_ok_def)

lemma readcstring_short:
  assumes ok: "stream_ok s" and n: "length str < 255" and cap: "0 < ssize" "ssize \<le> length dst"
    and un: "unread s = [of_nat (length str)] @ str @ rest"
  shows "readcstring hb ssize (s, dst) =
    (if length str < ssize
     then (Inr (), (s\<lparr>pcurr := pcurr s + 1 + int (length str)\<rparr>, mem_put 0 str (dst[ssize - 1 := 0])))
     else (Inl (agproexception rangeerror), (s, dst[ssize - 1 := 0])))"
proof -
  let ?s = "s\<lparr>pcurr := pcurr s + 1\<rparr>"
  have u: "unat (of_nat (length str) :: byte) = length str" using n by (simp add: unat_of_nat)
  then have lt: "(of_nat (length str) :: byte) < 0xff" using n by (simp add: word_less_nat_alt)
  have rd: "get_uchar s = (Inr (of_nat (length str)), ?s)"
    using get_one_wire(1) [OF ok] un by simp
  have "length str < ssize \<Longrightarrow> read_into (length str) (?s, dst[ssize - 1 := 0])
      = (Inr (), (?s\<lparr>pcurr := pcurr ?s + int (length str)\<rparr>, mem_put 0 str (dst[ssize - 1 := 0])))"
    using unread_advance [OF ok un] cap n by (intro read_into_unread) simp_all
  moreover have "seekg (- 1) sd_cur ?s = (Inr (), s)"
    using unread_advance(2) [OF ok un] ok by (subst seekg_back) (simp_all add: stream_ok_def)
  ultimately show ?thesis
    using lt u rd cap by (simp add: readcstring_def seqM_def bindM_def on_stream_def store_byte_def)
qed

lemma readcstring_medium:
  assumes ok: "stream_ok s" and n: "length str < 0xfffe" and cap: "0 < ssize" "ssize \<le> length dst"
    and un: "unread s = [0xff] @ wire (m_bigendian s) (S16 (of_nat (length str))) @ str @ rest"
  shows "readcstring hb ssize (s, dst) =
    (if length str < ssize
     then (Inr (), (s\<lparr>pcurr := pcurr s + 3 + int (length str)\<rparr>, mem_put 0 str (dst[ssize - 1 := 0])))
     else (Inl (agproexception rangeerror), (s\<lparr>pcurr := pcurr s + 1\<rparr>, dst[ssize - 1 := 0])))"
proof -
  let ?n = "length str" and ?s = "s\<lparr>pcurr := pcurr s + 3\<rparr>"
  have u: "unat (of_nat ?n :: u16) = ?n" using n by (simp add: unat_of_nat)
  then have lt: "(of_nat ?n :: u16) < 0xfffe" using n by (simp add: word_less_nat_alt)
  note hd = read_head_medium [OF ok un]
  have "?n < ssize \<Longrightarrow> read_into ?n (?s, dst[ssize - 1 := 0])
      = (Inr (), (?s\<lparr>pcurr := pcurr ?s + int ?n\<rparr>, mem_put 0 str (dst[ssize - 1 := 0])))"
    using hd(3,4) cap n by (intro read_into_unread) simp_all
  moreover have "seekg (- 2) sd_cur ?s = (Inr (), s\<lparr>pcurr := pcurr s + 1\<rparr>)"
    using hd(4) ok by (subst seekg_back) (simp_all add: stream_ok_def)
  ultimately show ?thesis
    using lt u hd(1,2) cap by (simp add: readcstring_def seqM_def bindM_def on_stream_def store_byte_def)
qed

lemma readcstring_long:
  assumes ok: "stream_ok s" and n: "length str < 2 ^ 31" and cap: "0 < ssize" "ssize \<le> length dst"
    and un: "unread s = [0xff] @ wire (m_bigendian s) (S16 0xffff)
      @ wire (m_bigendian s) (S64 (of_nat (length str))) @ str @ rest"
  shows "readcstring hb ssize (s, dst) =
    (if length str < ssize
     then (Inr (), (s\<lparr>pcurr := pcurr s + 11 + int (length str)\<rparr>, mem_put 0 str (dst[ssize - 1 := 0])))
     else (Inl (agproexception rangeerror), (s\<lparr>pcurr := pcurr s + 3\<rparr>, dst[ssize - 1 := 0])))"
proof -
  let ?n = "length str" and ?s = "s\<lparr>pcurr := pcurr s + 11\<rparr>"
  have u: "unat (of_nat ?n :: u64) = ?n" using n by (simp add: unat_of_nat)
  note hd = read_head_medium [OF ok un] and hl = read_head_long [OF ok un]
  have "?n < ssize \<Longrightarrow> read_into ?n (?s, dst[ssize - 1 := 0])
      = (Inr (), (?s\<lparr>pcurr := pcurr ?s + int ?n\<rparr>, mem_put 0 str (dst[ssize - 1 := 0])))"
    using hl(2,3) cap n by (intro read_into_unread) simp_all
  moreover have "seekg (- 8) sd_cur ?s = (Inr (), s\<lparr>pcurr := pcurr s + 3\<rparr>)"
    using hl(3) ok by (subst seekg_back) (simp_all add: stream_ok_def)
  ultimately show ?thesis
    using u hd(1,2) hl(1) cap marker_not_less
    by (simp add: readcstring_def seqM_def bindM_def on_stream_def store_byte_def)
qed

text \<open>
  \<open>readcstring\<close> on every branch. A string that fits the caller's array with room for a
  NUL is copied, with the array's last byte set to NUL; one that does not fit is refused with
  \<open>rangeerror\<close>, nothing but that last byte having been written, and the stream is left at
  the start of the string only for the shortest of the three formats: for the others it is
  left inside the length field (\<open>refused_at\<close>).
\<close>

theorem readcstring_spec:
  assumes "stream_ok s" and "length str < 2 ^ 31" and "0 < ssize" and "ssize \<le> length dst"
    and "unread s = wires (m_bigendian s) (cstr_head (length str)) @ str @ rest"
  shows "readcstring hb ssize (s, dst) =
    (if length str < ssize
     then (Inr (), (s\<lparr>pcurr := pcurr s
             + int (length (wires (m_bigendian s) (cstr_head (length str)) @ str))\<rparr>,
           mem_put 0 str (dst[ssize - 1 := 0])))
     else (Inl (agproexception rangeerror),
           (s\<lparr>pcurr := pcurr s + refused_at (length str)\<rparr>, dst[ssize - 1 := 0])))"
proof -
  consider "length str < 255" | "\<not> length str < 255" "length str < 0xfffe" | "\<not> length str < 0xfffe"
    by linarith
  then show ?thesis
  proof cases
    case 1
    with readcstring_short [OF assms(1) 1 assms(3,4), of rest hb] assms(5) show ?thesis
      by (simp add: cstr_head_def refused_at_def ac_simps)
  next
    case 2
    with readcstring_medium [OF assms(1) 2(2) assms(3,4), of rest hb] assms(5) show ?thesis
      by (simp add: cstr_head_def refused_at_def ac_simps)
  next
    case 3
    with readcstring_long [OF assms(1,2,3,4), of rest hb] assms(5) show ?thesis
      by (simp add: cstr_head_def refused_at_def ac_simps)
  qed
qed

theorem readcstring_spec_witness:
  "fst (readcstring False 2 (attach [3, 65, 66, 67] 4 (bistream_new False), [9, 9])) = Inl (agproexception rangeerror)"
proof -
  let ?s = "attach [3, 65, 66, 67 :: byte] (int 4) (bistream_new False)"
  have "stream_ok ?s" by (intro stream_ok_attach) simp_all
  moreover have "unread ?s = wires (m_bigendian ?s) (cstr_head (length [65, 66, 67 :: byte])) @ [65, 66, 67] @ []"
    by (simp only: unread_attach) (simp add: cstr_head_def)
  ultimately show ?thesis
    using readcstring_spec [of ?s "[65, 66, 67]" 2 "[9, 9]" "[]" False] by simp
qed

text \<open>
  \<open>seekp\<close> and \<open>seekg\<close> are not exception safe: a seek before the buffer throws, but has
  already moved the pointer, and the guard of the next write, which only compares the
  distance to the end of the buffer, then lets it write in front of the buffer.
\<close>

theorem seekp_exception_unsafe:
  assumes "stream_ok s" and "offset < 0"
  shows "fst (seekp offset sd_beg s) = Inl (biosexception exc_overflow)
    \<and> fst (put_uchar b (snd (seekp offset sd_beg s))) = Inl (Fault OutOfBounds)"
  using assms
  by (auto simp: seekp_def seek_to_def Let_def avail_def stream_ok_def put_uchar_def bo_write_def store_def)

theorem seekp_exception_unsafe_witness:
  "fst (put_uchar 7 (snd (seekp (- 1) sd_beg (attach [0, 0] 2 (bostream_new False)))))
   = Inl (Fault OutOfBounds)"
proof -
  have "stream_ok (attach [0, 0] 2 (bostream_new False))"
    by (intro stream_ok_attach) simp_all
  from seekp_exception_unsafe [OF this, of "- 1" 7] show ?thesis by simp
qed

end
