(* ===== verification/Protocol.thy ===== *)
theory Protocol
  imports Biostream
begin

text \<open>
  The packets of \<^verbatim>\<open>include/protocol/ProtocolBase.h\<close>: the four-byte head every packet starts
  with, the heartbeat body, and the two macros that read a body (\<open>READXY\<close>) and build a
  packet (\<open>GET_TEMPLATE_BUF\<close> of \<^verbatim>\<open>EchoServer/SomeDefine.h\<close>).

  A packet as a byte string is \<open>packet_wf\<close> when its length field counts the whole packet;
  \<open>dec_packet\<close> is the specification of cutting one packet off a byte string.
\<close>

section \<open>Heads and heartbeats\<close>

abbreviation HEADLEN :: nat where
  "HEADLEN \<equiv> 4"

abbreviation XYID_HEARTBEAT :: u16 where
  "XYID_HEARTBEAT \<equiv> 1"

record ProtocolHead =
  h_len :: u16
  h_xyid :: u16

definition head_reset :: ProtocolHead where
  "head_reset = \<lparr>h_len = 0, h_xyid = 0\<rparr>"

definition put_head :: "bool \<Rightarrow> ProtocolHead \<Rightarrow> unit bio" where
  "put_head hb msg = seqM (put_ushort hb (h_len msg)) (put_ushort hb (h_xyid msg))"

definition get_head :: "bool \<Rightarrow> ProtocolHead bio" where
  "get_head hb =
     bindM (get_ushort hb) (\<lambda>l.
     bindM (get_ushort hb) (\<lambda>x.
     returnM (head_reset\<lparr>h_len := l, h_xyid := x\<rparr>)))"

record Heartbeat =
  timestamp :: u32

definition heartbeat_reset :: Heartbeat where
  "heartbeat_reset = \<lparr>timestamp = 0\<rparr>"

abbreviation sizeof_Heartbeat :: nat where
  "sizeof_Heartbeat \<equiv> 4"

definition put_heartbeat :: "bool \<Rightarrow> Heartbeat \<Rightarrow> unit bio" where
  "put_heartbeat hb msg = put_uint hb (timestamp msg)"

definition get_heartbeat :: "bool \<Rightarrow> Heartbeat bio" where
  "get_heartbeat hb = bindM (get_uint hb) (\<lambda>t. returnM (heartbeat_reset\<lparr>timestamp := t\<rparr>))"

text \<open>\<open>READXY(xy, buf, len)\<close>: \<open>buf\<close> is what the pointer gives access to.\<close>

definition READXY :: "'a bio \<Rightarrow> byte list \<Rightarrow> nat \<Rightarrow> bio_exn + 'a" where
  "READXY get_xy buf n = fst (get_xy (attach buf (int n) (bistream_new False)))"

text \<open>
  \<open>GET_TEMPLATE_BUF(buf, head, xy)\<close> writes the body behind the room for the head, then the
  head in front of it. The result is the new head, or the exception, and the buffer.
\<close>

definition GET_TEMPLATE_BUF ::
  "bool \<Rightarrow> byte list \<Rightarrow> ProtocolHead \<Rightarrow> u16 \<Rightarrow> nat \<Rightarrow> unit bio \<Rightarrow> (bio_exn + ProtocolHead) \<times> byte list"
where
  "GET_TEMPLATE_BUF hb buf head xyid sizeof_xy put_xy =
     (case put_xy (attach (drop HEADLEN buf) (int sizeof_xy) (bostream_new False)) of
        (Inl e, bos) \<Rightarrow> (Inl e, take HEADLEN buf @ region bos)
      | (Inr _, bos) \<Rightarrow>
          let head = head\<lparr>h_xyid := xyid\<rparr>;
              head = head\<lparr>h_len := of_int (bios_length bos) + of_nat HEADLEN\<rparr>
          in (case put_head hb head (attach (take HEADLEN buf @ region bos) (int HEADLEN) bos) of
                (Inl e, bos) \<Rightarrow> (Inl e, region bos)
              | (Inr _, bos) \<Rightarrow> (Inr head, region bos)))"

section \<open>Reading and writing a head\<close>

lemma put_head_all: "put_head hb h = put_all hb [S16 (h_len h), S16 (h_xyid h)]"
  by (simp add: put_head_def del: returnM_apply)

lemma put_heartbeat_all: "put_heartbeat hb m = put_all hb [S32 (timestamp m)]"
  by (simp add: put_heartbeat_def del: returnM_apply)

text \<open>The two fields of a head in the first four bytes of a little-endian stream.\<close>

definition head_of :: "byte list \<Rightarrow> ProtocolHead" where
  "head_of bs = \<lparr>h_len = of_nat (le_nat (take 2 bs)), h_xyid = of_nat (le_nat (take 2 (drop 2 bs)))\<rparr>"

lemma get_ushort_get_scalar:
  "get_ushort hb s = (case get_scalar hb T16 s of (Inl e, s') \<Rightarrow> (Inl e, s')
     | (Inr v, s') \<Rightarrow> (Inr (case v of S16 w \<Rightarrow> w | _ \<Rightarrow> 0), s'))"
  by (simp add: get_scalar.simps bindM_def split: prod.splits sum.splits)

lemma get_head_dec:
  assumes ok: "stream_ok s" and be: "\<not> m_bigendian s"
  shows "get_head hb s =
    (if avail s < int HEADLEN
     then (Inl (biosexception exc_overflow), if avail s < 2 then s else s\<lparr>pcurr := pcurr s + 2\<rparr>)
     else (Inr (head_of (unread s)), s\<lparr>pcurr := pcurr s + int HEADLEN\<rparr>))"
proof -
  let ?s = "s\<lparr>pcurr := pcurr s + 2\<rparr>"
  have len: "int (length (unread s)) = avail s" using ok by (rule length_unread)
  have one: "get_ushort hb t = (if avail t < 2 then (Inl (biosexception exc_overflow), t)
      else (Inr (of_nat (le_nat (take 2 (unread t)))), t\<lparr>pcurr := pcurr t + 2\<rparr>))"
    if "stream_ok t" "\<not> m_bigendian t" for t
    using that length_unread [OF that(1)]
    by (auto simp: get_ushort_get_scalar get_scalar_dec dec_scalar_def scalar_of_def host_value_def
        short_read_def)
  show ?thesis
  proof (cases "avail s < 2")
    case True
    then show ?thesis using one [OF ok be] by (simp add: get_head_def bindM_def)
  next
    case False
    have "int 2 \<le> avail s" using False by simp
    from advance_ok [OF ok this] unread_split(2) [OF ok this]
    have s: "stream_ok ?s" "unread ?s = drop 2 (unread s)" "avail ?s = avail s - 2"
      by (simp_all add: avail_def)
    show ?thesis
      using one [OF ok be] one [OF s(1)] s(2,3) be False
      by (simp add: get_head_def bindM_def head_of_def head_reset_def)
  qed
qed

section \<open>Packets as byte strings\<close>

definition packet_len :: "byte list \<Rightarrow> nat" where
  "packet_len bs = le_nat (take 2 bs)"

definition packet_wf :: "byte list \<Rightarrow> bool" where
  "packet_wf p \<longleftrightarrow> HEADLEN \<le> length p \<and> packet_len p = length p"

definition dec_packet :: "byte list \<Rightarrow> (byte list \<times> byte list) option" where
  "dec_packet bs =
     (if HEADLEN \<le> length bs \<and> HEADLEN \<le> packet_len bs \<and> packet_len bs \<le> length bs
      then Some (take (packet_len bs) bs, drop (packet_len bs) bs) else None)"

lemma packet_len_append [simp]: "2 \<le> length p \<Longrightarrow> packet_len (p @ q) = packet_len p"
  by (simp add: packet_len_def)

interpretation packet: byte_codec "\<lambda>p. p" dec_packet packet_wf
  by unfold_locales (simp add: dec_packet_def packet_wf_def)

lemma packet_len_less: "packet_len bs < 65536"
proof -
  have "le_nat (take 2 bs) < 256 ^ length (take 2 bs)" by (rule le_nat_less)
  also have "\<dots> \<le> 256 ^ 2" by (rule power_increasing) simp_all
  finally show ?thesis by (simp add: packet_len_def)
qed

lemma unat_h_len: "unat (h_len (head_of bs)) = packet_len bs"
  using packet_len_less [of bs] by (simp add: head_of_def packet_len_def unat_of_nat)

lemma heartbeat_packet:
  assumes "8 \<le> length buf" and "length buf < 2 ^ 62"
    and "GET_TEMPLATE_BUF hb1 buf head XYID_HEARTBEAT sizeof_Heartbeat (put_heartbeat hb1 \<lparr>timestamp = ts\<rparr>) = (r, buf')"
  shows "r = Inr \<lparr>h_len = 8, h_xyid = XYID_HEARTBEAT\<rparr>"
    and "take 8 buf' = [8, 0, 1, 0] @ wires False [S32 ts]" and "drop 8 buf' = drop 8 buf"
proof -
  let ?s = "attach (drop 4 buf) 4 (bostream_new False)"
  let ?b = "wires False [S32 ts]"
  let ?s' = "?s\<lparr>region := mem_put 0 ?b (drop 4 buf), pcurr := 4\<rparr>"
  have ok: "stream_ok ?s" using assms by (intro stream_ok_attach) auto
  have "put_heartbeat hb1 \<lparr>timestamp = ts\<rparr> ?s = store ?b ?s"
    unfolding put_heartbeat_all using put_all_wires [OF ok, of "[S32 ts]" hb1] by simp
  also have "\<dots> = (Inr (), ?s')"
    using assms by (subst store_fits) simp_all
  finally have body: "put_heartbeat hb1 \<lparr>timestamp = ts\<rparr> ?s = (Inr (), ?s')" .
  let ?h = "head\<lparr>h_xyid := XYID_HEARTBEAT, h_len := 8\<rparr>"
  let ?w = "wires False [S16 8, S16 1]"
  let ?buf1 = "take 4 buf @ mem_put 0 ?b (drop 4 buf)"
  let ?t = "attach ?buf1 4 ?s'"
  have len1: "length ?buf1 = length buf" using assms by (simp add: mem_simps)
  have ok2: "stream_ok ?t" using assms len1 by (intro stream_ok_attach) auto
  have "put_head hb1 ?h ?t = store ?w ?t"
    unfolding put_head_all using put_all_wires [OF ok2, of "[S16 8, S16 1]" hb1] by simp
  also have "\<dots> = (Inr (), ?t\<lparr>region := mem_put 0 ?w ?buf1, pcurr := 4\<rparr>)"
    using assms len1 by (subst store_fits) simp_all
  finally have eq: "r = Inr ?h" "buf' = mem_put 0 ?w ?buf1"
    using assms(3) body by (simp_all add: GET_TEMPLATE_BUF_def bios_length_def)
  have w: "?w = [8, 0, 1, 0]"
    by (simp add: wire_def host_bytes_def le_bytes_numeral)
  show "take 8 buf' = [8, 0, 1, 0] @ ?b" "drop 8 buf' = drop 8 buf"
    unfolding w [symmetric] using assms(1) by (simp_all add: eq(2) mem_put_def)
  show "r = Inr \<lparr>h_len = 8, h_xyid = XYID_HEARTBEAT\<rparr>" using eq(1) by (cases head) simp
qed

text \<open>
  Building a heartbeat packet and taking it apart. In any buffer of at least eight bytes
  the macro leaves a well-formed packet of length eight whose head the reader decodes to the
  head the macro returned and whose body decodes to the timestamp, on hosts of any byte order.
\<close>

theorem template_buf_roundtrip:
  assumes "8 \<le> length buf" and "length buf < 2 ^ 62"
    and "GET_TEMPLATE_BUF hb1 buf head XYID_HEARTBEAT sizeof_Heartbeat (put_heartbeat hb1 \<lparr>timestamp = ts\<rparr>) = (r, buf')"
  shows "r = Inr \<lparr>h_len = 8, h_xyid = XYID_HEARTBEAT\<rparr>
    \<and> packet_wf (take 8 buf') \<and> drop 8 buf' = drop 8 buf
    \<and> READXY (get_head hb2) (take 8 buf') 8 = Inr \<lparr>h_len = 8, h_xyid = XYID_HEARTBEAT\<rparr>
    \<and> READXY (get_heartbeat hb2) (drop HEADLEN (take 8 buf')) 4 = Inr \<lparr>timestamp = ts\<rparr>"
proof -
  let ?b = "wires False [S32 ts]" and ?w = "[8, 0, 1, 0] :: byte list"
  note p = heartbeat_packet [OF assms]
  have "READXY (get_head hb2) (?w @ ?b) 8 = Inr \<lparr>h_len = 8, h_xyid = 1\<rparr>"
    using get_head_dec [of "attach (?w @ ?b) (int 8) (bistream_new False)" hb2]
    by (simp add: READXY_def stream_ok_def unread_attach [of _ 8, simplified] head_of_def)
  moreover have "READXY (get_heartbeat hb2) ?b 4 = Inr \<lparr>timestamp = ts\<rparr>"
    using get_one_wire(3) [of "attach ?b (int 4) (bistream_new False)" ts "[]" hb2]
    by (simp add: READXY_def get_heartbeat_def bindM_def stream_ok_def heartbeat_reset_def
        unread_attach [of _ 4, simplified])
  moreover have "packet_wf (?w @ ?b)"
    by (simp add: packet_wf_def packet_len_def)
  moreover have "drop 4 (?w @ ?b) = ?b" by simp
  ultimately show ?thesis using p by (simp only: simp_thms)
qed

theorem template_buf_roundtrip_witness:
  "\<exists>r buf'. GET_TEMPLATE_BUF False (replicate 8 0) head_reset XYID_HEARTBEAT sizeof_Heartbeat
        (put_heartbeat False \<lparr>timestamp = 7\<rparr>) = (r, buf')
     \<and> READXY (get_head True) (take 8 buf') 8 = Inr \<lparr>h_len = 8, h_xyid = 1\<rparr>"
proof -
  obtain r buf' where p: "GET_TEMPLATE_BUF False (replicate 8 0) head_reset XYID_HEARTBEAT sizeof_Heartbeat
      (put_heartbeat False \<lparr>timestamp = 7\<rparr>) = (r, buf')"
    by fastforce
  with template_buf_roundtrip [OF _ _ p, of True] show ?thesis by auto
qed

text \<open>
  The macro needs room for the head as well as for the body. Callers allocate
  \<open>sizeof(xy)\<close> bytes for the whole packet; in a buffer of exactly that size the heartbeat's
  body is already written behind its end.
\<close>

theorem template_buf_overflows_body_sized_buffer:
  assumes "length buf = sizeof_Heartbeat"
  shows "fst (GET_TEMPLATE_BUF hb buf head XYID_HEARTBEAT sizeof_Heartbeat (put_heartbeat hb m))
    = Inl (Fault OutOfBounds)"
proof -
  let ?s = "attach (drop 4 buf) 4 (bostream_new False)"
  have "write_care_endian hb (host_bytes hb 4 n) 4 ?s = (Inl (Fault OutOfBounds), ?s)" for n
    using assms
    by (simp add: write_care_endian_def bo_write_order_def bo_write_opposite_def store_def
        write_opposite_loop_fault)
  then show ?thesis
    by (simp add: GET_TEMPLATE_BUF_def put_heartbeat_def put_uint_def)
qed

theorem template_buf_overflows_body_sized_buffer_witness:
  "fst (GET_TEMPLATE_BUF False [0, 0, 0, 0] head_reset XYID_HEARTBEAT sizeof_Heartbeat
     (put_heartbeat False \<lparr>timestamp = 7\<rparr>)) = Inl (Fault OutOfBounds)"
  by (rule template_buf_overflows_body_sized_buffer) simp

end
