(* ===== verification/SocketBase.thy ===== *)
theory SocketBase
  imports Protocol
begin

text \<open>
  What the socket classes share: the constants and enumerations of
  \<^verbatim>\<open>include/socket/SocketBase.h\<close>, the byte queues of a bufferevent, and the interface of a
  decoder that cuts packets off a byte stream.

  A bufferevent is seen through its two evbuffers as byte strings, which is what
  \<open>bufferevent_read\<close> and \<open>bufferevent_write\<close> make of them.
\<close>

section \<open>Constants and enumerations\<close>

abbreviation MAX_BUFFER_SIZE :: u32 where
  "MAX_BUFFER_SIZE \<equiv> 8192"

abbreviation MAX_WS_TMP_BUFFER_SIZE :: u32 where
  "MAX_WS_TMP_BUFFER_SIZE \<equiv> 4096"

abbreviation MAX_SEND_BUF_SIZE :: u32 where
  "MAX_SEND_BUF_SIZE \<equiv> 4096 - 10"

datatype eWebSocketFlag = wf_unknown | notWebSocket | isWebSocket

datatype eIOSocketStatus = unconnected | wait_connect | connected | while_Close | closed

datatype eWebSocketOpCode =
  continueFrame | textFrame | binaryFrame | closeFrame | pingFrame | pongFrame

fun opcode_value :: "eWebSocketOpCode \<Rightarrow> byte" where
  "opcode_value continueFrame = 0x0"
| "opcode_value textFrame = 0x1"
| "opcode_value binaryFrame = 0x2"
| "opcode_value closeFrame = 0x8"
| "opcode_value pingFrame = 0x9"
| "opcode_value pongFrame = 0xA"

section \<open>Bufferevents\<close>

record bufferevent =
  bev_input :: "byte list"
  bev_output :: "byte list"

definition bufferevent_read :: "bufferevent \<Rightarrow> nat \<Rightarrow> byte list \<times> bufferevent" where
  "bufferevent_read bev n = (take n (bev_input bev), bev\<lparr>bev_input := drop n (bev_input bev)\<rparr>)"

definition bufferevent_write :: "bufferevent \<Rightarrow> byte list \<Rightarrow> int \<times> bufferevent" where
  "bufferevent_write bev bs = (0, bev\<lparr>bev_output := bev_output bev @ bs\<rparr>)"

section \<open>Packages between threads\<close>

text \<open>A package's union \<open>name\<close> is its 64 bits, a descriptor or an address.\<close>

datatype cmdtype = cmd_accept | cmd_connect | cmd_connect_end | cmd_send_buf | cmd_recv_buf | cmd_close

fun cmd_value :: "cmdtype \<Rightarrow> u32" where
  "cmd_value cmd_accept = 0"
| "cmd_value cmd_connect = 1"
| "cmd_value cmd_connect_end = 2"
| "cmd_value cmd_send_buf = 3"
| "cmd_value cmd_recv_buf = 4"
| "cmd_value cmd_close = 5"

record threadPackage =
  p_cmd :: u32
  p_name :: u64
  p_len :: u32
  p_buf :: "byte list option"

definition threadPackage_new :: threadPackage where
  "threadPackage_new = \<lparr>p_cmd = 0, p_name = 0, p_len = 0, p_buf = None\<rparr>"

definition pack_bytes :: "threadPackage \<Rightarrow> byte list" where
  "pack_bytes p = (case p_buf p of None \<Rightarrow> [] | Some bs \<Rightarrow> bs)"

abbreviation sizeof_sockaddr :: nat where
  "sizeof_sockaddr \<equiv> 16"

text \<open>What \<open>asynAccept\<close>, \<open>asynRecive\<close> and \<open>asynClose\<close> of either end's logic thread push.\<close>

definition up_accept :: "u64 \<Rightarrow> threadPackage" where
  "up_accept a = threadPackage_new\<lparr>p_cmd := cmd_value cmd_accept, p_name := a\<rparr>"

definition up_recive :: "u64 \<Rightarrow> byte list \<Rightarrow> threadPackage" where
  "up_recive a buf = threadPackage_new\<lparr>p_cmd := cmd_value cmd_recv_buf, p_name := a, p_buf := Some buf,
     p_len := of_nat (length buf)\<rparr>"

definition up_close :: "u64 \<Rightarrow> threadPackage" where
  "up_close a = threadPackage_new\<lparr>p_cmd := cmd_value cmd_close, p_name := a\<rparr>"

section \<open>Cutting packets off a stream\<close>

text \<open>
  The contract of a decoder for self-delimiting packets: it takes a non-empty prefix, and more
  bytes behind do not change what it takes. Cutting a stream is then independent of how the
  stream was cut into reads.
\<close>

locale stream_decoder =
  fixes dec :: "byte list \<Rightarrow> (byte list \<times> byte list) option"
  assumes dec_split: "dec bs = Some (p, r) \<Longrightarrow> bs = p @ r \<and> p \<noteq> []"
    and dec_extend: "dec bs = Some (p, r) \<Longrightarrow> dec (bs @ xs) = Some (p, r @ xs)"
begin

function cut :: "byte list \<Rightarrow> byte list list \<times> byte list" where
  "cut bs =
     (case dec bs of None \<Rightarrow> ([], bs)
      | Some (p, r) \<Rightarrow> (case cut r of (ps, t) \<Rightarrow> (p # ps, t)))"
  by auto

termination
  by (relation "measure length") (auto dest: dec_split)

declare cut.simps [simp del]

lemma cut_None: "dec bs = None \<Longrightarrow> cut bs = ([], bs)"
  by (simp add: cut.simps [of bs])

lemma cut_Some: "dec bs = Some (p, r) \<Longrightarrow> cut bs = (case cut r of (ps, t) \<Rightarrow> (p # ps, t))"
  by (simp add: cut.simps [of bs])

lemma cut_concat: "cut bs = (ps, t) \<Longrightarrow> bs = concat ps @ t \<and> dec t = None \<and> (\<forall>p \<in> set ps. p \<noteq> [])"
proof (induction bs arbitrary: ps t rule: cut.induct)
  case (1 bs)
  show ?case
  proof (cases "dec bs")
    case None
    with 1(2) show ?thesis by (simp add: cut_None)
  next
    case (Some pr)
    obtain p r where pr: "pr = (p, r)" by fastforce
    obtain qs u where rec: "cut r = (qs, u)" by fastforce
    from 1(1) [OF Some pr [symmetric] rec] dec_split [of bs p r] 1(2) Some pr rec show ?thesis
      by (auto simp: cut_Some)
  qed
qed

lemma cut_append:
  "cut (a @ b) = (case cut a of (ps, t) \<Rightarrow> case cut (t @ b) of (qs, u) \<Rightarrow> (ps @ qs, u))"
proof (induction a rule: cut.induct)
  case (1 a)
  show ?case
  proof (cases "dec a")
    case None
    then show ?thesis by (simp add: cut_None split: prod.splits)
  next
    case (Some pr)
    obtain p r where pr: "pr = (p, r)" by fastforce
    from 1 [OF Some pr [symmetric]] dec_extend [of a p r b] Some pr show ?thesis
      by (simp add: cut_Some split: prod.splits)
  qed
qed

text \<open>A reader that keeps the unfinished rest of each chunk for the next one.\<close>

fun cut_chunks :: "byte list list \<Rightarrow> byte list \<Rightarrow> byte list list \<times> byte list" where
  "cut_chunks [] t = ([], t)"
| "cut_chunks (c # cs) t =
     (case cut (t @ c) of (ps, t) \<Rightarrow> case cut_chunks cs t of (qs, t) \<Rightarrow> (ps @ qs, t))"

lemma cut_chunks_cut:
  "dec t = None \<Longrightarrow> cut_chunks cs t = cut (t @ concat cs)"
proof (induction cs arbitrary: t)
  case Nil
  then show ?case by (simp add: cut_None)
next
  case (Cons c cs)
  obtain ps u where c: "cut (t @ c) = (ps, u)" by fastforce
  then have "dec u = None" by (rule cut_concat [THEN conjunct2, THEN conjunct1])
  from Cons.IH [OF this] c cut_append [of "t @ c" "concat cs"] show ?case by simp
qed

end

text \<open>The packets of the protocol, as the receivers of both ends look at them.\<close>

definition frame_dec :: "byte list \<Rightarrow> (byte list \<times> byte list) option" where
  "frame_dec bs =
     (if HEADLEN \<le> length bs \<and> 0 < packet_len bs \<and> packet_len bs \<le> length bs
      then Some (take (packet_len bs) bs, drop (packet_len bs) bs) else None)"

interpretation frames: stream_decoder frame_dec
  by unfold_locales (auto simp: frame_dec_def split: if_splits)

lemma frame_dec_packet: "packet_wf p \<Longrightarrow> frame_dec (p @ r) = Some (p, r)"
  by (auto simp: frame_dec_def packet_wf_def)

lemma cut_packets: "list_all packet_wf ps \<Longrightarrow> frames.cut (concat ps @ t) = (case frames.cut t of (qs, u) \<Rightarrow> (ps @ qs, u))"
  by (induction ps) (auto simp: frames.cut_Some [OF frame_dec_packet] split: prod.splits)

text \<open>A head that claims a length of zero, behind complete packets.\<close>

definition zero_head :: "byte list \<Rightarrow> bool" where
  "zero_head t \<longleftrightarrow> HEADLEN \<le> length t \<and> packet_len t = 0"

section \<open>Heads and lengths in the receive loops\<close>

lemma READXY_head:
  assumes "n \<le> length xs" and "n < 2 ^ 62"
  shows "READXY (get_head hb) xs n =
    (if n < HEADLEN then Inl (biosexception exc_overflow) else Inr (head_of xs))"
proof -
  let ?s = "attach xs (int n) (bistream_new False)"
  have ok: "stream_ok ?s" using assms by (intro stream_ok_attach) auto
  have un: "unread ?s = take n xs" using assms by (simp only: unread_attach)
  have av: "avail ?s = int n" by (simp add: avail_def attach_def)
  have "head_of (take n xs) = head_of xs" if "\<not> n < HEADLEN"
    using that by (simp add: head_of_def take_drop [symmetric] min_def drop_take)
  then show ?thesis
    using get_head_dec [OF ok, of hb] un av by (auto simp: READXY_def bistream_new_def bios_new_def attach_def)
qed


lemma sint_diff:
  fixes n i :: u32
  assumes "unat i \<le> unat n" and "unat n < 2 ^ 31"
  shows "sint (n - i) = int (unat n - unat i)"
proof -
  have u: "unat (n - i) = unat n - unat i"
    using assms(1) by (simp add: unat_sub word_le_nat_alt)
  have "uint (n - i) < 2 ^ 31"
    unfolding uint_nat u using assms(2) by simp
  then have "sint (n - i) = uint (n - i)"
    unfolding sint_uint by (intro signed_take_bit_int_eq_self) (simp_all add: order_trans [of _ 0])
  then show ?thesis using u by (simp add: uint_nat)
qed


lemma of_nat_diff_word: "unat i \<le> unat n \<Longrightarrow> unat (n - i :: u32) = unat n - unat i"
  by (simp add: unat_sub word_le_nat_alt)

lemma unat_add_small:
  fixes i :: u32
  assumes "unat i + unat (h :: u16) \<le> unat n" and "unat (n :: u32) < 2 ^ 31"
  shows "unat (i + ucast h) = unat i + unat h"
proof -
  have h: "unat (ucast h :: u32) = unat h"
    using unat_less_16 [of h] by (simp add: unsigned_ucast_eq take_bit_nat_eq_self)
  have "unat i + unat (ucast h :: u32) < 2 ^ LENGTH(32)" using assms h by simp
  then have "unat (i + ucast h) = unat i + unat (ucast h :: u32)" by (rule unat_add_lem [THEN iffD1])
  then show ?thesis using h by simp
qed

lemma unat_sum_small:
  fixes a :: u32
  assumes "n < 2 ^ 31" and "unat a < 2 ^ 31"
  shows "unat (of_nat n + a) = n + unat a"
proof -
  have n: "unat (of_nat n :: u32) = n" using assms(1) by (simp add: unat_of_nat)
  have "unat (of_nat n :: u32) + unat a < 2 ^ LENGTH(32)" using assms n by simp
  from unat_add_lem [THEN iffD1, OF this] n show ?thesis by simp
qed

text \<open>The bytes a receive loop still has to look at.\<close>

abbreviation rest_at :: "byte list \<Rightarrow> u32 \<Rightarrow> u32 \<Rightarrow> byte list" where
  "rest_at buf n i \<equiv> mem_get (unat i) (unat n - unat i) buf"

lemma rest_head:
  assumes "HEADLEN \<le> length (rest_at buf n i)"
  shows "HEADLEN \<le> length (drop (unat i) buf)" and "packet_len (rest_at buf n i) = packet_len (drop (unat i) buf)"
proof -
  have m: "HEADLEN \<le> unat n - unat i" "HEADLEN \<le> length (drop (unat i) buf)"
    using assms by (simp_all only: length_mem_get min.bounded_iff length_drop)
  then show "HEADLEN \<le> length (drop (unat i) buf)" by simp
  have "take 2 (rest_at buf n i) = take 2 (drop (unat i) buf)"
    using m(1) by (simp add: mem_get_def min_def)
  then show "packet_len (rest_at buf n i) = packet_len (drop (unat i) buf)"
    by (simp only: packet_len_def)
qed

section \<open>Batching sends\<close>

text \<open>
  The contract of a socket's send buffer: \<open>expand\<close> appends a packet if there is room for it,
  \<open>consume\<close> puts what is queued on the wire as one unit (\<open>frame\<close>) and empties the queue. The
  I/O threads of both ends send by it: a packet that does not fit makes room first, and at the
  end of a round whatever is queued is sent.
\<close>

locale send_batching =
  fixes expand :: "byte list \<Rightarrow> 's \<Rightarrow> bool \<times> 's"
    and consume :: "'s \<Rightarrow> 's"
    and queued :: "'s \<Rightarrow> byte list"
    and wire :: "'s \<Rightarrow> byte list"
    and frame :: "byte list \<Rightarrow> byte list"
    and limit :: nat
    and inv :: "'s \<Rightarrow> bool"
  assumes expand_law: "inv s \<Longrightarrow> length p < 2 ^ 31 \<Longrightarrow> expand p s = (b, s') \<Longrightarrow>
      inv s' \<and> wire s' = wire s \<and> (b \<longleftrightarrow> length (queued s) + length p < limit)
        \<and> queued s' = (if b then queued s @ p else queued s)"
    and consume_law: "inv s \<Longrightarrow> inv (consume s) \<and> queued (consume s) = []
        \<and> wire (consume s) = wire s @ (if queued s = [] then [] else frame (queued s))"
    and consume_idle: "inv s \<Longrightarrow> queued s = [] \<Longrightarrow> consume s = s"
begin

definition send_one :: "byte list \<Rightarrow> 's \<Rightarrow> 's" where
  "send_one p s =
     (case expand p s of (True, s') \<Rightarrow> s' | (False, s') \<Rightarrow> snd (expand p (consume s')))"

definition send_round :: "byte list list \<Rightarrow> 's \<Rightarrow> 's" where
  "send_round ps s = consume (fold send_one ps s)"

definition fits :: "byte list \<Rightarrow> bool" where
  "fits p \<longleftrightarrow> length p < limit"

lemma send_one_spec:
  assumes "inv s" and "length p < 2 ^ 31"
  shows "inv (send_one p s) \<and> (\<exists>g. wire (send_one p s) = wire s @ (if g = [] then [] else frame g)
    \<and> g @ queued (send_one p s) = queued s @ (if fits p then p else []))"
proof -
  obtain b s1 where 1: "expand p s = (b, s1)" by fastforce
  note e = expand_law [OF assms 1]
  show ?thesis
  proof (cases b)
    case True
    then have "fits p" using e by (simp add: fits_def)
    with True 1 e show ?thesis by (auto simp: send_one_def intro: exI [of _ "[]"])
  next
    case False
    obtain b2 s2 where 2: "expand p (consume s1) = (b2, s2)" by fastforce
    have i: "inv s1" using e by simp
    note c = consume_law [OF i] and e2 = expand_law [OF consume_law [OF i, THEN conjunct1] assms(2) 2]
    have so: "send_one p s = s2" using False 1 2 by (simp add: send_one_def)
    show ?thesis
      unfolding so using False e e2 c by (intro conjI exI [of _ "queued s"]) (auto simp: fits_def)
  qed
qed

lemma send_many_spec:
  assumes "inv s" and "list_all (\<lambda>p. length p < 2 ^ 31) ps"
  shows "inv (fold send_one ps s) \<and> (\<exists>gs. wire (fold send_one ps s) = wire s @ concat (map frame gs)
    \<and> [] \<notin> set gs \<and> concat gs @ queued (fold send_one ps s) = queued s @ concat (filter fits ps))"
  using assms
proof (induction ps arbitrary: s)
  case Nil
  then show ?case by (auto intro: exI [of _ "[]"])
next
  case (Cons p ps)
  from send_one_spec [of s p] Cons.prems obtain g where one: "inv (send_one p s)"
    "wire (send_one p s) = wire s @ (if g = [] then [] else frame g)"
    "g @ queued (send_one p s) = queued s @ (if fits p then p else [])" by auto
  from Cons.IH [OF one(1)] Cons.prems(2) obtain gs where rest: "inv (fold send_one ps (send_one p s))"
    "wire (fold send_one ps (send_one p s)) = wire (send_one p s) @ concat (map frame gs)" "[] \<notin> set gs"
    "concat gs @ queued (fold send_one ps (send_one p s))
      = queued (send_one p s) @ concat (filter fits ps)" by auto
  let ?gs = "(if g = [] then [] else [g]) @ gs"
  have "concat ?gs @ queued (fold send_one ps (send_one p s)) = g @ queued (send_one p s) @ concat (filter fits ps)"
    using rest(4) by simp
  also have "\<dots> = queued s @ concat (filter fits (p # ps))" using one(3) by simp
  finally show ?case
    using one(1,2) rest(1-3) by (intro conjI exI [of _ ?gs]) auto
qed

lemma send_round_spec:
  assumes "inv s" and "list_all (\<lambda>p. length p < 2 ^ 31) ps"
  shows "inv (send_round ps s) \<and> queued (send_round ps s) = []
    \<and> (\<exists>gs. wire (send_round ps s) = wire s @ concat (map frame gs) \<and> [] \<notin> set gs
        \<and> concat gs = queued s @ concat (filter fits ps))"
proof -
  let ?t = "fold send_one ps s"
  from send_many_spec [OF assms] obtain gs where t: "inv ?t" "wire ?t = wire s @ concat (map frame gs)"
    "[] \<notin> set gs" "concat gs @ queued ?t = queued s @ concat (filter fits ps)" by auto
  note c = consume_law [OF t(1)]
  let ?gs = "gs @ (if queued ?t = [] then [] else [queued ?t])"
  have "wire (send_round ps s) = wire s @ concat (map frame ?gs)" "[] \<notin> set ?gs"
    "concat ?gs = queued s @ concat (filter fits ps)"
    using c t by (auto simp: send_round_def)
  then show ?thesis using c unfolding send_round_def by blast
qed

lemma send_round_plain:
  assumes "inv s" and "list_all (\<lambda>p. length p < 2 ^ 31) ps" and "\<And>bs. frame bs = bs"
  shows "wire (send_round ps s) = wire s @ queued s @ concat (filter fits ps)"
proof -
  have "frame = (\<lambda>bs. bs)" using assms(3) by (simp add: fun_eq_iff)
  then show ?thesis using send_round_spec [OF assms(1,2)] by auto
qed

text \<open>
  A round over many sockets: the packages of a batch name the socket they are for, a socket
  whose packet fitted is noted down, and the round ends by sending what the noted sockets hold.
\<close>

definition batch_one :: "'k \<times> byte list \<Rightarrow> ('k \<rightharpoonup> 's) \<times> 'k list \<Rightarrow> ('k \<rightharpoonup> 's) \<times> 'k list" where
  "batch_one ap st =
     (case ap of (a, p) \<Rightarrow> case st of (m, need) \<Rightarrow>
        (case m a of None \<Rightarrow> (m, need)
         | Some s \<Rightarrow>
             (case expand p s of
                (True, s') \<Rightarrow> (m(a \<mapsto> s'), need @ [a])
              | (False, s') \<Rightarrow> (m(a \<mapsto> snd (expand p (consume s'))), need))))"

definition flush :: "'k list \<Rightarrow> ('k \<rightharpoonup> 's) \<Rightarrow> ('k \<rightharpoonup> 's)" where
  "flush need m = fold (\<lambda>a m. case m a of None \<Rightarrow> m | Some s \<Rightarrow> m(a \<mapsto> consume s)) need m"

abbreviation for_socket :: "'k \<Rightarrow> ('k \<times> byte list) list \<Rightarrow> byte list list" where
  "for_socket a aps \<equiv> map snd (filter (\<lambda>ap. fst ap = a) aps)"

lemma batch_one_other: "b \<noteq> a \<Longrightarrow> fst (batch_one (b, p) (m, need)) a = m a
    \<and> set need \<subseteq> set (snd (batch_one (b, p) (m, need)))"
  by (auto simp: batch_one_def split: option.splits prod.splits bool.splits)

lemma batch_one_same:
  assumes "m a = Some s" and "inv s" and "length p < 2 ^ 31" and "queued s \<noteq> [] \<longrightarrow> a \<in> set need"
  shows "fst (batch_one (a, p) (m, need)) a = Some (send_one p s)
    \<and> (queued (send_one p s) \<noteq> [] \<longrightarrow> a \<in> set (snd (batch_one (a, p) (m, need))))"
proof -
  obtain b s1 where 1: "expand p s = (b, s1)" by fastforce
  note e = expand_law [OF assms(2,3) 1]
  show ?thesis
  proof (cases b)
    case True
    with 1 assms(1) show ?thesis by (simp add: batch_one_def send_one_def)
  next
    case False
    obtain b2 s2 where 2: "expand p (consume s1) = (b2, s2)" by fastforce
    have i: "inv s1" "queued s1 = queued s" using e False by simp_all
    note c = consume_law [OF i(1)] and e2 = expand_law [OF consume_law [OF i(1), THEN conjunct1] assms(3) 2]
    have "queued s2 \<noteq> [] \<Longrightarrow> queued s \<noteq> []"
      using e e2 c i False by (auto split: if_splits)
    with False 1 2 assms(1,4) show ?thesis by (auto simp: batch_one_def send_one_def)
  qed
qed

lemma batch_at:
  assumes "m a = Some s" and "inv s" and "list_all (\<lambda>ap. length (snd ap) < 2 ^ 31) aps"
    and "queued s \<noteq> [] \<longrightarrow> a \<in> set need"
  shows "fst (fold batch_one aps (m, need)) a = Some (fold send_one (for_socket a aps) s)
    \<and> (queued (fold send_one (for_socket a aps) s) \<noteq> [] \<longrightarrow> a \<in> set (snd (fold batch_one aps (m, need))))"
  using assms
proof (induction aps arbitrary: m s need)
  case (Cons bp aps)
  obtain b p where bp: "bp = (b, p)" by fastforce
  obtain m1 need1 where one: "batch_one (b, p) (m, need) = (m1, need1)" by fastforce
  show ?case
  proof (cases "b = a")
    case True
    have p: "length p < 2 ^ 31" using Cons.prems(3) bp by simp
    note o = batch_one_same [of m a s p need, OF Cons.prems(1,2) p Cons.prems(4), folded True, unfolded one]
    have "inv (send_one p s)" using send_one_spec [OF Cons.prems(2) p] by simp
    with Cons.IH [of m1 "send_one p s" need1] o Cons.prems(3) True bp one show ?thesis by simp
  next
    case False
    note o = batch_one_other [OF False, of p m need, unfolded one]
    with Cons.IH [of m1 s need1] Cons.prems False bp one show ?thesis by auto
  qed
qed simp

lemma flush_at:
  assumes "m a = Some s" and "inv s"
  shows "flush need m a = Some (if a \<in> set need then consume s else s)"
  using assms
proof (induction need arbitrary: m s)
  case (Cons b need)
  let ?m = "case m b of None \<Rightarrow> m | Some s \<Rightarrow> m(b \<mapsto> consume s)"
  have f: "flush (b # need) m = flush need ?m" by (simp add: flush_def)
  show ?case
  proof (cases "b = a")
    case True
    note c = consume_law [OF Cons.prems(2)]
    have "?m a = Some (consume s)" using True Cons.prems(1) by simp
    from Cons.IH [of ?m "consume s", OF this] c consume_idle [of "consume s"] f True show ?thesis by simp
  next
    case False
    then have "?m a = Some s" using Cons.prems(1) by (simp split: option.split)
    from Cons.IH [of ?m s, OF this Cons.prems(2)] f False show ?thesis by simp
  qed
qed (simp add: flush_def)

lemma batch_round:
  assumes "m a = Some s" and "inv s" and "list_all (\<lambda>ap. length (snd ap) < 2 ^ 31) aps" and "queued s = []"
    and "fold batch_one aps (m, []) = (m', need)"
  shows "flush need m' a = Some (send_round (for_socket a aps) s)"
proof -
  let ?t = "fold send_one (for_socket a aps) s"
  have b: "m' a = Some ?t" "queued ?t \<noteq> [] \<longrightarrow> a \<in> set need"
    using batch_at [of m a s aps "[]"] assms by simp_all
  have "list_all (\<lambda>p. length p < 2 ^ 31) (for_socket a aps)"
    using assms(3) by (auto simp: list_all_iff)
  then have i: "inv ?t" using send_many_spec [OF assms(2)] by simp
  with flush_at [of m' a ?t need, OF b(1) i] consume_idle [OF i] b(2) show ?thesis
    by (auto simp: send_round_def)
qed

end

end
