(* ===== verification/Base64.thy ===== *)
theory Base64
  imports Prelude "HOL-Library.Signed_Division"
begin

unbundle bit_operations_syntax

text \<open>
  The base64 codec of \<^verbatim>\<open>libbase/base64.cpp\<close>, which the WebSocket handshake uses for its accept
  key. A source pointer is \<open>None\<close> when it is null and else the bytes from it to the end of its array;
  reading on from there is \<open>OutOfBounds\<close>. \<open>nSrcLen\<close> is a C \<open>int\<close>. The result is the returned length, an
  \<open>unsigned int\<close> counter converted to \<open>int\<close>, and the bytes the function stored through \<open>pDst\<close>, in
  order (the encoder's closing NUL included).
\<close>

section \<open>The functions\<close>

definition myBase64Table :: "byte list" where
  "myBase64Table = map of_char ''ABCDEFGHIJKLMNOPQRSTUVWXYZabcdefghijklmnopqrstuvwxyz0123456789+/''"

definition myBase64Map :: "byte list" where
  "myBase64Map =
     replicate 43 255 @ [62, 255, 255, 255, 63,
     52, 53, 54, 55, 56, 57, 58, 59, 60, 61, 255, 255,
     255, 254, 255, 255, 255, 0, 1, 2, 3, 4, 5, 6,
     7, 8, 9, 10, 11, 12, 13, 14, 15, 16, 17, 18,
     19, 20, 21, 22, 23, 24, 25, 255, 255, 255, 255, 255,
     255, 26, 27, 28, 29, 30, 31, 32, 33, 34, 35, 36,
     37, 38, 39, 40, 41, 42, 43, 44, 45, 46, 47, 48,
     49, 50, 51] @ replicate 133 255"

text \<open>The indices are computed on \<open>int\<close>, to which the operands are promoted.\<close>

definition sextet1 :: "byte \<Rightarrow> u32" where
  "sextet1 c1 = drop_bit 2 (ucast c1)"

definition sextet2 :: "byte \<Rightarrow> byte \<Rightarrow> u32" where
  "sextet2 c1 c2 = (push_bit 4 (ucast c1) OR drop_bit 4 (ucast c2)) AND 0x3f"

definition sextet3 :: "byte \<Rightarrow> byte \<Rightarrow> u32" where
  "sextet3 c2 c3 = (push_bit 2 (ucast c2) OR drop_bit 6 (ucast c3)) AND 0x3f"

definition sextet4 :: "byte \<Rightarrow> u32" where
  "sextet4 c3 = ucast c3 AND 0x3f"

abbreviation equals_sign :: byte where
  "equals_sign \<equiv> 61"

definition tbl :: "u32 \<Rightarrow> byte" where
  "tbl i = myBase64Table ! unat i"

text \<open>The loop over whole groups, with the counter \<open>nDstLen\<close>; what is left of the source comes back with the text.\<close>

fun encode_loop :: "nat \<Rightarrow> byte list \<Rightarrow> u32 \<Rightarrow> fault + byte list \<times> u32 \<times> byte list" where
  "encode_loop 0 cs nDstLen = Inr (cs, nDstLen, [])"
| "encode_loop (Suc i) (c1 # c2 # c3 # cs) nDstLen =
     (case encode_loop i cs (nDstLen + 4) of
        Inl f \<Rightarrow> Inl f
      | Inr (cs, n, out) \<Rightarrow>
          Inr (cs, n, [tbl (sextet1 c1), tbl (sextet2 c1 c2), tbl (sextet3 c2 c3), tbl (sextet4 c3)] @ out))"
| "encode_loop (Suc i) _ nDstLen = Inl OutOfBounds"

text \<open>Division and remainder truncate towards zero; the results are converted to \<open>unsigned\<close>.\<close>

definition EncodeBase64 :: "byte list option \<Rightarrow> int \<Rightarrow> fault + int \<times> byte list" where
  "EncodeBase64 pSrc nSrcLen =
     (case pSrc of
        None \<Rightarrow> Inr (- 1, [])
      | Some cs \<Rightarrow>
          if nSrcLen = 0 then Inr (- 1, [])
          else
            let nDiv = of_int (nSrcLen sdiv 3) :: u32;
                nMod = of_int (nSrcLen smod 3) :: u32
            in (case encode_loop (unat nDiv) cs 0 of
                  Inl f \<Rightarrow> Inl f
                | Inr (cs, nDstLen, out) \<Rightarrow>
                    if nMod = 1 then
                      (case cs of
                         c1 # _ \<Rightarrow> Inr (sint (nDstLen + 4),
                           out @ [tbl (sextet1 c1), tbl (sextet2 c1 0), tbl (sextet3 0 0), equals_sign] @ [0])
                       | _ \<Rightarrow> Inl OutOfBounds)
                    else if nMod = 2 then
                      (case cs of
                         c1 # c2 # _ \<Rightarrow> Inr (sint (nDstLen + 4),
                           out @ [tbl (sextet1 c1), tbl (sextet2 c1 c2), tbl (sextet3 c2 0), equals_sign] @ [0])
                       | _ \<Rightarrow> Inl OutOfBounds)
                    else Inr (sint nDstLen, out @ [0])))"

text \<open>
  The decoder's loop over the characters that are left to read, with its counters: \<open>dc\<close> the equals signs so far
  (never reset), \<open>nc\<close> the characters of the current group, \<open>nDstLen\<close> the bytes stored.
\<close>

fun decode_loop :: "nat \<Rightarrow> byte list \<Rightarrow> u64 \<Rightarrow> u32 \<Rightarrow> u32 \<Rightarrow> u32 \<Rightarrow> fault + u32 \<times> byte list" where
  "decode_loop 0 cs ncode dc nc nDstLen = Inr (nDstLen, [])"
| "decode_loop (Suc i) [] ncode dc nc nDstLen = Inl OutOfBounds"
| "decode_loop (Suc i) (c # cs) ncode dc nc nDstLen =
     (let pc = myBase64Map ! unat c
      in if pc = 0xff then decode_loop i cs ncode dc nc nDstLen
         else
           let (pc, dc) = (if pc = 0xfe then (0, dc + 1) else (pc, dc));
               ncode = push_bit 6 ncode OR ucast pc;
               nc = nc + 1
           in if nc = 4 then
                let nDstLen = nDstLen + 1;
                    b1 = [ucast (drop_bit 16 ncode AND 0xff)];
                    (nDstLen, b2) = (if dc < 2 then (nDstLen + 1, [ucast (drop_bit 8 ncode AND 0xff)]) else (nDstLen, []));
                    (nDstLen, b3) = (if dc < 1 then (nDstLen + 1, [ucast (ncode AND 0xff)]) else (nDstLen, []))
                in (case decode_loop i cs 0 dc 0 nDstLen of
                      Inl f \<Rightarrow> Inl f
                    | Inr (n, out) \<Rightarrow> Inr (n, b1 @ b2 @ b3 @ out))
              else decode_loop i cs ncode dc nc nDstLen)"

definition DecodeBase64 :: "byte list option \<Rightarrow> int \<Rightarrow> fault + int \<times> byte list" where
  "DecodeBase64 pSrc nSrcLen =
     (case pSrc of
        None \<Rightarrow> Inr (- 1, [])
      | Some cs \<Rightarrow>
          if nSrcLen = 0 then Inr (- 1, [])
          else (case decode_loop (nat nSrcLen) cs 0 0 0 0 of Inl f \<Rightarrow> Inl f | Inr (n, out) \<Rightarrow> Inr (sint n, out)))"

lemma sint_small: "n < 2 ^ 31 \<Longrightarrow> sint (of_nat n :: u32) = int n"
  by (simp add: signed_of_nat signed_take_bit_int_eq_self)

section \<open>The text and the bytes, without the counters\<close>

fun encoded :: "byte list \<Rightarrow> byte list" where
  "encoded (c1 # c2 # c3 # cs) =
     [tbl (sextet1 c1), tbl (sextet2 c1 c2), tbl (sextet3 c2 c3), tbl (sextet4 c3)] @ encoded cs"
| "encoded [c1] =
     [tbl (sextet1 c1), tbl (sextet2 c1 0), tbl (sextet3 0 0), equals_sign]"
| "encoded [c1, c2] =
     [tbl (sextet1 c1), tbl (sextet2 c1 c2), tbl (sextet3 c2 0), equals_sign]"
| "encoded [] = []"

fun decoded :: "byte list \<Rightarrow> u64 \<Rightarrow> u32 \<Rightarrow> u32 \<Rightarrow> byte list" where
  "decoded [] ncode dc nc = []"
| "decoded (c # cs) ncode dc nc =
     (let pc = myBase64Map ! unat c
      in if pc = 0xff then decoded cs ncode dc nc
         else
           let (pc, dc) = (if pc = 0xfe then (0, dc + 1) else (pc, dc));
               ncode = push_bit 6 ncode OR ucast pc;
               nc = nc + 1
           in if nc = 4 then
                [ucast (drop_bit 16 ncode AND 0xff)]
                @ (if dc < 2 then [ucast (drop_bit 8 ncode AND 0xff)] else [])
                @ (if dc < 1 then [ucast (ncode AND 0xff)] else [])
                @ decoded cs 0 dc 0
              else decoded cs ncode dc nc)"

lemma length_encoded: "length (encoded cs) = 4 * ((length cs + 2) div 3)"
proof (induction cs rule: encoded.induct)
  case (1 c1 c2 c3 cs)
  have "(length cs + 2 + 3) div 3 = (length cs + 2) div 3 + 1" by (rule div_add_self2) simp
  with 1 show ?case by (simp add: ac_simps)
qed simp_all

lemma encode_loop_spec:
  "i = length cs div 3 \<Longrightarrow> \<exists>rest out. encode_loop i cs n = Inr (rest, n + 4 * of_nat i, out) \<and>
     length rest = length cs mod 3 \<and> encoded cs = out @ encoded rest"
proof (induction i cs n rule: encode_loop.induct)
  case (2 i c1 c2 c3 cs n)
  have len: "length (c1 # c2 # c3 # cs) = length cs + 3" by simp
  have i: "i = length cs div 3" "length (c1 # c2 # c3 # cs) mod 3 = length cs mod 3"
    using "2.prems" unfolding len by (simp_all only: div_add_self2 mod_add_self2)
  from "2.IH" [OF i(1)] obtain rest out where r: "encode_loop i cs (n + 4) = Inr (rest, n + 4 + 4 * of_nat i, out)"
    "length rest = length cs mod 3" "encoded cs = out @ encoded rest" by auto
  have "n + 4 + 4 * of_nat i = n + 4 * (of_nat (Suc i) :: u32)" by (simp add: algebra_simps)
  then show ?case
    unfolding i(2) using r
    by (intro exI [of _ rest] exI [of _ "[tbl (sextet1 c1), tbl (sextet2 c1 c2), tbl (sextet3 c2 c3), tbl (sextet4 c3)] @ out"])
      (simp del: of_nat_Suc)
next
  case (1 cs n)
  then have "length cs < 3" by simp
  then show ?case by simp
qed auto

lemma encode_spec:
  assumes "cs \<noteq> []" and "length cs < 2 ^ 31"
  shows "EncodeBase64 (Some cs) (int (length cs)) = Inr (sint (of_nat (length (encoded cs)) :: u32), encoded cs @ [0])"
proof -
  let ?n = "length cs"
  have d: "unat (of_int (int ?n sdiv 3) :: u32) = ?n div 3" "(of_int (int ?n smod 3) :: u32) = of_nat (?n mod 3)"
  proof -
    have "0 < int ?n" using assms(1) by simp
    then have "int ?n sdiv 3 = int (?n div 3)" "int ?n smod 3 = int (?n mod 3)"
      by (simp_all only: signed_divide_int_def signed_modulo_int_def sgn_pos abs_of_pos) (simp_all add: zdiv_int zmod_int)
    moreover have "?n div 3 < 2 ^ 32" using assms(2) by simp
    ultimately show "unat (of_int (int ?n sdiv 3) :: u32) = ?n div 3" "(of_int (int ?n smod 3) :: u32) = of_nat (?n mod 3)"
      by (simp_all add: unat_of_nat)
  qed
  obtain rest out where l: "encode_loop (?n div 3) cs 0 = Inr (rest, 4 * of_nat (?n div 3), out)"
    "length rest = ?n mod 3" "encoded cs = out @ encoded rest"
    using encode_loop_spec [of "?n div 3" cs 0] by auto
  have e: "of_nat (length (encoded cs)) = (4 * of_nat (?n div 3) + (if ?n mod 3 = 0 then 0 else 4) :: u32)"
  proof -
    have "(?n + 2) div 3 = ?n div 3 + (if ?n mod 3 = 0 then 0 else 1)" by presburger
    then show ?thesis by (simp add: length_encoded algebra_simps)
  qed
  consider "?n mod 3 = 0" | "?n mod 3 = 1" | "?n mod 3 = 2" by linarith
  then show ?thesis
  proof cases
    case 1
    then have "rest = []" using l(2) by simp
    then show ?thesis using assms(1) 1 l d e by (simp add: EncodeBase64_def Let_def)
  next
    case 2
    then obtain c1 where c: "rest = [c1]" using l(2) by (auto simp: length_Suc_conv)
    have run: "EncodeBase64 (Some cs) (int ?n) = Inr (sint (4 * of_nat (?n div 3) + 4 :: u32),
        out @ [tbl (sextet1 c1), tbl (sextet2 c1 0), tbl (sextet3 0 0), equals_sign] @ [0])"
      using assms(1) 2 l(1) d c by (simp add: EncodeBase64_def Let_def)
    have e': "4 * of_nat (?n div 3) + 4 = (of_nat (length (encoded cs)) :: u32)" using e 2 by simp
    show ?thesis unfolding run e' using l(3) c by simp
  next
    case 3
    then have "length rest = Suc (Suc 0)" using l(2) by simp
    then obtain c1 c2 where c: "rest = [c1, c2]" by (auto simp: length_Suc_conv)
    have run: "EncodeBase64 (Some cs) (int ?n) = Inr (sint (4 * of_nat (?n div 3) + 4 :: u32),
        out @ [tbl (sextet1 c1), tbl (sextet2 c1 c2), tbl (sextet3 c2 0), equals_sign] @ [0])"
      using assms(1) 3 l(1) d c by (simp add: EncodeBase64_def Let_def)
    have e': "4 * of_nat (?n div 3) + 4 = (of_nat (length (encoded cs)) :: u32)" using e 3 by simp
    show ?thesis unfolding run e' using l(3) c by simp
  qed
qed

lemma decode_loop_spec:
  "decode_loop (length cs) cs ncode dc nc n = Inr (n + of_nat (length (decoded cs ncode dc nc)), decoded cs ncode dc nc)"
  by (induction cs arbitrary: ncode dc nc n) (simp_all add: Let_def)

lemma decode_spec:
  "cs \<noteq> [] \<Longrightarrow> DecodeBase64 (Some cs) (int (length cs)) = Inr (sint (of_nat (length (decoded cs 0 0 0)) :: u32), decoded cs 0 0 0)"
  by (simp add: DecodeBase64_def decode_loop_spec)

section \<open>The alphabet\<close>

lemma length_tables: "length myBase64Table = 64" "length myBase64Map = 256"
  by (simp_all add: myBase64Table_def myBase64Map_def)

lemma map_table: "list_all (\<lambda>i. myBase64Map ! unat (myBase64Table ! i) = of_nat i) [0..<64]"
  by code_simp

lemma map_tbl:
  assumes "unat i < 64"
  shows "myBase64Map ! unat (tbl i) = of_nat (unat i)"
  using map_table assms by (simp add: list_all_iff tbl_def)

lemma map_equals: "myBase64Map ! 61 = 0xfe"
  by code_simp

lemma mask_six: "(0x3f :: 'a::len word) = mask 6"
  by (simp add: mask_eq_exp_minus_1)

lemma mask_eight: "(0xff :: 'a::len word) = mask 8"
  by (simp add: mask_eq_exp_minus_1)

lemmas sextet_defs = sextet1_def sextet2_def sextet3_def sextet4_def

lemma and_six_less: "unat (x AND 0x3f :: u32) < 64"
proof -
  have "unat (x AND 0x3f) = unat x mod 2 ^ 6"
    unfolding mask_six take_bit_eq_mask [symmetric] take_bit_eq_mod [symmetric]
    by (simp add: unsigned_take_bit_eq)
  then show ?thesis by simp
qed

lemma sextet_range:
  "unat (sextet1 a) < 64" "unat (sextet2 a b) < 64" "unat (sextet3 a b) < 64" "unat (sextet4 a) < 64"
proof -
  have "unat (sextet1 a) = unat a div 4"
    using unat_byte_less [of a]
    by (simp add: sextet1_def drop_bit_eq_div unat_div unsigned_ucast_eq take_bit_nat_eq_self)
  then show "unat (sextet1 a) < 64" using unat_byte_less [of a] by simp
qed (simp_all only: sextet_defs and_six_less)

text \<open>Three bytes through four sextets and back.\<close>

definition group :: "byte \<Rightarrow> byte \<Rightarrow> byte \<Rightarrow> byte \<Rightarrow> u64" where
  "group p1 p2 p3 p4 =
     push_bit 6 (push_bit 6 (push_bit 6 (ucast p1) OR ucast p2) OR ucast p3) OR ucast p4"

lemma less_8_cases: "(n :: nat) < 8 \<Longrightarrow> n \<in> {0, 1, 2, 3, 4, 5, 6, 7}"
  by auto

lemma byte_eqI: "(\<And>n. n \<in> {0, 1, 2, 3, 4, 5, 6, 7} \<Longrightarrow> bit x n \<longleftrightarrow> bit y n) \<Longrightarrow> x = (y :: byte)"
  by (rule bit_word_eqI) (use less_8_cases in auto)

lemma byte_bit_high: "8 \<le> n \<Longrightarrow> \<not> bit (b :: byte) n"
  using bit_imp_le_length [of b n] by auto

lemma group_bytes:
  "ucast (drop_bit 16 (group (ucast (sextet1 a)) (ucast (sextet2 a b)) (ucast (sextet3 b c)) (ucast (sextet4 c))) AND 0xff) = a"
  "ucast (drop_bit 8 (group (ucast (sextet1 a)) (ucast (sextet2 a b)) (ucast (sextet3 b c)) (ucast (sextet4 c))) AND 0xff) = b"
  "ucast (group (ucast (sextet1 a)) (ucast (sextet2 a b)) (ucast (sextet3 b c)) (ucast (sextet4 c)) AND 0xff) = c"
  unfolding group_def sextet_defs mask_six mask_eight
  by (rule byte_eqI, elim insertE emptyE; simp add: bit_simps byte_bit_high)+


section \<open>One group through the decoder\<close>

lemma decode_tbl:
  assumes "unat i < 64"
  shows "decoded (tbl i # cs) ncode dc nc =
    (let ncode = push_bit 6 ncode OR ucast (ucast i :: byte)
     in if nc + 1 = 4 then
          [ucast (drop_bit 16 ncode AND 0xff)]
          @ (if dc < 2 then [ucast (drop_bit 8 ncode AND 0xff)] else [])
          @ (if dc < 1 then [ucast (ncode AND 0xff)] else [])
          @ decoded cs 0 dc 0
        else decoded cs ncode dc (nc + 1))"
proof -
  have i: "myBase64Map ! unat (tbl i) = ucast i"
    using map_tbl [OF assms] by (simp only: of_nat_unat)
  have "unat (ucast i :: byte) < 64"
    using assms by (simp add: unsigned_ucast_eq take_bit_nat_eq_self)
  then have "(ucast i :: byte) \<noteq> 0xff" "(ucast i :: byte) \<noteq> 0xfe" by auto
  with i show ?thesis by (simp add: Let_def)
qed

lemma decode_equals:
  "decoded (equals_sign # cs) ncode dc nc =
    (let dc = dc + 1; ncode = push_bit 6 ncode
     in if nc + 1 = 4 then
          [ucast (drop_bit 16 ncode AND 0xff)]
          @ (if dc < 2 then [ucast (drop_bit 8 ncode AND 0xff)] else [])
          @ (if dc < 1 then [ucast (ncode AND 0xff)] else [])
          @ decoded cs 0 dc 0
        else decoded cs ncode dc (nc + 1))"
  using map_equals by (simp add: Let_def)

lemma decode_group:
  "decoded (tbl (sextet1 a) # tbl (sextet2 a b) # tbl (sextet3 b c) # tbl (sextet4 c) # cs) 0 0 0
   = [a, b, c] @ decoded cs 0 0 0"
  using group_bytes [of a b c]
  by (simp only: decode_tbl sextet_range) (simp add: Let_def group_def)

lemma decode_last:
  "decoded [tbl (sextet1 a), tbl (sextet2 a b), tbl (sextet3 b 0), equals_sign] 0 0 0 = [a, b]"
  using group_bytes [of a b 0]
  by (simp only: decode_tbl sextet_range decode_equals) (simp add: Let_def group_def sextet4_def)

lemma decoded_encoded:
  "decoded (encoded cs) 0 0 0 = (if length cs mod 3 = 1 then cs @ [0] else cs)"
proof (induction cs rule: encoded.induct)
  case (1 c1 c2 c3 cs)
  then show ?case by (simp del: decoded.simps add: decode_group)
qed (simp_all del: decoded.simps add: decode_last decoded.simps(1))

lemma tbl_in_table: "unat i < 64 \<Longrightarrow> tbl i \<in> set myBase64Table"
  by (simp add: tbl_def length_tables)

lemma set_encoded: "set (encoded cs) \<subseteq> insert equals_sign (set myBase64Table)"
  by (induction cs rule: encoded.induct) (auto intro: tbl_in_table sextet_range)

lemma decoded_filter:
  "decoded (filter (\<lambda>c. myBase64Map ! unat c \<noteq> 0xff) cs) ncode dc nc = decoded cs ncode dc nc"
  by (induction cs arbitrary: ncode dc nc) (simp_all add: Let_def)

section \<open>Properties\<close>

text \<open>
  C9: Decoding what was encoded gives the source back, whatever characters outside the alphabet
  (line breaks, blanks) were put between the encoded ones, except that a source whose length
  leaves remainder one modulo three comes back with a NUL appended: the encoder closes such a
  source with one equals sign where the standard has two. Both functions return the number of
  characters they stored. This is for lengths that an \<open>int\<close> holds: a source of at most 1610612733
  bytes, whose text is shorter than two gigabytes, and a text to decode of less than that.
\<close>

theorem base64_roundtrip:
  assumes "cs \<noteq> []" and "length cs \<le> 1610612733" and "EncodeBase64 (Some cs) (int (length cs)) = Inr (n, out)"
    and "filter (\<lambda>c. myBase64Map ! unat c \<noteq> 0xff) wire = take (nat n) out" and "length wire < 2 ^ 31"
  shows "n = 4 * ((int (length cs) + 2) div 3) \<and>
    (let res = (if length cs mod 3 = 1 then cs @ [0] else cs)
     in DecodeBase64 (Some wire) (int (length wire)) = Inr (int (length res), res))"
proof -
  have small: "length (encoded cs) < 2 ^ 31" using assms(2) by (simp add: length_encoded)
  have n: "n = int (length (encoded cs))" and out: "out = encoded cs @ [0]"
    using assms(3) encode_spec [OF assms(1)] assms(2) sint_small [OF small] by auto
  have dec: "decoded wire 0 0 0 = decoded (encoded cs) 0 0 0"
    using assms(4) decoded_filter [of wire 0 0 0] by (simp add: n out)
  have "encoded cs \<noteq> []"
    using assms(1) by (cases cs rule: encoded.cases) simp_all
  with assms(4) have wire: "wire \<noteq> []" by (auto simp: n out)
  have short: "length (decoded wire 0 0 0) < 2 ^ 31" using assms(2) dec by (simp add: decoded_encoded)
  have "n = 4 * ((int (length cs) + 2) div 3)" by (simp add: n length_encoded zdiv_int)
  then show ?thesis
    using decode_spec [OF wire] sint_small [OF short] dec by (simp add: decoded_encoded Let_def)
qed

theorem base64_roundtrip_witness:
  "DecodeBase64 (Some ([10] @ encoded [1, 2])) 5 = Inr (2, [1, 2])"
proof -
  have e: "EncodeBase64 (Some [1, 2]) (int (length [1 :: byte, 2])) = Inr (4, encoded [1, 2] @ [0])"
    by (subst encode_spec) simp_all
  have f: "filter (\<lambda>c. myBase64Map ! unat c \<noteq> 0xff) ([10] @ encoded [1, 2]) = take (nat 4) (encoded [1, 2] @ [0])"
    by code_simp
  show ?thesis using base64_roundtrip [OF _ _ e f] by simp
qed

text \<open>
  Beyond that the returned length is wrong: the text of 1610612736 bytes has two gigabytes, and the count
  comes back negative.
\<close>

lemma base64_length_wraps:
  assumes "length cs = 1610612736"
  shows "EncodeBase64 (Some cs) 1610612736 = Inr (- 2147483648, encoded cs @ [0])"
proof -
  have "cs \<noteq> []" using assms by auto
  then show ?thesis using encode_spec [of cs] by (simp add: assms length_encoded)
qed

text \<open>
  The shape of the encoded text: four characters for every three bytes begun, closed by a
  NUL that the returned length does not count, all from the alphabet or equals signs, so an
  array of \<open>4 * ((nSrcLen + 2) / 3) + 1\<close> bytes is enough. A null or empty source is the error
  -1 and stores nothing.
\<close>

theorem base64_encode_shape:
  "EncodeBase64 None n = Inr (- 1, []) \<and> EncodeBase64 (Some cs) 0 = Inr (- 1, [])
   \<and> (cs \<noteq> [] \<longrightarrow> length cs \<le> 1610612733 \<longrightarrow>
        (\<exists>txt. EncodeBase64 (Some cs) (int (length cs)) = Inr (4 * ((int (length cs) + 2) div 3), txt @ [0])
        \<and> length txt = 4 * ((length cs + 2) div 3) \<and> set txt \<subseteq> insert equals_sign (set myBase64Table)
        \<and> 0 \<notin> set txt))"
proof -
  have nz: "0 \<notin> insert equals_sign (set myBase64Table)"
    by (simp add: myBase64Table_def)
  have small: "length (encoded cs) < 2 ^ 31" if "length cs \<le> 1610612733" using that by (simp add: length_encoded)
  have "EncodeBase64 (Some cs) (int (length cs)) = Inr (4 * ((int (length cs) + 2) div 3), encoded cs @ [0])"
    if "cs \<noteq> []" "length cs \<le> 1610612733"
    using encode_spec [OF that(1)] that sint_small [OF small [OF that(2)]] by (simp add: length_encoded zdiv_int)
  then show ?thesis
    using length_encoded [of cs] set_encoded [of cs] nz
    by (auto simp: EncodeBase64_def DecodeBase64_def)
qed

theorem base64_encode_shape_witness:
  "\<exists>txt. EncodeBase64 (Some (replicate 20 7)) 20 = Inr (28, txt @ [0]) \<and> length txt = 28"
  using base64_encode_shape [of 0 "replicate 20 7"] by auto

end
