(* ===== verification/Sha1.thy ===== *)
theory Sha1
  imports Prelude
begin

unbundle bit_operations_syntax

text \<open>
  The class \<open>SHA1\<close> of \<^verbatim>\<open>libbase/sha1.cpp\<close> against the functional definition of the hash in
  FIPS 180: for every way of feeding a message in pieces the class computes the padded
  message's hash, and its block index never leaves the block array.
\<close>

section \<open>The class\<close>

record SHA1 =
  H :: "u32 list"
  Length_Low :: u32
  Length_High :: u32
  Message_Block :: "byte list"
  Message_Block_Index :: nat
  Computed :: bool
  Corrupted :: bool

definition Reset :: "SHA1 \<Rightarrow> SHA1" where
  "Reset s = s\<lparr>Length_Low := 0, Length_High := 0, Message_Block_Index := 0,
     H := [0x67452301, 0xEFCDAB89, 0x98BADCFE, 0x10325476, 0xC3D2E1F0],
     Computed := False, Corrupted := False\<rparr>"

definition CircularShift :: "nat \<Rightarrow> u32 \<Rightarrow> u32" where
  "CircularShift bits w = (push_bit bits w AND 0xFFFFFFFF) OR drop_bit (32 - bits) (w AND 0xFFFFFFFF)"

definition word_at :: "byte list \<Rightarrow> nat \<Rightarrow> u32" where
  "word_at blk t =
     ((push_bit 24 (ucast (blk ! (t * 4))) OR push_bit 16 (ucast (blk ! (t * 4 + 1))))
       OR push_bit 8 (ucast (blk ! (t * 4 + 2)))) OR ucast (blk ! (t * 4 + 3))"

text \<open>The array \<open>W\<close>, filled by the first two loops.\<close>

definition word_sequence :: "byte list \<Rightarrow> u32 list" where
  "word_sequence blk =
     fold (\<lambda>t W. W @ [CircularShift 1 (W ! (t - 3) XOR W ! (t - 8) XOR W ! (t - 14) XOR W ! (t - 16))])
       [16..<80] (map (word_at blk) [0..<16])"

type_synonym buffers = "u32 \<times> u32 \<times> u32 \<times> u32 \<times> u32"

text \<open>One of the four round loops; \<open>f\<close> is the expression on \<open>B\<close>, \<open>C\<close> and \<open>D\<close> in its body.\<close>

definition round_loop ::
  "nat \<Rightarrow> nat \<Rightarrow> (u32 \<Rightarrow> u32 \<Rightarrow> u32 \<Rightarrow> u32) \<Rightarrow> u32 \<Rightarrow> u32 list \<Rightarrow> buffers \<Rightarrow> buffers" where
  "round_loop i j f k W =
     fold (\<lambda>t (A, B, C, D, E).
       let temp = (CircularShift 5 A + f B C D + E + W ! t + k) AND 0xFFFFFFFF
       in (temp, A, CircularShift 30 B, C, D)) [i..<j]"

definition ProcessMessageBlock :: "SHA1 \<Rightarrow> SHA1" where
  "ProcessMessageBlock s =
     (let W = word_sequence (Message_Block s);
          bufs = (H s ! 0, H s ! 1, H s ! 2, H s ! 3, H s ! 4);
          bufs = round_loop 0 20 (\<lambda>B C D. (B AND C) OR (NOT B AND D)) 0x5A827999 W bufs;
          bufs = round_loop 20 40 (\<lambda>B C D. B XOR C XOR D) 0x6ED9EBA1 W bufs;
          bufs = round_loop 40 60 (\<lambda>B C D. (B AND C) OR (B AND D) OR (C AND D)) 0x8F1BBCDC W bufs;
          (A, B, C, D, E) = round_loop 60 80 (\<lambda>B C D. B XOR C XOR D) 0xCA62C1D6 W bufs
      in s\<lparr>H := [(H s ! 0 + A) AND 0xFFFFFFFF, (H s ! 1 + B) AND 0xFFFFFFFF,
                 (H s ! 2 + C) AND 0xFFFFFFFF, (H s ! 3 + D) AND 0xFFFFFFFF,
                 (H s ! 4 + E) AND 0xFFFFFFFF],
           Message_Block_Index := 0\<rparr>)"

text \<open>\<open>Message_Block[Message_Block_Index++] = b\<close>\<close>

definition put_block :: "byte \<Rightarrow> SHA1 \<Rightarrow> SHA1" where
  "put_block b s = s\<lparr>Message_Block := (Message_Block s)[Message_Block_Index s := b],
     Message_Block_Index := Message_Block_Index s + 1\<rparr>"

definition count_octet :: "SHA1 \<Rightarrow> SHA1" where
  "count_octet s =
     (let s = s\<lparr>Length_Low := (Length_Low s + 8) AND 0xFFFFFFFF\<rparr>
      in if Length_Low s = 0 then
           let s = s\<lparr>Length_High := (Length_High s + 1) AND 0xFFFFFFFF\<rparr>
           in if Length_High s = 0 then s\<lparr>Corrupted := True\<rparr> else s
         else s)"

definition input_octet :: "byte \<Rightarrow> SHA1 \<Rightarrow> SHA1" where
  "input_octet b s =
     (let s = count_octet (put_block (b AND 0xFF) s)
      in if Message_Block_Index s = 64 then ProcessMessageBlock s else s)"

fun input_loop :: "byte list \<Rightarrow> SHA1 \<Rightarrow> SHA1" where
  "input_loop [] s = s"
| "input_loop (b # bs) s = (if \<not> Corrupted s then input_loop bs (input_octet b s) else s)"

definition Input :: "byte list \<Rightarrow> SHA1 \<Rightarrow> SHA1" where
  "Input message_array s =
     (if length message_array = 0 then s
      else if Computed s \<or> Corrupted s then s\<lparr>Corrupted := True\<rparr>
      else input_loop message_array s)"

text \<open>\<open>operator<<(const char*)\<close>; \<open>None\<close> when there is no NUL to stop at.\<close>

fun put_string :: "byte list \<Rightarrow> SHA1 \<Rightarrow> SHA1 option" where
  "put_string [] s = None"
| "put_string (c # cs) s = (if c = 0 then Some s else put_string cs (Input [c] s))"

text \<open>\<open>while (Message_Block_Index < n) Message_Block[Message_Block_Index++] = 0;\<close>\<close>

function pad_zeros :: "nat \<Rightarrow> SHA1 \<Rightarrow> SHA1" where
  "pad_zeros n s = (if Message_Block_Index s < n then pad_zeros n (put_block 0 s) else s)"
  by auto

termination
  by (relation "measure (\<lambda>(n, s). n - Message_Block_Index s)") (auto simp: put_block_def)

text \<open>The last statements of \<open>PadMessage\<close>: the length in the last eight octets, and the block.\<close>

definition store_length :: "SHA1 \<Rightarrow> SHA1" where
  "store_length s =
     (let hi = Length_High s; lo = Length_Low s;
          blk = (Message_Block s)
            [56 := ucast (drop_bit 24 hi AND 0xFF), 57 := ucast (drop_bit 16 hi AND 0xFF),
             58 := ucast (drop_bit 8 hi AND 0xFF), 59 := ucast (hi AND 0xFF),
             60 := ucast (drop_bit 24 lo AND 0xFF), 61 := ucast (drop_bit 16 lo AND 0xFF),
             62 := ucast (drop_bit 8 lo AND 0xFF), 63 := ucast (lo AND 0xFF)]
      in ProcessMessageBlock (s\<lparr>Message_Block := blk\<rparr>))"

definition PadMessage :: "SHA1 \<Rightarrow> SHA1" where
  "PadMessage s = store_length
     (if Message_Block_Index s > 55
      then pad_zeros 56 (ProcessMessageBlock (pad_zeros 64 (put_block 0x80 s)))
      else pad_zeros 56 (put_block 0x80 s))"

text \<open>The digest, or \<open>None\<close> for the return value false, which stores nothing.\<close>

definition Result :: "SHA1 \<Rightarrow> u32 list option \<times> SHA1" where
  "Result s =
     (if Corrupted s then (None, s)
      else let s = (if \<not> Computed s then (PadMessage s)\<lparr>Computed := True\<rparr> else s)
           in (Some (map (\<lambda>i. H s ! i) [0..<5]), s))"

section \<open>The hash of the standard\<close>

function schedule :: "byte list \<Rightarrow> nat \<Rightarrow> u32" where
  "schedule blk t =
     (if t < 16
      then of_nat (le_nat [blk ! (4 * t + 3), blk ! (4 * t + 2), blk ! (4 * t + 1), blk ! (4 * t)])
      else word_rotl 1 (schedule blk (t - 3) XOR schedule blk (t - 8)
             XOR schedule blk (t - 14) XOR schedule blk (t - 16)))"
  by auto

termination
  by (relation "measure snd") auto

definition choice :: "nat \<Rightarrow> u32 \<Rightarrow> u32 \<Rightarrow> u32 \<Rightarrow> u32" where
  "choice t b c d =
     (if t < 20 then (b AND c) XOR (NOT b AND d)
      else if t < 40 then b XOR c XOR d
      else if t < 60 then (b AND c) XOR (b AND d) XOR (c AND d)
      else b XOR c XOR d)"

definition round_constant :: "nat \<Rightarrow> u32" where
  "round_constant t =
     (if t < 20 then 0x5A827999 else if t < 40 then 0x6ED9EBA1 else if t < 60 then 0x8F1BBCDC
      else 0xCA62C1D6)"

fun sha_round :: "byte list \<Rightarrow> nat \<Rightarrow> buffers \<Rightarrow> buffers" where
  "sha_round blk t (a, b, c, d, e) =
     (word_rotl 5 a + choice t b c d + e + round_constant t + schedule blk t, a, word_rotl 30 b, c, d)"

definition compress :: "u32 list \<Rightarrow> byte list \<Rightarrow> u32 list" where
  "compress hs blk =
     (case fold (sha_round blk) [0..<80] (hs ! 0, hs ! 1, hs ! 2, hs ! 3, hs ! 4) of
        (a, b, c, d, e) \<Rightarrow> [hs ! 0 + a, hs ! 1 + b, hs ! 2 + c, hs ! 3 + d, hs ! 4 + e])"

function hash_blocks :: "u32 list \<Rightarrow> byte list \<Rightarrow> u32 list" where
  "hash_blocks hs bs =
     (if length bs < 64 then hs else hash_blocks (compress hs (take 64 bs)) (drop 64 bs))"
  by auto

termination
  by (relation "measure (length \<circ> snd)") auto

definition padding :: "nat \<Rightarrow> byte list" where
  "padding n = 0x80 # replicate ((119 - n mod 64) mod 64) 0 @ rev (le_bytes 8 (8 * n))"

definition sha1 :: "byte list \<Rightarrow> u32 list" where
  "sha1 msg = hash_blocks [0x67452301, 0xEFCDAB89, 0x98BADCFE, 0x10325476, 0xC3D2E1F0]
     (msg @ padding (length msg))"

section \<open>The class's block function is the standard's\<close>

declare schedule.simps [simp del] hash_blocks.simps [simp del] pad_zeros.simps [simp del]

lemma mask_32: "(0xFFFFFFFF :: u32) = mask 32"
  by (simp add: mask_eq_exp_minus_1)

lemma and_mask_32: "w AND 0xFFFFFFFF = (w :: u32)"
  by (rule bit_word_eqI) (simp add: mask_32 bit_simps)

lemma CircularShift_rotl:
  assumes "0 < n" "n < 32"
  shows "CircularShift n w = word_rotl n w"
proof (rule bit_word_eqI)
  fix i :: nat assume "i < LENGTH(32)"
  moreover have "bit w (32 + i - n) = bit w (i + 32 - n)" by (simp add: add.commute)
  ultimately show "bit (CircularShift n w) i = bit (word_rotl n w) i"
    using assms bit_imp_le_length [of w]
    by (cases "n \<le> i") (auto simp: CircularShift_def and_mask_32 bit_simps mod_if)
qed

lemma choice_parity: "(b AND c) OR (NOT b AND d) = (b AND c) XOR (NOT b AND (d :: u32))"
  "(b AND c) OR (b AND d) OR (c AND d) = (b AND c) XOR (b AND d) XOR (c AND d)"
  by (rule bit_word_eqI, auto simp: bit_simps)+

lemma or_four_bytes:
  "(push_bit 24 (ucast a) OR push_bit 16 (ucast b)) OR push_bit 8 (ucast c) OR ucast d
   = (of_nat (le_nat [d, c, b, a]) :: u32)" for a b c d :: byte
proof -
  note hi = bit_imp_le_length [of a] bit_imp_le_length [of b] bit_imp_le_length [of c] bit_imp_le_length [of d]
  let ?x = "push_bit 24 (ucast a) :: u32" and ?y = "push_bit 16 (ucast b) :: u32"
    and ?z = "push_bit 8 (ucast c) :: u32" and ?w = "ucast d :: u32"
  have 1: "?z AND ?w = 0"
    by (rule bit_word_eqI) (use hi in \<open>fastforce simp: bit_simps\<close>)
  have 2: "?x AND ?y = 0"
    by (rule bit_word_eqI) (use hi in \<open>fastforce simp: bit_simps\<close>)
  have 3: "(?x OR ?y) AND (?z OR ?w) = 0"
    by (rule bit_word_eqI) (use hi in \<open>fastforce simp: bit_simps\<close>)
  have "(?x OR ?y) OR (?z OR ?w) = (?x + ?y) + (?z + ?w)"
    using 1 2 3 by (simp only: disjunctive_add_eq_or [symmetric])
  also have "\<dots> = of_nat (le_nat [d, c, b, a])"
    by (simp add: push_bit_eq_mult)
  finally show ?thesis by (simp add: or.assoc)
qed

lemma word_at_value:
  "word_at blk t = of_nat (le_nat [blk ! (4 * t + 3), blk ! (4 * t + 2), blk ! (4 * t + 1), blk ! (4 * t)])"
  unfolding word_at_def or.assoc using or_four_bytes
  by (simp add: or.assoc mult.commute)

lemma schedule_16: "t < 16 \<Longrightarrow> schedule blk t = word_at blk t"
  by (simp add: schedule.simps [of blk t] word_at_value)

lemma schedule_rec: "16 \<le> t \<Longrightarrow> schedule blk t = CircularShift 1 (schedule blk (t - 3)
    XOR schedule blk (t - 8) XOR schedule blk (t - 14) XOR schedule blk (t - 16))"
  by (simp add: schedule.simps [of blk t] CircularShift_rotl)

lemma word_sequence_schedule: "word_sequence blk = map (schedule blk) [0..<80]"
proof -
  let ?f = "\<lambda>t W. W @ [CircularShift 1 (W ! (t - 3) XOR W ! (t - 8) XOR W ! (t - 14) XOR W ! (t - 16))]"
  have "fold ?f [16..<16 + n] (map (word_at blk) [0..<16]) = map (schedule blk) [0..<16 + n]" for n
  proof (induction n)
    case 0
    have "map (word_at blk) [0..<16] = map (schedule blk) [0..<16]"
      by (rule map_cong [OF refl]) (simp add: schedule_16)
    then show ?case by simp
  next
    case (Suc n)
    let ?W = "map (schedule blk) [0..<16 + n]"
    have nth: "?W ! (16 + n - k) = schedule blk (16 + n - k)" if "0 < k" "k \<le> 16" for k
      using that by (subst nth_map) simp_all
    have upt: "[16..<16 + Suc n] = [16..<16 + n] @ [16 + n]" "[0..<16 + Suc n] = [0..<16 + n] @ [16 + n]"
      by (simp_all only: add_Suc_right upt_Suc) simp_all
    have at: "?W ! (16 + n - 3) = schedule blk (16 + n - 3)" "?W ! (16 + n - 8) = schedule blk (16 + n - 8)"
      "?W ! (16 + n - 14) = schedule blk (16 + n - 14)" "?W ! (16 + n - 16) = schedule blk (16 + n - 16)"
      by (rule nth; simp)+
    have le: "16 \<le> 16 + n" by simp
    show ?case
      unfolding upt fold_append o_apply Suc map_append list.map fold_simps at
      by (subst schedule_rec [OF le]) (rule refl)
  qed
  note all = this [of 64]
  have "16 + 64 = (80 :: nat)" by simp
  with all show ?thesis unfolding word_sequence_def by (simp only:)
qed

lemma sha_round_loop:
  assumes "\<And>t B C D. i \<le> t \<Longrightarrow> t < j \<Longrightarrow> f B C D = choice t B C D"
    and "\<And>t. i \<le> t \<Longrightarrow> t < j \<Longrightarrow> k = round_constant t" and "j \<le> 80"
  shows "round_loop i j f k (word_sequence blk) = fold (sha_round blk) [i..<j]"
proof -
  have "(case bufs of (A, B, C, D, E) \<Rightarrow>
      let temp = (CircularShift 5 A + f B C D + E + word_sequence blk ! t + k) AND 0xFFFFFFFF
      in (temp, A, CircularShift 30 B, C, D)) = sha_round blk t bufs"
    if "t \<in> set [i..<j]" for t and bufs :: buffers
    using that assms(3)
    by (cases bufs) (simp add: assms(1) assms(2) [of t] and_mask_32 CircularShift_rotl
        word_sequence_schedule ac_simps)
  then show ?thesis
    unfolding round_loop_def by (intro ext List.fold_cong refl) fastforce
qed

lemma ProcessMessageBlock_compress:
  "ProcessMessageBlock s = s\<lparr>H := compress (H s) (Message_Block s), Message_Block_Index := 0\<rparr>"
proof -
  have "[0..<80] = [0..<20] @ [20..<40] @ [40..<60] @ [60..<(80 :: nat)]"
    by (simp add: upt_rec)
  then show ?thesis
    by (simp add: ProcessMessageBlock_def compress_def sha_round_loop choice_def choice_parity
        round_constant_def and_mask_32 split: prod.splits)
qed

section \<open>Absorbing a message\<close>

abbreviation sha_init :: "u32 list" where
  "sha_init \<equiv> [0x67452301, 0xEFCDAB89, 0x98BADCFE, 0x10325476, 0xC3D2E1F0]"

lemma hash_blocks_short: "length b < 64 \<Longrightarrow> hash_blocks hs b = hs"
  by (simp add: hash_blocks.simps [of hs b])

lemma hash_blocks_one: "length b = 64 \<Longrightarrow> hash_blocks hs b = compress hs b"
  by (simp add: hash_blocks.simps [of hs b] hash_blocks_short)

lemma hash_blocks_append:
  "64 dvd length a \<Longrightarrow> hash_blocks hs (a @ b) = hash_blocks (hash_blocks hs a) b"
proof (induction hs a rule: hash_blocks.induct)
  case (1 hs a)
  show ?case
  proof (cases "length a < 64")
    case True
    with 1(2) have "a = []" by (auto dest: dvd_imp_le)
    then show ?thesis by (simp add: hash_blocks_short)
  next
    case False
    then have "64 dvd length (drop 64 a)" using 1(2) by simp
    with 1(1) [OF False] False show ?thesis
      by (simp add: hash_blocks.simps [of hs "a @ b"] hash_blocks.simps [of hs a])
  qed
qed

definition absorbed :: "byte list \<Rightarrow> SHA1 \<Rightarrow> bool" where
  "absorbed m s \<longleftrightarrow>
     (\<exists>a r. m = a @ r \<and> 64 dvd length a \<and> length r < 64 \<and> Message_Block_Index s = length r
        \<and> take (length r) (Message_Block s) = r \<and> H s = hash_blocks sha_init a)
     \<and> length (Message_Block s) = 64 \<and> \<not> Computed s \<and> \<not> Corrupted s
     \<and> Length_Low s = of_nat (8 * length m) \<and> Length_High s = of_nat (8 * length m div 2 ^ 32)"

lemma absorbedI:
  assumes "m = a @ r" "64 dvd length a" "length r < 64" "Message_Block_Index s = length r"
    "take (length r) (Message_Block s) = r" "H s = hash_blocks sha_init a"
    "length (Message_Block s) = 64" "\<not> Computed s" "\<not> Corrupted s"
    "Length_Low s = of_nat (8 * length m)" "Length_High s = of_nat (8 * length m div 2 ^ 32)"
  shows "absorbed m s"
  using assms unfolding absorbed_def by blast

lemma absorbed_Reset: "length (Message_Block s) = 64 \<Longrightarrow> absorbed [] (Reset s)"
  by (simp add: absorbed_def Reset_def hash_blocks_short)

lemma count_octet_spec:
  assumes "Length_Low s = of_nat (8 * n)" "Length_High s = of_nat (8 * n div 2 ^ 32)" "\<not> Corrupted s"
    and "8 * n + 8 < 2 ^ 64"
  shows "count_octet s = s\<lparr>Length_Low := of_nat (8 * n + 8), Length_High := of_nat ((8 * n + 8) div 2 ^ 32)\<rparr>"
proof -
  let ?k = "8 * n + 8"
  have lo: "of_nat (8 * n) + 8 = (of_nat ?k :: u32)" by simp
  have zero: "(of_nat ?k :: u32) = 0 \<longleftrightarrow> 2 ^ 32 dvd ?k"
    unfolding word_of_nat_eq_0_iff by simp
  show ?thesis
  proof (cases "2 ^ 32 dvd ?k")
    case False
    have "?k div 2 ^ 32 = (8 * n) div 2 ^ 32"
    proof -
      have "\<not> 2 ^ 29 dvd Suc n"
      proof
        assume "2 ^ 29 dvd Suc n"
        then obtain k where "Suc n = 2 ^ 29 * k" by (auto simp: dvd_def)
        then have "?k = 2 ^ 32 * k" by simp
        with False show False by simp
      qed
      then have "Suc n div 2 ^ 29 = n div 2 ^ 29" by (simp add: div_Suc dvd_eq_mod_eq_0)
      then have "8 * Suc n div (8 * 2 ^ 29) = 8 * n div (8 * 2 ^ 29)" by simp
      then show ?thesis by simp
    qed
    with False assms lo zero show ?thesis
      by (simp add: count_octet_def Let_def and_mask_32)
  next
    case True
    then obtain q where q: "?k = 2 ^ 32 * q" by (auto simp: dvd_def)
    have "0 < q" using q by (cases q) auto
    then obtain p where p: "q = Suc p" by (cases q) auto
    then have "8 * n = 2 ^ 32 * p + (2 ^ 32 - 8)" using q by simp
    then have div: "8 * n div 2 ^ 32 = p" by (simp add: div_mult_self4)
    have "q < 2 ^ 32" using q assms(4) by simp
    then have "(of_nat q :: u32) \<noteq> 0" using \<open>0 < q\<close> by (auto simp: word_of_nat_eq_0_iff dest: dvd_imp_le)
    moreover have "of_nat p + 1 = (of_nat q :: u32)" using p by simp
    moreover have "?k div 2 ^ 32 = q" using q by simp
    ultimately show ?thesis
      using True assms lo zero div by (simp add: count_octet_def Let_def and_mask_32)
  qed
qed

lemma put_block_take:
  assumes "length (Message_Block s) = 64" "Message_Block_Index s < 64"
  shows "take (Message_Block_Index s + 1) (Message_Block (put_block b s))
      = take (Message_Block_Index s) (Message_Block s) @ [b]"
  using assms by (simp add: put_block_def take_Suc_conv_app_nth)

lemma and_mask_8: "b AND 0xFF = (b :: byte)"
proof -
  have mask: "(0xFF :: byte) = mask 8" by (simp add: mask_eq_exp_minus_1)
  show ?thesis unfolding mask by (rule bit_word_eqI) (simp add: bit_simps)
qed

lemma input_octet_absorbed:
  assumes ab: "absorbed m s" and len: "8 * (length m + 1) < 2 ^ 64"
  shows "absorbed (m @ [b]) (input_octet b s)"
proof -
  from ab obtain a r where ar: "m = a @ r" "64 dvd length a" "length r < 64"
    "Message_Block_Index s = length r" "take (length r) (Message_Block s) = r" "H s = hash_blocks sha_init a"
    and st: "length (Message_Block s) = 64" "\<not> Computed s" "\<not> Corrupted s"
    "Length_Low s = of_nat (8 * length m)" "Length_High s = of_nat (8 * length m div 2 ^ 32)"
    unfolding absorbed_def by blast
  let ?s1 = "put_block b s"
  define k where "k = 8 * length m + 8"
  let ?k = k
  let ?s2 = "?s1\<lparr>Length_Low := of_nat ?k, Length_High := of_nat (?k div 2 ^ 32)\<rparr>"
  have f1: "Length_Low ?s1 = Length_Low s" "Length_High ?s1 = Length_High s" "Corrupted ?s1 = Corrupted s"
    "Computed ?s1 = Computed s" "H ?s1 = H s" "Message_Block_Index ?s1 = length r + 1"
    "length (Message_Block ?s1) = 64"
    using st(1) ar(4) by (simp_all add: put_block_def)
  have "count_octet ?s1 = ?s2"
    unfolding k_def using st len f1(1-3) by (intro count_octet_spec) simp_all
  then have io: "input_octet b s = (if length r + 1 = 64 then ProcessMessageBlock ?s2 else ?s2)"
    using f1(6) by (simp add: input_octet_def Let_def and_mask_8)
  have blk: "take (length r + 1) (Message_Block ?s1) = r @ [b]"
    using put_block_take [OF st(1), of b] ar by simp
  have k: "8 * length (m @ [b]) = k" by (simp add: k_def)
  show ?thesis
  proof (cases "length r + 1 = 64")
    case False
    then show ?thesis
      unfolding io using ar st f1 blk
      by (intro absorbedI [of _ a "r @ [b]"], unfold k) simp_all
  next
    case True
    then have "Message_Block ?s1 = r @ [b]" using blk f1(7) by simp
    moreover have "hash_blocks sha_init (a @ r @ [b]) = compress (hash_blocks sha_init a) (r @ [b])"
      using ar(2) True by (simp add: hash_blocks_append hash_blocks_one)
    ultimately show ?thesis
      unfolding io using True ar st f1
      by (intro absorbedI [of _ "a @ r @ [b]" "[]"], unfold k) (simp_all add: ProcessMessageBlock_compress)
  qed
qed

lemma input_loop_absorbed:
  "absorbed m s \<Longrightarrow> 8 * length (m @ bs) < 2 ^ 64 \<Longrightarrow> absorbed (m @ bs) (input_loop bs s)"
proof (induction bs arbitrary: m s)
  case (Cons b bs)
  from Cons.prems(2) have "8 * (length m + 1) < 2 ^ 64" by simp
  note one = input_octet_absorbed [OF Cons.prems(1) this, of b]
  have "\<not> Corrupted s" using Cons.prems(1) by (simp add: absorbed_def)
  with Cons.IH [OF one] Cons.prems(2) show ?case by simp
qed simp

lemma Input_absorbed:
  "absorbed m s \<Longrightarrow> 8 * length (m @ bs) < 2 ^ 64 \<Longrightarrow> absorbed (m @ bs) (Input bs s)"
  using input_loop_absorbed [of m s bs] by (auto simp: Input_def absorbed_def)

lemma Inputs_absorbed:
  "absorbed m s \<Longrightarrow> 8 * length (m @ concat parts) < 2 ^ 64 \<Longrightarrow>
     absorbed (m @ concat parts) (fold Input parts s)"
proof (induction parts arbitrary: m s)
  case (Cons p parts)
  from Cons.prems(2) have "8 * length (m @ p) < 2 ^ 64" by simp
  from Cons.IH [OF Input_absorbed [OF Cons.prems(1) this]] Cons.prems(2) show ?case by simp
qed simp

section \<open>Padding\<close>

lemma pad_zeros_spec:
  "Message_Block_Index s \<le> n \<Longrightarrow> n \<le> length (Message_Block s) \<Longrightarrow>
   pad_zeros n s = s\<lparr>Message_Block := take (Message_Block_Index s) (Message_Block s)
       @ replicate (n - Message_Block_Index s) 0 @ drop n (Message_Block s), Message_Block_Index := n\<rparr>"
proof (induction n s rule: pad_zeros.induct)
  case (1 n s)
  let ?i = "Message_Block_Index s" and ?B = "Message_Block s"
  show ?case
  proof (cases "?i < n")
    case False
    then show ?thesis using 1(2) by (simp add: pad_zeros.simps [of n s])
  next
    case True
    have "pad_zeros n s = pad_zeros n (put_block 0 s)" using True by (simp add: pad_zeros.simps [of n s])
    also have "\<dots> = (put_block 0 s)\<lparr>Message_Block := take (?i + 1) (?B[?i := 0])
       @ replicate (n - (?i + 1)) 0 @ drop n (?B[?i := 0]), Message_Block_Index := n\<rparr>"
      using 1(1) [OF True] True 1(3) by (simp add: put_block_def)
    also have "take (?i + 1) (?B[?i := 0]) = take ?i ?B @ [0]"
      using True 1(3) by (simp add: take_Suc_conv_app_nth)
    also have "drop n (?B[?i := 0]) = drop n ?B" using True by simp
    also have "(take ?i ?B @ [0]) @ replicate (n - (?i + 1)) 0 @ drop n ?B
        = take ?i ?B @ replicate (n - ?i) 0 @ drop n ?B"
    proof -
      have "n - ?i = Suc (n - (?i + 1))" using True by simp
      then show ?thesis by simp
    qed
    finally show ?thesis by (simp add: put_block_def)
  qed
qed

lemma byte_of_nat: "k + 8 \<le> 32 \<Longrightarrow> ucast (drop_bit k (of_nat n :: u32) AND 0xFF) = (of_nat (n div 2 ^ k) :: byte)"
proof -
  assume k: "k + 8 \<le> 32"
  have mask: "(0xFF :: u32) = mask 8" by (simp add: mask_eq_exp_minus_1)
  have "(of_nat (n div 2 ^ k) :: byte) = of_nat (drop_bit k n)" by (simp add: drop_bit_eq_div)
  then show ?thesis
    unfolding mask using k by (intro bit_word_eqI) (auto simp: bit_simps bit_of_nat_iff_bit)
qed

lemma length_octets:
  assumes "n < 2 ^ 64"
  defines "hi \<equiv> of_nat (n div 2 ^ 32) :: u32" and "lo \<equiv> of_nat n :: u32"
  shows "rev (le_bytes 8 n) =
    [ucast (drop_bit 24 hi AND 0xFF), ucast (drop_bit 16 hi AND 0xFF), ucast (drop_bit 8 hi AND 0xFF),
     ucast (hi AND 0xFF), ucast (drop_bit 24 lo AND 0xFF), ucast (drop_bit 16 lo AND 0xFF),
     ucast (drop_bit 8 lo AND 0xFF), ucast (lo AND 0xFF)]"
  using byte_of_nat [of 0 n] byte_of_nat [of 0 "n div 2 ^ 32"]
  unfolding hi_def lo_def by (simp add: byte_of_nat le_bytes_numeral div_mult2_eq [symmetric])

lemma update_last_octets:
  assumes "length blk = 64"
  shows "blk[56 := a, 57 := b, 58 := c, 59 := d, 60 := e, 61 := f, 62 := g, 63 := h]
    = take 56 blk @ [a, b, c, d, e, f, g, h]"
proof (rule nth_equalityI)
  fix i assume "i < length (blk[56 := a, 57 := b, 58 := c, 59 := d, 60 := e, 61 := f, 62 := g, 63 := h])"
  then have "i < 56 \<or> i = 56 \<or> i = 57 \<or> i = 58 \<or> i = 59 \<or> i = 60 \<or> i = 61 \<or> i = 62 \<or> i = 63"
    using assms by simp linarith
  then show "blk[56 := a, 57 := b, 58 := c, 59 := d, 60 := e, 61 := f, 62 := g, 63 := h] ! i
      = (take 56 blk @ [a, b, c, d, e, f, g, h]) ! i"
    using assms by (elim disjE) (simp_all add: nth_append)
qed (use assms in simp)

lemma store_length_spec:
  assumes "length (Message_Block s) = 64" "n < 2 ^ 64"
    and "Length_Low s = of_nat n" "Length_High s = of_nat (n div 2 ^ 32)"
  defines "blk \<equiv> take 56 (Message_Block s) @ rev (le_bytes 8 n)"
  shows "store_length s = s\<lparr>H := compress (H s) blk, Message_Block := blk, Message_Block_Index := 0\<rparr>"
  unfolding blk_def store_length_def Let_def assms(3,4) update_last_octets [OF assms(1)]
    length_octets [OF assms(2), symmetric]
  by (simp add: ProcessMessageBlock_compress)

lemma PadMessage_absorbed:
  assumes ab: "absorbed m s" and len: "8 * length m < 2 ^ 64"
  shows "H (PadMessage s) = sha1 m" and "length (Message_Block (PadMessage s)) = 64"
    and "Message_Block_Index (PadMessage s) = 0" and "Corrupted (PadMessage s) = False"
proof -
  from ab obtain a r where ar: "m = a @ r" "64 dvd length a" "length r < 64"
    "Message_Block_Index s = length r" "take (length r) (Message_Block s) = r" "H s = hash_blocks sha_init a"
    and st: "length (Message_Block s) = 64" "\<not> Computed s" "\<not> Corrupted s"
    "Length_Low s = of_nat (8 * length m)" "Length_High s = of_nat (8 * length m div 2 ^ 32)"
    unfolding absorbed_def by blast
  let ?L = "rev (le_bytes 8 (8 * length m))"
  have mod: "length m mod 64 = length r" using ar(1-3) by (auto simp: mod_add_eq dvd_def)
  let ?s1 = "put_block 0x80 s"
  have blk1: "take (length r + 1) (Message_Block ?s1) = r @ [0x80]"
    using put_block_take [OF st(1), of "0x80"] ar by simp
  have f1: "Message_Block_Index ?s1 = length r + 1" "length (Message_Block ?s1) = 64"
    using st(1) ar(4) by (simp_all add: put_block_def)
  let ?fin = "\<lambda>hs blk. s\<lparr>H := hs, Message_Block := blk, Message_Block_Index := 0\<rparr>"
  have "\<exists>blk. PadMessage s = ?fin (sha1 m) blk \<and> length blk = 64"
  proof (cases "length r > 55")
    case False
    have pad: "padding (length m) = 0x80 # replicate (55 - length r) 0 @ ?L"
    proof -
      have "(119 - length r) mod 64 = 55 - length r"
        using False by (simp add: mod_if)
      then show ?thesis by (simp add: padding_def mod)
    qed
    let ?B = "(r @ [0x80]) @ replicate (55 - length r) 0 @ drop 56 (Message_Block ?s1)"
    have pz: "pad_zeros 56 ?s1 = ?s1\<lparr>Message_Block := ?B, Message_Block_Index := 56\<rparr>"
      using pad_zeros_spec [of ?s1 56] f1 blk1 False by simp
    have len_B: "length ?B = 64" using False f1(2) by simp
    have "length ((r @ [0x80]) @ replicate (55 - length r) (0 :: byte)) = 56" using False by simp
    then have take_B: "take 56 ?B = (r @ [0x80]) @ replicate (55 - length r) 0"
      by (metis append.assoc append_eq_conv_conj)
    have "PadMessage s = store_length (?s1\<lparr>Message_Block := ?B, Message_Block_Index := 56\<rparr>)"
      using False ar(4) pz by (simp add: PadMessage_def)
    also have "\<dots> = ?fin (compress (H s) (take 56 ?B @ ?L)) (take 56 ?B @ ?L)"
      using len_B len st(4,5) by (subst store_length_spec [of _ "8 * length m"]) (simp_all add: put_block_def)
    also have "compress (H s) (take 56 ?B @ ?L) = sha1 m"
      using ar False unfolding sha1_def pad take_B
      by (simp add: hash_blocks_append hash_blocks_one)
    finally show ?thesis using len_B by auto
  next
    case True
    have pad: "padding (length m) = 0x80 # replicate (63 - length r) 0 @ replicate 56 0 @ ?L"
    proof -
      have "(119 - length r) mod 64 = (63 - length r) + 56"
        using True ar(3) by (simp add: mod_if)
      then show ?thesis by (simp only: padding_def mod replicate_add append_assoc append_Cons)
    qed
    let ?B = "(r @ [0x80]) @ replicate (63 - length r) 0"
    have len_B: "length ?B = 64" using ar(3) by simp
    have pz: "pad_zeros 64 ?s1 = ?s1\<lparr>Message_Block := ?B, Message_Block_Index := 64\<rparr>"
      using pad_zeros_spec [of ?s1 64] f1 blk1 ar(3) by simp
    let ?s2 = "s\<lparr>H := compress (H s) ?B, Message_Block := ?B, Message_Block_Index := 0\<rparr>"
    have s2: "ProcessMessageBlock (pad_zeros 64 ?s1) = ?s2"
      by (simp add: ProcessMessageBlock_compress pz) (simp add: put_block_def)
    let ?C = "replicate 56 0 @ drop 56 ?B"
    have pz2: "pad_zeros 56 ?s2 = ?s2\<lparr>Message_Block := ?C, Message_Block_Index := 56\<rparr>"
      using pad_zeros_spec [of ?s2 56] len_B by simp
    have "PadMessage s = store_length (?s2\<lparr>Message_Block := ?C, Message_Block_Index := 56\<rparr>)"
      using True ar(4) by (simp only: PadMessage_def s2 pz2) simp
    also have "\<dots> = ?fin (compress (compress (H s) ?B) (replicate 56 0 @ ?L)) (replicate 56 0 @ ?L)"
      using len_B len st(4,5) by (subst store_length_spec [of _ "8 * length m"]) simp_all
    also have "compress (compress (H s) ?B) (replicate 56 0 @ ?L) = sha1 m"
    proof -
      have "m @ padding (length m) = a @ ?B @ (replicate 56 0 @ ?L)"
        by (simp only: pad) (simp add: ar(1))
      moreover have "64 dvd length ?B" unfolding len_B by simp
      moreover have "length (replicate 56 0 @ ?L) = 64" by simp
      ultimately show ?thesis
        unfolding sha1_def ar(6)
        by (simp only: hash_blocks_append [OF ar(2)] hash_blocks_append [of ?B] hash_blocks_one len_B)
    qed
    finally show ?thesis by auto
  qed
  then show "H (PadMessage s) = sha1 m" "length (Message_Block (PadMessage s)) = 64"
    "Message_Block_Index (PadMessage s) = 0" "Corrupted (PadMessage s) = False"
    using st by auto
qed

lemma length_compress: "length (compress hs blk) = 5"
  by (simp add: compress_def split: prod.splits)

lemma length_hash_blocks: "length hs = 5 \<Longrightarrow> length (hash_blocks hs b) = 5"
  by (induction hs b rule: hash_blocks.induct) (subst hash_blocks.simps, simp add: length_compress)

lemma length_sha1: "length (sha1 m) = 5"
  by (simp add: sha1_def length_hash_blocks)

lemma five_words: "length xs = 5 \<Longrightarrow> map (\<lambda>i. xs ! i) [0..<5] = xs"
  by (metis map_nth)

lemma Result_absorbed:
  assumes "absorbed m s" and "8 * length m < 2 ^ 64"
  shows "Result s = (Some (sha1 m), (PadMessage s)\<lparr>Computed := True\<rparr>)"
  using PadMessage_absorbed(1) [OF assms] assms(1)
  by (simp add: Result_def absorbed_def Let_def five_words length_sha1)

lemma put_string_inputs:
  "0 \<notin> set cs \<Longrightarrow> put_string (cs @ 0 # rest) s = Some (fold Input (map (\<lambda>c. [c]) cs) s)"
  by (induction cs arbitrary: s) simp_all

section \<open>Properties\<close>

text \<open>
  C8: The digest is the standard's. However a message of less than 2^61 bytes is cut into calls
  of \<open>Input\<close>, empty ones included, \<open>Result\<close> on the object succeeds with the SHA-1 hash of the
  whole message as FIPS 180 defines it, whatever the block array held before; asking again
  gives the same digest, and feeding more bytes after it makes the object refuse.
\<close>

theorem sha1_class_computes_sha1:
  assumes "length (Message_Block s0) = 64" and "8 * length (concat parts) < 2 ^ 64"
    and "fold Input parts (Reset s0) = s" and "Result s = (d, s')"
  shows "d = Some (sha1 (concat parts)) \<and> Result s' = (Some (sha1 (concat parts)), s')
    \<and> (extra \<noteq> [] \<longrightarrow> fst (Result (Input extra s')) = None)"
proof -
  have ab: "absorbed (concat parts) s"
    using Inputs_absorbed [OF absorbed_Reset [OF assms(1)], of parts] assms(2,3) by simp
  note r = Result_absorbed [OF ab assms(2)] and p = PadMessage_absorbed [OF ab assms(2)]
  with assms(4) show ?thesis
    by (auto simp: Result_def [of "PadMessage s\<lparr>Computed := True\<rparr>"] Input_def five_words length_sha1 Result_def)
qed

theorem sha1_class_computes_sha1_witness:
  "fst (Result (fold Input [[97], [], [98, 99]]
      (Reset \<lparr>H = [], Length_Low = 0, Length_High = 0, Message_Block = replicate 64 9,
        Message_Block_Index = 0, Computed = False, Corrupted = False\<rparr>))) = Some (sha1 [97, 98, 99])"
  (is "fst (Result (fold Input ?p (Reset ?s))) = _")
proof -
  obtain d s' where r: "Result (fold Input ?p (Reset ?s)) = (d, s')" by fastforce
  have "length (Message_Block ?s) = 64" "8 * length (concat ?p) < 2 ^ 64" by simp_all
  from sha1_class_computes_sha1 [OF this refl r] r show ?thesis by simp
qed

text \<open>
  \<open>operator<<\<close> on a C string feeds exactly the bytes before the NUL: the digest is that of
  the string, whatever follows in memory.
\<close>

lemma sha1_string:
  assumes "length (Message_Block s0) = 64" and "0 \<notin> set cs" and "8 * length cs < 2 ^ 64"
  shows "\<exists>s. put_string (cs @ 0 # rest) (Reset s0) = Some s \<and> fst (Result s) = Some (sha1 cs)"
proof -
  have "concat (map (\<lambda>c. [c]) cs) = cs" by (induction cs) simp_all
  then have "absorbed cs (fold Input (map (\<lambda>c. [c]) cs) (Reset s0))"
    using Inputs_absorbed [OF absorbed_Reset [OF assms(1)], of "map (\<lambda>c. [c]) cs"] assms(3) by simp
  from Result_absorbed [OF this assms(3)] show ?thesis
    by (simp add: put_string_inputs [OF assms(2)])
qed

end
