(* ===== verification/ServerIO.thy ===== *)
theory ServerIO
  imports SocketBase Base64 Sha1 Malloc
begin

unbundle bit_operations_syntax

text \<open>
  The accepted connection of \<^verbatim>\<open>libsocket/ServerIOSocket.cpp\<close>: WebSocket detection, handshake
  and framing, the receive buffer packets are cut out of, and the send buffer.

  Every method is a state-and-fault computation on the socket's record; the buffers are
  memory regions, and every \<open>memcpy\<close>, \<open>memmove\<close> and indexed store is checked against
  them. Packets passed to the logic thread are part of the result of \<open>recv\<close>.
\<close>

section \<open>The state\<close>

record ServerIOSocket =
  s_status :: eIOSocketStatus
  s_fd :: u64
  s_flag :: eWebSocketFlag
  s_bev :: "bufferevent option"
  s_recvBuf :: "byte list"
  s_recvBufLen :: u32
  s_tmpBuf :: "byte list option"
  s_sendBuf :: "byte list"
  s_sendBufLen :: u32

definition ServerIOSocket_new :: "u64 \<Rightarrow> bufferevent \<Rightarrow> ServerIOSocket" where
  "ServerIOSocket_new fd bev =
     \<lparr>s_status = unconnected, s_fd = fd, s_flag = wf_unknown, s_bev = Some bev,
      s_recvBuf = replicate (unat MAX_BUFFER_SIZE) 0, s_recvBufLen = 0, s_tmpBuf = None,
      s_sendBuf = replicate (unat MAX_BUFFER_SIZE) 0, s_sendBufLen = 0\<rparr>"

type_synonym 'a sock_op = "(ServerIOSocket, fault, 'a) op"

definition s_toClose :: "ServerIOSocket \<Rightarrow> int \<times> ServerIOSocket" where
  "s_toClose s = (0, s\<lparr>s_status := closed, s_bev := None\<rparr>)"

section \<open>Strings in memory\<close>

text \<open>\<open>find_sub\<close> is the offset of the first occurrence of a non-empty string.\<close>

fun find_sub :: "byte list \<Rightarrow> byte list \<Rightarrow> nat option" where
  "find_sub pat [] = None"
| "find_sub pat (c # cs) =
     (if take (length pat) (c # cs) = pat then Some 0 else map_option Suc (find_sub pat cs))"

text \<open>
  \<open>strstr\<close> on a C string in a region: without an occurrence before the NUL, a missing NUL
  makes it read past the region.
\<close>

definition strstr :: "byte list \<Rightarrow> byte list \<Rightarrow> fault + nat option" where
  "strstr buf pat =
     (case find_sub pat (takeWhile (\<lambda>c. c \<noteq> 0) buf) of
        Some i \<Rightarrow> Inr (Some i)
      | None \<Rightarrow> if 0 \<in> set buf then Inr None else Inl OutOfBounds)"

definition ascii :: "string \<Rightarrow> byte list" where
  "ascii cs = map of_char cs"

section \<open>Sending\<close>

text \<open>The network byte order of a scalar, as its bytes in memory.\<close>

definition net_bytes :: "nat \<Rightarrow> nat \<Rightarrow> byte list" where
  "net_bytes k n = rev (le_bytes k n)"

text \<open>
  The eight bytes of \<open>long exlen = htonl((unsigned long)len)\<close>: \<open>htonl\<close> works on 32 bits, so on
  a little-endian host the length fills the first four bytes and the last four are zero; on a
  big-endian host it is the other way round.
\<close>

definition exlen_bytes :: "bool \<Rightarrow> u32 \<Rightarrow> byte list" where
  "exlen_bytes hb n = (if hb then le_bytes 4 0 @ net_bytes 4 (unat n) else net_bytes 4 (unat n) @ le_bytes 4 0)"

definition sendWebSocketBuff :: "bool \<Rightarrow> byte list \<Rightarrow> u32 \<Rightarrow> (bool \<times> u32) sock_op" where
  "sendWebSocketBuff hb buf n s =
     (let nBodyLenByteNum = (if n \<ge> 65536 then 8 else if n \<ge> 126 then 2 else 0 :: int);
          sendbuf = replicate (unat (fixSize (n + 16))) (0 :: byte);
          b0 = 0x80 OR (if s_flag s = isWebSocket then opcode_value binaryFrame else opcode_value textFrame);
          (lenbytes, weblen) =
            (if nBodyLenByteNum = 0 then ([ucast n], 2)
             else if nBodyLenByteNum = 2 then (126 # net_bytes 2 (unat n mod 65536), 4)
             else (127 # exlen_bytes hb n, 10 :: nat));
          sendbuf = mem_put 0 (b0 # lenbytes) sendbuf
      in if length buf < unat n \<or> length sendbuf < weblen + unat n then (Inl OutOfBounds, s)
         else
           let sendbuf = mem_put weblen (take (unat n) buf) sendbuf;
               n = n + of_nat weblen
           in (case s_bev s of
                 None \<Rightarrow> (Inr (False, n), s)
               | Some bev \<Rightarrow>
                   (Inr (True, n), s\<lparr>s_bev := Some (snd (bufferevent_write bev (take (unat n) sendbuf)))\<rparr>)))"

definition s_toSend :: "bool \<Rightarrow> byte list \<Rightarrow> u32 \<Rightarrow> int sock_op" where
  "s_toSend hb buf n s =
     (if s_status s \<noteq> connected then (Inr (- 1), s)
      else if s_flag s = isWebSocket then
        (case sendWebSocketBuff hb buf n s of
           (Inl f, s) \<Rightarrow> (Inl f, s) | (Inr (r, _), s) \<Rightarrow> (Inr (if r then 1 else 0), s))
      else if length buf < unat n then (Inl OutOfBounds, s)
      else (case s_bev s of None \<Rightarrow> (Inl NullDeref, s)
            | Some bev \<Rightarrow> (case bufferevent_write bev (take (unat n) buf) of
                (r, bev) \<Rightarrow> (Inr r, s\<lparr>s_bev := Some bev\<rparr>))))"

definition s_hadSendBufData :: "ServerIOSocket \<Rightarrow> bool" where
  "s_hadSendBufData s = (if s_sendBufLen s > 0 then True else False)"

definition s_expandSendBuf :: "byte list \<Rightarrow> u32 \<Rightarrow> bool sock_op" where
  "s_expandSendBuf buf n s =
     (let wsLenAdd = (if s_flag s = isWebSocket then 10 else 0)
      in if n + s_sendBufLen s + wsLenAdd \<ge> MAX_BUFFER_SIZE then (Inr False, s)
         else if length buf < unat n \<or> length (s_sendBuf s) < unat (s_sendBufLen s) + unat n
         then (Inl OutOfBounds, s)
         else (Inr True, s\<lparr>s_sendBuf := mem_put (unat (s_sendBufLen s)) (take (unat n) buf) (s_sendBuf s),
                           s_sendBufLen := s_sendBufLen s + n\<rparr>))"

definition s_consumeSendBuf :: "bool \<Rightarrow> bool sock_op" where
  "s_consumeSendBuf hb s =
     (if \<not> s_hadSendBufData s then (Inr True, s)
      else case s_toSend hb (s_sendBuf s) (s_sendBufLen s) s of
             (Inl f, s) \<Rightarrow> (Inl f, s)
           | (Inr _, s) \<Rightarrow> (Inr True, s\<lparr>s_sendBufLen := 0\<rparr>))"

section \<open>The handshake\<close>

definition ws_guid :: "byte list" where
  "ws_guid = ascii ''258EAFA5-E914-47DA-95CA-C5AB0DC85B11''"

text \<open>The lines of the answer around the key; a line ends in CR LF.\<close>

definition crlf :: "byte list" where
  "crlf = [13, 10]"

definition switching_protocols :: "byte list \<Rightarrow> byte list" where
  "switching_protocols key =
     ascii ''HTTP/1.1 101 Switching Protocols'' @ crlf @ ascii ''Upgrade: websocket'' @ crlf
     @ ascii ''Connection: Upgrade'' @ crlf @ ascii ''Sec-WebSocket-Accept: '' @ key @ crlf @ crlf"

text \<open>
  The key of the answer: the digest's words in network order, base64. The SHA object's block
  array is uninitialised memory, the argument \<open>blk\<close>.
\<close>

definition accept_key :: "byte list \<Rightarrow> byte list \<Rightarrow> byte list option" where
  "accept_key blk realKey =
     (case put_string (realKey @ [0]) (Reset \<lparr>H = replicate 5 0, Length_Low = 0, Length_High = 0,
          Message_Block = blk, Message_Block_Index = 0, Computed = False, Corrupted = False\<rparr>) of
        None \<Rightarrow> None
      | Some sha \<Rightarrow>
          (case fst (Result sha) of
             None \<Rightarrow> None
           | Some digest \<Rightarrow>
               (case EncodeBase64 (Some (concat (map (\<lambda>w. net_bytes 4 (unat w)) digest))) 20 of
                  Inl f \<Rightarrow> None
                | Inr (n, out) \<Rightarrow> Some (take (nat n) out))))"

definition doWebSocketHandShake :: "bool \<Rightarrow> byte list \<Rightarrow> byte list \<Rightarrow> bool sock_op" where
  "doWebSocketHandShake hb blk buf s =
     (case strstr buf (ascii ''Sec-WebSocket-Key'') of
        Inl f \<Rightarrow> (Inl f, s)
      | Inr None \<Rightarrow> (Inr False, s)
      | Inr (Some pos) \<Rightarrow>
          if length buf < pos + 19 + 24 then (Inl OutOfBounds, s)
          else
            let reqKey = takeWhile (\<lambda>c. c \<noteq> 0) (mem_get (pos + 19) 24 buf);
                realKey = reqKey @ ws_guid
            in (case accept_key blk realKey of
                  None \<Rightarrow> (Inl OutOfBounds, s)
                | Some key \<Rightarrow>
                    let response = switching_protocols key
                    in (case s_toSend hb response (of_nat (length response)) s of
                          (Inl f, s) \<Rightarrow> (Inl f, s)
                        | (Inr r, s) \<Rightarrow> (Inr (if r = 0 then True else False), s))))"

definition doWebSocket :: "bool \<Rightarrow> byte list \<Rightarrow> byte list \<Rightarrow> bool sock_op" where
  "doWebSocket hb blk buf s =
     (if s_flag s = notWebSocket \<or> s_flag s = isWebSocket then (Inr True, s)
      else if s_flag s = wf_unknown then
        (case strstr buf (ascii ''GET'') of
           Inl f \<Rightarrow> (Inl f, s)
         | Inr (Some _) \<Rightarrow>
             (case doWebSocketHandShake hb blk buf s of
                (Inl f, s) \<Rightarrow> (Inl f, s)
              | (Inr True, s) \<Rightarrow>
                  (Inr False, s\<lparr>s_flag := isWebSocket,
                                s_tmpBuf := Some (replicate (unat MAX_WS_TMP_BUFFER_SIZE) 0)\<rparr>)
              | (Inr False, s) \<Rightarrow> (Inr True, s\<lparr>s_flag := notWebSocket\<rparr>))
         | Inr None \<Rightarrow> (Inr True, s\<lparr>s_flag := notWebSocket\<rparr>))
      else (Inr True, s))"

section \<open>Receiving\<close>

text \<open>The unmasking loop.\<close>

fun unmask_loop :: "byte list \<Rightarrow> nat \<Rightarrow> nat \<Rightarrow> byte list \<Rightarrow> byte list" where
  "unmask_loop key i 0 buf = buf"
| "unmask_loop key i (Suc n) buf = unmask_loop key (Suc i) n (buf[i := buf ! i XOR key ! (i mod 4)])"

text \<open>
  \<open>buf\<close> is \<open>_tmpBuf\<close>. The result is the returned boolean and the new value of \<open>len\<close>. The
  branch for 64-bit lengths copies eight bytes into a four-byte variable.
\<close>

definition removeWebSocketHead :: "(bool \<times> u32) sock_op" where
  "removeWebSocketHead s =
     (case s_tmpBuf s of None \<Rightarrow> (Inl NullDeref, s)
      | Some buf \<Rightarrow>
          if length buf < 10 then (Inl OutOfBounds, s)
          else
            let nOpcode = buf ! 0 AND 0x0F;
                n = ucast (buf ! 1 AND 0x7F) :: u32
            in if n = 127 then (Inl OutOfBounds, s)
               else
                 let (playloadByteNum, n) =
                   (if n = 126 then (3, of_nat (le_nat (rev (mem_get 2 2 buf)))) else (1 :: nat, n))
                 in if nOpcode = opcode_value binaryFrame then
                      let maskKey = mem_get (1 + playloadByteNum) 4 buf
                      in if length buf < 1 + playloadByteNum + 4 + unat n \<or> length buf \<le> unat n
                         then (Inl OutOfBounds, s)
                         else
                           let buf = mem_put 0 (mem_get (1 + playloadByteNum + 4) (unat n) buf) buf;
                               buf = unmask_loop maskKey 0 (unat n) buf;
                               buf = buf[unat n := 0]
                           in (Inr (True, n), s\<lparr>s_tmpBuf := Some buf\<rparr>)
                    else if nOpcode = opcode_value closeFrame then
                      (Inr (False, n), s\<lparr>s_status := while_Close\<rparr>)
                    else (Inr (False, n), s))"

text \<open>
  The loop that passes packets up. Unlike the client's it looks for every head at the start of
  the buffer, in as many bytes as the last read brought (\<open>len\<close>).
\<close>

partial_function (option) s_deliver_loop ::
  "bool \<Rightarrow> byte list \<Rightarrow> u32 \<Rightarrow> u32 \<Rightarrow> u32 \<Rightarrow> byte list list \<Rightarrow> (fault + byte list list \<times> u32) option" where
  "s_deliver_loop hb buf len n i acc =
     (if sint (n - i) \<le> 0 then Some (Inr (acc, i))
      else case READXY (get_head hb) buf (unat len) of
             Inl (Fault f) \<Rightarrow> Some (Inl f)
           | Inl e \<Rightarrow> Some (Inr (acc, i))
           | Inr head \<Rightarrow>
               if int (unat (h_len head)) > sint (n - i) then Some (Inr (acc, i))
               else if length buf < unat i + unat (h_len head) then Some (Inl OutOfBounds)
               else s_deliver_loop hb buf len n (i + ucast (h_len head))
                      (acc @ [mem_get (unat i) (unat (h_len head)) buf]))"

type_synonym recv_result = "(fault + int \<times> byte list list) option"

text \<open>From \<open>_nRecvBufLen += len\<close> on.\<close>

definition s_received :: "bool \<Rightarrow> u32 \<Rightarrow> ServerIOSocket \<Rightarrow> recv_result \<times> ServerIOSocket" where
  "s_received hb len s =
     (let n = s_recvBufLen s + len; buf = s_recvBuf s; s = s\<lparr>s_recvBufLen := n\<rparr>
      in (case s_deliver_loop hb buf len n 0 [] of
            None \<Rightarrow> (None, s)
          | Some (Inl f) \<Rightarrow> (Some (Inl f), s)
          | Some (Inr (ps, i)) \<Rightarrow>
              (Some (Inr (0, ps)),
               if i > 0 then
                 s\<lparr>s_recvBuf := mem_put 0 (mem_get (unat i) (unat (n - i)) buf) buf, s_recvBufLen := n - i\<rparr>
               else s)))"

definition s_recv :: "bool \<Rightarrow> byte list \<Rightarrow> ServerIOSocket \<Rightarrow> recv_result \<times> ServerIOSocket" where
  "s_recv hb blk s =
     (if s_status s \<noteq> connected then (Some (Inr (- 1, [])), s)
      else case s_bev s of None \<Rightarrow> (Some (Inl NullDeref), s)
      | Some bev \<Rightarrow>
          if s_flag s = isWebSocket then
            (case s_tmpBuf s of None \<Rightarrow> (Some (Inl NullDeref), s)
             | Some tmp \<Rightarrow>
                 let (bytes, bev) = bufferevent_read bev (unat MAX_WS_TMP_BUFFER_SIZE);
                     s = s\<lparr>s_bev := Some bev, s_tmpBuf := Some (mem_put 0 bytes tmp)\<rparr>
                 in if length tmp < length bytes then (Some (Inl OutOfBounds), s)
                    else (case removeWebSocketHead s of
                      (Inl f, s) \<Rightarrow> (Some (Inl f), s)
                    | (Inr (False, _), s) \<Rightarrow> (Some (Inr (- 2, [])), s)
                    | (Inr (True, len), s) \<Rightarrow>
                        let tmp = the (s_tmpBuf s)
                        in if length (s_recvBuf s) < unat (s_recvBufLen s) + unat len \<or> length tmp < unat len
                           then (Some (Inl OutOfBounds), s)
                           else s_received hb len
                             (s\<lparr>s_recvBuf := mem_put (unat (s_recvBufLen s)) (take (unat len) tmp) (s_recvBuf s)\<rparr>)))
          else
            let (bytes, bev) = bufferevent_read bev (unat (MAX_BUFFER_SIZE - s_recvBufLen s));
                s = s\<lparr>s_bev := Some bev\<rparr>
            in if length (s_recvBuf s) < unat (s_recvBufLen s) + length bytes then (Some (Inl OutOfBounds), s)
               else
                 let buf = mem_put (unat (s_recvBufLen s)) bytes (s_recvBuf s);
                     s = s\<lparr>s_recvBuf := buf\<rparr>
                 in (case doWebSocket hb blk buf s of
                       (Inl f, s) \<Rightarrow> (Some (Inl f), s)
                     | (Inr False, s) \<Rightarrow> (Some (Inr (- 3, [])), s)
                     | (Inr True, s) \<Rightarrow> s_received hb (of_nat (length bytes)) s))"

section \<open>The receive loop\<close>

text \<open>Equal pieces off the front, and what is left.\<close>

function chop :: "nat \<Rightarrow> byte list \<Rightarrow> byte list list \<times> byte list" where
  "chop h bs =
     (if h = 0 \<or> length bs < h then ([], bs)
      else case chop h (drop h bs) of (ps, t) \<Rightarrow> (take h bs # ps, t))"
  by auto

termination
  by (relation "measure (length \<circ> snd)") auto

declare chop.simps [simp del]

lemma chop_short: "length bs < h \<Longrightarrow> chop h bs = ([], bs)"
  by (simp add: chop.simps [of h bs])

lemma chop_long: "0 < h \<Longrightarrow> h \<le> length bs \<Longrightarrow> chop h bs = (case chop h (drop h bs) of (ps, t) \<Rightarrow> (take h bs # ps, t))"
  by (simp add: chop.simps [of h bs])

lemma chop_lengths: "chop h bs = (ps, t) \<Longrightarrow> list_all (\<lambda>p. length p = h) ps \<and> bs = concat ps @ t \<and> (0 < h \<longrightarrow> length t < h)"
proof (induction h bs arbitrary: ps t rule: chop.induct)
  case (1 h bs)
  show ?case
  proof (cases "h = 0 \<or> length bs < h")
    case True
    with 1(2) show ?thesis by (auto simp: chop.simps [of h bs])
  next
    case False
    obtain qs u where rec: "chop h (drop h bs) = (qs, u)" by fastforce
    have "bs = take h bs @ drop h bs" by simp
    with 1(1) [OF False rec] False 1(2) rec show ?thesis
      by (auto simp: chop.simps [of h bs])
  qed
qed

lemma chop_uniform:
  "list_all (\<lambda>p. length p = h) ps \<Longrightarrow> 0 < h \<Longrightarrow> length t < h \<Longrightarrow> chop h (concat ps @ t) = (ps, t)"
  by (induction ps) (simp_all add: chop_short chop_long)

lemma s_deliver_loop_step:
  assumes "unat i \<le> unat n" and "unat n \<le> length buf" and "unat n < 2 ^ 31"
    and len: "unat len \<le> length buf" "HEADLEN \<le> unat len"
  shows "s_deliver_loop hb buf len n i acc =
    (let t = rest_at buf n i; h = packet_len buf in
     if t = [] \<or> length t < h then Some (Inr (acc, i))
     else s_deliver_loop hb buf len n (i + of_nat h) (acc @ [take h t]))"
proof -
  let ?t = "rest_at buf n i" and ?h = "packet_len buf"
  have lt: "length ?t = unat n - unat i" using assms by (simp add: mem_get_def)
  have "unat len < 2 ^ 62" using unat_less_32 [of len] by simp
  from READXY_head [OF len(1) this, of hb] len(2)
  have hd: "READXY (get_head hb) buf (unat len) = Inr (head_of buf)" by simp
  have "ucast (h_len (head_of buf)) = (of_nat ?h :: u32)"
    using unat_h_len [of buf] by (metis of_nat_unat)
  moreover have "mem_get (unat i) ?h buf = take ?h ?t" if "?h \<le> length ?t"
    using that lt by (simp add: mem_get_def min_def)
  moreover have sd: "sint (n - i) = int (length ?t)"
    by (simp only: sint_diff [OF assms(1,3)] lt)
  moreover have cmp: "sint (n - i) \<le> 0 \<longleftrightarrow> ?t = []"
    "int ?h > sint (n - i) \<longleftrightarrow> length ?t < ?h"
    unfolding sd by simp_all
  moreover have "length buf < unat i + ?h \<longleftrightarrow> False" if "?h \<le> length ?t"
    using that lt assms by simp
  ultimately show ?thesis
    using hd by (subst s_deliver_loop.simps) (auto simp add: Let_def unat_h_len not_less simp del: of_nat_unat)
qed

lemma s_deliver_loop_chop:
  assumes "unat i \<le> unat n" and "unat n \<le> length buf" and "unat n < 2 ^ 31"
    and len: "unat len \<le> length buf" "HEADLEN \<le> unat len" and pos: "0 < packet_len buf"
    and "chop (packet_len buf) (rest_at buf n i) = (ps, t)"
  shows "\<exists>j. s_deliver_loop hb buf len n i acc = Some (Inr (acc @ ps, j))
    \<and> unat i \<le> unat j \<and> unat j \<le> unat n \<and> rest_at buf n j = t"
  using assms(1-3,7)
proof (induction "length (rest_at buf n i)" arbitrary: i acc ps rule: less_induct)
  case less
  let ?t = "rest_at buf n i" and ?k = "packet_len buf"
  note step = s_deliver_loop_step [OF less.prems(1-3) len, of hb acc, unfolded Let_def]
  have lt: "length ?t = unat n - unat i" using less.prems(2) by (simp add: mem_get_def)
  show ?case
  proof (cases "length ?t < ?k")
    case True
    with less.prems(4) have "ps = []" "t = ?t" by (simp_all add: chop_short)
    then show ?thesis using step True less.prems(1) by auto
  next
    case False
    let ?j = "i + of_nat ?k"
    have "?k < 65536" by (rule packet_len_less)
    then have u: "unat (of_nat ?k :: u16) = ?k" by (simp add: unat_of_nat)
    then have "(ucast (of_nat ?k :: u16) :: u32) = of_nat ?k" by (metis of_nat_unat)
    with u have j: "unat ?j = unat i + ?k"
      using unat_add_small [of i "of_nat ?k :: u16" n] False lt less.prems(1,3) by simp
    have rest: "rest_at buf n ?j = drop ?k ?t"
      unfolding j by (simp add: mem_get_def drop_take ac_simps)
    obtain qs where qs: "chop ?k (drop ?k ?t) = (qs, t)" "ps = take ?k ?t # qs"
      using less.prems(4) chop_long [OF pos, of ?t] False by (auto split: prod.splits)
    have ih: "\<exists>j'. s_deliver_loop hb buf len n ?j (acc @ [take ?k ?t]) = Some (Inr ((acc @ [take ?k ?t]) @ qs, j'))
        \<and> unat ?j \<le> unat j' \<and> unat j' \<le> unat n \<and> rest_at buf n j' = t"
    proof (rule less.hyps)
      show "length (rest_at buf n ?j) < length ?t" unfolding rest using pos False by simp
      show "unat ?j \<le> unat n" using j False lt less.prems(1) by simp
      show "chop ?k (rest_at buf n ?j) = (qs, t)" unfolding rest by (rule qs(1))
    qed (fact less.prems)+
    have "?t \<noteq> []" using False pos by auto
    with step False have "s_deliver_loop hb buf len n i acc = s_deliver_loop hb buf len n ?j (acc @ [take ?k ?t])"
      by simp
    with ih qs(2) j show ?thesis by auto
  qed
qed

lemma s_deliver_loop_stuck:
  assumes "unat i < unat n" and "unat n \<le> length buf" and "unat n < 2 ^ 31"
    and len: "unat len \<le> length buf" "HEADLEN \<le> unat len" and zero: "packet_len buf = 0"
  shows "s_deliver_loop hb buf len n i acc = None"
proof (rule ccontr)
  assume "s_deliver_loop hb buf len n i acc \<noteq> None"
  then obtain y where "s_deliver_loop hb buf len n i acc = Some y" by auto
  then have "\<not> (unat i < unat n \<and> unat n \<le> length buf \<and> unat n < 2 ^ 31 \<and> unat len \<le> length buf
      \<and> HEADLEN \<le> unat len \<and> packet_len buf = 0)"
  proof (induction hb buf len n i acc y rule: s_deliver_loop.raw_induct [rotated, consumes 1])
    case (1 loop hb buf len n i acc y)
    show ?case
    proof
      assume a: "unat i < unat n \<and> unat n \<le> length buf \<and> unat n < 2 ^ 31 \<and> unat len \<le> length buf
        \<and> HEADLEN \<le> unat len \<and> packet_len buf = 0"
      have "unat len < 2 ^ 62" using unat_less_32 [of len] by simp
      then have hd: "READXY (get_head hb) buf (unat len) = Inr (head_of buf)"
        using READXY_head [of "unat len" buf hb] a by simp
      have h: "h_len (head_of buf) = 0"
        using a unat_h_len [of buf] by (simp add: unat_eq_zero)
      have sd: "sint (n - i) = int (unat n - unat i)" using a by (intro sint_diff) simp_all
      have "0 < unat n - unat i" using a by simp
      then have "\<not> sint (n - i) \<le> 0" unfolding sd by linarith
      with 1(2) hd h a have "loop hb buf len n i (acc @ [[]]) = Some y"
        by (simp add: mem_get_def split: if_splits)
      from 1(1) [OF this] a show False by blast
    qed
  qed
  with assms show False by blast
qed

section \<open>Plain TCP connections\<close>

definition s_pending :: "ServerIOSocket \<Rightarrow> byte list" where
  "s_pending s = take (unat (s_recvBufLen s)) (s_recvBuf s)"

definition s_recv_ok :: "ServerIOSocket \<Rightarrow> bool" where
  "s_recv_ok s \<longleftrightarrow> length (s_recvBuf s) = 8192 \<and> unat (s_recvBufLen s) \<le> 8192"

lemma length_s_pending: "s_recv_ok s \<Longrightarrow> length (s_pending s) = unat (s_recvBufLen s)"
  by (simp add: s_recv_ok_def s_pending_def)

lemma s_received_chop:
  assumes ok: "length (s_recvBuf s) = 8192" and sum: "unat (s_recvBufLen s) + unat len \<le> 8192"
    and len: "HEADLEN \<le> unat len" and X: "X = take (unat (s_recvBufLen s) + unat len) (s_recvBuf s)"
    and pos: "0 < packet_len X" and ch: "chop (packet_len X) X = (ps, t)"
  obtains s' where "s_received hb len s = (Some (Inr (0, ps)), s')" and "s_recv_ok s'" and "s_pending s' = t"
    and "s_status s' = s_status s" "s_flag s' = s_flag s" "s_bev s' = s_bev s"
proof -
  let ?buf = "s_recvBuf s" and ?n = "s_recvBufLen s + len"
  have "unat (s_recvBufLen s) + unat len < 2 ^ LENGTH(32)" using sum by simp
  from unat_add_lem [THEN iffD1, OF this]
  have n: "unat ?n = unat (s_recvBufLen s) + unat len" .
  have lX: "length X = unat ?n" using X n ok sum by simp
  have rest0: "rest_at ?buf ?n 0 = X" using X n by (simp add: mem_get_zero)
  have pl: "packet_len ?buf = packet_len X"
    using X len by (simp add: packet_len_def min_def)
  have "\<exists>j. s_deliver_loop hb ?buf len ?n 0 [] = Some (Inr ([] @ ps, j))
      \<and> unat (0 :: u32) \<le> unat j \<and> unat j \<le> unat ?n \<and> rest_at ?buf ?n j = t"
    using n ok sum len pos ch rest0 pl by (intro s_deliver_loop_chop) simp_all
  then obtain j where j: "s_deliver_loop hb ?buf len ?n 0 [] = Some (Inr (ps, j))" "unat j \<le> unat ?n"
    "rest_at ?buf ?n j = t" by auto
  have d: "unat (?n - j) = unat ?n - unat j" using j(2) by (rule of_nat_diff_word)
  have "unat ?n \<le> length ?buf" using n ok sum by simp
  then have lt: "length t = unat (?n - j)" using d arg_cong [OF j(3), of length] by (simp add: mem_get_def)
  have le: "length t \<le> 8192" using lt d n sum by simp
  let ?s1 = "s\<lparr>s_recvBufLen := ?n\<rparr>"
  let ?s2 = "if j > 0 then ?s1\<lparr>s_recvBuf := mem_put 0 (mem_get (unat j) (unat (?n - j)) ?buf) ?buf,
    s_recvBufLen := ?n - j\<rparr> else ?s1"
  have run: "s_received hb len s = (Some (Inr (0, ps)), ?s2)"
    using j(1) by (simp add: s_received_def Let_def)
  have t: "mem_get (unat j) (unat (?n - j)) ?buf = t" using j(3) d by simp
  have put: "length (mem_put 0 t ?buf) = 8192" "take (length t) (mem_put 0 t ?buf) = t"
    using ok le by (simp_all add: mem_put_zero)
  have res: "s_recv_ok ?s2 \<and> s_pending ?s2 = t"
  proof (cases "j > 0")
    case True
    with put lt le t show ?thesis by (simp add: s_recv_ok_def s_pending_def)
  next
    case False
    then have "j = 0" by (simp add: word_gt_0)
    then have "t = take (unat ?n) ?buf" using j(3) by (simp add: mem_get_zero)
    with False ok n sum show ?thesis by (simp add: s_recv_ok_def s_pending_def)
  qed
  show ?thesis
    by (rule that [OF run]) (use res in simp_all)
qed

definition plain :: "ServerIOSocket \<Rightarrow> bool" where
  "plain s \<longleftrightarrow> s_status s = connected \<and> s_flag s = notWebSocket \<and> s_bev s \<noteq> None \<and> s_recv_ok s"

definition s_input :: "ServerIOSocket \<Rightarrow> byte list" where
  "s_input s = (case s_bev s of None \<Rightarrow> [] | Some b \<Rightarrow> bev_input b)"

definition s_arrive :: "byte list \<Rightarrow> ServerIOSocket \<Rightarrow> ServerIOSocket" where
  "s_arrive bs s = s\<lparr>s_bev := map_option (\<lambda>b. b\<lparr>bev_input := bev_input b @ bs\<rparr>) (s_bev s)\<rparr>"

text \<open>A read that takes the whole input: what is left to do is \<open>s_received\<close>.\<close>

lemma s_recv_plain:
  assumes pl: "plain s" and fits: "length (s_pending s) + length (s_input s) \<le> 8192"
  obtains s1 where "s_recv hb blk s = s_received hb (of_nat (length (s_input s))) s1"
    and "length (s_recvBuf s1) = 8192" "s_recvBufLen s1 = s_recvBufLen s"
    and "take (unat (s_recvBufLen s) + length (s_input s)) (s_recvBuf s1) = s_pending s @ s_input s"
    and "s_status s1 = connected" "s_flag s1 = notWebSocket" "s_bev s1 \<noteq> None" "s_input s1 = []"
proof -
  from pl obtain b where s: "s_status s = connected" "s_flag s = notWebSocket" "s_bev s = Some b"
    "s_recv_ok s" by (auto simp: plain_def)
  have in': "bev_input b = s_input s" using s(3) by (simp add: s_input_def)
  note lp = length_s_pending [OF s(4)]
  have l: "length (s_recvBuf s) = 8192" "unat (s_recvBufLen s) \<le> 8192" using s(4) by (simp_all add: s_recv_ok_def)
  have sp: "unat (MAX_BUFFER_SIZE - s_recvBufLen s) = 8192 - unat (s_recvBufLen s)"
    using l by (simp add: of_nat_diff_word)
  let ?buf = "mem_put (unat (s_recvBufLen s)) (s_input s) (s_recvBuf s)"
  let ?s1 = "s\<lparr>s_bev := Some (b\<lparr>bev_input := []\<rparr>), s_recvBuf := ?buf\<rparr>"
  have "s_recv hb blk s = s_received hb (of_nat (length (s_input s))) ?s1"
    using s sp fits lp l in' by (simp add: s_recv_def bufferevent_read_def doWebSocket_def Let_def)
  moreover have "length ?buf = 8192"
    "take (unat (s_recvBufLen s) + length (s_input s)) ?buf = s_pending s @ s_input s"
    using fits lp l by (simp_all add: mem_simps s_pending_def)
  ultimately show ?thesis
    using s by (intro that [of ?s1]) (simp_all add: s_input_def)
qed

lemma s_recv_plain_chop:
  assumes pl: "plain s" and fits: "length (s_pending s) + length (s_input s) \<le> 8192"
    and len: "HEADLEN \<le> length (s_input s)" and pos: "0 < packet_len (s_pending s @ s_input s)"
    and ch: "chop (packet_len (s_pending s @ s_input s)) (s_pending s @ s_input s) = (ps, t)"
  obtains s' where "s_recv hb blk s = (Some (Inr (0, ps)), s')" and "plain s'" and "s_pending s' = t"
    and "s_input s' = []"
proof -
  obtain s1 where r: "s_recv hb blk s = s_received hb (of_nat (length (s_input s))) s1"
    and s1: "length (s_recvBuf s1) = 8192" "s_recvBufLen s1 = s_recvBufLen s"
    "take (unat (s_recvBufLen s) + length (s_input s)) (s_recvBuf s1) = s_pending s @ s_input s"
    "s_status s1 = connected" "s_flag s1 = notWebSocket" "s_bev s1 \<noteq> None" "s_input s1 = []"
    using s_recv_plain [OF pl fits] by metis
  have lp: "length (s_pending s) = unat (s_recvBufLen s)"
    using pl by (intro length_s_pending) (simp add: plain_def)
  have l: "unat (of_nat (length (s_input s)) :: u32) = length (s_input s)"
    using fits by (simp add: unat_of_nat)
  obtain s' where s': "s_received hb (of_nat (length (s_input s))) s1 = (Some (Inr (0, ps)), s')"
    "s_recv_ok s'" "s_pending s' = t" "s_status s' = s_status s1" "s_flag s' = s_flag s1" "s_bev s' = s_bev s1"
    by (rule s_received_chop [OF s1(1) _ _ _ pos ch, of "of_nat (length (s_input s))" hb])
      (use l fits lp s1(2,3) len in simp_all)
  have "plain s'" "s_input s' = []"
    using s' s1 by (auto simp: plain_def s_input_def)
  with r s' show ?thesis by (intro that) simp_all
qed

fun s_reads :: "bool \<Rightarrow> byte list \<Rightarrow> byte list list \<Rightarrow> ServerIOSocket \<Rightarrow> (byte list list \<times> ServerIOSocket) option" where
  "s_reads hb blk [] s = Some ([], s)"
| "s_reads hb blk (c # cs) s =
     (case s_recv hb blk (s_arrive c s) of
        (Some (Inr (_, ps)), s') \<Rightarrow>
          (case s_reads hb blk cs s' of None \<Rightarrow> None | Some (qs, s'') \<Rightarrow> Some (ps @ qs, s''))
      | _ \<Rightarrow> None)"

lemma plain_arrive:
  assumes "plain s" and "s_input s = []"
  shows "plain (s_arrive c s)" "s_input (s_arrive c s) = c" "s_pending (s_arrive c s) = s_pending s"
  using assms by (auto simp: plain_def s_arrive_def s_input_def s_pending_def s_recv_ok_def)

text \<open>Packets of one length: each starts with that length, so the first head serves for all.\<close>

definition uniform :: "nat \<Rightarrow> byte list list \<Rightarrow> byte list \<Rightarrow> bool" where
  "uniform n ps t \<longleftrightarrow> list_all packet_wf ps \<and> list_all (\<lambda>p. length p = n) ps \<and> length t < n
     \<and> (2 \<le> length t \<longrightarrow> packet_len t = n)"

lemma uniform_head:
  assumes "uniform n ps t" and "x @ y = concat ps @ t" and "HEADLEN \<le> length x" and "HEADLEN \<le> n"
  shows "packet_len x = n"
proof (cases ps)
  case Nil
  with assms(2) have t: "t = x @ y" by simp
  have "2 \<le> length t" using assms(3) unfolding t by simp
  then have "packet_len t = n" using assms(1) by (simp add: uniform_def)
  then show ?thesis using assms(3) unfolding t by simp
next
  case (Cons p qs)
  have p: "packet_wf p" "length p = n" using assms(1) Cons by (simp_all add: uniform_def)
  have "packet_len x = packet_len (x @ y)" using assms(3) by simp
  also have "\<dots> = packet_len (p @ concat qs @ t)" using assms(2) Cons by simp
  also have "\<dots> = n" using p assms(4) by (simp add: packet_wf_def)
  finally show ?thesis .
qed


lemma uniform_cut:
  assumes "uniform n ps t" and "HEADLEN \<le> n" and "x @ y = concat ps @ t"
  shows "\<exists>k u. chop n x = (take k ps, u) \<and> uniform n (drop k ps) t \<and> u @ y = concat (drop k ps) @ t \<and> length u < n"
  using assms(1,3)
proof (induction ps arbitrary: x)
  case Nil
  then have "length x < n" by (auto simp: uniform_def dest: arg_cong [where f = length])
  with Nil show ?case by (intro exI [of _ 0] exI [of _ x]) (simp add: chop_short)
next
  case (Cons p ps)
  have p: "length p = n" "uniform n ps t" "x @ y = p @ (concat ps @ t)"
    using Cons.prems by (simp_all add: uniform_def)
  show ?case
  proof (cases "n \<le> length x")
    case False
    with Cons.prems show ?thesis by (intro exI [of _ 0] exI [of _ x]) (simp add: chop_short)
  next
    case True
    have "take n (x @ y) = p" unfolding p(3) using p(1) by simp
    with True have tk: "take n x = p" by simp
    then have x: "x = p @ drop n x" by (metis append_take_drop_id)
    have dr: "drop n x @ y = concat ps @ t" using p(3) x by (metis append.assoc same_append_eq)
    from Cons.IH [OF p(2) dr] obtain k u where "chop n (drop n x) = (take k ps, u)"
      "uniform n (drop k ps) t" "u @ y = concat (drop k ps) @ t" "length u < n" by blast
    with True tk assms(2) show ?thesis
      by (intro exI [of _ "Suc k"] exI [of _ u]) (simp add: chop_long)
  qed
qed

lemma s_reads_uniform:
  assumes n: "HEADLEN \<le> n" and len: "list_all (\<lambda>c. HEADLEN \<le> length c \<and> length c + n \<le> 8192) cs"
    and un: "uniform n ps t" and s: "plain s" "s_input s = []" "length (s_pending s) < n"
    and eq: "s_pending s @ concat cs = concat ps @ t"
  shows "\<exists>s'. s_reads hb blk cs s = Some (ps, s') \<and> plain s' \<and> s_input s' = [] \<and> s_pending s' = t"
  using len un s eq
proof (induction cs arbitrary: ps s)
  case Nil
  then have "ps = []"
  proof (cases ps)
    case (Cons p qs)
    with Nil have "n \<le> length (s_pending s)" by (auto simp: uniform_def)
    with Nil show ?thesis by simp
  qed simp
  with Nil show ?case by simp
next
  case (Cons c cs)
  note ar = plain_arrive [OF Cons.prems(3,4), of c]
  let ?x = "s_pending s @ c"
  have c: "HEADLEN \<le> length c" "length c + n \<le> 8192" using Cons.prems(1) by simp_all
  have xy: "?x @ concat cs = concat ps @ t" using Cons.prems(6) by simp
  have h: "packet_len ?x = n" using uniform_head [OF Cons.prems(2) xy _ n] c(1) by simp
  from uniform_cut [OF Cons.prems(2) n xy] obtain k u where k: "chop n ?x = (take k ps, u)"
    "uniform n (drop k ps) t" "u @ concat cs = concat (drop k ps) @ t" "length u < n" by blast
  obtain s1 where s1: "s_recv hb blk (s_arrive c s) = (Some (Inr (0, take k ps)), s1)" "plain s1"
    "s_pending s1 = u" "s_input s1 = []"
    by (rule s_recv_plain_chop [OF ar(1), of "take k ps" u hb blk])
      (use ar Cons.prems(5) c h n k(1) in simp_all)
  have "\<exists>s'. s_reads hb blk cs s1 = Some (drop k ps, s') \<and> plain s' \<and> s_input s' = [] \<and> s_pending s' = t"
    using Cons.prems(1) k s1 by (intro Cons.IH) simp_all
  then show ?case using s1(1) by auto
qed

text \<open>
  The first read of a connection looks for a WebSocket handshake. \<open>speaks_plain\<close> says that the connection is known to be
  none, or that nothing has been read yet and what comes first has no \<^verbatim>\<open>GET\<close> before its first zero byte.
\<close>

definition speaks_plain :: "byte list list \<Rightarrow> ServerIOSocket \<Rightarrow> bool" where
  "speaks_plain cs s \<longleftrightarrow> plain s \<or>
     s_flag s = wf_unknown \<and> plain (s\<lparr>s_flag := notWebSocket\<rparr>) \<and> s_recvBuf s = replicate 8192 0 \<and>
     (cs \<noteq> [] \<longrightarrow> find_sub (ascii ''GET'') (takeWhile (\<lambda>b. b \<noteq> 0) (hd cs)) = None)"

lemma first_read_plain:
  assumes "s_flag s = wf_unknown" and "plain (s\<lparr>s_flag := notWebSocket\<rparr>)" and "s_recvBuf s = replicate 8192 0"
    and "s_input s = []" "s_pending s = []" and "length c < 8192"
    and "find_sub (ascii ''GET'') (takeWhile (\<lambda>b. b \<noteq> 0) c) = None"
  shows "s_recv hb blk (s_arrive c s) = s_recv hb blk (s_arrive c (s\<lparr>s_flag := notWebSocket\<rparr>))"
proof -
  obtain b where b: "s_bev s = Some b" "s_status s = connected" "s_recv_ok s" "bev_input b = []"
    using assms(2,4) by (auto simp: plain_def s_recv_ok_def s_input_def)
  have z: "s_recvBufLen s = 0" using length_s_pending [OF b(3)] assms(5) by (simp add: unat_eq_zero)
  let ?buf = "mem_put 0 c (replicate 8192 0)"
  have "8192 - length c = Suc (8191 - length c)" using assms(6) by simp
  then have buf: "?buf = c @ 0 # replicate (8191 - length c) 0"
    using assms(6) by (simp add: mem_put_zero drop_replicate)
  have "takeWhile (\<lambda>b. b \<noteq> 0) ?buf = takeWhile (\<lambda>b. b \<noteq> 0) c"
  proof -
    have "takeWhile (\<lambda>b. b \<noteq> 0) (c @ 0 # zs) = takeWhile (\<lambda>b. b \<noteq> 0) c" for zs :: "byte list"
      by (induction c) simp_all
    then show ?thesis unfolding buf .
  qed
  then have "strstr ?buf (ascii ''GET'') = Inr None"
    using assms(7) buf by (simp add: strstr_def)
  then show ?thesis
    using assms(1,3,6) b z
    by (simp add: s_recv_def s_arrive_def bufferevent_read_def doWebSocket_def Let_def) (cases s, simp)
qed

text \<open>
  C10: Reassembly on the server. For a stream whose packets all have the same length (what a
  client of this server sends: heartbeats) the server passes up exactly its packets, each
  once, whole and in order, and keeps the unfinished one for the next read, provided every
  read brings at least the four bytes of a head and fits the buffer behind an unfinished
  packet. This holds from the first read of the connection on, if that has no \<^verbatim>\<open>GET\<close> before its first zero byte
  (else the server looks for a WebSocket handshake in it), and for a connection already known not to be a WebSocket.
\<close>

theorem server_reassembly_uniform:
  assumes "HEADLEN \<le> n" and "list_all (\<lambda>c. HEADLEN \<le> length c \<and> length c + n \<le> 8192) cs"
    and "uniform n ps t" and "speaks_plain cs s" "s_input s = []" "s_pending s = []"
    and "concat cs = concat ps @ t"
  shows "\<exists>s'. s_reads hb blk cs s = Some (ps, s') \<and> s_pending s' = t \<and> s_input s' = []"
proof (cases "plain s \<or> cs = []")
  case True
  then show ?thesis
  proof
    assume "plain s"
    then show ?thesis using s_reads_uniform [OF assms(1-3) _ assms(5)] assms(1,6,7) by auto
  next
    assume nil: "cs = []"
    then have "concat ps = []" "t = []" using assms(7) by simp_all
    moreover have "p \<noteq> []" if "p \<in> set ps" for p using that assms(1,3) by (auto simp: uniform_def list_all_iff)
    ultimately have "ps = []" by (cases ps) auto
    then show ?thesis using nil \<open>t = []\<close> assms(5,6) by simp
  qed
next
  case False
  then obtain c cr where cs: "cs = c # cr" by (cases cs) simp_all
  let ?s = "s\<lparr>s_flag := notWebSocket\<rparr>"
  have sp: "s_flag s = wf_unknown" "plain ?s" "s_recvBuf s = replicate 8192 0"
    "find_sub (ascii ''GET'') (takeWhile (\<lambda>b. b \<noteq> 0) c) = None"
    using assms(4) False cs by (auto simp: speaks_plain_def)
  have "length c < 8192" using assms(1,2) cs by simp
  from first_read_plain [OF sp(1-3) assms(5,6) this sp(4), of hb blk]
  have "s_reads hb blk cs s = s_reads hb blk cs ?s" by (simp add: cs)
  moreover have "s_input ?s = []" "s_pending ?s = []" using assms(5,6) by (simp_all add: s_input_def s_pending_def)
  ultimately show ?thesis using s_reads_uniform [OF assms(1-3) sp(2), of hb blk] assms(1,7) by auto
qed

definition plain_demo :: ServerIOSocket where
  "plain_demo = (ServerIOSocket_new 7 \<lparr>bev_input = [], bev_output = []\<rparr>)\<lparr>s_status := connected, s_flag := notWebSocket\<rparr>"

lemma plain_demo: "plain plain_demo" "s_input plain_demo = []" "s_pending plain_demo = []"
  by (simp_all add: plain_demo_def ServerIOSocket_new_def plain_def s_recv_ok_def s_input_def s_pending_def)

theorem server_reassembly_uniform_witness:
  "\<exists>s'. s_reads True [] [[5, 0, 1, 0, 9, 5, 0], [1, 0, 8, 5]]
       ((ServerIOSocket_new 7 \<lparr>bev_input = [], bev_output = []\<rparr>)\<lparr>s_status := connected\<rparr>)
     = Some ([[5, 0, 1, 0, 9], [5, 0, 1, 0, 8]], s') \<and> s_pending s' = [5]"
proof -
  let ?s = "(ServerIOSocket_new 7 \<lparr>bev_input = [], bev_output = []\<rparr>)\<lparr>s_status := connected\<rparr>"
  have u: "uniform 5 [[5, 0, 1, 0, 9], [5, 0, 1, 0, 8]] [5]"
    by (simp add: uniform_def packet_wf_def packet_len_def)
  have l: "list_all (\<lambda>c. HEADLEN \<le> length c \<and> length c + 5 \<le> 8192) [[5, 0, 1, 0, 9, 5, 0], [1, 0, 8, 5 :: byte]]"
    by simp
  have "find_sub (ascii ''GET'') [5 :: byte] = None" by code_simp
  then have sp: "speaks_plain [[5, 0, 1, 0, 9, 5, 0], [1, 0, 8, 5]] ?s"
    by (simp add: speaks_plain_def ServerIOSocket_new_def plain_def s_recv_ok_def)
  have e: "s_input ?s = []" "s_pending ?s = []" by (simp_all add: ServerIOSocket_new_def s_input_def s_pending_def)
  have "HEADLEN \<le> 5" "concat [[5, 0, 1, 0, 9, 5, 0], [1, 0, 8, 5]]
      = concat [[5, 0, 1, 0, 9], [5, 0, 1, 0, 8]] @ [5 :: byte]" by simp_all
  from server_reassembly_uniform [OF this(1) l u sp e this(2), of True "[]"] show ?thesis by blast
qed

text \<open>
  Packets of different lengths that arrive in one read are torn apart: every piece the
  server passes up has the length of the first packet, so a second packet of another length
  is never passed up.
\<close>

theorem server_misframes_mixed:
  assumes "plain s" and "s_input s = []" and "s_pending s = []"
    and "packet_wf p" and "packet_wf q" and "length p \<noteq> length q" and "length p + length q \<le> 8192"
  shows "\<exists>ps s'. s_recv hb blk (s_arrive (p @ q) s) = (Some (Inr (0, ps)), s') \<and> q \<notin> set ps
    \<and> list_all (\<lambda>x. length x = length p) ps"
proof -
  note ar = plain_arrive [OF assms(1,2), of "p @ q"]
  have pl: "packet_len (p @ q) = length p" "HEADLEN \<le> length p" using assms(4) by (simp_all add: packet_wf_def)
  then have "p \<noteq> []" by auto
  obtain ps t where ch: "chop (length p) (p @ q) = (ps, t)" by fastforce
  obtain s' where "s_recv hb blk (s_arrive (p @ q) s) = (Some (Inr (0, ps)), s')"
    by (rule s_recv_plain_chop [OF ar(1), of ps t hb blk])
      (use ar assms(3,7) pl ch \<open>p \<noteq> []\<close> in simp_all)
  moreover have "list_all (\<lambda>x. length x = length p) ps" using chop_lengths [OF ch] by simp
  ultimately show ?thesis using assms(6) by (auto simp: list_all_iff)
qed

theorem server_misframes_mixed_witness:
  "\<exists>ps s'. s_recv False [] (s_arrive ([4, 0, 1, 0] @ [5, 0, 1, 0, 9]) plain_demo) = (Some (Inr (0, ps)), s')
     \<and> [5, 0, 1, 0, 9] \<notin> set ps"
proof -
  have "packet_wf [4, 0, 1, 0]" "packet_wf [5, 0, 1, 0, 9]" by (simp_all add: packet_wf_def packet_len_def)
  from server_misframes_mixed [OF plain_demo this, of False "[]"] show ?thesis by auto
qed


text \<open>
  A read of fewer than four bytes passes nothing up, even if it completes a packet: the
  head is looked for in as many bytes as that read brought. The bytes are kept.
\<close>

theorem server_short_read_delivers_nothing:
  assumes "plain s" and "s_input s = []" and "0 < length bs" "length bs < HEADLEN"
    and "length (s_pending s) + length bs \<le> 8192"
  shows "\<exists>s'. s_recv hb blk (s_arrive bs s) = (Some (Inr (0, [])), s')
    \<and> s_pending s' = s_pending s @ bs \<and> s_input s' = []"
proof -
  note ar = plain_arrive [OF assms(1,2), of bs]
  obtain s1 where r: "s_recv hb blk (s_arrive bs s) = s_received hb (of_nat (length bs)) s1"
    and s1: "length (s_recvBuf s1) = 8192" "s_recvBufLen s1 = s_recvBufLen (s_arrive bs s)"
    "take (unat (s_recvBufLen (s_arrive bs s)) + length bs) (s_recvBuf s1) = s_pending s @ bs"
    "s_input s1 = []"
    using s_recv_plain [OF ar(1), of hb blk] ar(2,3) assms(5) by metis
  have lp: "length (s_pending s) = unat (s_recvBufLen s)"
    using assms(1) by (intro length_s_pending) (simp add: plain_def)
  have rl: "s_recvBufLen (s_arrive bs s) = s_recvBufLen s" by (simp add: s_arrive_def)
  have l: "unat (of_nat (length bs) :: u32) = length bs" using assms(4) by (simp add: unat_of_nat)
  let ?n = "s_recvBufLen s + of_nat (length bs)"
  have "unat (s_recvBufLen s) + unat (of_nat (length bs) :: u32) < 2 ^ LENGTH(32)"
    using assms(5) lp l by simp
  from unat_add_lem [THEN iffD1, OF this] l
  have n: "unat ?n = unat (s_recvBufLen s) + length bs" by simp
  have "READXY (get_head hb) (s_recvBuf s1) (length bs) = Inl (biosexception exc_overflow)"
    using READXY_head [of "length bs" "s_recvBuf s1" hb] assms(4) s1(1) by simp
  then have "s_deliver_loop hb (s_recvBuf s1) (of_nat (length bs)) ?n 0 [] = Some (Inr ([], 0))"
    using l by (subst s_deliver_loop.simps) simp
  then have "s_received hb (of_nat (length bs)) s1 = (Some (Inr (0, [])), s1\<lparr>s_recvBufLen := ?n\<rparr>)"
    using s1(2) rl by (simp add: s_received_def Let_def)
  moreover have "s_pending (s1\<lparr>s_recvBufLen := ?n\<rparr>) = s_pending s @ bs"
    using s1(3) rl n by (simp add: s_pending_def)
  moreover have "s_input (s1\<lparr>s_recvBufLen := ?n\<rparr>) = []" using s1(4) by (simp add: s_input_def)
  ultimately show ?thesis using r by simp
qed

theorem server_short_read_delivers_nothing_witness:
  "\<exists>s1 s2. s_recv False [] (s_arrive [4, 0] plain_demo) = (Some (Inr (0, [])), s1)
     \<and> s_recv False [] (s_arrive [1, 0] s1) = (Some (Inr (0, [])), s2) \<and> s_pending s2 = [4, 0, 1, 0]"
proof -
  obtain s1 where s1: "s_recv False [] (s_arrive [4, 0] plain_demo) = (Some (Inr (0, [])), s1)"
    "s_pending s1 = [4, 0]" "s_input s1 = []"
    using server_short_read_delivers_nothing [OF plain_demo(1,2), of "[4, 0]" False "[]"] plain_demo(3) by auto
  have "plain s1"
  proof -
    have "s_recv False [] (s_arrive [4, 0] plain_demo) = s_received False 2
       (plain_demo\<lparr>s_bev := Some \<lparr>bev_input = [], bev_output = []\<rparr>, s_recvBuf := mem_put 0 [4, 0] (s_recvBuf plain_demo)\<rparr>)"
      by (simp add: s_recv_def s_arrive_def plain_demo_def ServerIOSocket_new_def bufferevent_read_def
          doWebSocket_def)
    moreover have "s_deliver_loop False (mem_put 0 [4, 0] (replicate 8192 0)) 2 2 0 [] = Some (Inr ([], 0))"
      using READXY_head [of 2 "mem_put 0 [4, 0] (replicate 8192 0)" False]
      by (subst s_deliver_loop.simps) (simp add: mem_put_def)
    ultimately show ?thesis using s1(1)
      by (auto simp: s_received_def plain_demo_def ServerIOSocket_new_def plain_def s_recv_ok_def mem_put_def)
  qed
  from server_short_read_delivers_nothing [OF this s1(3), of "[1, 0]" False "[]"] s1 show ?thesis by auto
qed

text \<open>
  A head that claims a length of zero stops the I/O thread, and with it every connection the
  thread serves: the read never returns.
\<close>

theorem server_zero_head_hangs:
  assumes "plain s" and "s_input s = []" and "s_pending s = []"
    and "HEADLEN \<le> length bs" "length bs \<le> 8192" "packet_len bs = 0"
  shows "fst (s_recv hb blk (s_arrive bs s)) = None"
proof -
  note ar = plain_arrive [OF assms(1,2), of bs]
  obtain s1 where r: "s_recv hb blk (s_arrive bs s) = s_received hb (of_nat (length bs)) s1"
    and s1: "length (s_recvBuf s1) = 8192" "s_recvBufLen s1 = s_recvBufLen (s_arrive bs s)"
    "take (unat (s_recvBufLen (s_arrive bs s)) + length bs) (s_recvBuf s1) = [] @ bs"
    using s_recv_plain [OF ar(1), of hb blk] ar(2,3) assms(5) unfolding assms(3) by (metis add_0 list.size(3))
  have "unat (s_recvBufLen s) = 0"
    using assms(1,3) length_s_pending [of s] by (simp add: plain_def)
  then have z: "s_recvBufLen (s_arrive bs s) = 0" by (simp add: s_arrive_def unat_eq_zero)
  have l: "unat (of_nat (length bs) :: u32) = length bs" using assms(5) by (simp add: unat_of_nat)
  have tk: "take (length bs) (s_recvBuf s1) = bs" using s1(3) z by simp
  have "take 2 (take (length bs) (s_recvBuf s1)) = take 2 (s_recvBuf s1)" using assms(4) by (simp add: min_def)
  then have "take 2 (s_recvBuf s1) = take 2 bs" unfolding tk by simp
  then have "packet_len (s_recvBuf s1) = 0" using assms(6) by (simp add: packet_len_def)
  then have "s_deliver_loop hb (s_recvBuf s1) (of_nat (length bs)) (of_nat (length bs)) 0 [] = None"
    using s1(1) l assms(4,5) by (intro s_deliver_loop_stuck) auto
  then show ?thesis using r s1(2) z by (simp add: s_received_def Let_def)
qed

theorem server_zero_head_hangs_witness:
  "fst (s_recv False [] (s_arrive [0, 0, 1, 0] plain_demo)) = None"
  using server_zero_head_hangs [OF plain_demo, of "[0, 0, 1, 0]"] by (simp add: packet_len_def)

end
