(* ===== verification/ServerWeb.thy ===== *)
theory ServerWeb
  imports ServerIO
begin

unbundle bit_operations_syntax

text \<open>
  Properties of the WebSocket half of \<^verbatim>\<open>libsocket/ServerIOSocket.cpp\<close>: the handshake, the frames
  the connection takes apart and the frames it sends, against the frame layout of RFC 6455,
  and the send buffer of both kinds of connection as an instance of the batching contract.
\<close>

section \<open>Frames of RFC 6455\<close>

text \<open>The length field of a frame: \<open>m\<close> is the mask bit.\<close>

definition ws_length :: "byte \<Rightarrow> nat \<Rightarrow> byte list" where
  "ws_length m n =
     (if n < 126 then [m OR of_nat n]
      else if n < 65536 then (m OR 126) # net_bytes 2 n
      else (m OR 127) # net_bytes 8 n)"

definition ws_mask :: "byte list \<Rightarrow> byte list \<Rightarrow> byte list" where
  "ws_mask key pl = map (\<lambda>i. pl ! i XOR key ! (i mod 4)) [0..<length pl]"

text \<open>A final binary frame of a client, which masks what it sends.\<close>

definition client_frame :: "byte list \<Rightarrow> byte list \<Rightarrow> byte list" where
  "client_frame key pl = 0x82 # ws_length 0x80 (length pl) @ key @ ws_mask key pl"

text \<open>What a client makes of the bytes a server sends: opcode, payload and the bytes behind.\<close>

definition ws_payload :: "nat \<Rightarrow> byte list \<Rightarrow> (byte list \<times> byte list) option" where
  "ws_payload n bs = (if length bs < n then None else Some (take n bs, drop n bs))"

fun ws_decode :: "byte list \<Rightarrow> (byte \<times> byte list \<times> byte list) option" where
  "ws_decode (b0 # b1 # bs) =
     (if b0 AND 0x80 = 0 \<or> b1 AND 0x80 \<noteq> 0 then None
      else if b1 = 126 then
        (if length bs < 2 then None
         else map_option (Pair (b0 AND 0x0F)) (ws_payload (le_nat (rev (take 2 bs))) (drop 2 bs)))
      else if b1 = 127 then
        (if length bs < 8 then None
         else map_option (Pair (b0 AND 0x0F)) (ws_payload (le_nat (rev (take 8 bs))) (drop 8 bs)))
      else map_option (Pair (b0 AND 0x0F)) (ws_payload (unat b1) bs))"
| "ws_decode _ = None"

lemma length_net_bytes [simp]: "length (net_bytes k n) = k"
  by (simp add: net_bytes_def)

lemma le_nat_net_bytes: "n < 256 ^ k \<Longrightarrow> le_nat (rev (net_bytes k n)) = n"
  by (simp add: net_bytes_def le_nat_le_bytes)

lemma length_ws_mask [simp]: "length (ws_mask key pl) = length pl"
  by (simp add: ws_mask_def)

lemma ws_mask_nth [simp]: "i < length pl \<Longrightarrow> ws_mask key pl ! i = pl ! i XOR key ! (i mod 4)"
  by (simp add: ws_mask_def)

text \<open>The unmasking loop, by its range.\<close>

lemma unmask_loop_nth:
  "i + n \<le> length buf \<Longrightarrow> length (unmask_loop key i n buf) = length buf
   \<and> (\<forall>k < length buf. unmask_loop key i n buf ! k
        = (if i \<le> k \<and> k < i + n then buf ! k XOR key ! (k mod 4) else buf ! k))"
proof (induction n arbitrary: i buf)
  case (Suc n)
  have "Suc i + n \<le> length (buf[i := buf ! i XOR key ! (i mod 4)])" using Suc.prems by simp
  from Suc.IH [OF this] Suc.prems show ?case by (auto simp: nth_list_update not_less_eq_eq dest: le_antisym)
qed auto

lemma unmask_loop_ws_mask:
  "unmask_loop key 0 (length pl) (ws_mask key pl @ rest) = pl @ rest"
proof (rule nth_equalityI)
  have u: "0 + length pl \<le> length (ws_mask key pl @ rest)" by simp
  note s = unmask_loop_nth [OF u, of key]
  show "length (unmask_loop key 0 (length pl) (ws_mask key pl @ rest)) = length (pl @ rest)" using s by simp
  fix k assume "k < length (unmask_loop key 0 (length pl) (ws_mask key pl @ rest))"
  then have k: "k < length (ws_mask key pl @ rest)" using s by simp
  with s have e: "unmask_loop key 0 (length pl) (ws_mask key pl @ rest) ! k
      = (if k < length pl then (ws_mask key pl @ rest) ! k XOR key ! (k mod 4) else (ws_mask key pl @ rest) ! k)"
    by simp
  show "unmask_loop key 0 (length pl) (ws_mask key pl @ rest) ! k = (pl @ rest) ! k"
    unfolding e by (simp add: nth_append xor.assoc)
qed

section \<open>Taking a frame apart\<close>

definition web :: "ServerIOSocket \<Rightarrow> bool" where
  "web s \<longleftrightarrow> s_status s = connected \<and> s_flag s = isWebSocket \<and> s_bev s \<noteq> None \<and> s_recv_ok s
     \<and> (\<exists>tmp. s_tmpBuf s = Some tmp \<and> length tmp = 4096)"

lemma ws_length_bytes:
  assumes "n < 65536"
  shows "\<exists>b0 bs. ws_length m n = b0 # bs \<and> b0 = m OR (if n < 126 then of_nat n else 126)
    \<and> bs = (if n < 126 then [] else net_bytes 2 n)"
  using assms by (simp add: ws_length_def)

lemma small_length_byte: "n < 126 \<Longrightarrow> (0x80 OR of_nat n :: byte) AND 0x7F = of_nat n"
proof -
  assume n: "n < 126"
  have "(of_nat n :: byte) AND mask 7 = of_nat n"
    by (simp only: take_bit_eq_mask [symmetric]) (use n in \<open>simp add: take_bit_of_nat take_bit_nat_eq_self\<close>)
  then have "(of_nat n :: byte) AND 0x7F = of_nat n" by (simp add: mask_eq_exp_minus_1)
  then show ?thesis by (simp add: bit.conj_disj_distrib2)
qed

lemma length_client_frame:
  "length key = 4 \<Longrightarrow> length pl < 65536 \<Longrightarrow>
   length (client_frame key pl) = length pl + (if length pl < 126 then 6 else 8)"
  by (simp add: client_frame_def ws_length_def)

text \<open>
  \<open>removeWebSocketHead\<close> on a buffer that starts with a client's frame: the payload stands at
  the start of the buffer, closed by a NUL.
\<close>

lemma removeWebSocketHead_frame:
  assumes tmp: "s_tmpBuf s = Some tmp" "tmp = client_frame key pl @ rest"
    and key: "length key = 4" and len: "length pl < 65536" "10 \<le> length tmp"
  shows "\<exists>tmp'. removeWebSocketHead s = (Inr (True, of_nat (length pl)), s\<lparr>s_tmpBuf := Some tmp'\<rparr>)
    \<and> length tmp' = length tmp \<and> take (length pl) tmp' = pl \<and> tmp' ! length pl = 0"
proof -
  let ?n = "length pl"
  define k where "k = (if ?n < 126 then 1 else 3 :: nat)"
  obtain h where h: "tmp = 0x82 # h @ key @ ws_mask key pl @ rest" "length h = k"
    "h = ws_length 0x80 ?n"
    using tmp(2) len(1) by (simp add: client_frame_def k_def ws_length_def)
  have b0: "tmp ! 0 = 0x82" using h by simp
  have b1: "tmp ! 1 AND 0x7F = (if ?n < 126 then of_nat ?n else 126)"
    unfolding h(1,3) using len(1) small_length_byte [of ?n] by (simp add: ws_length_def)
  have be: "le_nat (rev (mem_get 2 2 tmp)) = ?n" if "\<not> ?n < 126"
    unfolding h(1,3) using len(1) that le_nat_net_bytes [of ?n 2] by (simp add: ws_length_def mem_get_def)
  have ky: "mem_get (1 + k) 4 tmp = key" using h key by (simp add: mem_get_def)
  have "1 + k + 4 = length (0x82 # h @ key)" using h(2) key by simp
  moreover have "tmp = (0x82 # h @ key) @ (ws_mask key pl @ rest)" using h(1) by simp
  ultimately have "drop (1 + k + 4) tmp = ws_mask key pl @ rest" by (metis append_eq_conv_conj)
  then have pl: "mem_get (1 + k + 4) ?n tmp = ws_mask key pl" by (simp add: mem_get_def)
  have lt: "length tmp = 1 + k + 4 + ?n + length rest" using h key by simp
  have n32: "unat (of_nat ?n :: u32) = ?n" using len(1) by (simp add: unat_of_nat)
  have len1: "(ucast (tmp ! 1 AND 0x7F) :: u32) = (if ?n < 126 then of_nat ?n else 126)"
    unfolding b1 by (auto simp: word_unat_eq_iff unat_of_nat unsigned_ucast_eq take_bit_nat_eq_self)
  have n126: "(of_nat ?n :: u32) \<noteq> 126" "(of_nat ?n :: u32) \<noteq> 127" if "?n < 126"
    using n32 that by (auto dest: arg_cong [where f = unat])
  let ?buf = "mem_put 0 (ws_mask key pl) tmp"
  have put: "?buf = ws_mask key pl @ drop ?n tmp" by (simp add: mem_put_zero)
  have un: "unmask_loop key 0 ?n ?buf = pl @ drop ?n tmp" unfolding put by (rule unmask_loop_ws_mask)
  let ?tmp = "(pl @ drop ?n tmp)[?n := 0]"
  have "removeWebSocketHead s = (Inr (True, of_nat ?n), s\<lparr>s_tmpBuf := Some ?tmp\<rparr>)"
  proof (cases "?n < 126")
    case True
    with tmp(1) len b0 len1 ky pl n32 n126 un lt show ?thesis
      by (simp add: removeWebSocketHead_def Let_def k_def)
  next
    case False
    with tmp(1) len b0 len1 be ky pl n32 un lt show ?thesis
      by (simp add: removeWebSocketHead_def Let_def k_def)
  qed
  moreover have "length ?tmp = length tmp" "take ?n ?tmp = pl" "?tmp ! ?n = 0"
    using lt by (simp_all add: nth_list_update)
  ultimately show ?thesis by blast
qed

text \<open>
  C11: A binary frame of a client is unpacked faithfully. On a connection in WebSocket mode with
  nothing pending, one read of at most 4096 bytes (the frame buffer) that starts with a whole RFC 6455 binary frame,
  whose payload holds at least the four bytes of a packet head, passes up exactly the packets inside the payload,
  whatever the masking key, and keeps
  the unfinished packet at its end for the next read (packets of one length, as the receive
  loop requires). The bytes of the same read behind the frame, further frames included, are
  lost; a comment of \<^verbatim>\<open>ServerIOSocket.h\<close> holds that frames never stick together, but TCP does not keep them apart.
\<close>

theorem web_frame_received:
  assumes "web s" and "s_pending s = []" and "s_input s = client_frame key pl @ rest"
    and "length (s_input s) \<le> 4096" and "length key = 4"
    and "HEADLEN \<le> n" and "HEADLEN \<le> length pl" and "uniform n ps t" and "pl = concat ps @ t"
  shows "\<exists>s'. s_recv hb blk s = (Some (Inr (0, ps)), s') \<and> s_pending s' = t \<and> s_input s' = []"
proof -
  obtain b tmp where b: "s_bev s = Some b" and tmp: "s_tmpBuf s = Some tmp" "length tmp = 4096"
    and st: "s_status s = connected" "s_flag s = isWebSocket" "s_recv_ok s"
    using assms(1) by (auto simp: web_def)
  have in': "bev_input b = client_frame key pl @ rest" "length (bev_input b) \<le> 4096"
    using assms(3,4) b by (simp_all add: s_input_def)
  have lp: "length pl < 65536" "length pl \<le> 4090"
  proof -
    have "length pl \<le> length (client_frame key pl)" by (simp add: client_frame_def)
    with in' show "length pl < 65536" by simp
    with in' assms(5) show "length pl \<le> 4090" by (simp add: length_client_frame split: if_splits)
  qed
  let ?s0 = "s\<lparr>s_bev := Some (b\<lparr>bev_input := []\<rparr>), s_tmpBuf := Some (mem_put 0 (bev_input b) tmp)\<rparr>"
  have t0: "mem_put 0 (bev_input b) tmp = client_frame key pl @ (rest @ drop (length (bev_input b)) tmp)"
    using in'(1) by (simp add: mem_put_zero)
  have l0: "length (mem_put 0 (bev_input b) tmp) = 4096" using tmp in'(2) by (simp add: mem_put_zero)
  from removeWebSocketHead_frame [of ?s0 _ key pl, OF _ t0 assms(5) lp(1)] l0
  obtain tmp' where un: "removeWebSocketHead ?s0 = (Inr (True, of_nat (length pl)), ?s0\<lparr>s_tmpBuf := Some tmp'\<rparr>)"
    "length tmp' = 4096" "take (length pl) tmp' = pl" by auto
  have len: "unat (of_nat (length pl) :: u32) = length pl" using lp by (simp add: unat_of_nat)
  have z: "s_recvBufLen s = 0" "length (s_recvBuf s) = 8192"
    using length_s_pending [OF st(3)] assms(2) st(3) by (simp_all add: unat_eq_zero s_recv_ok_def)
  let ?s1 = "?s0\<lparr>s_tmpBuf := Some tmp', s_recvBuf := mem_put 0 pl (s_recvBuf s)\<rparr>"
  have r: "s_recv hb blk s = s_received hb (of_nat (length pl)) ?s1"
    using st b tmp in'(2) un len z lp by (simp add: s_recv_def bufferevent_read_def Let_def)
  have x: "pl = take (unat (s_recvBufLen ?s1) + unat (of_nat (length pl) :: u32)) (s_recvBuf ?s1)"
    using z len by (simp add: mem_put_zero)
  have h: "packet_len pl = n"
    using uniform_head [OF assms(8), of pl "[]"] assms(6,7,9) by simp
  have "chop n (concat ps @ t) = (ps, t)"
    using assms(6,8) by (intro chop_uniform) (simp_all add: uniform_def)
  then have ch: "chop (packet_len pl) pl = (ps, t)" using h assms(9) by simp
  obtain s' where "s_received hb (of_nat (length pl)) ?s1 = (Some (Inr (0, ps)), s')"
    "s_pending s' = t" "s_bev s' = s_bev ?s1"
    by (rule s_received_chop [OF _ _ _ x _ ch, of hb])
      (use z len lp assms(6,7) h in \<open>simp_all add: mem_put_zero\<close>)
  with r show ?thesis by (auto simp: s_input_def)
qed

definition web_demo :: "byte list \<Rightarrow> ServerIOSocket" where
  "web_demo bs = (ServerIOSocket_new 7 \<lparr>bev_input = bs, bev_output = []\<rparr>)
     \<lparr>s_status := connected, s_flag := isWebSocket, s_tmpBuf := Some (replicate 4096 0)\<rparr>"

lemma web_demo: "web (web_demo bs)" "s_input (web_demo bs) = bs" "s_pending (web_demo bs) = []"
  by (simp_all add: web_demo_def ServerIOSocket_new_def web_def s_recv_ok_def s_input_def s_pending_def)

text \<open>Two heartbeats in two frames of one read: the second is lost.\<close>

theorem web_frame_received_witness:
  "\<exists>s'. s_recv False [] (web_demo (client_frame [9, 8, 7, 6] [4, 0, 1, 0] @ client_frame [1, 2, 3, 4] [4, 0, 1, 0]))
     = (Some (Inr (0, [[4, 0, 1, 0]])), s') \<and> s_pending s' = [] \<and> s_input s' = []"
proof -
  have u: "uniform 4 [[4, 0, 1, 0]] []"
    by (simp add: uniform_def packet_wf_def packet_len_def)
  have l: "length (client_frame [9, 8, 7, 6] [4, 0, 1, 0] @ client_frame [1, 2, 3, 4] [4, 0, 1, 0]) \<le> 4096"
    by (simp add: length_client_frame)
  show ?thesis
    by (rule web_frame_received [OF web_demo(1,3) web_demo(2) _ _ _ _ u]) (use l web_demo(2) in simp_all)
qed

text \<open>
  The length in a frame's head is trusted. A frame that announces more payload than the
  4096-byte frame buffer holds, or any frame with a 64-bit length, makes the server read and
  write outside its memory, whatever follows in the read.
\<close>

theorem web_length_overruns:
  assumes "web s" and "length (s_input s) \<le> 4096" and "4 \<le> length (s_input s)"
    and "s_input s ! 0 AND 0x0F = opcode_value binaryFrame"
    and "s_input s ! 1 AND 0x7F = 127
      \<or> s_input s ! 1 AND 0x7F = 126 \<and> 4096 < 8 + 256 * unat (s_input s ! 2) + unat (s_input s ! 3)"
  shows "fst (s_recv hb blk s) = Some (Inl OutOfBounds)"
proof -
  obtain b tmp where b: "s_bev s = Some b" and tmp: "s_tmpBuf s = Some tmp" "length tmp = 4096"
    and st: "s_status s = connected" "s_flag s = isWebSocket"
    using assms(1) by (auto simp: web_def)
  have in': "s_input s = bev_input b" using b by (simp add: s_input_def)
  let ?tmp = "mem_put 0 (bev_input b) tmp"
  let ?s0 = "s\<lparr>s_bev := Some (b\<lparr>bev_input := []\<rparr>), s_tmpBuf := Some ?tmp\<rparr>"
  have l: "length ?tmp = 4096" using tmp assms(2) in' by (simp add: mem_put_zero)
  have nth: "?tmp ! i = s_input s ! i" if "i < 4" for i
    using that assms(3) in' by (simp add: mem_put_zero nth_append)
  have d: "drop 2 ?tmp = ?tmp ! 2 # drop 3 ?tmp" "drop 3 ?tmp = ?tmp ! 3 # drop 4 ?tmp"
    using l Cons_nth_drop_Suc [of 2 ?tmp] Cons_nth_drop_Suc [of 3 ?tmp] by (simp_all add: numeral_eq_Suc)
  have len: "le_nat (rev (mem_get 2 2 ?tmp)) = 256 * unat (s_input s ! 2) + unat (s_input s ! 3)"
    unfolding mem_get_def d using nth [of 2] nth [of 3] by simp
  have u: "unat (of_nat (le_nat (rev (mem_get 2 2 ?tmp))) :: u32) = le_nat (rev (mem_get 2 2 ?tmp))"
    using le_nat_less [of "rev (mem_get 2 2 ?tmp)"] l by (simp add: unat_of_nat mem_get_def)
  have "\<exists>s'. removeWebSocketHead ?s0 = (Inl OutOfBounds, s')"
    using assms(4,5) nth [of 0] nth [of 1] l u len unfolding removeWebSocketHead_def
    by (elim disjE) (simp_all add: Let_def)
  then show ?thesis
    using st b tmp assms(2) in' by (auto simp: s_recv_def bufferevent_read_def Let_def)
qed

theorem web_length_overruns_witness:
  "fst (s_recv False [] (web_demo [0x82, 0xFE, 0xFF, 0xFF])) = Some (Inl OutOfBounds)"
  by (rule web_length_overruns [OF web_demo(1)]) (simp_all add: web_demo)

section \<open>Sending frames\<close>

definition server_frame :: "byte list \<Rightarrow> byte list" where
  "server_frame pl = 0x82 # ws_length 0 (length pl) @ pl"

lemma length_server_frame: "length pl < 65536 \<Longrightarrow> length (server_frame pl) = length pl + (if length pl < 126 then 2 else 4)"
  by (simp add: server_frame_def ws_length_def)

lemma ws_decode_server_frame:
  assumes "length pl < 65536"
  shows "ws_decode (server_frame pl @ rest) = Some (2, pl, rest)"
proof (cases "length pl < 126")
  case True
  have s: "(of_nat (length pl) :: byte) AND 0x80 = 0"
  proof -
    have "(of_nat (length pl) :: byte) = of_nat (length pl) AND 0x7F"
      using small_length_byte [OF True] True
      by (metis and.assoc and.idem)
    then have "(of_nat (length pl) :: byte) AND 0x80 = of_nat (length pl) AND (0x7F AND 0x80)"
      by (metis and.assoc)
    then show ?thesis by simp
  qed
  have u: "unat (of_nat (length pl) :: byte) = length pl" using True by (simp add: unat_of_nat)
  then have "(of_nat (length pl) :: byte) \<noteq> 126" "(of_nat (length pl) :: byte) \<noteq> 127"
    using True by (auto dest: arg_cong [where f = unat])
  then show ?thesis using True s u
    by (simp add: server_frame_def ws_length_def ws_payload_def)
next
  case False
  then show ?thesis using assms le_nat_net_bytes [of "length pl" 2]
    by (simp add: server_frame_def ws_length_def ws_payload_def)
qed

lemma sendWebSocketBuff_frame:
  assumes "s_flag s = isWebSocket" and "s_bev s = Some b" and "unat n \<le> length buf" and "unat n < 65536"
  shows "sendWebSocketBuff hb buf n s = (Inr (True, n + of_nat (if unat n < 126 then 2 else 4)),
    s\<lparr>s_bev := Some (b\<lparr>bev_output := bev_output b @ server_frame (take (unat n) buf)\<rparr>)\<rparr>)"
proof -
  let ?w = "if unat n < 126 then 2 else 4 :: nat" and ?pl = "take (unat n) buf"
  have lpl: "length ?pl = unat n" using assms(3) by simp
  have num: "unat (n + of_nat ?w) = unat n + ?w"
    using assms(4) by (simp add: unat_word_ariths)
  have "unat (n + 16) = unat n + 16" using assms(4) by (simp add: unat_word_ariths)
  then have sz: "unat n + 16 \<le> unat (fixSize (n + 16))"
    using fixSize_ge [of "n + 16"] by (simp add: word_le_nat_alt)
  have c: "n \<ge> 65536 \<longleftrightarrow> False" "n \<ge> 126 \<longleftrightarrow> \<not> unat n < 126"
    using assms(4) by (simp_all add: word_le_nat_alt not_less)
  have uc: "(ucast n :: byte) = of_nat (unat n)" by (rule of_nat_unat [symmetric])
  have "take (unat n + ?w) (mem_put ?w ?pl (mem_put 0 (0x82 # ws_length 0 (unat n))
      (replicate (unat (fixSize (n + 16))) 0))) = server_frame ?pl"
    using sz assms(4) lpl by (simp add: mem_put_def server_frame_def ws_length_def min_def)
  moreover have "ws_length 0 (unat n) = (if unat n < 126 then [ucast n] else 126 # net_bytes 2 (unat n mod 65536))"
    using assms(4) uc by (simp add: ws_length_def)
  moreover have "0x80 OR opcode_value binaryFrame = 0x82" by simp
  ultimately show ?thesis
    using assms sz c num lpl
    by (cases "unat n < 126") (simp_all add: sendWebSocketBuff_def Let_def bufferevent_write_def length_mem_put)
qed

lemma net_bytes_4: "unat n = unat (n :: u32) \<Longrightarrow> le_nat (rev (net_bytes 4 (unat n))) = unat n"
  using unat_less_32 [of n] by (intro le_nat_net_bytes) simp

lemma web_send_long_length:
  assumes "s_flag s = isWebSocket" and "s_bev s = Some b" and "unat n \<le> length buf"
    and "65536 \<le> unat n" and "unat n + 16 < 2 ^ 32"
  shows "\<exists>w. sendWebSocketBuff False buf n s
      = (Inr (True, n + 10), s\<lparr>s_bev := Some (b\<lparr>bev_output := bev_output b @ w\<rparr>)\<rparr>)
    \<and> take 2 w = [0x82, 127] \<and> le_nat (rev (take 8 (drop 2 w))) = unat n * 2 ^ 32
    \<and> drop 10 w = take (unat n) buf"
proof -
  let ?pl = "take (unat n) buf"
  let ?hd = "0x82 # 127 # exlen_bytes False n"
  let ?m = "mem_put 10 ?pl (mem_put 0 ?hd (replicate (unat (fixSize (n + 16))) 0))"
  have num: "unat (n + 10) = unat n + 10" "unat (n + 16) = unat n + 16"
    using assms(5) by (simp_all add: unat_word_ariths)
  then have sz: "unat n + 16 \<le> unat (fixSize (n + 16))"
    using fixSize_ge [of "n + 16"] by (simp add: word_le_nat_alt)
  have c: "n \<ge> 65536" using assms(4) by (simp add: word_le_nat_alt)
  have lh: "length ?hd = 10" by (simp add: exlen_bytes_def)
  have lr: "length (replicate (unat (fixSize (n + 16))) (0 :: byte)) = unat (fixSize (n + 16))" by simp
  have w: "take (unat n + 10) ?m = ?hd @ ?pl"
  proof -
    let ?xs = "mem_put 0 ?hd (replicate (unat (fixSize (n + 16))) 0)"
    have xs: "length ?pl = unat n" "unat n + 10 \<le> length ?xs" "take 10 ?xs = ?hd"
      using sz assms(3) lh by (simp_all add: mem_put_zero)
    have "take (unat n + 10) ?m = take 10 ?xs @ ?pl"
      by (rule take_mem_put_end) (use xs(1,2) in linarith)+
    then show ?thesis unfolding xs(3) .
  qed
  have run: "sendWebSocketBuff False buf n s
    = (Inr (True, n + 10), s\<lparr>s_bev := Some (b\<lparr>bev_output := bev_output b @ (?hd @ ?pl)\<rparr>)\<rparr>)"
    using assms(1-3) c num sz w lh
    by (simp add: sendWebSocketBuff_def Let_def bufferevent_write_def length_mem_put)
  have z: "le_nat (le_bytes 4 0) = 0" by (simp add: le_nat_le_bytes)
  have app: "le_nat (xs @ ys) = le_nat xs + 256 ^ length xs * le_nat ys" for xs ys
    by (induction xs) (simp_all add: algebra_simps)
  have "le_nat (rev (exlen_bytes False n)) = unat n * 2 ^ 32"
    using net_bytes_4 [of n] z by (simp add: exlen_bytes_def app le_bytes_numeral)
  moreover have "length (exlen_bytes False n) = 8" by (simp add: exlen_bytes_def)
  ultimately show ?thesis
    by (intro exI [of _ "?hd @ ?pl"] conjI run) simp_all
qed

text \<open>
  C12: What the server sends over a WebSocket connection, up to 65535 bytes, is one final binary frame that a client
  following RFC 6455 decodes to exactly the bytes handed to \<open>toSend\<close>, and nothing of what
  follows on the wire. For 65536 bytes and more (up to four gigabytes less the 16 bytes the size computation adds) the length field, built with the 32-bit
  \<open>htonl\<close> on a little-endian host, announces the length shifted by 32 bits, so that the client
  never sees the frame end: whatever follows, it decodes nothing before that many bytes have come.
\<close>

theorem web_send_frame:
  assumes "s_status s = connected" and "s_flag s = isWebSocket" and "s_bev s = Some b"
    and "unat n \<le> length buf" and "unat n < 65536 \<or> \<not> hb \<and> unat n + 16 < 2 ^ 32"
  shows "\<exists>w. s_toSend hb buf n s = (Inr 1, s\<lparr>s_bev := Some (b\<lparr>bev_output := bev_output b @ w\<rparr>)\<rparr>)
    \<and> (unat n < 65536 \<longrightarrow> ws_decode (w @ rest) = Some (opcode_value binaryFrame, take (unat n) buf, rest))
    \<and> (65536 \<le> unat n \<longrightarrow> unat n + length rest < unat n * 2 ^ 32 \<longrightarrow> ws_decode (w @ rest) = None)"
proof (cases "unat n < 65536")
  case True
  then show ?thesis
    using assms(1-4) sendWebSocketBuff_frame [OF assms(2-4) True] ws_decode_server_frame [of "take (unat n) buf" rest]
    by (intro exI [of _ "server_frame (take (unat n) buf)"]) (simp add: s_toSend_def)
next
  case False
  then have hb: "hb = False" and big: "65536 \<le> unat n" "unat n + 16 < 2 ^ 32" using assms(5) by auto
  obtain w where w: "sendWebSocketBuff False buf n s
      = (Inr (True, n + 10), s\<lparr>s_bev := Some (b\<lparr>bev_output := bev_output b @ w\<rparr>)\<rparr>)"
    "take 2 w = [0x82, 127]" "le_nat (rev (take 8 (drop 2 w))) = unat n * 2 ^ 32" "drop 10 w = take (unat n) buf"
    using web_send_long_length [OF assms(2-4) big] by blast
  have send: "s_toSend hb buf n s = (Inr 1, s\<lparr>s_bev := Some (b\<lparr>bev_output := bev_output b @ w\<rparr>)\<rparr>)"
    using assms(1,2) w(1) by (simp add: s_toSend_def hb)
  have none: "ws_decode (w @ rest) = None" if "unat n + length rest < unat n * 2 ^ 32"
  proof -
    have wl: "w = 0x82 # 127 # drop 2 w" using w(2) by (metis append_Cons append_Nil append_take_drop_id)
    have l: "length (drop 10 w) = unat n" using w(4) assms(4) by simp
    then have "8 \<le> length (drop 2 w)" using big by simp
    moreover from this have "drop 8 (drop 2 w @ rest) = take (unat n) buf @ rest"
      "take 8 (drop 2 w @ rest) = take 8 (drop 2 w)" using w(4) by simp_all
    ultimately show ?thesis
      using that w(3) assms(4) by (subst wl) (simp add: ws_payload_def)
  qed
  then show ?thesis using send False by (intro exI [of _ w]) simp
qed

theorem web_send_frame_witness:
  "(\<exists>w. s_toSend False [1, 2, 3] 2 (web_demo []) = (Inr 1, (web_demo [])\<lparr>s_bev := Some \<lparr>bev_input = [], bev_output = w\<rparr>\<rparr>)
     \<and> ws_decode (w @ [7]) = Some (2, [1, 2], [7])) \<and>
   (\<exists>w. s_toSend False (replicate 65536 1) 65536 (web_demo []) = (Inr 1, (web_demo [])\<lparr>s_bev := Some \<lparr>bev_input = [], bev_output = w\<rparr>\<rparr>)
     \<and> ws_decode (w @ [7]) = None)"
proof -
  have s: "s_status (web_demo []) = connected" "s_flag (web_demo []) = isWebSocket"
    "s_bev (web_demo []) = Some \<lparr>bev_input = [], bev_output = []\<rparr>"
    by (simp_all add: web_demo_def ServerIOSocket_new_def)
  from web_send_frame [OF s, of 2 "[1, 2, 3]" False "[7]"] web_send_frame [OF s, of 65536 "replicate 65536 1" False "[7]"]
  show ?thesis by simp
qed

section \<open>The send buffer\<close>

definition s_queued :: "ServerIOSocket \<Rightarrow> byte list" where
  "s_queued s = take (unat (s_sendBufLen s)) (s_sendBuf s)"

definition s_wire :: "ServerIOSocket \<Rightarrow> byte list" where
  "s_wire s = (case s_bev s of None \<Rightarrow> [] | Some b \<Rightarrow> bev_output b)"

text \<open>A connected socket of kind \<open>f\<close> with room for \<open>k\<close> bytes.\<close>

definition s_send_inv :: "eWebSocketFlag \<Rightarrow> nat \<Rightarrow> ServerIOSocket \<Rightarrow> bool" where
  "s_send_inv f k s \<longleftrightarrow> s_status s = connected \<and> s_flag s = f \<and> s_bev s \<noteq> None
     \<and> length (s_sendBuf s) = 8192 \<and> unat (s_sendBufLen s) < k"

definition s_expand :: "byte list \<Rightarrow> ServerIOSocket \<Rightarrow> bool \<times> ServerIOSocket" where
  "s_expand p s = (case s_expandSendBuf p (of_nat (length p)) s of (r, s') \<Rightarrow> (r = Inr True, s'))"

definition s_consume :: "bool \<Rightarrow> ServerIOSocket \<Rightarrow> ServerIOSocket" where
  "s_consume hb s = snd (s_consumeSendBuf hb s)"

lemma length_s_queued: "s_send_inv f k s \<Longrightarrow> k \<le> 8192 \<Longrightarrow> length (s_queued s) = unat (s_sendBufLen s)"
  by (simp add: s_send_inv_def s_queued_def)

lemma s_expand_spec:
  assumes inv: "s_send_inv f k s" and len: "length p < 2 ^ 31"
    and k: "k = (if f = isWebSocket then 8182 else 8192)"
  shows "s_expandSendBuf p (of_nat (length p)) s =
    (if length (s_queued s) + length p < k
     then (Inr True, s\<lparr>s_sendBuf := mem_put (unat (s_sendBufLen s)) p (s_sendBuf s),
                       s_sendBufLen := s_sendBufLen s + of_nat (length p)\<rparr>)
     else (Inr False, s))"
proof -
  have s: "unat (s_sendBufLen s) < k" "length (s_sendBuf s) = 8192" "s_flag s = f"
    using inv by (simp_all add: s_send_inv_def)
  have k8: "k \<le> 8192" using k by (simp split: if_splits)
  note lq = length_s_queued [OF inv k8]
  have n: "unat (of_nat (length p) :: u32) = length p" using len by (simp add: unat_of_nat)
  have "unat (s_sendBufLen s) < 2 ^ 31" using s(1) k8 by simp
  from unat_sum_small [OF len this]
  have sum: "unat (of_nat (length p) + s_sendBufLen s) = length p + unat (s_sendBufLen s)" .
  have "MAX_BUFFER_SIZE \<le> of_nat (length p) + s_sendBufLen s + (if f = isWebSocket then 10 else 0)
    \<longleftrightarrow> \<not> length (s_queued s) + length p < k"
    using sum k lq len s(1) by (auto simp: word_le_nat_alt unat_word_ariths)
  then show ?thesis using s n lq k8 by (simp add: s_expandSendBuf_def Let_def)
qed

definition s_frame :: "eWebSocketFlag \<Rightarrow> byte list \<Rightarrow> byte list" where
  "s_frame f bs = (if f = isWebSocket then server_frame bs else bs)"

lemma s_toSend_frame:
  assumes "s_send_inv f k s" and "k \<le> 8192" and "s_bev s = Some b"
  shows "\<exists>r. s_toSend hb (s_sendBuf s) (s_sendBufLen s) s =
    (Inr r, s\<lparr>s_bev := Some (b\<lparr>bev_output := bev_output b @ s_frame f (s_queued s)\<rparr>)\<rparr>)"
proof -
  have i: "s_status s = connected" "s_flag s = f" "unat (s_sendBufLen s) < 8192" "length (s_sendBuf s) = 8192"
    using assms by (simp_all add: s_send_inv_def)
  show ?thesis
  proof (cases "f = isWebSocket")
    case True
    with i have "sendWebSocketBuff hb (s_sendBuf s) (s_sendBufLen s) s =
      (Inr (True, s_sendBufLen s + of_nat (if unat (s_sendBufLen s) < 126 then 2 else 4)),
       s\<lparr>s_bev := Some (b\<lparr>bev_output := bev_output b @ server_frame (s_queued s)\<rparr>)\<rparr>)"
      unfolding s_queued_def by (intro sendWebSocketBuff_frame assms(3)) simp_all
    with True i show ?thesis by (simp add: s_toSend_def s_frame_def)
  next
    case False
    with i assms(3) show ?thesis
      by (simp add: s_toSend_def bufferevent_write_def s_frame_def s_queued_def)
  qed
qed

lemma s_consume_spec:
  assumes inv: "s_send_inv f k s" and k: "k \<le> 8192"
  obtains b where "s_bev s = Some b" and "s_consumeSendBuf hb s = (Inr True,
    if s_queued s = [] then s
    else s\<lparr>s_bev := Some (b\<lparr>bev_output := bev_output b @ s_frame f (s_queued s)\<rparr>), s_sendBufLen := 0\<rparr>)"
proof -
  from inv obtain b where b: "s_bev s = Some b" by (auto simp: s_send_inv_def)
  have "s_queued s = [] \<longleftrightarrow> \<not> s_sendBufLen s > 0"
    using length_s_queued [OF inv k] by (metis length_0_conv unat_eq_zero word_gt_0)
  moreover obtain r where "s_toSend hb (s_sendBuf s) (s_sendBufLen s) s =
    (Inr r, s\<lparr>s_bev := Some (b\<lparr>bev_output := bev_output b @ s_frame f (s_queued s)\<rparr>)\<rparr>)"
    using s_toSend_frame [OF inv k b] by blast
  ultimately have "s_consumeSendBuf hb s = (Inr True,
    if s_queued s = [] then s
    else s\<lparr>s_bev := Some (b\<lparr>bev_output := bev_output b @ s_frame f (s_queued s)\<rparr>), s_sendBufLen := 0\<rparr>)"
    by (simp add: s_consumeSendBuf_def s_hadSendBufData_def)
  with b show ?thesis by (rule that)
qed

lemma s_expand_law:
  assumes inv: "s_send_inv f k s" and len: "length p < 2 ^ 31" and ex: "s_expand p s = (b, s')"
    and k: "k = (if f = isWebSocket then 8182 else 8192)"
  shows "s_send_inv f k s' \<and> s_wire s' = s_wire s \<and> b = (length (s_queued s) + length p < k)
    \<and> s_queued s' = (if b then s_queued s @ p else s_queued s)"
proof (cases "length (s_queued s) + length p < k")
  case True
  have k8: "k \<le> 8192" using k by (simp split: if_splits)
  have s: "unat (s_sendBufLen s) < k" "length (s_sendBuf s) = 8192"
    using inv by (simp_all add: s_send_inv_def)
  have "unat (s_sendBufLen s) < 2 ^ 31" using s(1) k8 by simp
  from unat_sum_small [OF len this]
  have n: "unat (s_sendBufLen s + of_nat (length p)) = unat (s_sendBufLen s) + length p"
    by (simp add: add.commute)
  from True s_expand_spec [OF inv len k] ex n s k8 inv length_s_queued [OF inv k8] show ?thesis
    by (auto simp: s_expand_def s_send_inv_def s_wire_def s_queued_def mem_simps)
next
  case False
  with s_expand_spec [OF inv len k] ex inv show ?thesis by (simp add: s_expand_def)
qed

lemma s_consume_law:
  assumes inv: "s_send_inv f k s" and k: "0 < k" "k \<le> 8192"
  shows "s_send_inv f k (s_consume hb s) \<and> s_queued (s_consume hb s) = []
    \<and> s_wire (s_consume hb s) = s_wire s @ (if s_queued s = [] then [] else s_frame f (s_queued s))"
proof -
  obtain b where b: "s_bev s = Some b" and c: "s_consumeSendBuf hb s = (Inr True,
    if s_queued s = [] then s
    else s\<lparr>s_bev := Some (b\<lparr>bev_output := bev_output b @ s_frame f (s_queued s)\<rparr>), s_sendBufLen := 0\<rparr>)"
    using s_consume_spec [OF inv k(2)] by metis
  have "s_consume hb s = (if s_queued s = [] then s
    else s\<lparr>s_bev := Some (b\<lparr>bev_output := bev_output b @ s_frame f (s_queued s)\<rparr>), s_sendBufLen := 0\<rparr>)"
    by (simp add: s_consume_def c)
  then show ?thesis using inv b k by (auto simp: s_send_inv_def s_queued_def s_wire_def)
qed

lemma s_consume_idle:
  assumes "s_send_inv f k s" and "k \<le> 8192" and "s_queued s = []"
  shows "s_consume hb s = s"
  by (rule s_consume_spec [OF assms(1,2), of hb]) (simp add: s_consume_def assms(3))

text \<open>The room a connection of kind \<open>f\<close> has for unsent bytes.\<close>

definition s_limit :: "eWebSocketFlag \<Rightarrow> nat" where
  "s_limit f = (if f = isWebSocket then 8182 else 8192)"

interpretation s_io: send_batching s_expand "s_consume hb" s_queued s_wire "s_frame f" "s_limit f"
    "s_send_inv f (s_limit f)" for hb f
  by unfold_locales (simp_all add: s_expand_law s_consume_law s_consume_idle s_limit_def)

section \<open>The handshake\<close>

lemma take_net_bytes [simp]: "net_bytes k n \<noteq> [] \<longleftrightarrow> k \<noteq> 0"
  by (metis length_0_conv length_net_bytes)

lemma accept_key_spec:
  assumes "length blk = 64" and "0 \<notin> set k" and "length k < 2 ^ 32"
  shows "accept_key blk k = Some (encoded (concat (map (\<lambda>w. net_bytes 4 (unat w)) (sha1 k))))"
proof -
  let ?s0 = "\<lparr>H = replicate 5 0, Length_Low = 0, Length_High = 0, Message_Block = blk,
    Message_Block_Index = 0, Computed = False, Corrupted = False\<rparr>"
  obtain s where p: "put_string (k @ [0]) (Reset ?s0) = Some s" and r: "fst (Result s) = Some (sha1 k)"
    using sha1_string [of ?s0 k "[]"] assms by auto
  let ?bs = "concat (map (\<lambda>w. net_bytes 4 (unat w)) (sha1 k))"
  have ne: "?bs \<noteq> []" using length_sha1 [of k] by (cases "sha1 k") simp_all
  have len: "length ?bs = 20" by (simp add: length_concat comp_def sum_list_triv length_sha1)
  have "length (encoded ?bs) = 28" by (simp add: length_encoded len)
  then have "EncodeBase64 (Some ?bs) 20 = Inr (28, encoded ?bs @ [0])"
    using encode_spec [OF ne] sint_small [of 28] by (simp add: len)
  moreover have "take (nat 28) (encoded ?bs @ [0]) = encoded ?bs" by (simp add: length_encoded len)
  ultimately have "(case EncodeBase64 (Some ?bs) 20 of Inl f \<Rightarrow> None | Inr (n, out) \<Rightarrow> Some (take (nat n) out)) = Some (encoded ?bs)"
    by simp
  then show ?thesis using p r by (simp add: accept_key_def)
qed

text \<open>A fresh connection that has received \<open>req\<close>.\<close>

definition fresh :: "byte list \<Rightarrow> ServerIOSocket" where
  "fresh req = (ServerIOSocket_new 7 \<lparr>bev_input = req, bev_output = []\<rparr>)\<lparr>s_status := connected\<rparr>"

text \<open>
  The handshake. If the first read of a connection is a request without NUL bytes that
  contains \<open>GET\<close> and a 24-character key after its first \<open>Sec-WebSocket-Key\<close>, the server
  answers 101 with the base64 form of the SHA-1 digest of the key and the protocol's GUID, as
  RFC 6455 requires, switches the connection to WebSocket mode, passes nothing up and keeps no
  byte of the request.
\<close>

theorem web_handshake:
  assumes "length blk = 64" and "length req < 8192" and "0 \<notin> set req"
    and "find_sub (ascii ''GET'') req \<noteq> None" and "find_sub (ascii ''Sec-WebSocket-Key'') req = Some p"
    and "k = mem_get (p + 19) 24 req" and "p + 43 \<le> length req"
    and "answer = switching_protocols
      (encoded (concat (map (\<lambda>w. net_bytes 4 (unat w)) (sha1 (k @ ws_guid)))))"
  shows "\<exists>s'. s_recv hb blk (fresh req) = (Some (Inr (- 3, [])), s') \<and> s_flag s' = isWebSocket
    \<and> s_wire s' = answer \<and> s_pending s' = [] \<and> s_status s' = connected
    \<and> s_tmpBuf s' = Some (replicate 4096 0)"
proof -
  let ?buf = "mem_put 0 req (replicate 8192 0)"
  let ?s = "(fresh req)\<lparr>s_bev := Some \<lparr>bev_input = [], bev_output = []\<rparr>, s_recvBuf := ?buf\<rparr>"
  have buf: "?buf = req @ 0 # replicate (8191 - length req) 0" "length ?buf = 8192"
  proof -
    have "8192 - length req = Suc (8191 - length req)" using assms(2) by simp
    then show "?buf = req @ 0 # replicate (8191 - length req) 0"
      using assms(2) by (simp add: mem_put_zero drop_replicate)
  qed (use assms(2) in \<open>simp add: length_mem_put\<close>)
  have tw: "takeWhile (\<lambda>c. c \<noteq> 0) ?buf = req"
    unfolding buf using assms(3) by (subst takeWhile_append2) auto
  obtain g where get: "strstr ?buf (ascii ''GET'') = Inr (Some g)"
    and key: "strstr ?buf (ascii ''Sec-WebSocket-Key'') = Inr (Some p)"
    using assms(4,5) tw by (auto simp: strstr_def)
  have k: "mem_get (p + 19) 24 ?buf = k" unfolding buf mem_get_def assms(6) using assms(7) by simp
  have kset: "0 \<notin> set k" unfolding assms(6) mem_get_def using assms(3) by (meson in_set_dropD in_set_takeD)
  then have req: "takeWhile (\<lambda>c. c \<noteq> 0) k = k" by (simp add: takeWhile_eq_all_conv) metis
  have ak: "accept_key blk (k @ ws_guid)
      = Some (encoded (concat (map (\<lambda>w. net_bytes 4 (unat w)) (sha1 (k @ ws_guid)))))"
  proof (rule accept_key_spec [OF assms(1)])
    show "0 \<notin> set (k @ ws_guid)" using kset by (simp add: ws_guid_def ascii_def)
    show "length (k @ ws_guid) < 2 ^ 32" unfolding assms(6) by (simp add: mem_get_def ws_guid_def ascii_def)
  qed
  have la: "unat (of_nat (length answer) :: u32) = length answer"
    unfolding assms(8) by (subst unat_of_nat) (simp add: switching_protocols_def crlf_def ascii_def
        length_encoded length_concat comp_def sum_list_triv length_sha1)
  have hs: "doWebSocketHandShake hb blk ?buf ?s = (Inr True, ?s\<lparr>s_bev := Some \<lparr>bev_input = [], bev_output = answer\<rparr>\<rparr>)"
    unfolding doWebSocketHandShake_def using buf(2) assms(2,7) la
    by (simp add: key k req ak Let_def assms(8) [symmetric] s_toSend_def fresh_def ServerIOSocket_new_def bufferevent_write_def)
  have "doWebSocket hb blk ?buf ?s = (Inr False, ?s\<lparr>s_bev := Some \<lparr>bev_input = [], bev_output = answer\<rparr>,
    s_flag := isWebSocket, s_tmpBuf := Some (replicate 4096 0)\<rparr>)"
    using get hs by (simp add: doWebSocket_def fresh_def ServerIOSocket_new_def)
  moreover have "s_recv hb blk (fresh req) = (case doWebSocket hb blk ?buf ?s of
      (Inl f, s) \<Rightarrow> (Some (Inl f), s)
    | (Inr False, s) \<Rightarrow> (Some (Inr (- 3, [])), s)
    | (Inr True, s) \<Rightarrow> s_received hb (of_nat (length req)) s)"
    using assms(2) by (simp add: s_recv_def fresh_def ServerIOSocket_new_def bufferevent_read_def Let_def)
  ultimately show ?thesis
    by (simp add: s_wire_def s_pending_def fresh_def ServerIOSocket_new_def)
qed

definition handshake_demo :: "byte list" where
  "handshake_demo = ascii ''GET / Sec-WebSocket-Key: dGhlIHNhbXBsZSBub25jZQ==''"

theorem web_handshake_witness:
  "\<exists>s'. s_recv False (replicate 64 0) (fresh handshake_demo) = (Some (Inr (- 3, [])), s') \<and> s_flag s' = isWebSocket
     \<and> s_wire s' = switching_protocols (encoded (concat (map (\<lambda>w. net_bytes 4 (unat w))
         (sha1 (ascii ''dGhlIHNhbXBsZSBub25jZQ=='' @ ws_guid)))))"
proof -
  have l: "length handshake_demo = 49" by (simp add: handshake_demo_def ascii_def)
  have z: "0 \<notin> set handshake_demo" by code_simp
  have g: "find_sub (ascii ''GET'') handshake_demo \<noteq> None" by code_simp
  have w: "find_sub (ascii ''Sec-WebSocket-Key'') handshake_demo = Some 6" by code_simp
  have k: "ascii ''dGhlIHNhbXBsZSBub25jZQ=='' = mem_get (6 + 19) 24 handshake_demo"
    by (simp add: handshake_demo_def ascii_def mem_get_def)
  from web_handshake [OF _ _ z g w k _ refl, of "replicate 64 0" False] l show ?thesis by auto
qed

end
