(* ===== verification/ServerThread.thy ===== *)
theory ServerThread
  imports ServerWeb
begin

text \<open>
  The I/O thread of the server, \<^verbatim>\<open>libsocket/ServerSocketIOThread.cpp\<close>: its queue of packages
  from the logic thread, the callback that works it off, and the callbacks of the connections.

  Socket objects live in a map from addresses, and an
  address that is not in the map any more is a dangling pointer. The two ends of the wake-up
  pipe are a count of bytes that were written and not read. What the thread tells the logic
  thread is the list \<open>st_up\<close>. Each push and pop holds the queue's lock, so a callback is one
  step here; pushes of other threads that fall into it are as if they came before or after.
\<close>

section \<open>The thread\<close>

record ServerSocketIOThread =
  st_queue :: "threadPackage list"
  st_wakes :: nat
  st_sockets :: "u64 \<rightharpoonup> ServerIOSocket"
  st_up :: "threadPackage list"

text \<open>
  What the thread gets from outside: the host's byte order, the limit \<open>_nPairDealCount\<close>, the
  outcome of \<open>bufferevent_socket_new\<close> on a descriptor, and the address the allocator gives to
  a new socket object.
\<close>

record io_env =
  e_hb :: bool
  e_deal :: int
  e_new_bev :: "u64 \<Rightarrow> bufferevent option"
  e_alloc :: "(u64 \<rightharpoonup> ServerIOSocket) \<Rightarrow> u64"

definition st_push :: "threadPackage \<Rightarrow> ServerSocketIOThread \<Rightarrow> ServerSocketIOThread" where
  "st_push p st = st\<lparr>st_queue := st_queue st @ [p], st_wakes := st_wakes st + 1\<rparr>"

definition st_asynAccept :: "u64 \<Rightarrow> byte list \<Rightarrow> ServerSocketIOThread \<Rightarrow> ServerSocketIOThread" where
  "st_asynAccept fd addr =
     st_push (threadPackage_new\<lparr>p_cmd := cmd_value cmd_accept, p_name := fd, p_buf := Some addr,
       p_len := of_nat (length addr)\<rparr>)"

definition st_asynClose :: "u64 \<Rightarrow> ServerSocketIOThread \<Rightarrow> ServerSocketIOThread" where
  "st_asynClose a = st_push (threadPackage_new\<lparr>p_cmd := cmd_value cmd_close, p_name := a\<rparr>)"

definition st_asynSend :: "u64 \<Rightarrow> byte list \<Rightarrow> u32 \<Rightarrow> ServerSocketIOThread \<Rightarrow> ServerSocketIOThread" where
  "st_asynSend a buf n =
     st_push (threadPackage_new\<lparr>p_cmd := cmd_value cmd_send_buf, p_name := a, p_buf := Some buf, p_len := n\<rparr>)"

section \<open>Working off the queue\<close>

text \<open>The branches of \<open>pairCallback\<close>; their value is what is appended to \<open>needSendList\<close>.\<close>

type_synonym st_op = "ServerSocketIOThread \<Rightarrow> (fault + u64 list) \<times> ServerSocketIOThread"

definition st_accept :: "io_env \<Rightarrow> threadPackage \<Rightarrow> st_op" where
  "st_accept env p st =
     (case e_new_bev env (p_name p) of
        None \<Rightarrow> (Inr [], st)
      | Some bev \<Rightarrow>
          if length (pack_bytes p) < sizeof_sockaddr then (Inl OutOfBounds, st)
          else let a = e_alloc env (st_sockets st);
              s = ServerIOSocket_new (p_name p) bev
          in (Inr [], st\<lparr>st_up := st_up st @ [up_accept a],
                         st_sockets := (st_sockets st)(a \<mapsto> s\<lparr>s_status := connected\<rparr>)\<rparr>))"

definition st_send :: "io_env \<Rightarrow> threadPackage \<Rightarrow> st_op" where
  "st_send env p st =
     (let a = p_name p in
      if a = 0 then (Inr [], st)
      else case st_sockets st a of
        None \<Rightarrow> (Inl UseAfterFree, st)
      | Some s \<Rightarrow>
          let put = (\<lambda>s. st\<lparr>st_sockets := (st_sockets st)(a \<mapsto> s)\<rparr>)
          in (case s_expandSendBuf (pack_bytes p) (p_len p) s of
                (Inl f, s) \<Rightarrow> (Inl f, put s)
              | (Inr True, s) \<Rightarrow> (Inr [a], put s)
              | (Inr False, s) \<Rightarrow>
                  (case s_consumeSendBuf (e_hb env) s of
                     (Inl f, s) \<Rightarrow> (Inl f, put s)
                   | (Inr _, s) \<Rightarrow>
                       (case s_expandSendBuf (pack_bytes p) (p_len p) s of
                          (Inl f, s) \<Rightarrow> (Inl f, put s)
                        | (Inr _, s) \<Rightarrow> (Inr [], put s)))))"

definition st_close :: "threadPackage \<Rightarrow> st_op" where
  "st_close p st =
     (let a = p_name p in
      if a = 0 then (Inr [], st)
      else case st_sockets st a of
        None \<Rightarrow> (Inl UseAfterFree, st)
      | Some s \<Rightarrow> let (_, s) = s_toClose s in (Inr [], st\<lparr>st_sockets := (st_sockets st)(a := None)\<rparr>))"

definition st_step :: "io_env \<Rightarrow> threadPackage \<Rightarrow> st_op" where
  "st_step env p st =
     (if p_cmd p = cmd_value cmd_accept then st_accept env p st
      else if p_cmd p = cmd_value cmd_send_buf then st_send env p st
      else if p_cmd p = cmd_value cmd_close then st_close p st
      else (Inr [], st))"

text \<open>The loop: \<open>k\<close> is \<open>dealCount\<close> before the test, the list the queue.\<close>

fun st_loop :: "io_env \<Rightarrow> int \<Rightarrow> threadPackage list \<Rightarrow> u64 list \<Rightarrow> st_op" where
  "st_loop env k [] need st = (Inr need, st\<lparr>st_queue := []\<rparr>)"
| "st_loop env k (p # ps) need st =
     (if k \<le> e_deal env then
        (case st_step env p (st\<lparr>st_queue := ps\<rparr>) of
           (Inl f, st) \<Rightarrow> (Inl f, st)
         | (Inr xs, st) \<Rightarrow> st_loop env (k + 1) ps (need @ xs) st)
      else (Inr need, st\<lparr>st_queue := p # ps\<rparr>))"

fun st_flush :: "bool \<Rightarrow> u64 list \<Rightarrow> ServerSocketIOThread \<Rightarrow> (fault + unit) \<times> ServerSocketIOThread" where
  "st_flush hb [] st = (Inr (), st)"
| "st_flush hb (a # as) st =
     (if a = 0 then st_flush hb as st
      else case st_sockets st a of
        None \<Rightarrow> (Inl UseAfterFree, st)
      | Some s \<Rightarrow>
          if s_hadSendBufData s then
            (case s_consumeSendBuf hb s of
               (Inl f, s) \<Rightarrow> (Inl f, st\<lparr>st_sockets := (st_sockets st)(a \<mapsto> s)\<rparr>)
             | (Inr _, s) \<Rightarrow> st_flush hb as (st\<lparr>st_sockets := (st_sockets st)(a \<mapsto> s)\<rparr>))
          else st_flush hb as st)"

definition st_pairCallback :: "io_env \<Rightarrow> ServerSocketIOThread \<Rightarrow> (fault + unit) \<times> ServerSocketIOThread" where
  "st_pairCallback env st =
     (let st = st\<lparr>st_wakes := st_wakes st - 16\<rparr>
      in (case st_loop env 0 (st_queue st) [] st of
            (Inl f, st) \<Rightarrow> (Inl f, st)
          | (Inr need, st) \<Rightarrow>
              (case st_flush (e_hb env) need st of
                 (Inl f, st) \<Rightarrow> (Inl f, st)
               | (Inr _, st) \<Rightarrow>
                   (Inr (), if st_queue st \<noteq> [] then st\<lparr>st_wakes := st_wakes st + 1\<rparr> else st))))"

section \<open>Connection callbacks\<close>

definition st_readCallback ::
  "io_env \<Rightarrow> byte list \<Rightarrow> u64 \<Rightarrow> ServerSocketIOThread \<Rightarrow> (fault + int) option \<times> ServerSocketIOThread" where
  "st_readCallback env blk a st =
     (case st_sockets st a of
        None \<Rightarrow> (Some (Inl (if a = 0 then NullDeref else UseAfterFree)), st)
      | Some s \<Rightarrow>
          (case s_recv (e_hb env) blk s of
             (None, s) \<Rightarrow> (None, st\<lparr>st_sockets := (st_sockets st)(a \<mapsto> s)\<rparr>)
           | (Some (Inl f), s) \<Rightarrow> (Some (Inl f), st\<lparr>st_sockets := (st_sockets st)(a \<mapsto> s)\<rparr>)
           | (Some (Inr (r, ps)), s) \<Rightarrow>
               (Some (Inr r), st\<lparr>st_sockets := (st_sockets st)(a \<mapsto> s), st_up := st_up st @ map (up_recive a) ps\<rparr>)))"

definition st_eventCallback :: "u64 \<Rightarrow> ServerSocketIOThread \<Rightarrow> (fault + unit) \<times> ServerSocketIOThread" where
  "st_eventCallback a st =
     (if a = 0 then (Inr (), st)
      else case st_sockets st a of
        None \<Rightarrow> (Inl UseAfterFree, st)
      | Some s \<Rightarrow> (Inr (), st\<lparr>st_up := st_up st @ [up_close a]\<rparr>))"

section \<open>Rounds of sends\<close>

text \<open>
  A batch of send packages runs as the batching contract of the sockets says. \<open>ready\<close> is the
  contract's invariant for a connection of either kind.
\<close>

definition ready :: "ServerIOSocket \<Rightarrow> bool" where
  "ready s \<longleftrightarrow> s_send_inv (s_flag s) (s_limit (s_flag s)) s"

definition all_ready :: "(u64 \<rightharpoonup> ServerIOSocket) \<Rightarrow> bool" where
  "all_ready m \<longleftrightarrow> (\<forall>a s. m a = Some s \<longrightarrow> ready s)"

definition send_pack :: "(u64 \<rightharpoonup> ServerIOSocket) \<Rightarrow> threadPackage \<Rightarrow> bool" where
  "send_pack m p \<longleftrightarrow> p_cmd p = cmd_value cmd_send_buf \<and> p_name p \<noteq> 0 \<and> m (p_name p) \<noteq> None
     \<and> p_len p = of_nat (length (pack_bytes p)) \<and> length (pack_bytes p) < 2 ^ 31"

abbreviation srv_batch :: "bool \<Rightarrow> u64 \<times> byte list \<Rightarrow> (u64 \<rightharpoonup> ServerIOSocket) \<times> u64 list \<Rightarrow> (u64 \<rightharpoonup> ServerIOSocket) \<times> u64 list" where
  "srv_batch hb \<equiv> send_batching.batch_one s_expand (s_consume hb)"

abbreviation srv_flush :: "bool \<Rightarrow> u64 list \<Rightarrow> (u64 \<rightharpoonup> ServerIOSocket) \<Rightarrow> (u64 \<rightharpoonup> ServerIOSocket)" where
  "srv_flush hb \<equiv> send_batching.flush (s_consume hb)"

definition send_of :: "threadPackage \<Rightarrow> u64 \<times> byte list" where
  "send_of p = (p_name p, pack_bytes p)"

lemma s_limit_le: "s_limit f \<le> 8192" "0 < s_limit f"
  by (simp_all add: s_limit_def)

lemma s_send_inv_flag: "s_send_inv f k s \<Longrightarrow> s_flag s = f"
  by (simp add: s_send_inv_def)

lemma s_expandSendBuf_pure:
  assumes "s_send_inv f (s_limit f) s" and "length p < 2 ^ 31"
  shows "s_expandSendBuf p (of_nat (length p)) s = (Inr (fst (s_expand p s)), snd (s_expand p s))"
  using s_expand_spec [OF assms] by (simp add: s_expand_def s_limit_def)

lemma s_consumeSendBuf_pure:
  assumes "s_send_inv f (s_limit f) s"
  shows "s_consumeSendBuf hb s = (Inr True, s_consume hb s)"
  by (rule s_consume_spec [OF assms s_limit_le(1), of hb]) (simp add: s_consume_def)

lemma srv_batch_need: "srv_batch hb ap (m, need) = (fst (srv_batch hb ap (m, [])), need @ snd (srv_batch hb ap (m, [])))"
  by (simp add: s_io.batch_one_def split: prod.split option.split bool.split)

lemma srv_batch_dom: "dom (fst (srv_batch hb ap (m, need))) = dom m
    \<and> set (snd (srv_batch hb ap (m, need))) \<subseteq> insert (fst ap) (set need)"
  by (auto simp: s_io.batch_one_def split: prod.splits option.splits bool.splits)

lemma srv_batch_ready:
  assumes "all_ready m" and "length (snd ap) < 2 ^ 31"
  shows "all_ready (fst (srv_batch hb ap (m, need)))"
  unfolding all_ready_def
proof (intro allI impI)
  fix a s'
  assume s': "fst (srv_batch hb ap (m, need)) a = Some s'"
  obtain b p where ap: "ap = (b, p)" by fastforce
  show "ready s'"
  proof (cases "b = a")
    case False
    with s' s_io.batch_one_other [OF False, of hb p m need] assms(1) ap show ?thesis
      by (simp add: all_ready_def)
  next
    case True
    from s' srv_batch_dom [of hb ap m need] have "a \<in> dom m" by blast
    then obtain s where s: "m a = Some s" by auto
    then have i: "s_send_inv (s_flag s) (s_limit (s_flag s)) s"
      using assms(1) by (simp add: all_ready_def ready_def)
    obtain c s1 where 1: "s_expand p s = (c, s1)" by fastforce
    have "s' = s_io.send_one hb p s"
      using s' s True ap 1 by (cases c) (simp_all add: s_io.batch_one_def s_io.send_one_def)
    then have "s_send_inv (s_flag s) (s_limit (s_flag s)) s'"
      using s_io.send_one_spec [OF i, of p hb] assms(2) ap by simp
    then show ?thesis using s_send_inv_flag unfolding ready_def by metis
  qed
qed

lemma st_send_batch:
  assumes "all_ready (st_sockets st)" and "send_pack (st_sockets st) p"
  shows "st_step env p st = (Inr (snd (srv_batch (e_hb env) (send_of p) (st_sockets st, []))),
    st\<lparr>st_sockets := fst (srv_batch (e_hb env) (send_of p) (st_sockets st, []))\<rparr>)"
proof -
  let ?a = "p_name p" and ?bs = "pack_bytes p" and ?hb = "e_hb env"
  obtain s where s: "st_sockets st ?a = Some s" using assms(2) by (auto simp: send_pack_def)
  let ?f = "s_flag s"
  have i: "s_send_inv ?f (s_limit ?f) s" using assms(1) s by (simp add: all_ready_def ready_def)
  have p: "?a \<noteq> 0" "p_len p = of_nat (length ?bs)" "length ?bs < 2 ^ 31"
    and step: "st_step env p st = st_send env p st"
    using assms(2) by (auto simp: send_pack_def st_step_def)
  obtain c s1 where 1: "s_expand ?bs s = (c, s1)" by fastforce
  have i1: "s_send_inv ?f (s_limit ?f) s1" using s_expand_law [OF i p(3) 1] by (simp add: s_limit_def)
  note e = s_expandSendBuf_pure [OF i p(3)] and c1 = s_consumeSendBuf_pure [OF i1, of ?hb]
    and i2 = s_consume_law [OF i1 s_limit_le(2,1), of ?hb, THEN conjunct1]
  note e2 = s_expandSendBuf_pure [OF i2 p(3)]
  show ?thesis
    unfolding step st_send_def p(2)
    using s p(1) 1 e c1 e2 by (cases c) (simp_all add: Let_def send_of_def s_io.batch_one_def)
qed

lemma send_pack_dom: "dom m = dom m' \<Longrightarrow> send_pack m p \<longleftrightarrow> send_pack m' p"
  using domIff [of "p_name p" m] domIff [of "p_name p" m'] by (auto simp: send_pack_def)

lemma st_loop_sends:
  assumes "all_ready (st_sockets st)" and "list_all (send_pack (st_sockets st)) ps"
    and "k + int (length ps) \<le> e_deal env + 1"
    and "fold (srv_batch (e_hb env)) (map send_of ps) (st_sockets st, need) = (m', need')"
  shows "st_loop env k ps need st = (Inr need', st\<lparr>st_queue := [], st_sockets := m'\<rparr>)
    \<and> all_ready m' \<and> dom m' = dom (st_sockets st) \<and> set need' \<subseteq> set need \<union> set (map p_name ps)"
  using assms
proof (induction ps arbitrary: k need st)
  case (Cons p ps)
  let ?hb = "e_hb env" and ?m = "st_sockets st"
  obtain m1 n1 where one: "srv_batch ?hb (send_of p) (?m, []) = (m1, n1)" by fastforce
  have sp: "send_pack ?m p" "length (snd (send_of p)) < 2 ^ 31"
    using Cons.prems(2) by (simp_all add: send_pack_def send_of_def)
  have step: "st_step env p (st\<lparr>st_queue := ps\<rparr>) = (Inr n1, st\<lparr>st_queue := ps, st_sockets := m1\<rparr>)"
    using st_send_batch [of "st\<lparr>st_queue := ps\<rparr>" p env] Cons.prems(1) sp(1) one by simp
  have m1: "all_ready m1" "dom m1 = dom ?m" "set n1 \<subseteq> {p_name p}"
    using srv_batch_ready [OF Cons.prems(1) sp(2), of ?hb "[]"] srv_batch_dom [of ?hb "send_of p" ?m "[]"] one
    by (auto simp: send_of_def)
  have fold: "fold (srv_batch ?hb) (map send_of ps) (m1, need @ n1) = (m', need')"
    using Cons.prems(4) srv_batch_need [of ?hb "send_of p" ?m need] one by simp
  let ?st = "st\<lparr>st_queue := ps, st_sockets := m1\<rparr>"
  have sps: "list_all (send_pack m1) ps"
    using Cons.prems(2) send_pack_dom [OF m1(2)] by (auto simp: list_all_iff)
  have "st_loop env (k + 1) ps (need @ n1) ?st = (Inr need', ?st\<lparr>st_queue := [], st_sockets := m'\<rparr>)
      \<and> all_ready m' \<and> dom m' = dom (st_sockets ?st) \<and> set need' \<subseteq> set (need @ n1) \<union> set (map p_name ps)"
    using Cons.prems(3) m1(1) sps fold by (intro Cons.IH) simp_all
  then show ?case using step Cons.prems(3) m1 by auto
qed simp

lemma st_flush_flush:
  assumes "all_ready (st_sockets st)" and "\<And>a. a \<in> set need \<Longrightarrow> a \<noteq> 0 \<and> a \<in> dom (st_sockets st)"
  shows "st_flush hb need st = (Inr (), st\<lparr>st_sockets := srv_flush hb need (st_sockets st)\<rparr>)"
  using assms
proof (induction need arbitrary: st)
  case (Cons a need)
  let ?m = "st_sockets st"
  obtain s where s: "?m a = Some s" and a: "a \<noteq> 0" using Cons.prems(2) [of a] by auto
  have i: "s_send_inv (s_flag s) (s_limit (s_flag s)) s"
    using Cons.prems(1) s by (simp add: all_ready_def ready_def)
  note law = s_consume_law [OF i s_limit_le(2,1), of hb]
  let ?m1 = "?m(a \<mapsto> s_consume hb s)"
  have r1: "all_ready ?m1"
  proof -
    have "ready (s_consume hb s)" using law s_send_inv_flag unfolding ready_def by metis
    with Cons.prems(1) show ?thesis by (auto simp: all_ready_def)
  qed
  have one: "st_flush hb (a # need) st = st_flush hb need (st\<lparr>st_sockets := ?m1\<rparr>)"
  proof (cases "s_queued s = []")
    case True
    then have "s_consume hb s = s" using s_consume_idle [OF i s_limit_le(1)] by simp
    then have "?m1 = ?m" using s by auto
    moreover have "\<not> s_hadSendBufData s"
      using True length_s_queued [OF i s_limit_le(1)] by (simp add: s_hadSendBufData_def word_less_nat_alt)
    ultimately show ?thesis using s a by simp
  next
    case False
    moreover have "s_hadSendBufData s"
      using False length_s_queued [OF i s_limit_le(1)] length_greater_0_conv [of "s_queued s"]
      by (simp add: s_hadSendBufData_def word_less_nat_alt)
    ultimately show ?thesis using s a s_consumeSendBuf_pure [OF i, of hb] by simp
  qed
  have "st_flush hb need (st\<lparr>st_sockets := ?m1\<rparr>)
      = (Inr (), st\<lparr>st_sockets := ?m1\<rparr>\<lparr>st_sockets := srv_flush hb need (st_sockets (st\<lparr>st_sockets := ?m1\<rparr>))\<rparr>)"
    using r1 Cons.prems(2) by (intro Cons.IH) (auto simp del: fun_upd_apply)
  then show ?case unfolding one using s by (simp add: s_io.flush_def)
qed (simp add: s_io.flush_def)

section \<open>Properties\<close>

text \<open>
  C15: Sends reach the wire. A batch of send packages within the callback's limit, to connections
  that hold nothing unsent, empties the queue without fault; afterwards every connection holds
  nothing unsent, and what was written to it are units (plain bytes, or one WebSocket frame per
  unit) whose contents, put together, are exactly the packages addressed to it in the order
  they were queued, those that are too long for a send buffer left out.
\<close>

theorem server_batch_sends:
  assumes "all_ready (st_sockets st)" and "list_all (send_pack (st_sockets st)) (st_queue st)"
    and "int (length (st_queue st)) \<le> e_deal env + 1"
    and "st_sockets st a = Some s" and "s_queued s = []"
    and "mine = map pack_bytes (filter (\<lambda>p. p_name p = a) (st_queue st))"
  shows "\<exists>st' s' gs. st_pairCallback env st = (Inr (), st') \<and> st_queue st' = []
    \<and> dom (st_sockets st') = dom (st_sockets st)
    \<and> st_sockets st' a = Some s' \<and> s_queued s' = []
    \<and> s_wire s' = s_wire s @ concat (map (s_frame (s_flag s)) gs) \<and> [] \<notin> set gs
    \<and> concat gs = concat (filter (\<lambda>bs. length bs < s_limit (s_flag s)) mine)"
proof -
  let ?hb = "e_hb env" and ?ps = "st_queue st" and ?m = "st_sockets st" and ?f = "s_flag s"
  let ?st = "st\<lparr>st_wakes := st_wakes st - 16\<rparr>"
  obtain m' need where fd: "fold (srv_batch ?hb) (map send_of ?ps) (?m, []) = (m', need)" by fastforce
  have "st_loop env 0 ?ps [] ?st = (Inr need, ?st\<lparr>st_queue := [], st_sockets := m'\<rparr>)
      \<and> all_ready m' \<and> dom m' = dom (st_sockets ?st) \<and> set need \<subseteq> set [] \<union> set (map p_name ?ps)"
    using assms(1-3) fd by (intro st_loop_sends) simp_all
  then have loop: "st_loop env 0 ?ps [] ?st = (Inr need, ?st\<lparr>st_queue := [], st_sockets := m'\<rparr>)"
    and m': "all_ready m'" "dom m' = dom ?m" "set need \<subseteq> p_name ` set ?ps" by auto
  let ?st1 = "?st\<lparr>st_queue := [], st_sockets := m'\<rparr>"
  have live: "b \<noteq> 0 \<and> b \<in> dom m'" if "b \<in> set need" for b
    using that m'(2,3) assms(2) by (auto simp: list_all_iff send_pack_def)
  have flush: "st_flush ?hb need ?st1 = (Inr (), ?st1\<lparr>st_sockets := srv_flush ?hb need m'\<rparr>)"
    using st_flush_flush [of ?st1 need ?hb] m'(1) live by simp
  have i: "s_send_inv ?f (s_limit ?f) s" using assms(1,4) by (simp add: all_ready_def ready_def)
  have len: "list_all (\<lambda>ap. length (snd ap) < 2 ^ 31) (map send_of ?ps)"
    using assms(2) by (auto simp: list_all_iff send_pack_def send_of_def)
  have mine: "map snd (filter (\<lambda>ap. fst ap = a) (map send_of ?ps)) = mine"
    unfolding assms(6) by (simp add: filter_map comp_def send_of_def)
  have at: "srv_flush ?hb need m' a = Some (s_io.send_round ?hb mine s)"
    using s_io.batch_round [of ?m a s ?f "map send_of ?ps" ?hb m' need, OF assms(4) i len assms(5) fd] mine
    by simp
  have "list_all (\<lambda>p. length p < 2 ^ 31) mine"
    unfolding assms(6) using assms(2) by (auto simp: list_all_iff send_pack_def)
  from s_io.send_round_spec [OF i this, of ?hb] assms(5) obtain gs
    where gs: "s_queued (s_io.send_round ?hb mine s) = []"
    "s_wire (s_io.send_round ?hb mine s) = s_wire s @ concat (map (s_frame ?f) gs)" "[] \<notin> set gs"
    "concat gs = concat (filter (s_io.fits ?f) mine)" by auto
  have fits: "s_io.fits ?f = (\<lambda>bs. length bs < s_limit ?f)" by (simp add: fun_eq_iff s_io.fits_def)
  have dom: "dom (srv_flush ?hb need m) = dom m" for m
    unfolding s_io.flush_def by (induction need arbitrary: m) (auto split: option.splits)
  have "st_pairCallback env st = (Inr (), ?st1\<lparr>st_sockets := srv_flush ?hb need m'\<rparr>)"
    using loop flush by (simp add: st_pairCallback_def Let_def)
  with gs at m'(2) dom show ?thesis
    unfolding fits
    by (intro exI [of _ "?st1\<lparr>st_sockets := srv_flush ?hb need m'\<rparr>"]
        exI [of _ "s_io.send_round ?hb mine s"] exI [of _ gs] conjI) simp_all
qed

definition io_demo :: io_env where
  "io_demo = \<lparr>e_hb = False, e_deal = 4, e_new_bev = (\<lambda>fd. Some \<lparr>bev_input = [], bev_output = []\<rparr>), e_alloc = (\<lambda>m. 64)\<rparr>"

definition two_sockets :: "u64 \<rightharpoonup> ServerIOSocket" where
  "two_sockets = [16 \<mapsto> plain_demo, 32 \<mapsto> web_demo []]"

definition sends_demo :: ServerSocketIOThread where
  "sends_demo = st_asynSend 32 [9, 9] 2 (st_asynSend 16 [3] 1 (st_asynSend 16 [1, 2] 2
     \<lparr>st_queue = [], st_wakes = 0, st_sockets = two_sockets, st_up = []\<rparr>))"

theorem server_batch_sends_witness:
  "\<exists>st' s' gs. st_pairCallback io_demo sends_demo = (Inr (), st') \<and> st_sockets st' 32 = Some s'
     \<and> s_wire s' = concat (map server_frame gs) \<and> concat gs = [9, 9]"
proof -
  have l: "length (st_queue sends_demo) = 3" by (simp add: sends_demo_def st_asynSend_def st_push_def)
  have r: "all_ready (st_sockets sends_demo)"
    by (auto simp: all_ready_def ready_def sends_demo_def st_asynSend_def st_push_def two_sockets_def
        plain_demo_def web_demo_def ServerIOSocket_new_def s_send_inv_def s_limit_def split: if_splits)
  have q: "list_all (send_pack (st_sockets sends_demo)) (st_queue sends_demo)"
    by (simp add: send_pack_def sends_demo_def st_asynSend_def st_push_def two_sockets_def threadPackage_new_def pack_bytes_def)
  have s: "st_sockets sends_demo 32 = Some (web_demo [])" "s_queued (web_demo []) = []"
    by (simp_all add: sends_demo_def st_asynSend_def st_push_def two_sockets_def web_demo_def ServerIOSocket_new_def s_queued_def)
  have m: "[[9, 9]] = map pack_bytes (filter (\<lambda>p. p_name p = 32) (st_queue sends_demo))"
    by (simp add: sends_demo_def st_asynSend_def st_push_def threadPackage_new_def pack_bytes_def)
  have w: "s_wire (web_demo []) = []" "s_flag (web_demo []) = isWebSocket"
    by (simp_all add: web_demo_def ServerIOSocket_new_def s_wire_def)
  from server_batch_sends [OF r q _ s m, of io_demo] l w show ?thesis
    by (auto simp: io_demo_def s_frame_def s_limit_def fun_eq_iff cong: map_cong)
qed

text \<open>What a step does to the queue: nothing.\<close>

lemma st_step_queue: "st_queue (snd (st_step env p st)) = st_queue st"
  by (simp add: st_step_def st_accept_def st_send_def st_close_def Let_def
      split: option.split sum.split prod.split bool.split)

lemma st_loop_queue:
  "st_loop env k ps need st = (Inr need', st') \<Longrightarrow> 0 \<le> k \<Longrightarrow> st_queue st' = drop (nat (e_deal env + 1 - k)) ps"
proof (induction env k ps need st arbitrary: need' st' rule: st_loop.induct)
  case (2 env k p ps need st)
  show ?case
  proof (cases "k \<le> e_deal env")
    case True
    obtain r st1 where step: "st_step env p (st\<lparr>st_queue := ps\<rparr>) = (r, st1)" by fastforce
    with 2(2) True obtain xs where r: "r = Inr xs" "st_loop env (k + 1) ps (need @ xs) st1 = (Inr need', st')"
      by (cases r) simp_all
    from 2(1) [OF True step [symmetric] r(1) r(2)] 2(3)
    have "st_queue st' = drop (nat (e_deal env + 1 - (k + 1))) ps" by simp
    moreover have "nat (e_deal env + 1 - k) = Suc (nat (e_deal env + 1 - (k + 1)))" using True by simp
    ultimately show ?thesis by simp
  qed (use 2 in auto)
qed auto

lemma st_flush_queue: "st_queue (snd (st_flush hb as st)) = st_queue st"
  by (induction hb as st rule: st_flush.induct) (simp_all split: option.split sum.split prod.split)

text \<open>
  How far one callback gets: it takes the limit plus one packages off the queue, or all there are (the
  limit is documented as the most a callback handles), and puts a byte into the wake-up pipe if it leaves some.
\<close>

lemma st_pairCallback_queue:
  assumes "st_pairCallback env st = (Inr (), st')"
  shows "st_queue st' = drop (nat (e_deal env + 1)) (st_queue st) \<and> (st_queue st' \<noteq> [] \<longrightarrow> 0 < st_wakes st')"
proof -
  let ?st = "st\<lparr>st_wakes := st_wakes st - 16\<rparr>"
  obtain r st1 where loop: "st_loop env 0 (st_queue st) [] ?st = (r, st1)" by fastforce
  with assms obtain need where r: "r = Inr need" by (cases r) (simp_all add: st_pairCallback_def Let_def)
  obtain q st2 where flush: "st_flush (e_hb env) need st1 = (q, st2)" by fastforce
  have st': "st' = (if st_queue st2 \<noteq> [] then st2\<lparr>st_wakes := st_wakes st2 + 1\<rparr> else st2)"
    using assms loop r flush by (cases q) (auto simp: st_pairCallback_def Let_def split: if_splits)
  have "st_queue st2 = st_queue st1" using st_flush_queue [of "e_hb env" need st1] flush by simp
  moreover have "st_queue st1 = drop (nat (e_deal env + 1)) (st_queue st)"
    using st_loop_queue [OF loop [unfolded r]] by simp
  ultimately show ?thesis unfolding st' by simp
qed

text \<open>The event loop: it calls the callback as long as there is a byte to read, here at most \<open>n\<close> times.\<close>

fun st_wakeups :: "io_env \<Rightarrow> nat \<Rightarrow> ServerSocketIOThread \<Rightarrow> fault + ServerSocketIOThread" where
  "st_wakeups env 0 st = Inr st"
| "st_wakeups env (Suc n) st =
     (if st_wakes st = 0 then Inr st
      else case st_pairCallback env st of (Inl f, _) \<Rightarrow> Inl f | (Inr _, st) \<Rightarrow> st_wakeups env n st)"

lemma st_wakeups_empty:
  "st_wakeups env n st = Inr st' \<Longrightarrow> 0 \<le> e_deal env \<Longrightarrow> length (st_queue st) \<le> n \<Longrightarrow>
    st_queue st \<noteq> [] \<longrightarrow> 0 < st_wakes st \<Longrightarrow> st_queue st' = []"
proof (induction n arbitrary: st)
  case (Suc n)
  show ?case
  proof (cases "st_wakes st = 0")
    case False
    then obtain st1 where cb: "st_pairCallback env st = (Inr (), st1)" "st_wakeups env n st1 = Inr st'"
      using Suc.prems(1) by (auto split: prod.splits sum.splits)
    note one = st_pairCallback_queue [OF cb(1)]
    have "length (st_queue st1) \<le> n" using one Suc.prems(2,3) by simp
    then show ?thesis using Suc.IH [OF cb(2) Suc.prems(2)] one by blast
  qed (use Suc.prems in auto)
qed simp

text \<open>
  C16: No package is forgotten. A callback that returns has taken packages off the head of the queue and left the
  rest in order, at least one if there was any; if it leaves some there is a byte in the wake-up pipe. So, even when
  nobody puts another byte there, as long as no callback faults the queue is empty after at most as many further
  callbacks as packages were left.
\<close>

theorem server_wakeup:
  assumes "st_pairCallback env st = (Inr (), st')" and "0 \<le> e_deal env"
  shows "(\<exists>handled. st_queue st = handled @ st_queue st' \<and> (st_queue st \<noteq> [] \<longrightarrow> handled \<noteq> []))
    \<and> (st_queue st' \<noteq> [] \<longrightarrow> 0 < st_wakes st')
    \<and> (\<forall>st''. st_wakeups env (length (st_queue st')) st' = Inr st'' \<longrightarrow> st_queue st'' = [])"
proof -
  note one = st_pairCallback_queue [OF assms(1)]
  let ?k = "nat (e_deal env + 1)"
  have "st_queue st = take ?k (st_queue st) @ st_queue st'" "st_queue st \<noteq> [] \<longrightarrow> take ?k (st_queue st) \<noteq> []"
    using one assms(2) by simp_all
  then show ?thesis using one st_wakeups_empty [OF _ assms(2)] by (intro conjI exI [of _ "take ?k (st_queue st)"]) auto
qed

definition closes_demo :: ServerSocketIOThread where
  "closes_demo = st_asynClose 32 (st_asynClose 16
     \<lparr>st_queue = [], st_wakes = 0, st_sockets = two_sockets, st_up = []\<rparr>)"

theorem server_wakeup_witness:
  "\<exists>st' st''. st_pairCallback (io_demo\<lparr>e_deal := 0\<rparr>) closes_demo = (Inr (), st') \<and> length (st_queue st') = 1 \<and> 0 < st_wakes st'
     \<and> st_wakeups (io_demo\<lparr>e_deal := 0\<rparr>) 1 st' = Inr st'' \<and> st_queue st'' = []"
proof -
  let ?env = "io_demo\<lparr>e_deal := 0\<rparr>"
  have "\<exists>st' st''. st_pairCallback ?env closes_demo = (Inr (), st') \<and> length (st_queue st') = 1 \<and> st_wakeups ?env 1 st' = Inr st''"
    by (simp add: st_pairCallback_def closes_demo_def st_asynClose_def st_push_def threadPackage_new_def io_demo_def
        st_step_def st_close_def two_sockets_def s_toClose_def)
  then obtain st' st'' where st': "st_pairCallback ?env closes_demo = (Inr (), st')" "length (st_queue st') = 1"
    "st_wakeups ?env 1 st' = Inr st''" by blast
  have "0 \<le> e_deal ?env" by simp
  from server_wakeup [OF st'(1) this] st' show ?thesis by auto
qed

text \<open>
  A connection that is sent to and closed in the same batch is used after it was freed:
  \<open>needSendList\<close> keeps the pointer and the flush at the end of the callback follows it.
\<close>

theorem server_send_close_dangles:
  assumes "st_sockets st a = Some s" and "a \<noteq> 0" and "ready s" and "0 < length bs"
    and "length (s_queued s) + length bs < s_limit (s_flag s)" and "1 \<le> e_deal env" and "st_queue st = []"
  shows "fst (st_pairCallback env (st_asynClose a (st_asynSend a bs (of_nat (length bs)) st))) = Inl UseAfterFree"
proof -
  let ?p = "threadPackage_new\<lparr>p_cmd := 3, p_name := a, p_buf := Some bs, p_len := of_nat (length bs)\<rparr>"
  let ?c = "threadPackage_new\<lparr>p_cmd := 5, p_name := a\<rparr>"
  have i: "s_send_inv (s_flag s) (s_limit (s_flag s)) s" using assms(3) by (simp add: ready_def)
  have len: "length bs < 2 ^ 31" using assms(5) s_limit_le(1) [of "s_flag s"] by simp
  obtain b s1 where 1: "s_expand bs s = (b, s1)" by fastforce
  have b: "b" using s_expand_law [OF i len 1] assms(5) by (simp add: s_limit_def)
  have e: "s_expandSendBuf bs (of_nat (length bs)) s = (Inr True, s1)"
    using s_expandSendBuf_pure [OF i len] 1 b by simp
  let ?st0 = "st\<lparr>st_queue := [?p, ?c], st_wakes := st_wakes st + 1 + 1 - 16\<rparr>"
  have "st_asynClose a (st_asynSend a bs (of_nat (length bs)) st) = st\<lparr>st_queue := [?p, ?c], st_wakes := st_wakes st + 1 + 1\<rparr>"
    using assms(7) by (simp add: st_asynClose_def st_asynSend_def st_push_def)
  moreover have "\<exists>st1. st_loop env 0 [?p, ?c] [] ?st0 = (Inr [a], st1) \<and> st_sockets st1 a = None"
    using assms(1,2,6) e
    by (simp add: st_step_def st_send_def st_close_def pack_bytes_def Let_def s_toClose_def threadPackage_new_def)
  ultimately show ?thesis
    using assms(2,6) by (auto simp: st_pairCallback_def Let_def)
qed

theorem server_send_close_dangles_witness:
  "fst (st_pairCallback io_demo (st_asynClose 16 (st_asynSend 16 [1, 2] (of_nat (length [1 :: byte, 2]))
     \<lparr>st_queue = [], st_wakes = 0, st_sockets = two_sockets, st_up = []\<rparr>))) = Inl UseAfterFree"
  by (rule server_send_close_dangles [of _ _ plain_demo])
    (simp_all add: two_sockets_def ready_def s_send_inv_def plain_demo_def ServerIOSocket_new_def s_limit_def
      s_queued_def io_demo_def)

end
