(* ===== verification/ServerLogic.thy ===== *)
theory ServerLogic
  imports ServerThread
begin

text \<open>
  The logic thread of the server: \<^verbatim>\<open>libsocket/ServerSocket.cpp\<close> with its agents
  (\<^verbatim>\<open>libsocket/AgentClient.cpp\<close>), and the echo service on top of it,
  \<^verbatim>\<open>EchoServer/Server.cpp\<close>.

  Agents live in a map from addresses like the sockets do; a socket pointer is looked up in
  the I/O threads, which own the socket objects. Handlers run to their end or to the first
  fault.
\<close>

section \<open>The state\<close>

record AgentClient =
  ac_socket :: u64
  ac_id :: int
  ac_serverType :: int

definition AgentClient_new :: "u64 \<Rightarrow> AgentClient" where
  "AgentClient_new a = \<lparr>ac_socket = a, ac_id = 0, ac_serverType = 0\<rparr>"

record Server =
  sv_socketCount :: int
  sv_acceptCount :: int
  sv_closeCount :: int
  sv_reciveCount :: int
  sv_sendCount :: int

record ServerSocket =
  ss_nowSocketCount :: int
  ss_maxSockets :: int
  ss_pairDealCount :: int
  ss_threads :: "ServerSocketIOThread list"
  ss_currentThread :: nat
  ss_queue :: "threadPackage list"
  ss_wakes :: nat
  ss_mapAgents :: "u64 \<rightharpoonup> u64"
  ss_agents :: "u64 \<rightharpoonup> AgentClient"
  ss_cb :: Server

text \<open>From outside: byte order, the clock, and the address of a new agent object.\<close>

record logic_env =
  l_hb :: bool
  l_now :: u32
  l_alloc :: "(u64 \<rightharpoonup> AgentClient) \<Rightarrow> u64"

type_synonym 'a ss_op = "ServerSocket \<Rightarrow> (fault + 'a) \<times> ServerSocket"

fun sock_at :: "ServerSocketIOThread list \<Rightarrow> u64 \<Rightarrow> (nat \<times> ServerIOSocket) option" where
  "sock_at [] a = None"
| "sock_at (t # ts) a =
     (case st_sockets t a of
        Some s \<Rightarrow> Some (0, s)
      | None \<Rightarrow> map_option (\<lambda>(i, s). (Suc i, s)) (sock_at ts a))"

text \<open>Following a socket pointer.\<close>

definition deref_socket :: "u64 \<Rightarrow> (nat \<times> ServerIOSocket) ss_op" where
  "deref_socket a ss =
     (if a = 0 then (Inl NullDeref, ss)
      else case sock_at (ss_threads ss) a of
        None \<Rightarrow> (Inl UseAfterFree, ss)
      | Some r \<Rightarrow> (Inr r, ss))"

definition deref_agent :: "u64 \<Rightarrow> AgentClient ss_op" where
  "deref_agent g ss =
     (if g = 0 then (Inl NullDeref, ss)
      else case ss_agents ss g of None \<Rightarrow> (Inl UseAfterFree, ss) | Some ac \<Rightarrow> (Inr ac, ss))"

definition on_thread :: "nat \<Rightarrow> (ServerSocketIOThread \<Rightarrow> ServerSocketIOThread) \<Rightarrow> ServerSocket \<Rightarrow> ServerSocket" where
  "on_thread i f ss = ss\<lparr>ss_threads := (ss_threads ss)[i := f (ss_threads ss ! i)]\<rparr>"

section \<open>Agents\<close>

definition getAgent :: "u64 \<Rightarrow> u64 option ss_op" where
  "getAgent a =
     (if a = 0 then returnM None
      else bindM (deref_socket a) (\<lambda>(_, s). \<lambda>ss. (Inr (ss_mapAgents ss (s_fd s)), ss)))"

definition deleteAgent :: "u64 \<Rightarrow> unit ss_op" where
  "deleteAgent g =
     (if g = 0 then returnM ()
      else bindM (deref_agent g) (\<lambda>ac.
           seqM (if ac_socket ac = 0 then returnM ()
                 else bindM (deref_socket (ac_socket ac)) (\<lambda>(_, s). \<lambda>ss.
                      (Inr (), ss\<lparr>ss_mapAgents := (ss_mapAgents ss)(s_fd s := None)\<rparr>)))
                (\<lambda>ss. (Inr (), ss\<lparr>ss_agents := (ss_agents ss)(g := None)\<rparr>))))"

text \<open>\<open>AgentClient::send\<close>\<close>

definition agent_send :: "u64 \<Rightarrow> byte list \<Rightarrow> u32 \<Rightarrow> unit ss_op" where
  "agent_send g buf n =
     bindM (deref_agent g) (\<lambda>ac.
     bindM (deref_socket (ac_socket ac)) (\<lambda>(i, _). \<lambda>ss.
       (Inr (), on_thread i (st_asynSend (ac_socket ac) buf n) ss)))"

section \<open>The service\<close>

definition onAcceptClient :: "unit ss_op" where
  "onAcceptClient ss =
     (Inr (), ss\<lparr>ss_cb := (ss_cb ss)\<lparr>sv_acceptCount := sv_acceptCount (ss_cb ss) + 1,
        sv_socketCount := sv_socketCount (ss_cb ss) + 1\<rparr>\<rparr>)"

definition onClientClose :: "unit ss_op" where
  "onClientClose ss =
     (Inr (), ss\<lparr>ss_cb := (ss_cb ss)\<lparr>sv_closeCount := sv_closeCount (ss_cb ss) + 1,
        sv_socketCount := sv_socketCount (ss_cb ss) - 1\<rparr>\<rparr>)"

definition onTimer :: "Server \<Rightarrow> Server" where
  "onTimer sv = sv\<lparr>sv_acceptCount := 0, sv_closeCount := 0, sv_reciveCount := 0, sv_sendCount := 0\<rparr>"

definition count_recive :: "unit ss_op" where
  "count_recive ss = (Inr (), ss\<lparr>ss_cb := (ss_cb ss)\<lparr>sv_reciveCount := sv_reciveCount (ss_cb ss) + 1\<rparr>\<rparr>)"

definition count_send :: "unit ss_op" where
  "count_send ss = (Inr (), ss\<lparr>ss_cb := (ss_cb ss)\<lparr>sv_sendCount := sv_sendCount (ss_cb ss) + 1\<rparr>\<rparr>)"

text \<open>
  The reply is built in a block of \<open>sizeof(Heartbeat)\<close> bytes, rounded by the memory manager;
  the body is read from the start of the packet. A decoding exception is logged.
\<close>

definition onClientRecive :: "logic_env \<Rightarrow> u64 \<Rightarrow> ProtocolHead \<Rightarrow> byte list \<Rightarrow> u32 \<Rightarrow> unit ss_op" where
  "onClientRecive env g head buf n =
     seqM count_recive
     (if h_xyid head \<noteq> XYID_HEARTBEAT then returnM ()
      else case READXY (get_heartbeat (l_hb env)) buf (unat n) of
             Inl (Fault f) \<Rightarrow> throwM f
           | Inl e \<Rightarrow> returnM ()
           | Inr req \<Rightarrow>
               let sendbuf = replicate (unat (fixSize (of_nat sizeof_Heartbeat))) 0
               in (case GET_TEMPLATE_BUF (l_hb env) sendbuf head XYID_HEARTBEAT sizeof_Heartbeat
                        (put_heartbeat (l_hb env) \<lparr>timestamp = l_now env\<rparr>) of
                     (Inl (Fault f), _) \<Rightarrow> throwM f
                   | (Inl e, _) \<Rightarrow> returnM ()
                   | (Inr head, sendbuf) \<Rightarrow>
                       seqM (agent_send g sendbuf (ucast (h_len head))) count_send))"

section \<open>The server socket\<close>

definition ss_push :: "threadPackage \<Rightarrow> ServerSocket \<Rightarrow> ServerSocket" where
  "ss_push p ss = ss\<lparr>ss_queue := ss_queue ss @ [p], ss_wakes := ss_wakes ss + 1\<rparr>"

definition ss_asynAccept :: "u64 \<Rightarrow> ServerSocket \<Rightarrow> ServerSocket" where
  "ss_asynAccept a = ss_push (up_accept a)"

definition ss_asynRecive :: "u64 \<Rightarrow> byte list \<Rightarrow> ServerSocket \<Rightarrow> ServerSocket" where
  "ss_asynRecive a buf = ss_push (up_recive a buf)"

definition ss_asynClose :: "u64 \<Rightarrow> ServerSocket \<Rightarrow> ServerSocket" where
  "ss_asynClose a = ss_push (up_close a)"

text \<open>\<open>fd\<close> and \<open>addr\<close> are what \<open>accept\<close> returned; the descriptor is unsigned, its test for an error too.\<close>

definition acceptCallback :: "u64 \<Rightarrow> byte list \<Rightarrow> ServerSocket \<Rightarrow> ServerSocket" where
  "acceptCallback fd addr ss =
     (if uint fd < 0 then ss
      else if ss_nowSocketCount ss \<ge> ss_maxSockets ss then ss
      else
        let ss = on_thread (ss_currentThread ss) (st_asynAccept fd addr) ss
        in ss\<lparr>ss_currentThread :=
             (if ss_currentThread ss + 1 \<ge> length (ss_threads ss) then 0 else ss_currentThread ss + 1)\<rparr>)"

definition closeByLogic :: "u64 \<Rightarrow> unit ss_op" where
  "closeByLogic g =
     seqM (\<lambda>ss. (Inr (), ss\<lparr>ss_nowSocketCount := ss_nowSocketCount ss - 1\<rparr>))
     (seqM onClientClose
     (seqM (deleteAgent g)
     (bindM (deref_agent g) (\<lambda>ac.
      bindM (deref_socket (ac_socket ac)) (\<lambda>(i, _). \<lambda>ss.
        (Inr (), on_thread i (st_asynClose (ac_socket ac)) ss))))))"

text \<open>\<open>AgentClient::close\<close>\<close>

definition agent_close :: "u64 \<Rightarrow> unit ss_op" where
  "agent_close g =
     bindM (deref_agent g) (\<lambda>ac. bindM (deref_socket (ac_socket ac)) (\<lambda>_. closeByLogic g))"

text \<open>The branches of \<open>pairCallback\<close>.\<close>

definition ss_accept :: "logic_env \<Rightarrow> threadPackage \<Rightarrow> unit ss_op" where
  "ss_accept env p =
     (let a = p_name p in
      if a = 0 then returnM ()
      else bindM (getAgent a) (\<lambda>agent.
        case agent of
          Some _ \<Rightarrow> returnM ()
        | None \<Rightarrow>
            bindM (deref_socket a) (\<lambda>(_, s).
            seqM (\<lambda>ss. let g = l_alloc env (ss_agents ss) in
                   (Inr (), ss\<lparr>ss_nowSocketCount := ss_nowSocketCount ss + 1,
                               ss_agents := (ss_agents ss)(g \<mapsto> AgentClient_new a),
                               ss_mapAgents := (ss_mapAgents ss)(s_fd s \<mapsto> g)\<rparr>))
                 onAcceptClient)))"

definition ss_recive :: "logic_env \<Rightarrow> threadPackage \<Rightarrow> unit ss_op" where
  "ss_recive env p =
     (let a = p_name p in
      if a = 0 then returnM ()
      else bindM (getAgent a) (\<lambda>agent.
        case agent of
          Some g \<Rightarrow>
            (case READXY (get_head (l_hb env)) (pack_bytes p) (unat (p_len p)) of
               Inl (Fault f) \<Rightarrow> throwM f
             | Inl e \<Rightarrow> agent_close g
             | Inr head \<Rightarrow> onClientRecive env g head (pack_bytes p) (p_len p))
        | None \<Rightarrow> agent_close 0))"

definition ss_close :: "threadPackage \<Rightarrow> unit ss_op" where
  "ss_close p =
     (let a = p_name p in
      if a = 0 then returnM ()
      else seqM (\<lambda>ss. (Inr (), ss\<lparr>ss_nowSocketCount := ss_nowSocketCount ss - 1\<rparr>))
          (bindM (getAgent a) (\<lambda>agent.
           seqM (case agent of Some g \<Rightarrow> seqM onClientClose (deleteAgent g) | None \<Rightarrow> returnM ())
                (bindM (deref_socket a) (\<lambda>(i, _). \<lambda>ss. (Inr (), on_thread i (st_asynClose a) ss))))))"

definition ss_step :: "logic_env \<Rightarrow> threadPackage \<Rightarrow> unit ss_op" where
  "ss_step env p =
     (if p_cmd p = cmd_value cmd_accept then ss_accept env p
      else if p_cmd p = cmd_value cmd_recv_buf then ss_recive env p
      else if p_cmd p = cmd_value cmd_close then ss_close p
      else returnM ())"

fun ss_loop :: "logic_env \<Rightarrow> int \<Rightarrow> threadPackage list \<Rightarrow> unit ss_op" where
  "ss_loop env k [] ss = (Inr (), ss\<lparr>ss_queue := []\<rparr>)"
| "ss_loop env k (p # ps) ss =
     (if k \<le> ss_pairDealCount ss then
        (case ss_step env p (ss\<lparr>ss_queue := ps\<rparr>) of
           (Inl f, ss) \<Rightarrow> (Inl f, ss)
         | (Inr _, ss) \<Rightarrow> ss_loop env (k + 1) ps ss)
      else (Inr (), ss\<lparr>ss_queue := p # ps\<rparr>))"

definition ss_pairCallback :: "logic_env \<Rightarrow> unit ss_op" where
  "ss_pairCallback env ss =
     (case ss_loop env 0 (ss_queue ss) (ss\<lparr>ss_wakes := ss_wakes ss - 16\<rparr>) of
        (Inl f, ss) \<Rightarrow> (Inl f, ss)
      | (Inr _, ss) \<Rightarrow> (Inr (), if ss_queue ss \<noteq> [] then ss\<lparr>ss_wakes := ss_wakes ss + 1\<rparr> else ss))"

text \<open>What an I/O thread pushed reaches the queue in the order it was pushed.\<close>

definition ss_collect :: "nat \<Rightarrow> ServerSocket \<Rightarrow> ServerSocket" where
  "ss_collect i ss =
     (let up = st_up (ss_threads ss ! i)
      in fold ss_push up (on_thread i (\<lambda>t. t\<lparr>st_up := []\<rparr>) ss))"

section \<open>Following pointers\<close>

lemma sock_at_thread: "sock_at ts a = Some (i, s) \<Longrightarrow> i < length ts \<and> st_sockets (ts ! i) a = Some s"
  by (induction ts arbitrary: i) (auto split: option.splits)

lemma sock_at_update:
  "(\<And>t. st_sockets (f t) = st_sockets t) \<Longrightarrow> sock_at (ts[i := f (ts ! i)]) a = sock_at ts a"
proof (induction ts arbitrary: i)
  case (Cons t ts)
  then show ?case by (cases i) (simp_all split: option.split)
qed simp

lemma st_asyn_sockets [simp]:
  "st_sockets (st_asynSend a b n st) = st_sockets st" "st_sockets (st_asynClose a st) = st_sockets st"
  "st_sockets (st_asynAccept fd b st) = st_sockets st"
  by (simp_all add: st_asynSend_def st_asynClose_def st_asynAccept_def st_push_def)

lemma sock_at_on_thread [simp]:
  "sock_at (ss_threads (on_thread i (st_asynSend x b n) ss)) a = sock_at (ss_threads ss) a"
  "sock_at (ss_threads (on_thread i (st_asynClose x) ss)) a = sock_at (ss_threads ss) a"
  by (simp_all add: on_thread_def sock_at_update)

lemma deref_socket_Some: "a \<noteq> 0 \<Longrightarrow> sock_at (ss_threads ss) a = Some r \<Longrightarrow> deref_socket a ss = (Inr r, ss)"
  by (simp add: deref_socket_def)

lemma deref_agent_Some: "g \<noteq> 0 \<Longrightarrow> ss_agents ss g = Some ac \<Longrightarrow> deref_agent g ss = (Inr ac, ss)"
  by (simp add: deref_agent_def)

lemma getAgent_Some:
  "a \<noteq> 0 \<Longrightarrow> sock_at (ss_threads ss) a = Some (i, s) \<Longrightarrow> getAgent a ss = (Inr (ss_mapAgents ss (s_fd s)), ss)"
  by (simp add: getAgent_def bindM_def deref_socket_Some)

lemma READXY_heartbeat:
  assumes "4 \<le> n" and "n \<le> length buf" and "n < 2 ^ 62"
  shows "\<exists>m. READXY (get_heartbeat hb) buf n = Inr m"
proof -
  let ?s = "attach buf (int n) (bistream_new False)"
  have ok: "stream_ok ?s" using assms by (intro stream_ok_attach) auto
  have "avail ?s = int n" by (simp add: avail_def attach_def)
  then have "\<exists>v. fst (get_scalar hb T32 ?s) = Inr v"
    using get_scalar_dec [OF ok, of hb T32] assms length_unread [OF ok]
    by (auto simp: dec_scalar_def)
  then show ?thesis
    by (auto simp: READXY_def get_heartbeat_def bindM_def get_scalar.simps split: prod.splits sum.splits)
qed

section \<open>Replies\<close>

definition heartbeat_bytes :: "u32 \<Rightarrow> byte list" where
  "heartbeat_bytes ts = [8, 0, 1, 0] @ le_bytes 4 (unat ts)"

definition send_package :: "u64 \<Rightarrow> byte list \<Rightarrow> threadPackage" where
  "send_package a bs = \<lparr>p_cmd = cmd_value cmd_send_buf, p_name = a, p_len = of_nat (length bs), p_buf = Some bs\<rparr>"

lemma length_heartbeat_bytes [simp]: "length (heartbeat_bytes ts) = 8"
  by (simp add: heartbeat_bytes_def)

lemma packet_wf_heartbeat: "packet_wf (heartbeat_bytes ts)"
  by (simp add: packet_wf_def packet_len_def heartbeat_bytes_def)

lemma wires_heartbeat: "[8, 0, 1, 0] @ wires False [S32 ts] = heartbeat_bytes ts"
  by (simp add: heartbeat_bytes_def wire_def host_bytes_def)

text \<open>An agent in good order: the socket's descriptor leads to it and it leads back.\<close>

definition served :: "ServerSocket \<Rightarrow> u64 \<Rightarrow> nat \<Rightarrow> u64 \<Rightarrow> bool" where
  "served ss a i g \<longleftrightarrow> a \<noteq> 0 \<and> g \<noteq> 0
     \<and> (\<exists>s ac. sock_at (ss_threads ss) a = Some (i, s) \<and> ss_mapAgents ss (s_fd s) = Some g
          \<and> ss_agents ss g = Some ac \<and> ac_socket ac = a)"

lemma agent_send_served:
  assumes "served ss a i g"
  shows "agent_send g buf n ss = (Inr (), on_thread i (st_asynSend a buf n) ss)"
  using assms by (auto simp: served_def agent_send_def bindM_def deref_agent_Some deref_socket_Some)

lemma onClientRecive_heartbeat:
  assumes "served ss a i g" and "h_xyid head = XYID_HEARTBEAT" and "HEADLEN \<le> length pkt" and "length pkt < 65536"
  shows "onClientRecive env g head pkt (of_nat (length pkt)) ss = (Inr (),
    (on_thread i (st_asynSend a (heartbeat_bytes (l_now env)) 8) ss)\<lparr>ss_cb := (ss_cb ss)
      \<lparr>sv_reciveCount := sv_reciveCount (ss_cb ss) + 1, sv_sendCount := sv_sendCount (ss_cb ss) + 1\<rparr>\<rparr>)"
proof -
  have n: "unat (of_nat (length pkt) :: u32) = length pkt" using assms(4) by (simp add: unat_of_nat)
  obtain m where m: "READXY (get_heartbeat (l_hb env)) pkt (length pkt) = Inr m"
    using READXY_heartbeat [of "length pkt" pkt "l_hb env"] assms(3,4) by auto
  let ?buf = "replicate (unat (fixSize (of_nat sizeof_Heartbeat))) (0 :: byte)"
  have sz: "unat (fixSize (of_nat sizeof_Heartbeat)) = 8" by (simp add: fixSize_def)
  obtain r buf' where b: "GET_TEMPLATE_BUF (l_hb env) ?buf head XYID_HEARTBEAT sizeof_Heartbeat
      (put_heartbeat (l_hb env) \<lparr>timestamp = l_now env\<rparr>) = (r, buf')" by fastforce
  have "8 \<le> length ?buf" "length ?buf < 2 ^ 62" using sz by simp_all
  note hp = heartbeat_packet [OF this b]
  have "drop 8 buf' = []" using hp(3) sz by simp
  then have buf': "buf' = heartbeat_bytes (l_now env)"
    using hp(2) append_take_drop_id [of 8 buf'] wires_heartbeat [of "l_now env"] by simp
  let ?ss1 = "ss\<lparr>ss_cb := (ss_cb ss)\<lparr>sv_reciveCount := sv_reciveCount (ss_cb ss) + 1\<rparr>\<rparr>"
  have sv: "served ?ss1 a i g" using assms(1) by (simp add: served_def)
  have len8: "(ucast (8 :: u16) :: u32) = 8" by simp
  show ?thesis
    unfolding onClientRecive_def Let_def b hp(1) buf' n m
    using assms(2) agent_send_served [OF sv]
    by (simp add: seqM_def bindM_def count_recive_def count_send_def on_thread_def len8)
qed

lemma ss_recive_served:
  assumes "served ss a i g" and "HEADLEN \<le> length pkt" and "length pkt < 65536"
  shows "ss_recive env (up_recive a pkt) ss = onClientRecive env g (head_of pkt) pkt (of_nat (length pkt)) ss"
proof -
  have n: "unat (of_nat (length pkt) :: u32) = length pkt" using assms(3) by (simp add: unat_of_nat)
  have "READXY (get_head (l_hb env)) pkt (length pkt) = Inr (head_of pkt)"
    using READXY_head [of "length pkt" pkt "l_hb env"] assms(2,3) by simp
  then show ?thesis
    using assms(1) n by (auto simp: served_def ss_recive_def up_recive_def threadPackage_new_def pack_bytes_def
        bindM_def getAgent_Some)
qed

section \<open>Closing from the logic side\<close>

text \<open>No close from the logic side completes, whatever the state.\<close>

lemma agent_close_faults: "\<exists>f. fst (agent_close g ss) = Inl f"
proof -
  have "\<exists>f. fst (closeByLogic g ss1) = Inl f" for ss1
  proof -
    obtain r ss2 where d: "deleteAgent g (snd (onClientClose (ss1\<lparr>ss_nowSocketCount := ss_nowSocketCount ss1 - 1\<rparr>))) = (r, ss2)"
      by fastforce
    have "\<exists>f. fst (deref_agent g ss2) = Inl f" if "r = Inr ()"
      using d that
      by (auto simp: deleteAgent_def seqM_def bindM_def deref_agent_def split: if_splits prod.splits sum.splits)
    with d show ?thesis
      by (cases r) (auto simp: closeByLogic_def seqM_def bindM_def onClientClose_def split: prod.splits sum.splits)
  qed
  then show ?thesis
    by (auto simp: agent_close_def bindM_def split: prod.splits sum.splits)
qed

text \<open>
  An agent that the logic closes is used after it was deleted: \<open>closeByLogic\<close> erases and
  deletes the agent, then asks the deleted object for its socket. The callback and the counters
  have run, the agent is gone, but the I/O thread is never told to close the connection.
\<close>

theorem logic_close_dangles:
  assumes "served ss a i g" and "sock_at (ss_threads ss) a = Some (i, s)"
  shows "\<exists>ss'. agent_close g ss = (Inl UseAfterFree, ss') \<and> ss_agents ss' g = None
    \<and> ss_mapAgents ss' (s_fd s) = None \<and> ss_threads ss' = ss_threads ss
    \<and> sv_closeCount (ss_cb ss') = sv_closeCount (ss_cb ss) + 1
    \<and> ss_nowSocketCount ss' = ss_nowSocketCount ss - 1"
  using assms
  by (auto simp: served_def agent_close_def closeByLogic_def onClientClose_def deleteAgent_def seqM_def bindM_def
      deref_agent_def deref_socket_def)

definition logic_demo :: ServerSocket where
  "logic_demo = \<lparr>ss_nowSocketCount = 1, ss_maxSockets = 10, ss_pairDealCount = 300,
     ss_threads = [\<lparr>st_queue = [], st_wakes = 0, st_sockets = [16 \<mapsto> plain_demo], st_up = []\<rparr>],
     ss_currentThread = 0, ss_queue = [], ss_wakes = 0, ss_mapAgents = [7 \<mapsto> 48],
     ss_agents = [48 \<mapsto> AgentClient_new 16], ss_cb = \<lparr>sv_socketCount = 1, sv_acceptCount = 1,
     sv_closeCount = 0, sv_reciveCount = 0, sv_sendCount = 0\<rparr>\<rparr>"

lemma logic_demo: "served logic_demo 16 0 48" "sock_at (ss_threads logic_demo) 16 = Some (0, plain_demo)"
  by (auto simp: served_def logic_demo_def AgentClient_new_def plain_demo_def ServerIOSocket_new_def)

theorem logic_close_dangles_witness: "fst (agent_close 48 logic_demo) = Inl UseAfterFree"
  using logic_close_dangles [OF logic_demo] by auto

text \<open>
  A packet shorter than a head makes the logic thread close the agent and so fault; so does any
  packet for a connection whose agent is gone.
\<close>

lemma short_packet_faults:
  assumes "ss_queue ss = up_recive a pkt # ps" and "a \<noteq> 0" and "0 \<le> ss_pairDealCount ss"
    and "length pkt < HEADLEN \<or> (\<exists>i s. sock_at (ss_threads ss) a = Some (i, s) \<and> ss_mapAgents ss (s_fd s) = None)"
  shows "\<exists>f. fst (ss_pairCallback env ss) = Inl f"
proof -
  let ?ss = "ss\<lparr>ss_wakes := ss_wakes ss - 16, ss_queue := ps\<rparr>"
  have step: "ss_step env (up_recive a pkt) = ss_recive env (up_recive a pkt)"
    by (simp add: ss_step_def up_recive_def threadPackage_new_def)
  have pk: "p_name (up_recive a pkt) = a" "pack_bytes (up_recive a pkt) = pkt"
    "p_len (up_recive a pkt) = of_nat (length pkt)"
    by (simp_all add: up_recive_def pack_bytes_def threadPackage_new_def)
  have "\<exists>f. fst (ss_recive env (up_recive a pkt) ?ss) = Inl f"
  proof (cases "\<exists>i s. sock_at (ss_threads ss) a = Some (i, s)")
    case False
    then have "sock_at (ss_threads ss) a = None" by (cases "sock_at (ss_threads ss) a") auto
    then show ?thesis using assms(2) pk by (simp add: ss_recive_def getAgent_def bindM_def deref_socket_def)
  next
    case True
    then obtain i s where s: "sock_at (ss_threads ss) a = Some (i, s)" by blast
    have ga: "getAgent a ?ss = (Inr (ss_mapAgents ss (s_fd s)), ?ss)"
      using getAgent_Some [of a ?ss i s] assms(2) s by simp
    show ?thesis
    proof (cases "ss_mapAgents ss (s_fd s)")
      case None
      with ga pk assms(2) agent_close_faults [of 0 ?ss] show ?thesis by (simp add: ss_recive_def bindM_def)
    next
      case (Some g)
      then have len: "length pkt < HEADLEN" using assms(4) s by auto
      then have "unat (of_nat (length pkt) :: u32) = length pkt" by (simp add: unat_of_nat)
      with len READXY_head [of "length pkt" pkt "l_hb env"]
      have "READXY (get_head (l_hb env)) pkt (unat (of_nat (length pkt) :: u32)) = Inl (biosexception exc_overflow)" by simp
      with Some ga pk assms(2) agent_close_faults [of g ?ss] show ?thesis by (simp add: ss_recive_def bindM_def)
    qed
  qed
  then show ?thesis
    using assms(1,3) step by (auto simp: ss_pairCallback_def split: prod.splits sum.splits)
qed

definition logic_env_demo :: logic_env where
  "logic_env_demo = \<lparr>l_hb = False, l_now = 1700000000, l_alloc = (\<lambda>m. 80)\<rparr>"

section \<open>Counting connections\<close>

text \<open>The agent tables are in good order.\<close>

definition agents_ok :: "ServerSocket \<Rightarrow> bool" where
  "agents_ok ss \<longleftrightarrow> finite (dom (ss_mapAgents ss)) \<and>
     (\<forall>fd g. ss_mapAgents ss fd = Some g \<longrightarrow> g \<noteq> 0 \<and> (\<exists>ac i s. ss_agents ss g = Some ac \<and> ac_socket ac \<noteq> 0
        \<and> sock_at (ss_threads ss) (ac_socket ac) = Some (i, s) \<and> s_fd s = fd))"

text \<open>A close for a connection without an agent.\<close>

definition orphan_close :: "threadPackage \<Rightarrow> ServerSocket \<Rightarrow> bool" where
  "orphan_close p ss \<longleftrightarrow> p_cmd p = cmd_value cmd_close \<and> p_name p \<noteq> 0
     \<and> (\<exists>i s. sock_at (ss_threads ss) (p_name p) = Some (i, s) \<and> ss_mapAgents ss (s_fd s) = None)"

definition uncounted :: "ServerSocket \<Rightarrow> int" where
  "uncounted ss = int (card (dom (ss_mapAgents ss))) - ss_nowSocketCount ss"

text \<open>What the handlers of packets leave alone.\<close>

definition same_agents :: "ServerSocket \<Rightarrow> ServerSocket \<Rightarrow> bool" where
  "same_agents ss0 ss \<longleftrightarrow> ss_mapAgents ss = ss_mapAgents ss0 \<and> ss_nowSocketCount ss = ss_nowSocketCount ss0
     \<and> ss_agents ss = ss_agents ss0 \<and> sock_at (ss_threads ss) = sock_at (ss_threads ss0)"

lemma keeps_same_agents [intro, simp]:
  "keeps (same_agents ss0) count_recive" "keeps (same_agents ss0) count_send" "keeps (same_agents ss0) (deref_agent g)"
  "keeps (same_agents ss0) (deref_socket a)" "keeps (same_agents ss0) (\<lambda>ss. (Inr (), on_thread i (st_asynSend a b n) ss))"
  by (auto simp: keeps_def same_agents_def count_recive_def count_send_def deref_agent_def deref_socket_def fun_eq_iff
      split: option.splits) (simp_all add: on_thread_def)

lemma agent_send_same [intro, simp]: "keeps (same_agents ss0) (agent_send g b k)"
  unfolding agent_send_def by (intro keeps_bindM) (simp_all split: prod.split)

lemma onClientRecive_same: "keeps (same_agents ss0) (onClientRecive env g h b k)"
  unfolding onClientRecive_def Let_def
  by (intro keeps_seqM keeps_same_agents) (auto split: sum.split prod.split bio_exn.split)

text \<open>
  The four things a package can do to the tables: nothing, a new agent, a deleted agent, or a
  close that finds none. \<open>upd\<close> is how the three fields change.
\<close>

definition upd :: "ServerSocket \<Rightarrow> ServerSocket \<Rightarrow> int \<Rightarrow> (u64 \<rightharpoonup> u64) \<Rightarrow> (u64 \<rightharpoonup> AgentClient) \<Rightarrow> bool" where
  "upd ss ss' d m ags \<longleftrightarrow> ss_nowSocketCount ss' = ss_nowSocketCount ss + d \<and> ss_mapAgents ss' = m
     \<and> ss_agents ss' = ags \<and> sock_at (ss_threads ss') = sock_at (ss_threads ss)"

inductive agent_step :: "logic_env \<Rightarrow> threadPackage \<Rightarrow> ServerSocket \<Rightarrow> ServerSocket \<Rightarrow> bool" for env p ss where
  agent_none: "upd ss ss' 0 (ss_mapAgents ss) (ss_agents ss) \<Longrightarrow> \<not> orphan_close p ss \<Longrightarrow> agent_step env p ss ss'"
| agent_new: "sock_at (ss_threads ss) (p_name p) = Some (i, s) \<Longrightarrow> ss_mapAgents ss (s_fd s) = None \<Longrightarrow>
    g = l_alloc env (ss_agents ss) \<Longrightarrow> p_name p \<noteq> 0 \<Longrightarrow> \<not> orphan_close p ss \<Longrightarrow>
    upd ss ss' 1 ((ss_mapAgents ss)(s_fd s \<mapsto> g)) ((ss_agents ss)(g \<mapsto> AgentClient_new (p_name p))) \<Longrightarrow>
    agent_step env p ss ss'"
| agent_gone: "ss_mapAgents ss fd = Some g \<Longrightarrow> \<not> orphan_close p ss \<Longrightarrow>
    upd ss ss' (- 1) ((ss_mapAgents ss)(fd := None)) ((ss_agents ss)(g := None)) \<Longrightarrow> agent_step env p ss ss'"
| agent_orphan: "orphan_close p ss \<Longrightarrow> upd ss ss' (- 1) (ss_mapAgents ss) (ss_agents ss) \<Longrightarrow> agent_step env p ss ss'"

lemma same_agents_upd: "same_agents ss ss' \<longleftrightarrow> upd ss ss' 0 (ss_mapAgents ss) (ss_agents ss)"
  by (auto simp: same_agents_def upd_def)

lemma agents_okD:
  assumes "agents_ok ss" and "ss_mapAgents ss fd = Some g"
  obtains ac i s where "g \<noteq> 0" and "ss_agents ss g = Some ac" and "ac_socket ac \<noteq> 0"
    and "sock_at (ss_threads ss) (ac_socket ac) = Some (i, s)" and "s_fd s = fd"
  using assms unfolding agents_ok_def by blast

lemma sock_at_close [simp]: "sock_at (ss_threads (on_thread i (st_asynClose x) ss)) = sock_at (ss_threads ss)"
  by (simp add: fun_eq_iff)

lemma ss_step_agent_step:
  assumes ok: "agents_ok ss" and step: "ss_step env p ss = (Inr (), ss')"
  shows "agent_step env p ss ss'"
proof (cases "p_name p = 0")
  case True
  with step have "ss' = ss"
    by (auto simp: ss_step_def ss_accept_def ss_recive_def ss_close_def split: if_splits)
  with True show ?thesis by (intro agent_none) (simp_all add: orphan_close_def upd_def)
next
  case False
  let ?a = "p_name p"
  show ?thesis
  proof (cases "sock_at (ss_threads ss) ?a")
    case None
    have "getAgent ?a ss' = (Inl UseAfterFree, ss')" if "ss_threads ss' = ss_threads ss" for ss'
      using None False that by (simp add: getAgent_def bindM_def deref_socket_def)
    with step False None have "ss' = ss \<and> \<not> orphan_close p ss"
      by (auto simp: ss_step_def ss_accept_def ss_recive_def ss_close_def seqM_def bindM_def Let_def orphan_close_def
          split: if_splits)
    then show ?thesis by (intro agent_none) (simp_all add: upd_def)
  next
    case (Some js)
    then obtain i s where s: "sock_at (ss_threads ss) ?a = Some (i, s)" by (cases js) simp
    note ga = getAgent_Some [OF False] and ds = deref_socket_Some [OF False]
    consider "p_cmd p = cmd_value cmd_accept" | "p_cmd p = cmd_value cmd_recv_buf" | "p_cmd p = cmd_value cmd_close"
      | "p_cmd p \<noteq> cmd_value cmd_accept" "p_cmd p \<noteq> cmd_value cmd_recv_buf" "p_cmd p \<noteq> cmd_value cmd_close"
      by blast
    then show ?thesis
    proof cases
      case 1
      then have o: "\<not> orphan_close p ss" by (simp add: orphan_close_def)
      show ?thesis
      proof (cases "ss_mapAgents ss (s_fd s)")
        case None
        show ?thesis
          by (rule agent_new [OF s None refl False o])
            (use step 1 False ga [OF s] ds [OF s] None in
              \<open>auto simp: ss_step_def ss_accept_def seqM_def bindM_def Let_def onAcceptClient_def upd_def\<close>)
      next
        case (Some g)
        with step 1 False ga [OF s] have "ss' = ss" by (auto simp: ss_step_def ss_accept_def bindM_def Let_def)
        with o show ?thesis by (intro agent_none) (simp_all add: upd_def)
      qed
    next
      case 2
      then have o: "\<not> orphan_close p ss" by (simp add: orphan_close_def)
      have "same_agents ss ss'"
      proof (cases "ss_mapAgents ss (s_fd s)")
        case None
        with step 2 False ga [OF s] agent_close_faults [of 0 ss] show ?thesis
          by (auto simp: ss_step_def ss_recive_def bindM_def Let_def)
      next
        case (Some g)
        with step 2 False ga [OF s] agent_close_faults [of g ss] obtain head
          where "onClientRecive env g head (pack_bytes p) (p_len p) ss = (Inr (), ss')"
          by (auto simp: ss_step_def ss_recive_def bindM_def Let_def split: sum.splits bio_exn.splits)
        with keepsD [OF onClientRecive_same, of ss ss env g head "pack_bytes p" "p_len p"]
        show ?thesis by (simp add: same_agents_def)
      qed
      with o show ?thesis by (intro agent_none) (simp_all add: same_agents_upd)
    next
      case 3
      let ?ss1 = "ss\<lparr>ss_nowSocketCount := ss_nowSocketCount ss - 1\<rparr>"
      have g1: "getAgent ?a ?ss1 = (Inr (ss_mapAgents ss (s_fd s)), ?ss1)" using ga [of ?ss1 i s] s by simp
      show ?thesis
      proof (cases "ss_mapAgents ss (s_fd s)")
        case None
        then have "orphan_close p ss" using 3 False s by (simp add: orphan_close_def)
        moreover have "ss' = on_thread i (st_asynClose ?a) ?ss1"
          using step 3 False g1 None ds [of ?ss1 "(i, s)"] s
          by (simp add: ss_step_def ss_close_def seqM_def bindM_def Let_def)
        ultimately show ?thesis by (intro agent_orphan) (simp_all add: upd_def, simp add: on_thread_def)
      next
        case (Some g)
        then have o: "\<not> orphan_close p ss" using s by (simp add: orphan_close_def)
        obtain ac j t where ac: "g \<noteq> 0" "ss_agents ss g = Some ac" "ac_socket ac \<noteq> 0"
          "sock_at (ss_threads ss) (ac_socket ac) = Some (j, t)" "s_fd t = s_fd s"
          by (rule agents_okD [OF ok Some])
        show ?thesis
          by (rule agent_gone [OF Some o])
            (use step 3 False g1 Some ac s in
              \<open>auto simp: ss_step_def ss_close_def seqM_def bindM_def Let_def onClientClose_def deleteAgent_def
                deref_agent_def deref_socket_def upd_def\<close>, simp_all add: on_thread_def)
      qed
    next
      case 4
      with step have "ss' = ss \<and> \<not> orphan_close p ss" by (simp add: ss_step_def orphan_close_def)
      then show ?thesis by (intro agent_none) (simp_all add: upd_def)
    qed
  qed
qed

inductive_cases agent_stepE: "agent_step env p ss ss'"

lemma card_dom_insert: "finite (dom m) \<Longrightarrow> m k = None \<Longrightarrow> card (dom (m(k \<mapsto> v))) = Suc (card (dom m))"
  by (simp add: domIff)

lemma card_dom_delete: "finite (dom m) \<Longrightarrow> m k = Some v \<Longrightarrow> int (card (dom (m(k := None)))) = int (card (dom m)) - 1"
proof -
  assume "finite (dom m)" "m k = Some v"
  then have "card (dom m) = Suc (card (dom m - {k}))" by (intro card.remove) auto
  then show ?thesis by simp
qed

lemma uncounted_upd: "upd ss ss' d m ags \<Longrightarrow> uncounted ss' = int (card (dom m)) - ss_nowSocketCount ss - d"
  by (simp add: uncounted_def upd_def)

lemma uncounted_agent_step:
  assumes "agent_step env p ss ss'" and "finite (dom (ss_mapAgents ss))"
  shows "uncounted ss' = uncounted ss + (if orphan_close p ss then 1 else 0)"
  using assms
proof (cases rule: agent_step.cases)
  case (agent_new i s g)
  from card_dom_insert [OF assms(2) agent_new(2), of g] uncounted_upd [OF agent_new(6)] agent_new(5)
  show ?thesis by (simp add: uncounted_def)
next
  case (agent_gone fd g)
  from card_dom_delete [OF assms(2) agent_gone(1)] uncounted_upd [OF agent_gone(3)] agent_gone(2)
  show ?thesis by (simp add: uncounted_def)
qed (auto dest!: uncounted_upd simp: uncounted_def)

lemma agents_ok_agent_step:
  assumes "agent_step env p ss ss'" and ok: "agents_ok ss"
    and fresh: "l_alloc env (ss_agents ss) \<noteq> 0" "ss_agents ss (l_alloc env (ss_agents ss)) = None"
  shows "agents_ok ss'"
  using assms(1)
proof (cases rule: agent_step.cases)
  case (agent_new i s g)
  have g: "ss_mapAgents ss fd \<noteq> Some g" for fd
    using agents_okD [OF ok, of fd g] fresh agent_new(3) by fastforce
  have new: "ss_mapAgents ss' = (ss_mapAgents ss)(s_fd s \<mapsto> g)"
    "ss_agents ss' = (ss_agents ss)(g \<mapsto> AgentClient_new (p_name p))"
    "sock_at (ss_threads ss') = sock_at (ss_threads ss)"
    using agent_new(6) by (simp_all add: upd_def)
  have "finite (dom (ss_mapAgents ss))" using ok by (simp add: agents_ok_def)
  moreover have "g' \<noteq> 0 \<and> (\<exists>ac i s. ss_agents ss' g' = Some ac \<and> ac_socket ac \<noteq> 0
      \<and> sock_at (ss_threads ss') (ac_socket ac) = Some (i, s) \<and> s_fd s = fd)"
    if "ss_mapAgents ss' fd = Some g'" for fd g'
  proof (cases "fd = s_fd s")
    case True
    with that new agent_new fresh show ?thesis by (simp add: AgentClient_new_def)
  next
    case False
    with that new have m: "ss_mapAgents ss fd = Some g'" by simp
    with g have "g' \<noteq> g" by auto
    with agents_okD [OF ok m] new show ?thesis by (metis fun_upd_other)
  qed
  ultimately show ?thesis by (simp add: agents_ok_def new(1))
next
  case (agent_gone fd g)
  have new: "ss_mapAgents ss' = (ss_mapAgents ss)(fd := None)" "ss_agents ss' = (ss_agents ss)(g := None)"
    "sock_at (ss_threads ss') = sock_at (ss_threads ss)"
    using agent_gone(3) by (simp_all add: upd_def)
  have "finite (dom (ss_mapAgents ss))" using ok by (simp add: agents_ok_def)
  moreover have "g' \<noteq> 0 \<and> (\<exists>ac i s. ss_agents ss' g' = Some ac \<and> ac_socket ac \<noteq> 0
      \<and> sock_at (ss_threads ss') (ac_socket ac) = Some (i, s) \<and> s_fd s = fd')"
    if "ss_mapAgents ss' fd' = Some g'" for fd' g'
  proof -
    have m: "ss_mapAgents ss fd' = Some g'" "fd' \<noteq> fd" using that new by (auto split: if_splits)
    obtain ac i s where ac: "g' \<noteq> 0" "ss_agents ss g' = Some ac" "ac_socket ac \<noteq> 0"
      "sock_at (ss_threads ss) (ac_socket ac) = Some (i, s)" "s_fd s = fd'"
      by (rule agents_okD [OF ok m(1)])
    have "g' \<noteq> g"
      using agents_okD [OF ok agent_gone(1)] ac m(2) by fastforce
    with ac new show ?thesis by auto
  qed
  ultimately show ?thesis by (simp add: agents_ok_def new(1))
qed (use ok in \<open>simp_all add: agents_ok_def upd_def\<close>)

text \<open>
  C17: The agent tables and the connection count. Every package the logic thread handles without
  fault leaves the tables in order (each descriptor leads to a live agent of a live socket with
  that descriptor), and keeps the difference between the number of agents and the count, except
  that a close for a connection whose agent is already gone counts down once more.
\<close>

theorem connection_count:
  assumes "agents_ok ss" and "ss_step env p ss = (Inr (), ss')"
    and "l_alloc env (ss_agents ss) \<noteq> 0" and "ss_agents ss (l_alloc env (ss_agents ss)) = None"
  shows "agents_ok ss' \<and> uncounted ss' = uncounted ss + (if orphan_close p ss then 1 else 0)"
proof -
  have "finite (dom (ss_mapAgents ss))" using assms(1) by (simp add: agents_ok_def)
  with ss_step_agent_step [OF assms(1,2)] show ?thesis
    using uncounted_agent_step agents_ok_agent_step assms(1,3,4) by blast
qed

theorem connection_count_witness:
  "\<exists>s1 s2. ss_step logic_env_demo (up_close 16) logic_demo = (Inr (), s1) \<and> uncounted s1 = 0
    \<and> ss_step logic_env_demo (up_close 16) s1 = (Inr (), s2) \<and> uncounted s2 = 1"
proof -
  have ok: "agents_ok logic_demo"
    by (auto simp: agents_ok_def logic_demo_def AgentClient_new_def plain_demo_def ServerIOSocket_new_def)
  have run: "ss_step logic_env_demo (up_close 16) ss = ss_close (up_close 16) ss" "p_name (up_close 16) = 16"
    "p_cmd (up_close 16) = cmd_value cmd_close" for ss
    by (simp_all add: ss_step_def up_close_def threadPackage_new_def)
  let ?s1 = "logic_demo\<lparr>ss_nowSocketCount := 0, ss_mapAgents := Map.empty, ss_agents := Map.empty,
    ss_cb := (ss_cb logic_demo)\<lparr>sv_closeCount := 1, sv_socketCount := 0\<rparr>,
    ss_threads := [st_asynClose 16 (hd (ss_threads logic_demo))]\<rparr>"
  have one: "ss_step logic_env_demo (up_close 16) logic_demo = (Inr (), ?s1)"
    using logic_demo by (auto simp: run ss_close_def getAgent_def seqM_def bindM_def deref_socket_def deref_agent_def
        onClientClose_def deleteAgent_def served_def logic_demo_def on_thread_def plain_demo_def ServerIOSocket_new_def
        AgentClient_new_def fun_eq_iff)
  have o1: "\<not> orphan_close (up_close 16) logic_demo"
    using logic_demo by (auto simp: orphan_close_def run logic_demo_def plain_demo_def ServerIOSocket_new_def)
  have al: "l_alloc logic_env_demo m = 80" for m by (simp add: logic_env_demo_def)
  have u0: "uncounted logic_demo = 0" by (simp add: uncounted_def logic_demo_def)
  have c1: "agents_ok ?s1 \<and> uncounted ?s1 = 0"
    using connection_count [OF ok one] o1 u0 al by (simp add: logic_demo_def)
  have o2: "orphan_close (up_close 16) ?s1"
    by (simp add: orphan_close_def run logic_demo_def)
  obtain s2 where two: "ss_step logic_env_demo (up_close 16) ?s1 = (Inr (), s2)"
    by (auto simp: run ss_close_def getAgent_def seqM_def bindM_def deref_socket_def logic_demo_def)
  have "uncounted s2 = 1"
    using connection_count [OF c1 [THEN conjunct1] two] o2 c1 al by simp
  with one two c1 show ?thesis by blast
qed

section \<open>Handing out connections\<close>

definition accept_package :: "u64 \<times> byte list \<Rightarrow> threadPackage" where
  "accept_package c = (case c of (fd, addr) \<Rightarrow> \<lparr>p_cmd = cmd_value cmd_accept, p_name = fd,
     p_len = of_nat (length addr), p_buf = Some addr\<rparr>)"

definition accept_all :: "(u64 \<times> byte list) list \<Rightarrow> ServerSocket \<Rightarrow> ServerSocket" where
  "accept_all conns ss = fold (\<lambda>(fd, addr). acceptCallback fd addr) conns ss"

text \<open>The share of thread \<open>j\<close> of \<open>n\<close> when the first connection goes to thread \<open>cur\<close>.\<close>

definition share :: "nat \<Rightarrow> nat \<Rightarrow> nat \<Rightarrow> 'a list \<Rightarrow> 'a list" where
  "share n cur j xs = map (\<lambda>k. xs ! k) (filter (\<lambda>k. (cur + k) mod n = j) [0..<length xs])"

lemma share_snoc: "share n cur j (xs @ [x]) = share n cur j xs @ (if (cur + length xs) mod n = j then [x] else [])"
  by (auto simp: share_def nth_append intro!: map_cong)

lemma accept_all_spec:
  assumes "0 < length (ss_threads ss)" and "ss_currentThread ss < length (ss_threads ss)"
    and "ss_nowSocketCount ss < ss_maxSockets ss"
  shows "let n = length (ss_threads ss); ss' = accept_all conns ss in
    length (ss_threads ss') = n \<and> ss_currentThread ss' = (ss_currentThread ss + length conns) mod n
    \<and> ss_nowSocketCount ss' = ss_nowSocketCount ss \<and> ss_maxSockets ss' = ss_maxSockets ss
    \<and> (\<forall>j < n. st_queue (ss_threads ss' ! j) = st_queue (ss_threads ss ! j)
         @ map accept_package (share n (ss_currentThread ss) j conns))"
  unfolding Let_def
proof (induction conns rule: rev_induct)
  case Nil
  then show ?case using assms by (simp add: accept_all_def share_def)
next
  case (snoc c conns)
  let ?n = "length (ss_threads ss)" and ?s = "accept_all conns ss"
  obtain fd addr where c: "c = (fd, addr)" by fastforce
  let ?cur = "(ss_currentThread ss + length conns) mod ?n"
  have cur: "ss_currentThread ?s = ?cur" "length (ss_threads ?s) = ?n" "?cur < ?n" using snoc assms(1) by simp_all
  have s': "accept_all (conns @ [c]) ss = (on_thread ?cur (st_asynAccept fd addr) ?s)
    \<lparr>ss_currentThread := (if ?cur + 1 \<ge> ?n then 0 else ?cur + 1)\<rparr>"
    using snoc assms(3) cur c by (simp add: accept_all_def acceptCallback_def on_thread_def)
  have pkg: "st_asynAccept fd addr t = st_push (accept_package c) t" for t
    by (simp add: st_asynAccept_def accept_package_def c threadPackage_new_def)
  have next_cur: "(if ?cur + 1 \<ge> ?n then 0 else ?cur + 1) = (ss_currentThread ss + length (conns @ [c])) mod ?n"
    using cur(3) by (simp add: mod_Suc)
  have "st_queue (ss_threads (accept_all (conns @ [c]) ss) ! j)
      = st_queue (ss_threads ss ! j) @ map accept_package (share ?n (ss_currentThread ss) j (conns @ [c]))"
    if "j < ?n" for j
    using that snoc cur unfolding s' share_snoc
    by (cases "j = ?cur") (simp_all add: on_thread_def pkg st_push_def)
  with snoc s' next_cur show ?case by (simp add: on_thread_def)
qed

text \<open>
  New connections are dealt to the I/O threads in turn. Below the configured maximum every
  accepted descriptor reaches exactly one thread's queue, thread \<open>j\<close> gets every \<open>n\<close>-th of them
  in order, and the cursor stays inside the thread list.
\<close>

theorem accept_round_robin:
  assumes "ss_currentThread ss < length (ss_threads ss)" and "ss_nowSocketCount ss < ss_maxSockets ss"
    and "n = length (ss_threads ss)" and "j < n"
  shows "st_queue (ss_threads (accept_all conns ss) ! j)
      = st_queue (ss_threads ss ! j) @ map accept_package (share n (ss_currentThread ss) j conns)
    \<and> ss_currentThread (accept_all conns ss) < n"
proof -
  have "0 < length (ss_threads ss)" using assms(3,4) by auto
  from accept_all_spec [OF this assms(1,2), of conns] assms(3,4) this show ?thesis by (simp add: Let_def)
qed

theorem accept_round_robin_witness:
  "map p_name (st_queue (ss_threads (accept_all [(5, []), (6, []), (7, [])] (logic_demo
     \<lparr>ss_threads := replicate 2 \<lparr>st_queue = [], st_wakes = 0, st_sockets = Map.empty, st_up = []\<rparr>\<rparr>)) ! 0)) = [5, 7]"
proof -
  let ?ss = "logic_demo\<lparr>ss_threads := replicate 2 \<lparr>st_queue = [], st_wakes = 0, st_sockets = Map.empty, st_up = []\<rparr>\<rparr>"
  have "ss_currentThread ?ss < length (ss_threads ?ss)" "ss_nowSocketCount ?ss < ss_maxSockets ?ss"
    "2 = length (ss_threads ?ss)" "0 < (2 :: nat)" by (simp_all add: logic_demo_def)
  from accept_round_robin [OF this, of "[(5, []), (6, []), (7, [])]"] show ?thesis
    by (simp add: logic_demo_def share_def accept_package_def upt_rec)
qed

end
