(* ===== verification/Echo.thy ===== *)
theory Echo
  imports ServerLogic
begin

text \<open>
  The server's threads put together: one round of a packet through \<open>readCallback\<close> of an I/O
  thread, \<open>pairCallback\<close> of the logic thread and \<open>pairCallback\<close> of the I/O thread again.
\<close>

definition set_thread :: "nat \<Rightarrow> ServerSocketIOThread \<Rightarrow> ServerSocket \<Rightarrow> ServerSocket" where
  "set_thread i t ss = ss\<lparr>ss_threads := (ss_threads ss)[i := t]\<rparr>"

text \<open>
  The round, as the threads take turns: \<open>None\<close> when the read does not return, \<open>Some (Inl f)\<close> at
  the first fault.
\<close>

definition round_trip ::
  "io_env \<Rightarrow> logic_env \<Rightarrow> byte list \<Rightarrow> nat \<Rightarrow> u64 \<Rightarrow> ServerSocket \<Rightarrow> (fault + ServerSocket) option" where
  "round_trip env lenv blk i a ss =
     (case st_readCallback env blk a (ss_threads ss ! i) of
        (None, _) \<Rightarrow> None
      | (Some (Inl f), _) \<Rightarrow> Some (Inl f)
      | (Some (Inr _), t) \<Rightarrow>
          (case ss_pairCallback lenv (ss_collect i (set_thread i t ss)) of
             (Inl f, _) \<Rightarrow> Some (Inl f)
           | (Inr _, ss) \<Rightarrow>
               (case st_pairCallback env (ss_threads ss ! i) of
                  (Inl f, _) \<Rightarrow> Some (Inl f)
                | (Inr _, t) \<Rightarrow> Some (Inr (set_thread i t ss)))))"

text \<open>A quiet plain connection: connected, nothing pending, nothing unsent.\<close>

definition quiet :: "ServerIOSocket \<Rightarrow> bool" where
  "quiet s \<longleftrightarrow> plain s \<and> s_pending s = [] \<and> ready s \<and> s_queued s = []"

lemma s_received_frame: "\<exists>x y. snd (s_received hb len s) = s\<lparr>s_recvBuf := x, s_recvBufLen := y\<rparr>"
  by (cases s) (auto simp: s_received_def Let_def split: option.splits sum.splits prod.splits)

lemma s_recv_plain_frame:
  assumes "plain s"
  obtains b z x y where "s_bev s = Some b"
    and "snd (s_recv hb blk s) = s\<lparr>s_bev := Some (b\<lparr>bev_input := z\<rparr>), s_recvBuf := x, s_recvBufLen := y\<rparr>"
proof -
  obtain b where b: "s_bev s = Some b" using assms by (auto simp: plain_def)
  let ?k = "unat (MAX_BUFFER_SIZE - s_recvBufLen s)"
  let ?b = "b\<lparr>bev_input := drop ?k (bev_input b)\<rparr>"
  let ?buf = "mem_put (unat (s_recvBufLen s)) (take ?k (bev_input b)) (s_recvBuf s)"
  let ?s1 = "s\<lparr>s_bev := Some ?b, s_recvBuf := ?buf\<rparr>"
  consider "snd (s_recv hb blk s) = s\<lparr>s_bev := Some ?b, s_recvBuf := s_recvBuf s, s_recvBufLen := s_recvBufLen s\<rparr>"
    | "snd (s_recv hb blk s) = snd (s_received hb (of_nat (length (take ?k (bev_input b)))) ?s1)"
    using assms b by (cases "length (s_recvBuf s) < unat (s_recvBufLen s) + length (take ?k (bev_input b))")
      (simp_all add: plain_def s_recv_def bufferevent_read_def doWebSocket_def Let_def del: length_take)
  then show ?thesis
  proof cases
    case 1
    with b show ?thesis by (rule that)
  next
    case 2
    obtain x y where "snd (s_received hb (of_nat (length (take ?k (bev_input b)))) ?s1) = ?s1\<lparr>s_recvBuf := x, s_recvBufLen := y\<rparr>"
      using s_received_frame by metis
    with 2 have "snd (s_recv hb blk s) = s\<lparr>s_bev := Some ?b, s_recvBuf := x, s_recvBufLen := y\<rparr>" by simp
    with b show ?thesis by (rule that)
  qed
qed

lemma quiet_reads_packet:
  assumes "quiet s" and "s_input s = pkt" and "packet_wf pkt" and "length pkt \<le> 8192"
  obtains s' where "s_recv hb blk s = (Some (Inr (0, [pkt])), s')" and "quiet s'" and "s_input s' = []"
    and "s_wire s' = s_wire s" and "s_fd s' = s_fd s"
proof -
  have pl: "plain s" "s_pending s = []" using assms(1) by (simp_all add: quiet_def)
  have len: "HEADLEN \<le> length pkt" "packet_len pkt = length pkt" using assms(3) by (simp_all add: packet_wf_def)
  then have ch: "chop (packet_len (s_pending s @ s_input s)) (s_pending s @ s_input s) = ([pkt], [])"
    using chop_uniform [of "length pkt" "[pkt]" "[]"] assms(2) pl(2) by (cases pkt) auto
  obtain s' where r: "s_recv hb blk s = (Some (Inr (0, [pkt])), s')" "plain s'" "s_pending s' = []" "s_input s' = []"
    by (rule s_recv_plain_chop [OF pl(1) _ _ _ ch, of hb blk]) (use pl(2) assms(2,4) len in auto)
  obtain b z x y where "s_bev s = Some b"
    "snd (s_recv hb blk s) = s\<lparr>s_bev := Some (b\<lparr>bev_input := z\<rparr>), s_recvBuf := x, s_recvBufLen := y\<rparr>"
    by (rule s_recv_plain_frame [OF pl(1), of hb blk])
  moreover from this r(1) have "s' = s\<lparr>s_bev := Some (b\<lparr>bev_input := z\<rparr>), s_recvBuf := x, s_recvBufLen := y\<rparr>" by simp
  ultimately have "s_sendBuf s' = s_sendBuf s" "s_sendBufLen s' = s_sendBufLen s" "s_fd s' = s_fd s" "s_wire s' = s_wire s"
    by (simp_all add: s_wire_def)
  moreover from this r(2) assms(1) have "quiet s'"
    using r(3) by (auto simp: quiet_def ready_def s_send_inv_def s_queued_def plain_def)
  ultimately show ?thesis using r by (intro that [of s']) simp_all
qed

lemma quiet_sends:
  assumes "quiet s" and "0 < length bs" and "length bs < 8192"
  obtains s1 s2 where "s_expandSendBuf bs (of_nat (length bs)) s = (Inr True, s1)" and "s_hadSendBufData s1"
    and "s_consumeSendBuf hb s1 = (Inr True, s2)" and "quiet s2" and "s_wire s2 = s_wire s @ bs"
    and "s_input s2 = s_input s" and "s_fd s2 = s_fd s"
proof -
  have q: "plain s" "s_queued s = []" "s_flag s = notWebSocket" "s_send_inv notWebSocket 8192 s" "s_pending s = []"
    using assms(1) by (auto simp: quiet_def plain_def ready_def s_limit_def)
  have p31: "length bs < 2 ^ 31" using assms(3) by simp
  let ?s1 = "s\<lparr>s_sendBuf := mem_put (unat (s_sendBufLen s)) bs (s_sendBuf s), s_sendBufLen := s_sendBufLen s + of_nat (length bs)\<rparr>"
  have e: "s_expandSendBuf bs (of_nat (length bs)) s = (Inr True, ?s1)"
    using s_expand_spec [OF q(4) p31] q(2) assms(3) by simp
  then have ex: "s_expand bs s = (True, ?s1)" by (simp add: s_expand_def)
  have i1: "s_send_inv notWebSocket 8192 ?s1" "s_queued ?s1 = bs" "s_wire ?s1 = s_wire s"
    using s_expand_law [OF q(4) p31 ex] q(2) by simp_all
  obtain b where b: "s_bev ?s1 = Some b" and c: "s_consumeSendBuf hb ?s1 = (Inr True,
    if s_queued ?s1 = [] then ?s1
    else ?s1\<lparr>s_bev := Some (b\<lparr>bev_output := bev_output b @ s_frame notWebSocket (s_queued ?s1)\<rparr>), s_sendBufLen := 0\<rparr>)"
    using s_consume_spec [OF i1(1), of hb] by auto
  let ?s2 = "?s1\<lparr>s_bev := Some (b\<lparr>bev_output := bev_output b @ bs\<rparr>), s_sendBufLen := 0\<rparr>"
  have c2: "s_consumeSendBuf hb ?s1 = (Inr True, ?s2)" using c i1(2) assms(2) by (auto simp: s_frame_def)
  have "s_hadSendBufData ?s1"
    using length_s_queued [OF i1(1)] i1(2) assms(2) by (simp add: s_hadSendBufData_def word_less_nat_alt)
  moreover have "quiet ?s2"
    using q i1(1) by (auto simp: quiet_def plain_def ready_def s_send_inv_def s_limit_def s_queued_def s_recv_ok_def s_pending_def)
  moreover have "s_wire ?s2 = s_wire s @ bs" "s_input ?s2 = s_input s" "s_fd ?s2 = s_fd s"
    using b by (simp_all add: s_wire_def s_input_def)
  ultimately show ?thesis using e c2 by (intro that)
qed

lemma one_send:
  assumes "st_queue t = [send_package a bs]" and "a \<noteq> 0" and "st_sockets t a = Some s" and "quiet s"
    and "0 < length bs" and "length bs < 8192" and "0 \<le> e_deal env"
  obtains s' where "st_pairCallback env t = (Inr (), t\<lparr>st_wakes := st_wakes t - 16, st_queue := [],
      st_sockets := (st_sockets t)(a \<mapsto> s')\<rparr>)"
    and "quiet s'" and "s_wire s' = s_wire s @ bs" and "s_input s' = s_input s" and "s_fd s' = s_fd s"
proof -
  obtain s1 s2 where e: "s_expandSendBuf bs (of_nat (length bs)) s = (Inr True, s1)" "s_hadSendBufData s1"
    "s_consumeSendBuf (e_hb env) s1 = (Inr True, s2)" "quiet s2" "s_wire s2 = s_wire s @ bs"
    "s_input s2 = s_input s" "s_fd s2 = s_fd s"
    by (rule quiet_sends [OF assms(4-6), of "e_hb env"])
  have "st_step env (send_package a bs) st
      = (Inr [a], st\<lparr>st_sockets := (st_sockets st)(a \<mapsto> s1)\<rparr>)" if "st_sockets st a = Some s" for st
    using that e(1) assms(2) by (simp add: st_step_def send_package_def st_send_def pack_bytes_def Let_def)
  then have "st_pairCallback env t = (Inr (), t\<lparr>st_wakes := st_wakes t - 16, st_queue := [],
      st_sockets := (st_sockets t)(a \<mapsto> s2)\<rparr>)"
    using assms e(2,3) by (simp add: st_pairCallback_def)
  with e show ?thesis by (intro that [of s2]) simp_all
qed

lemma sock_at_set:
  "sock_at ts a = Some (i, s) \<Longrightarrow> st_sockets t' a = Some s' \<Longrightarrow> sock_at (ts[i := t']) a = Some (i, s')"
  by (induction ts arbitrary: i) (auto split: option.splits nat.splits)

text \<open>
  C13: A heartbeat is answered. When a heartbeat packet has arrived on a quiet plain connection
  that the server knows, one turn of its I/O thread, the logic thread and the I/O thread again
  completes without fault, writes exactly one packet to the connection, the heartbeat with the
  server's time, and leaves the connection quiet, every queue empty, and of the server's counters those of received and of
  sent packets up by one and the others as they were.
\<close>

theorem heartbeat_answered:
  assumes "served ss a i g" and "st_sockets (ss_threads ss ! i) a = Some s" and "quiet s"
    and "s_input s = pkt" and "packet_wf pkt" and "length pkt \<le> 8192" and "h_xyid (head_of pkt) = XYID_HEARTBEAT"
    and "st_queue (ss_threads ss ! i) = []" and "st_up (ss_threads ss ! i) = []" and "ss_queue ss = []"
    and "0 \<le> e_deal env" and "0 \<le> ss_pairDealCount ss"
  shows "\<exists>ss' s'. round_trip env lenv blk i a ss = Some (Inr ss')
    \<and> st_sockets (ss_threads ss' ! i) a = Some s' \<and> quiet s' \<and> s_input s' = []
    \<and> s_wire s' = s_wire s @ heartbeat_bytes (l_now lenv)
    \<and> st_queue (ss_threads ss' ! i) = [] \<and> st_up (ss_threads ss' ! i) = [] \<and> ss_queue ss' = []
    \<and> ss_cb ss' = (ss_cb ss)\<lparr>sv_reciveCount := sv_reciveCount (ss_cb ss) + 1, sv_sendCount := sv_sendCount (ss_cb ss) + 1\<rparr>"
proof -
  let ?t = "ss_threads ss ! i"
  have a: "a \<noteq> 0" "i < length (ss_threads ss)"
    using assms(1) sock_at_thread by (auto simp: served_def)
  have len: "HEADLEN \<le> length pkt" using assms(5) by (simp add: packet_wf_def)
  obtain s1 where r: "s_recv (e_hb env) blk s = (Some (Inr (0, [pkt])), s1)" "quiet s1" "s_input s1 = []"
    "s_wire s1 = s_wire s" "s_fd s1 = s_fd s"
    by (rule quiet_reads_packet [OF assms(3-6)])
  let ?t1 = "?t\<lparr>st_sockets := (st_sockets ?t)(a \<mapsto> s1), st_up := [up_recive a pkt]\<rparr>"
  have read: "st_readCallback env blk a ?t = (Some (Inr 0), ?t1)"
    using assms(2,9) r(1) by (simp add: st_readCallback_def)
  let ?t2 = "?t1\<lparr>st_up := []\<rparr>"
  let ?ss1 = "ss\<lparr>ss_threads := (ss_threads ss)[i := ?t2], ss_queue := [up_recive a pkt], ss_wakes := ss_wakes ss + 1\<rparr>"
  have coll: "ss_collect i (set_thread i ?t1 ss) = ?ss1"
    using a(2) assms(10) by (simp add: ss_collect_def set_thread_def on_thread_def ss_push_def)
  let ?ss2 = "?ss1\<lparr>ss_wakes := ss_wakes ss + 1 - 16, ss_queue := []\<rparr>"
  obtain ac where sv0: "g \<noteq> 0" "sock_at (ss_threads ss) a = Some (i, s)" "ss_mapAgents ss (s_fd s) = Some g"
    "ss_agents ss g = Some ac" "ac_socket ac = a"
    using assms(1,2) sock_at_thread by (fastforce simp: served_def)
  have sv: "served ?ss2 a i g"
    using sv0 sock_at_set [OF sv0(2), of ?t2 s1] a(1) r(5) by (auto simp: served_def)
  let ?pk = "send_package a (heartbeat_bytes (l_now lenv))"
  let ?t3 = "?t2\<lparr>st_queue := [?pk], st_wakes := st_wakes ?t + 1\<rparr>"
  let ?ss3 = "?ss2\<lparr>ss_threads := (ss_threads ss)[i := ?t3], ss_cb := (ss_cb ss)
      \<lparr>sv_reciveCount := sv_reciveCount (ss_cb ss) + 1, sv_sendCount := sv_sendCount (ss_cb ss) + 1\<rparr>\<rparr>"
  have l16: "length pkt < 65536" using assms(6) by simp
  have "st_asynSend a (heartbeat_bytes (l_now lenv)) 8 ?t2 = ?t3"
    using assms(8) by (simp add: st_asynSend_def st_push_def send_package_def threadPackage_new_def)
  then have "ss_recive lenv (up_recive a pkt) ?ss2 = (Inr (), ?ss3)"
    using ss_recive_served [OF sv len l16, of lenv]
      onClientRecive_heartbeat [OF sv assms(7) len l16, of lenv] a(2)
    by (simp add: on_thread_def)
  then have logic: "ss_pairCallback lenv ?ss1 = (Inr (), ?ss3)"
    using assms(12) by (simp add: ss_pairCallback_def ss_step_def up_recive_def threadPackage_new_def)
  obtain s2 where s2: "st_pairCallback env ?t3 = (Inr (), ?t3\<lparr>st_wakes := st_wakes ?t3 - 16, st_queue := [],
      st_sockets := (st_sockets ?t3)(a \<mapsto> s2)\<rparr>)" "quiet s2" "s_wire s2 = s_wire s1 @ heartbeat_bytes (l_now lenv)"
    "s_input s2 = s_input s1"
    by (rule one_send [of ?t3 a "heartbeat_bytes (l_now lenv)" s1 env]) (use a(1) r(2) assms(11) in simp_all)
  let ?t4 = "?t3\<lparr>st_wakes := st_wakes ?t3 - 16, st_queue := [], st_sockets := (st_sockets ?t3)(a \<mapsto> s2)\<rparr>"
  have "round_trip env lenv blk i a ss = Some (Inr (set_thread i ?t4 ?ss3))"
    using read coll logic s2(1) a(2) by (simp add: round_trip_def)
  moreover have "ss_threads (set_thread i ?t4 ?ss3) ! i = ?t4" using a(2) by (simp add: set_thread_def)
  ultimately show ?thesis
    using s2(2-4) r(3,4) by (intro exI [of _ "set_thread i ?t4 ?ss3"] exI [of _ s2]) (simp add: set_thread_def)
qed

definition echo_demo :: "byte list \<Rightarrow> ServerSocket" where
  "echo_demo bs = logic_demo\<lparr>ss_threads := [\<lparr>st_queue = [], st_wakes = 0,
     st_sockets = [16 \<mapsto> s_arrive bs plain_demo], st_up = []\<rparr>]\<rparr>"

lemma echo_demo:
  "served (echo_demo bs) 16 0 48" "st_sockets (ss_threads (echo_demo bs) ! 0) 16 = Some (s_arrive bs plain_demo)"
  "quiet (s_arrive bs plain_demo)" "s_input (s_arrive bs plain_demo) = bs"
  "st_queue (ss_threads (echo_demo bs) ! 0) = []" "st_up (ss_threads (echo_demo bs) ! 0) = []"
  "ss_queue (echo_demo bs) = []" "0 \<le> ss_pairDealCount (echo_demo bs)" "0 \<le> e_deal io_demo"
  by (simp_all add: echo_demo_def logic_demo_def served_def AgentClient_new_def plain_demo_def ServerIOSocket_new_def
      s_arrive_def quiet_def plain_def s_recv_ok_def s_pending_def ready_def s_send_inv_def s_limit_def s_queued_def
      s_input_def io_demo_def)

theorem heartbeat_answered_witness:
  "\<exists>ss' s'. round_trip io_demo logic_env_demo [] 0 16 (echo_demo (heartbeat_bytes 5)) = Some (Inr ss')
     \<and> st_sockets (ss_threads ss' ! 0) 16 = Some s' \<and> s_wire s' = heartbeat_bytes 1700000000
     \<and> sv_reciveCount (ss_cb ss') = 1 \<and> sv_sendCount (ss_cb ss') = 1"
proof -
  have w: "s_wire (s_arrive (heartbeat_bytes 5) plain_demo) = []"
    by (simp add: s_wire_def s_arrive_def plain_demo_def ServerIOSocket_new_def)
  have h: "h_xyid (head_of (heartbeat_bytes 5)) = XYID_HEARTBEAT"
    by (simp add: head_of_def heartbeat_bytes_def)
  have l: "length (heartbeat_bytes 5) \<le> 8192" "l_now logic_env_demo = 1700000000"
    by (simp_all add: logic_env_demo_def)
  have c: "sv_reciveCount (ss_cb (echo_demo bs)) = 0" "sv_sendCount (ss_cb (echo_demo bs)) = 0" for bs
    by (simp_all add: echo_demo_def logic_demo_def)
  from heartbeat_answered [OF echo_demo(1,2,3,4) packet_wf_heartbeat l(1) h echo_demo(5,6,7,9,8), of logic_env_demo "[]"]
  show ?thesis unfolding w l(2) by (auto simp: c)
qed

text \<open>A packet too short for a head makes the logic thread close the agent, and so use it after it was deleted.\<close>

lemma short_packet_dangles:
  assumes "served ss a i g" and "sock_at (ss_threads ss) a = Some (i, s)" and "length pkt < HEADLEN"
    and "ss_queue ss = up_recive a pkt # ps" and "0 \<le> ss_pairDealCount ss"
  shows "\<exists>ss'. ss_pairCallback env ss = (Inl UseAfterFree, ss') \<and> ss_agents ss' g = None
    \<and> ss_mapAgents ss' (s_fd s) = None \<and> ss_threads ss' = ss_threads ss"
proof -
  let ?ss = "ss\<lparr>ss_wakes := ss_wakes ss - 16, ss_queue := ps\<rparr>"
  have sv: "served ?ss a i g" "sock_at (ss_threads ?ss) a = Some (i, s)" using assms(1,2) by (simp_all add: served_def)
  have a: "a \<noteq> 0" and m: "ss_mapAgents ss (s_fd s) = Some g" using assms(1,2) by (auto simp: served_def)
  have ga: "getAgent a ?ss = (Inr (Some g), ?ss)" using getAgent_Some [of a ?ss i s] a sv(2) m by simp
  have "unat (of_nat (length pkt) :: u32) = length pkt" using assms(3) by (simp add: unat_of_nat)
  with assms(3) READXY_head [of "length pkt" pkt "l_hb env"]
  have "READXY (get_head (l_hb env)) pkt (unat (of_nat (length pkt) :: u32)) = Inl (biosexception exc_overflow)" by simp
  then have "ss_step env (up_recive a pkt) ?ss = agent_close g ?ss"
    using ga a by (simp add: ss_step_def up_recive_def threadPackage_new_def ss_recive_def bindM_def pack_bytes_def)
  moreover obtain ss' where "agent_close g ?ss = (Inl UseAfterFree, ss')" "ss_agents ss' g = None"
    "ss_mapAgents ss' (s_fd s) = None" "ss_threads ss' = ss_threads ?ss"
    using logic_close_dangles [OF sv] by blast
  ultimately show ?thesis
    using assms(4,5) by (intro exI [of _ ss']) (simp add: ss_pairCallback_def)
qed

text \<open>
  C14: Four bytes bring the server down. If the first bytes of a quiet plain connection announce
  a packet of one to three bytes, the I/O thread's turn is fine and passes such a packet up; the logic thread's turn then
  uses freed memory: the packet has no complete head (a comment there says that what has come so far is a complete
  packet whose length is no concern), so the agent is closed, which deletes it and takes it out of the tables and then asks the
  deleted object for its connection. The I/O thread is not told to close it.
\<close>

theorem short_length_kills:
  assumes "served ss a i g" and "st_sockets (ss_threads ss ! i) a = Some s" and "quiet s"
    and "s_input s = bs" and "HEADLEN \<le> length bs" and "length bs \<le> 8192"
    and "packet_len bs \<in> {1, 2, 3}"
    and "st_up (ss_threads ss ! i) = []" and "ss_queue ss = []" and "0 \<le> ss_pairDealCount ss"
  shows "\<exists>t ss1 ss2. st_readCallback env blk a (ss_threads ss ! i) = (Some (Inr 0), t)
    \<and> ss1 = ss_collect i (set_thread i t ss) \<and> ss_agents ss1 g \<noteq> None
    \<and> ss_pairCallback lenv ss1 = (Inl UseAfterFree, ss2)
    \<and> ss_agents ss2 g = None \<and> ss_mapAgents ss2 (s_fd s) = None \<and> ss_threads ss2 = ss_threads ss1
    \<and> round_trip env lenv blk i a ss = Some (Inl UseAfterFree)"
proof -
  let ?t = "ss_threads ss ! i" and ?h = "packet_len bs"
  have a: "a \<noteq> 0" "i < length (ss_threads ss)"
    using assms(1) sock_at_thread by (auto simp: served_def)
  have pl: "plain s" "s_pending s = []" using assms(3) by (simp_all add: quiet_def)
  have h: "0 < ?h" "?h < HEADLEN" using assms(7) by auto
  obtain qs t where "chop ?h (drop ?h bs) = (qs, t)" by fastforce
  then have ch: "chop ?h bs = (take ?h bs # qs, t)" using h assms(5) by (simp add: chop_long)
  obtain s1 where r: "s_recv (e_hb env) blk s = (Some (Inr (0, take ?h bs # qs)), s1)"
    by (rule s_recv_plain_chop [OF pl(1), of "take ?h bs # qs" t "e_hb env" blk])
      (use pl(2) assms(4-6) h ch in simp_all)
  obtain b z x y where "snd (s_recv (e_hb env) blk s) = s\<lparr>s_bev := Some (b\<lparr>bev_input := z\<rparr>), s_recvBuf := x, s_recvBufLen := y\<rparr>"
    by (rule s_recv_plain_frame [OF pl(1), of "e_hb env" blk])
  then have fd: "s_fd s1 = s_fd s" using r by simp
  let ?up = "map (up_recive a) (take ?h bs # qs)"
  let ?t1 = "?t\<lparr>st_sockets := (st_sockets ?t)(a \<mapsto> s1), st_up := ?up\<rparr>"
  have read: "st_readCallback env blk a ?t = (Some (Inr 0), ?t1)"
    using assms(2,8) r by (simp add: st_readCallback_def)
  have push: "ss_queue (fold ss_push ps ss0) = ss_queue ss0 @ ps
      \<and> ss_pairDealCount (fold ss_push ps ss0) = ss_pairDealCount ss0 \<and> ss_threads (fold ss_push ps ss0) = ss_threads ss0
      \<and> ss_agents (fold ss_push ps ss0) = ss_agents ss0 \<and> ss_mapAgents (fold ss_push ps ss0) = ss_mapAgents ss0" for ps ss0
    by (induction ps arbitrary: ss0) (simp_all add: ss_push_def)
  let ?ss1 = "ss_collect i (set_thread i ?t1 ss)"
  have q: "ss_queue ?ss1 = up_recive a (take ?h bs) # map (up_recive a) qs" "0 \<le> ss_pairDealCount ?ss1"
    "ss_threads ?ss1 = (ss_threads ss)[i := ?t1\<lparr>st_up := []\<rparr>]" "ss_agents ?ss1 = ss_agents ss" "ss_mapAgents ?ss1 = ss_mapAgents ss"
    using a(2) assms(9,10) by (simp_all add: ss_collect_def set_thread_def on_thread_def push ss_push_def)
  obtain ac where sv0: "g \<noteq> 0" "sock_at (ss_threads ss) a = Some (i, s)" "ss_mapAgents ss (s_fd s) = Some g"
    "ss_agents ss g = Some ac" "ac_socket ac = a"
    using assms(1,2) sock_at_thread by (fastforce simp: served_def)
  have at: "sock_at (ss_threads ?ss1) a = Some (i, s1)"
    using sock_at_set [OF sv0(2), of "?t1\<lparr>st_up := []\<rparr>" s1] q(3) by simp
  have sv: "served ?ss1 a i g" using sv0 at a(1) fd q(4,5) by (auto simp: served_def)
  have "length (take ?h bs) < HEADLEN" using h by simp
  with short_packet_dangles [OF sv at _ q(1,2), of lenv] obtain ss2 where
    l: "ss_pairCallback lenv ?ss1 = (Inl UseAfterFree, ss2)" "ss_agents ss2 g = None" "ss_mapAgents ss2 (s_fd s1) = None"
    "ss_threads ss2 = ss_threads ?ss1" by blast
  have rt: "round_trip env lenv blk i a ss = Some (Inl UseAfterFree)" using read l(1) by (simp add: round_trip_def)
  show ?thesis
    by (intro exI [of _ ?t1] exI [of _ ?ss1] exI [of _ ss2] conjI) (use read l rt fd sv0(4) q(4) in simp_all)
qed

theorem short_length_kills_witness:
  "round_trip io_demo logic_env_demo [] 0 16 (echo_demo [2, 0, 1, 0]) = Some (Inl UseAfterFree)"
  using short_length_kills [OF echo_demo(1,2,3,4) _ _ _ echo_demo(6,7,8), of "[2, 0, 1, 0]" io_demo "[]" logic_env_demo]
  by (auto simp: packet_len_def)

end
