(* ===== verification/ClientIO.thy ===== *)
theory ClientIO
  imports SocketBase
begin

text \<open>
  The outgoing connection of \<^verbatim>\<open>libsocket/ClientIOSocket.cpp\<close>: its receive buffer, out of which
  \<open>recv\<close> cuts complete packets for the logic thread, and its send buffer.

  The bufferevent is \<open>None\<close> before the first connection: the constructor leaves the pointer
  unset. The state keeps the two buffers as the memory regions they are, the lengths at their width,
  and the bufferevent as its byte queues. What a method passes to the other thread is part of
  its result. A loop that does not end is \<open>None\<close>.
\<close>

section \<open>The state\<close>

record ClientIOSocket =
  c_id :: int
  c_status :: eIOSocketStatus
  c_fd :: u64
  c_bev :: "bufferevent option"
  c_reConnectTime :: int
  c_recvBuf :: "byte list"
  c_recvBufLen :: u32
  c_sendBuf :: "byte list"
  c_sendBufLen :: u32

definition ClientIOSocket_new :: "int \<Rightarrow> ClientIOSocket" where
  "ClientIOSocket_new i =
     \<lparr>c_id = i, c_status = unconnected, c_fd = - 1, c_bev = None, c_reConnectTime = 5,
      c_recvBuf = replicate (unat MAX_BUFFER_SIZE) 0, c_recvBufLen = 0,
      c_sendBuf = replicate (unat MAX_BUFFER_SIZE) 0, c_sendBufLen = 0\<rparr>"

text \<open>What the socket tells the logic thread.\<close>

datatype client_note = asynConnectEnd int | asynClose | asynRecive "byte list"

section \<open>Connecting\<close>

text \<open>
  \<open>toConnect\<close>; the descriptor is unsigned, and so is its test for an error. The answers of the system calls and of the library are arguments. On success
  the socket gets a fresh bufferevent. The two booleans of the result say whether the
  reconnect timer was set and whether 0 (success) was returned.
\<close>

definition toConnect ::
  "int \<Rightarrow> int \<Rightarrow> int \<Rightarrow> bool \<Rightarrow> bool \<Rightarrow> ClientIOSocket \<Rightarrow> int \<times> bool \<times> client_note list \<times> ClientIOSocket" where
  "toConnect fd conn nonblock bev_ok enable_ok s =
     (let s = s\<lparr>c_status := wait_connect, c_fd := of_int fd\<rparr>
      in if c_fd s \<le> 0 then (- 1, False, [], s)
         else if conn = - 1 then (- 1, True, [asynClose], s)
         else if nonblock = - 1 then (- 1, True, [asynClose], s)
         else if \<not> bev_ok then (- 1, False, [], s\<lparr>c_bev := None\<rparr>)
         else let s = s\<lparr>c_bev := Some \<lparr>bev_input = [], bev_output = []\<rparr>\<rparr>
              in if \<not> enable_ok then (- 1, False, [], s)
                 else (0, False, [asynConnectEnd 0], s))"

section \<open>Sending\<close>

definition c_toSend :: "byte list \<Rightarrow> (ClientIOSocket, fault, int) op" where
  "c_toSend buf s =
     (case c_bev s of None \<Rightarrow> (Inl NullDeref, s)
      | Some bev \<Rightarrow> (case bufferevent_write bev buf of (r, bev) \<Rightarrow> (Inr r, s\<lparr>c_bev := Some bev\<rparr>)))"

definition c_hadSendBufData :: "ClientIOSocket \<Rightarrow> bool" where
  "c_hadSendBufData s = (if c_sendBufLen s > 0 then True else False)"

text \<open>\<open>buf\<close> is what the pointer gives access to, \<open>n\<close> the length argument.\<close>

definition c_expandSendBuf :: "byte list \<Rightarrow> u32 \<Rightarrow> (ClientIOSocket, fault, bool) op" where
  "c_expandSendBuf buf n s =
     (if n + c_sendBufLen s \<ge> MAX_BUFFER_SIZE then (Inr False, s)
      else if length buf < unat n \<or> length (c_sendBuf s) < unat (c_sendBufLen s) + unat n
      then (Inl OutOfBounds, s)
      else (Inr True, s\<lparr>c_sendBuf := mem_put (unat (c_sendBufLen s)) (take (unat n) buf) (c_sendBuf s),
                        c_sendBufLen := c_sendBufLen s + n\<rparr>))"

definition c_consumeSendBuf :: "(ClientIOSocket, fault, bool) op" where
  "c_consumeSendBuf s =
     (if \<not> c_hadSendBufData s then (Inr True, s)
      else case c_toSend (take (unat (c_sendBufLen s)) (c_sendBuf s)) s of
             (Inl f, s) \<Rightarrow> (Inl f, s)
           | (Inr _, s) \<Rightarrow> (Inr True, s\<lparr>c_sendBufLen := 0\<rparr>))"

section \<open>Receiving\<close>

text \<open>The loop of \<open>recv\<close>: \<open>n\<close> is \<open>_nRecvBufLen\<close>, \<open>i\<close> is \<open>tmpIndex\<close>.\<close>

partial_function (option) deliver_loop ::
  "bool \<Rightarrow> byte list \<Rightarrow> u32 \<Rightarrow> u32 \<Rightarrow> byte list list \<Rightarrow> (fault + byte list list \<times> u32) option" where
  "deliver_loop hb buf n i acc =
     (if sint (n - i) < int HEADLEN then Some (Inr (acc, i))
      else case READXY (get_head hb) (drop (unat i) buf) HEADLEN of
             Inl (Fault f) \<Rightarrow> Some (Inl f)
           | Inl e \<Rightarrow> Some (Inr (acc, i))
           | Inr head \<Rightarrow>
               if int (unat (h_len head)) > sint (n - i) then Some (Inr (acc, i))
               else if length buf < unat i + unat (h_len head) then Some (Inl OutOfBounds)
               else deliver_loop hb buf n (i + ucast (h_len head))
                      (acc @ [mem_get (unat i) (unat (h_len head)) buf]))"

text \<open>What follows the read of \<open>bytes\<close> from the bufferevent.\<close>

definition c_received ::
  "bool \<Rightarrow> byte list \<Rightarrow> ClientIOSocket \<Rightarrow> (fault + int \<times> client_note list) option \<times> ClientIOSocket" where
  "c_received hb bytes s =
     (if length (c_recvBuf s) < unat (c_recvBufLen s) + length bytes then (Some (Inl OutOfBounds), s)
      else
        let buf = mem_put (unat (c_recvBufLen s)) bytes (c_recvBuf s);
            n = c_recvBufLen s + of_nat (length bytes);
            s = s\<lparr>c_recvBuf := buf, c_recvBufLen := n\<rparr>
        in (case deliver_loop hb buf n 0 [] of
              None \<Rightarrow> (None, s)
            | Some (Inl f) \<Rightarrow> (Some (Inl f), s)
            | Some (Inr (ps, i)) \<Rightarrow>
                (Some (Inr (0, map asynRecive ps)),
                 if i > 0 then
                   s\<lparr>c_recvBuf := mem_put 0 (mem_get (unat i) (unat (n - i)) buf) buf, c_recvBufLen := n - i\<rparr>
                 else s)))"

definition c_recv :: "bool \<Rightarrow> ClientIOSocket \<Rightarrow> (fault + int \<times> client_note list) option \<times> ClientIOSocket" where
  "c_recv hb s =
     (case c_bev s of None \<Rightarrow> (Some (Inl NullDeref), s)
      | Some bev \<Rightarrow>
          (case bufferevent_read bev (unat (MAX_BUFFER_SIZE - c_recvBufLen s)) of
             (bytes, bev) \<Rightarrow> c_received hb bytes (s\<lparr>c_bev := Some bev\<rparr>)))"

text \<open>\<open>eventCallback\<close> on the three flags it asks for; the boolean says whether it reconnects.\<close>

definition c_eventCallback :: "bool \<Rightarrow> bool \<Rightarrow> bool \<Rightarrow> ClientIOSocket \<Rightarrow> bool \<times> client_note list \<times> ClientIOSocket" where
  "c_eventCallback ev_timeout ev_error ev_eof s =
     (if ev_timeout then (True, [asynClose], s\<lparr>c_status := wait_connect\<rparr>)
      else if ev_error then (True, [asynClose], s\<lparr>c_status := wait_connect\<rparr>)
      else if ev_eof then (True, [asynClose], s\<lparr>c_status := wait_connect\<rparr>)
      else (False, [], s))"

section \<open>The loop and the cut\<close>

lemma deliver_loop_step:
  assumes "unat i \<le> unat n" and "unat n \<le> length buf" and "unat n < 2 ^ 31"
  shows "deliver_loop hb buf n i acc =
    (let t = rest_at buf n i in
     if length t < HEADLEN \<or> length t < packet_len t then Some (Inr (acc, i))
     else deliver_loop hb buf n (i + of_nat (packet_len t)) (acc @ [take (packet_len t) t]))"
proof -
  let ?t = "rest_at buf n i" and ?d = "drop (unat i) buf"
  have len: "length ?t = unat n - unat i" using assms by (simp add: mem_get_def)
  have d: "HEADLEN \<le> length ?t \<Longrightarrow> HEADLEN \<le> length ?d" using assms by (simp add: mem_get_def)
  have pl: "packet_len ?t = packet_len ?d" if "HEADLEN \<le> length ?t"
    using that len by (simp add: packet_len_def mem_get_def min_def)
  have "ucast (h_len (head_of ?d)) = (of_nat (packet_len ?d) :: u32)"
    using unat_h_len [of ?d] by (metis of_nat_unat)
  moreover have "mem_get (unat i) (packet_len ?d) buf = take (packet_len ?d) ?t"
    if "packet_len ?d \<le> length ?t"
    using that len by (simp add: mem_get_def min_def)
  moreover have cmp: "sint (n - i) < int HEADLEN \<longleftrightarrow> length ?t < HEADLEN"
    "int (packet_len ?d) > sint (n - i) \<longleftrightarrow> length ?t < packet_len ?d"
    unfolding sint_diff [OF assms(1,3)] len by (simp_all only: of_nat_less_iff)
  moreover have "length buf < unat i + packet_len ?d \<longleftrightarrow> False" if "packet_len ?d \<le> length ?t"
    using that len assms by simp
  ultimately show ?thesis
    using d pl READXY_head [of HEADLEN ?d hb]
    by (subst deliver_loop.simps) (auto simp add: Let_def unat_h_len not_less simp del: of_nat_unat)
qed


lemma deliver_loop_cut:
  assumes "unat i \<le> unat n" and "unat n \<le> length buf" and "unat n < 2 ^ 31"
    and "frames.cut (rest_at buf n i) = (ps, t)" and "\<not> zero_head t"
  shows "\<exists>j. deliver_loop hb buf n i acc = Some (Inr (acc @ ps, j))
    \<and> unat i \<le> unat j \<and> unat j \<le> unat n \<and> rest_at buf n j = t"
  using assms
proof (induction "length (rest_at buf n i)" arbitrary: i acc ps rule: less_induct)
  case less
  let ?t = "rest_at buf n i"
  note step = deliver_loop_step [OF less.prems(1-3), of hb acc, unfolded Let_def]
  show ?case
  proof (cases "frame_dec ?t")
    case None
    with less.prems(4) have t: "ps = []" "t = ?t" by (simp_all add: frames.cut_None)
    with None less.prems(5) have "length ?t < HEADLEN \<or> length ?t < packet_len ?t"
      by (auto simp: frame_dec_def zero_head_def split: if_splits)
    then have "deliver_loop hb buf n i acc = Some (Inr (acc, i))" using step by simp
    then show ?thesis using t less.prems(1) by auto
  next
    case (Some pr)
    let ?k = "packet_len ?t" and ?j = "i + of_nat (packet_len ?t)"
    from Some have k: "HEADLEN \<le> length ?t" "0 < ?k" "?k \<le> length ?t"
      "pr = (take ?k ?t, drop ?k ?t)"
      by (auto simp: frame_dec_def split: if_splits)
    have len: "length ?t = unat n - unat i" using less.prems(2) by (simp add: mem_get_def)
    have "?k < 65536" by (rule packet_len_less)
    then have "unat (of_nat ?k :: u16) = ?k" by (simp add: unat_of_nat)
    moreover have "(ucast (of_nat ?k :: u16) :: u32) = of_nat ?k"
      using calculation by (metis of_nat_unat)
    ultimately have j: "unat ?j = unat i + ?k"
      using unat_add_small [of i "of_nat ?k :: u16" n] k(3) len less.prems(1,3) by simp
    have rest: "rest_at buf n ?j = drop ?k ?t"
      unfolding j by (simp add: mem_get_def drop_take ac_simps)
    obtain qs where qs: "frames.cut (drop ?k ?t) = (qs, t)" "ps = take ?k ?t # qs"
      using less.prems(4) frames.cut_Some [of ?t "take ?k ?t" "drop ?k ?t"] Some k(4)
      by (auto split: prod.splits)
    have ih: "\<exists>j'. deliver_loop hb buf n ?j (acc @ [take ?k ?t]) = Some (Inr ((acc @ [take ?k ?t]) @ qs, j'))
        \<and> unat ?j \<le> unat j' \<and> unat j' \<le> unat n \<and> rest_at buf n j' = t"
    proof (rule less.hyps)
      show "length (rest_at buf n ?j) < length ?t" unfolding rest using k(2,3) by simp
      show "unat ?j \<le> unat n" using j k(3) len less.prems(1) by simp
      show "frames.cut (rest_at buf n ?j) = (qs, t)" unfolding rest by (rule qs(1))
    qed (fact less.prems)+
    then show ?thesis
      using step k qs(2) j by (auto simp: not_less)
  qed
qed


text \<open>A head of length zero: the index never moves, and the loop never ends.\<close>

lemma deliver_loop_stuck:
  assumes "unat i \<le> unat n" and "unat n \<le> length buf" and "unat n < 2 ^ 31"
    and zero: "zero_head (rest_at buf n i)"
  shows "deliver_loop hb buf n i acc = None"
proof (rule ccontr)
  assume "deliver_loop hb buf n i acc \<noteq> None"
  then obtain y where "deliver_loop hb buf n i acc = Some y" by auto
  then have "\<not> (unat i \<le> unat n \<and> unat n \<le> length buf \<and> unat n < 2 ^ 31 \<and> zero_head (rest_at buf n i))"
  proof (induction hb buf n i acc y rule: deliver_loop.raw_induct [rotated, consumes 1])
    case (1 loop hb buf n i acc y)
    show ?case
    proof
      assume a: "unat i \<le> unat n \<and> unat n \<le> length buf \<and> unat n < 2 ^ 31 \<and> zero_head (rest_at buf n i)"
      then have z: "HEADLEN \<le> length (rest_at buf n i)" "packet_len (rest_at buf n i) = 0"
        by (simp_all add: zero_head_def)
      have d: "HEADLEN \<le> length (drop (unat i) buf)" "packet_len (drop (unat i) buf) = 0"
        using rest_head [OF z(1)] z(2) by simp_all
      then have h: "h_len (head_of (drop (unat i) buf)) = 0"
        using unat_h_len [of "drop (unat i) buf"] by (simp add: unat_eq_zero)
      have "\<not> sint (n - i) < int HEADLEN"
      proof -
        have "HEADLEN \<le> unat n - unat i" using z(1) by (simp add: mem_get_def)
        moreover have "sint (n - i) = int (unat n - unat i)" using a by (intro sint_diff) simp_all
        ultimately show ?thesis by (simp only: of_nat_less_iff not_less)
      qed
      with 1(2) READXY_head [of HEADLEN "drop (unat i) buf" hb] d h
      have "loop hb buf n i (acc @ [[]]) = Some y"
        using a by (simp add: mem_get_def split: if_splits)
      from 1(1) [OF this] a show False by simp
    qed
  qed
  with assms show False by simp
qed

section \<open>One read\<close>

definition client_ok :: "ClientIOSocket \<Rightarrow> bool" where
  "client_ok s \<longleftrightarrow> length (c_recvBuf s) = 8192 \<and> unat (c_recvBufLen s) \<le> 8192"

definition pending :: "ClientIOSocket \<Rightarrow> byte list" where
  "pending s = take (unat (c_recvBufLen s)) (c_recvBuf s)"

lemma client_ok_new: "client_ok (ClientIOSocket_new i)" "pending (ClientIOSocket_new i) = []"
  by (simp_all add: client_ok_def ClientIOSocket_new_def pending_def)

lemma length_pending: "client_ok s \<Longrightarrow> length (pending s) = unat (c_recvBufLen s)"
  by (simp add: client_ok_def pending_def)

text \<open>Where the receive loop starts: the pending bytes and the new ones, from offset zero.\<close>

lemma recv_buffer:
  assumes "client_ok s" and "unat (c_recvBufLen s) + length bytes \<le> 8192"
  defines "buf \<equiv> mem_put (unat (c_recvBufLen s)) bytes (c_recvBuf s)"
    and "n \<equiv> c_recvBufLen s + of_nat (length bytes)"
  shows "unat n = unat (c_recvBufLen s) + length bytes" and "length buf = 8192" and "unat n \<le> 8192"
    and "rest_at buf n 0 = pending s @ bytes"
proof -
  have l: "unat (of_nat (length bytes) :: u32) = length bytes"
    using assms(2) by (simp add: unat_of_nat)
  have "unat (c_recvBufLen s) + unat (of_nat (length bytes) :: u32) < 2 ^ LENGTH(32)"
    using assms(2) l by simp
  from unat_add_lem [THEN iffD1, OF this] l
  show n: "unat n = unat (c_recvBufLen s) + length bytes" by (simp add: n_def)
  then show "unat n \<le> 8192" using assms(2) by simp
  show "length buf = 8192" using assms(1,2) by (simp add: buf_def client_ok_def mem_simps)
  show "rest_at buf n 0 = pending s @ bytes"
    using assms(1,2) n by (simp add: buf_def pending_def client_ok_def mem_simps)
qed

lemma c_received_spec:
  assumes ok: "client_ok s" and fits: "unat (c_recvBufLen s) + length bytes \<le> 8192"
    and cut: "frames.cut (pending s @ bytes) = (ps, t)" and nz: "\<not> zero_head t"
  obtains s' where "c_received hb bytes s = (Some (Inr (0, map asynRecive ps)), s')"
    and "client_ok s'" and "pending s' = t" and "c_bev s' = c_bev s"
proof -
  let ?buf = "mem_put (unat (c_recvBufLen s)) bytes (c_recvBuf s)"
  let ?n = "c_recvBufLen s + of_nat (length bytes)"
  note b = recv_buffer [OF ok fits]
  have "\<exists>j. deliver_loop hb ?buf ?n 0 [] = Some (Inr ([] @ ps, j))
      \<and> unat (0 :: u32) \<le> unat j \<and> unat j \<le> unat ?n \<and> rest_at ?buf ?n j = t"
    using b cut nz by (intro deliver_loop_cut) simp_all
  then obtain j where j: "deliver_loop hb ?buf ?n 0 [] = Some (Inr (ps, j))" "unat j \<le> unat ?n"
    "rest_at ?buf ?n j = t" by auto
  let ?s1 = "s\<lparr>c_recvBuf := ?buf, c_recvBufLen := ?n\<rparr>"
  let ?s2 = "if j > 0 then s\<lparr>c_recvBuf := mem_put 0 (mem_get (unat j) (unat (?n - j)) ?buf) ?buf,
    c_recvBufLen := ?n - j\<rparr> else ?s1"
  have d: "unat (?n - j) = unat ?n - unat j" using j(2) by (rule of_nat_diff_word)
  have len_t: "length t = unat ?n - unat j" using j(2,3) b by (auto simp: mem_get_def)
  have run: "c_received hb bytes s = (Some (Inr (0, map asynRecive ps)), ?s2)"
    using j(1) ok fits by (simp add: c_received_def Let_def client_ok_def)
  have "client_ok ?s2 \<and> pending ?s2 = t"
  proof (cases "j > 0")
    case False
    then have "j = 0" by (simp add: word_gt_0)
    with b j(3) ok show ?thesis by (simp add: client_ok_def pending_def mem_get_def)
  next
    case True
    have t: "mem_get (unat j) (unat (?n - j)) ?buf = t" using j(3) d by simp
    have "unat (?n - j) = length t" "length t \<le> 8192" using d len_t b(3) by simp_all
    moreover have "length (mem_put 0 t ?buf) = 8192" "take (length t) (mem_put 0 t ?buf) = t"
      using b(2) calculation(2) by (simp_all add: mem_put_zero)
    ultimately have "client_ok (s\<lparr>c_recvBuf := mem_put 0 t ?buf, c_recvBufLen := ?n - j\<rparr>)
        \<and> pending (s\<lparr>c_recvBuf := mem_put 0 t ?buf, c_recvBufLen := ?n - j\<rparr>) = t"
      by (simp add: client_ok_def pending_def)
    with True t show ?thesis by simp
  qed
  moreover have "c_bev ?s2 = c_bev s" by simp
  ultimately show ?thesis using that [OF run] by blast
qed

lemma c_received_stuck:
  assumes ok: "client_ok s" and fits: "unat (c_recvBufLen s) + length bytes \<le> 8192"
    and zero: "zero_head (pending s @ bytes)"
  shows "fst (c_received hb bytes s) = None"
proof -
  note b = recv_buffer [OF ok fits]
  have "deliver_loop hb (mem_put (unat (c_recvBufLen s)) bytes (c_recvBuf s))
      (c_recvBufLen s + of_nat (length bytes)) 0 [] = None"
    using b zero by (intro deliver_loop_stuck) simp_all
  then show ?thesis using ok fits by (simp add: c_received_def Let_def client_ok_def)
qed

section \<open>The stream\<close>

lemma cut_prefix:
  assumes "list_all packet_wf ps" and "frame_dec tail = None" and "\<not> zero_head tail"
    and "x @ y = concat ps @ tail"
  shows "\<exists>k u. frames.cut x = (take k ps, u) \<and> \<not> zero_head u \<and> u @ y = concat (drop k ps) @ tail
    \<and> frame_dec u = None"
  using assms(1,4)
proof (induction ps arbitrary: x)
  case Nil
  have xy: "tail = x @ y" using Nil(2) by simp
  have len: "packet_len x = packet_len tail" if "HEADLEN \<le> length x"
    using that unfolding xy by simp
  have "\<not> zero_head x" "frame_dec x = None"
  proof -
    show "\<not> zero_head x"
      using len assms(3) unfolding xy by (auto simp: zero_head_def)
    show "frame_dec x = None"
    proof (cases "frame_dec x")
      case (Some pr)
      then obtain p r where "frame_dec x = Some (p, r)" by (cases pr) auto
      from frames.dec_extend [OF this, of y] assms(2) Nil(2) show ?thesis by simp
    qed simp
  qed
  with Nil show ?case by (auto simp: frames.cut_None)
next
  case (Cons p ps)
  from Cons.prems have p: "packet_wf p" "list_all packet_wf ps" "x @ y = p @ (concat ps @ tail)" by simp_all
  show ?case
  proof (cases "length p \<le> length x")
    case True
    have "take (length p) (x @ y) = p" unfolding p(3) by simp
    with True have "take (length p) x = p" by simp
    then have "x = p @ drop (length p) x" by (metis append_take_drop_id)
    with p(3) obtain x' where x: "x = p @ x'" "x' @ y = concat ps @ tail"
      by (metis append.assoc same_append_eq)
    from Cons.IH [OF p(2) x(2)] obtain k u where "frames.cut x' = (take k ps, u)" "\<not> zero_head u"
      "u @ y = concat (drop k ps) @ tail" "frame_dec u = None" by blast
    with x(1) frames.cut_Some [OF frame_dec_packet [OF p(1)], of x'] show ?thesis
      by (intro exI [of _ "Suc k"]) simp
  next
    case False
    have len: "packet_len x = length p" if "HEADLEN \<le> length x"
    proof -
      from p(3) False obtain z where "p = x @ z"
        by (auto simp: append_eq_append_conv2)
      then have "take 2 x = take 2 p" using that by simp
      then show ?thesis using p(1) by (simp add: packet_len_def packet_wf_def)
    qed
    then have "frame_dec x = None" "\<not> zero_head x"
      using False p(1) by (auto simp: frame_dec_def zero_head_def packet_wf_def)
    with Cons.prems(2) show ?thesis
      by (intro exI [of _ 0]) (simp add: frames.cut_None)
  qed
qed


text \<open>Bytes that arrive from the network go to the end of the bufferevent's input.\<close>

definition c_arrive :: "byte list \<Rightarrow> ClientIOSocket \<Rightarrow> ClientIOSocket" where
  "c_arrive bs s = s\<lparr>c_bev := map_option (\<lambda>b. b\<lparr>bev_input := bev_input b @ bs\<rparr>) (c_bev s)\<rparr>"

text \<open>
  A sequence of read events, each with the bytes that arrived before it; \<open>None\<close> if one of them
  faults or does not return.
\<close>

fun c_reads :: "bool \<Rightarrow> byte list list \<Rightarrow> ClientIOSocket \<Rightarrow> (client_note list \<times> ClientIOSocket) option" where
  "c_reads hb [] s = Some ([], s)"
| "c_reads hb (c # cs) s =
     (case c_recv hb (c_arrive c s) of
        (Some (Inr (_, ns)), s') \<Rightarrow>
          (case c_reads hb cs s' of None \<Rightarrow> None | Some (ms, s'') \<Rightarrow> Some (ns @ ms, s''))
      | _ \<Rightarrow> None)"

definition c_input :: "ClientIOSocket \<Rightarrow> byte list" where
  "c_input s = (case c_bev s of None \<Rightarrow> [] | Some b \<Rightarrow> bev_input b)"

text \<open>The state between two reads of a stream of packets \<open>ps\<close> that ends in \<open>tail\<close>.\<close>

definition on_stream_at :: "byte list \<Rightarrow> byte list list \<Rightarrow> byte list \<Rightarrow> ClientIOSocket \<Rightarrow> bool" where
  "on_stream_at fut ps tail s \<longleftrightarrow>
     client_ok s \<and> c_bev s \<noteq> None \<and> pending s @ c_input s @ fut = concat ps @ tail
     \<and> frame_dec (pending s) = None"

lemma c_recv_on_stream:
  assumes wf: "list_all packet_wf ps" "frame_dec tail = None" "\<not> zero_head tail"
    and at: "on_stream_at fut ps tail s"
  shows "\<exists>k s'. c_recv hb s = (Some (Inr (0, map asynRecive (take k ps))), s')
    \<and> on_stream_at fut (drop k ps) tail s'
    \<and> c_input s' = drop (8192 - length (pending s)) (c_input s)"
proof -
  from at obtain bev where s: "client_ok s" "c_bev s = Some bev"
    "pending s @ bev_input bev @ fut = concat ps @ tail"
    by (auto simp: on_stream_at_def c_input_def)
  let ?space = "8192 - length (pending s)"
  let ?new = "take ?space (bev_input bev)" and ?rest = "drop ?space (bev_input bev)"
  let ?s1 = "s\<lparr>c_bev := Some (bev\<lparr>bev_input := ?rest\<rparr>)\<rparr>"
  have sp: "unat (MAX_BUFFER_SIZE - c_recvBufLen s) = ?space"
    using s(1) by (simp add: of_nat_diff_word client_ok_def length_pending)
  have fits: "unat (c_recvBufLen s) + length ?new \<le> 8192"
  proof -
    have "length ?new \<le> 8192 - length (pending s)" by simp
    then show ?thesis using s(1) length_pending [OF s(1)] unfolding client_ok_def by linarith
  qed
  have "(pending s @ ?new) @ (?rest @ fut) = concat ps @ tail"
    using s(3) by (metis append.assoc append_take_drop_id)
  from cut_prefix [OF wf this] obtain k u where cut: "frames.cut (pending s @ ?new) = (take k ps, u)"
    "\<not> zero_head u" "u @ ?rest @ fut = concat (drop k ps) @ tail" "frame_dec u = None" by blast
  have ok1: "client_ok ?s1" "pending ?s1 = pending s" "unat (c_recvBufLen ?s1) + length ?new \<le> 8192"
    using s(1) fits by (simp_all add: client_ok_def pending_def)
  from c_received_spec [OF ok1(1,3) _ cut(2), of "take k ps" hb] ok1(2) cut(1) obtain s' where
    s': "c_received hb ?new ?s1 = (Some (Inr (0, map asynRecive (take k ps))), s')"
    "client_ok s'" "pending s' = u" "c_bev s' = c_bev ?s1" by metis
  have "c_recv hb s = (Some (Inr (0, map asynRecive (take k ps))), s')"
    using s(2) sp s'(1) by (simp add: c_recv_def bufferevent_read_def)
  moreover have "on_stream_at fut (drop k ps) tail s'" "c_input s' = ?rest"
    using s' cut(3,4) by (simp_all add: on_stream_at_def c_input_def)
  ultimately show ?thesis using s(2) by (auto simp: c_input_def)
qed

lemma c_reads_on_stream:
  assumes "list_all packet_wf ps" "frame_dec tail = None" "\<not> zero_head tail"
    and "on_stream_at (concat cs @ fut) ps tail s"
  shows "\<exists>k s'. c_reads hb cs s = Some (map asynRecive (take k ps), s') \<and> on_stream_at fut (drop k ps) tail s'"
  using assms(1,4)
proof (induction cs arbitrary: ps s)
  case Nil
  then show ?case by (intro exI [of _ 0]) simp
next
  case (Cons c cs)
  have at: "on_stream_at (concat cs @ fut) ps tail (c_arrive c s)"
    using Cons.prems(2)
    by (auto simp: on_stream_at_def c_arrive_def client_ok_def pending_def c_input_def)
  from c_recv_on_stream [OF Cons.prems(1) assms(2,3) at, of hb] obtain k s' where
    k: "c_recv hb (c_arrive c s) = (Some (Inr (0, map asynRecive (take k ps))), s')"
    "on_stream_at (concat cs @ fut) (drop k ps) tail s'" by blast
  have "list_all packet_wf (drop k ps)"
    using Cons.prems(1) by (auto simp: list_all_iff dest: in_set_dropD)
  from Cons.IH [OF this k(2)] obtain l s'' where
    "c_reads hb cs s' = Some (map asynRecive (take l (drop k ps)), s'')"
    "on_stream_at fut (drop l (drop k ps)) tail s''" by blast
  with k(1) show ?case
    by (intro exI [of _ "k + l"] exI [of _ s'']) (simp add: take_add add.commute)
qed


lemma on_stream_space:
  assumes "on_stream_at fut ps tail s" and "list_all packet_wf ps" and "list_all (\<lambda>p. length p \<le> 8192) ps"
    and "length tail < 8192"
  shows "length (pending s) < 8192"
proof (cases ps)
  case Nil
  with assms show ?thesis by (auto simp: on_stream_at_def dest!: arg_cong [where f = length])
next
  case (Cons p qs)
  show ?thesis
  proof (rule ccontr)
    assume "\<not> ?thesis"
    then have le: "length p \<le> length (pending s)" using Cons assms(3) by simp
    have eq: "pending s @ (c_input s @ fut) = p @ (concat qs @ tail)" and none: "frame_dec (pending s) = None"
      using assms(1) Cons by (simp_all add: on_stream_at_def)
    have "take (length p) (pending s @ (c_input s @ fut)) = p" unfolding eq by simp
    with le have "take (length p) (pending s) = p" by simp
    then have "pending s = p @ drop (length p) (pending s)" by (metis append_take_drop_id)
    moreover have "packet_wf p" using assms(2) Cons by simp
    ultimately show False using frame_dec_packet [of p "drop (length p) (pending s)"] none by simp
  qed
qed

lemma on_stream_done:
  assumes "on_stream_at [] ps tail s" and "list_all packet_wf ps" and "c_input s = []"
  shows "ps = []" and "pending s = tail"
proof -
  have eq: "pending s = concat ps @ tail"
    using assms(1,3) by (simp add: on_stream_at_def)
  have none: "frame_dec (pending s) = None"
    using assms(1) by (simp add: on_stream_at_def)
  show "ps = []"
  proof (cases ps)
    case (Cons p qs)
    with eq frame_dec_packet [of p "concat qs @ tail"] none assms(2) show ?thesis by simp
  qed simp
  with eq show "pending s = tail" by simp
qed

lemma c_reads_drain:
  assumes "frame_dec tail = None" "\<not> zero_head tail" "length tail < 8192"
    and "list_all packet_wf ps" and "list_all (\<lambda>p. length p \<le> 8192) ps"
    and "on_stream_at [] ps tail s" and "length (c_input s) \<le> n"
  shows "\<exists>s'. c_reads hb (replicate n []) s = Some (map asynRecive ps, s')
    \<and> client_ok s' \<and> pending s' = tail \<and> c_input s' = []"
  using assms(4-)
proof (induction n arbitrary: ps s)
  case 0
  then have empty: "c_input s = []" by simp
  from on_stream_done [OF 0(3,1) this] 0(3) empty show ?case
    unfolding on_stream_at_def by (intro exI [of _ s]) simp
next
  case (Suc n)
  note space = on_stream_space [OF Suc.prems(3,1,2) assms(3)]
  have arr: "c_arrive [] s = s"
  proof -
    have "map_option (\<lambda>b. b\<lparr>bev_input := bev_input b @ []\<rparr>) (c_bev s) = c_bev s"
      by (cases "c_bev s") simp_all
    then show ?thesis by (simp add: c_arrive_def)
  qed
  from c_recv_on_stream [OF Suc.prems(1) assms(1,2) Suc.prems(3), of hb] obtain k s1 where
    k: "c_recv hb s = (Some (Inr (0, map asynRecive (take k ps))), s1)" "on_stream_at [] (drop k ps) tail s1"
    "c_input s1 = drop (8192 - length (pending s)) (c_input s)" by blast
  have "length (c_input s1) \<le> n" using k(3) space Suc.prems(4) by simp
  moreover have "list_all packet_wf (drop k ps)" "list_all (\<lambda>p. length p \<le> 8192) (drop k ps)"
    using Suc.prems(1,2) by (auto simp: list_all_iff dest: in_set_dropD)
  ultimately obtain s' where "c_reads hb (replicate n []) s1 = Some (map asynRecive (drop k ps), s')"
    "client_ok s'" "pending s' = tail" "c_input s' = []"
    using Suc.IH [of "drop k ps" s1] k(2) by blast
  with k(1) arr show ?case by (simp flip: map_append)
qed

lemma c_reads_append:
  "c_reads hb (cs @ ds) s = (case c_reads hb cs s of None \<Rightarrow> None
     | Some (ns, s') \<Rightarrow> (case c_reads hb ds s' of None \<Rightarrow> None | Some (ms, s'') \<Rightarrow> Some (ns @ ms, s'')))"
  by (induction cs arbitrary: s) (auto split: option.splits prod.splits sum.splits)

section \<open>Properties\<close>

definition connected_client :: "ClientIOSocket \<Rightarrow> bool" where
  "connected_client s \<longleftrightarrow> client_ok s \<and> c_bev s = Some \<lparr>bev_input = [], bev_output = []\<rparr> \<and> pending s = []"

text \<open>
  C5: Reassembly. However the network cuts a stream of packets into reads, and whatever part of
  a further packet has already arrived behind them, the client passes up packets of the
  stream only, each once, whole and in order, and no byte is lost: what it has not passed up
  is, in order, in its receive buffer and in the input of its bufferevent. It never faults and
  every read returns.
\<close>

theorem client_reassembly:
  assumes "connected_client s" and "list_all packet_wf ps" and "frame_dec tail = None" "\<not> zero_head tail"
    and "concat cs = concat ps @ tail"
  shows "\<exists>k s'. c_reads hb cs s = Some (map asynRecive (take k ps), s')
    \<and> concat (take k ps) @ pending s' @ c_input s' = concat cs \<and> client_ok s'"
proof -
  have "on_stream_at (concat cs @ []) ps tail s"
    using assms(1,5) by (simp add: connected_client_def on_stream_at_def c_input_def frame_dec_def)
  from c_reads_on_stream [OF assms(2-4) this, of hb] obtain k s' where k:
    "c_reads hb cs s = Some (map asynRecive (take k ps), s')" "on_stream_at [] (drop k ps) tail s'" by blast
  then have "concat (take k ps) @ pending s' @ c_input s' = concat (take k ps) @ concat (drop k ps) @ tail"
    by (simp add: on_stream_at_def)
  also have "\<dots> = concat ps @ tail" by (metis append.assoc append_take_drop_id concat_append)
  finally show ?thesis using k assms(5) by (auto simp: on_stream_at_def)
qed

theorem client_reassembly_witness:
  "\<exists>k s'. c_reads True [[8, 0, 1], [0, 1, 2, 3, 4, 8, 0]] ((ClientIOSocket_new 1)\<lparr>c_bev := Some \<lparr>bev_input = [], bev_output = []\<rparr>\<rparr>)
     = Some (map asynRecive (take k [[8, 0, 1, 0, 1, 2, 3, 4]]), s')"
proof -
  let ?s = "(ClientIOSocket_new 1)\<lparr>c_bev := Some \<lparr>bev_input = [], bev_output = []\<rparr>\<rparr>"
  have s: "connected_client ?s"
    by (simp add: connected_client_def ClientIOSocket_new_def client_ok_def pending_def)
  have p: "list_all packet_wf [[8, 0, 1, 0, 1, 2, 3, 4]]" "frame_dec [8, 0] = None" "\<not> zero_head [8, 0]"
    by (simp_all add: packet_wf_def packet_len_def frame_dec_def zero_head_def)
  from client_reassembly [OF s p, of "[[8, 0, 1], [0, 1, 2, 3, 4, 8, 0]]" True] show ?thesis by auto
qed

text \<open>
  C6: Progress. If no packet is larger than the receive buffer, every packet of the stream is
  passed up: as many further read events as bytes have arrived are enough to drain the input,
  and then exactly the unfinished packet is left in the buffer.
\<close>

theorem client_delivers_all:
  assumes "connected_client s" and "list_all packet_wf ps" and "list_all (\<lambda>p. length p \<le> 8192) ps"
    and "frame_dec tail = None" "\<not> zero_head tail" "length tail < 8192"
    and "concat cs = concat ps @ tail"
  shows "\<exists>s'. c_reads hb (cs @ replicate (length (concat cs)) []) s = Some (map asynRecive ps, s')
    \<and> pending s' = tail \<and> c_input s' = []"
proof -
  have "on_stream_at (concat cs @ []) ps tail s"
    using assms(1,7) by (simp add: connected_client_def on_stream_at_def c_input_def frame_dec_def)
  from c_reads_on_stream [OF assms(2,4,5) this, of hb] obtain k s' where k:
    "c_reads hb cs s = Some (map asynRecive (take k ps), s')" "on_stream_at [] (drop k ps) tail s'" by blast
  have eq: "pending s' @ c_input s' = concat (drop k ps) @ tail" using k(2) by (simp add: on_stream_at_def)
  have "concat cs = concat (take k ps) @ (concat (drop k ps) @ tail)"
    using assms(7) by (metis append.assoc append_take_drop_id concat_append)
  with eq have "concat cs = concat (take k ps) @ pending s' @ c_input s'" by simp
  then have "length (c_input s') \<le> length (concat cs)" by simp
  moreover have "list_all packet_wf (drop k ps)" "list_all (\<lambda>p. length p \<le> 8192) (drop k ps)"
    using assms(2,3) by (auto simp: list_all_iff dest: in_set_dropD)
  ultimately obtain s'' where
    "c_reads hb (replicate (length (concat cs)) []) s' = Some (map asynRecive (drop k ps), s'')"
    "pending s'' = tail" "c_input s'' = []"
    using c_reads_drain [OF assms(4-6) _ _ k(2), of "length (concat cs)" hb] by blast
  with k(1) show ?thesis
    by (simp add: c_reads_append flip: map_append)
qed

theorem client_delivers_all_witness:
  "\<exists>s'. c_reads True ([[4, 0, 1], [0, 4, 0, 1, 0, 4]] @ replicate 9 [])
       ((ClientIOSocket_new 1)\<lparr>c_bev := Some \<lparr>bev_input = [], bev_output = []\<rparr>\<rparr>)
     = Some (map asynRecive [[4, 0, 1, 0], [4, 0, 1, 0]], s') \<and> pending s' = [4]"
proof -
  let ?s = "(ClientIOSocket_new 1)\<lparr>c_bev := Some \<lparr>bev_input = [], bev_output = []\<rparr>\<rparr>"
  have s: "connected_client ?s"
    by (simp add: connected_client_def ClientIOSocket_new_def client_ok_def pending_def)
  have p: "list_all packet_wf [[4, 0, 1, 0], [4, 0, 1, 0]]" "list_all (\<lambda>p. length p \<le> 8192) [[4, 0, 1, 0 :: byte], [4, 0, 1, 0]]"
    "frame_dec [4] = None" "\<not> zero_head [4]" "length [4 :: byte] < 8192"
    by (simp_all add: packet_wf_def packet_len_def frame_dec_def zero_head_def)
  have cs: "concat [[4, 0, 1], [0, 4, 0, 1, 0, 4]] = concat [[4, 0, 1, 0], [4, 0, 1, 0]] @ [4 :: byte]"
    and len: "length (concat [[4, 0, 1], [0, 4, 0, 1, 0, 4 :: byte]]) = 9" by simp_all
  from client_delivers_all [OF s p cs, of True] show ?thesis unfolding len by blast
qed

text \<open>
  C7: A head that claims a length of zero stops the thread for good: the read that finds it at
  the start of the buffer never returns, because the loop passes an empty packet up without
  moving on.
\<close>

theorem client_zero_head_hangs:
  assumes "connected_client s" and "length bs \<le> 8192" and "zero_head bs"
  shows "fst (c_recv hb (c_arrive bs s)) = None"
proof -
  have len: "unat (c_recvBufLen s) = 0"
    using assms(1) length_pending [of s] by (simp add: connected_client_def)
  then have zero: "c_recvBufLen s = 0" by (simp add: unat_eq_zero)
  let ?s = "s\<lparr>c_bev := Some \<lparr>bev_input = [], bev_output = []\<rparr>\<rparr>"
  have "client_ok ?s" "unat (c_recvBufLen ?s) + length bs \<le> 8192" "zero_head (pending ?s @ bs)"
    using assms len by (simp_all add: connected_client_def client_ok_def pending_def)
  from c_received_stuck [OF this] show ?thesis
    using assms(1,2) zero
    by (simp add: c_recv_def c_arrive_def connected_client_def bufferevent_read_def)
qed

theorem client_zero_head_hangs_witness:
  "fst (c_recv False (c_arrive [0, 0, 1, 0]
     ((ClientIOSocket_new 1)\<lparr>c_bev := Some \<lparr>bev_input = [], bev_output = []\<rparr>\<rparr>))) = None"
  by (rule client_zero_head_hangs)
    (simp_all add: connected_client_def ClientIOSocket_new_def client_ok_def pending_def zero_head_def packet_len_def)

text \<open>
  A new connection starts in the middle of the old one. Connecting again keeps the bytes of
  the unfinished packet of the lost connection in the receive buffer, so the first read of the
  new connection cuts packets out of the old bytes followed by the new ones.
\<close>

theorem client_reconnect_keeps_old_bytes:
  assumes "client_ok s" and "toConnect fd conn nonblock True True s = (0, timer, ns, s')"
    and "unat (c_recvBufLen s) + length bs \<le> 8192" and "frames.cut (pending s @ bs) = (ps, t)" "\<not> zero_head t"
  shows "fst (c_recv hb (c_arrive bs s')) = Some (Inr (0, map asynRecive ps))"
proof -
  have s': "s' = s\<lparr>c_status := wait_connect, c_fd := of_int fd, c_bev := Some \<lparr>bev_input = [], bev_output = []\<rparr>\<rparr>"
    using assms(2) by (auto simp: toConnect_def Let_def split: if_splits)
  have ok: "client_ok s'" "pending s' = pending s" "c_recvBufLen s' = c_recvBufLen s"
    using assms(1) by (simp_all add: s' client_ok_def pending_def)
  have sp: "unat (MAX_BUFFER_SIZE - c_recvBufLen s') = 8192 - unat (c_recvBufLen s)"
    using assms(1) ok(3) by (simp add: of_nat_diff_word client_ok_def)
  let ?t = "s'\<lparr>c_bev := Some \<lparr>bev_input = [], bev_output = []\<rparr>\<rparr>"
  have t: "client_ok ?t" "unat (c_recvBufLen ?t) + length bs \<le> 8192" "frames.cut (pending ?t @ bs) = (ps, t)"
    using ok assms(3,4) by (simp_all add: client_ok_def pending_def)
  have "c_recv hb (c_arrive bs s') = c_received hb bs ?t"
    using sp assms(3) by (simp add: s' c_recv_def c_arrive_def bufferevent_read_def)
  with c_received_spec [OF t assms(5), of hb] show ?thesis by (metis fst_conv)
qed

theorem client_reconnect_keeps_old_bytes_witness:
  "\<exists>s'. snd (snd (snd (toConnect 5 0 0 True True
        ((ClientIOSocket_new 1)\<lparr>c_recvBuf := [8, 0, 1, 0] @ replicate 8188 0, c_recvBufLen := 4\<rparr>)))) = s'
     \<and> fst (c_recv False (c_arrive [8, 0, 1, 0, 9, 9, 9, 9] s'))
       = Some (Inr (0, [asynRecive [8, 0, 1, 0, 8, 0, 1, 0]]))"
proof -
  let ?s = "(ClientIOSocket_new 1)\<lparr>c_recvBuf := [8, 0, 1, 0] @ replicate 8188 0, c_recvBufLen := 4\<rparr>"
  obtain timer ns s' where con: "toConnect 5 0 0 True True ?s = (0, timer, ns, s')"
    by (simp add: toConnect_def Let_def) blast
  have ok: "client_ok ?s" "unat (c_recvBufLen ?s) + length [8, 0, 1, 0, 9, 9, 9, 9 :: byte] \<le> 8192"
    by (simp_all add: client_ok_def)
  have pend: "pending ?s @ [8, 0, 1, 0, 9, 9, 9, 9] = [8, 0, 1, 0, 8, 0, 1, 0] @ [9, 9, 9, 9]"
    by (simp add: pending_def)
  have "frames.cut (pending ?s @ [8, 0, 1, 0, 9, 9, 9, 9]) = ([[8, 0, 1, 0, 8, 0, 1, 0]], [9, 9, 9, 9])"
    unfolding pend
    by (subst frames.cut_Some [OF frame_dec_packet])
      (simp_all add: frames.cut_None frame_dec_def packet_wf_def packet_len_def)
  moreover have "\<not> zero_head [9, 9, 9, 9]" by (simp add: zero_head_def packet_len_def)
  ultimately show ?thesis
    using client_reconnect_keeps_old_bytes [OF ok(1) con ok(2), of _ _ False] con by simp
qed


section \<open>The send buffer\<close>

definition c_send_inv :: "ClientIOSocket \<Rightarrow> bool" where
  "c_send_inv s \<longleftrightarrow> length (c_sendBuf s) = 8192 \<and> unat (c_sendBufLen s) < 8192 \<and> c_bev s \<noteq> None"

definition c_queued :: "ClientIOSocket \<Rightarrow> byte list" where
  "c_queued s = take (unat (c_sendBufLen s)) (c_sendBuf s)"

definition c_wire :: "ClientIOSocket \<Rightarrow> byte list" where
  "c_wire s = (case c_bev s of None \<Rightarrow> [] | Some b \<Rightarrow> bev_output b)"

text \<open>The two operations without their faults, which \<open>c_send_inv\<close> excludes.\<close>

definition c_expand :: "byte list \<Rightarrow> ClientIOSocket \<Rightarrow> bool \<times> ClientIOSocket" where
  "c_expand p s = (case c_expandSendBuf p (of_nat (length p)) s of (r, s') \<Rightarrow> (r = Inr True, s'))"

definition c_consume :: "ClientIOSocket \<Rightarrow> ClientIOSocket" where
  "c_consume s = snd (c_consumeSendBuf s)"

lemma length_c_queued: "c_send_inv s \<Longrightarrow> length (c_queued s) = unat (c_sendBufLen s)"
  by (simp add: c_send_inv_def c_queued_def)

lemma c_expand_spec:
  assumes inv: "c_send_inv s" and len: "length p < 2 ^ 31"
  shows "c_expandSendBuf p (of_nat (length p)) s =
    (if length (c_queued s) + length p < 8192
     then (Inr True, s\<lparr>c_sendBuf := mem_put (unat (c_sendBufLen s)) p (c_sendBuf s),
                       c_sendBufLen := c_sendBufLen s + of_nat (length p)\<rparr>)
     else (Inr False, s))"
proof -
  have s: "unat (c_sendBufLen s) < 8192" "length (c_sendBuf s) = 8192"
    using inv by (simp_all add: c_send_inv_def)
  have n: "unat (of_nat (length p) :: u32) = length p" using len by (simp add: unat_of_nat)
  have "MAX_BUFFER_SIZE \<le> of_nat (length p) + c_sendBufLen s \<longleftrightarrow> \<not> length (c_queued s) + length p < 8192"
  proof -
    have big: "unat MAX_BUFFER_SIZE = 8192" by simp
    have "unat (c_sendBufLen s) < 2 ^ 31" using s(1) by simp
    from unat_sum_small [OF len this] show ?thesis
      unfolding word_le_nat_alt length_c_queued [OF inv] big by linarith
  qed
  then show ?thesis
    using s n length_c_queued [OF inv] by (simp add: c_expandSendBuf_def)
qed

lemma c_consume_spec:
  assumes "c_send_inv s"
  obtains b where "c_bev s = Some b" and "c_consumeSendBuf s = (Inr True,
    if c_queued s = [] then s
    else s\<lparr>c_bev := Some (b\<lparr>bev_output := bev_output b @ c_queued s\<rparr>), c_sendBufLen := 0\<rparr>)"
proof -
  from assms obtain b where b: "c_bev s = Some b" by (auto simp: c_send_inv_def)
  have "c_queued s = [] \<longleftrightarrow> \<not> c_sendBufLen s > 0"
    using length_c_queued [OF assms] by (metis length_0_conv unat_eq_zero word_gt_0)
  with b have "c_consumeSendBuf s = (Inr True,
    if c_queued s = [] then s
    else s\<lparr>c_bev := Some (b\<lparr>bev_output := bev_output b @ c_queued s\<rparr>), c_sendBufLen := 0\<rparr>)"
    by (auto simp: c_consumeSendBuf_def c_hadSendBufData_def c_toSend_def bufferevent_write_def c_queued_def)
  with b show ?thesis by (rule that)
qed

interpretation c_send: send_batching c_expand c_consume c_queued c_wire "\<lambda>bs. bs" 8192 c_send_inv
proof unfold_locales
  fix s p b s'
  assume inv: "c_send_inv s" and len: "length p < 2 ^ 31" and ex: "c_expand p s = (b, s')"
  note e = c_expand_spec [OF inv len]
  have s: "unat (c_sendBufLen s) < 8192" "length (c_sendBuf s) = 8192"
    using inv by (simp_all add: c_send_inv_def)
  show "c_send_inv s' \<and> c_wire s' = c_wire s \<and> b = (length (c_queued s) + length p < 8192)
      \<and> c_queued s' = (if b then c_queued s @ p else c_queued s)"
  proof (cases "length (c_queued s) + length p < 8192")
    case True
    then have n: "unat (c_sendBufLen s + of_nat (length p)) = unat (c_sendBufLen s) + length p"
      using unat_sum_small [OF len, of "c_sendBufLen s"] s by (simp add: add.commute)
    from True e ex n s inv length_c_queued [OF inv] show ?thesis
      by (auto simp: c_expand_def c_send_inv_def c_wire_def c_queued_def mem_simps)
  next
    case False
    with e ex inv show ?thesis by (simp add: c_expand_def)
  qed
next
  fix s
  assume inv: "c_send_inv s"
  obtain b where b: "c_bev s = Some b" and c: "c_consumeSendBuf s = (Inr True,
    if c_queued s = [] then s
    else s\<lparr>c_bev := Some (b\<lparr>bev_output := bev_output b @ c_queued s\<rparr>), c_sendBufLen := 0\<rparr>)"
    using c_consume_spec [OF inv] by metis
  have "c_consume s = (if c_queued s = [] then s
    else s\<lparr>c_bev := Some (b\<lparr>bev_output := bev_output b @ c_queued s\<rparr>), c_sendBufLen := 0\<rparr>)"
    by (simp add: c_consume_def c)
  then show "c_send_inv (c_consume s) \<and> c_queued (c_consume s) = []
      \<and> c_wire (c_consume s) = c_wire s @ (if c_queued s = [] then [] else c_queued s)"
    using inv b by (auto simp: c_send_inv_def c_queued_def c_wire_def)
next
  fix s
  assume inv: "c_send_inv s" and e: "c_queued s = []"
  show "c_consume s = s"
    by (rule c_consume_spec [OF inv]) (simp add: c_consume_def e)
qed

end
