(* ===== verification/ClientSide.thy ===== *)
theory ClientSide
  imports ClientIO ServerLogic
begin

text \<open>
  The client's threads: the I/O thread of \<^verbatim>\<open>libsocket/ClientSocketIOThread.cpp\<close>, the logic side of
  \<^verbatim>\<open>libsocket/ClientSocket.cpp\<close>, and the agents of \<^verbatim>\<open>libsocket/AgentServer.cpp\<close> with their
  heartbeat. Calls of the application's callbacks are recorded in the order they are made.
\<close>

section \<open>The I/O thread\<close>

record ClientSocketIOThread =
  ct_queue :: "threadPackage list"
  ct_wakes :: nat
  ct_reConnectTime :: int
  ct_sockets :: "u64 \<rightharpoonup> ClientIOSocket"
  ct_up :: "threadPackage list"

text \<open>
  From outside: byte order, the limit of packages, the answers to the system calls of
  \<open>toConnect\<close> for a connection id, and the address of a new socket object.
\<close>

record client_env =
  ce_hb :: bool
  ce_deal :: int
  ce_connect :: "int \<Rightarrow> int \<times> int \<times> int \<times> bool \<times> bool"
  ce_alloc :: "(u64 \<rightharpoonup> ClientIOSocket) \<Rightarrow> u64"

definition ct_push :: "threadPackage \<Rightarrow> ClientSocketIOThread \<Rightarrow> ClientSocketIOThread" where
  "ct_push p ct = ct\<lparr>ct_queue := ct_queue ct @ [p], ct_wakes := ct_wakes ct + 1\<rparr>"

definition ct_asynConnect :: "int \<Rightarrow> byte list \<Rightarrow> ClientSocketIOThread \<Rightarrow> ClientSocketIOThread" where
  "ct_asynConnect i addr =
     ct_push (threadPackage_new\<lparr>p_cmd := cmd_value cmd_connect, p_name := of_int i, p_buf := Some addr,
       p_len := of_nat (length addr)\<rparr>)"

definition ct_asynSend :: "u64 \<Rightarrow> byte list \<Rightarrow> u32 \<Rightarrow> ClientSocketIOThread \<Rightarrow> ClientSocketIOThread" where
  "ct_asynSend a buf n =
     ct_push (threadPackage_new\<lparr>p_cmd := cmd_value cmd_send_buf, p_name := a, p_buf := Some buf, p_len := n\<rparr>)"

text \<open>\<open>ClientSocket::asynConnectEnd\<close> passes its flag in a block of four bytes.\<close>

fun note_package :: "bool \<Rightarrow> u64 \<Rightarrow> client_note \<Rightarrow> threadPackage" where
  "note_package hb a (asynConnectEnd flag) =
     threadPackage_new\<lparr>p_cmd := cmd_value cmd_connect_end, p_name := a,
       p_buf := Some (host_bytes hb 4 (unat (of_int flag :: u32)))\<rparr>"
| "note_package hb a asynClose = up_close a"
| "note_package hb a (asynRecive buf) = up_recive a buf"

type_synonym ct_op = "ClientSocketIOThread \<Rightarrow> (fault + u64 list) \<times> ClientSocketIOThread"

definition ct_connect :: "client_env \<Rightarrow> threadPackage \<Rightarrow> ct_op" where
  "ct_connect env p ct =
     (if length (pack_bytes p) < sizeof_sockaddr then (Inl OutOfBounds, ct)
      else
        let i = sint (ucast (p_name p) :: u32);
            s = (ClientIOSocket_new i)\<lparr>c_reConnectTime := ct_reConnectTime ct\<rparr>;
            a = ce_alloc env (ct_sockets ct)
        in (case ce_connect env i of
              (fd, conn, nonblock, bev_ok, enable_ok) \<Rightarrow>
                (case toConnect fd conn nonblock bev_ok enable_ok s of
                   (_, _, ns, s) \<Rightarrow>
                     (Inr [], ct\<lparr>ct_sockets := (ct_sockets ct)(a \<mapsto> s),
                                 ct_up := ct_up ct @ map (note_package (ce_hb env) a) ns\<rparr>))))"

definition ct_send :: "threadPackage \<Rightarrow> ct_op" where
  "ct_send p ct =
     (let a = p_name p in
      if a = 0 then (Inr [], ct)
      else case ct_sockets ct a of
        None \<Rightarrow> (Inl UseAfterFree, ct)
      | Some s \<Rightarrow>
          let put = (\<lambda>s. ct\<lparr>ct_sockets := (ct_sockets ct)(a \<mapsto> s)\<rparr>)
          in (case c_expandSendBuf (pack_bytes p) (p_len p) s of
                (Inl f, s) \<Rightarrow> (Inl f, put s)
              | (Inr True, s) \<Rightarrow> (Inr [a], put s)
              | (Inr False, s) \<Rightarrow>
                  (case c_consumeSendBuf s of
                     (Inl f, s) \<Rightarrow> (Inl f, put s)
                   | (Inr _, s) \<Rightarrow>
                       (case c_expandSendBuf (pack_bytes p) (p_len p) s of
                          (Inl f, s) \<Rightarrow> (Inl f, put s)
                        | (Inr _, s) \<Rightarrow> (Inr [], put s)))))"

definition ct_step :: "client_env \<Rightarrow> threadPackage \<Rightarrow> ct_op" where
  "ct_step env p ct =
     (if p_cmd p = cmd_value cmd_connect then ct_connect env p ct
      else if p_cmd p = cmd_value cmd_send_buf then ct_send p ct
      else (Inr [], ct))"

fun ct_loop :: "client_env \<Rightarrow> int \<Rightarrow> threadPackage list \<Rightarrow> u64 list \<Rightarrow> ct_op" where
  "ct_loop env k [] need ct = (Inr need, ct\<lparr>ct_queue := []\<rparr>)"
| "ct_loop env k (p # ps) need ct =
     (if k \<le> ce_deal env then
        (case ct_step env p (ct\<lparr>ct_queue := ps\<rparr>) of
           (Inl f, ct) \<Rightarrow> (Inl f, ct)
         | (Inr xs, ct) \<Rightarrow> ct_loop env (k + 1) ps (need @ xs) ct)
      else (Inr need, ct\<lparr>ct_queue := p # ps\<rparr>))"

fun ct_flush :: "u64 list \<Rightarrow> ClientSocketIOThread \<Rightarrow> (fault + unit) \<times> ClientSocketIOThread" where
  "ct_flush [] ct = (Inr (), ct)"
| "ct_flush (a # as) ct =
     (if a = 0 then ct_flush as ct
      else case ct_sockets ct a of
        None \<Rightarrow> (Inl UseAfterFree, ct)
      | Some s \<Rightarrow>
          if c_hadSendBufData s then
            (case c_consumeSendBuf s of
               (Inl f, s) \<Rightarrow> (Inl f, ct\<lparr>ct_sockets := (ct_sockets ct)(a \<mapsto> s)\<rparr>)
             | (Inr _, s) \<Rightarrow> ct_flush as (ct\<lparr>ct_sockets := (ct_sockets ct)(a \<mapsto> s)\<rparr>))
          else ct_flush as ct)"

definition ct_pairCallback :: "client_env \<Rightarrow> ClientSocketIOThread \<Rightarrow> (fault + unit) \<times> ClientSocketIOThread" where
  "ct_pairCallback env ct =
     (let ct = ct\<lparr>ct_wakes := ct_wakes ct - 16\<rparr>
      in (case ct_loop env 0 (ct_queue ct) [] ct of
            (Inl f, ct) \<Rightarrow> (Inl f, ct)
          | (Inr need, ct) \<Rightarrow>
              (case ct_flush need ct of
                 (Inl f, ct) \<Rightarrow> (Inl f, ct)
               | (Inr _, ct) \<Rightarrow>
                   (Inr (), if ct_queue ct \<noteq> [] then ct\<lparr>ct_wakes := ct_wakes ct + 1\<rparr> else ct))))"

section \<open>The logic side\<close>

record AgentServer =
  as_socket :: u64
  as_serverType :: int
  as_lastHeartTime :: u32

definition AgentServer_new :: "u64 \<Rightarrow> AgentServer" where
  "AgentServer_new a = \<lparr>as_socket = a, as_serverType = 0, as_lastHeartTime = 0\<rparr>"

datatype client_event =
  onConnectServer u64 int | onServerRecive u64 ProtocolHead "byte list" | onServerClose u64

record ClientSocket =
  cs_pairDealCount :: int
  cs_threads :: "ClientSocketIOThread list"
  cs_currentThread :: nat
  cs_queue :: "threadPackage list"
  cs_wakes :: nat
  cs_mapAgents :: "u64 \<rightharpoonup> u64"
  cs_agents :: "u64 \<rightharpoonup> AgentServer"
  cs_events :: "client_event list"

type_synonym 'a cs_op = "ClientSocket \<Rightarrow> (fault + 'a) \<times> ClientSocket"

fun csock_at :: "ClientSocketIOThread list \<Rightarrow> u64 \<Rightarrow> (nat \<times> ClientIOSocket) option" where
  "csock_at [] a = None"
| "csock_at (t # ts) a =
     (case ct_sockets t a of
        Some s \<Rightarrow> Some (0, s)
      | None \<Rightarrow> map_option (\<lambda>(i, s). (Suc i, s)) (csock_at ts a))"

definition deref_csocket :: "u64 \<Rightarrow> (nat \<times> ClientIOSocket) cs_op" where
  "deref_csocket a cs =
     (if a = 0 then (Inl NullDeref, cs)
      else case csock_at (cs_threads cs) a of
        None \<Rightarrow> (Inl UseAfterFree, cs)
      | Some r \<Rightarrow> (Inr r, cs))"

definition deref_cagent :: "u64 \<Rightarrow> AgentServer cs_op" where
  "deref_cagent g cs =
     (if g = 0 then (Inl NullDeref, cs)
      else case cs_agents cs g of None \<Rightarrow> (Inl UseAfterFree, cs) | Some ag \<Rightarrow> (Inr ag, cs))"

definition on_cthread :: "nat \<Rightarrow> (ClientSocketIOThread \<Rightarrow> ClientSocketIOThread) \<Rightarrow> ClientSocket \<Rightarrow> ClientSocket" where
  "on_cthread i f cs = cs\<lparr>cs_threads := (cs_threads cs)[i := f (cs_threads cs ! i)]\<rparr>"

definition cs_getAgent :: "u64 \<Rightarrow> u64 option cs_op" where
  "cs_getAgent a =
     (if a = 0 then returnM None
      else bindM (deref_csocket a) (\<lambda>(_, s). \<lambda>cs. (Inr (cs_mapAgents cs (c_fd s)), cs)))"

definition cs_deleteAgent :: "u64 \<Rightarrow> unit cs_op" where
  "cs_deleteAgent g =
     (if g = 0 then returnM ()
      else bindM (deref_cagent g) (\<lambda>ag.
           seqM (if as_socket ag = 0 then returnM ()
                 else bindM (deref_csocket (as_socket ag)) (\<lambda>(_, s). \<lambda>cs.
                      (Inr (), cs\<lparr>cs_mapAgents := (cs_mapAgents cs)(c_fd s := None)\<rparr>)))
                (\<lambda>cs. (Inr (), cs\<lparr>cs_agents := (cs_agents cs)(g := None)\<rparr>))))"

definition notify :: "client_event \<Rightarrow> unit cs_op" where
  "notify e cs = (Inr (), cs\<lparr>cs_events := cs_events cs @ [e]\<rparr>)"

text \<open>\<open>ret\<close> is the answer of the \<open>send\<close> on the thread's pipe.\<close>

definition cs_asynConnect :: "int \<Rightarrow> int \<Rightarrow> byte list \<Rightarrow> ClientSocket \<Rightarrow> int \<times> ClientSocket" where
  "cs_asynConnect ret i addr cs =
     (let cs = on_cthread (cs_currentThread cs) (ct_asynConnect i addr) cs
      in if ret \<noteq> 1 then (ret, cs)
         else (ret, cs\<lparr>cs_currentThread :=
           (if cs_currentThread cs + 1 \<ge> length (cs_threads cs) then 0 else cs_currentThread cs + 1)\<rparr>))"

definition cs_connect_end :: "bool \<Rightarrow> (ClientSocket \<Rightarrow> u64) \<Rightarrow> threadPackage \<Rightarrow> unit cs_op" where
  "cs_connect_end hb alloc p =
     (if length (pack_bytes p) < 4 then throwM OutOfBounds
      else
        let flag = sint (of_nat (host_value hb (take 4 (pack_bytes p))) :: u32); a = p_name p
        in if a = 0 then returnM ()
           else bindM (cs_getAgent a) (\<lambda>agent.
             case agent of
               Some _ \<Rightarrow> returnM ()
             | None \<Rightarrow>
                 bindM (deref_csocket a) (\<lambda>(_, s). \<lambda>cs.
                   let g = alloc cs
                   in notify (onConnectServer g flag)
                        (cs\<lparr>cs_agents := (cs_agents cs)(g \<mapsto> AgentServer_new a),
                            cs_mapAgents := (cs_mapAgents cs)(c_fd s \<mapsto> g)\<rparr>))))"

definition cs_recive :: "bool \<Rightarrow> threadPackage \<Rightarrow> unit cs_op" where
  "cs_recive hb p =
     (let a = p_name p in
      if a = 0 then returnM ()
      else bindM (cs_getAgent a) (\<lambda>agent.
        case agent of
          Some g \<Rightarrow>
            (case READXY (get_head hb) (pack_bytes p) (unat (p_len p)) of
               Inl (Fault f) \<Rightarrow> throwM f
             | Inl e \<Rightarrow> returnM ()
             | Inr head \<Rightarrow> notify (onServerRecive g head (pack_bytes p)))
        | None \<Rightarrow> returnM ()))"

definition cs_close :: "threadPackage \<Rightarrow> unit cs_op" where
  "cs_close p =
     (let a = p_name p in
      if a = 0 then returnM ()
      else bindM (cs_getAgent a) (\<lambda>agent.
        case agent of
          Some g \<Rightarrow> seqM (notify (onServerClose g)) (cs_deleteAgent g)
        | None \<Rightarrow> returnM ()))"

definition cs_step :: "bool \<Rightarrow> (ClientSocket \<Rightarrow> u64) \<Rightarrow> threadPackage \<Rightarrow> unit cs_op" where
  "cs_step hb alloc p =
     (if p_cmd p = cmd_value cmd_connect_end then cs_connect_end hb alloc p
      else if p_cmd p = cmd_value cmd_recv_buf then cs_recive hb p
      else if p_cmd p = cmd_value cmd_close then cs_close p
      else returnM ())"

fun cs_loop :: "bool \<Rightarrow> (ClientSocket \<Rightarrow> u64) \<Rightarrow> int \<Rightarrow> threadPackage list \<Rightarrow> unit cs_op" where
  "cs_loop hb alloc k [] cs = (Inr (), cs\<lparr>cs_queue := []\<rparr>)"
| "cs_loop hb alloc k (p # ps) cs =
     (if k \<le> cs_pairDealCount cs then
        (case cs_step hb alloc p (cs\<lparr>cs_queue := ps\<rparr>) of
           (Inl f, cs) \<Rightarrow> (Inl f, cs)
         | (Inr _, cs) \<Rightarrow> cs_loop hb alloc (k + 1) ps cs)
      else (Inr (), cs\<lparr>cs_queue := p # ps\<rparr>))"

definition cs_pairCallback :: "bool \<Rightarrow> (ClientSocket \<Rightarrow> u64) \<Rightarrow> unit cs_op" where
  "cs_pairCallback hb alloc cs =
     (case cs_loop hb alloc 0 (cs_queue cs) (cs\<lparr>cs_wakes := cs_wakes cs - 16\<rparr>) of
        (Inl f, cs) \<Rightarrow> (Inl f, cs)
      | (Inr _, cs) \<Rightarrow> (Inr (), if cs_queue cs \<noteq> [] then cs\<lparr>cs_wakes := cs_wakes cs + 1\<rparr> else cs))"

section \<open>Heartbeats\<close>

definition cagent_send :: "u64 \<Rightarrow> byte list \<Rightarrow> u32 \<Rightarrow> unit cs_op" where
  "cagent_send g buf n =
     bindM (deref_cagent g) (\<lambda>ag.
     bindM (deref_csocket (as_socket ag)) (\<lambda>(i, _). \<lambda>cs.
       (Inr (), on_cthread i (ct_asynSend (as_socket ag) buf n) cs)))"

text \<open>
  \<open>tryHeartBeat\<close>; the packet is built by the same statements as the macro
  \<open>GET_TEMPLATE_BUF\<close>. Nothing catches an exception here.
\<close>

definition tryHeartBeat :: "bool \<Rightarrow> u32 \<Rightarrow> u64 \<Rightarrow> unit cs_op" where
  "tryHeartBeat hb now g =
     bindM (deref_cagent g) (\<lambda>ag.
       if as_lastHeartTime ag = 0 \<or> now - as_lastHeartTime ag \<ge> 60 then
         let sendbuf = replicate (unat (fixSize (of_nat sizeof_Heartbeat))) 0
         in (case GET_TEMPLATE_BUF hb sendbuf head_reset XYID_HEARTBEAT sizeof_Heartbeat
                  (put_heartbeat hb (heartbeat_reset\<lparr>timestamp := now\<rparr>)) of
               (Inl (Fault f), _) \<Rightarrow> throwM f
             | (Inl e, _) \<Rightarrow> throwM OutOfBounds
             | (Inr h, sendbuf) \<Rightarrow>
                 seqM (cagent_send g sendbuf (ucast (h_len h)))
                      (\<lambda>cs. (Inr (), cs\<lparr>cs_agents := (cs_agents cs)(g \<mapsto> ag\<lparr>as_lastHeartTime := now\<rparr>)\<rparr>)))
       else returnM ())"

section \<open>Rounds of sends\<close>

definition all_cready :: "(u64 \<rightharpoonup> ClientIOSocket) \<Rightarrow> bool" where
  "all_cready m \<longleftrightarrow> (\<forall>a s. m a = Some s \<longrightarrow> c_send_inv s)"

definition send_cpack :: "(u64 \<rightharpoonup> ClientIOSocket) \<Rightarrow> threadPackage \<Rightarrow> bool" where
  "send_cpack m p \<longleftrightarrow> p_cmd p = cmd_value cmd_send_buf \<and> p_name p \<noteq> 0 \<and> m (p_name p) \<noteq> None
     \<and> p_len p = of_nat (length (pack_bytes p)) \<and> length (pack_bytes p) < 2 ^ 31"

abbreviation cli_batch :: "u64 \<times> byte list \<Rightarrow> (u64 \<rightharpoonup> ClientIOSocket) \<times> u64 list \<Rightarrow> (u64 \<rightharpoonup> ClientIOSocket) \<times> u64 list" where
  "cli_batch \<equiv> c_send.batch_one"

lemma c_expandSendBuf_pure:
  assumes "c_send_inv s" and "length p < 2 ^ 31"
  shows "c_expandSendBuf p (of_nat (length p)) s = (Inr (fst (c_expand p s)), snd (c_expand p s))"
  using c_expand_spec [OF assms] by (simp add: c_expand_def)

lemma c_consumeSendBuf_pure:
  assumes "c_send_inv s"
  shows "c_consumeSendBuf s = (Inr True, c_consume s)"
  by (rule c_consume_spec [OF assms]) (simp add: c_consume_def)

lemma c_send_one_inv: "c_send_inv s \<Longrightarrow> length p < 2 ^ 31 \<Longrightarrow> c_send_inv (c_send.send_one p s)"
  using c_send.send_one_spec by blast

lemma ct_send_batch:
  assumes "c_send_inv s" and "ct_sockets ct (p_name p) = Some s" and "send_cpack (ct_sockets ct) p"
  shows "\<exists>need1. ct_step env p ct = (Inr need1, ct\<lparr>ct_sockets := (ct_sockets ct)(p_name p \<mapsto> c_send.send_one (pack_bytes p) s)\<rparr>)
    \<and> cli_batch (send_of p) (ct_sockets ct, need)
      = ((ct_sockets ct)(p_name p \<mapsto> c_send.send_one (pack_bytes p) s), need @ need1) \<and> set need1 \<subseteq> {p_name p}"
proof -
  let ?a = "p_name p" and ?bs = "pack_bytes p"
  have p: "?a \<noteq> 0" "p_len p = of_nat (length ?bs)" "length ?bs < 2 ^ 31" and step: "ct_step env p ct = ct_send p ct"
    using assms(3) by (auto simp: send_cpack_def ct_step_def)
  obtain c s1 where 1: "c_expand ?bs s = (c, s1)" by fastforce
  have i1: "c_send_inv s1" using c_send.expand_law [OF assms(1) p(3) 1] by simp
  note e = c_expandSendBuf_pure [OF assms(1) p(3)] and c1 = c_consumeSendBuf_pure [OF i1]
    and i2 = c_send.consume_law [OF i1, THEN conjunct1]
  note e2 = c_expandSendBuf_pure [OF i2 p(3)]
  show ?thesis
    unfolding step ct_send_def p(2)
    using assms(2) p(1) 1 e c1 e2
    by (cases c) (simp_all add: Let_def send_of_def c_send.batch_one_def c_send.send_one_def)
qed

lemma ct_loop_sends:
  assumes "all_cready (ct_sockets ct)" and "list_all (send_cpack (ct_sockets ct)) ps"
    and "k + int (length ps) \<le> ce_deal env + 1"
    and "fold cli_batch (map send_of ps) (ct_sockets ct, need) = (m', need')"
  shows "ct_loop env k ps need ct = (Inr need', ct\<lparr>ct_queue := [], ct_sockets := m'\<rparr>)
    \<and> all_cready m' \<and> dom m' = dom (ct_sockets ct) \<and> set need' \<subseteq> set need \<union> set (map p_name ps)"
  using assms
proof (induction ps arbitrary: k need ct)
  case (Cons p ps)
  let ?m = "ct_sockets ct" and ?ct = "ct\<lparr>ct_queue := ps\<rparr>"
  have sp: "send_cpack ?m p" using Cons.prems(2) by simp
  then obtain s where s: "?m (p_name p) = Some s" by (auto simp: send_cpack_def)
  have i: "c_send_inv s" using Cons.prems(1) s by (simp add: all_cready_def)
  let ?m1 = "?m(p_name p \<mapsto> c_send.send_one (pack_bytes p) s)"
  obtain n1 where n1: "ct_step env p ?ct = (Inr n1, ?ct\<lparr>ct_sockets := ?m1\<rparr>)"
    "cli_batch (send_of p) (?m, need) = (?m1, need @ n1)" "set n1 \<subseteq> {p_name p}"
    using ct_send_batch [of s ?ct p env need] i s sp by auto
  have "c_send_inv (c_send.send_one (pack_bytes p) s)"
    using c_send_one_inv [OF i] sp by (simp add: send_cpack_def)
  then have m1: "all_cready ?m1" using Cons.prems(1) by (auto simp: all_cready_def)
  have dm: "dom ?m1 = dom ?m" using s by auto
  have "list_all (send_cpack ?m1) ps"
    using Cons.prems(2) s by (auto simp: list_all_iff send_cpack_def)
  then have "ct_loop env (k + 1) ps (need @ n1) (?ct\<lparr>ct_sockets := ?m1\<rparr>)
      = (Inr need', ?ct\<lparr>ct_sockets := ?m1\<rparr>\<lparr>ct_queue := [], ct_sockets := m'\<rparr>)
    \<and> all_cready m' \<and> dom m' = dom (ct_sockets (?ct\<lparr>ct_sockets := ?m1\<rparr>)) \<and> set need' \<subseteq> set (need @ n1) \<union> set (map p_name ps)"
    using Cons.prems(3,4) m1 n1(2) by (intro Cons.IH) (simp_all del: fun_upd_apply)
  then show ?case using n1(1,3) Cons.prems(3) dm by (auto simp del: fun_upd_apply)
qed simp

lemma ct_flush_flush:
  assumes "all_cready (ct_sockets ct)" and "\<And>a. a \<in> set need \<Longrightarrow> a \<noteq> 0 \<and> a \<in> dom (ct_sockets ct)"
  shows "ct_flush need ct = (Inr (), ct\<lparr>ct_sockets := c_send.flush need (ct_sockets ct)\<rparr>)"
  using assms
proof (induction need arbitrary: ct)
  case (Cons a need)
  let ?m = "ct_sockets ct"
  obtain s where s: "?m a = Some s" and a: "a \<noteq> 0" using Cons.prems(2) [of a] by auto
  have i: "c_send_inv s" using Cons.prems(1) s by (simp add: all_cready_def)
  let ?m1 = "?m(a \<mapsto> c_consume s)"
  have r1: "all_cready ?m1" using Cons.prems(1) c_send.consume_law [OF i] by (auto simp: all_cready_def)
  have had: "c_hadSendBufData s \<longleftrightarrow> c_queued s \<noteq> []"
    using length_c_queued [OF i] length_greater_0_conv [of "c_queued s"]
    by (simp add: c_hadSendBufData_def word_less_nat_alt)
  have one: "ct_flush (a # need) ct = ct_flush need (ct\<lparr>ct_sockets := ?m1\<rparr>)"
  proof (cases "c_queued s = []")
    case True
    then have "?m1 = ?m" using s c_send.consume_idle [OF i] by auto
    then show ?thesis using s a had True by simp
  qed (use s a had c_consumeSendBuf_pure [OF i] in simp)
  have "ct_flush need (ct\<lparr>ct_sockets := ?m1\<rparr>)
      = (Inr (), ct\<lparr>ct_sockets := ?m1\<rparr>\<lparr>ct_sockets := c_send.flush need (ct_sockets (ct\<lparr>ct_sockets := ?m1\<rparr>))\<rparr>)"
    using r1 Cons.prems(2) by (intro Cons.IH) (auto simp del: fun_upd_apply)
  then show ?case unfolding one using s by (simp add: c_send.flush_def)
qed (simp add: c_send.flush_def)

text \<open>
  The client's sends reach the wire. A batch of send packages within the callback's limit,
  to connected sockets that hold nothing unsent, is written without fault, per connection in
  the order of the queue and without anything in between, packets too long for the send buffer
  left out; afterwards nothing is unsent.
\<close>

theorem client_batch_sends:
  assumes "all_cready (ct_sockets ct)" and "list_all (send_cpack (ct_sockets ct)) (ct_queue ct)"
    and "int (length (ct_queue ct)) \<le> ce_deal env + 1"
    and "ct_sockets ct a = Some s" and "c_queued s = []"
    and "mine = map pack_bytes (filter (\<lambda>p. p_name p = a) (ct_queue ct))"
  shows "\<exists>ct' s'. ct_pairCallback env ct = (Inr (), ct') \<and> ct_queue ct' = []
    \<and> ct_sockets ct' a = Some s' \<and> c_queued s' = []
    \<and> c_wire s' = c_wire s @ concat (filter (\<lambda>bs. length bs < 8192) mine)"
proof -
  let ?ps = "ct_queue ct" and ?m = "ct_sockets ct" and ?ct = "ct\<lparr>ct_wakes := ct_wakes ct - 16\<rparr>"
  obtain m' need where fd: "fold cli_batch (map send_of ?ps) (?m, []) = (m', need)" by fastforce
  have "ct_loop env 0 ?ps [] ?ct = (Inr need, ?ct\<lparr>ct_queue := [], ct_sockets := m'\<rparr>)
      \<and> all_cready m' \<and> dom m' = dom (ct_sockets ?ct) \<and> set need \<subseteq> set [] \<union> set (map p_name ?ps)"
    using assms(1-3) fd by (intro ct_loop_sends) simp_all
  then have loop: "ct_loop env 0 ?ps [] ?ct = (Inr need, ?ct\<lparr>ct_queue := [], ct_sockets := m'\<rparr>)"
    and m': "all_cready m'" "dom m' = dom ?m" "set need \<subseteq> p_name ` set ?ps" by auto
  let ?ct1 = "?ct\<lparr>ct_queue := [], ct_sockets := m'\<rparr>"
  have live: "b \<noteq> 0 \<and> b \<in> dom m'" if "b \<in> set need" for b
    using that m'(2,3) assms(2) by (auto simp: list_all_iff send_cpack_def)
  have flush: "ct_flush need ?ct1 = (Inr (), ?ct1\<lparr>ct_sockets := c_send.flush need m'\<rparr>)"
    using ct_flush_flush [of ?ct1 need] m'(1) live by simp
  have i: "c_send_inv s" using assms(1,4) by (simp add: all_cready_def)
  have len: "list_all (\<lambda>ap. length (snd ap) < 2 ^ 31) (map send_of ?ps)" "list_all (\<lambda>p. length p < 2 ^ 31) mine"
    unfolding assms(6) using assms(2) by (auto simp: list_all_iff send_cpack_def send_of_def)
  have mine: "map snd (filter (\<lambda>ap. fst ap = a) (map send_of ?ps)) = mine"
    unfolding assms(6) by (simp add: filter_map comp_def send_of_def)
  have at: "c_send.flush need m' a = Some (c_send.send_round mine s)"
    using c_send.batch_round [of ?m a s "map send_of ?ps" m' need, OF assms(4) i len(1) assms(5) fd] mine
    by simp
  have fits: "c_send.fits = (\<lambda>bs. length bs < 8192)" by (simp add: fun_eq_iff c_send.fits_def)
  have "c_wire (c_send.send_round mine s) = c_wire s @ concat (filter (\<lambda>bs. length bs < 8192) mine)"
    "c_queued (c_send.send_round mine s) = []"
    using c_send.send_round_plain [OF i len(2)] c_send.send_round_spec [OF i len(2)] assms(5) fits by simp_all
  moreover have "ct_pairCallback env ct = (Inr (), ?ct1\<lparr>ct_sockets := c_send.flush need m'\<rparr>)"
    using loop flush by (simp add: ct_pairCallback_def Let_def)
  ultimately show ?thesis
    using at by (intro exI [of _ "?ct1\<lparr>ct_sockets := c_send.flush need m'\<rparr>"]
        exI [of _ "c_send.send_round mine s"] conjI) simp_all
qed

definition client_demo :: ClientSocketIOThread where
  "client_demo = ct_asynSend 16 [3] 1 (ct_asynSend 16 [1, 2] 2
     \<lparr>ct_queue = [], ct_wakes = 0, ct_reConnectTime = 5,
      ct_sockets = [16 \<mapsto> (ClientIOSocket_new 1)\<lparr>c_bev := Some \<lparr>bev_input = [], bev_output = [7]\<rparr>\<rparr>], ct_up = []\<rparr>)"

definition client_env_demo :: client_env where
  "client_env_demo = \<lparr>ce_hb = False, ce_deal = 4, ce_connect = (\<lambda>i. (5, 0, 0, True, True)), ce_alloc = (\<lambda>m. 64)\<rparr>"

theorem client_batch_sends_witness:
  "\<exists>ct' s'. ct_pairCallback client_env_demo client_demo = (Inr (), ct') \<and> ct_sockets ct' 16 = Some s' \<and> c_wire s' = [7, 1, 2, 3]"
proof -
  let ?s = "(ClientIOSocket_new 1)\<lparr>c_bev := Some \<lparr>bev_input = [], bev_output = [7]\<rparr>\<rparr>"
  have d: "ct_sockets client_demo = [16 \<mapsto> ?s]" "length (ct_queue client_demo) = 2"
    by (simp_all add: client_demo_def ct_asynSend_def ct_push_def)
  have r: "all_cready (ct_sockets client_demo)"
    by (auto simp: d all_cready_def c_send_inv_def ClientIOSocket_new_def split: if_splits)
  have q: "list_all (send_cpack (ct_sockets client_demo)) (ct_queue client_demo)"
    by (simp add: send_cpack_def client_demo_def ct_asynSend_def ct_push_def threadPackage_new_def pack_bytes_def)
  have s: "ct_sockets client_demo 16 = Some ?s" "c_queued ?s = []" "c_wire ?s = [7]"
    by (simp_all add: d c_queued_def ClientIOSocket_new_def c_wire_def)
  have m: "[[1, 2], [3]] = map pack_bytes (filter (\<lambda>p. p_name p = 16) (ct_queue client_demo))"
    by (simp add: client_demo_def ct_asynSend_def ct_push_def threadPackage_new_def pack_bytes_def)
  from client_batch_sends [OF r q _ s(1,2) m, of client_env_demo] d(2) s(3) show ?thesis
    by (auto simp: client_env_demo_def)
qed

section \<open>The heartbeat's pace\<close>

text \<open>An agent whose socket is alive in thread \<open>i\<close>.\<close>

definition cserved :: "ClientSocket \<Rightarrow> u64 \<Rightarrow> nat \<Rightarrow> u64 \<Rightarrow> AgentServer \<Rightarrow> bool" where
  "cserved cs a i g ag \<longleftrightarrow> a \<noteq> 0 \<and> g \<noteq> 0 \<and> cs_agents cs g = Some ag \<and> as_socket ag = a
     \<and> (\<exists>s. csock_at (cs_threads cs) a = Some (i, s)) \<and> i < length (cs_threads cs)"

text \<open>
  A client's heartbeat goes out when none was sent yet and whenever sixty seconds of the
  unsigned clock have passed since the last one, and then it is one well-formed heartbeat
  packet with the current time on the queue of the connection's thread; in between nothing
  happens.
\<close>

theorem heartbeat_pace:
  assumes "cserved cs a i g ag"
  shows "tryHeartBeat hb now g cs =
    (if as_lastHeartTime ag = 0 \<or> 60 \<le> now - as_lastHeartTime ag
     then (Inr (), (on_cthread i (ct_push (send_package a (heartbeat_bytes now))) cs)
            \<lparr>cs_agents := (cs_agents cs)(g \<mapsto> ag\<lparr>as_lastHeartTime := now\<rparr>)\<rparr>)
     else (Inr (), cs)) \<and> packet_wf (heartbeat_bytes now)"
proof -
  obtain s where c: "a \<noteq> 0" "g \<noteq> 0" "cs_agents cs g = Some ag" "as_socket ag = a"
    "csock_at (cs_threads cs) a = Some (i, s)" using assms by (auto simp: cserved_def)
  have ag: "deref_cagent g cs = (Inr ag, cs)" using c by (simp add: deref_cagent_def)
  have so: "deref_csocket a cs = (Inr (i, s), cs)" using c by (simp add: deref_csocket_def)
  let ?buf = "replicate (unat (fixSize (of_nat sizeof_Heartbeat))) (0 :: byte)"
  have sz: "unat (fixSize (of_nat sizeof_Heartbeat)) = 8" by (simp add: fixSize_def)
  have xy: "heartbeat_reset\<lparr>timestamp := now\<rparr> = \<lparr>timestamp = now\<rparr>" by (simp add: heartbeat_reset_def)
  obtain r buf' where b: "GET_TEMPLATE_BUF hb ?buf head_reset XYID_HEARTBEAT sizeof_Heartbeat
      (put_heartbeat hb \<lparr>timestamp = now\<rparr>) = (r, buf')" by fastforce
  have "8 \<le> length ?buf" "length ?buf < 2 ^ 62" using sz by simp_all
  note hp = heartbeat_packet [OF this b]
  have "drop 8 buf' = []" using hp(3) sz by simp
  then have buf': "buf' = heartbeat_bytes now"
    using hp(2) append_take_drop_id [of 8 buf'] wires_heartbeat [of now] by simp
  have "ct_asynSend a (heartbeat_bytes now) 8 = ct_push (send_package a (heartbeat_bytes now))"
    by (simp add: ct_asynSend_def send_package_def threadPackage_new_def)
  then have send: "cagent_send g (heartbeat_bytes now) 8 cs = (Inr (), on_cthread i (ct_push (send_package a (heartbeat_bytes now))) cs)"
    using ag so c(4) by (simp add: cagent_send_def bindM_def)
  have ags: "cs_agents (on_cthread i f cs) = cs_agents cs" for f by (simp add: on_cthread_def)
  have "tryHeartBeat hb now g cs =
    (if as_lastHeartTime ag = 0 \<or> 60 \<le> now - as_lastHeartTime ag
     then (Inr (), (on_cthread i (ct_push (send_package a (heartbeat_bytes now))) cs)
            \<lparr>cs_agents := (cs_agents cs)(g \<mapsto> ag\<lparr>as_lastHeartTime := now\<rparr>)\<rparr>)
     else (Inr (), cs))"
    unfolding tryHeartBeat_def Let_def xy b hp(1) buf'
    using ag send ags by (simp add: bindM_def seqM_def)
  then show ?thesis using packet_wf_heartbeat by simp
qed

theorem heartbeat_pace_witness:
  "\<exists>cs'. tryHeartBeat False 100 48 \<lparr>cs_pairDealCount = 3, cs_threads = [client_demo], cs_currentThread = 0, cs_queue = [],
      cs_wakes = 0, cs_mapAgents = Map.empty, cs_agents = [48 \<mapsto> AgentServer_new 16], cs_events = []\<rparr> = (Inr (), cs')
    \<and> length (ct_queue (cs_threads cs' ! 0)) = 3"
  (is "\<exists>cs'. tryHeartBeat False 100 48 ?cs = _ \<and> _")
proof -
  have "cserved ?cs 16 0 48 (AgentServer_new 16)"
    by (simp add: cserved_def AgentServer_new_def client_demo_def ct_asynSend_def ct_push_def)
  from heartbeat_pace [OF this, of False 100] show ?thesis
    by (simp add: AgentServer_new_def on_cthread_def ct_push_def client_demo_def ct_asynSend_def)
qed

end
