(* ===== verification/MinHeap.thy ===== *)
theory MinHeap
  imports Prelude "HOL-Library.Multiset" "HOL-Library.Monad_Syntax"
begin

text \<open>
  The timer queue of the event library the server runs on
  (\<^verbatim>\<open>src/depend/event/project/minheap-internal.h\<close>): a binary min-heap of event pointers
  ordered by deadline, in which every event also knows its own position.

  An event is an address; the two fields the heap uses (\<^verbatim>\<open>ev_timeout\<close> and
  \<^verbatim>\<open>ev_timeout_pos.min_heap_idx\<close>) are maps from addresses, so that the aliasing between
  the array and the events is explicit. Positions are the 32-bit words of the code. \<open>None\<close>
  is an access outside the array or a loop that does not end: every lemma that an
  operation yields \<open>Some\<close> excludes both.
\<close>

section \<open>Deadlines\<close>

text \<open>\<^verbatim>\<open>struct timeval\<close>. The fields are only compared, so they are integers.\<close>

datatype timeval = Timeval (tv_sec: int) (tv_usec: int)

definition evutil_timercmp :: "timeval \<Rightarrow> timeval \<Rightarrow> (int \<Rightarrow> int \<Rightarrow> bool) \<Rightarrow> bool" where
  "evutil_timercmp tvp uvp cmp =
     (if tv_sec tvp = tv_sec uvp then cmp (tv_usec tvp) (tv_usec uvp)
      else cmp (tv_sec tvp) (tv_sec uvp))"

instantiation timeval :: linorder
begin

definition less_eq_timeval :: "timeval \<Rightarrow> timeval \<Rightarrow> bool" where
  "t \<le> u \<longleftrightarrow> tv_sec t < tv_sec u \<or> tv_sec t = tv_sec u \<and> tv_usec t \<le> tv_usec u"

definition less_timeval :: "timeval \<Rightarrow> timeval \<Rightarrow> bool" where
  "t < u \<longleftrightarrow> tv_sec t < tv_sec u \<or> tv_sec t = tv_sec u \<and> tv_usec t < tv_usec u"

instance
  by standard (auto simp: less_eq_timeval_def less_timeval_def timeval.expand)

end

text \<open>The comparison macro is the order of the class, for the comparisons the heap makes.\<close>

lemma timercmp_less: "evutil_timercmp t u (<) \<longleftrightarrow> t < u"
  by (auto simp: evutil_timercmp_def less_timeval_def)

lemma timercmp_greater: "evutil_timercmp t u (>) \<longleftrightarrow> u < t"
  by (auto simp: evutil_timercmp_def less_timeval_def)

section \<open>The heap\<close>

type_synonym event = nat

record min_heap =
  mh_p :: "event list"
  mh_n :: u32
  mh_a :: u32
  ev_timeout :: "event \<Rightarrow> timeval"
  min_heap_idx :: "event \<Rightarrow> u32"

definition get_slot :: "min_heap \<Rightarrow> u32 \<Rightarrow> event option" where
  "get_slot s i = (if unat i < length (mh_p s) then Some (mh_p s ! unat i) else None)"

definition put_slot :: "u32 \<Rightarrow> event \<Rightarrow> min_heap \<Rightarrow> min_heap option" where
  "put_slot i e s =
     (if unat i < length (mh_p s)
      then Some (s\<lparr>mh_p := (mh_p s)[unat i := e], min_heap_idx := (min_heap_idx s)(e := i)\<rparr>)
      else None)"

definition min_heap_elem_greater :: "min_heap \<Rightarrow> event \<Rightarrow> event \<Rightarrow> bool" where
  "min_heap_elem_greater s x y = evutil_timercmp (ev_timeout s x) (ev_timeout s y) (>)"

definition min_heap_ctor :: "min_heap \<Rightarrow> min_heap" where
  "min_heap_ctor s = s\<lparr>mh_p := [], mh_n := 0, mh_a := 0\<rparr>"

definition min_heap_elem_init :: "event \<Rightarrow> min_heap \<Rightarrow> min_heap" where
  "min_heap_elem_init e s = s\<lparr>min_heap_idx := (min_heap_idx s)(e := - 1)\<rparr>"

definition min_heap_empty :: "min_heap \<Rightarrow> bool" where
  "min_heap_empty s \<longleftrightarrow> 0 = mh_n s"

definition min_heap_size :: "min_heap \<Rightarrow> u32" where
  "min_heap_size s = mh_n s"

definition min_heap_top :: "min_heap \<Rightarrow> event option option" where
  "min_heap_top s = (if mh_n s \<noteq> 0 then map_option Some (get_slot s 0) else Some None)"

definition min_heap_elt_is_top :: "min_heap \<Rightarrow> event \<Rightarrow> bool" where
  "min_heap_elt_is_top s e \<longleftrightarrow> min_heap_idx s e = 0"

text \<open>
  \<^verbatim>\<open>mm_realloc\<close> belongs to the platform: an argument that answers the new block or
  \<open>None\<close>. \<open>realloc_keeps\<close> is what the C standard promises of it.
\<close>

type_synonym reallocator = "event list \<Rightarrow> nat \<Rightarrow> event list option"

definition realloc_keeps :: "reallocator \<Rightarrow> bool" where
  "realloc_keeps mm_realloc \<longleftrightarrow>
     (\<forall>xs k ys. mm_realloc xs k = Some ys \<longrightarrow>
        length ys = k \<and> take (min k (length xs)) ys = take (min k (length xs)) xs)"

definition min_heap_reserve :: "reallocator \<Rightarrow> u32 \<Rightarrow> min_heap \<Rightarrow> int \<times> min_heap" where
  "min_heap_reserve mm_realloc need s =
     (if mh_a s < need then
        let a0 = (if mh_a s \<noteq> 0 then mh_a s * 2 else 8);
            a' = (if a0 < need then need else a0)
        in case mm_realloc (mh_p s) (unat a') of
             None \<Rightarrow> (- 1, s)
           | Some q \<Rightarrow> (0, s\<lparr>mh_p := q, mh_a := a'\<rparr>)
      else (0, s))"

function min_heap_shift_up :: "u32 \<Rightarrow> event \<Rightarrow> min_heap \<Rightarrow> min_heap option" where
  "min_heap_shift_up hole e s =
     (if hole \<noteq> 0 then
        let parent = (hole - 1) div 2 in
        do { q \<leftarrow> get_slot s parent;
             if min_heap_elem_greater s q e
             then do { s' \<leftarrow> put_slot hole q s; min_heap_shift_up parent e s' }
             else put_slot hole e s }
      else put_slot hole e s)"
  by pat_completeness auto

lemma unat_parent:
  assumes "(h :: u32) \<noteq> 0"
  shows "unat ((h - 1) div 2) = (unat h - 1) div 2"
proof -
  have "unat (h - 1) = unat h - 1"
    using assms by (metis unat_minus_one)
  then show ?thesis by (simp add: unat_div)
qed

lemma unat_parent_less: "(h :: u32) \<noteq> 0 \<Longrightarrow> unat ((h - 1) div 2) < unat h"
  using unat_gt_0 [of h] by (simp add: unat_parent)

termination min_heap_shift_up
  by (relation "measure (\<lambda>(hole, _, _). unat hole)")
    (simp_all add: unat_parent_less)

declare min_heap_shift_up.simps [simp del]

text \<open>The child the loop looks at: the smaller one of two, the left one if it is alone.\<close>

definition pick_child :: "u32 \<Rightarrow> min_heap \<Rightarrow> u32 option" where
  "pick_child c s =
     (if c = mh_n s then Some (c - 1)
      else do { x \<leftarrow> get_slot s c; y \<leftarrow> get_slot s (c - 1);
                Some (if min_heap_elem_greater s x y then c - 1 else c) })"

partial_function (option) min_heap_shift_down :: "u32 \<Rightarrow> event \<Rightarrow> min_heap \<Rightarrow> min_heap option" where
  "min_heap_shift_down hole e s =
     (let c = 2 * (hole + 1) in
      if c \<le> mh_n s then
        do { m \<leftarrow> pick_child c s;
             q \<leftarrow> get_slot s m;
             if \<not> min_heap_elem_greater s e q then put_slot hole e s
             else do { s' \<leftarrow> put_slot hole q s; min_heap_shift_down m e s' } }
      else put_slot hole e s)"

definition min_heap_push :: "reallocator \<Rightarrow> event \<Rightarrow> min_heap \<Rightarrow> (int \<times> min_heap) option" where
  "min_heap_push mm_realloc e s =
     (case min_heap_reserve mm_realloc (mh_n s + 1) s of (r, s1) \<Rightarrow>
        if r \<noteq> 0 then Some (- 1, s1)
        else map_option (\<lambda>s2. (0, s2)) (min_heap_shift_up (mh_n s1) e (s1\<lparr>mh_n := mh_n s1 + 1\<rparr>)))"

definition min_heap_pop :: "min_heap \<Rightarrow> (event option \<times> min_heap) option" where
  "min_heap_pop s =
     (if mh_n s \<noteq> 0 then
        do { e \<leftarrow> get_slot s 0;
             l \<leftarrow> get_slot s (mh_n s - 1);
             s1 \<leftarrow> min_heap_shift_down 0 l (s\<lparr>mh_n := mh_n s - 1\<rparr>);
             Some (Some e, min_heap_elem_init e s1) }
      else Some (None, s))"

definition min_heap_erase :: "event \<Rightarrow> min_heap \<Rightarrow> (int \<times> min_heap) option" where
  "min_heap_erase e s =
     (if - 1 \<noteq> min_heap_idx s e then
        do { l \<leftarrow> get_slot s (mh_n s - 1);
             let s1 = s\<lparr>mh_n := mh_n s - 1\<rparr>; i = min_heap_idx s1 e in
             do { up \<leftarrow> (if 0 <s i
                         then map_option (\<lambda>q. min_heap_elem_greater s1 q l) (get_slot s1 ((i - 1) div 2))
                         else Some False);
                  s2 \<leftarrow> (if up then min_heap_shift_up i l s1 else min_heap_shift_down i l s1);
                  Some (0, min_heap_elem_init e s2) } }
      else Some (- 1, s))"

section \<open>Heap order, on positions\<close>

text \<open>
  \<open>f i\<close> is the deadline at position \<open>i\<close>. \<open>up_ok\<close> holds while an element rises: the only
  pair out of order is that of the hole and its parent. \<open>down_ok\<close> holds while it sinks: the
  only such pairs are those of the hole and its children. Both remember that the hole's
  parent is not later than the hole's children.
\<close>

definition par :: "nat \<Rightarrow> nat" where
  "par i = (i - 1) div 2"

definition ordered :: "(nat \<Rightarrow> 'k::linorder) \<Rightarrow> nat \<Rightarrow> bool" where
  "ordered f m \<longleftrightarrow> (\<forall>i<m. 0 < i \<longrightarrow> f (par i) \<le> f i)"

definition bridge :: "(nat \<Rightarrow> 'k::linorder) \<Rightarrow> nat \<Rightarrow> nat \<Rightarrow> bool" where
  "bridge f m h \<longleftrightarrow> (\<forall>c<m. 0 < h \<longrightarrow> 0 < c \<longrightarrow> par c = h \<longrightarrow> f (par h) \<le> f c)"

definition up_ok :: "(nat \<Rightarrow> 'k::linorder) \<Rightarrow> nat \<Rightarrow> nat \<Rightarrow> bool" where
  "up_ok f m h \<longleftrightarrow> (\<forall>i<m. 0 < i \<longrightarrow> i \<noteq> h \<longrightarrow> f (par i) \<le> f i) \<and> bridge f m h"

definition down_ok :: "(nat \<Rightarrow> 'k::linorder) \<Rightarrow> nat \<Rightarrow> nat \<Rightarrow> bool" where
  "down_ok f m h \<longleftrightarrow> (\<forall>i<m. 0 < i \<longrightarrow> par i \<noteq> h \<longrightarrow> f (par i) \<le> f i) \<and> bridge f m h"

lemma par_less: "0 < i \<Longrightarrow> par i < i"
  by (auto simp: par_def)

lemma par_child: "0 < c \<Longrightarrow> par c = h \<longleftrightarrow> c = 2 * h + 1 \<or> c = 2 * h + 2"
  by (auto simp: par_def)

lemma up_ok_done:
  assumes "up_ok f m h" and "0 < h \<longrightarrow> f (par h) \<le> f h"
  shows "ordered f m"
  using assms by (auto simp: up_ok_def ordered_def)

lemma up_ok_step:
  assumes ok: "up_ok f m h" and h: "0 < h" "h < m" and lt: "f h < f (par h)"
  shows "up_ok (f(h := f (par h), par h := f h)) m (par h)"
proof -
  let ?g = "f(h := f (par h), par h := f h)"
  have ord: "\<And>i. i < m \<Longrightarrow> 0 < i \<Longrightarrow> i \<noteq> h \<Longrightarrow> f (par i) \<le> f i"
    and br: "\<And>c. c < m \<Longrightarrow> 0 < c \<Longrightarrow> par c = h \<Longrightarrow> f (par h) \<le> f c"
    using ok h(1) by (auto simp: up_ok_def bridge_def)
  have ne: "par h \<noteq> h" using par_less [OF h(1)] by simp
  have "?g (par i) \<le> ?g i" if "i < m" "0 < i" "i \<noteq> par h" for i
  proof -
    consider "i = h" | "i \<noteq> h" "par i = h" | "i \<noteq> h" "par i = par h" | "i \<noteq> h" "par i \<noteq> h" "par i \<noteq> par h"
      by blast
    then show ?thesis
      by cases (use that ne lt ord [of i] br [of i] in \<open>auto\<close>)
  qed
  moreover have "?g (par (par h)) \<le> ?g c" if "c < m" "0 < par h" "0 < c" "par c = par h" for c
  proof -
    have pp: "par (par h) < par h" "par h < h" using par_less that(2) h(1) by blast+
    then have "?g (par (par h)) = f (par (par h))" by simp
    also have "\<dots> \<le> f (par h)" using ord [of "par h"] that(2) pp h(2) by simp
    also have "\<dots> \<le> ?g c"
      using ord [of c] that par_less [OF that(3)] by (cases "c = h") auto
    finally show ?thesis .
  qed
  ultimately show ?thesis by (simp add: up_ok_def bridge_def)
qed

lemma down_ok_done:
  assumes "down_ok f m h" and "\<And>c. c < m \<Longrightarrow> 0 < c \<Longrightarrow> par c = h \<Longrightarrow> f h \<le> f c"
  shows "ordered f m"
  using assms by (auto simp: down_ok_def ordered_def)

lemma down_ok_step:
  assumes ok: "down_ok f m h" and c: "0 < c" "c < m" "par c = h"
    and least: "\<And>d. d < m \<Longrightarrow> 0 < d \<Longrightarrow> par d = h \<Longrightarrow> f c \<le> f d" and lt: "f c < f h"
  shows "down_ok (f(h := f c, c := f h)) m c"
proof -
  let ?g = "f(h := f c, c := f h)"
  have ord: "\<And>i. i < m \<Longrightarrow> 0 < i \<Longrightarrow> par i \<noteq> h \<Longrightarrow> f (par i) \<le> f i"
    and br: "\<And>d. d < m \<Longrightarrow> 0 < h \<Longrightarrow> 0 < d \<Longrightarrow> par d = h \<Longrightarrow> f (par h) \<le> f d"
    using ok by (auto simp: down_ok_def bridge_def)
  have hc: "h < c" using par_less [OF c(1)] c(3) by simp
  have "?g (par i) \<le> ?g i" if i: "i < m" "0 < i" "par i \<noteq> c" for i
  proof -
    consider "i = c" | "i \<noteq> c" "par i = h" | "i = h" | "i \<noteq> c" "par i \<noteq> h" "i \<noteq> h" by blast
    then show ?thesis
    proof cases
      case 3
      then have "par i \<noteq> h" using par_less [OF i(2)] by simp
      with 3 i br [of c] c hc show ?thesis by simp
    qed (use i c hc lt ord [of i] least [of i] in \<open>auto\<close>)
  qed
  moreover have "?g (par c) \<le> ?g d" if d: "d < m" "0 < d" "par d = c" for d
  proof -
    have "d \<noteq> c" "d \<noteq> h" using par_less [OF d(2)] d(3) hc by auto
    then show ?thesis using ord [of d] d c hc by simp
  qed
  ultimately show ?thesis by (simp add: down_ok_def bridge_def)
qed

lemma ordered_root:
  assumes "ordered f m" and "i < m"
  shows "f 0 \<le> f i"
  using assms(2)
proof (induction i rule: less_induct)
  case (less i)
  show ?case
  proof (cases "i = 0")
    case False
    then have "f 0 \<le> f (par i)" using less par_less [of i] by simp
    also have "\<dots> \<le> f i" using assms(1) less.prems False by (simp add: ordered_def)
    finally show ?thesis .
  qed simp
qed

section \<open>Moving an element through the array\<close>

text \<open>
  While an element travels, its hole still holds a stale pointer; \<open>pend s h e\<close> is the array
  with the element put where the hole is. A move of the hole is a swap in this array.
\<close>

definition elems :: "min_heap \<Rightarrow> event list" where
  "elems s = take (unat (mh_n s)) (mh_p s)"

definition pend :: "min_heap \<Rightarrow> nat \<Rightarrow> event \<Rightarrow> event list" where
  "pend s h e = (mh_p s)[h := e]"

definition deadline_at :: "min_heap \<Rightarrow> event list \<Rightarrow> nat \<Rightarrow> timeval" where
  "deadline_at s xs i = ev_timeout s (xs ! i)"

definition placed :: "min_heap \<Rightarrow> nat \<Rightarrow> event \<Rightarrow> bool" where
  "placed s h e \<longleftrightarrow>
     h < unat (mh_n s) \<and> unat (mh_n s) \<le> length (mh_p s) \<and> unat (mh_n s) < 2 ^ 31 \<and>
     distinct (take (unat (mh_n s)) (pend s h e)) \<and>
     (\<forall>i<unat (mh_n s). i \<noteq> h \<longrightarrow> min_heap_idx s (mh_p s ! i) = of_nat i)"

text \<open>What a finished move leaves: \<open>xs\<close> are the events that are now in the heap.\<close>

definition settled :: "min_heap \<Rightarrow> event list \<Rightarrow> min_heap \<Rightarrow> bool" where
  "settled s xs s' \<longleftrightarrow>
     mh_n s' = mh_n s \<and> mh_a s' = mh_a s \<and> ev_timeout s' = ev_timeout s \<and>
     length (mh_p s') = length (mh_p s) \<and> mset (elems s') = mset xs \<and>
     (\<forall>i<unat (mh_n s). min_heap_idx s' (mh_p s' ! i) = of_nat i) \<and>
     (\<forall>x. x \<notin> set xs \<longrightarrow> min_heap_idx s' x = min_heap_idx s x) \<and>
     ordered (deadline_at s' (mh_p s')) (unat (mh_n s))"

lemma greater_iff [simp]: "min_heap_elem_greater s x y \<longleftrightarrow> ev_timeout s y < ev_timeout s x"
  by (simp add: min_heap_elem_greater_def timercmp_greater)

lemma deadline_at_update [simp]:
  "deadline_at (s\<lparr>mh_p := q\<rparr>) = deadline_at s"
  "deadline_at (s\<lparr>min_heap_idx := f\<rparr>) = deadline_at s"
  "deadline_at (s\<lparr>mh_n := k\<rparr>) = deadline_at s"
  "deadline_at (s\<lparr>mh_a := k\<rparr>) = deadline_at s"
  by (simp_all add: deadline_at_def fun_eq_iff)

lemma length_pend [simp]: "length (pend s h e) = length (mh_p s)"
  by (simp add: pend_def)

lemma nth_pend: "h < length (mh_p s) \<Longrightarrow> pend s h e ! i = (if i = h then e else mh_p s ! i)"
  by (simp add: pend_def)

lemma settle:
  assumes pl: "placed s (unat hole) e"
    and ord: "ordered (deadline_at s (pend s (unat hole) e)) (unat (mh_n s))"
  shows "\<exists>s'. put_slot hole e s = Some s' \<and> settled s (take (unat (mh_n s)) (pend s (unat hole) e)) s'"
proof -
  let ?m = "unat (mh_n s)" and ?h = "unat hole"
  let ?s = "s\<lparr>mh_p := pend s ?h e, min_heap_idx := (min_heap_idx s)(e := hole)\<rparr>"
  have h: "?h < ?m" "?m \<le> length (mh_p s)" and d: "distinct (take ?m (pend s ?h e))"
    and ix: "\<And>i. i < ?m \<Longrightarrow> i \<noteq> ?h \<Longrightarrow> min_heap_idx s (mh_p s ! i) = of_nat i"
    using pl by (auto simp: placed_def)
  have "min_heap_idx ?s (pend s ?h e ! i) = of_nat i" if "i < ?m" for i
  proof (cases "i = ?h")
    case True
    then show ?thesis using h by (simp add: nth_pend)
  next
    case False
    have "pend s ?h e ! i \<noteq> pend s ?h e ! ?h"
      using d that h False by (auto simp: distinct_conv_nth)
    then show ?thesis using that False h ix [of i] by (simp add: nth_pend)
  qed
  moreover have "e \<in> set (take ?m (pend s ?h e))"
    using h by (auto simp: in_set_conv_nth pend_def intro!: exI [of _ ?h])
  ultimately have "settled s (take ?m (pend s ?h e)) ?s"
    using ord by (auto simp: settled_def elems_def deadline_at_def)
  moreover have "put_slot hole e s = Some ?s"
    using h by (simp add: put_slot_def pend_def)
  ultimately show ?thesis by blast
qed

lemma move_hole:
  assumes pl: "placed s (unat hole) e" and j: "j < unat (mh_n s)" "j \<noteq> unat hole"
  defines "q \<equiv> mh_p s ! j"
  shows "\<exists>s'. put_slot hole q s = Some s' \<and> placed s' j e \<and>
     mset (take (unat (mh_n s)) (pend s' j e)) = mset (take (unat (mh_n s)) (pend s (unat hole) e)) \<and>
     deadline_at s' (pend s' j e) =
       (deadline_at s (pend s (unat hole) e))
         (unat hole := ev_timeout s q, j := ev_timeout s e) \<and>
     mh_n s' = mh_n s \<and> mh_a s' = mh_a s \<and> ev_timeout s' = ev_timeout s \<and>
     length (mh_p s') = length (mh_p s) \<and>
     (\<forall>x. x \<noteq> q \<longrightarrow> min_heap_idx s' x = min_heap_idx s x)"
proof -
  let ?m = "unat (mh_n s)" and ?h = "unat hole" and ?xs = "mh_p s"
  let ?s = "s\<lparr>mh_p := ?xs[?h := q], min_heap_idx := (min_heap_idx s)(q := hole)\<rparr>"
  have h: "?h < ?m" "?m \<le> length ?xs" "?m < 2 ^ 31" and d: "distinct (take ?m (pend s ?h e))"
    and ix: "\<And>i. i < ?m \<Longrightarrow> i \<noteq> ?h \<Longrightarrow> min_heap_idx s (?xs ! i) = of_nat i"
    using pl by (auto simp: placed_def)
  have swap: "take ?m (pend ?s j e) = (take ?m (pend s ?h e))[j := take ?m (pend s ?h e) ! ?h,
      ?h := take ?m (pend s ?h e) ! j]"
    using h j by (intro nth_equalityI) (auto simp: pend_def nth_list_update q_def)
  have "mset (take ?m (pend ?s j e)) = mset (take ?m (pend s ?h e))"
    unfolding swap using h j by (intro mset_swap) auto
  moreover from this have "distinct (take ?m (pend ?s j e))"
    using d by (metis mset_eq_imp_distinct_iff)
  moreover have "min_heap_idx ?s (?xs[?h := q] ! i) = of_nat i" if i: "i < ?m" "i \<noteq> j" for i
  proof (cases "i = ?h")
    case True
    then show ?thesis using h by simp
  next
    case False
    have "pend s ?h e ! i \<noteq> pend s ?h e ! j" using d i h j by (auto simp: distinct_conv_nth)
    then have "?xs ! i \<noteq> q" using False j(2) by (simp add: pend_def q_def)
    then show ?thesis using i False ix [of i] by simp
  qed
  moreover have "deadline_at ?s (pend ?s j e) = (deadline_at s (pend s ?h e))
      (?h := ev_timeout s q, j := ev_timeout s e)"
    using h j by (auto simp: deadline_at_def pend_def fun_eq_iff nth_list_update)
  ultimately show ?thesis using h j
    by (intro exI [of _ ?s]) (simp add: put_slot_def placed_def)
qed

lemma settled_mset:
  assumes "settled s' xs s''" and "mset xs = mset ys" and "mh_n s' = mh_n s" "mh_a s' = mh_a s"
    "ev_timeout s' = ev_timeout s" "length (mh_p s') = length (mh_p s)"
    and "\<And>x. x \<notin> set ys \<Longrightarrow> min_heap_idx s' x = min_heap_idx s x"
  shows "settled s ys s''"
proof -
  have "set xs = set ys" using assms(2) by (rule mset_eq_setD)
  with assms show ?thesis by (simp add: settled_def)
qed

lemma nth_in_pend:
  assumes "j < k" "j \<noteq> h" "k \<le> length (mh_p s)"
  shows "mh_p s ! j \<in> set (take k (pend s h e))"
  using assms by (auto simp: in_set_conv_nth pend_def intro!: exI [of _ j])

lemma shift_up_spec:
  assumes "placed s (unat hole) e"
    and "up_ok (deadline_at s (pend s (unat hole) e)) (unat (mh_n s)) (unat hole)"
  shows "\<exists>s'. min_heap_shift_up hole e s = Some s' \<and>
    settled s (take (unat (mh_n s)) (pend s (unat hole) e)) s'"
  using assms
proof (induction "unat hole" arbitrary: hole s rule: less_induct)
  case less
  let ?m = "unat (mh_n s)" and ?h = "unat hole" and ?par = "(hole - 1) div 2"
  let ?f = "deadline_at s (pend s ?h e)"
  have h: "?h < ?m" "?m \<le> length (mh_p s)" using less.prems(1) by (auto simp: placed_def)
  have fh: "?f ?h = ev_timeout s e" using h by (simp add: deadline_at_def nth_pend)
  show ?case
  proof (cases "hole \<noteq> 0 \<and> ev_timeout s e < ev_timeout s (mh_p s ! unat ?par)")
    case False
    have "0 < ?h \<longrightarrow> ?f (par ?h) \<le> ?f ?h"
      using False h fh par_less [of ?h]
      by (auto simp: unat_gt_0 unat_parent par_def deadline_at_def nth_pend)
    then have "ordered ?f ?m" using less.prems(2) by (rule up_ok_done [rotated])
    from settle [OF less.prems(1) this] show ?thesis
      using False h unat_parent_less [of hole]
      by (subst min_heap_shift_up.simps) (auto simp: get_slot_def)
  next
    case True
    then have up: "hole \<noteq> 0" "0 < ?h" "unat ?par = par ?h" "unat ?par < ?h"
      using unat_parent_less [of hole] by (simp_all add: unat_gt_0 unat_parent par_def)
    define q where "q = mh_p s ! unat ?par"
    have fp: "?f (par ?h) = ev_timeout s q"
      using h up par_less [of ?h] by (simp add: deadline_at_def nth_pend q_def)
    obtain s' where s': "put_slot hole q s = Some s'" "placed s' (unat ?par) e"
      "mset (take ?m (pend s' (unat ?par) e)) = mset (take ?m (pend s ?h e))"
      "deadline_at s' (pend s' (unat ?par) e) = ?f(?h := ev_timeout s q, unat ?par := ev_timeout s e)"
      "mh_n s' = mh_n s" "mh_a s' = mh_a s" "ev_timeout s' = ev_timeout s"
      "length (mh_p s') = length (mh_p s)" "\<And>x. x \<noteq> q \<Longrightarrow> min_heap_idx s' x = min_heap_idx s x"
      using move_hole [OF less.prems(1), of "unat ?par"] h up unfolding q_def by auto
    have "up_ok (deadline_at s' (pend s' (unat ?par) e)) (unat (mh_n s')) (unat ?par)"
      using up_ok_step [OF less.prems(2) up(2) h(1)] True s'(4,5) fh fp up by (simp add: q_def)
    from less.hyps [OF up(4) s'(2) this] obtain s'' where
      "min_heap_shift_up ?par e s' = Some s''" and st: "settled s' (take ?m (pend s' (unat ?par) e)) s''"
      using s'(5) by auto
    moreover have "q \<in> set (take ?m (pend s ?h e))"
      unfolding q_def using h up by (intro nth_in_pend) auto
    then have "settled s (take ?m (pend s ?h e)) s''"
      using settled_mset [OF st s'(3,5-8)] s'(9) by metis
    ultimately show ?thesis
      using True s'(1) up h
      by (subst min_heap_shift_up.simps) (auto simp: get_slot_def q_def)
  qed
qed

lemma unat_child:
  assumes "unat (hole :: u32) < 2 ^ 31 - 1"
  shows "unat (2 * (hole + 1)) = 2 * unat hole + 2" "unat (2 * (hole + 1) - 1) = 2 * unat hole + 1"
proof -
  have "unat (hole + 1) = unat hole + 1"
    using assms by (simp add: unat_word_ariths)
  then have "unat (2 * (hole + 1)) = 2 * (unat hole + 1)"
    using assms by (simp add: unat_word_ariths)
  then show c: "unat (2 * (hole + 1)) = 2 * unat hole + 2" by simp
  then have "2 * (hole + 1) \<noteq> 0" by auto
  then show "unat (2 * (hole + 1) - 1) = 2 * unat hole + 1"
    using c by (metis Suc_eq_plus1 add_2_eq_Suc' diff_Suc_1 unat_minus_one)
qed

lemma pick_child_least:
  assumes k: "2 * unat hole + 2 \<le> unat (mh_n s)" "unat (mh_n s) \<le> length (mh_p s)"
    "unat (mh_n s) < 2 ^ 31"
  shows "\<exists>c. pick_child (2 * (hole + 1)) s = Some c \<and> unat c < unat (mh_n s) \<and> 0 < unat c \<and>
    par (unat c) = unat hole \<and>
    (\<forall>d<unat (mh_n s). 0 < d \<longrightarrow> par d = unat hole \<longrightarrow>
       ev_timeout s (mh_p s ! unat c) \<le> ev_timeout s (mh_p s ! d))"
proof -
  let ?r = "2 * (hole + 1)" and ?h = "unat hole" and ?m = "unat (mh_n s)"
  have "?h < 2 ^ 31 - 1" using k by simp
  note r = unat_child [OF this]
  have ends: "?r = mh_n s \<longleftrightarrow> 2 * ?h + 2 = ?m" using r by (auto simp: word_unat_eq_iff)
  show ?thesis
  proof (cases "?r = mh_n s")
    case True
    then have "d = 2 * ?h + 1" if "d < ?m" "0 < d" "par d = ?h" for d
      using that ends by (auto simp: par_child)
    with True r ends show ?thesis
      by (intro exI [of _ "?r - 1"]) (auto simp: pick_child_def par_child)
  next
    case False
    then have lt: "2 * ?h + 2 < ?m" using ends k(1) by simp
    show ?thesis
    proof (cases "ev_timeout s (mh_p s ! (2 * ?h + 1)) < ev_timeout s (mh_p s ! (2 * ?h + 2))")
      case True
      with False r lt k(2) show ?thesis
        by (intro exI [of _ "?r - 1"]) (auto simp: pick_child_def par_child get_slot_def)
    next
      case not: False
      with False r lt k(2) show ?thesis
        by (intro exI [of _ ?r]) (auto simp: pick_child_def par_child get_slot_def)
    qed
  qed
qed

lemma shift_down_leaf:
  assumes "unat (mh_n s) < 2 * unat hole + 2" "unat hole < 2 ^ 31 - 1"
  shows "min_heap_shift_down hole e s = put_slot hole e s"
  using assms unat_child(1) [of hole]
  by (subst min_heap_shift_down.simps) (simp add: word_le_nat_alt)

lemma shift_down_spec:
  assumes "placed s (unat hole) e"
    and "down_ok (deadline_at s (pend s (unat hole) e)) (unat (mh_n s)) (unat hole)"
  shows "\<exists>s'. min_heap_shift_down hole e s = Some s' \<and>
    settled s (take (unat (mh_n s)) (pend s (unat hole) e)) s'"
  using assms
proof (induction "unat (mh_n s) - unat hole" arbitrary: hole s rule: less_induct)
  case less
  let ?m = "unat (mh_n s)" and ?h = "unat hole"
  let ?f = "deadline_at s (pend s ?h e)"
  have h: "?h < ?m" "?m \<le> length (mh_p s)" "?m < 2 ^ 31"
    using less.prems(1) by (auto simp: placed_def)
  have fh: "?f ?h = ev_timeout s e" using h by (simp add: deadline_at_def nth_pend)
  have fc: "?f i = ev_timeout s (mh_p s ! i)" if "i \<noteq> ?h" for i
    using that h by (simp add: deadline_at_def nth_pend)
  note stop = settle [OF less.prems(1) down_ok_done [OF less.prems(2)]]
  show ?case
  proof (cases "2 * ?h + 2 \<le> ?m")
    case False
    then have "\<exists>s'. put_slot hole e s = Some s' \<and> settled s (take ?m (pend s ?h e)) s'"
      by (intro stop) (auto simp: par_child)
    then show ?thesis using False h by (simp add: shift_down_leaf)
  next
    case True
    then have "?h < 2 ^ 31 - 1" using h by simp
    then have le: "2 * (hole + 1) \<le> mh_n s"
      using True by (simp only: word_le_nat_alt unat_child)
    obtain c where c: "pick_child (2 * (hole + 1)) s = Some c" "unat c < ?m" "0 < unat c"
      "par (unat c) = ?h"
      and least: "\<And>d. d < ?m \<Longrightarrow> 0 < d \<Longrightarrow> par d = ?h \<Longrightarrow>
        ev_timeout s (mh_p s ! unat c) \<le> ev_timeout s (mh_p s ! d)"
      using pick_child_least [OF True h(2,3)] by auto
    define q where "q = mh_p s ! unat c"
    have hc: "?h < unat c" using par_less [OF c(3)] c(4) by simp
    have ch: "d \<noteq> ?h" if "0 < d" "par d = ?h" for d using par_less [OF that(1)] that(2) by simp
    have sl: "get_slot s c = Some q" using c(2) h(2) by (simp add: get_slot_def q_def)
    have unfold: "min_heap_shift_down hole e s =
        (if \<not> ev_timeout s q < ev_timeout s e then put_slot hole e s
         else Option.bind (put_slot hole q s) (min_heap_shift_down c e))"
      using le c(1) sl by (subst min_heap_shift_down.simps) (simp only: Let_def if_True Option.bind.bind_lunit greater_iff)
    show ?thesis
    proof (cases "ev_timeout s q < ev_timeout s e")
      case False
      have "\<exists>s'. put_slot hole e s = Some s' \<and> settled s (take ?m (pend s ?h e)) s'"
      proof (rule stop)
        fix d assume d: "d < ?m" "0 < d" "par d = ?h"
        have "ev_timeout s e \<le> ev_timeout s q" using False by simp
        also have "\<dots> \<le> ?f d" using least [OF d] fc [OF ch [OF d(2,3)]] by (simp add: q_def)
        finally show "?f ?h \<le> ?f d" by (simp add: fh)
      qed
      then show ?thesis using unfold False by simp
    next
      case down: True
      obtain s' where s': "put_slot hole q s = Some s'" "placed s' (unat c) e"
        "mset (take ?m (pend s' (unat c) e)) = mset (take ?m (pend s ?h e))"
        "deadline_at s' (pend s' (unat c) e) = ?f(?h := ev_timeout s q, unat c := ev_timeout s e)"
        "mh_n s' = mh_n s" "mh_a s' = mh_a s" "ev_timeout s' = ev_timeout s"
        "length (mh_p s') = length (mh_p s)" "\<And>x. x \<noteq> q \<Longrightarrow> min_heap_idx s' x = min_heap_idx s x"
        using move_hole [OF less.prems(1) c(2)] hc unfolding q_def by auto
      have fq: "?f (unat c) = ev_timeout s q" using fc [of "unat c"] hc by (simp add: q_def)
      have "down_ok (?f(?h := ?f (unat c), unat c := ?f ?h)) ?m (unat c)"
        using least fc ch fq fh down by (intro down_ok_step [OF less.prems(2) c(3,2,4)]) (auto simp: q_def)
      then have "down_ok (deadline_at s' (pend s' (unat c) e)) (unat (mh_n s')) (unat c)"
        using s'(4,5) fq fh by simp
      moreover have "unat (mh_n s') - unat c < ?m - ?h" using s'(5) hc c(2) by simp
      ultimately obtain s'' where
        rec: "min_heap_shift_down c e s' = Some s''" and st: "settled s' (take ?m (pend s' (unat c) e)) s''"
        using less.hyps [of s' c] s'(2,5) by auto
      have "q \<in> set (take ?m (pend s ?h e))"
        unfolding q_def using h c hc by (intro nth_in_pend) auto
      then have "settled s (take ?m (pend s ?h e)) s''"
        using settled_mset [OF st s'(3,5-8)] s'(9) by metis
      then show ?thesis using rec s'(1) unfold down by simp
    qed
  qed
qed

section \<open>The heap and its operations\<close>

text \<open>
  The invariant: the count fits the array and an \<^verbatim>\<open>int\<close>, no event is in the heap twice,
  every event knows its position, and no event is earlier than its parent.
\<close>

definition heap_ok :: "min_heap \<Rightarrow> bool" where
  "heap_ok s \<longleftrightarrow>
     unat (mh_a s) = length (mh_p s) \<and> unat (mh_n s) \<le> length (mh_p s) \<and> unat (mh_n s) < 2 ^ 31 \<and>
     distinct (elems s) \<and> (\<forall>i<unat (mh_n s). min_heap_idx s (mh_p s ! i) = of_nat i) \<and>
     ordered (deadline_at s (mh_p s)) (unat (mh_n s))"

lemma length_elems: "heap_ok s \<Longrightarrow> length (elems s) = unat (mh_n s)"
  by (simp add: heap_ok_def elems_def)

lemma nth_elems: "i < unat (mh_n s) \<Longrightarrow> elems s ! i = mh_p s ! i"
  by (simp add: elems_def)

lemma heap_settled:
  assumes "settled s1 xs s'" and "unat (mh_a s1) = length (mh_p s1)" and "distinct xs"
    and "unat (mh_n s1) \<le> length (mh_p s1)" and "unat (mh_n s1) < 2 ^ 31"
  shows "heap_ok s'"
proof -
  have "distinct (elems s')"
    using assms(1,3) by (metis settled_def mset_eq_imp_distinct_iff)
  with assms show ?thesis by (simp add: heap_ok_def settled_def)
qed

text \<open>The position of a linked event, and that it is no marker for an unlinked one.\<close>

lemma linked_position:
  assumes "heap_ok s" and "e \<in> set (elems s)"
  shows "unat (min_heap_idx s e) < unat (mh_n s)" "mh_p s ! unat (min_heap_idx s e) = e"
    "min_heap_idx s e \<noteq> - 1"
proof -
  obtain i where i: "i < unat (mh_n s)" "mh_p s ! i = e"
    using assms by (auto simp: in_set_conv_nth elems_def heap_ok_def)
  then have ix: "min_heap_idx s e = of_nat i" using assms(1) by (auto simp: heap_ok_def)
  have b: "i < 2 ^ 31" using i assms(1) by (auto simp: heap_ok_def)
  then have u: "unat (min_heap_idx s e) = i" by (simp add: ix unat_of_nat)
  show "unat (min_heap_idx s e) < unat (mh_n s)" "mh_p s ! unat (min_heap_idx s e) = e"
    using i u by simp_all
  show "min_heap_idx s e \<noteq> - 1"
  proof
    assume "min_heap_idx s e = - 1"
    then have "i = 2 ^ 32 - 1" using u by (simp add: unsigned_minus_1_eq_mask mask_eq_exp_minus_1)
    with b show False by simp
  qed
qed

lemma reserve_spec:
  assumes ok: "heap_ok s" and keeps: "realloc_keeps mm_realloc" and fits: "unat (mh_n s) + 1 < 2 ^ 31"
  shows "min_heap_reserve mm_realloc (mh_n s + 1) s = (- 1, s) \<or>
    (\<exists>s1. min_heap_reserve mm_realloc (mh_n s + 1) s = (0, s1) \<and> heap_ok s1 \<and>
       elems s1 = elems s \<and> mh_n s1 = mh_n s \<and> ev_timeout s1 = ev_timeout s \<and>
       min_heap_idx s1 = min_heap_idx s \<and> unat (mh_n s) + 1 \<le> length (mh_p s1))"
proof (cases "mh_a s < mh_n s + 1")
  case False
  have "unat (mh_n s + 1) = unat (mh_n s) + 1" using fits by (simp add: unat_word_ariths)
  then have "unat (mh_n s) + 1 \<le> length (mh_p s)"
    using False ok by (simp add: word_less_nat_alt heap_ok_def)
  then show ?thesis using False ok by (simp add: min_heap_reserve_def)
next
  case True
  define a0 :: u32 where "a0 = (if mh_a s \<noteq> 0 then mh_a s * 2 else 8)"
  define a' where "a' = (if a0 < mh_n s + 1 then mh_n s + 1 else a0)"
  have res: "min_heap_reserve mm_realloc (mh_n s + 1) s =
      (case mm_realloc (mh_p s) (unat a') of None \<Rightarrow> (- 1, s)
       | Some q \<Rightarrow> (0, s\<lparr>mh_p := q, mh_a := a'\<rparr>))"
    by (simp only: min_heap_reserve_def a0_def a'_def Let_def True if_True)
  have n1: "unat (mh_n s + 1) = unat (mh_n s) + 1" using fits by (simp add: unat_word_ariths)
  have "mh_n s + 1 \<le> a'" by (auto simp: a'_def)
  then have a': "unat (mh_n s) + 1 \<le> unat a'" using n1 by (simp add: word_le_nat_alt)
  show ?thesis
  proof (cases "mm_realloc (mh_p s) (unat a')")
    case None
    then show ?thesis by (simp add: res)
  next
    case (Some q)
    let ?s1 = "s\<lparr>mh_p := q, mh_a := a'\<rparr>"
    have q: "length q = unat a'" "take (min (unat a') (length (mh_p s))) q =
        take (min (unat a') (length (mh_p s))) (mh_p s)"
      using keeps Some by (auto simp: realloc_keeps_def)
    have le: "unat (mh_n s) \<le> min (unat a') (length (mh_p s))"
      using a' ok by (simp add: heap_ok_def)
    have same: "take (unat (mh_n s)) q = take (unat (mh_n s)) (mh_p s)"
      using arg_cong [OF q(2), of "take (unat (mh_n s))"] le by simp
    then have nth: "q ! i = mh_p s ! i" if "i < unat (mh_n s)" for i
      using that by (metis nth_take)
    have "heap_ok ?s1"
      using ok nth a' q(1) same par_less
      by (auto simp: heap_ok_def elems_def ordered_def deadline_at_def) (metis less_trans)
    then show ?thesis using Some a' q(1) same by (simp add: res elems_def)
  qed
qed

lemma push_spec:
  assumes ok: "heap_ok s" and keeps: "realloc_keeps mm_realloc" and fits: "unat (mh_n s) + 1 < 2 ^ 31"
    and new: "e \<notin> set (elems s)"
  shows "min_heap_push mm_realloc e s = Some (- 1, s) \<or>
    (\<exists>s'. min_heap_push mm_realloc e s = Some (0, s') \<and> heap_ok s' \<and> mh_n s' = mh_n s + 1 \<and>
       mset (elems s') = add_mset e (mset (elems s)) \<and> ev_timeout s' = ev_timeout s \<and>
       (\<forall>x. x \<notin> set (elems s') \<longrightarrow> min_heap_idx s' x = min_heap_idx s x))"
  using reserve_spec [OF ok keeps fits]
proof
  assume "min_heap_reserve mm_realloc (mh_n s + 1) s = (- 1, s)"
  then show ?thesis by (simp add: min_heap_push_def)
next
  assume "\<exists>s1. min_heap_reserve mm_realloc (mh_n s + 1) s = (0, s1) \<and> heap_ok s1 \<and>
       elems s1 = elems s \<and> mh_n s1 = mh_n s \<and> ev_timeout s1 = ev_timeout s \<and>
       min_heap_idx s1 = min_heap_idx s \<and> unat (mh_n s) + 1 \<le> length (mh_p s1)"
  then obtain s1 where s1: "min_heap_reserve mm_realloc (mh_n s + 1) s = (0, s1)" "heap_ok s1"
    "elems s1 = elems s" "mh_n s1 = mh_n s" "ev_timeout s1 = ev_timeout s"
    "min_heap_idx s1 = min_heap_idx s" "unat (mh_n s) + 1 \<le> length (mh_p s1)"
    by blast
  let ?m = "unat (mh_n s)" and ?s = "s1\<lparr>mh_n := mh_n s + 1\<rparr>"
  have n1: "unat (mh_n s + 1) = ?m + 1" using fits by (simp add: unat_word_ariths)
  have xs: "take (?m + 1) (pend ?s ?m e) = elems s @ [e]"
    using s1(3,4,7) by (simp add: pend_def elems_def take_Suc_conv_app_nth)
  have pl: "placed ?s (unat (mh_n s)) e"
    using ok new s1 xs fits n1 by (auto simp: placed_def heap_ok_def)
  have "up_ok (deadline_at ?s (pend ?s ?m e)) (?m + 1) ?m"
    using s1(2,4,7) par_less
    by (auto simp: up_ok_def bridge_def heap_ok_def ordered_def deadline_at_def nth_pend par_child)
  then obtain s' where s': "min_heap_shift_up (mh_n s) e ?s = Some s'" "settled ?s (elems s @ [e]) s'"
    using shift_up_spec [OF pl] n1 xs by auto
  have "heap_ok s'"
    using heap_settled [OF s'(2)] s1(2,4,7) ok new n1 fits by (simp add: heap_ok_def)
  moreover have "mset (elems s') = mset (elems s @ [e])" using s'(2) by (simp add: settled_def)
  then have "set (elems s') = insert e (set (elems s))" by (drule_tac mset_eq_setD) simp
  ultimately show ?thesis
    using s'(2) s1 by (intro disjI2 exI [of _ s']) (simp add: min_heap_push_def s'(1) settled_def)
qed

lemma last_take: "0 < k \<Longrightarrow> k \<le> length xs \<Longrightarrow> last (take k xs) = xs ! (k - 1)"
  by (subst last_conv_nth) (auto simp: min_def)

lemma last_elems: "heap_ok s \<Longrightarrow> mh_n s \<noteq> 0 \<Longrightarrow> get_slot s (mh_n s - 1) = Some (last (elems s))"
proof -
  assume ok: "heap_ok s" and nz: "mh_n s \<noteq> 0"
  have u: "unat (mh_n s - 1) = unat (mh_n s) - 1" using nz by (metis unat_minus_one)
  have "0 < unat (mh_n s)" using nz by (simp add: unat_gt_0)
  then show ?thesis
    using ok u by (auto simp: get_slot_def elems_def last_take heap_ok_def)
qed

text \<open>
  Taking the event at a position out: the last event fills the hole. The two facts are the
  ones that pop and erase share.
\<close>

lemma shrink:
  assumes ok: "heap_ok s" and h: "h < unat (mh_n s) - 1"
  defines "s1 \<equiv> s\<lparr>mh_n := mh_n s - 1\<rparr>" and "l \<equiv> last (elems s)"
  shows "placed s1 h l" "unat (mh_n s1) = unat (mh_n s) - 1"
    "mset (take (unat (mh_n s1)) (pend s1 h l)) = mset (elems s) - {#mh_p s ! h#}"
    "distinct (take (unat (mh_n s1)) (pend s1 h l))"
    "unat (mh_n s1) \<le> length (mh_p s1)" "unat (mh_n s1) < 2 ^ 31"
proof -
  let ?m = "unat (mh_n s)"
  have nz: "mh_n s \<noteq> 0" using h by auto
  show n1: "unat (mh_n s1) = ?m - 1" using nz unfolding s1_def by (simp, metis One_nat_def unat_minus_one)
  have b: "?m \<le> length (mh_p s)" "?m < 2 ^ 31" "distinct (elems s)" using ok by (auto simp: heap_ok_def)
  then show "unat (mh_n s1) \<le> length (mh_p s1)" "unat (mh_n s1) < 2 ^ 31"
    using n1 by (auto simp: s1_def)
  have l: "l = mh_p s ! (?m - 1)" using b h by (simp add: l_def elems_def last_take)
  have "elems s \<noteq> []" using b h by (auto simp: elems_def)
  then have sp: "elems s = butlast (elems s) @ [l]" by (simp add: l_def)
  have xs: "take (?m - 1) (pend s1 h l) = (butlast (elems s))[h := l]"
    using b h by (simp add: pend_def s1_def elems_def butlast_take take_update_swap)
  have at: "butlast (elems s) ! h = mh_p s ! h" using b h by (simp add: elems_def nth_butlast)
  have hb: "h < length (butlast (elems s))" using b h by (simp add: elems_def)
  have "mset ((butlast (elems s))[h := l]) = add_mset l (mset (butlast (elems s)) - {#mh_p s ! h#})"
    using hb by (simp add: mset_update at)
  also have "\<dots> = add_mset l (mset (butlast (elems s))) - {#mh_p s ! h#}"
  proof -
    have "mh_p s ! h \<in># mset (butlast (elems s))" using hb at by (metis in_multiset_in_set nth_mem)
    then obtain M where "mset (butlast (elems s)) = add_mset (mh_p s ! h) M"
      by (rule mset_add)
    then show ?thesis
      by (simp only: add_mset_remove_trivial add_mset_commute [of l "mh_p s ! h"])
  qed
  also have "add_mset l (mset (butlast (elems s))) = mset (elems s)" by (subst (2) sp) simp
  finally show ms: "mset (take (unat (mh_n s1)) (pend s1 h l)) = mset (elems s) - {#mh_p s ! h#}"
    using xs n1 by simp
  have "distinct ((butlast (elems s))[h := l])"
  proof -
    have "distinct (butlast (elems s) @ [l])" using sp b(3) by metis
    then show ?thesis by (auto intro!: distinct_list_update)
  qed
  then show d: "distinct (take (unat (mh_n s1)) (pend s1 h l))" using xs n1 by simp
  show "placed s1 h l"
    using b d n1 h ok by (auto simp: placed_def s1_def heap_ok_def)
qed

lemma hole_down:
  assumes "ordered f (Suc m)" and "h < m" and "0 < h \<longrightarrow> f (par h) \<le> x"
  shows "down_ok (f(h := x)) m h"
proof -
  have ord: "\<And>i. i \<le> m \<Longrightarrow> 0 < i \<Longrightarrow> f (par i) \<le> f i"
    using assms(1) by (auto simp: ordered_def)
  have "f (par h) \<le> f c" if "c < m" "0 < h" "0 < c" "par c = h" for c
    using ord [of h] ord [of c] that assms(2) by (auto intro: order_trans)
  then show ?thesis
    using ord assms(2,3) by (auto simp: down_ok_def bridge_def dest: par_less)
qed

lemma hole_up:
  assumes "ordered f (Suc m)" and "h < m" and "0 < h" and "x < f (par h)"
  shows "up_ok (f(h := x)) m h"
proof -
  have ord: "\<And>i. i \<le> m \<Longrightarrow> 0 < i \<Longrightarrow> f (par i) \<le> f i"
    using assms(1) by (auto simp: ordered_def)
  have br: "f (par h) \<le> f c" if "c < m" "0 < c" "par c = h" for c
    using ord [of h] ord [of c] that assms(2,3) by (auto intro: order_trans)
  have "x \<le> f c" if "c < m" "0 < c" "par c = h" for c
    using br [OF that] assms(4) by simp
  then show ?thesis
    using ord br assms(2,3) by (auto simp: up_ok_def bridge_def dest: par_less)
qed

text \<open>What pop and erase leave: \<open>e\<close> is out, everything else is as before.\<close>

definition taken_out :: "min_heap \<Rightarrow> event \<Rightarrow> min_heap \<Rightarrow> bool" where
  "taken_out s e s' \<longleftrightarrow>
     heap_ok s' \<and> mh_n s' = mh_n s - 1 \<and> mset (elems s') = mset (elems s) - {#e#} \<and>
     ev_timeout s' = ev_timeout s \<and> min_heap_idx s' e = - 1 \<and>
     length (mh_p s') = length (mh_p s) \<and>
     (\<forall>x. x \<notin> set (elems s) \<longrightarrow> min_heap_idx s' x = min_heap_idx s x)"

lemma heap_ok_elem_init:
  assumes "heap_ok s" and "e \<notin> set (elems s)"
  shows "heap_ok (min_heap_elem_init e s)" "elems (min_heap_elem_init e s) = elems s"
proof -
  show "elems (min_heap_elem_init e s) = elems s" by (simp add: elems_def min_heap_elem_init_def)
  have "mh_p s ! i \<noteq> e" if "i < unat (mh_n s)" for i
    using assms that by (auto simp: elems_def in_set_conv_nth heap_ok_def)
  then show "heap_ok (min_heap_elem_init e s)"
    using assms(1) by (auto simp: heap_ok_def elems_def min_heap_elem_init_def)
qed

lemma taken_out_init:
  assumes "heap_ok s2" and "mset (elems s2) = mset (elems s) - {#e#}" and "distinct (elems s)"
    and "mh_n s2 = mh_n s - 1" and "ev_timeout s2 = ev_timeout s"
    and "length (mh_p s2) = length (mh_p s)"
    and "\<And>x. x \<notin> set (elems s) \<Longrightarrow> min_heap_idx s2 x = min_heap_idx s x" and e: "e \<in> set (elems s)"
  shows "taken_out s e (min_heap_elem_init e s2)"
proof -
  have "e \<notin># mset (elems s2)"
    using assms(2,3) by (auto simp: not_in_iff distinct_count_atmost_1)
  then have "e \<notin> set (elems s2)" by simp
  note init = heap_ok_elem_init [OF assms(1) this]
  have "x \<noteq> e" if "x \<notin> set (elems s)" for x using that e by auto
  with init assms show ?thesis by (simp add: taken_out_def min_heap_elem_init_def)
qed

lemma remove_at:
  assumes ok: "heap_ok s" and h: "unat i < unat (mh_n s)"
  defines "s1 \<equiv> s\<lparr>mh_n := mh_n s - 1\<rparr>" and "l \<equiv> last (elems s)" and "e \<equiv> mh_p s ! unat i"
  shows "\<exists>s2. (if i \<noteq> 0 \<and> ev_timeout s l < ev_timeout s (mh_p s ! par (unat i))
     then min_heap_shift_up i l s1 else min_heap_shift_down i l s1) = Some s2 \<and>
     taken_out s e (min_heap_elem_init e s2)"
proof -
  let ?m = "unat (mh_n s)" and ?h = "unat i" and ?f = "deadline_at s (mh_p s)"
  let ?up = "i \<noteq> 0 \<and> ev_timeout s l < ev_timeout s (mh_p s ! par ?h)"
  have b: "?m \<le> length (mh_p s)" "?m < 2 ^ 31" "distinct (elems s)" "ordered ?f ?m"
    "unat (mh_a s) = length (mh_p s)" using ok by (auto simp: heap_ok_def)
  have nz: "mh_n s \<noteq> 0" using h by auto
  have n1: "unat (mh_n s1) = ?m - 1" using nz unfolding s1_def by (simp, metis One_nat_def unat_minus_one)
  have l: "l = mh_p s ! (?m - 1)" using b h by (simp add: l_def elems_def last_take)
  have e: "e \<in> set (elems s)" using b h by (auto simp: e_def elems_def in_set_conv_nth)
  have sm: "Suc (?m - 1) = ?m" using h by simp
  show ?thesis
  proof (cases "?h < ?m - 1")
    case True
    note sh = shrink [OF ok True, folded s1_def l_def]
    have dl: "deadline_at s1 (pend s1 ?h l) = ?f(?h := ev_timeout s l)"
      using b h by (auto simp: deadline_at_def pend_def s1_def fun_eq_iff nth_list_update)
    have "\<exists>s2. (if ?up then min_heap_shift_up i l s1 else min_heap_shift_down i l s1) = Some s2 \<and>
        settled s1 (take (unat (mh_n s1)) (pend s1 ?h l)) s2"
    proof (cases ?up)
      case up: True
      then have "up_ok (?f(?h := ev_timeout s l)) (?m - 1) ?h"
        using b(4) sm True by (intro hole_up) (auto simp: deadline_at_def unat_gt_0)
      then show ?thesis using shift_up_spec [OF sh(1)] up n1 by (simp only: dl if_True) simp
    next
      case False
      then have "down_ok (?f(?h := ev_timeout s l)) (?m - 1) ?h"
        using b(4) sm True by (intro hole_down) (auto simp: deadline_at_def unat_gt_0)
      then show ?thesis using shift_down_spec [OF sh(1)] False n1 by (simp only: dl if_False)
    qed
    then obtain s2 where
      r: "(if ?up then min_heap_shift_up i l s1 else min_heap_shift_down i l s1) = Some s2"
      and st: "settled s1 (take (unat (mh_n s1)) (pend s1 ?h l)) s2" by blast
    have sub: "set (take (unat (mh_n s1)) (pend s1 ?h l)) \<subseteq> set (elems s)"
      using sh(3) by (metis in_diffD set_mset_mset subsetI)
    have "heap_ok s2" using heap_settled [OF st _ sh(4)] sh(5,6) b(5) by (simp add: s1_def)
    moreover have "mset (elems s2) = mset (elems s) - {#e#}"
      using st sh(3) by (simp add: settled_def e_def)
    moreover have "mh_n s2 = mh_n s - 1" "ev_timeout s2 = ev_timeout s"
      "length (mh_p s2) = length (mh_p s)"
      using st by (simp_all add: settled_def s1_def)
    moreover have "min_heap_idx s2 x = min_heap_idx s x" if "x \<notin> set (elems s)" for x
      using st sub that by (auto simp: settled_def s1_def)
    ultimately have "taken_out s e (min_heap_elem_init e s2)"
      using b(3) e by (intro taken_out_init) auto
    with r show ?thesis by blast
  next
    case False
    then have hm: "?h = ?m - 1" using h by simp
    then have el: "e = l" by (simp add: e_def l)
    have "\<not> ?up"
    proof
      assume up: ?up
      then have "?f (par ?h) \<le> ?f ?h" using b(4) h by (simp add: ordered_def unat_gt_0)
      with up show False by (auto simp: deadline_at_def l hm)
    qed
    have "i < 2 ^ 31 - 1" using hm b(2) h by (simp add: word_less_nat_alt)
    let ?s2 = "s1\<lparr>mh_p := (mh_p s)[?h := l], min_heap_idx := (min_heap_idx s)(l := i)\<rparr>"
    have "min_heap_shift_down i l s1 = put_slot i l s1"
      using n1 hm b(2) h by (intro shift_down_leaf) auto
    also have "\<dots> = Some ?s2" using b(1) h by (simp add: put_slot_def s1_def)
    finally have r: "min_heap_shift_down i l s1 = Some ?s2" .
    have p2: "(mh_p s)[?h := l] = mh_p s" using hm l by simp
    have els: "elems ?s2 = butlast (elems s)" using b(1) n1 p2 by (simp add: elems_def butlast_take)
    have sp: "elems s = butlast (elems s) @ [l]" using e by (cases "elems s") (auto simp: l_def)
    have "mset (elems s) = add_mset l (mset (butlast (elems s)))" by (subst sp) simp
    then have ms: "mset (elems ?s2) = mset (elems s) - {#e#}" by (simp add: els el)
    have "heap_ok ?s2"
    proof -
      have "mh_p s ! j \<noteq> l" if "j < ?m - 1" for j
        using b(1,3) that h by (auto simp: l elems_def distinct_conv_nth)
      then show ?thesis
        using ok n1 p2 els distinct_butlast [OF b(3)] b
        by (auto simp: heap_ok_def ordered_def s1_def simp del: fun_upd_apply) auto
    qed
    moreover have "x \<noteq> l" if "x \<notin> set (elems s)" for x using that e el by auto
    ultimately have "taken_out s e (min_heap_elem_init e ?s2)"
      using ms b(3) e by (intro taken_out_init) (auto simp: s1_def)
    with r \<open>\<not> ?up\<close> show ?thesis by (simp only: if_False) blast
  qed
qed

lemma top_spec:
  assumes ok: "heap_ok s"
  shows "elems s = [] \<Longrightarrow> min_heap_top s = Some None"
    "elems s \<noteq> [] \<Longrightarrow> min_heap_top s = Some (Some (hd (elems s)))"
    "x \<in> set (elems s) \<Longrightarrow> ev_timeout s (hd (elems s)) \<le> ev_timeout s x"
proof -
  show "elems s = [] \<Longrightarrow> min_heap_top s = Some None"
    using length_elems [OF ok] by (simp add: min_heap_top_def unat_eq_0)
  show "elems s \<noteq> [] \<Longrightarrow> min_heap_top s = Some (Some (hd (elems s)))"
    using ok by (cases "mh_p s")
      (auto simp: min_heap_top_def get_slot_def elems_def heap_ok_def take_Cons' unat_gt_0)
  assume "x \<in> set (elems s)"
  then obtain i where i: "i < unat (mh_n s)" "mh_p s ! i = x"
    by (auto simp: elems_def in_set_conv_nth)
  have "hd (elems s) = mh_p s ! 0"
    using i(1) ok by (cases "mh_p s") (auto simp: elems_def heap_ok_def take_Cons')
  moreover have "deadline_at s (mh_p s) 0 \<le> deadline_at s (mh_p s) i"
    using ok i(1) by (intro ordered_root) (auto simp: heap_ok_def)
  ultimately show "ev_timeout s (hd (elems s)) \<le> ev_timeout s x"
    using i(2) by (simp add: deadline_at_def)
qed

lemma pop_spec:
  assumes ok: "heap_ok s" and ne: "elems s \<noteq> []"
  shows "\<exists>s'. min_heap_pop s = Some (Some (hd (elems s)), s') \<and> taken_out s (hd (elems s)) s'"
proof -
  have n0: "mh_n s \<noteq> 0" "0 < unat (mh_n s)"
    using ne length_elems [OF ok] by (auto simp: unat_gt_0)
  have e: "mh_p s ! 0 = hd (elems s)"
    using ne n0 by (simp add: hd_conv_nth nth_elems)
  have s0: "get_slot s 0 = Some (hd (elems s))"
    using n0 ok e by (auto simp: get_slot_def heap_ok_def)
  show ?thesis
    using remove_at [OF ok, of 0] n0 s0 last_elems [OF ok n0(1)] e
    by (auto simp: min_heap_pop_def)
qed

lemma erase_spec:
  assumes ok: "heap_ok s" and e: "e \<in> set (elems s)"
  shows "\<exists>s'. min_heap_erase e s = Some (0, s') \<and> taken_out s e s'"
proof -
  let ?i = "min_heap_idx s e" and ?s1 = "s\<lparr>mh_n := mh_n s - 1\<rparr>" and ?l = "last (elems s)"
  note pos = linked_position [OF ok e]
  have n0: "mh_n s \<noteq> 0" using pos(1) by auto
  have b: "unat (mh_n s) \<le> length (mh_p s)" "unat (mh_n s) < 2 ^ 31"
    using ok by (auto simp: heap_ok_def)
  have pos0: "0 <s ?i \<longleftrightarrow> ?i \<noteq> 0"
  proof -
    have "unat ?i < 2 ^ 31" using pos(1) b(2) by simp
    then have "int (unat ?i) < int (2 ^ 31)" by (simp only: of_nat_less_iff)
    then have "uint ?i < 2 ^ 31" by simp
    moreover have "- (2 ^ 31) \<le> uint ?i" by (rule order_trans [OF _ uint_ge_0]) simp
    ultimately have "sint ?i = int (unat ?i)"
      using signed_take_bit_int_eq_self [of 31 "uint ?i"] by (simp add: sint_uint)
    then show ?thesis by (auto simp: word_sless_alt uint_0_iff intro: le_neq_trans)
  qed
  have guard: "(if 0 <s ?i then map_option (\<lambda>q. min_heap_elem_greater ?s1 q ?l) (get_slot ?s1 ((?i - 1) div 2))
      else Some False) =
    Some (?i \<noteq> 0 \<and> ev_timeout s ?l < ev_timeout s (mh_p s ! par (unat ?i)))"
    using pos(1) b(1) unat_parent [of ?i] unat_parent_less [of ?i]
    by (auto simp: pos0 get_slot_def par_def)
  let ?up = "?i \<noteq> 0 \<and> ev_timeout s ?l < ev_timeout s (mh_p s ! par (unat ?i))"
  obtain s2 where s2: "(if ?up then min_heap_shift_up ?i ?l ?s1 else min_heap_shift_down ?i ?l ?s1) = Some s2"
    "taken_out s e (min_heap_elem_init e s2)"
    using remove_at [OF ok pos(1)] pos(2) by auto
  have ix: "min_heap_idx ?s1 e = ?i" by simp
  have "min_heap_erase e s = Option.bind (Some ?up) (\<lambda>up.
      Option.bind (if up then min_heap_shift_up ?i ?l ?s1 else min_heap_shift_down ?i ?l ?s1)
        (\<lambda>s2. Some (0, min_heap_elem_init e s2)))"
    using pos(3) last_elems [OF ok n0]
    by (simp only: min_heap_erase_def Let_def not_sym [OF pos(3)] if_True Option.bind.bind_lunit
      ix guard) simp
  then show ?thesis using s2 by simp
qed

lemma erase_unlinked: "min_heap_idx s e = - 1 \<Longrightarrow> min_heap_erase e s = Some (- 1, s)"
  by (simp add: min_heap_erase_def)

section \<open>The interface of a timer queue\<close>

text \<open>
  What the event loop relies on: an event of the queue with the earliest deadline can be
  looked at, and any event of the queue can be taken out. \<open>drains\<close> is the loop that serves
  from the top; the events come in order of their deadlines and none before them is left.
\<close>

locale timer_queue =
  fixes ok :: "'q \<Rightarrow> bool"
    and content :: "'q \<Rightarrow> 'e set"
    and due :: "'q \<Rightarrow> 'e \<Rightarrow> 'k::linorder"
    and top :: "'q \<Rightarrow> 'e option"
    and take_out :: "'e \<Rightarrow> 'q \<Rightarrow> 'q"
  assumes top_None: "ok q \<Longrightarrow> top q = None \<longleftrightarrow> content q = {}"
    and top_in: "ok q \<Longrightarrow> top q = Some e \<Longrightarrow> e \<in> content q"
    and top_least: "ok q \<Longrightarrow> top q = Some e \<Longrightarrow> x \<in> content q \<Longrightarrow> due q e \<le> due q x"
    and take_out_ok: "ok q \<Longrightarrow> e \<in> content q \<Longrightarrow> ok (take_out e q)"
    and take_out_content: "ok q \<Longrightarrow> e \<in> content q \<Longrightarrow> content (take_out e q) = content q - {e}"
    and take_out_due: "ok q \<Longrightarrow> e \<in> content q \<Longrightarrow> due (take_out e q) = due q"
begin

primrec drains :: "'e list \<Rightarrow> 'q \<Rightarrow> bool" where
  "drains [] q \<longleftrightarrow> True"
| "drains (e # es) q \<longleftrightarrow> top q = Some e \<and> drains es (take_out e q)"

lemma drains_ordered:
  "ok q \<Longrightarrow> drains es q \<Longrightarrow>
     sorted (map (due q) es) \<and> distinct es \<and> set es \<subseteq> content q \<and>
     ok (fold take_out es q) \<and> content (fold take_out es q) = content q - set es \<and>
     due (fold take_out es q) = due q \<and>
     (\<forall>e\<in>set es. \<forall>x\<in>content q - set es. due q e \<le> due q x)"
proof (induction es arbitrary: q)
  case (Cons e es)
  have e: "top q = Some e" "e \<in> content q" using Cons.prems top_in by auto
  note out = take_out_ok [OF Cons.prems(1) e(2)] take_out_content [OF Cons.prems(1) e(2)]
    take_out_due [OF Cons.prems(1) e(2)]
  have "drains es (take_out e q)" using Cons.prems(2) by simp
  note ih = Cons.IH [OF out(1) this, unfolded out(2,3)]
  moreover have "due q e \<le> due q x" if "x \<in> content q" for x
    using top_least [OF Cons.prems(1) e(1) that] .
  ultimately show ?case using e(2) by auto
qed simp

text \<open>Serving while the top is due serves exactly the due events.\<close>

lemma drains_due:
  assumes "ok q" and "drains es q" and "\<forall>e\<in>set es. due q e \<le> now"
    and "\<forall>e. top (fold take_out es q) = Some e \<longrightarrow> now < due q e"
  shows "set es = {e \<in> content q. due q e \<le> now}"
proof -
  note d = drains_ordered [OF assms(1,2)]
  have "now < due q x" if x: "x \<in> content q - set es" for x
  proof -
    have "content (fold take_out es q) \<noteq> {}" using d x by blast
    then obtain t where t: "top (fold take_out es q) = Some t" using d top_None by (metis option.exhaust)
    have "now < due q t" using t assms(4) by blast
    also have "due q t \<le> due q x" using top_least [of "fold take_out es q" t x] d t x by simp
    finally show ?thesis .
  qed
  then have "x \<in> set es" if "x \<in> content q" "due q x \<le> now" for x
    using that by (meson DiffI leD)
  then show ?thesis using d assms(3) by blast
qed

end

text \<open>The heap provides it, on the functions of the code.\<close>

definition heap_top :: "min_heap \<Rightarrow> event option" where
  "heap_top s = Option.bind (min_heap_top s) id"

definition heap_out :: "event \<Rightarrow> min_heap \<Rightarrow> min_heap" where
  "heap_out e s = snd (the (min_heap_erase e s))"

lemma heap_top_eq: "heap_ok s \<Longrightarrow> heap_top s = (if elems s = [] then None else Some (hd (elems s)))"
  using top_spec(1,2) [of s] by (auto simp: heap_top_def)

lemma set_minus_distinct: "mset ys = mset xs - {#e#} \<Longrightarrow> distinct xs \<Longrightarrow> set ys = set xs - {e}"
proof -
  assume ms: "mset ys = mset xs - {#e#}" and d: "distinct xs"
  have "set ys = set_mset (mset xs - {#e#})" by (simp flip: ms)
  also have "mset xs - {#e#} = mset (remove1 e xs)" by simp
  finally show ?thesis using d by (simp only: set_mset_mset set_remove1_eq)
qed

lemma heap_out_spec:
  assumes "heap_ok s" and "e \<in> set (elems s)"
  shows "min_heap_erase e s = Some (0, heap_out e s)" "taken_out s e (heap_out e s)"
    "set (elems (heap_out e s)) = set (elems s) - {e}"
proof -
  obtain s' where s': "min_heap_erase e s = Some (0, s')" "taken_out s e s'"
    using erase_spec [OF assms] by blast
  then show out: "min_heap_erase e s = Some (0, heap_out e s)" "taken_out s e (heap_out e s)"
    by (simp_all add: heap_out_def)
  show "set (elems (heap_out e s)) = set (elems s) - {e}"
    using out(2) assms(1) by (intro set_minus_distinct) (auto simp: taken_out_def heap_ok_def)
qed

interpretation th: timer_queue heap_ok "\<lambda>s. set (elems s)" ev_timeout heap_top heap_out
proof
  fix s e x assume ok: "heap_ok s"
  show "heap_top s = None \<longleftrightarrow> set (elems s) = {}" by (simp add: heap_top_eq [OF ok])
  show "heap_top s = Some e \<Longrightarrow> e \<in> set (elems s)"
    by (auto simp: heap_top_eq [OF ok] split: if_splits)
  show "heap_top s = Some e \<Longrightarrow> x \<in> set (elems s) \<Longrightarrow> ev_timeout s e \<le> ev_timeout s x"
    using top_spec(3) [OF ok] by (auto simp: heap_top_eq [OF ok] split: if_splits)
  assume e: "e \<in> set (elems s)"
  note out = heap_out_spec [OF ok e]
  show "heap_ok (heap_out e s)" "ev_timeout (heap_out e s) = ev_timeout s"
    using out(2) by (simp_all add: taken_out_def)
  show "set (elems (heap_out e s)) = set (elems s) - {e}" by (fact out(3))
qed

section \<open>Every reachable timer queue\<close>

text \<open>
  What the event loop does with the heap. A deadline is written before the event is pushed
  and never while it is linked; the size stays below what \<^verbatim>\<open>int min_heap_idx\<close> can count.
\<close>

inductive timer_states :: "reallocator \<Rightarrow> min_heap \<Rightarrow> bool" for mm_realloc where
  ctor: "timer_states mm_realloc (min_heap_ctor s)"
| init: "timer_states mm_realloc s \<Longrightarrow> e \<notin> set (elems s) \<Longrightarrow> timer_states mm_realloc (min_heap_elem_init e s)"
| set_deadline: "timer_states mm_realloc s \<Longrightarrow> e \<notin> set (elems s) \<Longrightarrow>
    timer_states mm_realloc (s\<lparr>ev_timeout := (ev_timeout s)(e := t)\<rparr>)"
| push: "timer_states mm_realloc s \<Longrightarrow> e \<notin> set (elems s) \<Longrightarrow> unat (mh_n s) + 1 < 2 ^ 31 \<Longrightarrow>
    min_heap_push mm_realloc e s = Some (r, s') \<Longrightarrow> timer_states mm_realloc s'"
| pop: "timer_states mm_realloc s \<Longrightarrow> min_heap_pop s = Some (r, s') \<Longrightarrow> timer_states mm_realloc s'"
| erase: "timer_states mm_realloc s \<Longrightarrow> e \<in> set (elems s) \<or> min_heap_idx s e = - 1 \<Longrightarrow>
    min_heap_erase e s = Some (i, s') \<Longrightarrow> timer_states mm_realloc s'"

lemma heap_ok_ctor: "heap_ok (min_heap_ctor s)"
  by (simp add: heap_ok_def min_heap_ctor_def elems_def ordered_def)

lemma heap_ok_deadline:
  assumes ok: "heap_ok s" and e: "e \<notin> set (elems s)"
  shows "heap_ok (s\<lparr>ev_timeout := (ev_timeout s)(e := t)\<rparr>)"
proof -
  have "mh_p s ! i \<noteq> e" if "i < unat (mh_n s)" for i
    using that ok e by (auto simp: elems_def in_set_conv_nth heap_ok_def)
  moreover have "par i < unat (mh_n s)" if "i < unat (mh_n s)" "0 < i" for i
    using par_less [OF that(2)] that(1) by simp
  ultimately show ?thesis
    using ok by (simp add: heap_ok_def elems_def ordered_def deadline_at_def)
qed

lemma timer_states_ok:
  assumes "realloc_keeps mm_realloc" and "timer_states mm_realloc s"
  shows "heap_ok s"
  using assms(2)
proof induction
  case (push s e r s')
  with push_spec [OF _ assms(1), of s e] show ?case by auto
next
  case (pop s r s')
  show ?case
  proof (cases "elems s = []")
    case True
    then have "mh_n s = 0" using length_elems [OF pop.IH] by (simp add: unat_eq_0)
    with pop show ?thesis by (simp add: min_heap_pop_def)
  next
    case False
    with pop_spec [OF pop.IH] pop.hyps show ?thesis by (auto simp: taken_out_def)
  qed
next
  case (erase s e i s')
  then show ?case using erase_spec [of s e] erase_unlinked [of s e] by (auto simp: taken_out_def)
qed (auto intro: heap_ok_ctor heap_ok_elem_init heap_ok_deadline)

text \<open>C18:
  In every state the event loop can bring its timer queue to, no operation reads or writes
  outside the array or runs for ever: a push either reports that memory is short and changes
  nothing, or adds its event; a pop returns an event with the earliest deadline and removes
  exactly that one; an erase removes exactly the event it is given, wherever it stands, and
  marks it as unlinked.
\<close>

theorem timer_heap_serves:
  assumes "realloc_keeps mm_realloc" and "timer_states mm_realloc s"
  shows "(\<forall>e. e \<notin> set (elems s) \<and> unat (mh_n s) + 1 < 2 ^ 31 \<longrightarrow>
      min_heap_push mm_realloc e s = Some (- 1, s) \<or>
      (\<exists>s'. min_heap_push mm_realloc e s = Some (0, s') \<and>
         set (elems s') = insert e (set (elems s)) \<and> ev_timeout s' = ev_timeout s)) \<and>
    (if elems s = [] then min_heap_pop s = Some (None, s)
     else \<exists>e s'. min_heap_pop s = Some (Some e, s') \<and> e \<in> set (elems s) \<and>
       (\<forall>x\<in>set (elems s). ev_timeout s e \<le> ev_timeout s x) \<and>
       set (elems s') = set (elems s) - {e} \<and> ev_timeout s' = ev_timeout s \<and>
       min_heap_idx s' e = - 1) \<and>
    (\<forall>e\<in>set (elems s). \<exists>s'. min_heap_erase e s = Some (0, s') \<and>
       set (elems s') = set (elems s) - {e} \<and> ev_timeout s' = ev_timeout s \<and>
       min_heap_idx s' e = - 1)"
proof -
  note ok = timer_states_ok [OF assms]
  have out: "set (elems s') = set (elems s) - {e} \<and> ev_timeout s' = ev_timeout s \<and> min_heap_idx s' e = - 1"
    if "taken_out s e s'" for e s'
    using that ok set_minus_distinct [of "elems s'" "elems s" e] by (simp add: taken_out_def heap_ok_def)
  have push: "min_heap_push mm_realloc e s = Some (- 1, s) \<or>
      (\<exists>s'. min_heap_push mm_realloc e s = Some (0, s') \<and>
         set (elems s') = insert e (set (elems s)) \<and> ev_timeout s' = ev_timeout s)"
    if "e \<notin> set (elems s) \<and> unat (mh_n s) + 1 < 2 ^ 31" for e
  proof -
    have "set (elems s') = insert e (set (elems s))" if "mset (elems s') = add_mset e (mset (elems s))"
      for s' using mset_eq_setD [of "elems s'" "e # elems s"] that by simp
    then show ?thesis using push_spec [OF ok assms(1), of e] that by blast
  qed
  have none: "min_heap_pop s = Some (None, s)" if "elems s = []"
    using that length_elems [OF ok] by (simp add: min_heap_pop_def unat_eq_0)
  have pop: "\<exists>e s'. min_heap_pop s = Some (Some e, s') \<and> e \<in> set (elems s) \<and>
       (\<forall>x\<in>set (elems s). ev_timeout s e \<le> ev_timeout s x) \<and>
       set (elems s') = set (elems s) - {e} \<and> ev_timeout s' = ev_timeout s \<and>
       min_heap_idx s' e = - 1" if "elems s \<noteq> []"
    using pop_spec [OF ok that] top_spec(3) [OF ok] out hd_in_set [OF that] by blast
  have erase: "\<exists>s'. min_heap_erase e s = Some (0, s') \<and>
       set (elems s') = set (elems s) - {e} \<and> ev_timeout s' = ev_timeout s \<and>
       min_heap_idx s' e = - 1" if "e \<in> set (elems s)" for e
    using erase_spec [OF ok that] out by blast
  show ?thesis
    using none pop by (intro conjI allI impI ballI push erase) (auto simp only: split: if_split)
qed

text \<open>Two timers, the later one pushed first.\<close>

definition plain_realloc :: reallocator where
  "plain_realloc xs k = Some (take k xs @ replicate (k - length xs) 0)"

lemma plain_realloc_keeps: "realloc_keeps plain_realloc"
  by (auto simp: realloc_keeps_def plain_realloc_def min_def)

definition two_timers :: min_heap where
  "two_timers = \<lparr>mh_p = [2, 1, 0, 0, 0, 0, 0, 0], mh_n = 2, mh_a = 8,
     ev_timeout = (\<lambda>e. if e = 1 then Timeval 9 0 else Timeval 4 0),
     min_heap_idx = (\<lambda>_. - 1)(1 := 1, 2 := 0)\<rparr>"

lemma two_timers_reachable: "timer_states plain_realloc two_timers"
proof -
  have eight: "replicate 8 (0 :: event) = [0, 0, 0, 0, 0, 0, 0, 0]" by (simp add: eval_nat_numeral)
  let ?d = "\<lambda>e :: event. if e = 1 then Timeval 9 0 else Timeval 4 0"
  let ?s0 = "\<lparr>mh_p = [], mh_n = 0, mh_a = 0, ev_timeout = ?d, min_heap_idx = \<lambda>_. - 1\<rparr>"
  let ?s1 = "\<lparr>mh_p = [1, 0, 0, 0, 0, 0, 0, 0], mh_n = 1, mh_a = 8, ev_timeout = ?d,
     min_heap_idx = (\<lambda>_. - 1)(1 := 0)\<rparr>"
  have "timer_states plain_realloc (min_heap_ctor ?s0)" by (rule timer_states.ctor)
  then have s0: "timer_states plain_realloc ?s0" by (simp add: min_heap_ctor_def)
  have p1: "min_heap_push plain_realloc 1 ?s0 = Some (0, ?s1)"
    by (simp add: min_heap_push_def min_heap_reserve_def plain_realloc_def put_slot_def
        min_heap_shift_up.simps eight)
  have s1: "timer_states plain_realloc ?s1"
    by (rule timer_states.push [OF s0 _ _ p1]) (simp_all add: elems_def)
  have p2: "min_heap_push plain_realloc 2 ?s1 = Some (0, two_timers)"
    by (simp add: min_heap_push_def min_heap_reserve_def two_timers_def put_slot_def get_slot_def
        min_heap_shift_up.simps less_timeval_def fun_upd_twist)
  show ?thesis
    by (rule timer_states.push [OF s1 _ _ p2]) (simp_all add: elems_def)
qed

lemma timer_heap_serves_witness:
  "\<exists>s'. min_heap_pop two_timers = Some (Some 2, s') \<and> set (elems s') = {1}"
proof -
  have els: "elems two_timers = [2, 1]" by (simp add: elems_def two_timers_def)
  have "ev_timeout two_timers 2 < ev_timeout two_timers 1"
    by (simp add: two_timers_def less_timeval_def)
  then show ?thesis
    using timer_heap_serves [OF plain_realloc_keeps two_timers_reachable] els
    by (auto simp: not_le)
qed

end
