(* ===== verification/EventBase.thy ===== *)
theory EventBase
  imports MinHeap
begin

unbundle bit_operations_syntax

text \<open>
  The event base of the event library (\<^verbatim>\<open>src/depend/event/project/event.c\<close> and
  \<^verbatim>\<open>evmap.c\<close>): which events are added, which are active, which wait for a deadline, and
  what the polling backend has been asked to watch. Every thread of the server runs one.

  All functions here run under the lock of the base in the thread of its loop, so each is
  one step. What the platform answers (memory, the backend's system calls, the clock) is
  the record \<open>ev_env\<close>. A failed assertion, a fatal error, an access to a list the event is
  not on and a use of an unset clock are exceptions: a lemma that an operation returns
  \<open>Inr\<close> excludes them all.
\<close>

section \<open>Flags\<close>

definition EV_TIMEOUT :: u16 where "EV_TIMEOUT = 0x01"
definition EV_READ :: u16 where "EV_READ = 0x02"
definition EV_WRITE :: u16 where "EV_WRITE = 0x04"
definition EV_SIGNAL :: u16 where "EV_SIGNAL = 0x08"
definition EV_PERSIST :: u16 where "EV_PERSIST = 0x10"
definition EV_ET :: u16 where "EV_ET = 0x20"

definition EVLIST_TIMEOUT :: u16 where "EVLIST_TIMEOUT = 0x01"
definition EVLIST_INSERTED :: u16 where "EVLIST_INSERTED = 0x02"
definition EVLIST_ACTIVE :: u16 where "EVLIST_ACTIVE = 0x08"
definition EVLIST_INTERNAL :: u16 where "EVLIST_INTERNAL = 0x10"
definition EVLIST_INIT :: u16 where "EVLIST_INIT = 0x80"
definition EVLIST_ALL :: u16 where "EVLIST_ALL = 0xf09f"

text \<open>\<^verbatim>\<open>if (word & bits)\<close>\<close>

definition test :: "u16 \<Rightarrow> u16 \<Rightarrow> bool" where
  "test w bits \<longleftrightarrow> w AND bits \<noteq> 0"

section \<open>State\<close>

datatype closure = EV_CLOSURE_NONE | EV_CLOSURE_SIGNAL | EV_CLOSURE_PERSIST

text \<open>The events that watch one descriptor, and how many of them read and write.\<close>

record evmap_io =
  io_events :: "event list"
  nread :: u16
  nwrite :: u16

text \<open>
  \<^verbatim>\<open>struct event_base\<close> with the fields of the events as maps from their addresses; the
  deadlines and heap positions are inside \<open>timeheap\<close>. \<open>cells\<close> are the \<^verbatim>\<open>short\<close> variables
  that \<^verbatim>\<open>ev_pncalls\<close> may point to. \<open>backend_log\<close> is a history variable: the requests the
  backend has granted, newest first (added or deleted, descriptor, events).
\<close>

record event_base =
  timeheap :: min_heap
  eventqueue :: "event list"
  activequeues :: "event list list"
  event_count :: int
  virtual_event_count :: int
  event_count_active :: int
  event_running_priority :: int
  event_continue :: bool
  n_common_timeouts :: int
  tv_cache :: timeval
  event_tv :: timeval
  io :: "evmap_io option list"
  sigmap :: "event list option list"
  ev_fd :: "event \<Rightarrow> int"
  ev_has_base :: "event \<Rightarrow> bool"
  ev_events :: "event \<Rightarrow> u16"
  ev_res :: "event \<Rightarrow> u16"
  ev_flags :: "event \<Rightarrow> u16"
  ev_pri :: "event \<Rightarrow> nat"
  ev_closure :: "event \<Rightarrow> closure"
  ev_ncalls :: "event \<Rightarrow> u16"
  ev_pncalls :: "event \<Rightarrow> nat option"
  ev_io_timeout :: "event \<Rightarrow> timeval"
  cells :: "nat \<Rightarrow> u16"
  backend_log :: "(bool \<times> int \<times> u16) list"

record ev_env =
  env_realloc :: reallocator
  mem_ok :: "nat \<Rightarrow> bool"
  be_add :: "int \<Rightarrow> u16 \<Rightarrow> u16 \<Rightarrow> int"
  be_del :: "int \<Rightarrow> u16 \<Rightarrow> u16 \<Rightarrow> int"
  clock :: "timeval option"

datatype ev_fault = FatalError | AssertFailed | BadAccess | Uninitialised | CommonTimeout

type_synonym 'a ev_op = "(event_base, ev_fault, 'a) op"

text \<open>The list macros: an element is on a list at most once, and only a member is unlinked.\<close>

definition TAILQ_REMOVE :: "event \<Rightarrow> event list \<Rightarrow> event list option" where
  "TAILQ_REMOVE e xs = (if e \<in> set xs then Some (remove1 e xs) else None)"

definition TAILQ_INSERT_TAIL :: "event \<Rightarrow> event list \<Rightarrow> event list option" where
  "TAILQ_INSERT_TAIL e xs = (if e \<in> set xs then None else Some (xs @ [e]))"

definition getM :: "('s \<Rightarrow> 'a) \<Rightarrow> ('s, 'e, 'a) op" where
  "getM f = (\<lambda>s. (Inr (f s), s))"

definition modM :: "('s \<Rightarrow> 's) \<Rightarrow> ('s, 'e, unit) op" where
  "modM f = (\<lambda>s. (Inr (), f s))"

definition assertM :: "bool \<Rightarrow> 'a ev_op \<Rightarrow> 'a ev_op" where
  "assertM c m = (if c then m else throwM AssertFailed)"

section \<open>Deadlines\<close>

definition evutil_timeradd :: "timeval \<Rightarrow> timeval \<Rightarrow> timeval" where
  "evutil_timeradd t u =
     (let s = tv_sec t + tv_sec u; us = tv_usec t + tv_usec u in
      if us \<ge> 1000000 then Timeval (s + 1) (us - 1000000) else Timeval s us)"

definition evutil_timersub :: "timeval \<Rightarrow> timeval \<Rightarrow> timeval" where
  "evutil_timersub t u =
     (let s = tv_sec t - tv_sec u; us = tv_usec t - tv_usec u in
      if us < 0 then Timeval (s - 1) (us + 1000000) else Timeval s us)"

text \<open>
  Deadlines of common timeouts are kept in lists of their own. Neither the server nor the
  client registers one, so these lists are not part of the state; the branches that would
  use them are the exception \<open>CommonTimeout\<close>.
\<close>

definition is_common_timeout :: "timeval \<Rightarrow> event_base \<Rightarrow> bool" where
  "is_common_timeout tv b \<longleftrightarrow>
     (if tv_usec tv AND 0xf0000000 \<noteq> 0x50000000 then False
      else drop_bit 20 (tv_usec tv AND 0x0ff00000) < n_common_timeouts b)"

definition gettime :: "ev_env \<Rightarrow> event_base \<Rightarrow> timeval option" where
  "gettime env b = (if tv_sec (tv_cache b) \<noteq> 0 then Some (tv_cache b) else clock env)"

section \<open>The queues\<close>

definition count_external :: "event \<Rightarrow> int \<Rightarrow> event_base \<Rightarrow> event_base" where
  "count_external ev d b =
     (if test (NOT (ev_flags b ev)) EVLIST_INTERNAL then b\<lparr>event_count := event_count b + d\<rparr> else b)"

definition active_list :: "event \<Rightarrow> event_base \<Rightarrow> event list option" where
  "active_list ev b =
     (if ev_pri b ev < length (activequeues b) then Some (activequeues b ! ev_pri b ev) else None)"

definition event_queue_remove :: "event \<Rightarrow> u16 \<Rightarrow> unit ev_op" where
  "event_queue_remove ev queue = (\<lambda>b0.
     if \<not> test (ev_flags b0 ev) queue then (Inl FatalError, b0)
     else
       let b1 = count_external ev (- 1) b0;
           b = b1\<lparr>ev_flags := (ev_flags b1)(ev := ev_flags b1 ev AND NOT queue)\<rparr>
       in if queue = EVLIST_INSERTED then
            (case TAILQ_REMOVE ev (eventqueue b) of
               None \<Rightarrow> (Inl BadAccess, b)
             | Some q \<Rightarrow> (Inr (), b\<lparr>eventqueue := q\<rparr>))
          else if queue = EVLIST_ACTIVE then
            (case Option.bind (active_list ev b) (TAILQ_REMOVE ev) of
               None \<Rightarrow> (Inl BadAccess, b)
             | Some q \<Rightarrow> (Inr (), b\<lparr>event_count_active := event_count_active b - 1,
                             activequeues := (activequeues b)[ev_pri b ev := q]\<rparr>))
          else if queue = EVLIST_TIMEOUT then
            (if is_common_timeout (ev_timeout (timeheap b) ev) b then (Inl CommonTimeout, b)
             else case min_heap_erase ev (timeheap b) of
               None \<Rightarrow> (Inl BadAccess, b)
             | Some (_, h) \<Rightarrow> (Inr (), b\<lparr>timeheap := h\<rparr>))
          else (Inl FatalError, b))"

definition event_queue_insert :: "ev_env \<Rightarrow> event \<Rightarrow> u16 \<Rightarrow> unit ev_op" where
  "event_queue_insert env ev queue = (\<lambda>b0.
     if test (ev_flags b0 ev) queue then
       (if test queue EVLIST_ACTIVE then (Inr (), b0) else (Inl FatalError, b0))
     else
       let b1 = count_external ev 1 b0;
           b = b1\<lparr>ev_flags := (ev_flags b1)(ev := ev_flags b1 ev OR queue)\<rparr>
       in if queue = EVLIST_INSERTED then
            (case TAILQ_INSERT_TAIL ev (eventqueue b) of
               None \<Rightarrow> (Inl BadAccess, b)
             | Some q \<Rightarrow> (Inr (), b\<lparr>eventqueue := q\<rparr>))
          else if queue = EVLIST_ACTIVE then
            (case Option.bind (active_list ev b) (TAILQ_INSERT_TAIL ev) of
               None \<Rightarrow> (Inl BadAccess, b)
             | Some q \<Rightarrow> (Inr (), b\<lparr>event_count_active := event_count_active b + 1,
                             activequeues := (activequeues b)[ev_pri b ev := q]\<rparr>))
          else if queue = EVLIST_TIMEOUT then
            (if is_common_timeout (ev_timeout (timeheap b) ev) b then (Inl CommonTimeout, b)
             else case min_heap_push (env_realloc env) ev (timeheap b) of
               None \<Rightarrow> (Inl BadAccess, b)
             | Some (_, h) \<Rightarrow> (Inr (), b\<lparr>timeheap := h\<rparr>))
          else (Inl FatalError, b))"

section \<open>What is watched: evmap\<close>

text \<open>
  The arrays of per-descriptor and per-signal entries grow by doubling. \<open>None\<close> is an
  overflow of the \<^verbatim>\<open>int\<close> that counts them.
\<close>

function grow :: "nat \<Rightarrow> nat \<Rightarrow> nat option" where
  "grow nentries slot =
     (if nentries \<le> slot then
        (if nentries = 0 \<or> 2 ^ 30 \<le> nentries then None else grow (nentries * 2) slot)
      else Some nentries)"
  by pat_completeness auto
termination by (relation "measure (\<lambda>(nentries, slot). Suc slot - nentries)") auto

declare grow.simps [simp del]

definition evmap_make_space :: "ev_env \<Rightarrow> nat \<Rightarrow> 'a option list \<Rightarrow> (int \<times> 'a option list) option" where
  "evmap_make_space env slot entries =
     (if length entries \<le> slot then
        map_option (\<lambda>nentries.
          if mem_ok env (nentries * 8)
          then (0, entries @ replicate (nentries - length entries) None)
          else (- 1, entries))
          (grow (if entries \<noteq> [] then length entries else 32) slot)
      else Some (0, entries))"

definition evmap_io_init :: evmap_io where
  "evmap_io_init = \<lparr>io_events = [], nread = 0, nwrite = 0\<rparr>"

text \<open>The slot of an entry, made on first use: \<^verbatim>\<open>GET_IO_SLOT_AND_CTOR\<close> and its signal twin.\<close>

definition get_slot_and_ctor :: "ev_env \<Rightarrow> nat \<Rightarrow> 'a \<Rightarrow> 'a option list \<Rightarrow> ('a option \<times> 'a option list)" where
  "get_slot_and_ctor env slot fresh entries =
     (case entries ! slot of
        Some c \<Rightarrow> (Some c, entries)
      | None \<Rightarrow> if mem_ok env 64 then (Some fresh, entries[slot := Some fresh]) else (None, entries))"

definition bits_if :: "bool \<Rightarrow> u16 \<Rightarrow> u16" where
  "bits_if c m = (if c then m else 0)"

definition evmap_io_add :: "ev_env \<Rightarrow> int \<Rightarrow> event \<Rightarrow> int ev_op" where
  "evmap_io_add env fd ev = (\<lambda>b.
     if fd \<noteq> ev_fd b ev then (Inl AssertFailed, b)
     else if fd < 0 then (Inr 0, b)
     else case evmap_make_space env (nat fd) (io b) of
       None \<Rightarrow> (Inl BadAccess, b)
     | Some (r, entries) \<Rightarrow>
       if r = - 1 then (Inr (- 1), b)
       else case get_slot_and_ctor env (nat fd) evmap_io_init entries of
         (None, entries) \<Rightarrow> (Inr (- 1), b\<lparr>io := entries\<rparr>)
       | (Some ctx, entries) \<Rightarrow>
         let b = b\<lparr>io := entries\<rparr>;
             old = bits_if (nread ctx \<noteq> 0) EV_READ OR bits_if (nwrite ctx \<noteq> 0) EV_WRITE;
             rd = test (ev_events b ev) EV_READ; wr = test (ev_events b ev) EV_WRITE;
             nr = unat (nread ctx) + (if rd then 1 else 0);
             nw = unat (nwrite ctx) + (if wr then 1 else 0);
             res = bits_if (rd \<and> nr = 1) EV_READ OR bits_if (wr \<and> nw = 1) EV_WRITE;
             ask = (ev_events b ev AND EV_ET) OR res
         in if nr > 0xffff \<or> nw > 0xffff then (Inr (- 1), b)
            else if res \<noteq> 0 \<and> be_add env fd old ask = - 1
            then (Inr (- 1), b)
            else case TAILQ_INSERT_TAIL ev (io_events ctx) of
              None \<Rightarrow> (Inl BadAccess, b)
            | Some q \<Rightarrow>
                (Inr (if res \<noteq> 0 then 1 else 0),
                 b\<lparr>io := (io b)[nat fd := Some \<lparr>io_events = q, nread = of_nat nr, nwrite = of_nat nw\<rparr>],
                   backend_log := (if res \<noteq> 0 then [(True, fd, ask)] else []) @ backend_log b\<rparr>))"

definition evmap_io_del :: "ev_env \<Rightarrow> int \<Rightarrow> event \<Rightarrow> int ev_op" where
  "evmap_io_del env fd ev = (\<lambda>b.
     if fd < 0 then (Inr 0, b)
     else if fd \<noteq> ev_fd b ev then (Inl AssertFailed, b)
     else if length (io b) \<le> nat fd then (Inr (- 1), b)
     else case io b ! nat fd of
       None \<Rightarrow> (Inl BadAccess, b)
     | Some ctx \<Rightarrow>
         let old = bits_if (nread ctx \<noteq> 0) EV_READ OR bits_if (nwrite ctx \<noteq> 0) EV_WRITE;
             rd = test (ev_events b ev) EV_READ; wr = test (ev_events b ev) EV_WRITE;
             nr = int (unat (nread ctx)) - (if rd then 1 else 0);
             nw = int (unat (nwrite ctx)) - (if wr then 1 else 0);
             res = bits_if (rd \<and> nr = 0) EV_READ OR bits_if (wr \<and> nw = 0) EV_WRITE
         in if nr < 0 \<or> nw < 0 then (Inl AssertFailed, b)
            else if res \<noteq> 0 \<and> be_del env fd old res = - 1
            then (Inr (- 1), b)
            else case TAILQ_REMOVE ev (io_events ctx) of
              None \<Rightarrow> (Inl BadAccess, b)
            | Some q \<Rightarrow>
                (Inr (if res \<noteq> 0 then 1 else 0),
                 b\<lparr>io := (io b)[nat fd := Some \<lparr>io_events = q, nread = of_int nr, nwrite = of_int nw\<rparr>],
                   backend_log := (if res \<noteq> 0 then [(False, fd, res)] else []) @ backend_log b\<rparr>))"

definition evmap_signal_add :: "ev_env \<Rightarrow> int \<Rightarrow> event \<Rightarrow> int ev_op" where
  "evmap_signal_add env sig ev = (\<lambda>b.
     if sig < 0 then (Inl BadAccess, b)
     else case evmap_make_space env (nat sig) (sigmap b) of
       None \<Rightarrow> (Inl BadAccess, b)
     | Some (r, entries) \<Rightarrow>
       if r = - 1 then (Inr (- 1), b)
       else case get_slot_and_ctor env (nat sig) [] entries of
         (None, entries) \<Rightarrow> (Inr (- 1), b\<lparr>sigmap := entries\<rparr>)
       | (Some evs, entries) \<Rightarrow>
         let b = b\<lparr>sigmap := entries\<rparr> in
         if evs = [] \<and> be_add env (ev_fd b ev) 0 EV_SIGNAL = - 1 then (Inr (- 1), b)
         else case TAILQ_INSERT_TAIL ev evs of
           None \<Rightarrow> (Inl BadAccess, b)
         | Some q \<Rightarrow> (Inr 1, b\<lparr>sigmap := (sigmap b)[nat sig := Some q]\<rparr>))"

definition evmap_signal_del :: "ev_env \<Rightarrow> int \<Rightarrow> event \<Rightarrow> int ev_op" where
  "evmap_signal_del env sig ev = (\<lambda>b.
     if sig < 0 then (Inl BadAccess, b)
     else if length (sigmap b) \<le> nat sig then (Inr (- 1), b)
     else case sigmap b ! nat sig of
       None \<Rightarrow> (Inl BadAccess, b)
     | Some evs \<Rightarrow>
         if (evs = [] \<or> hd evs = last evs) \<and> be_del env (ev_fd b ev) 0 EV_SIGNAL = - 1
         then (Inr (- 1), b)
         else case TAILQ_REMOVE ev evs of
           None \<Rightarrow> (Inl BadAccess, b)
         | Some q \<Rightarrow> (Inr 1, b\<lparr>sigmap := (sigmap b)[nat sig := Some q]\<rparr>))"

section \<open>Adding, deleting and activating events\<close>

definition whenM :: "bool \<Rightarrow> unit ev_op \<Rightarrow> unit ev_op" where
  "whenM c m = (if c then m else returnM ())"

text \<open>Stops the loop that is just calling a signal event's callback.\<close>

definition abort_signal_loop :: "event \<Rightarrow> unit ev_op" where
  "abort_signal_loop ev = (\<lambda>b.
     (Inr (), if test (ev_events b ev) EV_SIGNAL \<and> ev_ncalls b ev \<noteq> 0
              then case ev_pncalls b ev of
                     None \<Rightarrow> b
                   | Some c \<Rightarrow> b\<lparr>cells := (cells b)(c := 0)\<rparr>
              else b))"

definition changed :: "int \<Rightarrow> int" where
  "changed res = (if res = 1 then 0 else res)"

text \<open>The first half of \<^verbatim>\<open>event_add_internal\<close>: the descriptor or signal.\<close>

definition add_watch :: "ev_env \<Rightarrow> event \<Rightarrow> int ev_op" where
  "add_watch env ev = (\<lambda>b.
     if test (ev_events b ev) (EV_READ OR EV_WRITE OR EV_SIGNAL) \<and>
        \<not> test (ev_flags b ev) (EVLIST_INSERTED OR EVLIST_ACTIVE)
     then
       bindM (if test (ev_events b ev) (EV_READ OR EV_WRITE) then evmap_io_add env (ev_fd b ev) ev
              else if test (ev_events b ev) EV_SIGNAL then evmap_signal_add env (ev_fd b ev) ev
              else returnM 0)
         (\<lambda>res. seqM (whenM (res \<noteq> - 1) (event_queue_insert env ev EVLIST_INSERTED))
            (returnM (changed res))) b
     else (Inr 0, b))"

text \<open>The second half: the deadline.\<close>

definition set_deadline :: "ev_env \<Rightarrow> event \<Rightarrow> timeval \<Rightarrow> bool \<Rightarrow> unit ev_op" where
  "set_deadline env ev tv is_absolute = (\<lambda>b.
     if is_common_timeout tv b then (Inl CommonTimeout, b)
     else if is_absolute then
       (Inr (), b\<lparr>timeheap := (timeheap b)\<lparr>ev_timeout := (ev_timeout (timeheap b))(ev := tv)\<rparr>\<rparr>)
     else case gettime env b of
       None \<Rightarrow> (Inl Uninitialised, b)
     | Some now \<Rightarrow>
         (Inr (), b\<lparr>timeheap := (timeheap b)
            \<lparr>ev_timeout := (ev_timeout (timeheap b))(ev := evutil_timeradd now tv)\<rparr>\<rparr>))"

definition remember_interval :: "event \<Rightarrow> timeval \<Rightarrow> bool \<Rightarrow> unit ev_op" where
  "remember_interval ev tv is_absolute = modM (\<lambda>b.
     if ev_closure b ev = EV_CLOSURE_PERSIST \<and> \<not> is_absolute
     then b\<lparr>ev_io_timeout := (ev_io_timeout b)(ev := tv)\<rparr> else b)"

definition remove_if :: "event \<Rightarrow> u16 \<Rightarrow> unit ev_op" where
  "remove_if ev queue = (\<lambda>b.
     if test (ev_flags b ev) queue then event_queue_remove ev queue b else (Inr (), b))"

definition add_timeout :: "ev_env \<Rightarrow> event \<Rightarrow> timeval \<Rightarrow> bool \<Rightarrow> unit ev_op" where
  "add_timeout env ev tv is_absolute =
     seqM (remember_interval ev tv is_absolute)
    (seqM (remove_if ev EVLIST_TIMEOUT)
    (seqM (\<lambda>b. if test (ev_flags b ev) EVLIST_ACTIVE \<and> test (ev_res b ev) EV_TIMEOUT
               then seqM (abort_signal_loop ev) (event_queue_remove ev EVLIST_ACTIVE) b
               else (Inr (), b))
    (seqM (set_deadline env ev tv is_absolute)
          (event_queue_insert env ev EVLIST_TIMEOUT))))"

definition reserve_timer :: "ev_env \<Rightarrow> event \<Rightarrow> timeval option \<Rightarrow> int ev_op" where
  "reserve_timer env ev tv = (\<lambda>b.
     if tv \<noteq> None \<and> \<not> test (ev_flags b ev) EVLIST_TIMEOUT then
       (case min_heap_reserve (env_realloc env) (1 + min_heap_size (timeheap b)) (timeheap b) of
          (r, h) \<Rightarrow> (Inr r, b\<lparr>timeheap := h\<rparr>))
     else (Inr 0, b))"

definition event_add_internal :: "ev_env \<Rightarrow> event \<Rightarrow> timeval option \<Rightarrow> bool \<Rightarrow> int ev_op" where
  "event_add_internal env ev tv is_absolute = (\<lambda>b.
     if test (ev_flags b ev) (NOT EVLIST_ALL) then (Inl AssertFailed, b)
     else bindM (reserve_timer env ev tv) (\<lambda>r.
       if r = - 1 then returnM (- 1)
       else bindM (add_watch env ev) (\<lambda>res.
         case tv of
           Some t \<Rightarrow> if res \<noteq> - 1 then seqM (add_timeout env ev t is_absolute) (returnM res) else returnM res
         | None \<Rightarrow> returnM res)) b)"

definition event_del_internal :: "ev_env \<Rightarrow> event \<Rightarrow> int ev_op" where
  "event_del_internal env ev = (\<lambda>b.
     if \<not> ev_has_base b ev then (Inr (- 1), b)
     else if test (ev_flags b ev) (NOT EVLIST_ALL) then (Inl AssertFailed, b)
     else seqM (abort_signal_loop ev)
         (seqM (remove_if ev EVLIST_TIMEOUT)
         (seqM (remove_if ev EVLIST_ACTIVE)
         (\<lambda>b. if test (ev_flags b ev) EVLIST_INSERTED
              then seqM (event_queue_remove ev EVLIST_INSERTED)
                     (bindM (if test (ev_events b ev) (EV_READ OR EV_WRITE)
                             then evmap_io_del env (ev_fd b ev) ev
                             else evmap_signal_del env (ev_fd b ev) ev)
                        (\<lambda>res. returnM (changed res))) b
              else (Inr 0, b)))) b)"

definition event_active_nolock :: "ev_env \<Rightarrow> event \<Rightarrow> u16 \<Rightarrow> u16 \<Rightarrow> unit ev_op" where
  "event_active_nolock env ev res ncalls = (\<lambda>b.
     if test (ev_flags b ev) EVLIST_ACTIVE
     then (Inr (), b\<lparr>ev_res := (ev_res b)(ev := ev_res b ev OR res)\<rparr>)
     else
       let b = b\<lparr>ev_res := (ev_res b)(ev := res)\<rparr>;
           b = (if int (ev_pri b ev) < event_running_priority b then b\<lparr>event_continue := True\<rparr> else b);
           b = (if test (ev_events b ev) EV_SIGNAL
                then b\<lparr>ev_ncalls := (ev_ncalls b)(ev := ncalls),
                       ev_pncalls := (ev_pncalls b)(ev := None)\<rparr> else b)
       in event_queue_insert env ev EVLIST_ACTIVE b)"

section \<open>Serving deadlines\<close>

text \<open>How long the backend may sleep: \<open>Inr None\<close> is without limit, \<open>Inl\<close> a failed clock.\<close>

definition timeout_next :: "ev_env \<Rightarrow> event_base \<Rightarrow> (int \<times> timeval option) option" where
  "timeout_next env b =
     map_option (\<lambda>top.
       case top of
         None \<Rightarrow> (0, None)
       | Some ev \<Rightarrow>
         (case gettime env b of
            None \<Rightarrow> (- 1, None)
          | Some now \<Rightarrow>
              if evutil_timercmp (ev_timeout (timeheap b) ev) now (\<le>) then (0, Some (Timeval 0 0))
              else (0, Some (evutil_timersub (ev_timeout (timeheap b) ev) now))))
       (min_heap_top (timeheap b))"

partial_function (option) timeout_loop ::
  "ev_env \<Rightarrow> timeval \<Rightarrow> event_base \<Rightarrow> ((ev_fault + unit) \<times> event_base) option" where
  "timeout_loop env now b =
     (case min_heap_top (timeheap b) of
        None \<Rightarrow> Some (Inl BadAccess, b)
      | Some None \<Rightarrow> Some (Inr (), b)
      | Some (Some ev) \<Rightarrow>
          if evutil_timercmp (ev_timeout (timeheap b) ev) now (>) then Some (Inr (), b)
          else case bindM (event_del_internal env ev)
                      (\<lambda>_. event_active_nolock env ev EV_TIMEOUT 1) b of
            (Inl f, b') \<Rightarrow> Some (Inl f, b')
          | (Inr _, b') \<Rightarrow> timeout_loop env now b')"

definition timeout_process :: "ev_env \<Rightarrow> event_base \<Rightarrow> ((ev_fault + unit) \<times> event_base) option" where
  "timeout_process env b =
     (if min_heap_empty (timeheap b) then Some (Inr (), b)
      else case gettime env b of
        None \<Rightarrow> Some (Inl Uninitialised, b)
      | Some now \<Rightarrow> timeout_loop env now b)"

text \<open>What the backend reports for a descriptor wakes the events that asked for it.\<close>

definition evmap_io_active :: "ev_env \<Rightarrow> int \<Rightarrow> u16 \<Rightarrow> unit ev_op" where
  "evmap_io_active env fd events = (\<lambda>b.
     if fd < 0 \<or> int (length (io b)) \<le> fd then (Inl AssertFailed, b)
     else case io b ! nat fd of
       None \<Rightarrow> (Inl AssertFailed, b)
     | Some ctx \<Rightarrow>
         foldr (\<lambda>ev k. seqM (\<lambda>b. if test (ev_events b ev) events
                  then event_active_nolock env ev (ev_events b ev AND events) 1 b
                  else (Inr (), b)) k) (io_events ctx) (returnM ()) b)"

section \<open>New events and new bases\<close>

text \<open>\<^verbatim>\<open>event_assign\<close> with the base given; the callback and its argument are not part of the state.\<close>

definition event_assign :: "event \<Rightarrow> int \<Rightarrow> u16 \<Rightarrow> int ev_op" where
  "event_assign ev fd events = (\<lambda>b0.
     let b = b0\<lparr>ev_has_base := (ev_has_base b0)(ev := True), ev_fd := (ev_fd b0)(ev := fd),
                ev_events := (ev_events b0)(ev := events), ev_res := (ev_res b0)(ev := 0),
                ev_flags := (ev_flags b0)(ev := EVLIST_INIT), ev_ncalls := (ev_ncalls b0)(ev := 0),
                ev_pncalls := (ev_pncalls b0)(ev := None)\<rparr>
     in if test events EV_SIGNAL \<and> test events (EV_READ OR EV_WRITE) then (Inr (- 1), b)
        else
          let b = (if test events EV_SIGNAL
                   then b\<lparr>ev_closure := (ev_closure b)(ev := EV_CLOSURE_SIGNAL)\<rparr>
                   else if test events EV_PERSIST
                   then b\<lparr>ev_io_timeout := (ev_io_timeout b)(ev := Timeval 0 0),
                          ev_closure := (ev_closure b)(ev := EV_CLOSURE_PERSIST)\<rparr>
                   else b\<lparr>ev_closure := (ev_closure b)(ev := EV_CLOSURE_NONE)\<rparr>)
          in (Inr 0, b\<lparr>timeheap := min_heap_elem_init ev (timeheap b),
                       ev_pri := (ev_pri b)(ev := length (activequeues b) div 2)\<rparr>))"

text \<open>Priorities: of one event, and how many the base has.\<close>

definition event_priority_set :: "event \<Rightarrow> int \<Rightarrow> int ev_op" where
  "event_priority_set ev pri = (\<lambda>b.
     if test (ev_flags b ev) EVLIST_ACTIVE then (Inr (- 1), b)
     else if \<not> ev_has_base b ev then (Inl BadAccess, b)
     else if pri < 0 \<or> pri \<ge> int (length (activequeues b)) then (Inr (- 1), b)
     else (Inr 0, b\<lparr>ev_pri := (ev_pri b)(ev := nat pri)\<rparr>))"

definition EVENT_MAX_PRIORITIES :: int where "EVENT_MAX_PRIORITIES = 256"

text \<open>Refused while anything is active: \<open>n_deferred\<close> is the number of deferred calls that wait.\<close>

definition event_base_priority_init :: "ev_env \<Rightarrow> nat \<Rightarrow> int \<Rightarrow> int ev_op" where
  "event_base_priority_init env n_deferred npriorities = (\<lambda>b.
     if event_count_active b + int n_deferred \<noteq> 0 \<or> npriorities < 1 \<or> npriorities \<ge> EVENT_MAX_PRIORITIES then (Inr (- 1), b)
     else if npriorities = int (length (activequeues b)) then (Inr 0, b)
     else if \<not> mem_ok env (nat npriorities * 16) then (Inr (- 1), b\<lparr>activequeues := []\<rparr>)
     else (Inr 0, b\<lparr>activequeues := replicate (nat npriorities) []\<rparr>))"

text \<open>A base as \<^verbatim>\<open>event_base_new\<close> leaves it: one priority, nothing added.\<close>

definition new_base :: event_base where
  "new_base =
     \<lparr>timeheap = \<lparr>mh_p = [], mh_n = 0, mh_a = 0, ev_timeout = (\<lambda>_. Timeval 0 0), min_heap_idx = (\<lambda>_. - 1)\<rparr>,
      eventqueue = [], activequeues = [[]], event_count = 0, virtual_event_count = 0, event_count_active = 0,
      event_running_priority = - 1, event_continue = False, n_common_timeouts = 0,
      tv_cache = Timeval 0 0, event_tv = Timeval 0 0, io = [], sigmap = [],
      ev_fd = (\<lambda>_. 0), ev_has_base = (\<lambda>_. False), ev_events = (\<lambda>_. 0), ev_res = (\<lambda>_. 0),
      ev_flags = (\<lambda>_. 0), ev_pri = (\<lambda>_. 0), ev_closure = (\<lambda>_. EV_CLOSURE_NONE),
      ev_ncalls = (\<lambda>_. 0), ev_pncalls = (\<lambda>_. None), ev_io_timeout = (\<lambda>_. Timeval 0 0),
      cells = (\<lambda>_. 0), backend_log = []\<rparr>"

section \<open>Flags as bits\<close>

named_theorems flag_simps \<open>flag tests as single bits\<close>

lemma test_bit: "test w (2 ^ k) \<longleftrightarrow> bit w k"
  by (simp add: test_def and_exp_eq_0_iff_not_bit)

lemma test_flags [flag_simps]:
  "test w EVLIST_TIMEOUT \<longleftrightarrow> bit w 0" "test w EVLIST_INSERTED \<longleftrightarrow> bit w 1"
  "test w EVLIST_ACTIVE \<longleftrightarrow> bit w 3" "test w EVLIST_INTERNAL \<longleftrightarrow> bit w 4"
  "test w EV_TIMEOUT \<longleftrightarrow> bit w 0" "test w EV_READ \<longleftrightarrow> bit w 1"
  "test w EV_WRITE \<longleftrightarrow> bit w 2" "test w EV_SIGNAL \<longleftrightarrow> bit w 3"
  using test_bit [of w 0] test_bit [of w 1] test_bit [of w 2] test_bit [of w 3] test_bit [of w 4]
  by (simp_all add: EVLIST_TIMEOUT_def EVLIST_INSERTED_def EVLIST_ACTIVE_def EVLIST_INTERNAL_def
      EV_TIMEOUT_def EV_READ_def EV_WRITE_def EV_SIGNAL_def)

lemma test_or [flag_simps]: "test w (x OR y) \<longleftrightarrow> test w x \<or> test w y"
  by (simp add: test_def bit.conj_disj_distrib or_eq_0_iff)

lemma bit_queue [flag_simps]:
  "bit EVLIST_TIMEOUT k \<longleftrightarrow> k = 0" "bit EVLIST_INSERTED k \<longleftrightarrow> k = 1" "bit EVLIST_ACTIVE k \<longleftrightarrow> k = 3"
proof -
  have e: "EVLIST_TIMEOUT = 2 ^ 0" "EVLIST_INSERTED = 2 ^ 1" "EVLIST_ACTIVE = 2 ^ 3"
    by (simp_all add: EVLIST_TIMEOUT_def EVLIST_INSERTED_def EVLIST_ACTIVE_def)
  show "bit EVLIST_TIMEOUT k \<longleftrightarrow> k = 0" by (simp add: EVLIST_TIMEOUT_def bit_1_iff)
  show "bit EVLIST_INSERTED k \<longleftrightarrow> k = 1" unfolding e(2) bit_exp_iff by auto
  show "bit EVLIST_ACTIVE k \<longleftrightarrow> k = 3" unfolding e(3) bit_exp_iff by auto
qed

lemma queue_distinct [flag_simps]:
  "EVLIST_ACTIVE \<noteq> EVLIST_INSERTED" "EVLIST_TIMEOUT \<noteq> EVLIST_INSERTED" "EVLIST_TIMEOUT \<noteq> EVLIST_ACTIVE"
  by (simp_all add: EVLIST_ACTIVE_def EVLIST_INSERTED_def EVLIST_TIMEOUT_def)

lemma bit_set_clear [flag_simps]:
  "k < 16 \<Longrightarrow> bit (w AND NOT q :: u16) k \<longleftrightarrow> bit w k \<and> \<not> bit q k"
  "bit (w OR q :: u16) k \<longleftrightarrow> bit w k \<or> bit q k"
  by (auto simp: bit_and_iff bit_not_iff bit_or_iff dest: bit_imp_possible_bit)

text \<open>No flag but the known ones.\<close>

definition flags_known :: "u16 \<Rightarrow> bool" where
  "flags_known w \<longleftrightarrow> \<not> test w (NOT EVLIST_ALL)"

lemma flags_known_iff: "flags_known w \<longleftrightarrow> (\<forall>k<16. bit w k \<longrightarrow> bit EVLIST_ALL k)"
proof -
  have "flags_known w \<longleftrightarrow> w AND NOT EVLIST_ALL = 0" by (simp add: flags_known_def test_def)
  also have "\<dots> \<longleftrightarrow> (\<forall>k<16. \<not> bit (w AND NOT EVLIST_ALL) k)"
    by (auto simp: bit_eq_iff dest: bit_imp_le_length)
  finally show ?thesis by (auto simp: flag_simps)
qed

lemma all_queues_known: "bit EVLIST_ALL 0" "bit EVLIST_ALL (Suc 0)" "bit EVLIST_ALL 3"
  by (simp_all add: EVLIST_ALL_def bit_numeral_rec)

lemma flags_known_clear: "flags_known w \<Longrightarrow> flags_known (w AND NOT q)"
  by (simp add: flags_known_iff flag_simps)

lemma flags_known_set:
  "flags_known w \<Longrightarrow> q \<in> {EVLIST_TIMEOUT, EVLIST_INSERTED, EVLIST_ACTIVE} \<Longrightarrow> flags_known (w OR q)"
  by (auto simp: flags_known_iff flag_simps all_queues_known)

section \<open>The invariant of a base\<close>

text \<open>
  Each flag of an event says exactly whether it is on the corresponding queue; the counters
  count the queues (internal events apart); events that have a base have a valid priority
  and no flags but the known ones.
\<close>

definition ext :: "event_base \<Rightarrow> event \<Rightarrow> bool" where
  "ext b e \<longleftrightarrow> \<not> bit (ev_flags b e) 4"

definition cnt :: "(event \<Rightarrow> bool) \<Rightarrow> event list \<Rightarrow> int" where
  "cnt f xs = int (size (filter_mset f (mset xs)))"

definition timers :: "event_base \<Rightarrow> event list" where
  "timers b = elems (timeheap b)"

definition flags_ok :: "event_base \<Rightarrow> bool" where
  "flags_ok b \<longleftrightarrow>
     (\<forall>e. bit (ev_flags b e) 0 \<longleftrightarrow> e \<in> set (timers b)) \<and>
     (\<forall>e. bit (ev_flags b e) 1 \<longleftrightarrow> e \<in> set (eventqueue b)) \<and>
     (\<forall>i<length (activequeues b). \<forall>e.
        e \<in> set (activequeues b ! i) \<longleftrightarrow> bit (ev_flags b e) 3 \<and> ev_pri b e = i)"

definition events_ok :: "event_base \<Rightarrow> bool" where
  "events_ok b \<longleftrightarrow>
     (\<forall>e. bit (ev_flags b e) 0 \<or> bit (ev_flags b e) 1 \<or> bit (ev_flags b e) 3 \<longrightarrow> ev_has_base b e) \<and>
     (\<forall>e. ev_has_base b e \<longrightarrow> ev_pri b e < length (activequeues b) \<and> flags_known (ev_flags b e))"

definition counts_ok :: "event_base \<Rightarrow> bool" where
  "counts_ok b \<longleftrightarrow>
     event_count b = cnt (ext b) (timers b) + cnt (ext b) (eventqueue b) +
       sum_list (map (cnt (ext b)) (activequeues b)) \<and>
     event_count_active b = sum_list (map (int \<circ> length) (activequeues b))"

definition queues_ok :: "event_base \<Rightarrow> bool" where
  "queues_ok b \<longleftrightarrow> heap_ok (timeheap b) \<and> n_common_timeouts b = 0 \<and> distinct (eventqueue b) \<and>
     list_all distinct (activequeues b) \<and> flags_ok b \<and> events_ok b \<and> counts_ok b"

lemma cnt_simps [simp]:
  "cnt f [] = 0" "cnt f (x # xs) = (if f x then 1 else 0) + cnt f xs" "cnt f (xs @ ys) = cnt f xs + cnt f ys"
  by (simp_all add: cnt_def)

lemma cnt_remove1: "x \<in> set xs \<Longrightarrow> cnt f (remove1 x xs) = cnt f xs - (if f x then 1 else 0)"
  by (induction xs) auto

lemma cnt_mset: "mset xs = mset ys \<Longrightarrow> cnt f xs = cnt f ys"
  by (simp add: cnt_def)

lemma sum_list_set:
  "i < length xs \<Longrightarrow> sum_list (map g (xs[i := y])) = sum_list (map g xs) + (g y - g (xs ! i) :: int)"
  by (induction xs arbitrary: i) (auto split: nat.splits)

lemma no_common: "n_common_timeouts b = 0 \<Longrightarrow> \<not> is_common_timeout tv b"
proof -
  have "0 \<le> drop_bit 20 (tv_usec tv AND 0x0ff00000)" by simp
  then show "n_common_timeouts b = 0 \<Longrightarrow> \<not> is_common_timeout tv b"
    by (simp add: is_common_timeout_def not_less)
qed

lemma test_not_internal: "test (NOT w) EVLIST_INTERNAL \<longleftrightarrow> \<not> bit (w :: u16) 4"
  by (simp add: flag_simps bit_not_iff)

lemma count_external_ext:
  "count_external ev d b = (if ext b ev then b\<lparr>event_count := event_count b + d\<rparr> else b)"
  by (simp add: count_external_def test_not_internal ext_def)

text \<open>The state after one queue operation, on the fields it touches.\<close>

definition relinked :: "event \<Rightarrow> u16 \<Rightarrow> int \<Rightarrow> event_base \<Rightarrow> event_base" where
  "relinked ev w d b = b\<lparr>ev_flags := (ev_flags b)(ev := w),
     event_count := event_count b + (if ext b ev then d else 0)\<rparr>"

lemma count_external_flags:
  "(count_external ev d b)\<lparr>ev_flags := (ev_flags (count_external ev d b))(ev := w)\<rparr> = relinked ev w d b"
  by (simp add: count_external_ext relinked_def)

lemma flags_count_external [simp]: "ev_flags (count_external ev d b) = ev_flags b"
  by (simp add: count_external_ext)

lemma remove_inserted:
  assumes "queues_ok b" and "bit (ev_flags b ev) 1"
  shows "event_queue_remove ev EVLIST_INSERTED b =
    (Inr (), (relinked ev (ev_flags b ev AND NOT EVLIST_INSERTED) (- 1) b)
       \<lparr>eventqueue := remove1 ev (eventqueue b)\<rparr>)"
proof -
  have "ev \<in> set (eventqueue b)" using assms by (simp add: queues_ok_def flags_ok_def)
  then show ?thesis using assms(2)
    by (simp add: event_queue_remove_def Let_def flag_simps TAILQ_REMOVE_def count_external_ext relinked_def)
qed

lemma remove_active:
  assumes "queues_ok b" and "bit (ev_flags b ev) 3"
  shows "event_queue_remove ev EVLIST_ACTIVE b =
    (Inr (), (relinked ev (ev_flags b ev AND NOT EVLIST_ACTIVE) (- 1) b)
       \<lparr>event_count_active := event_count_active b - 1,
        activequeues := (activequeues b)[ev_pri b ev := remove1 ev (activequeues b ! ev_pri b ev)]\<rparr>)"
proof -
  have "ev_pri b ev < length (activequeues b)" using assms by (auto simp: queues_ok_def events_ok_def)
  moreover from this have "ev \<in> set (activequeues b ! ev_pri b ev)"
    using assms by (simp add: queues_ok_def flags_ok_def)
  ultimately show ?thesis using assms(2)
    by (simp add: event_queue_remove_def Let_def flag_simps TAILQ_REMOVE_def active_list_def
        count_external_ext relinked_def)
qed

lemma remove_timeout:
  assumes "queues_ok b" and "bit (ev_flags b ev) 0"
  shows "event_queue_remove ev EVLIST_TIMEOUT b =
    (Inr (), (relinked ev (ev_flags b ev AND NOT EVLIST_TIMEOUT) (- 1) b)
       \<lparr>timeheap := heap_out ev (timeheap b)\<rparr>)"
proof -
  have "ev \<in> set (elems (timeheap b))" "heap_ok (timeheap b)" "n_common_timeouts b = 0"
    using assms by (auto simp: queues_ok_def flags_ok_def timers_def)
  then have "min_heap_erase ev (timeheap b) = Some (0, heap_out ev (timeheap b))"
    by (intro heap_out_spec)
  then show ?thesis using assms(2) \<open>n_common_timeouts b = 0\<close>
    by (simp add: event_queue_remove_def Let_def flag_simps no_common count_external_ext relinked_def)
qed

text \<open>What does not depend on the flags of one event is not changed by relinking it.\<close>

lemma relinked_fields [simp]:
  "timeheap (relinked ev w d b) = timeheap b" "eventqueue (relinked ev w d b) = eventqueue b"
  "activequeues (relinked ev w d b) = activequeues b" "ev_pri (relinked ev w d b) = ev_pri b"
  "ev_has_base (relinked ev w d b) = ev_has_base b" "n_common_timeouts (relinked ev w d b) = n_common_timeouts b"
  "event_count_active (relinked ev w d b) = event_count_active b" "io (relinked ev w d b) = io b"
  "ev_fd (relinked ev w d b) = ev_fd b" "ev_events (relinked ev w d b) = ev_events b"
  "backend_log (relinked ev w d b) = backend_log b" "tv_cache (relinked ev w d b) = tv_cache b"
  "ev_flags (relinked ev w d b) = (ev_flags b)(ev := w)" "ev_res (relinked ev w d b) = ev_res b"
  "event_count (relinked ev w d b) = event_count b + (if ext b ev then d else 0)"
  by (simp_all add: relinked_def)

lemma ext_flags: "(\<And>e. bit (ev_flags b' e) 4 = bit (ev_flags b e) 4) \<Longrightarrow> ext b' = ext b"
  by (simp add: ext_def fun_eq_iff)

lemma ext_update [simp]:
  "ext (b\<lparr>eventqueue := q\<rparr>) = ext b" "ext (b\<lparr>timeheap := h\<rparr>) = ext b"
  "ext (b\<lparr>activequeues := aq\<rparr>) = ext b" "ext (b\<lparr>event_count_active := k\<rparr>) = ext b"
  by (simp_all add: ext_def fun_eq_iff)

lemma ext_relinked [simp]:
  "q \<in> {EVLIST_TIMEOUT, EVLIST_INSERTED, EVLIST_ACTIVE} \<Longrightarrow>
     ext (relinked ev (ev_flags b ev AND NOT q) d b) = ext b"
  "q \<in> {EVLIST_TIMEOUT, EVLIST_INSERTED, EVLIST_ACTIVE} \<Longrightarrow>
     ext (relinked ev (ev_flags b ev OR q) d b) = ext b"
  by (auto simp: ext_def fun_eq_iff flag_simps)

lemma timers_update [simp]:
  "timers (b\<lparr>eventqueue := q\<rparr>) = timers b" "timers (b\<lparr>timeheap := h\<rparr>) = elems h"
  "timers (b\<lparr>activequeues := aq\<rparr>) = timers b" "timers (b\<lparr>event_count_active := k\<rparr>) = timers b"
  "timers (relinked ev w d b) = timers b"
  by (simp_all add: timers_def)

lemma remove_inserted_ok:
  assumes ok: "queues_ok b" and on: "bit (ev_flags b ev) 1"
  shows "queues_ok ((relinked ev (ev_flags b ev AND NOT EVLIST_INSERTED) (- 1) b)
       \<lparr>eventqueue := remove1 ev (eventqueue b)\<rparr>)" (is "queues_ok ?b")
proof -
  have mem: "ev \<in> set (eventqueue b)" and d: "distinct (eventqueue b)"
    using assms by (auto simp: queues_ok_def flags_ok_def)
  have "flags_ok ?b" using ok d by (auto simp: queues_ok_def flags_ok_def flag_simps)
  moreover have "events_ok ?b" using ok by (auto simp: queues_ok_def events_ok_def flag_simps flags_known_clear)
  moreover have "counts_ok ?b" using ok mem by (simp add: queues_ok_def counts_ok_def cnt_remove1)
  ultimately show ?thesis using ok d by (simp add: queues_ok_def distinct_remove1)
qed

lemma remove_active_ok:
  assumes ok: "queues_ok b" and on: "bit (ev_flags b ev) 3"
  shows "queues_ok ((relinked ev (ev_flags b ev AND NOT EVLIST_ACTIVE) (- 1) b)
       \<lparr>event_count_active := event_count_active b - 1,
        activequeues := (activequeues b)[ev_pri b ev := remove1 ev (activequeues b ! ev_pri b ev)]\<rparr>)"
    (is "queues_ok ?b")
proof -
  let ?i = "ev_pri b ev"
  have i: "?i < length (activequeues b)" using assms by (auto simp: queues_ok_def events_ok_def)
  have mem: "ev \<in> set (activequeues b ! ?i)" using assms i by (simp add: queues_ok_def flags_ok_def)
  have d: "distinct (activequeues b ! ?i)" using ok i by (auto simp: queues_ok_def list_all_length)
  have "flags_ok ?b"
    using ok d i by (auto simp: queues_ok_def flags_ok_def flag_simps nth_list_update)
  moreover have "events_ok ?b" using ok by (auto simp: queues_ok_def events_ok_def flag_simps flags_known_clear)
  moreover have "int (length (remove1 ev (activequeues b ! ?i))) = int (length (activequeues b ! ?i)) - 1"
    using length_pos_if_in_set [OF mem] mem by (simp only: length_remove1 if_True)
  then have "counts_ok ?b"
    using ok mem i by (simp add: queues_ok_def counts_ok_def cnt_remove1 sum_list_set)
  ultimately show ?thesis using ok d i
    by (simp add: queues_ok_def list_all_length nth_list_update distinct_remove1)
qed

lemma remove_timeout_ok:
  assumes ok: "queues_ok b" and on: "bit (ev_flags b ev) 0"
  shows "queues_ok ((relinked ev (ev_flags b ev AND NOT EVLIST_TIMEOUT) (- 1) b)
       \<lparr>timeheap := heap_out ev (timeheap b)\<rparr>)" (is "queues_ok ?b")
proof -
  have mem: "ev \<in> set (elems (timeheap b))" and h: "heap_ok (timeheap b)"
    using assms by (auto simp: queues_ok_def flags_ok_def timers_def)
  note out = heap_out_spec [OF h mem]
  have "mset (elems (heap_out ev (timeheap b))) = mset (remove1 ev (elems (timeheap b)))"
    using out(2) by (simp add: taken_out_def)
  from cnt_mset [OF this]
  have c: "cnt f (elems (heap_out ev (timeheap b))) = cnt f (timers b) - (if f ev then 1 else 0)" for f
    using mem by (simp add: cnt_remove1 timers_def)
  have "flags_ok ?b" using ok out(3) by (auto simp: queues_ok_def flags_ok_def flag_simps timers_def)
  moreover have "events_ok ?b" using ok by (auto simp: queues_ok_def events_ok_def flag_simps flags_known_clear)
  moreover have "counts_ok ?b" using ok by (simp add: queues_ok_def counts_ok_def c)
  ultimately show ?thesis using ok out(2) by (simp add: queues_ok_def taken_out_def)
qed

text \<open>Inserting. A timer needs room for one more in the heap.\<close>

definition timer_room :: "ev_env \<Rightarrow> event_base \<Rightarrow> bool" where
  "timer_room env b \<longleftrightarrow> unat (mh_n (timeheap b)) < length (mh_p (timeheap b)) \<and>
     unat (mh_n (timeheap b)) + 1 < 2 ^ 31"

lemma insert_inserted_ok:
  assumes ok: "queues_ok b" and off: "\<not> bit (ev_flags b ev) 1" and base: "ev_has_base b ev"
  defines "b' \<equiv> (relinked ev (ev_flags b ev OR EVLIST_INSERTED) 1 b)\<lparr>eventqueue := eventqueue b @ [ev]\<rparr>"
  shows "event_queue_insert env ev EVLIST_INSERTED b = (Inr (), b')" "queues_ok b'"
proof -
  have nm: "ev \<notin> set (eventqueue b)" using ok off by (simp add: queues_ok_def flags_ok_def)
  then show "event_queue_insert env ev EVLIST_INSERTED b = (Inr (), b')"
    using off by (simp add: event_queue_insert_def Let_def flag_simps TAILQ_INSERT_TAIL_def
        count_external_ext relinked_def b'_def)
  have "flags_ok b'" using ok by (auto simp: queues_ok_def flags_ok_def flag_simps b'_def)
  moreover have "events_ok b'"
    using ok base by (auto simp: queues_ok_def events_ok_def flag_simps flags_known_set b'_def)
  moreover have "counts_ok b'" using ok by (simp add: queues_ok_def counts_ok_def b'_def)
  ultimately show "queues_ok b'" using ok nm by (simp add: queues_ok_def b'_def)
qed

lemma insert_active_ok:
  assumes ok: "queues_ok b" and off: "\<not> bit (ev_flags b ev) 3" and base: "ev_has_base b ev"
  defines "b' \<equiv> (relinked ev (ev_flags b ev OR EVLIST_ACTIVE) 1 b)
       \<lparr>event_count_active := event_count_active b + 1,
        activequeues := (activequeues b)[ev_pri b ev := activequeues b ! ev_pri b ev @ [ev]]\<rparr>"
  shows "event_queue_insert env ev EVLIST_ACTIVE b = (Inr (), b')" "queues_ok b'"
proof -
  let ?i = "ev_pri b ev"
  have i: "?i < length (activequeues b)" using ok base by (auto simp: queues_ok_def events_ok_def)
  have nm: "ev \<notin> set (activequeues b ! ?i)" using ok off i by (simp add: queues_ok_def flags_ok_def)
  then show "event_queue_insert env ev EVLIST_ACTIVE b = (Inr (), b')"
    using off i by (simp add: event_queue_insert_def Let_def flag_simps TAILQ_INSERT_TAIL_def
        active_list_def count_external_ext relinked_def b'_def)
  have d: "distinct (activequeues b ! ?i)" using ok i by (auto simp: queues_ok_def list_all_length)
  have "flags_ok b'"
    using ok i by (auto simp: queues_ok_def flags_ok_def flag_simps nth_list_update b'_def)
  moreover have "events_ok b'"
    using ok base by (auto simp: queues_ok_def events_ok_def flag_simps flags_known_set b'_def)
  moreover have "counts_ok b'" using ok i by (simp add: queues_ok_def counts_ok_def sum_list_set b'_def)
  ultimately show "queues_ok b'"
    using ok nm d i by (simp add: queues_ok_def list_all_length nth_list_update b'_def)
qed

lemma push_reserved:
  assumes "heap_ok h" and "unat (mh_n h) < length (mh_p h)" "unat (mh_n h) + 1 < 2 ^ 31"
    and "e \<notin> set (elems h)"
  shows "\<exists>h'. min_heap_push f e h = Some (0, h') \<and> heap_ok h' \<and>
    mset (elems h') = add_mset e (mset (elems h)) \<and> ev_timeout h' = ev_timeout h"
proof -
  have n1: "unat (mh_n h + 1) = unat (mh_n h) + 1" using assms(3) by (simp add: unat_word_ariths)
  then have nr: "\<not> mh_a h < mh_n h + 1"
    using assms(1,2) by (simp add: word_less_nat_alt heap_ok_def)
  have r: "min_heap_reserve g (mh_n h + 1) h = (0, h)" for g using nr by (simp add: min_heap_reserve_def)
  define never :: reallocator where "never = (\<lambda>_ _. None)"
  have "realloc_keeps never" by (simp add: realloc_keeps_def never_def)
  from push_spec [OF assms(1) this assms(3,4)]
  obtain h' where "min_heap_push never e h = Some (0, h')" "heap_ok h'"
    "mset (elems h') = add_mset e (mset (elems h))" "ev_timeout h' = ev_timeout h"
    by (auto simp: min_heap_push_def r)
  moreover have "min_heap_push f e h = min_heap_push never e h" by (simp add: min_heap_push_def r)
  ultimately show ?thesis by auto
qed

lemma insert_timeout_ok:
  assumes ok: "queues_ok b" and off: "\<not> bit (ev_flags b ev) 0" and base: "ev_has_base b ev"
    and room: "timer_room env b"
  shows "\<exists>h. event_queue_insert env ev EVLIST_TIMEOUT b =
      (Inr (), (relinked ev (ev_flags b ev OR EVLIST_TIMEOUT) 1 b)\<lparr>timeheap := h\<rparr>) \<and>
    queues_ok ((relinked ev (ev_flags b ev OR EVLIST_TIMEOUT) 1 b)\<lparr>timeheap := h\<rparr>) \<and>
    ev_timeout h = ev_timeout (timeheap b) \<and> set (elems h) = insert ev (set (timers b))"
proof -
  have nm: "ev \<notin> set (elems (timeheap b))" and h: "heap_ok (timeheap b)" and nc: "n_common_timeouts b = 0"
    using ok off by (auto simp: queues_ok_def flags_ok_def timers_def)
  obtain h' where h': "min_heap_push (env_realloc env) ev (timeheap b) = Some (0, h')" "heap_ok h'"
    "mset (elems h') = add_mset ev (mset (elems (timeheap b)))" "ev_timeout h' = ev_timeout (timeheap b)"
    using push_reserved [OF h _ _ nm] room unfolding timer_room_def by blast
  let ?b = "(relinked ev (ev_flags b ev OR EVLIST_TIMEOUT) 1 b)\<lparr>timeheap := h'\<rparr>"
  have ms: "mset (elems h') = mset (ev # elems (timeheap b))" using h'(3) by simp
  have st: "set (elems h') = insert ev (set (elems (timeheap b)))" using mset_eq_setD [OF ms] by simp
  have "event_queue_insert env ev EVLIST_TIMEOUT b = (Inr (), ?b)"
    using off nc h'(1) by (simp add: event_queue_insert_def Let_def flag_simps no_common
        count_external_ext relinked_def)
  moreover have "flags_ok ?b" using ok st by (auto simp: queues_ok_def flags_ok_def flag_simps timers_def)
  moreover have "events_ok ?b"
    using ok base by (auto simp: queues_ok_def events_ok_def flag_simps flags_known_set)
  moreover have "counts_ok ?b" using ok cnt_mset [OF ms] by (simp add: queues_ok_def counts_ok_def timers_def)
  ultimately show ?thesis using ok h'(2,4) st
    by (intro exI [of _ h']) (simp add: queues_ok_def timers_def)
qed

text \<open>The queue operations leave everything else alone.\<close>

definition frame :: "event_base \<Rightarrow> event_base \<Rightarrow> bool" where
  "frame b b' \<longleftrightarrow> io b' = io b \<and> ev_fd b' = ev_fd b \<and> ev_events b' = ev_events b \<and>
     ev_has_base b' = ev_has_base b \<and> ev_pri b' = ev_pri b \<and> tv_cache b' = tv_cache b \<and>
     length (activequeues b') = length (activequeues b) \<and>
     backend_log b' = backend_log b \<and> sigmap b' = sigmap b"

lemma frame_refl [simp]: "frame b b" by (simp add: frame_def)

lemma frame_trans [trans]: "frame a b \<Longrightarrow> frame b c \<Longrightarrow> frame a c" by (simp add: frame_def)

text \<open>A guarded removal: afterwards the event is off that queue, and the others are as before.\<close>

definition others_same :: "event \<Rightarrow> nat \<Rightarrow> event_base \<Rightarrow> event_base \<Rightarrow> bool" where
  "others_same ev k b b' \<longleftrightarrow>
     (\<forall>e i. i < 16 \<longrightarrow> \<not> (e = ev \<and> i = k) \<longrightarrow> bit (ev_flags b' e) i = bit (ev_flags b e) i)"

lemma remove_if_timeout:
  assumes ok: "queues_ok b"
  shows "\<exists>b'. remove_if ev EVLIST_TIMEOUT b = (Inr (), b') \<and> queues_ok b' \<and> frame b b' \<and>
    \<not> bit (ev_flags b' ev) 0 \<and> others_same ev 0 b b' \<and> ev_timeout (timeheap b') = ev_timeout (timeheap b) \<and>
    set (timers b') = set (timers b) - {ev} \<and> eventqueue b' = eventqueue b \<and>
    activequeues b' = activequeues b \<and> (if bit (ev_flags b ev) 0 then timeheap b' = heap_out ev (timeheap b) else b' = b)"
proof (cases "bit (ev_flags b ev) 0")
  case True
  let ?b = "(relinked ev (ev_flags b ev AND NOT EVLIST_TIMEOUT) (- 1) b)\<lparr>timeheap := heap_out ev (timeheap b)\<rparr>"
  have mem: "ev \<in> set (elems (timeheap b))" and h: "heap_ok (timeheap b)"
    using ok True by (auto simp: queues_ok_def flags_ok_def timers_def)
  show ?thesis
    using True remove_timeout [OF ok True] remove_timeout_ok [OF ok True] heap_out_spec(2,3) [OF h mem]
    by (intro exI [of _ ?b])
      (auto simp: remove_if_def flag_simps frame_def others_same_def taken_out_def timers_def, simp add: relinked_def)
next
  case False
  then have "ev \<notin> set (timers b)" using ok by (simp add: queues_ok_def flags_ok_def)
  with False ok show ?thesis by (simp add: remove_if_def flag_simps others_same_def)
qed

text \<open>An event is on the active list of its own priority only.\<close>

lemma active_removed:
  assumes ok: "queues_ok b" and i: "i < length (activequeues b)"
  shows "(activequeues b)[ev_pri b ev := remove1 ev (activequeues b ! ev_pri b ev)] ! i =
    removeAll ev (activequeues b ! i)"
proof -
  have "distinct (activequeues b ! i)" using ok i by (auto simp: queues_ok_def list_all_length)
  moreover have "ev \<notin> set (activequeues b ! i)" if "i \<noteq> ev_pri b ev"
    using ok i that by (auto simp: queues_ok_def flags_ok_def)
  ultimately show ?thesis
    using i by (cases "i = ev_pri b ev") (simp_all add: distinct_remove1_removeAll removeAll_id)
qed

lemma remove_if_active:
  assumes ok: "queues_ok b"
  shows "\<exists>b'. remove_if ev EVLIST_ACTIVE b = (Inr (), b') \<and> queues_ok b' \<and> frame b b' \<and>
    \<not> bit (ev_flags b' ev) 3 \<and> others_same ev 3 b b' \<and> timeheap b' = timeheap b \<and>
    eventqueue b' = eventqueue b \<and>
    (\<forall>i<length (activequeues b). activequeues b' ! i = removeAll ev (activequeues b ! i))"
proof (cases "bit (ev_flags b ev) 3")
  case True
  show ?thesis
    using True remove_active [OF ok True] remove_active_ok [OF ok True] active_removed [OF ok, of _ ev]
    by (intro exI [of _ "(relinked ev (ev_flags b ev AND NOT EVLIST_ACTIVE) (- 1) b)
       \<lparr>event_count_active := event_count_active b - 1,
        activequeues := (activequeues b)[ev_pri b ev := remove1 ev (activequeues b ! ev_pri b ev)]\<rparr>"])
      (simp add: remove_if_def flag_simps frame_def others_same_def, simp add: relinked_def)
next
  case False
  moreover have "removeAll ev (activequeues b ! i) = activequeues b ! i" if "i < length (activequeues b)" for i
    using ok that False by (simp add: queues_ok_def flags_ok_def)
  ultimately show ?thesis using ok by (simp add: remove_if_def flag_simps others_same_def)
qed

lemma remove_inserted_frame:
  assumes ok: "queues_ok b" and on: "bit (ev_flags b ev) 1"
  shows "\<exists>b'. event_queue_remove ev EVLIST_INSERTED b = (Inr (), b') \<and> queues_ok b' \<and> frame b b' \<and>
    \<not> bit (ev_flags b' ev) 1 \<and> others_same ev 1 b b' \<and> timeheap b' = timeheap b \<and>
    set (eventqueue b') = set (eventqueue b) - {ev} \<and> activequeues b' = activequeues b"
proof -
  have d: "distinct (eventqueue b)" using ok by (simp add: queues_ok_def)
  show ?thesis
    using remove_inserted [OF ok on] remove_inserted_ok [OF ok on] d
    by (intro exI [of _ "(relinked ev (ev_flags b ev AND NOT EVLIST_INSERTED) (- 1) b)
       \<lparr>eventqueue := remove1 ev (eventqueue b)\<rparr>"])
      (simp add: flag_simps frame_def others_same_def, simp add: relinked_def)
qed

lemma abort_signal_loop_frame:
  "\<exists>b'. abort_signal_loop ev b = (Inr (), b') \<and> (queues_ok b \<longrightarrow> queues_ok b') \<and> frame b b' \<and>
    ev_flags b' = ev_flags b \<and> timeheap b' = timeheap b \<and> eventqueue b' = eventqueue b \<and>
    activequeues b' = activequeues b \<and> ev_res b' = ev_res b"
proof -
  have same: "queues_ok (b\<lparr>cells := c\<rparr>) = queues_ok b" for c
  proof -
    have "ext (b\<lparr>cells := c\<rparr>) = ext b" by (simp add: ext_def fun_eq_iff)
    then show ?thesis
      by (simp add: queues_ok_def flags_ok_def events_ok_def counts_ok_def timers_def)
  qed
  then show ?thesis
    by (cases "ev_pncalls b ev") (auto simp: abort_signal_loop_def frame_def)
qed

section \<open>What the backend watches\<close>

definition rw :: "event_base \<Rightarrow> event \<Rightarrow> bool" where
  "rw b e \<longleftrightarrow> bit (ev_events b e) 1 \<or> bit (ev_events b e) 2"

text \<open>The mask a descriptor has in the backend after the logged requests.\<close>

fun interest :: "(bool \<times> int \<times> u16) list \<Rightarrow> int \<Rightarrow> u16" where
  "interest [] fd = 0"
| "interest ((added, f, m) # log) fd =
     (if f \<noteq> fd then interest log fd
      else if added then interest log fd OR m else interest log fd AND NOT m)"

definition io_ctx :: "event_base \<Rightarrow> nat \<Rightarrow> evmap_io" where
  "io_ctx b fd = (if fd < length (io b) then case io b ! fd of None \<Rightarrow> evmap_io_init | Some c \<Rightarrow> c
                  else evmap_io_init)"

definition users :: "event_base \<Rightarrow> nat \<Rightarrow> event list \<Rightarrow> nat" where
  "users b k xs = length (filter (\<lambda>e. bit (ev_events b e) k) xs)"

text \<open>
  The entry of a descriptor is right for the watchers \<open>W\<close>: it lists those on the descriptor,
  counts its readers and writers, and the backend watches for reading (writing) exactly if
  there is a reader (writer).
\<close>

definition slot_ok :: "event_base \<Rightarrow> event set \<Rightarrow> nat \<Rightarrow> evmap_io \<Rightarrow> u16 \<Rightarrow> bool" where
  "slot_ok b W fd c m \<longleftrightarrow>
     distinct (io_events c) \<and> set (io_events c) = {e \<in> W. rw b e \<and> ev_fd b e = int fd} \<and>
     unat (nread c) = users b 1 (io_events c) \<and> unat (nwrite c) = users b 2 (io_events c) \<and>
     (bit m 1 \<longleftrightarrow> nread c \<noteq> 0) \<and> (bit m 2 \<longleftrightarrow> nwrite c \<noteq> 0)"

definition io_ok :: "event set \<Rightarrow> event_base \<Rightarrow> bool" where
  "io_ok W b \<longleftrightarrow> (\<forall>fd. slot_ok b W fd (io_ctx b fd) (interest (backend_log b) (int fd)))"

definition io_only :: "event_base \<Rightarrow> event_base \<Rightarrow> bool" where
  "io_only b b' \<longleftrightarrow> (\<exists>i l. b' = b\<lparr>io := i, backend_log := l\<rparr>)"

lemma io_only_refl [simp]: "io_only b b"
  unfolding io_only_def by (intro exI [of _ "io b"] exI [of _ "backend_log b"]) simp

lemma io_onlyI: "io_only b (b\<lparr>io := i\<rparr>)" "io_only b (b\<lparr>io := i, backend_log := l\<rparr>)"
  unfolding io_only_def
  by (intro exI [of _ i] exI [of _ "backend_log b"], simp) (intro exI [of _ i] exI [of _ l], simp)

lemma queues_ok_io: "io_only b b' \<Longrightarrow> queues_ok b' = queues_ok b"
proof -
  have "ext (b\<lparr>io := i, backend_log := l\<rparr>) = ext b" for i l by (simp add: ext_def fun_eq_iff)
  then show "io_only b b' \<Longrightarrow> queues_ok b' = queues_ok b"
    by (auto simp: io_only_def queues_ok_def flags_ok_def events_ok_def counts_ok_def timers_def)
qed

lemma grow_spec:
  assumes "0 < nentries" and "fd < 2 ^ 30"
  shows "\<exists>m. grow nentries fd = Some m \<and> fd < m \<and> nentries \<le> m"
  using assms
proof (induction nentries fd rule: grow.induct)
  case (1 nentries fd)
  show ?case
  proof (cases "nentries \<le> fd")
    case True
    then have "\<not> (nentries = 0 \<or> 2 ^ 30 \<le> nentries)" using 1 by auto
    with True 1 obtain m where "grow (nentries * 2) fd = Some m" "fd < m" "nentries * 2 \<le> m" by auto
    with \<open>\<not> (nentries = 0 \<or> 2 ^ 30 \<le> nentries)\<close> True show ?thesis by (subst grow.simps) auto
  next
    case False
    then show ?thesis by (subst grow.simps) auto
  qed
qed

lemma make_space_spec:
  assumes "fd < 2 ^ 30"
  shows "evmap_make_space env fd xs = Some (- 1, xs) \<or>
    (\<exists>k. evmap_make_space env fd xs = Some (0, xs @ replicate k None) \<and> fd < length xs + k)"
proof (cases "length xs \<le> fd")
  case True
  have "0 < (if xs \<noteq> [] then length xs else 32)" by simp
  from grow_spec [OF this assms] obtain m where
    "grow (if xs \<noteq> [] then length xs else 32) fd = Some m" "fd < m" "length xs \<le> m"
    by (auto split: if_splits)
  with True show ?thesis by (auto simp: evmap_make_space_def intro!: exI [of _ "m - length xs"])
next
  case False
  then show ?thesis by (auto simp: evmap_make_space_def intro!: exI [of _ 0])
qed

lemma io_ctx_grown:
  assumes "fd < length (io b) + k" and "get_slot_and_ctor env fd evmap_io_init (io b @ replicate k None) = (r, xs)"
  shows "io_ctx (b\<lparr>io := xs\<rparr>) = io_ctx b" "fd < length xs" "r \<in> {None, Some (io_ctx b fd)}"
proof -
  have nth: "(io b @ replicate k None) ! f = (if f < length (io b) then io b ! f else None)" if "f < length (io b) + k" for f
    using that by (simp add: nth_append)
  have "io_ctx (b\<lparr>io := xs\<rparr>) f = io_ctx b f" for f
    using assms nth [of f]
    by (auto simp: io_ctx_def get_slot_and_ctor_def nth_list_update split: option.splits if_splits)
  then show "io_ctx (b\<lparr>io := xs\<rparr>) = io_ctx b" by (simp add: fun_eq_iff)
  show "fd < length xs" "r \<in> {None, Some (io_ctx b fd)}"
    using assms nth [of fd]
    by (auto simp: io_ctx_def get_slot_and_ctor_def split: option.splits if_splits)
qed

lemma bit_masks [flag_simps]:
  "bit EV_READ k \<longleftrightarrow> k = 1" "bit EV_WRITE k \<longleftrightarrow> k = 2" "bit EV_ET k \<longleftrightarrow> k = 5"
  "bit (bits_if c m) k \<longleftrightarrow> c \<and> bit m k"
proof -
  have e: "EV_READ = 2 ^ 1" "EV_WRITE = 2 ^ 2" "EV_ET = 2 ^ 5"
    by (simp_all add: EV_READ_def EV_WRITE_def EV_ET_def)
  show "bit EV_READ k \<longleftrightarrow> k = 1" unfolding e(1) bit_exp_iff by auto
  show "bit EV_WRITE k \<longleftrightarrow> k = 2" unfolding e(2) bit_exp_iff by auto
  show "bit EV_ET k \<longleftrightarrow> k = 5" unfolding e(3) bit_exp_iff by auto
  show "bit (bits_if c m) k \<longleftrightarrow> c \<and> bit m k" by (simp add: bits_if_def)
qed

lemma res_zero:
  "bits_if c EV_READ OR bits_if d EV_WRITE = 0 \<longleftrightarrow> \<not> c \<and> \<not> d"
proof
  assume "bits_if c EV_READ OR bits_if d EV_WRITE = 0"
  then have "\<not> bit (bits_if c EV_READ OR bits_if d EV_WRITE) 1" "\<not> bit (bits_if c EV_READ OR bits_if d EV_WRITE) 2"
    by simp_all
  then show "\<not> c \<and> \<not> d" by (simp add: flag_simps)
qed (simp add: bits_if_def)

text \<open>
  The two halves of the bookkeeping: one more reader (writer), one less. \<open>m\<close> is the mask in
  the backend and \<open>ask\<close> what is requested.
\<close>

lemma watch_bit:
  assumes "bit m k \<longleftrightarrow> (w :: u16) \<noteq> 0" and "n = unat w + (if c then 1 else 0)" and "n \<le> 0xffff"
    and "bit ask k \<longleftrightarrow> c \<and> n = 1"
  shows "bit (m OR ask) k \<longleftrightarrow> (of_nat n :: u16) \<noteq> 0" "unat (of_nat n :: u16) = n"
proof -
  show u: "unat (of_nat n :: u16) = n" using assms(3) by (simp add: unat_of_nat)
  have "(of_nat n :: u16) \<noteq> 0 \<longleftrightarrow> n \<noteq> 0" using u by (metis unat_eq_0)
  then show "bit (m OR ask) k \<longleftrightarrow> (of_nat n :: u16) \<noteq> 0"
    using assms by (auto simp: bit_or_iff unat_eq_0 split: if_splits)
qed

lemma unwatch_bit:
  assumes "bit (m :: u16) k \<longleftrightarrow> (w :: u16) \<noteq> 0" and "n = int (unat w) - (if c then 1 else 0)" and "0 \<le> n"
    and "bit ask k \<longleftrightarrow> c \<and> n = 0" and "k < 16"
  shows "bit (m AND NOT ask) k \<longleftrightarrow> (of_int n :: u16) \<noteq> 0" "int (unat (of_int n :: u16)) = n"
proof -
  have "int (unat w) < int (256 ^ 2)" using unat_less_16 [of w] by (simp only: of_nat_less_iff)
  then have "n < 2 ^ 16" using assms(2) by (simp split: if_splits)
  then show u: "int (unat (of_int n :: u16)) = n"
    using assms(3) by (simp add: uint_word_of_int)
  have "(of_int n :: u16) \<noteq> 0 \<longleftrightarrow> n \<noteq> 0" using u by auto
  then show "bit (m AND NOT ask) k \<longleftrightarrow> (of_int n :: u16) \<noteq> 0"
    using assms by (auto simp: flag_simps unat_eq_0 split: if_splits)
qed

lemma slot_ok_cong:
  "rw b' = rw b \<Longrightarrow> ev_fd b' = ev_fd b \<Longrightarrow> ev_events b' = ev_events b \<Longrightarrow>
     slot_ok b' W fd c m = slot_ok b W fd c m"
  by (simp add: slot_ok_def users_def)

text \<open>A change of one slot.\<close>

lemma io_ok_slot:
  assumes ok: "io_ok W b" and f: "f < length xs" and xs: "io_ctx (b\<lparr>io := xs\<rparr>) = io_ctx b"
    and log: "\<And>g. g \<noteq> int f \<Longrightarrow> interest log g = interest (backend_log b) g"
    and W: "\<And>e. (e \<in> W) \<noteq> (e \<in> V) \<Longrightarrow> ev_fd b e = int f"
    and slot: "slot_ok b V f c (interest log (int f))"
  shows "io_ok V (b\<lparr>io := xs[f := Some c], backend_log := log\<rparr>)"
  unfolding io_ok_def
proof
  fix g
  let ?b = "b\<lparr>io := xs[f := Some c], backend_log := log\<rparr>"
  have cong: "slot_ok ?b V g d m = slot_ok b V g d m" for d m
    by (rule slot_ok_cong) (simp_all add: rw_def fun_eq_iff)
  show "slot_ok ?b V g (io_ctx ?b g) (interest (backend_log ?b) (int g))"
  proof (cases "g = f")
    case True
    then show ?thesis unfolding cong using f slot by (simp add: io_ctx_def)
  next
    case False
    have "{e \<in> V. rw b e \<and> ev_fd b e = int g} = {e \<in> W. rw b e \<and> ev_fd b e = int g}"
      using W False by fastforce
    moreover have "io_ctx ?b g = io_ctx b g"
      using False fun_cong [OF xs, of g] by (simp add: io_ctx_def cong: if_cong)
    ultimately show ?thesis
      unfolding cong using ok log [of "int g"] False by (simp add: io_ok_def slot_ok_def)
  qed
qed

lemma io_add_spec:
  assumes ok: "io_ok W b" and new: "ev \<notin> W" "rw b ev" and fd: "ev_fd b ev < 2 ^ 30"
  shows "\<exists>r b'. evmap_io_add env (ev_fd b ev) ev b = (Inr r, b') \<and> io_only b b' \<and> r \<in> {- 1, 0, 1} \<and>
    io_ok (if r = - 1 then W else insert ev W) b'"
proof (cases "ev_fd b ev < 0")
  case True
  have "io_ok (insert ev W) b"
    unfolding io_ok_def
  proof
    fix g
    have "{e \<in> insert ev W. rw b e \<and> ev_fd b e = int g} = {e \<in> W. rw b e \<and> ev_fd b e = int g}"
      using True by auto
    then show "slot_ok b (insert ev W) g (io_ctx b g) (interest (backend_log b) (int g))"
      using ok by (simp add: io_ok_def slot_ok_def)
  qed
  with True show ?thesis by (simp add: evmap_io_add_def)
next
  case False
  define f where "f = nat (ev_fd b ev)"
  have f: "ev_fd b ev = int f" "f < 2 ^ 30" using False fd by (auto simp: f_def)
  consider (full) "evmap_make_space env f (io b) = Some (- 1, io b)"
    | (space) k where "evmap_make_space env f (io b) = Some (0, io b @ replicate k None)" "f < length (io b) + k"
    using make_space_spec [OF f(2), of env "io b"] by blast
  then show ?thesis
  proof cases
    case full
    then show ?thesis using False ok by (simp add: evmap_io_add_def f_def)
  next
    case space
    obtain r xs where g: "get_slot_and_ctor env f evmap_io_init (io b @ replicate k None) = (r, xs)"
      by (cases "get_slot_and_ctor env f evmap_io_init (io b @ replicate k None)")
    note sl = io_ctx_grown [OF space(2) g]
    have grown: "io_ok W (b\<lparr>io := xs\<rparr>)"
      using ok sl(1) by (simp add: io_ok_def slot_ok_def users_def rw_def)
    show ?thesis
    proof (cases r)
      case None
      then show ?thesis using False space g grown io_onlyI(1)
        by (auto simp: evmap_io_add_def f_def)
    next
      case (Some c)
      then have c: "c = io_ctx b f" using sl(3) by simp
      let ?m = "interest (backend_log b) (int f)"
      have slot: "slot_ok b W f c ?m" using ok by (simp add: io_ok_def c)
      define rd where "rd = bit (ev_events b ev) 1"
      define wr where "wr = bit (ev_events b ev) 2"
      define nr where "nr = unat (nread c) + (if rd then 1 else 0)"
      define nw where "nw = unat (nwrite c) + (if wr then 1 else 0)"
      define res where "res = bits_if (rd \<and> nr = 1) EV_READ OR bits_if (wr \<and> nw = 1) EV_WRITE"
      define ask where "ask = (ev_events b ev AND EV_ET) OR res"
      define old where "old = bits_if (nread c \<noteq> 0) EV_READ OR bits_if (nwrite c \<noteq> 0) EV_WRITE"
      define c' where "c' = \<lparr>io_events = io_events c @ [ev], nread = of_nat nr, nwrite = of_nat nw\<rparr>"
      define log where "log = (if res \<noteq> 0 then [(True, int f, ask)] else []) @ backend_log b"
      have nm: "ev \<notin> set (io_events c)" using slot new(1) by (simp add: slot_ok_def)
      have run: "evmap_io_add env (ev_fd b ev) ev b =
          (if nr > 0xffff \<or> nw > 0xffff then (Inr (- 1), b\<lparr>io := xs\<rparr>)
           else if res \<noteq> 0 \<and> be_add env (int f) old ask = - 1 then (Inr (- 1), b\<lparr>io := xs\<rparr>)
           else (Inr (if res \<noteq> 0 then 1 else 0), b\<lparr>io := xs[f := Some c'], backend_log := log\<rparr>))"
        using False space(1) g Some nm f(1)
        by (simp add: evmap_io_add_def f_def [symmetric] Let_def flag_simps TAILQ_INSERT_TAIL_def
            rd_def wr_def nr_def nw_def res_def ask_def old_def c'_def log_def)
      show ?thesis
      proof (cases "(nr > 0xffff \<or> nw > 0xffff) \<or> (res \<noteq> 0 \<and> be_add env (int f) old ask = - 1)")
        case True
        then have "evmap_io_add env (ev_fd b ev) ev b = (Inr (- 1), b\<lparr>io := xs\<rparr>)"
          unfolding run by auto
        then show ?thesis using grown io_onlyI(1) by auto
      next
        case fits: False
        have ask: "bit ask 1 \<longleftrightarrow> rd \<and> nr = 1" "bit ask 2 \<longleftrightarrow> wr \<and> nw = 1"
          by (simp_all add: ask_def res_def flag_simps bit_and_iff)
        have m: "bit ?m 1 \<longleftrightarrow> nread c \<noteq> 0" "bit ?m 2 \<longleftrightarrow> nwrite c \<noteq> 0"
          using slot by (simp_all add: slot_ok_def)
        have w1: "bit (?m OR ask) 1 \<longleftrightarrow> (of_nat nr :: u16) \<noteq> 0" "unat (of_nat nr :: u16) = nr"
          using fits by (intro watch_bit [OF m(1) nr_def _ ask(1)], simp)+
        have w2: "bit (?m OR ask) 2 \<longleftrightarrow> (of_nat nw :: u16) \<noteq> 0" "unat (of_nat nw :: u16) = nw"
          using fits by (intro watch_bit [OF m(2) nw_def _ ask(2)], simp)+
        have "interest log (int f) = (if res \<noteq> 0 then ?m OR ask else ?m)" by (simp add: log_def)
        moreover have "bit ?m 1 = bit (?m OR ask) 1" "bit ?m 2 = bit (?m OR ask) 2" if "res = 0"
          using that ask unfolding res_def res_zero by (auto simp: bit_or_iff)
        ultimately have il: "bit (interest log (int f)) 1 \<longleftrightarrow> (of_nat nr :: u16) \<noteq> 0"
          "bit (interest log (int f)) 2 \<longleftrightarrow> (of_nat nw :: u16) \<noteq> 0"
          using w1(1) w2(1) by (simp_all split: if_splits)
        have "slot_ok b (insert ev W) f c' (interest log (int f))"
          using slot nm new f(1) il w1(2) w2(2)
          by (auto simp: slot_ok_def c'_def users_def nr_def nw_def rd_def wr_def)
        then have "io_ok (insert ev W) (b\<lparr>io := xs[f := Some c'], backend_log := log\<rparr>)"
          using new f(1) by (intro io_ok_slot [OF ok sl(2,1)]) (auto simp: log_def)
        then show ?thesis
          using fits io_onlyI(2) [of b log "xs[f := Some c']"] unfolding run by auto
      qed
    qed
  qed
qed

lemma users_remove1:
  assumes "e \<in> set xs"
  shows "int (users b k (remove1 e xs)) = int (users b k xs) - (if bit (ev_events b e) k then 1 else 0)"
  using assms by (induction xs) (auto simp: users_def)

text \<open>Deleting, when the backend does not refuse.\<close>

lemma io_del_spec:
  assumes ok: "io_ok W b" and on: "ev \<in> W" "rw b ev" and del: "\<And>f o' r. be_del env f o' r \<noteq> - 1"
  shows "\<exists>r b'. evmap_io_del env (ev_fd b ev) ev b = (Inr r, b') \<and> io_only b b' \<and> r \<in> {0, 1} \<and>
    io_ok (W - {ev}) b'"
proof (cases "ev_fd b ev < 0")
  case True
  have "io_ok (W - {ev}) b"
    unfolding io_ok_def
  proof
    fix g
    have "{e \<in> W - {ev}. rw b e \<and> ev_fd b e = int g} = {e \<in> W. rw b e \<and> ev_fd b e = int g}"
      using True by auto
    then show "slot_ok b (W - {ev}) g (io_ctx b g) (interest (backend_log b) (int g))"
      using ok by (simp add: io_ok_def slot_ok_def)
  qed
  with True show ?thesis by (simp add: evmap_io_del_def)
next
  case False
  define f where "f = nat (ev_fd b ev)"
  have f: "ev_fd b ev = int f" using False by (simp add: f_def)
  define c where "c = io_ctx b f"
  let ?m = "interest (backend_log b) (int f)"
  have slot: "slot_ok b W f c ?m" using ok by (simp add: io_ok_def c_def)
  then have mem: "ev \<in> set (io_events c)" using on f by (simp add: slot_ok_def)
  then have len: "f < length (io b)" and at: "io b ! f = Some c"
    by (auto simp: c_def io_ctx_def evmap_io_init_def split: if_splits option.splits)
  define rd where "rd = bit (ev_events b ev) 1"
  define wr where "wr = bit (ev_events b ev) 2"
  define nr where "nr = int (unat (nread c)) - (if rd then 1 else 0)"
  define nw where "nw = int (unat (nwrite c)) - (if wr then 1 else 0)"
  define res where "res = bits_if (rd \<and> nr = 0) EV_READ OR bits_if (wr \<and> nw = 0) EV_WRITE"
  define c' where "c' = \<lparr>io_events = remove1 ev (io_events c), nread = of_int nr, nwrite = of_int nw\<rparr>"
  define log where "log = (if res \<noteq> 0 then [(False, int f, res)] else []) @ backend_log b"
  have u: "nr = int (users b 1 (remove1 ev (io_events c)))" "nw = int (users b 2 (remove1 ev (io_events c)))"
    using slot users_remove1 [OF mem] by (simp_all add: slot_ok_def nr_def nw_def rd_def wr_def)
  have run: "evmap_io_del env (ev_fd b ev) ev b =
      (Inr (if res \<noteq> 0 then 1 else 0), b\<lparr>io := (io b)[f := Some c'], backend_log := log\<rparr>)"
    using False len at mem del u f
    by (simp add: evmap_io_del_def f_def [symmetric] Let_def flag_simps TAILQ_REMOVE_def
        rd_def wr_def nr_def nw_def res_def c'_def log_def)
  have ask: "bit res 1 \<longleftrightarrow> rd \<and> nr = 0" "bit res 2 \<longleftrightarrow> wr \<and> nw = 0"
    by (simp_all add: res_def flag_simps)
  have m: "bit ?m 1 \<longleftrightarrow> nread c \<noteq> 0" "bit ?m 2 \<longleftrightarrow> nwrite c \<noteq> 0"
    using slot by (simp_all add: slot_ok_def)
  have w1: "bit (?m AND NOT res) 1 \<longleftrightarrow> (of_int nr :: u16) \<noteq> 0" "int (unat (of_int nr :: u16)) = nr"
    using u by (intro unwatch_bit [OF m(1) nr_def _ ask(1)], simp, simp)+
  have w2: "bit (?m AND NOT res) 2 \<longleftrightarrow> (of_int nw :: u16) \<noteq> 0" "int (unat (of_int nw :: u16)) = nw"
    using u by (intro unwatch_bit [OF m(2) nw_def _ ask(2)], simp, simp)+
  have "interest log (int f) = (if res \<noteq> 0 then ?m AND NOT res else ?m)" by (simp add: log_def)
  moreover have "?m AND NOT res = ?m" if "res = 0" using that by simp
  ultimately have il: "interest log (int f) = ?m AND NOT res" by simp
  have n: "unat (of_int nr :: u16) = users b 1 (remove1 ev (io_events c))"
    "unat (of_int nw :: u16) = users b 2 (remove1 ev (io_events c))"
    using w1(2) w2(2) u by linarith+
  have "distinct (io_events c)" using slot by (simp add: slot_ok_def)
  moreover from this have "set (remove1 ev (io_events c)) = {e \<in> W - {ev}. rw b e \<and> ev_fd b e = int f}"
    using slot by (auto simp: slot_ok_def)
  ultimately have "slot_ok b (W - {ev}) f c' (interest log (int f))"
    unfolding slot_ok_def c'_def il evmap_io.simps by (intro conjI distinct_remove1 n w1(1) w2(1))
  then have "io_ok (W - {ev}) (b\<lparr>io := (io b)[f := Some c'], backend_log := log\<rparr>)"
    using f by (intro io_ok_slot [OF ok len]) (auto simp: log_def)
  then show ?thesis
    using io_onlyI(2) [of b log "(io b)[f := Some c']"] unfolding run by auto
qed

end
