(* ===== verification/EventLoop.thy ===== *)
theory EventLoop
  imports EventBase
begin

unbundle bit_operations_syntax

text \<open>
  What the operations of an event base (\<^verbatim>\<open>src/depend/event/project/event.c\<close>) guarantee: adding,
  deleting and activating keep the invariant of the base on every path, and the loop that
  serves deadlines ends and serves exactly the due events, in order.
\<close>

section \<open>The operations on a base\<close>

text \<open>
  The events of the server are no signal events, and descriptors are small.
\<close>

definition plain_events :: "event_base \<Rightarrow> bool" where
  "plain_events b \<longleftrightarrow> (\<forall>e. ev_has_base b e \<longrightarrow> \<not> bit (ev_events b e) 3 \<and> ev_fd b e < 2 ^ 30)"

definition base_ok :: "event_base \<Rightarrow> bool" where
  "base_ok b \<longleftrightarrow> queues_ok b \<and> plain_events b \<and> io_ok (set (eventqueue b)) b \<and>
     (\<forall>e\<in>set (eventqueue b). rw b e) \<and> activequeues b \<noteq> []"

lemma frame_io:
  assumes "frame b b'"
  shows "io_ok W b' = io_ok W b" "plain_events b' = plain_events b" "rw b' = rw b"
    "activequeues b' = [] \<longleftrightarrow> activequeues b = []"
  using assms length_0_conv [of "activequeues b'"] length_0_conv [of "activequeues b"]
  by (simp_all add: frame_def io_ok_def io_ctx_def slot_ok_def users_def rw_def plain_events_def fun_eq_iff)

lemma io_only_fields:
  assumes "io_only b b'"
  shows "plain_events b' = plain_events b" "rw b' = rw b" "eventqueue b' = eventqueue b"
    "timeheap b' = timeheap b" "ev_flags b' = ev_flags b" "activequeues b' = activequeues b"
    "ev_has_base b' = ev_has_base b" "ev_pri b' = ev_pri b" "ev_events b' = ev_events b"
    "ev_fd b' = ev_fd b" "tv_cache b' = tv_cache b" "ev_res b' = ev_res b"
  using assms by (auto simp: io_only_def plain_events_def rw_def fun_eq_iff)

text \<open>What a deletion leaves of every event but the one deleted.\<close>

definition unlinked :: "event \<Rightarrow> event_base \<Rightarrow> event_base \<Rightarrow> bool" where
  "unlinked ev b b' \<longleftrightarrow>
     \<not> bit (ev_flags b' ev) 0 \<and> \<not> bit (ev_flags b' ev) 1 \<and> \<not> bit (ev_flags b' ev) 3 \<and>
     (\<forall>e i. i < 16 \<longrightarrow> e \<noteq> ev \<longrightarrow> bit (ev_flags b' e) i = bit (ev_flags b e) i) \<and>
     ev_timeout (timeheap b') = ev_timeout (timeheap b) \<and>
     ev_has_base b' = ev_has_base b \<and> ev_pri b' = ev_pri b \<and> tv_cache b' = tv_cache b \<and>
     length (activequeues b') = length (activequeues b) \<and>
     (\<forall>i<length (activequeues b). activequeues b' ! i = removeAll ev (activequeues b ! i)) \<and>
     ev_events b' = ev_events b \<and> ev_fd b' = ev_fd b \<and>
     (if bit (ev_flags b ev) 0 then timeheap b' = heap_out ev (timeheap b) else timeheap b' = timeheap b)"

text \<open>A refused deletion: the event is on no queue any more, but the map still lists it.\<close>

lemma io_del_cases:
  "evmap_io_del env fd ev b = evmap_io_del (env\<lparr>be_del := \<lambda>_ _ _. 0\<rparr>) fd ev b \<or>
   evmap_io_del env fd ev b = (Inr (- 1), b) \<and> (\<exists>old m. be_del env fd old m = - 1)"
  by (auto simp: evmap_io_del_def Let_def split: option.split)

lemma del_cases:
  assumes ok: "base_ok b" and base: "ev_has_base b ev"
  shows "\<exists>r b'. event_del_internal env ev b = (Inr r, b') \<and> queues_ok b' \<and> unlinked ev b b' \<and>
    (r = 0 \<and> base_ok b' \<or>
     r = - 1 \<and> (\<exists>fd old m. be_del env fd old m = - 1) \<and> io b' = io b \<and> bit (ev_flags b ev) 1)"
proof -
  have known: "\<not> test (ev_flags b ev) (NOT EVLIST_ALL)"
    using ok base by (simp add: base_ok_def queues_ok_def events_ok_def flags_known_def)
  have qok: "queues_ok b" using ok by (simp add: base_ok_def)
  obtain b1 where b1: "abort_signal_loop ev b = (Inr (), b1)" "queues_ok b1" "frame b b1"
    "ev_flags b1 = ev_flags b" "timeheap b1 = timeheap b" "eventqueue b1 = eventqueue b"
    "activequeues b1 = activequeues b"
    using abort_signal_loop_frame [of ev b] qok by blast
  obtain b2 where b2: "remove_if ev EVLIST_TIMEOUT b1 = (Inr (), b2)" "queues_ok b2" "frame b1 b2"
    "\<not> bit (ev_flags b2 ev) 0" "others_same ev 0 b1 b2" "ev_timeout (timeheap b2) = ev_timeout (timeheap b1)"
    "eventqueue b2 = eventqueue b1" "activequeues b2 = activequeues b1"
    "if bit (ev_flags b1 ev) 0 then timeheap b2 = heap_out ev (timeheap b1) else b2 = b1"
    using remove_if_timeout [OF b1(2)] by blast
  obtain b3 where b3: "remove_if ev EVLIST_ACTIVE b2 = (Inr (), b3)" "queues_ok b3" "frame b2 b3"
    "\<not> bit (ev_flags b3 ev) 3" "others_same ev 3 b2 b3" "timeheap b3 = timeheap b2"
    "eventqueue b3 = eventqueue b2"
    "\<And>i. i < length (activequeues b2) \<Longrightarrow> activequeues b3 ! i = removeAll ev (activequeues b2 ! i)"
    using remove_if_active [OF b2(2)] by blast
  have act3: "\<forall>i<length (activequeues b). activequeues b3 ! i = removeAll ev (activequeues b ! i)"
    using b1(7) b2(8) b3(8) by simp
  note fr = frame_trans [OF frame_trans [OF b1(3) b2(3)] b3(3)]
  have ok3: "base_ok b3"
    using ok b3(2,7) b2(7) b1(6) frame_io [OF fr] by (simp add: base_ok_def)
  have same: "bit (ev_flags b3 e) i = bit (ev_flags b e) i" if "i < 16" "e \<noteq> ev \<or> i \<noteq> 0 \<and> i \<noteq> 3" for e i
    using that b1(4) b2(5) b3(5) by (auto simp: others_same_def)
  have off0: "\<not> bit (ev_flags b3 ev) 0" using b2(4) b3(5) by (simp add: others_same_def)
  have heap3: "ev_timeout (timeheap b3) = ev_timeout (timeheap b)"
    "if bit (ev_flags b ev) 0 then timeheap b3 = heap_out ev (timeheap b) else timeheap b3 = timeheap b"
    using b1(4,5) b2(6,9) b3(6) by (simp_all split: if_splits)
  have run: "event_del_internal env ev b =
      (if bit (ev_flags b3 ev) 1
       then seqM (event_queue_remove ev EVLIST_INSERTED)
              (bindM (if test (ev_events b3 ev) (EV_READ OR EV_WRITE)
                      then evmap_io_del env (ev_fd b3 ev) ev else evmap_signal_del env (ev_fd b3 ev) ev)
                 (\<lambda>res. returnM (changed res))) b3
       else (Inr 0, b3))"
    using base known b1(1) b2(1) b3(1)
    by (simp add: event_del_internal_def seqM_Inr flag_simps)
  show ?thesis
  proof (cases "bit (ev_flags b3 ev) 1")
    case False
    have "unlinked ev b b3"
      using False off0 b3(4) same heap3 fr act3 by (simp add: unlinked_def frame_def)
    then show ?thesis unfolding run using False ok3 by (simp add: base_ok_def)
  next
    case True
    obtain b4 where b4: "event_queue_remove ev EVLIST_INSERTED b3 = (Inr (), b4)" "queues_ok b4"
      "frame b3 b4" "\<not> bit (ev_flags b4 ev) 1" "others_same ev 1 b3 b4" "timeheap b4 = timeheap b3"
      "set (eventqueue b4) = set (eventqueue b3) - {ev}" "activequeues b4 = activequeues b3"
      using remove_inserted_frame [OF b3(2) True] by blast
    have mem: "ev \<in> set (eventqueue b3)" using b3(2) True by (simp add: queues_ok_def flags_ok_def)
    have "rw b4 ev" "io_ok (set (eventqueue b3)) b4"
      using ok3 mem frame_io [OF b4(3)] by (simp_all add: base_ok_def)
    from io_del_spec [OF this(2) mem this(1), of "env\<lparr>be_del := \<lambda>_ _ _. 0\<rparr>"] obtain r b5 where
      b5: "evmap_io_del (env\<lparr>be_del := \<lambda>_ _ _. 0\<rparr>) (ev_fd b4 ev) ev b4 = (Inr r, b5)" "io_only b4 b5" "r \<in> {0, 1}"
      "io_ok (set (eventqueue b3) - {ev}) b5" by auto
    have eq: "ev_fd b4 = ev_fd b3" "ev_events b4 = ev_events b3" using b4(3) by (simp_all add: frame_def)
    have "test (ev_events b3 ev) (EV_READ OR EV_WRITE)"
      using \<open>rw b4 ev\<close> eq by (simp add: flag_simps rw_def)
    then have run4: "event_del_internal env ev b = bindM (evmap_io_del env (ev_fd b4 ev) ev) (\<lambda>res. returnM (changed res)) b4"
      unfolding run using True b4(1) eq by (simp add: seqM_Inr)
    have un4: "unlinked ev b b4"
      using b4(4,5,6,8) off0 b3(4) same heap3 fr act3 b4(3) by (simp add: unlinked_def frame_def others_same_def)
    have ok5: "base_ok b5"
      using ok3 b4(2,7) b5(2,4) io_only_fields [OF b5(2)] frame_io [OF b4(3)] queues_ok_io [OF b5(2)]
      by (simp add: base_ok_def)
    have un5: "unlinked ev b b5"
      using b4(4,5,6,8) b5(2) off0 b3(4) same heap3 fr act3 b4(3) io_only_fields [OF b5(2)]
      by (simp add: unlinked_def frame_def others_same_def)
    have io4: "io b4 = io b" using frame_trans [OF fr b4(3)] by (simp add: frame_def)
    have on: "bit (ev_flags b ev) 1" using True same [of 1 ev] by simp
    from io_del_cases [of env "ev_fd b4 ev" ev b4] show ?thesis
    proof
      assume "evmap_io_del env (ev_fd b4 ev) ev b4 = evmap_io_del (env\<lparr>be_del := \<lambda>_ _ _. 0\<rparr>) (ev_fd b4 ev) ev b4"
      then have "event_del_internal env ev b = (Inr 0, b5)"
        unfolding run4 using b5(1,3) by (auto simp: bindM_def changed_def)
      then show ?thesis using ok5 un5 by (auto simp: base_ok_def)
    next
      assume "evmap_io_del env (ev_fd b4 ev) ev b4 = (Inr (- 1), b4) \<and> (\<exists>old m. be_del env (ev_fd b4 ev) old m = - 1)"
      then have "event_del_internal env ev b = (Inr (- 1), b4)" "\<exists>fd old m. be_del env fd old m = - 1"
        unfolding run4 by (auto simp: bindM_def changed_def)
      then show ?thesis using b4(2) un4 io4 on by blast
    qed
  qed
qed

lemma del_spec:
  assumes "base_ok b" and "ev_has_base b ev" and "\<And>f o' r. be_del env f o' r \<noteq> - 1"
  shows "\<exists>b'. event_del_internal env ev b = (Inr 0, b') \<and> base_ok b' \<and> unlinked ev b b'"
  using del_cases [OF assms(1,2), of env] assms(3) by blast

text \<open>The map goes on activating an event whose deletion was refused, even when its memory is used for something else.\<close>

lemma refused_deletion_stays_listed:
  assumes ok: "base_ok b" and base: "ev_has_base b ev" and fd: "ev_fd b ev = int fd"
    and run: "event_del_internal env ev b = (Inr (- 1), b')"
  shows "ev \<notin> set (eventqueue b') \<and> ev \<in> set (io_events (io_ctx b' fd))"
proof -
  have d: "queues_ok b'" "unlinked ev b b'" "io b' = io b" "bit (ev_flags b ev) 1"
    using del_cases [OF ok base, of env] run by auto
  then have "ev \<notin> set (eventqueue b')" by (simp add: queues_ok_def flags_ok_def unlinked_def)
  moreover have "ev \<in> set (eventqueue b)" using ok d(4) by (simp add: base_ok_def queues_ok_def flags_ok_def)
  then have "ev \<in> set (io_events (io_ctx b fd))" using ok fd by (auto simp: base_ok_def io_ok_def slot_ok_def)
  moreover have "io_ctx b' fd = io_ctx b fd" using d(3) by (simp add: io_ctx_def)
  ultimately show ?thesis by simp
qed

text \<open>Activating.\<close>

definition activated :: "event \<Rightarrow> event_base \<Rightarrow> event_base \<Rightarrow> bool" where
  "activated ev b b' \<longleftrightarrow>
     bit (ev_flags b' ev) 3 \<and>
     (\<forall>e i. i < 16 \<longrightarrow> \<not> (e = ev \<and> i = 3) \<longrightarrow> bit (ev_flags b' e) i = bit (ev_flags b e) i) \<and>
     timeheap b' = timeheap b \<and> eventqueue b' = eventqueue b \<and>
     ev_has_base b' = ev_has_base b \<and> ev_pri b' = ev_pri b \<and> tv_cache b' = tv_cache b \<and>
     ev_events b' = ev_events b \<and> ev_fd b' = ev_fd b \<and> io b' = io b \<and>
     activequeues b' = (if bit (ev_flags b ev) 3 then activequeues b
       else (activequeues b)[ev_pri b ev := activequeues b ! ev_pri b ev @ [ev]])"

lemma base_ok_res: "base_ok (b\<lparr>ev_res := r\<rparr>) = base_ok b" "base_ok (b\<lparr>event_continue := c\<rparr>) = base_ok b"
proof -
  have "ext (b\<lparr>ev_res := r\<rparr>) = ext b" "ext (b\<lparr>event_continue := c\<rparr>) = ext b"
    "rw (b\<lparr>ev_res := r\<rparr>) = rw b" "rw (b\<lparr>event_continue := c\<rparr>) = rw b"
    by (simp_all add: ext_def rw_def fun_eq_iff)
  moreover have "io_ok W (b\<lparr>ev_res := r\<rparr>) = io_ok W b" "io_ok W (b\<lparr>event_continue := c\<rparr>) = io_ok W b" for W
    by (simp_all add: io_ok_def io_ctx_def slot_ok_def users_def rw_def)
  ultimately show "base_ok (b\<lparr>ev_res := r\<rparr>) = base_ok b" "base_ok (b\<lparr>event_continue := c\<rparr>) = base_ok b"
    by (simp_all add: base_ok_def queues_ok_def flags_ok_def events_ok_def counts_ok_def timers_def plain_events_def)
qed

lemma active_spec:
  assumes ok: "base_ok b" and base: "ev_has_base b ev"
  shows "\<exists>b'. event_active_nolock env ev res ncalls b = (Inr (), b') \<and> base_ok b' \<and> activated ev b b'"
proof (cases "bit (ev_flags b ev) 3")
  case True
  let ?b = "b\<lparr>ev_res := (ev_res b)(ev := ev_res b ev OR res)\<rparr>"
  have "base_ok ?b \<and> activated ev b ?b" using True ok by (simp add: base_ok_res activated_def)
  with True show ?thesis by (simp add: event_active_nolock_def flag_simps)
next
  case False
  let ?b1 = "b\<lparr>ev_res := (ev_res b)(ev := res)\<rparr>"
  define b2 where "b2 = (if int (ev_pri b ev) < event_running_priority b then ?b1\<lparr>event_continue := True\<rparr> else ?b1)"
  have ok2: "base_ok b2" using ok by (simp add: b2_def base_ok_res)
  have f2: "ev_flags b2 = ev_flags b" "ev_has_base b2 = ev_has_base b" "timeheap b2 = timeheap b"
    "eventqueue b2 = eventqueue b" "ev_pri b2 = ev_pri b" "tv_cache b2 = tv_cache b"
    "ev_events b2 = ev_events b" "ev_fd b2 = ev_fd b" "io b2 = io b" "activequeues b2 = activequeues b"
    by (simp_all add: b2_def)
  have ns: "\<not> bit (ev_events b ev) 3" using ok base by (simp add: base_ok_def plain_events_def)
  let ?b3 = "(relinked ev (ev_flags b2 ev OR EVLIST_ACTIVE) 1 b2)
       \<lparr>event_count_active := event_count_active b2 + 1,
        activequeues := (activequeues b2)[ev_pri b2 ev := activequeues b2 ! ev_pri b2 ev @ [ev]]\<rparr>"
  have ins: "event_queue_insert env ev EVLIST_ACTIVE b2 = (Inr (), ?b3)" "queues_ok ?b3"
    using insert_active_ok(1) [of b2 ev env] insert_active_ok(2) [of b2 ev] ok2 False base f2 by (simp_all add: base_ok_def)
  have fr: "frame b2 ?b3" by (simp add: frame_def) (simp add: relinked_def)
  have "base_ok ?b3"
    using ok2 ins(2) frame_io [OF fr] by (simp add: base_ok_def)
  moreover have "activated ev b ?b3"
    using f2 False by (simp add: activated_def flag_simps)
  moreover have "event_active_nolock env ev res ncalls b = event_queue_insert env ev EVLIST_ACTIVE b2"
    using False ns by (simp add: event_active_nolock_def flag_simps b2_def Let_def)
  ultimately show ?thesis using ins(1) by auto
qed

section \<open>Deadlines fire\<close>

text \<open>
  One round of the loop, and the loop: \<open>es\<close> are the events served, in order. Everything that
  the loop reads is in these conclusions.
\<close>

definition served :: "event list \<Rightarrow> event_base \<Rightarrow> event_base \<Rightarrow> bool" where
  "served es b b' \<longleftrightarrow>
     timeheap b' = fold heap_out es (timeheap b) \<and>
     ev_pri b' = ev_pri b \<and> length (activequeues b') = length (activequeues b) \<and>
     (\<forall>i<length (activequeues b). activequeues b' ! i =
        filter (\<lambda>x. x \<notin> set es) (activequeues b ! i) @ filter (\<lambda>x. ev_pri b x = i) es)"

lemma fire_one:
  assumes ok: "base_ok b" and del: "\<And>f o' r. be_del env f o' r \<noteq> - 1" and on: "ev \<in> set (timers b)"
  shows "\<exists>b'. bindM (event_del_internal env ev) (\<lambda>_. event_active_nolock env ev EV_TIMEOUT 1) b =
    (Inr (), b') \<and> base_ok b' \<and> served [ev] b b'"
proof -
  have bit: "bit (ev_flags b ev) 0" and base: "ev_has_base b ev"
    using ok on by (auto simp: base_ok_def queues_ok_def flags_ok_def events_ok_def)
  obtain b1 where b1: "event_del_internal env ev b = (Inr 0, b1)" "base_ok b1" "unlinked ev b b1"
    using del_spec [OF ok base del] by blast
  have "ev_has_base b1 ev" using b1(3) base by (simp add: unlinked_def)
  from active_spec [OF b1(2) this, of env EV_TIMEOUT 1] obtain b2 where
    b2: "event_active_nolock env ev EV_TIMEOUT 1 b1 = (Inr (), b2)" "base_ok b2" "activated ev b1 b2"
    by blast
  have pri: "ev_pri b ev < length (activequeues b)"
    using ok base by (simp add: base_ok_def queues_ok_def events_ok_def)
  have "served [ev] b b2"
    using b1(3) b2(3) bit pri
    by (auto simp: served_def unlinked_def activated_def nth_list_update removeAll_filter_not_eq eq_commute)
  moreover have "bindM (event_del_internal env ev) (\<lambda>_. event_active_nolock env ev EV_TIMEOUT 1) b = (Inr (), b2)"
    using b1(1) b2(1) by (simp add: bindM_def)
  ultimately show ?thesis using b2(2) by blast
qed

lemma served_Nil [simp]: "served [] b b"
  by (simp add: served_def)

lemma served_Cons:
  assumes one: "served [e] b b1" and more: "served es b1 b2" and new: "e \<notin> set es"
  shows "served (e # es) b b2"
proof -
  have "activequeues b2 ! i = filter (\<lambda>x. x \<notin> set (e # es)) (activequeues b ! i) @
      filter (\<lambda>x. ev_pri b x = i) (e # es)" if i: "i < length (activequeues b)" for i
  proof -
    have "activequeues b2 ! i = filter (\<lambda>x. x \<notin> set es) (activequeues b1 ! i) @
        filter (\<lambda>x. ev_pri b x = i) es"
      using one more i by (simp add: served_def)
    also have "activequeues b1 ! i = filter (\<lambda>x. x \<noteq> e) (activequeues b ! i) @
        (if ev_pri b e = i then [e] else [])"
      using one i by (simp add: served_def)
    finally show ?thesis using new by (simp add: conj_commute)
  qed
  then show ?thesis using one more by (simp add: served_def)
qed

lemma timeout_loop_spec:
  assumes "base_ok b" and del: "\<And>f o' r. be_del env f o' r \<noteq> - 1"
  shows "\<exists>es b'. timeout_loop env now b = Some (Inr (), b') \<and> base_ok b' \<and> served es b b' \<and>
    th.drains es (timeheap b) \<and> (\<forall>e\<in>set es. ev_timeout (timeheap b) e \<le> now) \<and>
    (\<forall>e. heap_top (timeheap b') = Some e \<longrightarrow> now < ev_timeout (timeheap b) e)"
  using assms(1)
proof (induction "length (timers b)" arbitrary: b rule: less_induct)
  case less
  have h: "heap_ok (timeheap b)" using less.prems by (simp add: base_ok_def queues_ok_def)
  have stop: ?case if "timeout_loop env now b = Some (Inr (), b)"
    "\<forall>e. heap_top (timeheap b) = Some e \<longrightarrow> now < ev_timeout (timeheap b) e"
    using that less.prems by (intro exI [of _ "[]"] exI [of _ b]) (simp add: served_def)
  show ?case
  proof (cases "heap_top (timeheap b)")
    case None
    then have "min_heap_top (timeheap b) = Some None"
      using top_spec(1,2) [OF h] by (auto simp: heap_top_eq [OF h] split: if_splits)
    then show ?thesis using None by (intro stop) (simp_all add: timeout_loop.simps)
  next
    case (Some e)
    then have top: "min_heap_top (timeheap b) = Some (Some e)" and mem: "e \<in> set (timers b)"
      using top_spec(1,2) [OF h] th.top_in [OF h Some]
      by (auto simp: heap_top_eq [OF h] timers_def split: if_splits)
    show ?thesis
    proof (cases "now < ev_timeout (timeheap b) e")
      case True
      then show ?thesis using Some top by (intro stop) (simp_all add: timeout_loop.simps timercmp_greater)
    next
      case due: False
      obtain b1 where b1: "bindM (event_del_internal env e) (\<lambda>_. event_active_nolock env e EV_TIMEOUT 1) b =
          (Inr (), b1)" "base_ok b1" "served [e] b b1"
        using fire_one [OF less.prems del mem] by blast
      have h1: "timeheap b1 = heap_out e (timeheap b)" using b1(3) by (simp add: served_def)
      note out = heap_out_spec [OF h] mem [unfolded timers_def]
      have "distinct (timers b)" "distinct (timers b1)"
        using h less.prems b1(2) by (simp_all add: timers_def base_ok_def queues_ok_def heap_ok_def)
      moreover have st: "set (timers b1) = set (timers b) - {e}"
        using out by (simp add: timers_def h1)
      ultimately have "length (timers b1) < length (timers b)"
        using mem by (metis distinct_card card_Diff1_less finite_set)
      from less.hyps [OF this b1(2)] obtain es b2 where
        b2: "timeout_loop env now b1 = Some (Inr (), b2)" "base_ok b2" "served es b1 b2"
        "th.drains es (timeheap b1)" "\<forall>x\<in>set es. ev_timeout (timeheap b1) x \<le> now"
        "\<forall>x. heap_top (timeheap b2) = Some x \<longrightarrow> now < ev_timeout (timeheap b1) x" by blast
      have ok1: "heap_ok (timeheap b1)" using b1(2) by (simp add: base_ok_def queues_ok_def)
      have same: "ev_timeout (timeheap b1) = ev_timeout (timeheap b)"
        using th.take_out_due [OF h out(4)] by (simp add: h1)
      have "set es \<subseteq> set (timers b1)"
        using th.drains_ordered [OF ok1 b2(4)] by (simp add: timers_def)
      then have "e \<notin> set es" using st by auto
      then have "served (e # es) b b2" using served_Cons b1(3) b2(3) by blast
      moreover have "timeout_loop env now b = Some (Inr (), b2)"
        using top due b1(1) b2(1) by (subst timeout_loop.simps) (simp add: timercmp_greater)
      ultimately show ?thesis
        using b2(2,4,5,6) Some due h1 same
        by (intro exI [of _ "e # es"] exI [of _ b2]) (simp add: not_less)
    qed
  qed
qed

section \<open>Adding events\<close>

lemma base_ok_heap:
  assumes ok: "base_ok b" and h: "heap_ok h" "set (elems h) = set (timers b)"
  shows "base_ok (b\<lparr>timeheap := h\<rparr>)"
proof -
  have d: "distinct (elems h)" "distinct (timers b)"
    using ok h by (auto simp: base_ok_def queues_ok_def heap_ok_def timers_def)
  then have "mset (elems h) = mset (timers b)" using h(2) by (simp add: set_eq_iff_mset_eq_distinct)
  note c = cnt_mset [OF this]
  have fr: "frame b (b\<lparr>timeheap := h\<rparr>)" by (simp add: frame_def)
  show ?thesis
    using ok h c frame_io [OF fr]
    by (simp add: base_ok_def queues_ok_def flags_ok_def events_ok_def counts_ok_def)
qed

lemma reserve_timer_spec:
  assumes ok: "base_ok b" and keeps: "realloc_keeps (env_realloc env)"
    and few: "unat (mh_n (timeheap b)) + 1 < 2 ^ 31"
  shows "reserve_timer env ev tv b = (Inr (- 1), b) \<or>
    (\<exists>h. reserve_timer env ev tv b = (Inr 0, b\<lparr>timeheap := h\<rparr>) \<and> base_ok (b\<lparr>timeheap := h\<rparr>) \<and>
       ev_timeout h = ev_timeout (timeheap b) \<and> set (elems h) = set (timers b) \<and> mh_n h = mh_n (timeheap b) \<and>
       (tv \<noteq> None \<and> \<not> bit (ev_flags b ev) 0 \<longrightarrow> timer_room env (b\<lparr>timeheap := h\<rparr>)))"
proof (cases "tv \<noteq> None \<and> \<not> bit (ev_flags b ev) 0")
  case False
  then show ?thesis using ok
    by (intro disjI2 exI [of _ "timeheap b"]) (auto simp: reserve_timer_def flag_simps timers_def)
next
  case True
  have h: "heap_ok (timeheap b)" using ok by (simp add: base_ok_def queues_ok_def)
  have eq: "1 + min_heap_size (timeheap b) = mh_n (timeheap b) + 1" by (simp add: min_heap_size_def)
  from reserve_spec [OF h keeps few] show ?thesis
  proof
    assume "min_heap_reserve (env_realloc env) (mh_n (timeheap b) + 1) (timeheap b) = (- 1, timeheap b)"
    then show ?thesis using True by (simp add: reserve_timer_def flag_simps eq)
  next
    assume "\<exists>s1. min_heap_reserve (env_realloc env) (mh_n (timeheap b) + 1) (timeheap b) = (0, s1) \<and>
       heap_ok s1 \<and> elems s1 = elems (timeheap b) \<and> mh_n s1 = mh_n (timeheap b) \<and>
       ev_timeout s1 = ev_timeout (timeheap b) \<and> min_heap_idx s1 = min_heap_idx (timeheap b) \<and>
       unat (mh_n (timeheap b)) + 1 \<le> length (mh_p s1)"
    then obtain h where r: "min_heap_reserve (env_realloc env) (mh_n (timeheap b) + 1) (timeheap b) = (0, h)"
      "heap_ok h" "elems h = elems (timeheap b)" "mh_n h = mh_n (timeheap b)"
      "ev_timeout h = ev_timeout (timeheap b)" "unat (mh_n (timeheap b)) + 1 \<le> length (mh_p h)" by blast
    have "base_ok (b\<lparr>timeheap := h\<rparr>)" using ok r(2,3) by (intro base_ok_heap) (simp_all add: timers_def)
    then show ?thesis using True r few
      by (intro disjI2 exI [of _ h]) (simp add: reserve_timer_def flag_simps eq timers_def timer_room_def)
  qed
qed

lemma add_watch_spec:
  assumes ok: "base_ok b" and base: "ev_has_base b ev"
  shows "\<exists>r b'. add_watch env ev b = (Inr r, b') \<and> base_ok b' \<and> r \<in> {- 1, 0} \<and>
    timeheap b' = timeheap b \<and> ev_has_base b' = ev_has_base b \<and> tv_cache b' = tv_cache b \<and>
    (\<forall>e i. i < 16 \<longrightarrow> \<not> (e = ev \<and> i = 1) \<longrightarrow> bit (ev_flags b' e) i = bit (ev_flags b e) i) \<and>
    (r = - 1 \<longrightarrow> ev_flags b' = ev_flags b) \<and>
    (r = 0 \<longrightarrow> rw b ev \<longrightarrow> \<not> bit (ev_flags b ev) 3 \<longrightarrow> bit (ev_flags b' ev) 1)"
proof (cases "rw b ev \<and> \<not> bit (ev_flags b ev) 1 \<and> \<not> bit (ev_flags b ev) 3")
  case False
  have "\<not> bit (ev_events b ev) 3" using ok base by (simp add: base_ok_def plain_events_def)
  with False have "add_watch env ev b = (Inr 0, b)"
    by (auto simp: add_watch_def flag_simps rw_def)
  with False ok show ?thesis by auto
next
  case True
  then have nm: "ev \<notin> set (eventqueue b)" using ok by (simp add: base_ok_def queues_ok_def flags_ok_def)
  have fd: "ev_fd b ev < 2 ^ 30" using ok base by (simp add: base_ok_def plain_events_def)
  obtain r b1 where b1: "evmap_io_add env (ev_fd b ev) ev b = (Inr r, b1)" "io_only b b1" "r \<in> {- 1, 0, 1}"
    "io_ok (if r = - 1 then set (eventqueue b) else insert ev (set (eventqueue b))) b1"
    using io_add_spec [OF _ nm _ fd, of env] ok True by (auto simp: base_ok_def)
  have q1: "queues_ok b1" using ok b1(2) by (simp add: base_ok_def queues_ok_io)
  note f1 = io_only_fields [OF b1(2)]
  have t: "test (ev_events b ev) (EV_READ OR EV_WRITE)" "test (ev_events b ev) (EV_READ OR EV_WRITE OR EV_SIGNAL)"
    "\<not> test (ev_flags b ev) (EVLIST_INSERTED OR EVLIST_ACTIVE)"
    using True by (auto simp: flag_simps rw_def)
  show ?thesis
  proof (cases "r = - 1")
    case fail: True
    then have "base_ok b1" using ok q1 b1(4) f1 by (simp add: base_ok_def)
    moreover have "add_watch env ev b = (Inr (- 1), b1)"
      using t b1(1) fail by (simp add: add_watch_def bindM_def seqM_def whenM_def changed_def)
    ultimately show ?thesis using f1 by auto
  next
    case False
    let ?b2 = "(relinked ev (ev_flags b1 ev OR EVLIST_INSERTED) 1 b1)\<lparr>eventqueue := eventqueue b1 @ [ev]\<rparr>"
    have "\<not> bit (ev_flags b1 ev) 1" "ev_has_base b1 ev" using True base f1 by simp_all
    note ins = insert_inserted_ok(1) [OF q1 this, of env] insert_inserted_ok(2) [OF q1 this]
    have fr: "frame b1 ?b2" by (simp add: frame_def) (simp add: relinked_def)
    have "base_ok ?b2"
      using ok ins(2) b1(4) False True f1 frame_io [OF fr] by (simp add: base_ok_def)
    moreover have "add_watch env ev b = (Inr 0, ?b2)"
      using t b1(1,3) False ins(1)
      by (auto simp: add_watch_def bindM_def seqM_def whenM_def changed_def)
    ultimately show ?thesis using f1 by (auto simp: flag_simps)
  qed
qed

lemma gettime_cong: "tv_cache b' = tv_cache b \<Longrightarrow> gettime env b' = gettime env b"
  by (simp add: gettime_def)

lemma remember_interval_ok:
  "\<exists>b'. remember_interval ev tv absolute b = (Inr (), b') \<and> base_ok b' = base_ok b \<and>
    timeheap b' = timeheap b \<and> ev_has_base b' = ev_has_base b \<and> ev_flags b' = ev_flags b \<and>
    tv_cache b' = tv_cache b \<and> ev_res b' = ev_res b"
proof -
  have "base_ok (b\<lparr>ev_io_timeout := t\<rparr>) = base_ok b" for t
  proof -
    have "ext (b\<lparr>ev_io_timeout := t\<rparr>) = ext b" by (simp add: ext_def fun_eq_iff)
    moreover have fr: "frame b (b\<lparr>ev_io_timeout := t\<rparr>)" by (simp add: frame_def)
    ultimately show ?thesis using frame_io [OF fr]
      by (simp add: base_ok_def queues_ok_def flags_ok_def events_ok_def counts_ok_def timers_def)
  qed
  then show ?thesis by (auto simp: remember_interval_def modM_def)
qed

lemma set_deadline_ok:
  assumes ok: "base_ok b" and off: "ev \<notin> set (timers b)" and now: "gettime env b = Some now"
  defines "due \<equiv> \<lambda>absolute tv. if absolute then tv else evutil_timeradd now tv"
  shows "\<exists>h. set_deadline env ev tv absolute b = (Inr (), b\<lparr>timeheap := h\<rparr>) \<and> base_ok (b\<lparr>timeheap := h\<rparr>) \<and>
    ev_timeout h = (ev_timeout (timeheap b))(ev := due absolute tv) \<and> elems h = timers b \<and>
    mh_n h = mh_n (timeheap b) \<and> mh_p h = mh_p (timeheap b)"
proof -
  let ?h = "\<lambda>t. (timeheap b)\<lparr>ev_timeout := (ev_timeout (timeheap b))(ev := t)\<rparr>"
  have "heap_ok (?h t)" for t
    using ok off by (intro heap_ok_deadline) (simp_all add: base_ok_def queues_ok_def timers_def)
  moreover have els: "elems (?h t) = timers b" for t by (simp add: elems_def timers_def)
  ultimately have "base_ok (b\<lparr>timeheap := ?h t\<rparr>)" for t using ok by (intro base_ok_heap) simp_all
  moreover have "n_common_timeouts b = 0" using ok by (simp add: base_ok_def queues_ok_def)
  ultimately show ?thesis
    using now els by (intro exI [of _ "?h (due absolute tv)"]) (simp add: set_deadline_def no_common due_def)
qed

text \<open>Giving an event a deadline; if it had one it is replaced.\<close>

lemma add_timeout_spec:
  assumes ok: "base_ok b" and base: "ev_has_base b ev" and now: "gettime env b = Some now"
    and room: "\<not> bit (ev_flags b ev) 0 \<longrightarrow> timer_room env b"
    and few: "unat (mh_n (timeheap b)) + 1 < 2 ^ 31"
  shows "\<exists>b'. add_timeout env ev tv absolute b = (Inr (), b') \<and> base_ok b' \<and>
    set (timers b') = insert ev (set (timers b)) \<and>
    ev_timeout (timeheap b') = (ev_timeout (timeheap b))(ev := if absolute then tv else evutil_timeradd now tv) \<and>
    bit (ev_flags b' ev) 1 = bit (ev_flags b ev) 1"
proof -
  obtain b1 where b1: "remember_interval ev tv absolute b = (Inr (), b1)" "base_ok b1"
    "timeheap b1 = timeheap b" "ev_has_base b1 = ev_has_base b" "ev_flags b1 = ev_flags b"
    "tv_cache b1 = tv_cache b" "ev_res b1 = ev_res b"
    using remember_interval_ok [of ev tv absolute b] ok by blast
  have q1: "queues_ok b1" using b1(2) by (simp add: base_ok_def)
  obtain b2 where b2: "remove_if ev EVLIST_TIMEOUT b1 = (Inr (), b2)" "queues_ok b2" "frame b1 b2"
    "\<not> bit (ev_flags b2 ev) 0" "others_same ev 0 b1 b2" "ev_timeout (timeheap b2) = ev_timeout (timeheap b1)"
    "set (timers b2) = set (timers b1) - {ev}" "eventqueue b2 = eventqueue b1"
    "if bit (ev_flags b1 ev) 0 then timeheap b2 = heap_out ev (timeheap b1) else b2 = b1"
    using remove_if_timeout [OF q1] by blast
  have ok2: "base_ok b2" using b1(2) b2(2,8) frame_io [OF b2(3)] by (simp add: base_ok_def)
  have room2: "timer_room env b2"
  proof (cases "bit (ev_flags b ev) 0")
    case True
    have h: "heap_ok (timeheap b)" and mem: "ev \<in> set (elems (timeheap b))"
      using ok True by (auto simp: base_ok_def queues_ok_def flags_ok_def timers_def)
    have out: "taken_out (timeheap b) ev (timeheap b2)"
      using heap_out_spec(2) [OF h mem] b2(9) b1(3,5) True by simp
    have nz: "mh_n (timeheap b) \<noteq> 0" using linked_position(1) [OF h mem] by auto
    have "unat (mh_n (timeheap b2)) = unat (mh_n (timeheap b)) - 1"
      using out nz by (simp add: taken_out_def, metis One_nat_def unat_minus_one)
    moreover have "0 < unat (mh_n (timeheap b))" using nz by (simp add: unat_gt_0)
    ultimately show ?thesis
      using out h few by (simp add: timer_room_def taken_out_def heap_ok_def) linarith
  next
    case False
    then show ?thesis using room b1(3,5) b2(9) by (simp add: timer_room_def)
  qed
  define step where "step = (\<lambda>b :: event_base. if test (ev_flags b ev) EVLIST_ACTIVE \<and> test (ev_res b ev) EV_TIMEOUT
      then seqM (abort_signal_loop ev) (event_queue_remove ev EVLIST_ACTIVE) b else (Inr (), b))"
  obtain b3 where b3: "step b2 = (Inr (), b3)" "base_ok b3" "frame b2 b3" "timeheap b3 = timeheap b2"
    "\<And>i. i < 16 \<Longrightarrow> i \<noteq> 3 \<Longrightarrow> bit (ev_flags b3 ev) i = bit (ev_flags b2 ev) i"
  proof (cases "bit (ev_flags b2 ev) 3 \<and> bit (ev_res b2 ev) 0")
    case True
    obtain c where c: "abort_signal_loop ev b2 = (Inr (), c)" "queues_ok c" "frame b2 c"
      "ev_flags c = ev_flags b2" "timeheap c = timeheap b2" "eventqueue c = eventqueue b2"
      using abort_signal_loop_frame [of ev b2] b2(2) by blast
    obtain d where d: "remove_if ev EVLIST_ACTIVE c = (Inr (), d)" "queues_ok d" "frame c d"
      "others_same ev 3 c d" "timeheap d = timeheap c" "eventqueue d = eventqueue c"
      using remove_if_active [OF c(2)] by blast
    note fr = frame_trans [OF c(3) d(3)]
    have "base_ok d" using ok2 d(2,6) c(6) frame_io [OF fr] by (simp add: base_ok_def)
    moreover have "step b2 = (Inr (), d)"
      using True c(1,4) d(1) by (simp add: step_def flag_simps seqM_def bindM_def remove_if_def)
    ultimately show ?thesis using that [of d] fr c(4,5) d(4,5) by (simp add: others_same_def)
  next
    case False
    then have "step b2 = (Inr (), b2)" by (auto simp: step_def flag_simps)
    with ok2 show ?thesis using that [of b2] by simp
  qed
  have off3: "ev \<notin> set (timers b3)" using b2(7) b3(4) by (simp add: timers_def)
  have "tv_cache b3 = tv_cache b" using b1(6) b2(3) b3(3) by (simp add: frame_def)
  then have now3: "gettime env b3 = Some now" using now gettime_cong by metis
  obtain h where h: "set_deadline env ev tv absolute b3 = (Inr (), b3\<lparr>timeheap := h\<rparr>)" "base_ok (b3\<lparr>timeheap := h\<rparr>)"
    "ev_timeout h = (ev_timeout (timeheap b3))(ev := if absolute then tv else evutil_timeradd now tv)"
    "elems h = timers b3" "mh_n h = mh_n (timeheap b3)" "mh_p h = mh_p (timeheap b3)"
    using set_deadline_ok [OF b3(2) off3 now3] by blast
  let ?b4 = "b3\<lparr>timeheap := h\<rparr>"
  have off4: "\<not> bit (ev_flags ?b4 ev) 0" using b2(4) b3(5) by simp
  have base4: "ev_has_base ?b4 ev" using base b1(4) b2(3) b3(3) by (simp add: frame_def)
  have room4: "timer_room env ?b4" using room2 h(5,6) b3(4) by (simp add: timer_room_def)
  have q4: "queues_ok ?b4" using h(2) by (simp add: base_ok_def)
  obtain k where k: "event_queue_insert env ev EVLIST_TIMEOUT ?b4 =
      (Inr (), (relinked ev (ev_flags ?b4 ev OR EVLIST_TIMEOUT) 1 ?b4)\<lparr>timeheap := k\<rparr>)"
    "queues_ok ((relinked ev (ev_flags ?b4 ev OR EVLIST_TIMEOUT) 1 ?b4)\<lparr>timeheap := k\<rparr>)"
    "ev_timeout k = ev_timeout (timeheap ?b4)" "set (elems k) = insert ev (set (timers ?b4))"
    using insert_timeout_ok [OF q4 off4 base4 room4] by blast
  let ?b5 = "(relinked ev (ev_flags ?b4 ev OR EVLIST_TIMEOUT) 1 ?b4)\<lparr>timeheap := k\<rparr>"
  have fr: "frame ?b4 ?b5" by (simp add: frame_def) (simp add: relinked_def)
  have "base_ok ?b5" using h(2) k(2) frame_io [OF fr] by (simp add: base_ok_def)
  moreover have "add_timeout env ev tv absolute b = (Inr (), ?b5)"
    unfolding add_timeout_def step_def [symmetric]
    using b1(1) b2(1) b3(1) h(1) k(1) by (simp add: seqM_def bindM_def)
  moreover have "set (elems k) = insert ev (set (timers b))"
    using k(4) h(4) b3(4) b2(7) b1(3) by (auto simp: timers_def)
  moreover have "ev_timeout k = (ev_timeout (timeheap b))(ev := if absolute then tv else evutil_timeradd now tv)"
    using k(3) h(3) b3(4) b2(6) b1(3) by simp
  moreover have "bit (ev_flags ?b5 ev) 1 = bit (ev_flags b ev) 1"
    using b3(5) [of 1] b2(5) b1(5) by (simp add: others_same_def flag_simps)
  ultimately show ?thesis by (intro exI [of _ ?b5]) simp
qed

text \<open>
  The environment an operation runs in: memory requests are answered as the C standard says and
  the clock works. Whether the backend refuses a deletion (as epoll does when \<^verbatim>\<open>epoll_ctl\<close> fails for want
  of memory) is a condition of its own, since the code does not survive it.
\<close>

definition env_works :: "ev_env \<Rightarrow> bool" where
  "env_works env \<longleftrightarrow> realloc_keeps (env_realloc env) \<and> clock env \<noteq> None"

definition refuses_no_deletion :: "ev_env \<Rightarrow> bool" where
  "refuses_no_deletion env \<longleftrightarrow> (\<forall>fd old ev. be_del env fd old ev \<noteq> - 1)"

definition env_ok :: "ev_env \<Rightarrow> bool" where
  "env_ok env \<longleftrightarrow> env_works env \<and> refuses_no_deletion env"

lemma env_okD: "env_ok env \<Longrightarrow> env_works env" "env_ok env \<Longrightarrow> be_del env fd old ev \<noteq> - 1"
  by (simp_all add: env_ok_def refuses_no_deletion_def)

lemma gettime_Some: "env_works env \<Longrightarrow> \<exists>now. gettime env b = Some now"
  by (auto simp: env_works_def gettime_def)

lemma add_spec:
  assumes ok: "base_ok b" and base: "ev_has_base b ev" and env: "env_works env"
    and few: "unat (mh_n (timeheap b)) + 1 < 2 ^ 31" and now: "gettime env b = Some now"
  shows "\<exists>r b'. event_add_internal env ev tv absolute b = (Inr r, b') \<and> base_ok b' \<and> r \<in> {- 1, 0} \<and>
    (r = - 1 \<longrightarrow> ev_flags b' = ev_flags b \<and> ev_timeout (timeheap b') = ev_timeout (timeheap b)) \<and>
    (r = 0 \<longrightarrow>
       (rw b ev \<and> \<not> bit (ev_flags b ev) 3 \<longrightarrow> ev \<in> set (eventqueue b')) \<and>
       (case tv of None \<Rightarrow> timers b' = timers b \<or> set (timers b') = set (timers b)
        | Some t \<Rightarrow> set (timers b') = insert ev (set (timers b)) \<and>
            ev_timeout (timeheap b') =
              (ev_timeout (timeheap b))(ev := if absolute then t else evutil_timeradd now t)))"
proof -
  have known: "\<not> test (ev_flags b ev) (NOT EVLIST_ALL)"
    using ok base by (simp add: base_ok_def queues_ok_def events_ok_def flags_known_def)
  have keeps: "realloc_keeps (env_realloc env)" using env by (simp add: env_works_def)
  consider (short) "reserve_timer env ev tv b = (Inr (- 1), b)"
    | (room) h where "reserve_timer env ev tv b = (Inr 0, b\<lparr>timeheap := h\<rparr>)" "base_ok (b\<lparr>timeheap := h\<rparr>)"
      "ev_timeout h = ev_timeout (timeheap b)" "set (elems h) = set (timers b)" "mh_n h = mh_n (timeheap b)"
      "tv \<noteq> None \<and> \<not> bit (ev_flags b ev) 0 \<longrightarrow> timer_room env (b\<lparr>timeheap := h\<rparr>)"
    using reserve_timer_spec [OF ok keeps few, of ev tv] by blast
  then show ?thesis
  proof cases
    case short
    then show ?thesis using known ok by (simp add: event_add_internal_def bindM_def)
  next
    case room
    let ?b1 = "b\<lparr>timeheap := h\<rparr>"
    have "ev_has_base ?b1 ev" using base by simp
    then obtain r b2 where b2: "add_watch env ev ?b1 = (Inr r, b2)" "base_ok b2" "r \<in> {- 1, 0}"
      "timeheap b2 = timeheap ?b1" "ev_has_base b2 = ev_has_base ?b1" "tv_cache b2 = tv_cache ?b1"
      "\<And>e i. i < 16 \<Longrightarrow> \<not> (e = ev \<and> i = 1) \<Longrightarrow> bit (ev_flags b2 e) i = bit (ev_flags ?b1 e) i"
      "r = - 1 \<Longrightarrow> ev_flags b2 = ev_flags ?b1"
      "r = 0 \<Longrightarrow> rw ?b1 ev \<Longrightarrow> \<not> bit (ev_flags ?b1 ev) 3 \<Longrightarrow> bit (ev_flags b2 ev) 1"
      using add_watch_spec [OF room(2), of ev env] by blast
    have on: "ev \<in> set (eventqueue c)" if "base_ok c" "bit (ev_flags c ev) 1" for c
      using that by (simp add: base_ok_def queues_ok_def flags_ok_def)
    have rw1: "rw ?b1 ev = rw b ev" by (simp add: rw_def)
    show ?thesis
    proof (cases "r = - 1 \<or> tv = None")
      case True
      then have "event_add_internal env ev tv absolute b = (Inr r, b2)"
        using known room(1) b2(1) by (auto simp: event_add_internal_def bindM_def split: option.splits)
      then show ?thesis
        using True b2(2,3,4) b2(8,9) room(3,4) rw1 on [OF b2(2)] by (auto simp: timers_def)
    next
      case False
      then obtain t where t: "tv = Some t" and r0: "r = 0" using b2(3) by auto
      have "gettime env b2 = Some now" using now b2(6) gettime_cong [of b2 b env] by simp
      moreover have "\<not> bit (ev_flags b2 ev) 0 \<longrightarrow> timer_room env b2"
        using room(6) b2(4) b2(7) [of 0 ev] t by (simp add: timer_room_def)
      moreover have "unat (mh_n (timeheap b2)) + 1 < 2 ^ 31" using few room(5) b2(4) by simp
      ultimately obtain b3 where b3: "add_timeout env ev t absolute b2 = (Inr (), b3)" "base_ok b3"
        "set (timers b3) = insert ev (set (timers b2))"
        "ev_timeout (timeheap b3) = (ev_timeout (timeheap b2))(ev := if absolute then t else evutil_timeradd now t)"
        "bit (ev_flags b3 ev) 1 = bit (ev_flags b2 ev) 1"
        using add_timeout_spec [OF b2(2), of ev env now t absolute] base b2(5) by auto
      have "event_add_internal env ev tv absolute b = (Inr 0, b3)"
        using known room(1) b2(1) b3(1) t r0 by (simp add: event_add_internal_def bindM_def seqM_def)
      then show ?thesis
        using b3 t r0 b2(4,9) room(3,4) rw1 on [OF b3(2)] by (auto simp: timers_def)
    qed
  qed
qed

section \<open>New events\<close>

definition idle :: "event \<Rightarrow> event_base \<Rightarrow> bool" where
  "idle ev b \<longleftrightarrow> \<not> bit (ev_flags b ev) 0 \<and> \<not> bit (ev_flags b ev) 1 \<and> \<not> bit (ev_flags b ev) 3"

lemma cnt_cong: "(\<And>x. x \<in> set xs \<Longrightarrow> f x = g x) \<Longrightarrow> cnt f xs = cnt g xs"
  by (induction xs) auto

lemma init_bits: "\<not> bit EVLIST_INIT 0" "\<not> bit EVLIST_INIT (Suc 0)" "\<not> bit EVLIST_INIT 3" "flags_known EVLIST_INIT"
  by (simp_all add: EVLIST_INIT_def flags_known_def test_def EVLIST_ALL_def bit_numeral_rec)

lemma assign_spec:
  assumes ok: "base_ok b" and idle: "idle ev b" and sig: "\<not> test events EV_SIGNAL" and fd: "fd < 2 ^ 30"
  shows "\<exists>b'. event_assign ev fd events b = (Inr 0, b') \<and> base_ok b' \<and> idle ev b' \<and>
    ev_has_base b' ev \<and> ev_events b' ev = events \<and> ev_fd b' ev = fd \<and> timers b' = timers b \<and>
    eventqueue b' = eventqueue b \<and> activequeues b' = activequeues b"
proof -
  define b1 where "b1 = snd (event_assign ev fd events b)"
  have run: "event_assign ev fd events b = (Inr 0, b1)"
    using sig by (simp add: b1_def event_assign_def Let_def)
  have off: "ev \<notin> set (timers b)" "ev \<notin> set (eventqueue b)"
    "\<And>i. i < length (activequeues b) \<Longrightarrow> ev \<notin> set (activequeues b ! i)"
    using ok idle by (auto simp: base_ok_def queues_ok_def flags_ok_def idle_def)
  have f: "ev_has_base b1 = (ev_has_base b)(ev := True)" "ev_fd b1 = (ev_fd b)(ev := fd)"
    "ev_events b1 = (ev_events b)(ev := events)" "ev_flags b1 = (ev_flags b)(ev := EVLIST_INIT)"
    "timeheap b1 = min_heap_elem_init ev (timeheap b)" "eventqueue b1 = eventqueue b"
    "activequeues b1 = activequeues b" "ev_pri b1 = (ev_pri b)(ev := length (activequeues b) div 2)"
    "event_count b1 = event_count b" "event_count_active b1 = event_count_active b"
    "n_common_timeouts b1 = n_common_timeouts b" "io b1 = io b" "backend_log b1 = backend_log b"
    using sig by (simp_all add: b1_def event_assign_def Let_def)
  have h: "heap_ok (timeheap b)" using ok by (simp add: base_ok_def queues_ok_def)
  note init = heap_ok_elem_init [OF h off(1) [unfolded timers_def]]
  have t: "timers b1 = timers b" by (simp add: timers_def f(5) init(2))
  have ext: "ext b1 x = ext b x" if "x \<noteq> ev" for x using that by (simp add: ext_def f(4))
  have "flags_ok b1"
    using ok off idle by (auto simp: base_ok_def queues_ok_def flags_ok_def t f init_bits idle_def)
  moreover have "events_ok b1"
    using ok by (auto simp: base_ok_def queues_ok_def events_ok_def f init_bits)
  moreover have "counts_ok b1"
  proof -
    have c: "cnt (ext b1) xs = cnt (ext b) xs" if "ev \<notin> set xs" for xs
      using that by (intro cnt_cong ext) auto
    have "map (cnt (ext b1)) (activequeues b) = map (cnt (ext b)) (activequeues b)"
      using off(3) c by (auto simp: in_set_conv_nth)
    from arg_cong [OF this, of sum_list]
    have "sum_list (map (cnt (ext b1)) (activequeues b)) = sum_list (map (cnt (ext b)) (activequeues b))" .
    then show ?thesis using ok c off(1,2) by (simp add: base_ok_def queues_ok_def counts_ok_def t f)
  qed
  ultimately have q: "queues_ok b1" using ok init(1) by (simp add: base_ok_def queues_ok_def f)
  have rw: "rw b1 x = rw b x" if "x \<noteq> ev" for x using that by (simp add: rw_def f(3))
  have "io_ok (set (eventqueue b)) b1"
    unfolding io_ok_def
  proof
    fix g
    let ?c = "io_ctx b g" and ?m = "interest (backend_log b) (int g)"
    have sl: "slot_ok b (set (eventqueue b)) g ?c ?m" using ok by (simp add: base_ok_def io_ok_def)
    have "{e \<in> set (eventqueue b). rw b1 e \<and> ev_fd b1 e = int g} =
        {e \<in> set (eventqueue b). rw b e \<and> ev_fd b e = int g}"
      using off(2) rw by (auto simp: f(2))
    moreover have "users b1 k (io_events ?c) = users b k (io_events ?c)" for k
    proof -
      have "ev \<notin> set (io_events ?c)" using sl off(2) by (simp add: slot_ok_def)
      then show ?thesis unfolding users_def by (intro arg_cong [where f = length] filter_cong) (auto simp: f(3))
    qed
    moreover have "io_ctx b1 g = ?c" by (simp add: io_ctx_def f)
    ultimately show "slot_ok b1 (set (eventqueue b)) g (io_ctx b1 g) (interest (backend_log b1) (int g))"
      using sl by (simp add: slot_ok_def f(13))
  qed
  moreover have "plain_events b1" using ok sig fd by (auto simp: base_ok_def plain_events_def f flag_simps)
  moreover have "rw b1 e" if "e \<in> set (eventqueue b)" for e
  proof -
    have "rw b1 e = rw b e" using off(2) that by (intro rw) auto
    then show ?thesis using ok that by (simp add: base_ok_def)
  qed
  ultimately have "base_ok b1" using ok q by (simp add: base_ok_def f)
  then show ?thesis using run by (auto simp: f t idle_def init_bits)
qed

lemma priority_set_spec:
  assumes ok: "base_ok b" and base: "ev_has_base b ev"
  shows "\<exists>r b'. event_priority_set ev pri b = (Inr r, b') \<and> base_ok b' \<and>
    (r = 0 \<longrightarrow> ev_pri b' = (ev_pri b)(ev := nat pri)) \<and> (r \<noteq> 0 \<longrightarrow> b' = b)"
proof (cases "bit (ev_flags b ev) 3 \<or> pri < 0 \<or> pri \<ge> int (length (activequeues b))")
  case True
  then show ?thesis using assms by (auto simp: event_priority_set_def flag_simps)
next
  case False
  let ?b = "b\<lparr>ev_pri := (ev_pri b)(ev := nat pri)\<rparr>"
  have ext: "ext ?b = ext b" by (simp add: ext_def fun_eq_iff)
  have t: "timers ?b = timers b" by (simp add: timers_def)
  have "flags_ok ?b" using ok False by (auto simp: base_ok_def queues_ok_def flags_ok_def t)
  moreover have "events_ok ?b" using ok False by (auto simp: base_ok_def queues_ok_def events_ok_def)
  moreover have "counts_ok ?b" using ok by (simp add: base_ok_def queues_ok_def counts_ok_def ext t)
  ultimately have q: "queues_ok ?b" using ok by (simp add: base_ok_def queues_ok_def)
  have "io_ok (set (eventqueue b)) ?b \<longleftrightarrow> io_ok (set (eventqueue b)) b"
    by (simp add: io_ok_def io_ctx_def slot_ok_def users_def rw_def)
  moreover have "plain_events ?b = plain_events b" "rw ?b = rw b" by (simp_all add: plain_events_def rw_def fun_eq_iff)
  ultimately have "base_ok ?b" using ok q by (simp add: base_ok_def)
  then show ?thesis using False base by (simp add: event_priority_set_def flag_simps)
qed

lemma sum_lengths_zero: "sum_list (map (int \<circ> length) qs) = 0 \<Longrightarrow> q \<in> set qs \<Longrightarrow> q = []"
proof (induction qs)
  case (Cons p qs)
  define k where "k = sum_list (map (int \<circ> length) qs)"
  have "0 \<le> k" unfolding k_def by (rule sum_list_nonneg) auto
  moreover have "int (length p) + k = 0" using Cons.prems(1) by (simp add: k_def o_def)
  ultimately have "length p = 0" "k = 0" by linarith+
  then have "p = []" "sum_list (map (int \<circ> length) qs) = 0" by (simp_all add: k_def)
  then show ?case using Cons by auto
qed simp

lemma priority_init_spec:
  assumes ok: "base_ok b" and pri: "\<And>e. ev_has_base b e \<Longrightarrow> ev_pri b e < nat n" and mem: "mem_ok env (nat n * 16)"
  shows "\<exists>r b'. event_base_priority_init env d n b = (Inr r, b') \<and> base_ok b' \<and>
    (r = 0 \<longrightarrow> length (activequeues b') = nat n) \<and> (r \<noteq> 0 \<longrightarrow> b' = b)"
proof (cases "event_count_active b + int d \<noteq> 0 \<or> n < 1 \<or> n \<ge> EVENT_MAX_PRIORITIES \<or> n = int (length (activequeues b))")
  case True
  then show ?thesis using ok by (auto simp: event_base_priority_init_def)
next
  case False
  let ?b = "b\<lparr>activequeues := replicate (nat n) []\<rparr>"
  have "0 \<le> sum_list (map (int \<circ> length) (activequeues b))" by (rule sum_list_nonneg) auto
  then have none: "event_count_active b = 0" and "sum_list (map (int \<circ> length) (activequeues b)) = 0"
    using ok False by (auto simp: base_ok_def queues_ok_def counts_ok_def)
  then have empty: "q = []" if "q \<in> set (activequeues b)" for q using that sum_lengths_zero by blast
  have off: "\<not> bit (ev_flags b e) 3" for e
  proof
    assume on: "bit (ev_flags b e) 3"
    then have "ev_has_base b e" using ok by (auto simp: base_ok_def queues_ok_def events_ok_def)
    then have i: "ev_pri b e < length (activequeues b)" using ok by (auto simp: base_ok_def queues_ok_def events_ok_def)
    then have "e \<in> set (activequeues b ! ev_pri b e)" using ok on by (auto simp: base_ok_def queues_ok_def flags_ok_def)
    then show False using empty i nth_mem by fastforce
  qed
  have c: "sum_list (map (cnt f) (activequeues b)) = 0" for f
  proof -
    have z: "sum_list (map (cnt f) qs) = 0" if "list_all (\<lambda>q. q = []) qs" for qs :: "event list list"
      using that by (induction qs) simp_all
    have "list_all (\<lambda>q. q = []) (activequeues b)" using empty by (simp add: list.pred_set)
    then show ?thesis by (rule z)
  qed
  have r: "sum_list (map (cnt f) (replicate k [])) = 0" for f k by (induction k) simp_all
  have "flags_ok ?b" using ok off by (auto simp: base_ok_def queues_ok_def flags_ok_def timers_def)
  moreover have "events_ok ?b" using ok pri by (auto simp: base_ok_def queues_ok_def events_ok_def)
  moreover have "counts_ok ?b"
    using ok none c r by (simp add: base_ok_def queues_ok_def counts_ok_def timers_def sum_list_replicate)
  ultimately have q: "queues_ok ?b" using ok by (simp add: base_ok_def queues_ok_def list_all_length)
  have "io_ok (set (eventqueue b)) ?b \<longleftrightarrow> io_ok (set (eventqueue b)) b"
    by (simp add: io_ok_def io_ctx_def slot_ok_def users_def rw_def)
  moreover have "plain_events ?b = plain_events b" "rw ?b = rw b" by (simp_all add: plain_events_def rw_def fun_eq_iff)
  moreover have "replicate (nat n) ([] :: event list) \<noteq> []" using False by simp
  ultimately have "base_ok ?b" using ok q by (simp add: base_ok_def)
  then show ?thesis using False mem by (simp add: event_base_priority_init_def)
qed

lemma new_base_ok: "base_ok new_base"
proof -
  have "io_ok {} new_base"
    by (auto simp: io_ok_def new_base_def io_ctx_def slot_ok_def evmap_io_init_def users_def)
  then show ?thesis
    by (simp add: base_ok_def queues_ok_def flags_ok_def events_ok_def counts_ok_def plain_events_def
        heap_ok_def elems_def ordered_def timers_def new_base_def)
qed

section \<open>Every reachable base\<close>

text \<open>
  What the threads of the server do with a base: they choose the number of priorities, set up
  events that are on no queue, give them a priority, add, delete and activate events they have
  set up, and run the loop over the deadlines. Each call has an environment of its own.
  Sizes stay below what the counters of the code can hold, the backend refuses no deletion, and there
  is memory for the priority queues.
\<close>

inductive base_states :: "event_base \<Rightarrow> bool" where
  new: "base_states new_base"
| assign: "base_states b \<Longrightarrow> idle ev b \<Longrightarrow> \<not> test events EV_SIGNAL \<Longrightarrow> fd < 2 ^ 30 \<Longrightarrow>
    event_assign ev fd events b = (r, b') \<Longrightarrow> base_states b'"
| add: "base_states b \<Longrightarrow> env_works env \<Longrightarrow> ev_has_base b ev \<Longrightarrow> unat (mh_n (timeheap b)) + 1 < 2 ^ 31 \<Longrightarrow>
    event_add_internal env ev tv absolute b = (r, b') \<Longrightarrow> base_states b'"
| del: "base_states b \<Longrightarrow> env_works env \<Longrightarrow> ev_has_base b ev \<Longrightarrow> event_del_internal env ev b = (r, b') \<Longrightarrow>
    r \<noteq> Inr (- 1) \<Longrightarrow> base_states b'"
| active: "base_states b \<Longrightarrow> env_works env \<Longrightarrow> ev_has_base b ev \<Longrightarrow>
    event_active_nolock env ev res ncalls b = (u, b') \<Longrightarrow> base_states b'"
| process: "base_states b \<Longrightarrow> env_ok env \<Longrightarrow> timeout_process env b = Some (u, b') \<Longrightarrow> base_states b'"
| priority: "base_states b \<Longrightarrow> ev_has_base b ev \<Longrightarrow> event_priority_set ev pri b = (r, b') \<Longrightarrow>
    base_states b'"
| priorities: "base_states b \<Longrightarrow> (\<forall>e. ev_has_base b e \<longrightarrow> ev_pri b e < nat n) \<Longrightarrow> mem_ok env (nat n * 16) \<Longrightarrow>
    event_base_priority_init env d n b = (r, b') \<Longrightarrow> base_states b'"

lemma process_spec:
  assumes ok: "base_ok b" and env: "env_ok env" and now: "gettime env b = Some now"
  shows "\<exists>es b'. timeout_process env b = Some (Inr (), b') \<and> base_ok b' \<and> served es b b' \<and>
    set es = {e \<in> set (timers b). ev_timeout (timeheap b) e \<le> now} \<and>
    sorted (map (ev_timeout (timeheap b)) es) \<and> distinct es \<and> set (timers b') = set (timers b) - set es"
proof -
  have h: "heap_ok (timeheap b)" using ok by (simp add: base_ok_def queues_ok_def)
  show ?thesis
  proof (cases "min_heap_empty (timeheap b)")
    case True
    then have "timers b = []" by (simp add: min_heap_empty_def timers_def elems_def)
    with True ok show ?thesis
      by (intro exI [of _ "[]"] exI [of _ b]) (simp add: timeout_process_def)
  next
    case False
    have del: "\<And>f o' r. be_del env f o' r \<noteq> - 1" using env by (rule env_okD)
    obtain es b' where r: "timeout_loop env now b = Some (Inr (), b')" "base_ok b'" "served es b b'"
      "th.drains es (timeheap b)" "\<forall>e\<in>set es. ev_timeout (timeheap b) e \<le> now"
      "\<forall>e. heap_top (timeheap b') = Some e \<longrightarrow> now < ev_timeout (timeheap b) e"
      using timeout_loop_spec [OF ok del] by blast
    have "timeout_process env b = Some (Inr (), b')"
      using False now r(1) by (simp add: timeout_process_def)
    moreover have "timeheap b' = fold heap_out es (timeheap b)" using r(3) by (simp add: served_def)
    moreover note th.drains_ordered [OF h r(4)] th.drains_due [OF h r(4,5)]
    ultimately show ?thesis using r(2,3,6)
      by (intro exI [of _ es] exI [of _ b']) (simp add: timers_def)
  qed
qed

lemma base_states_ok:
  assumes "base_states b"
  shows "base_ok b"
  using assms
proof induction
  case new
  show ?case by (rule new_base_ok)
next
  case (assign b ev events fd r b')
  then show ?case using assign_spec [of b ev events fd] by auto
next
  case (add b env ev tv absolute r b')
  obtain now where "gettime env b = Some now" using gettime_Some [OF add.hyps(2)] by blast
  from add_spec [OF add.IH add.hyps(3,2,4) this, of tv absolute] show ?case
    using add.hyps(5) by auto
next
  case (del b env ev r b')
  from del_cases [OF del.IH del.hyps(3), of env] show ?case using del.hyps(4,5) by auto
next
  case (active b env ev res ncalls u b')
  then show ?case using active_spec [of b ev env res ncalls] by auto
next
  case (process b env u b')
  obtain now where "gettime env b = Some now" using gettime_Some [OF env_okD(1) [OF process.hyps(2)]] by blast
  from process_spec [OF process.IH process.hyps(2) this] show ?case using process.hyps(3) by auto
next
  case (priority b ev pri r b')
  from priority_set_spec [OF priority.IH priority.hyps(2), of pri] show ?case using priority.hyps(3) by auto
next
  case (priorities b n env d r b')
  from priority_init_spec [OF priorities.IH _ priorities.hyps(3), of d] show ?case
    using priorities.hyps(2,4) by auto
qed

lemma base_on_active:
  assumes "base_ok b" and "ev_has_base b ev"
  shows "ev_pri b ev < length (activequeues b)"
    "ev \<in> set (activequeues b ! ev_pri b ev) \<longleftrightarrow> bit (ev_flags b ev) 3"
  using assms by (auto simp: base_ok_def queues_ok_def events_ok_def flags_ok_def)

text \<open>C19:
  In every state that calls of the program can bring an event base to, as long as the backend has
  refused no deletion and there was memory for the priority queues, no operation fails an assertion,
  reaches a fatal error, corrupts a list or loops for ever. Adding reports success or
  failure, and a failure leaves all flags and deadlines as they were. A deleted event is on
  no queue; the deletion returns 0, or -1 if the backend refuses it, and then the map still lists the event.
  An activated event is on the list of its priority. Serving the deadlines ends, if no deletion is refused meanwhile.
  (The states inside the dispatch loop are those of \<open>dispatch_loop_safe\<close>.)
\<close>

theorem event_base_safe:
  assumes "env_works env" and "base_states b" and "ev_has_base b ev"
  shows "(unat (mh_n (timeheap b)) + 1 < 2 ^ 31 \<longrightarrow>
      (\<exists>r b'. event_add_internal env ev tv absolute b = (Inr r, b') \<and> (r = 0 \<or> r = - 1) \<and>
         (r = - 1 \<longrightarrow> ev_flags b' = ev_flags b \<and>
            ev_timeout (timeheap b') = ev_timeout (timeheap b)))) \<and>
    (\<exists>r b'. event_del_internal env ev b = (Inr r, b') \<and> ev \<notin> set (timers b') \<and>
       ev \<notin> set (eventqueue b') \<and> (\<forall>q\<in>set (activequeues b'). ev \<notin> set q) \<and>
       (r = 0 \<or> r = - 1 \<and> \<not> refuses_no_deletion env \<and> io b' = io b)) \<and>
    (\<exists>b'. event_active_nolock env ev res ncalls b = (Inr (), b') \<and>
       ev \<in> set (activequeues b' ! ev_pri b ev)) \<and>
    (refuses_no_deletion env \<longrightarrow> (\<exists>b'. timeout_process env b = Some (Inr (), b')))"
proof (intro conjI impI)
  note ok = base_states_ok [OF assms(2)]
  obtain now where now: "gettime env b = Some now" using gettime_Some [OF assms(1)] by blast
  {
    assume few: "unat (mh_n (timeheap b)) + 1 < 2 ^ 31"
    show "\<exists>r b'. event_add_internal env ev tv absolute b = (Inr r, b') \<and> (r = 0 \<or> r = - 1) \<and>
         (r = - 1 \<longrightarrow> ev_flags b' = ev_flags b \<and> ev_timeout (timeheap b') = ev_timeout (timeheap b))"
      using add_spec [OF ok assms(3,1) few now, of tv absolute] by blast
  }
  from del_cases [OF ok assms(3), of env] obtain r b' where
    d: "event_del_internal env ev b = (Inr r, b')" "queues_ok b'" "unlinked ev b b'"
    "r = 0 \<or> r = - 1 \<and> \<not> refuses_no_deletion env \<and> io b' = io b"
    unfolding refuses_no_deletion_def by blast
  have "ev \<notin> set q" if q: "q \<in> set (activequeues b')" for q
  proof -
    obtain i where "i < length (activequeues b')" "q = activequeues b' ! i"
      using q by (auto simp: in_set_conv_nth)
    then show ?thesis using d(2,3) by (simp add: queues_ok_def flags_ok_def unlinked_def)
  qed
  then show "\<exists>r b'. event_del_internal env ev b = (Inr r, b') \<and> ev \<notin> set (timers b') \<and>
       ev \<notin> set (eventqueue b') \<and> (\<forall>q\<in>set (activequeues b'). ev \<notin> set q) \<and>
       (r = 0 \<or> r = - 1 \<and> \<not> refuses_no_deletion env \<and> io b' = io b)"
    using d by (intro exI [of _ r] exI [of _ b']) (simp add: queues_ok_def flags_ok_def unlinked_def)
  show "\<exists>b'. event_active_nolock env ev res ncalls b = (Inr (), b') \<and>
       ev \<in> set (activequeues b' ! ev_pri b ev)"
    using active_spec [OF ok assms(3), of env res ncalls] assms(3) base_on_active(2) [of _ ev]
    by (force simp: activated_def)
  show "\<exists>b'. timeout_process env b = Some (Inr (), b')" if "refuses_no_deletion env"
    using process_spec [OF ok _ now] assms(1) that by (auto simp: env_ok_def)
qed

lemma base_watches:
  assumes "base_ok b"
  shows "(test (interest (backend_log b) (int fd)) EV_READ \<longleftrightarrow>
      (\<exists>e\<in>set (eventqueue b). ev_fd b e = int fd \<and> test (ev_events b e) EV_READ)) \<and>
    (test (interest (backend_log b) (int fd)) EV_WRITE \<longleftrightarrow>
      (\<exists>e\<in>set (eventqueue b). ev_fd b e = int fd \<and> test (ev_events b e) EV_WRITE))"
proof -
  let ?c = "io_ctx b fd"
  have sl: "slot_ok b (set (eventqueue b)) fd ?c (interest (backend_log b) (int fd))"
    using assms by (simp add: base_ok_def io_ok_def)
  have some: "users b k (io_events ?c) \<noteq> 0 \<longleftrightarrow>
      (\<exists>e\<in>set (eventqueue b). ev_fd b e = int fd \<and> bit (ev_events b e) k)" if "k = 1 \<or> k = 2" for k
  proof -
    have "users b k (io_events ?c) \<noteq> 0 \<longleftrightarrow> (\<exists>e\<in>set (io_events ?c). bit (ev_events b e) k)"
      by (auto simp: users_def filter_empty_conv)
    then show ?thesis using sl that by (auto simp: slot_ok_def rw_def)
  qed
  then show ?thesis
    using sl some [of 1] some [of 2] by (auto simp: slot_ok_def flag_simps unat_eq_0 simp flip: unat_eq_0)
qed

text \<open>C25:
  As long as the backend refuses no deletion, it is asked to watch a descriptor for reading (writing) exactly while some
  added event wants to read from (write to) it: the counters of the map never lose or invent
  a watcher, whatever the order of additions, refused additions and deletions.
\<close>

theorem reachable_base_watches:
  assumes "base_states b"
  shows "(test (interest (backend_log b) (int fd)) EV_READ \<longleftrightarrow>
      (\<exists>e\<in>set (eventqueue b). ev_fd b e = int fd \<and> test (ev_events b e) EV_READ)) \<and>
    (test (interest (backend_log b) (int fd)) EV_WRITE \<longleftrightarrow>
      (\<exists>e\<in>set (eventqueue b). ev_fd b e = int fd \<and> test (ev_events b e) EV_WRITE))"
  by (rule base_watches [OF base_states_ok [OF assms]])

text \<open>Serving the deadlines ends and activates exactly the events whose deadline has been
  reached: they leave the timer queue in the order of their deadlines and are appended, in
  that order, to the active lists of their priorities; no other event moves.
\<close>

theorem timeouts_fire:
  assumes "env_ok env" and "base_states b" and "gettime env b = Some now"
  shows "\<exists>es b'. timeout_process env b = Some (Inr (), b') \<and>
    set es = {e \<in> set (timers b). ev_timeout (timeheap b) e \<le> now} \<and> distinct es \<and>
    sorted (map (ev_timeout (timeheap b)) es) \<and> set (timers b') = set (timers b) - set es \<and>
    (\<forall>i<length (activequeues b). activequeues b' ! i =
       filter (\<lambda>x. x \<notin> set es) (activequeues b ! i) @ filter (\<lambda>x. ev_pri b x = i) es)"
proof -
  obtain es b' where "timeout_process env b = Some (Inr (), b')" "served es b b'"
    "set es = {e \<in> set (timers b). ev_timeout (timeheap b) e \<le> now}"
    "sorted (map (ev_timeout (timeheap b)) es)" "distinct es" "set (timers b') = set (timers b) - set es"
    using process_spec [OF base_states_ok [OF assms(2)] assms(1,3)] by blast
  then show ?thesis by (intro exI [of _ es] exI [of _ b']) (simp add: served_def)
qed

text \<open>A small environment, a descriptor event and a timer that is due at once.\<close>

definition plain_env :: ev_env where
  "plain_env = \<lparr>env_realloc = plain_realloc, mem_ok = (\<lambda>_. True), be_add = (\<lambda>_ _ _. 0),
     be_del = (\<lambda>_ _ _. 0), clock = Some (Timeval 10 0)\<rparr>"

lemma plain_env_ok: "env_ok plain_env"
  by (simp add: env_ok_def env_works_def refuses_no_deletion_def plain_env_def plain_realloc_keeps)

definition base_with_reader :: event_base where
  "base_with_reader = snd (event_add_internal plain_env 1 None False (snd (event_assign 1 5 EV_READ new_base)))"

definition base_with_timer :: event_base where
  "base_with_timer = snd (event_add_internal plain_env 2 (Some (Timeval 0 0)) False
     (snd (event_assign 2 (- 1) EV_PERSIST new_base)))"

lemma idle_new: "idle e new_base"
  by (simp add: idle_def new_base_def)

lemma base_with_reader_reachable:
  "base_states base_with_reader" "ev_has_base base_with_reader 1" "eventqueue base_with_reader = [1]"
  "ev_events base_with_reader 1 = EV_READ" "ev_fd base_with_reader 1 = 5"
  "backend_log base_with_reader = [(True, 5, EV_READ)]"
proof -
  have sig: "\<not> test EV_READ EV_SIGNAL" by (simp add: flag_simps)
  have a: "base_states (snd (event_assign 1 5 EV_READ new_base))"
    by (rule base_states.assign [OF base_states.new idle_new sig _ surjective_pairing]) simp
  have b: "ev_has_base (snd (event_assign 1 5 EV_READ new_base)) 1"
    "unat (mh_n (timeheap (snd (event_assign 1 5 EV_READ new_base)))) + 1 < 2 ^ 31"
    using sig by (simp_all add: event_assign_def Let_def new_base_def min_heap_elem_init_def)
  show "base_states base_with_reader"
    unfolding base_with_reader_def
    by (rule base_states.add [OF a env_okD(1) [OF plain_env_ok] b surjective_pairing])
  have g: "grow 32 5 = Some 32" by (subst grow.simps) simp
  have ask: "EV_READ AND EV_ET OR bits_if True EV_READ OR bits_if False EV_WRITE = EV_READ"
    by (simp add: bits_if_def EV_READ_def EV_ET_def)
  have "event_add_internal plain_env 1 None False (snd (event_assign 1 5 EV_READ new_base)) =
      (Inr 0, base_with_reader) \<and> ev_has_base base_with_reader 1 \<and> eventqueue base_with_reader = [1] \<and>
      ev_events base_with_reader 1 = EV_READ \<and> ev_fd base_with_reader 1 = 5 \<and>
      backend_log base_with_reader = [(True, 5, EV_READ)]"
    using sig g init_bits
    by (simp add: base_with_reader_def event_add_internal_def event_assign_def Let_def new_base_def
        reserve_timer_def bindM_def seqM_def whenM_def add_watch_def evmap_io_add_def evmap_make_space_def
        plain_env_def get_slot_and_ctor_def evmap_io_init_def flag_simps TAILQ_INSERT_TAIL_def
        event_queue_insert_def count_external_ext ext_def changed_def flags_known_def [symmetric] res_zero ask)
  then show "ev_has_base base_with_reader 1" "eventqueue base_with_reader = [1]"
    "ev_events base_with_reader 1 = EV_READ" "ev_fd base_with_reader 1 = 5"
    "backend_log base_with_reader = [(True, 5, EV_READ)]" by simp_all
qed

lemma event_base_safe_witness:
  "\<exists>b'. event_del_internal plain_env 1 base_with_reader = (Inr 0, b') \<and> 1 \<notin> set (eventqueue b')"
  using event_base_safe [OF env_okD(1) [OF plain_env_ok] base_with_reader_reachable(1,2)] plain_env_ok
  unfolding env_ok_def by blast

lemma reachable_base_watches_witness:
  "test (interest (backend_log base_with_reader) 5) EV_READ \<and>
   \<not> test (interest (backend_log base_with_reader) 5) EV_WRITE"
  using reachable_base_watches [OF base_with_reader_reachable(1), of 5]
    base_with_reader_reachable(3-5)
  by (simp add: flag_simps)

lemma base_with_timer_reachable:
  "base_states base_with_timer" "timers base_with_timer = [2]"
  "ev_timeout (timeheap base_with_timer) 2 = Timeval 10 0" "gettime plain_env base_with_timer = Some (Timeval 10 0)"
proof -
  have sig: "\<not> test EV_PERSIST EV_SIGNAL" "\<not> test EV_PERSIST (EV_READ OR EV_WRITE OR EV_SIGNAL)" "test EV_PERSIST EV_PERSIST"
    by (simp_all add: test_def EV_PERSIST_def EV_READ_def EV_WRITE_def EV_SIGNAL_def)
  have a: "base_states (snd (event_assign 2 (- 1) EV_PERSIST new_base))"
    by (rule base_states.assign [OF base_states.new idle_new sig(1) _ surjective_pairing]) simp
  have b: "ev_has_base (snd (event_assign 2 (- 1) EV_PERSIST new_base)) 2"
    "unat (mh_n (timeheap (snd (event_assign 2 (- 1) EV_PERSIST new_base)))) + 1 < 2 ^ 31"
    using sig by (simp_all add: event_assign_def Let_def new_base_def min_heap_elem_init_def)
  show "base_states base_with_timer"
    unfolding base_with_timer_def
    by (rule base_states.add [OF a env_okD(1) [OF plain_env_ok] b surjective_pairing])
  have eight: "replicate 8 (0 :: event) = [0, 0, 0, 0, 0, 0, 0, 0]" by (simp add: eval_nat_numeral)
  have nc: "\<not> is_common_timeout tv b" if "n_common_timeouts b = 0" for tv b using no_common that .
  have "timers base_with_timer = [2] \<and> ev_timeout (timeheap base_with_timer) 2 = Timeval 10 0 \<and>
      tv_cache base_with_timer = Timeval 0 0"
    using sig eight init_bits
    by (simp add: base_with_timer_def event_add_internal_def event_assign_def Let_def new_base_def
        reserve_timer_def min_heap_reserve_def min_heap_size_def plain_realloc_def bindM_def seqM_def
        add_watch_def add_timeout_def remember_interval_def modM_def remove_if_def set_deadline_def nc
        plain_env_def gettime_def evutil_timeradd_def flag_simps event_queue_insert_def count_external_ext
        ext_def flags_known_def [symmetric] min_heap_push_def min_heap_shift_up.simps put_slot_def
        min_heap_elem_init_def timers_def elems_def)
  then show "timers base_with_timer = [2]" "ev_timeout (timeheap base_with_timer) 2 = Timeval 10 0"
    "gettime plain_env base_with_timer = Some (Timeval 10 0)"
    by (simp_all add: gettime_def plain_env_def)
qed

lemma timeouts_fire_witness:
  "\<exists>b'. timeout_process plain_env base_with_timer = Some (Inr (), b') \<and> timers b' = []"
  using timeouts_fire [OF plain_env_ok base_with_timer_reachable(1,4)] base_with_timer_reachable(2,3)
  by (auto split: if_splits)

end
