(* ===== verification/EventDispatch.thy ===== *)
theory EventDispatch
  imports EventLoop
begin

unbundle bit_operations_syntax

text \<open>
  The dispatch loop of the event base (\<^verbatim>\<open>event_base_loop\<close> and what it calls in
  \<^verbatim>\<open>src/depend/event/project/event.c\<close>): waiting in the backend, serving the deadlines, running
  the callbacks of the active events by priority, rescheduling persistent events.

  A callback is an argument of the model: it may do anything to the state, since the lock is
  released while it runs. The history \<open>ran_log\<close> has the event, what it was told and the queue it
  was taken from. Each round of the loop has its environments, before and after the backend
  waited, and the backend's answer.
\<close>

section \<open>State\<close>

record ev_loop =
  lbase :: event_base
  event_break :: bool
  event_gotterm :: bool
  running_loop :: bool
  use_monotonic :: bool
  no_cache_time :: bool
  defer_queue :: "nat list"
  ran_log :: "(event \<times> u16 \<times> nat) list"

text \<open>What the program's callbacks do, for events and for deferred ones.\<close>

record program =
  callback :: "event \<Rightarrow> u16 \<Rightarrow> ev_loop \<Rightarrow> ev_loop"
  deferred :: "nat \<Rightarrow> ev_loop \<Rightarrow> ev_loop"

type_synonym 'a loop_op = "(ev_loop, ev_fault, 'a) op"

definition on_base :: "'a ev_op \<Rightarrow> 'a loop_op" where
  "on_base m = (\<lambda>s. case m (lbase s) of (r, b) \<Rightarrow> (r, s\<lparr>lbase := b\<rparr>))"

definition call :: "program \<Rightarrow> nat \<Rightarrow> event \<Rightarrow> unit loop_op" where
  "call pg q ev = (\<lambda>s.
     let res = ev_res (lbase s) ev in (Inr (), callback pg ev res (s\<lparr>ran_log := ran_log s @ [(ev, res, q)]\<rparr>)))"

section \<open>Closures\<close>

text \<open>
  The signal closure calls back as often as the signal came; the counter is a variable of the
  function that a deletion can reach through \<^verbatim>\<open>ev_pncalls\<close>, here the cell 0.
\<close>

partial_function (option) signal_calls ::
  "program \<Rightarrow> nat \<Rightarrow> event \<Rightarrow> ev_loop \<Rightarrow> ev_loop option" where
  "signal_calls pg q ev s =
     (let b = lbase s in
      if cells b 0 = 0 then Some s
      else
        let n = cells b 0 - 1;
            b = b\<lparr>cells := (cells b)(0 := n), ev_ncalls := (ev_ncalls b)(ev := n)\<rparr>;
            b = (if n = 0 then b\<lparr>ev_pncalls := (ev_pncalls b)(ev := None)\<rparr> else b);
            s = snd (call pg q ev (s\<lparr>lbase := b\<rparr>))
        in if event_break s
           then Some (if cells (lbase s) 0 \<noteq> 0
                      then s\<lparr>lbase := (lbase s)\<lparr>ev_pncalls := (ev_pncalls (lbase s))(ev := None)\<rparr>\<rparr> else s)
           else signal_calls pg q ev s)"

definition event_signal_closure :: "program \<Rightarrow> nat \<Rightarrow> event \<Rightarrow> ev_loop \<Rightarrow> ev_loop option" where
  "event_signal_closure pg q ev s =
     (let b = lbase s;
          b = b\<lparr>cells := (cells b)(0 := ev_ncalls b ev)\<rparr>;
          b = (if ev_ncalls b ev \<noteq> 0 then b\<lparr>ev_pncalls := (ev_pncalls b)(ev := Some 0)\<rparr> else b)
      in signal_calls pg q ev (s\<lparr>lbase := b\<rparr>))"

definition MICROSECONDS_MASK :: int where "MICROSECONDS_MASK = 0x000fffff"

definition is_same_common_timeout :: "timeval \<Rightarrow> timeval \<Rightarrow> bool" where
  "is_same_common_timeout t u \<longleftrightarrow> tv_usec t AND NOT MICROSECONDS_MASK = tv_usec u AND NOT MICROSECONDS_MASK"

text \<open>When a persistent event with a timeout runs next.\<close>

definition next_run :: "timeval \<Rightarrow> event \<Rightarrow> event_base \<Rightarrow> timeval" where
  "next_run now ev b =
     (let delay = ev_io_timeout b ev;
          relative_to = (if test (ev_res b ev) EV_TIMEOUT then ev_timeout (timeheap b) ev else now);
          run_at = evutil_timeradd relative_to delay
      in if evutil_timercmp run_at now (<) then evutil_timeradd now delay else run_at)"

definition event_persist_closure :: "ev_env \<Rightarrow> program \<Rightarrow> nat \<Rightarrow> event \<Rightarrow> unit loop_op" where
  "event_persist_closure env pg q ev = (\<lambda>s.
     let b = lbase s in
     if tv_sec (ev_io_timeout b ev) \<noteq> 0 \<or> tv_usec (ev_io_timeout b ev) \<noteq> 0 then
       if \<not> is_same_common_timeout (ev_timeout (timeheap b) ev) (ev_io_timeout b ev) then (Inl AssertFailed, s)
       else case gettime env b of
         None \<Rightarrow> (Inl Uninitialised, s)
       | Some now \<Rightarrow>
           if is_common_timeout (ev_timeout (timeheap b) ev) b then (Inl CommonTimeout, s)
           else bindM (on_base (event_add_internal env ev (Some (next_run now ev b)) True)) (\<lambda>_. call pg q ev) s
     else call pg q ev s)"

section \<open>The active queues\<close>

text \<open>An event is taken off its queue, or deleted if it is not persistent, and its closure runs.\<close>

definition take_off :: "ev_env \<Rightarrow> event \<Rightarrow> unit ev_op" where
  "take_off env ev = (\<lambda>b.
     if test (ev_events b ev) EV_PERSIST then event_queue_remove ev EVLIST_ACTIVE b
     else bindM (event_del_internal env ev) (\<lambda>_. returnM ()) b)"

definition run_closure :: "ev_env \<Rightarrow> program \<Rightarrow> nat \<Rightarrow> event \<Rightarrow> ev_loop \<Rightarrow> ((ev_fault + unit) \<times> ev_loop) option" where
  "run_closure env pg q ev s =
     (case ev_closure (lbase s) ev of
        EV_CLOSURE_SIGNAL \<Rightarrow> map_option (\<lambda>s. (Inr (), s)) (event_signal_closure pg q ev s)
      | EV_CLOSURE_PERSIST \<Rightarrow> Some (event_persist_closure env pg q ev s)
      | EV_CLOSURE_NONE \<Rightarrow> Some (call pg q ev s))"

text \<open>\<open>q\<close> is the index of the queue; the result is the number of events that are not internal, or -1.\<close>

partial_function (option) event_process_active_single_queue ::
  "ev_env \<Rightarrow> program \<Rightarrow> nat \<Rightarrow> int \<Rightarrow> ev_loop \<Rightarrow> ((ev_fault + int) \<times> ev_loop) option" where
  "event_process_active_single_queue env pg q done_events s =
     (if \<not> q < length (activequeues (lbase s)) then Some (Inl BadAccess, s) else
      case activequeues (lbase s) ! q of
        [] \<Rightarrow> Some (Inr done_events, s)
      | ev # _ \<Rightarrow>
          (case on_base (take_off env ev) s of
             (Inl f, s) \<Rightarrow> Some (Inl f, s)
           | (Inr _, s) \<Rightarrow>
               let done_events = (if \<not> test (ev_flags (lbase s) ev) EVLIST_INTERNAL then done_events + 1 else done_events) in
               Option.bind (run_closure env pg q ev s) (\<lambda>(r, s).
                 case r of
                   Inl f \<Rightarrow> Some (Inl f, s)
                 | Inr _ \<Rightarrow>
                     if event_break s then Some (Inr (- 1), s)
                     else if event_continue (lbase s) then Some (Inr done_events, s)
                     else event_process_active_single_queue env pg q done_events s)))"

definition MAX_DEFERRED :: nat where "MAX_DEFERRED = 16"

fun process_deferred :: "program \<Rightarrow> nat \<Rightarrow> ev_loop \<Rightarrow> ev_loop" where
  "process_deferred pg 0 s = s"
| "process_deferred pg (Suc n) s =
     (case defer_queue s of
        [] \<Rightarrow> s
      | cb # cbs \<Rightarrow>
          let s = deferred pg cb (s\<lparr>defer_queue := cbs\<rparr>)
          in if event_break s then s else process_deferred pg n s)"

definition event_process_deferred_callbacks :: "program \<Rightarrow> ev_loop \<Rightarrow> ev_loop" where
  "event_process_deferred_callbacks pg = process_deferred pg MAX_DEFERRED"

text \<open>The queues from index \<open>i\<close> on; \<open>n\<close> of them are left.\<close>

fun queue_scan :: "ev_env \<Rightarrow> program \<Rightarrow> nat \<Rightarrow> nat \<Rightarrow> int \<Rightarrow> ev_loop \<Rightarrow> ((ev_fault + int) \<times> ev_loop) option" where
  "queue_scan env pg i 0 c s = Some (Inr c, s)"
| "queue_scan env pg i (Suc n) c s =
     (if \<not> i < length (activequeues (lbase s)) then Some (Inr c, s)
      else if activequeues (lbase s) ! i = [] then queue_scan env pg (i + 1) n c s
      else
        let s = s\<lparr>lbase := (lbase s)\<lparr>event_running_priority := int i\<rparr>\<rparr> in
        Option.bind (event_process_active_single_queue env pg i 0 s) (\<lambda>(r, s).
          case r of
            Inl f \<Rightarrow> Some (Inl f, s)
          | Inr c \<Rightarrow> if c \<noteq> 0 then Some (Inr c, s) else queue_scan env pg (i + 1) n c s))"

definition event_process_active :: "ev_env \<Rightarrow> program \<Rightarrow> ev_loop \<Rightarrow> ((ev_fault + int) \<times> ev_loop) option" where
  "event_process_active env pg s =
     Option.bind (queue_scan env pg 0 (length (activequeues (lbase s))) 0 s) (\<lambda>(r, s).
       case r of
         Inl f \<Rightarrow> Some (Inl f, s)
       | Inr c \<Rightarrow>
           let s = (if c < 0 then s else event_process_deferred_callbacks pg s)
           in Some (Inr c, s\<lparr>lbase := (lbase s)\<lparr>event_running_priority := - 1\<rparr>\<rparr>))"

section \<open>The loop\<close>

definition clear_time_cache :: "event_base \<Rightarrow> event_base" where
  "clear_time_cache b = b\<lparr>tv_cache := Timeval 0 (tv_usec (tv_cache b))\<rparr>"

definition update_time_cache :: "ev_env \<Rightarrow> bool \<Rightarrow> event_base \<Rightarrow> event_base" where
  "update_time_cache env no_cache b =
     (let b = clear_time_cache b in
      if no_cache then b
      else case gettime env b of None \<Rightarrow> b | Some now \<Rightarrow> b\<lparr>tv_cache := now\<rparr>)"

text \<open>If the clock has gone back, every deadline in the heap moves back by as much.\<close>

definition shift_deadlines :: "timeval \<Rightarrow> min_heap \<Rightarrow> min_heap" where
  "shift_deadlines off h =
     h\<lparr>ev_timeout := fold (\<lambda>e t. t(e := evutil_timersub (t e) off)) (elems h) (ev_timeout h)\<rparr>"

definition timeout_correct :: "ev_env \<Rightarrow> bool \<Rightarrow> unit ev_op" where
  "timeout_correct env monotonic = (\<lambda>b.
     if monotonic then (Inr (), b)
     else case gettime env b of
       None \<Rightarrow> (Inl Uninitialised, b)
     | Some tv \<Rightarrow>
         if evutil_timercmp tv (event_tv b) (\<ge>) then (Inr (), b\<lparr>event_tv := tv\<rparr>)
         else
           let off = evutil_timersub (event_tv b) tv;
               b = b\<lparr>timeheap := shift_deadlines off (timeheap b)\<rparr>
           in if n_common_timeouts b > 0 then (Inl CommonTimeout, b) else (Inr (), b\<lparr>event_tv := tv\<rparr>))"

definition event_haveevents :: "event_base \<Rightarrow> bool" where
  "event_haveevents b \<longleftrightarrow> virtual_event_count b > 0 \<or> event_count b > 0"

text \<open>What waits to be called: active events and deferred calls.\<close>

definition N_ACTIVE_CALLBACKS :: "ev_loop \<Rightarrow> int" where
  "N_ACTIVE_CALLBACKS s = event_count_active (lbase s) + int (length (defer_queue s))"

text \<open>The backend's answer to a wait of the given length: its result, and what became ready.\<close>

record round =
  before :: ev_env
  after :: ev_env
  backend :: "timeval option \<Rightarrow> event_base \<Rightarrow> int \<times> (int \<times> u16) list"

fun report_ready :: "ev_env \<Rightarrow> (int \<times> u16) list \<Rightarrow> unit ev_op" where
  "report_ready env [] = returnM ()"
| "report_ready env ((fd, evs) # ready) = seqM (evmap_io_active env fd evs) (report_ready env ready)"

definition wait_time :: "ev_env \<Rightarrow> bool \<Rightarrow> ev_loop \<Rightarrow> ev_fault + timeval option" where
  "wait_time env nonblock s =
     (if N_ACTIVE_CALLBACKS s = 0 \<and> \<not> nonblock then
        (case timeout_next env (lbase s) of
           None \<Rightarrow> Inl BadAccess
         | Some (r, tv) \<Rightarrow> if r = - 1 then Inl Uninitialised else Inr tv)
      else Inr (Some (Timeval 0 0)))"

text \<open>What follows the wait: deadlines, then callbacks.\<close>

definition serve :: "program \<Rightarrow> bool \<Rightarrow> bool \<Rightarrow> ev_env \<Rightarrow> ev_loop \<Rightarrow> ((ev_fault + int option) \<times> ev_loop) option" where
  "serve pg once nonblock env s =
     Option.bind (timeout_process env (update_time_cache env (no_cache_time s) (lbase s))) (\<lambda>(r, b).
     let s = s\<lparr>lbase := b\<rparr> in
     case r of
       Inl f \<Rightarrow> Some (Inl f, s)
     | Inr _ \<Rightarrow>
         if N_ACTIVE_CALLBACKS s \<noteq> 0 then
           Option.bind (event_process_active env pg s) (\<lambda>(r, s).
             case r of
               Inl f \<Rightarrow> Some (Inl f, s)
             | Inr n \<Rightarrow> Some (Inr (if once \<and> N_ACTIVE_CALLBACKS s = 0 \<and> n \<noteq> 0 then Some 0 else None), s))
         else Some (Inr (if nonblock then Some 0 else None), s))"

definition last_time :: "ev_env \<Rightarrow> event_base \<Rightarrow> event_base" where
  "last_time env b = (case gettime env b of None \<Rightarrow> b | Some now \<Rightarrow> b\<lparr>event_tv := now\<rparr>)"

text \<open>One pass of the loop: \<open>Inr None\<close> goes on, \<open>Inr (Some r)\<close> ends the loop with that result.\<close>

definition loop_round ::
  "program \<Rightarrow> bool \<Rightarrow> bool \<Rightarrow> round \<Rightarrow> ev_loop \<Rightarrow> ((ev_fault + int option) \<times> ev_loop) option" where
  "loop_round pg once nonblock rd s0 =
     (let s = s0\<lparr>lbase := (lbase s0)\<lparr>event_continue := False\<rparr>\<rparr> in
      if event_gotterm s then Some (Inr (Some 0), s)
      else if event_break s then Some (Inr (Some 0), s)
      else case on_base (timeout_correct (before rd) (use_monotonic s)) s of
        (Inl f, s) \<Rightarrow> Some (Inl f, s)
      | (Inr _, s) \<Rightarrow>
      (case wait_time (before rd) nonblock s of
        Inl f \<Rightarrow> Some (Inl f, s)
      | Inr tv_p \<Rightarrow>
          if \<not> event_haveevents (lbase s) \<and> N_ACTIVE_CALLBACKS s = 0 then Some (Inr (Some 1), s)
          else
            let s = s\<lparr>lbase := clear_time_cache (last_time (before rd) (lbase s))\<rparr>;
                answer = backend rd tv_p (lbase s)
            in if fst answer = - 1 then Some (Inr (Some (- 1)), s)
               else case on_base (report_ready (after rd) (snd answer)) s of
                 (Inl f, s) \<Rightarrow> Some (Inl f, s)
               | (Inr _, s) \<Rightarrow> serve pg once nonblock (after rd) s))"

fun loop_rounds ::
  "program \<Rightarrow> bool \<Rightarrow> bool \<Rightarrow> round list \<Rightarrow> ev_loop \<Rightarrow> ((ev_fault + int option) \<times> ev_loop) option" where
  "loop_rounds pg once nonblock [] s = Some (Inr None, s)"
| "loop_rounds pg once nonblock (rd # rds) s =
     Option.bind (loop_round pg once nonblock rd s) (\<lambda>(r, s).
       if r = Inr None then loop_rounds pg once nonblock rds s else Some (r, s))"

text \<open>The loop over a number of rounds; \<open>Inr None\<close> is a loop that is still running after them.\<close>

definition event_base_loop ::
  "program \<Rightarrow> bool \<Rightarrow> bool \<Rightarrow> round list \<Rightarrow> ev_loop \<Rightarrow> ((ev_fault + int option) \<times> ev_loop) option" where
  "event_base_loop pg once nonblock rds s =
     (if running_loop s then Some (Inr (Some (- 1)), s)
      else
        let s = s\<lparr>running_loop := True\<rparr>;
            s = s\<lparr>lbase := clear_time_cache (lbase s)\<rparr>;
            s = s\<lparr>event_gotterm := False, event_break := False\<rparr>
        in Option.bind (loop_rounds pg once nonblock rds s) (\<lambda>(r, s).
             if r = Inr None then Some (r, s)
             else Some (r, s\<lparr>lbase := clear_time_cache (lbase s), running_loop := False\<rparr>)))"

definition event_base_dispatch :: "program \<Rightarrow> round list \<Rightarrow> ev_loop \<Rightarrow> ((ev_fault + int option) \<times> ev_loop) option" where
  "event_base_dispatch pg = event_base_loop pg False False"

definition event_base_loopbreak :: "ev_loop \<Rightarrow> ev_loop" where
  "event_base_loopbreak s = s\<lparr>event_break := True\<rparr>"

definition event_loopexit_cb :: "ev_loop \<Rightarrow> ev_loop" where
  "event_loopexit_cb s = s\<lparr>event_gotterm := True\<rparr>"

section \<open>Times\<close>

definition time_ok :: "timeval \<Rightarrow> bool" where
  "time_ok t \<longleftrightarrow> 0 \<le> tv_usec t \<and> tv_usec t < 1000000"

lemma timeradd_ok: "time_ok t \<Longrightarrow> time_ok u \<Longrightarrow> time_ok (evutil_timeradd t u)"
  by (simp add: time_ok_def evutil_timeradd_def Let_def)

lemma same_common: "time_ok t \<Longrightarrow> time_ok u \<Longrightarrow> is_same_common_timeout t u"
proof -
  have "n AND NOT MICROSECONDS_MASK = 0" if "0 \<le> n" "n < 1000000" for n :: int
  proof -
    have m: "MICROSECONDS_MASK = mask 20" by (simp add: MICROSECONDS_MASK_def mask_eq_exp_minus_1)
    have "take_bit 20 n = n" using that by (simp add: take_bit_int_eq_self)
    then have "n AND mask 20 = n" by (simp add: take_bit_eq_mask)
    then have "n AND NOT (mask 20) = (n AND mask 20) AND NOT (mask 20)" by simp
    also have "\<dots> = 0" by (simp add: and.assoc)
    finally show ?thesis by (simp add: m)
  qed
  then show "time_ok t \<Longrightarrow> time_ok u \<Longrightarrow> is_same_common_timeout t u"
    by (simp add: time_ok_def is_same_common_timeout_def)
qed

section \<open>What the operations of the loop leave alone\<close>

definition steady :: "event_base \<Rightarrow> event_base \<Rightarrow> bool" where
  "steady b b' \<longleftrightarrow> ev_has_base b' = ev_has_base b \<and> ev_io_timeout b' = ev_io_timeout b \<and>
     ev_closure b' = ev_closure b \<and> tv_cache b' = tv_cache b \<and> ext b' = ext b \<and>
     ev_events b' = ev_events b \<and> ev_pri b' = ev_pri b \<and> ev_res b' = ev_res b \<and> event_continue b' = event_continue b \<and>
     event_running_priority b' = event_running_priority b \<and> event_count_active b' \<le> event_count_active b \<and>
     length (activequeues b') = length (activequeues b) \<and> event_tv b' = event_tv b"

lemma steady_refl [simp]: "steady b b" by (simp add: steady_def)

lemma steady_trans [trans]: "steady a b \<Longrightarrow> steady b c \<Longrightarrow> steady a c" by (simp add: steady_def)

lemma keeps_steadyI: "(\<And>b. steady b (snd (m b))) \<Longrightarrow> keeps (steady a) m"
  by (meson keepsI steady_trans)

lemma keeps_steadyD: "(\<And>a. keeps (steady a) m) \<Longrightarrow> m b = (r, b') \<Longrightarrow> steady b b'"
  by (metis keepsD snd_conv steady_refl)

lemma steadyI:
  assumes "\<And>e. bit (ev_flags b' e) 4 = bit (ev_flags b e) 4" and "event_count_active b' \<le> event_count_active b"
    and "ev_has_base b' = ev_has_base b" "ev_io_timeout b' = ev_io_timeout b" "ev_closure b' = ev_closure b"
    "tv_cache b' = tv_cache b" "ev_events b' = ev_events b" "ev_pri b' = ev_pri b" "ev_res b' = ev_res b"
    "event_continue b' = event_continue b" "event_running_priority b' = event_running_priority b"
    "length (activequeues b') = length (activequeues b)" "event_tv b' = event_tv b"
  shows "steady b b'"
  using assms ext_flags [OF assms(1)] by (simp add: steady_def)

lemma steady_remove [intro]:
  assumes "\<not> bit queue 4"
  shows "keeps (steady a) (event_queue_remove ev queue)"
proof (rule keeps_steadyI)
  fix b
  define b1 where "b1 = count_external ev (- 1) b"
  define b2 where "b2 = b1\<lparr>ev_flags := (ev_flags b1)(ev := ev_flags b1 ev AND NOT queue)\<rparr>"
  have "steady b b1" by (rule steadyI) (simp_all add: b1_def count_external_def)
  also have "steady b1 b2" by (rule steadyI) (use assms in \<open>simp_all add: b2_def flag_simps\<close>)
  finally have b2: "steady b b2" .
  have o: "steady b2 (b2\<lparr>eventqueue := q\<rparr>)" "steady b2 (b2\<lparr>timeheap := h\<rparr>)"
    "steady b2 (b2\<lparr>event_count_active := event_count_active b2 - 1, activequeues := (activequeues b2)[i := l]\<rparr>)" for q h i l
    by (rule steadyI; simp)+
  note o = steady_trans [OF b2 o(1)] steady_trans [OF b2 o(2)] steady_trans [OF b2 o(3)]
  show "steady b (snd (event_queue_remove ev queue b))"
    unfolding event_queue_remove_def Let_def b1_def [symmetric] b2_def [symmetric]
    using b2 o by (simp split: option.split)
qed

lemma steady_insert [intro]:
  assumes "\<not> bit queue 4" and "queue \<noteq> EVLIST_ACTIVE"
  shows "keeps (steady a) (event_queue_insert env ev queue)"
proof (rule keeps_steadyI)
  fix b
  define b1 where "b1 = count_external ev 1 b"
  define b2 where "b2 = b1\<lparr>ev_flags := (ev_flags b1)(ev := ev_flags b1 ev OR queue)\<rparr>"
  have "steady b b1" by (rule steadyI) (simp_all add: b1_def count_external_def)
  also have "steady b1 b2" by (rule steadyI) (use assms in \<open>simp_all add: b2_def flag_simps\<close>)
  finally have b2: "steady b b2" .
  have o: "steady b2 (b2\<lparr>eventqueue := q\<rparr>)" "steady b2 (b2\<lparr>timeheap := h\<rparr>)" for q h
    by (rule steadyI; simp)+
  note o = steady_trans [OF b2 o(1)] steady_trans [OF b2 o(2)]
  show "steady b (snd (event_queue_insert env ev queue b))"
    unfolding event_queue_insert_def Let_def b1_def [symmetric] b2_def [symmetric]
    using b2 o assms(2) by (simp split: option.split)
qed

lemma steady_fields [simp]:
  "steady b (b\<lparr>io := i\<rparr>)" "steady b (b\<lparr>io := i, backend_log := l\<rparr>)" "steady b (b\<lparr>sigmap := m\<rparr>)"
  "steady b (b\<lparr>cells := c\<rparr>)" "steady b (b\<lparr>timeheap := h\<rparr>)"
  by (rule steadyI; simp)+

lemma steady_maps [intro]:
  "keeps (steady a) (evmap_io_add env fd ev)" "keeps (steady a) (evmap_io_del env fd ev)"
  "keeps (steady a) (evmap_signal_add env fd ev)" "keeps (steady a) (evmap_signal_del env fd ev)"
  by (rule keeps_steadyI,
      simp add: evmap_io_add_def evmap_io_del_def evmap_signal_add_def evmap_signal_del_def Let_def
        split: option.split prod.split)+

lemma steady_abort [intro]: "keeps (steady a) (abort_signal_loop ev)"
  by (rule keeps_steadyI) (simp add: abort_signal_loop_def split: option.split)

lemma queue_bits [simp]: "\<not> bit EVLIST_TIMEOUT 4" "\<not> bit EVLIST_INSERTED 4" "\<not> bit EVLIST_ACTIVE 4"
  by (simp_all add: flag_simps)

lemma keeps_if [intro]: "(c \<Longrightarrow> keeps P m) \<Longrightarrow> (\<not> c \<Longrightarrow> keeps P n) \<Longrightarrow> keeps P (if c then m else n)"
  by simp

lemma steady_remove_if [intro]: "\<not> bit queue 4 \<Longrightarrow> keeps (steady a) (remove_if ev queue)"
  using steady_remove [of queue a ev] by (auto simp: remove_if_def keeps_def)

lemma steady_del [intro]: "keeps (steady a) (event_del_internal env ev)"
proof -
  let ?unwatch = "\<lambda>b. seqM (event_queue_remove ev EVLIST_INSERTED)
      (bindM (if test (ev_events b ev) (EV_READ OR EV_WRITE) then evmap_io_del env (ev_fd b ev) ev
              else evmap_signal_del env (ev_fd b ev) ev) (\<lambda>res. returnM (changed res)))"
  let ?last = "\<lambda>b. if test (ev_flags b ev) EVLIST_INSERTED then ?unwatch b b else (Inr 0, b)"
  have last: "keeps (steady a) ?last"
  proof (rule keepsI)
    fix b assume a: "steady a b"
    have "keeps (steady a) (?unwatch b)"
      by (intro keeps_seqM keeps_bindM keeps_if steady_remove steady_maps keeps_returnM) simp
    from keepsD [OF this a] a show "steady a (snd (?last b))" by simp
  qed
  have "keeps (steady a) (seqM (abort_signal_loop ev) (seqM (remove_if ev EVLIST_TIMEOUT)
      (seqM (remove_if ev EVLIST_ACTIVE) ?last)))"
    by (intro keeps_seqM steady_abort steady_remove_if last) simp_all
  then show ?thesis by (simp add: event_del_internal_def keeps_def)
qed

lemma steady_add_watch [intro]: "keeps (steady a) (add_watch env ev)"
proof (rule keepsI)
  fix b assume a: "steady a b"
  have "keeps (steady a) (bindM (if test (ev_events b ev) (EV_READ OR EV_WRITE) then evmap_io_add env (ev_fd b ev) ev
              else if test (ev_events b ev) EV_SIGNAL then evmap_signal_add env (ev_fd b ev) ev
              else returnM 0)
         (\<lambda>res. seqM (whenM (res \<noteq> - 1) (event_queue_insert env ev EVLIST_INSERTED))
            (returnM (changed res))))"
    unfolding whenM_def
    by (intro keeps_seqM keeps_bindM keeps_if steady_insert steady_maps keeps_returnM)
      (simp_all add: not_sym [OF queue_distinct(1)])
  from keepsD [OF this a] a show "steady a (snd (add_watch env ev b))" by (simp add: add_watch_def)
qed

lemma steady_reserve [intro]: "keeps (steady a) (reserve_timer env ev tv)"
  by (rule keeps_steadyI) (simp add: reserve_timer_def split: prod.split)

lemma steady_deadline [intro]: "keeps (steady a) (set_deadline env ev tv absolute)"
  by (rule keeps_steadyI) (simp add: set_deadline_def split: option.split)

lemma steady_drop_expired:
  "keeps (steady a) (\<lambda>b. if test (ev_flags b ev) EVLIST_ACTIVE \<and> test (ev_res b ev) EV_TIMEOUT
               then seqM (abort_signal_loop ev) (event_queue_remove ev EVLIST_ACTIVE) b
               else (Inr (), b))"
proof (rule keepsI)
  fix b assume a: "steady a b"
  have "keeps (steady a) (seqM (abort_signal_loop ev) (event_queue_remove ev EVLIST_ACTIVE))"
    by (intro keeps_seqM steady_abort steady_remove) simp
  from keepsD [OF this a] a show "steady a (snd (if test (ev_flags b ev) EVLIST_ACTIVE \<and> test (ev_res b ev) EV_TIMEOUT
               then seqM (abort_signal_loop ev) (event_queue_remove ev EVLIST_ACTIVE) b
               else (Inr (), b)))" by simp
qed

lemma steady_remember [intro]: "keeps (steady a) (remember_interval ev tv True)"
  by (rule keeps_steadyI) (simp add: remember_interval_def modM_def)

lemma steady_add_timeout [intro]: "keeps (steady a) (add_timeout env ev tv True)"
  unfolding add_timeout_def
  by (intro keeps_seqM steady_remember steady_remove_if steady_drop_expired steady_deadline steady_insert)
    (simp_all add: flag_simps)

text \<open>Adding with an absolute deadline, as the loop does for persistent events.\<close>

lemma steady_add [intro]: "keeps (steady a) (event_add_internal env ev tv True)"
proof -
  have "keeps (steady a) (bindM (reserve_timer env ev tv) (\<lambda>r.
       if r = - 1 then returnM (- 1)
       else bindM (add_watch env ev) (\<lambda>res.
         case tv of
           Some t \<Rightarrow> if res \<noteq> - 1 then seqM (add_timeout env ev t True) (returnM res) else returnM res
         | None \<Rightarrow> returnM res)))"
    by (auto intro!: keeps_bindM keeps_seqM steady_reserve steady_add_watch steady_add_timeout split: option.split)
  then show ?thesis by (simp add: event_add_internal_def keeps_def)
qed

section \<open>States of the loop\<close>

text \<open>
  A base the loop can run on: its invariant, normalised times, no signal events, and fewer
  events than the timer heap can hold.
\<close>

definition dispatch_ok :: "event_base \<Rightarrow> bool" where
  "dispatch_ok b \<longleftrightarrow> base_ok b \<and> time_ok (tv_cache b) \<and> time_ok (event_tv b) \<and>
     (\<forall>e. ev_has_base b e \<longrightarrow> ev_closure b e \<noteq> EV_CLOSURE_SIGNAL \<and> time_ok (ev_io_timeout b e) \<and>
        (ev_io_timeout b e \<noteq> Timeval 0 0 \<longrightarrow> time_ok (ev_timeout (timeheap b) e))) \<and>
     (\<forall>e\<in>set (timers b). time_ok (ev_timeout (timeheap b) e)) \<and>
     finite {e. ev_has_base b e} \<and> card {e. ev_has_base b e} + 1 < 2 ^ 31"

definition clock_ok :: "ev_env \<Rightarrow> bool" where
  "clock_ok env \<longleftrightarrow> env_ok env \<and> (\<forall>t. clock env = Some t \<longrightarrow> time_ok t)"

lemma dispatch_few: "dispatch_ok b \<Longrightarrow> unat (mh_n (timeheap b)) + 1 < 2 ^ 31"
proof -
  assume b: "dispatch_ok b"
  then have h: "heap_ok (timeheap b)" by (simp add: dispatch_ok_def base_ok_def queues_ok_def)
  have "set (timers b) \<subseteq> {e. ev_has_base b e}"
    using b by (auto simp: dispatch_ok_def base_ok_def queues_ok_def flags_ok_def events_ok_def)
  moreover have "finite {e. ev_has_base b e}" using b by (simp add: dispatch_ok_def)
  ultimately have "card (set (timers b)) \<le> card {e. ev_has_base b e}" by (simp add: card_mono)
  moreover have "card (set (timers b)) = unat (mh_n (timeheap b))"
    using h length_elems [OF h] by (simp add: timers_def heap_ok_def distinct_card)
  ultimately show ?thesis using b by (simp add: dispatch_ok_def)
qed

lemma dispatch_steady:
  assumes "dispatch_ok b" and "steady b b'" and "base_ok b'"
    and "\<And>e. time_ok (ev_timeout (timeheap b) e) \<Longrightarrow> time_ok (ev_timeout (timeheap b') e)"
    and "\<And>e. e \<in> set (timers b') \<Longrightarrow> e \<in> set (timers b) \<or> time_ok (ev_timeout (timeheap b') e)"
  shows "dispatch_ok b'"
  using assms(1-4) assms(5) unfolding dispatch_ok_def steady_def by (simp, blast)

lemma gettime_ok: "clock_ok env \<Longrightarrow> time_ok (tv_cache b) \<Longrightarrow> \<exists>now. gettime env b = Some now \<and> time_ok now"
  by (auto simp: clock_ok_def env_ok_def env_works_def gettime_def)

lemma active_count_nonneg: "base_ok b \<Longrightarrow> 0 \<le> event_count_active b"
  by (auto simp: base_ok_def queues_ok_def counts_ok_def intro!: sum_list_nonneg)

lemma count_drops:
  assumes "length ys = length xs" and "\<And>i. i < length xs \<Longrightarrow> ys ! i = removeAll e (xs ! i)"
    and "q < length xs" "e \<in> set (xs ! q)"
  shows "sum_list (map (int \<circ> length) ys) < sum_list (map (int \<circ> length) xs)"
proof -
  have "sum_list (map (int \<circ> length) zs) = (\<Sum>i<length zs. int (length (zs ! i)))" for zs :: "'a list list"
    by (simp add: sum_list_sum_nth atLeast0LessThan)
  moreover have "(\<Sum>i<length xs. int (length (removeAll e (xs ! i)))) < (\<Sum>i<length xs. int (length (xs ! i)))"
    using assms(3,4) by (intro sum_strict_mono_ex1) (auto intro: length_removeAll_less)
  ultimately show ?thesis using assms(1,2) by simp
qed

text \<open>Taking an event off its active queue.\<close>

definition taken_off :: "event \<Rightarrow> event_base \<Rightarrow> event_base \<Rightarrow> bool" where
  "taken_off ev b b' \<longleftrightarrow> length (activequeues b') = length (activequeues b) \<and>
     (\<forall>i<length (activequeues b). activequeues b' ! i = removeAll ev (activequeues b ! i)) \<and>
     ev_timeout (timeheap b') = ev_timeout (timeheap b) \<and> set (timers b') \<subseteq> set (timers b) \<and> \<not> bit (ev_flags b' ev) 3"

lemma take_off_spec:
  assumes b: "dispatch_ok b" and env: "clock_ok env" and ev: "q < length (activequeues b)" "ev \<in> set (activequeues b ! q)"
  shows "\<exists>b'. take_off env ev b = (Inr (), b') \<and> dispatch_ok b' \<and> steady b b' \<and> taken_off ev b b' \<and>
    ev_has_base b ev \<and> event_count_active b' < event_count_active b"
proof -
  have ok: "base_ok b" and q: "queues_ok b" using b by (simp_all add: dispatch_ok_def base_ok_def)
  have on: "bit (ev_flags b ev) 3" using q ev by (auto simp: queues_ok_def flags_ok_def)
  then have base: "ev_has_base b ev" using q by (auto simp: queues_ok_def events_ok_def)
  have "\<exists>b'. take_off env ev b = (Inr (), b') \<and> base_ok b' \<and> taken_off ev b b'"
  proof (cases "test (ev_events b ev) EV_PERSIST")
    case True
    obtain d where d: "remove_if ev EVLIST_ACTIVE b = (Inr (), d)" "queues_ok d" "frame b d"
      "\<not> bit (ev_flags d ev) 3" "others_same ev 3 b d" "timeheap d = timeheap b" "eventqueue d = eventqueue b"
      "\<forall>i<length (activequeues b). activequeues d ! i = removeAll ev (activequeues b ! i)"
      using remove_if_active [OF q] by blast
    have "base_ok d" using ok d(2,7) frame_io [OF d(3)] by (simp add: base_ok_def)
    moreover have "take_off env ev b = (Inr (), d)" using True on d(1) by (simp add: take_off_def remove_if_def flag_simps)
    ultimately show ?thesis using d(3,4,6,8) by (auto simp: taken_off_def frame_def timers_def)
  next
    case False
    have "\<And>f o' r. be_del env f o' r \<noteq> - 1" using env by (simp add: clock_ok_def env_okD)
    from del_spec [OF ok base this] obtain d where
      d: "event_del_internal env ev b = (Inr 0, d)" "base_ok d" "unlinked ev b d" by blast
    have "set (timers d) \<subseteq> set (timers b)"
    proof (cases "bit (ev_flags b ev) 0")
      case True
      then have "ev \<in> set (elems (timeheap b))" "heap_ok (timeheap b)"
        using q by (simp_all add: queues_ok_def flags_ok_def timers_def)
      then show ?thesis using heap_out_spec(3) [of "timeheap b" ev] d(3) True by (auto simp: unlinked_def timers_def)
    qed (use d(3) in \<open>simp add: unlinked_def timers_def\<close>)
    then show ?thesis using False d by (simp add: take_off_def bindM_Inr unlinked_def taken_off_def)
  qed
  then obtain b' where b': "take_off env ev b = (Inr (), b')" "base_ok b'" "taken_off ev b b'" by blast
  have "keeps (steady a) (take_off env ev)" for a
  proof (rule keepsI)
    fix c assume "steady a c"
    then show "steady a (snd (take_off env ev c))"
      using keepsD [OF steady_remove [of EVLIST_ACTIVE a ev]] keepsD [OF keeps_bindM [OF steady_del [of a env ev] keeps_returnM [of _ "()"]]]
      by (simp add: take_off_def)
  qed
  then have st: "steady b b'" using keeps_steadyD b'(1) by blast
  have "event_count_active c = sum_list (map (int \<circ> length) (activequeues c))" if "base_ok c" for c
    using that by (simp add: base_ok_def queues_ok_def counts_ok_def)
  then have "event_count_active b' < event_count_active b"
    using count_drops [of "activequeues b'" "activequeues b" ev q] ok b'(2,3) ev by (simp add: taken_off_def)
  moreover have "dispatch_ok b'" using dispatch_steady [OF b st b'(2)] b'(3) by (auto simp: taken_off_def)
  ultimately show ?thesis using b' st base by blast
qed

text \<open>Adding an event that is not active leaves the active queues alone.\<close>

definition same_active :: "event \<Rightarrow> event list list \<Rightarrow> event_base \<Rightarrow> bool" where
  "same_active ev qs b \<longleftrightarrow> activequeues b = qs \<and> \<not> bit (ev_flags b ev) 3"

lemma same_active_fields [simp]:
  "same_active ev qs (b\<lparr>io := i\<rparr>) = same_active ev qs b" "same_active ev qs (b\<lparr>io := i, backend_log := l\<rparr>) = same_active ev qs b"
  "same_active ev qs (b\<lparr>sigmap := m\<rparr>) = same_active ev qs b" "same_active ev qs (b\<lparr>timeheap := h\<rparr>) = same_active ev qs b"
  "same_active ev qs (b\<lparr>eventqueue := q\<rparr>) = same_active ev qs b" "same_active ev qs (b\<lparr>ev_io_timeout := t\<rparr>) = same_active ev qs b"
  by (simp_all add: same_active_def)

lemma same_active_maps [intro]:
  "keeps (same_active e qs) (evmap_io_add env fd ev)" "keeps (same_active e qs) (evmap_signal_add env fd ev)"
  by (rule keepsI,
      simp add: evmap_io_add_def evmap_signal_add_def Let_def split: option.split prod.split)+

lemma same_active_insert [intro]:
  assumes "queue \<in> {EVLIST_INSERTED, EVLIST_TIMEOUT}"
  shows "keeps (same_active ev qs) (event_queue_insert env ev queue)"
proof (rule keepsI)
  fix b assume a: "same_active ev qs b"
  define b2 where "b2 = (count_external ev 1 b)\<lparr>ev_flags := (ev_flags b)(ev := ev_flags b ev OR queue)\<rparr>"
  have "activequeues (count_external ev 1 b) = activequeues b" by (simp add: count_external_def)
  then have b2: "same_active ev qs b2"
    using a assms by (auto simp: b2_def same_active_def flag_simps)
  show "same_active ev qs (snd (event_queue_insert env ev queue b))"
    unfolding event_queue_insert_def Let_def flags_count_external b2_def [symmetric]
    using a b2 assms not_sym [OF queue_distinct(1)] queue_distinct(3) by (auto split: option.split)
qed

lemma same_active_remove [intro]: "keeps (same_active ev qs) (remove_if ev EVLIST_TIMEOUT)"
proof (rule keepsI)
  fix b assume a: "same_active ev qs b"
  define b2 where "b2 = (count_external ev (- 1) b)\<lparr>ev_flags := (ev_flags b)(ev := ev_flags b ev AND NOT EVLIST_TIMEOUT)\<rparr>"
  have "activequeues (count_external ev (- 1) b) = activequeues b" by (simp add: count_external_def)
  then have b2: "same_active ev qs b2" using a by (auto simp: b2_def same_active_def flag_simps)
  show "same_active ev qs (snd (remove_if ev EVLIST_TIMEOUT b))"
    unfolding remove_if_def event_queue_remove_def Let_def flags_count_external b2_def [symmetric]
    using a b2 queue_distinct by (auto split: option.split)
qed

lemma same_active_add: "keeps (same_active ev qs) (event_add_internal env ev tv absolute)"
proof -
  have w: "keeps (same_active ev qs) (add_watch env ev)"
  proof (rule keepsI)
    fix b assume a: "same_active ev qs b"
    have "keeps (same_active ev qs) (bindM (if test (ev_events b ev) (EV_READ OR EV_WRITE) then evmap_io_add env (ev_fd b ev) ev
                else if test (ev_events b ev) EV_SIGNAL then evmap_signal_add env (ev_fd b ev) ev
                else returnM 0)
           (\<lambda>res. seqM (whenM (res \<noteq> - 1) (event_queue_insert env ev EVLIST_INSERTED))
              (returnM (changed res))))"
      unfolding whenM_def
      by (intro keeps_seqM keeps_bindM keeps_if same_active_insert same_active_maps keeps_returnM) simp
    from keepsD [OF this a] a show "same_active ev qs (snd (add_watch env ev b))" by (simp add: add_watch_def)
  qed
  have r: "keeps (same_active ev qs) (reserve_timer env ev tv)"
    by (rule keepsI) (simp add: reserve_timer_def split: prod.split)
  have d: "keeps (same_active ev qs) (set_deadline env ev t absolute)" for t
    by (rule keepsI) (simp add: set_deadline_def split: option.split)
  have m: "keeps (same_active ev qs) (remember_interval ev t absolute)" for t
    by (rule keepsI) (simp add: remember_interval_def modM_def)
  have x: "keeps (same_active ev qs) (\<lambda>b. if test (ev_flags b ev) EVLIST_ACTIVE \<and> test (ev_res b ev) EV_TIMEOUT
               then seqM (abort_signal_loop ev) (event_queue_remove ev EVLIST_ACTIVE) b
               else (Inr (), b))"
    by (rule keepsI) (simp add: same_active_def flag_simps)
  have t: "keeps (same_active ev qs) (add_timeout env ev t absolute)" for t
    unfolding add_timeout_def by (intro keeps_seqM m same_active_remove x d same_active_insert) simp
  have "keeps (same_active ev qs) (bindM (reserve_timer env ev tv) (\<lambda>r.
       if r = - 1 then returnM (- 1)
       else bindM (add_watch env ev) (\<lambda>res.
         case tv of
           Some t \<Rightarrow> if res \<noteq> - 1 then seqM (add_timeout env ev t absolute) (returnM res) else returnM res
         | None \<Rightarrow> returnM res)))"
    by (auto intro!: keeps_bindM keeps_seqM r w t split: option.split)
  then show ?thesis by (simp add: event_add_internal_def keeps_def)
qed

text \<open>Rescheduling a persistent event.\<close>

lemma next_run_ok:
  assumes "time_ok now" "time_ok (ev_io_timeout b ev)" "time_ok (ev_timeout (timeheap b) ev)"
  shows "time_ok (next_run now ev b)"
  using assms by (simp add: next_run_def Let_def timeradd_ok)

lemma persist_spec:
  assumes b: "dispatch_ok b" and env: "clock_ok env" and base: "ev_has_base b ev" and s: "lbase s = b"
  shows "\<exists>b'. event_persist_closure env pg q ev s = call pg q ev (s\<lparr>lbase := b'\<rparr>) \<and> dispatch_ok b' \<and> steady b b' \<and>
    (\<not> bit (ev_flags b ev) 3 \<longrightarrow> activequeues b' = activequeues b) \<and>
    (ev_io_timeout b ev = Timeval 0 0 \<longrightarrow> b' = b) \<and>
    (ev_io_timeout b ev \<noteq> Timeval 0 0 \<longrightarrow>
       (\<exists>now r. gettime env b = Some now \<and> event_add_internal env ev (Some (next_run now ev b)) True b = (Inr r, b') \<and>
          r \<in> {- 1, 0} \<and> (r = 0 \<longrightarrow> ev \<in> set (timers b') \<and> ev_timeout (timeheap b') ev = next_run now ev b)))"
proof (cases "ev_io_timeout b ev = Timeval 0 0")
  case True
  then have "event_persist_closure env pg q ev s = call pg q ev (s\<lparr>lbase := b\<rparr>)"
    using s by (auto simp: event_persist_closure_def)
  then show ?thesis using True b by (intro exI [of _ b]) simp
next
  case False
  then have nz: "tv_sec (ev_io_timeout b ev) \<noteq> 0 \<or> tv_usec (ev_io_timeout b ev) \<noteq> 0" by (metis timeval.collapse)
  have t: "time_ok (ev_io_timeout b ev)" "time_ok (ev_timeout (timeheap b) ev)" "time_ok (tv_cache b)"
    and ok: "base_ok b" using b base False by (auto simp: dispatch_ok_def)
  obtain now where now: "gettime env b = Some now" "time_ok now" using gettime_ok [OF env t(3)] by blast
  have "n_common_timeouts b = 0" using ok by (simp add: base_ok_def queues_ok_def)
  note nc = no_common [OF this]
  have e: "env_works env" using env by (simp add: clock_ok_def env_okD)
  obtain r b' where b': "event_add_internal env ev (Some (next_run now ev b)) True b = (Inr r, b')" "base_ok b'" "r \<in> {- 1, 0}"
    "r = - 1 \<longrightarrow> ev_flags b' = ev_flags b \<and> ev_timeout (timeheap b') = ev_timeout (timeheap b)"
    "r = 0 \<longrightarrow> set (timers b') = insert ev (set (timers b)) \<and>
       ev_timeout (timeheap b') = (ev_timeout (timeheap b))(ev := next_run now ev b)"
    using add_spec [OF ok base e dispatch_few [OF b] now(1), of "Some (next_run now ev b)" True] by auto
  have st: "steady b b'" using keeps_steadyD [OF steady_add b'(1)] by blast
  have same: "set (timers c) = {e. bit (ev_flags c e) 0}" if "base_ok c" for c
    using that by (auto simp: base_ok_def queues_ok_def flags_ok_def)
  have "e \<in> set (timers b) \<or> time_ok (ev_timeout (timeheap b') e)" if "e \<in> set (timers b')" for e
    using b'(3,4,5) next_run_ok [OF now(2) t(1,2)] that same [OF ok] same [OF b'(2)] by (cases "e = ev") auto
  then have "dispatch_ok b'"
    by (intro dispatch_steady [OF b st b'(2)]) (use b'(3,4,5) next_run_ok [OF now(2) t(1,2)] in auto)
  moreover have "event_persist_closure env pg q ev s = call pg q ev (s\<lparr>lbase := b'\<rparr>)"
    using nz now(1) nc b'(1) s same_common [OF t(2,1)]
    by (simp add: event_persist_closure_def bindM_def on_base_def)
  moreover have "\<not> bit (ev_flags b ev) 3 \<Longrightarrow> activequeues b' = activequeues b"
    using keepsD [OF same_active_add [of ev "activequeues b" env "Some (next_run now ev b)" True], of b] b'(1)
    by (simp add: same_active_def)
  ultimately show ?thesis using st b'(1,3,5) now(1) False by (intro exI [of _ b']) auto
qed

section \<open>Programs the loop can rely on\<close>

text \<open>
  What a callback may do to the base: anything that keeps it fit for the loop, makes no further
  event active, and changes neither the number of priorities nor which events are internal.
\<close>

definition tame :: "event_base \<Rightarrow> event_base \<Rightarrow> bool" where
  "tame b b' \<longleftrightarrow> dispatch_ok b' \<and> event_count_active b' \<le> event_count_active b \<and>
     length (activequeues b') = length (activequeues b) \<and> ext b' = ext b"

lemma tame_trans [trans]: "tame a b \<Longrightarrow> tame b c \<Longrightarrow> tame a c" by (simp add: tame_def)

lemma tame_steady: "steady a b \<Longrightarrow> dispatch_ok b \<Longrightarrow> tame a b" by (simp add: tame_def steady_def)

definition well_behaved :: "program \<Rightarrow> bool" where
  "well_behaved pg \<longleftrightarrow>
     (\<forall>ev res s. dispatch_ok (lbase s) \<longrightarrow>
        tame (lbase s) (lbase (callback pg ev res s)) \<and> ran_log (callback pg ev res s) = ran_log s) \<and>
     (\<forall>cb s. dispatch_ok (lbase s) \<longrightarrow>
        dispatch_ok (lbase (deferred pg cb s)) \<and> ran_log (deferred pg cb s) = ran_log s)"

lemma call_spec:
  assumes "well_behaved pg" and "dispatch_ok (lbase s)"
  shows "\<exists>s'. call pg q ev s = (Inr (), s') \<and> tame (lbase s) (lbase s') \<and>
    s' = callback pg ev (ev_res (lbase s) ev) (s\<lparr>ran_log := ran_log s @ [(ev, ev_res (lbase s) ev, q)]\<rparr>) \<and>
    ran_log s' = ran_log s @ [(ev, ev_res (lbase s) ev, q)]"
proof -
  let ?s = "s\<lparr>ran_log := ran_log s @ [(ev, ev_res (lbase s) ev, q)]\<rparr>"
  have "dispatch_ok (lbase ?s)" using assms(2) by simp
  then have "tame (lbase ?s) (lbase (callback pg ev (ev_res (lbase s) ev) ?s)) \<and>
      ran_log (callback pg ev (ev_res (lbase s) ev) ?s) = ran_log ?s"
    using assms(1) unfolding well_behaved_def by blast
  then show ?thesis by (simp add: call_def Let_def)
qed

lemma closure_spec:
  assumes pg: "well_behaved pg" and b: "dispatch_ok (lbase s)" and env: "clock_ok env" and base: "ev_has_base (lbase s) ev"
  shows "\<exists>b' s'. run_closure env pg q ev s = Some (Inr (), s') \<and> steady (lbase s) b' \<and> dispatch_ok b' \<and>
    (\<not> bit (ev_flags (lbase s) ev) 3 \<longrightarrow> activequeues b' = activequeues (lbase s)) \<and>
    s' = callback pg ev (ev_res b' ev) (s\<lparr>lbase := b', ran_log := ran_log s @ [(ev, ev_res (lbase s) ev, q)]\<rparr>) \<and>
    tame (lbase s) (lbase s') \<and> ran_log s' = ran_log s @ [(ev, ev_res (lbase s) ev, q)]"
proof -
  have "\<exists>b'. run_closure env pg q ev s = Some (call pg q ev (s\<lparr>lbase := b'\<rparr>)) \<and> steady (lbase s) b' \<and> dispatch_ok b' \<and>
    (\<not> bit (ev_flags (lbase s) ev) 3 \<longrightarrow> activequeues b' = activequeues (lbase s))"
  proof (cases "ev_closure (lbase s) ev")
    case EV_CLOSURE_NONE
    then show ?thesis using b by (intro exI [of _ "lbase s"]) (simp add: run_closure_def)
  next
    case EV_CLOSURE_SIGNAL
    then show ?thesis using b base by (simp add: dispatch_ok_def)
  next
    case EV_CLOSURE_PERSIST
    obtain b' where "event_persist_closure env pg q ev s = call pg q ev (s\<lparr>lbase := b'\<rparr>)" "dispatch_ok b'"
      "steady (lbase s) b'" "\<not> bit (ev_flags (lbase s) ev) 3 \<longrightarrow> activequeues b' = activequeues (lbase s)"
      using persist_spec [OF b env base refl, of pg q] by blast
    then show ?thesis using EV_CLOSURE_PERSIST by (intro exI [of _ b']) (simp add: run_closure_def)
  qed
  then obtain b' where b': "run_closure env pg q ev s = Some (call pg q ev (s\<lparr>lbase := b'\<rparr>))" "steady (lbase s) b'"
    "dispatch_ok b'" "\<not> bit (ev_flags (lbase s) ev) 3 \<longrightarrow> activequeues b' = activequeues (lbase s)" by blast
  have "dispatch_ok (lbase (s\<lparr>lbase := b'\<rparr>))" using b'(3) by simp
  from call_spec [OF pg this, of q ev] obtain s' where s': "call pg q ev (s\<lparr>lbase := b'\<rparr>) = (Inr (), s')" "tame b' (lbase s')"
    "s' = callback pg ev (ev_res b' ev) (s\<lparr>lbase := b', ran_log := ran_log s @ [(ev, ev_res b' ev, q)]\<rparr>)"
    "ran_log s' = ran_log s @ [(ev, ev_res b' ev, q)]" by auto
  have "tame (lbase s) (lbase s')" using tame_trans [OF tame_steady [OF b'(2,3)] s'(2)] .
  moreover have "ev_res b' = ev_res (lbase s)" using b'(2) by (simp add: steady_def)
  ultimately show ?thesis using b' s' by (intro exI [of _ b'] exI [of _ s']) simp
qed

text \<open>One event of a queue: it is taken off and its callback runs.\<close>

lemma serve_one:
  assumes pg: "well_behaved pg" and b: "dispatch_ok (lbase s)" and env: "clock_ok env"
    and hd: "q < length (activequeues (lbase s))" "activequeues (lbase s) ! q = ev # rest"
  shows "\<exists>s'. event_process_active_single_queue env pg q c s =
      (let c = (if ext (lbase s) ev then c + 1 else c) in
       if event_break s' then Some (Inr (- 1), s')
       else if event_continue (lbase s') then Some (Inr c, s')
       else event_process_active_single_queue env pg q c s') \<and>
    tame (lbase s) (lbase s') \<and> event_count_active (lbase s') < event_count_active (lbase s) \<and>
    ran_log s' = ran_log s @ [(ev, ev_res (lbase s) ev, q)] \<and>
    (\<exists>b1. s' = callback pg ev (ev_res (lbase s) ev) (s\<lparr>lbase := b1, ran_log := ran_log s @ [(ev, ev_res (lbase s) ev, q)]\<rparr>) \<and>
       steady (lbase s) b1 \<and> dispatch_ok b1 \<and> activequeues b1 = (activequeues (lbase s))[q := rest])"
proof -
  have mem: "ev \<in> set (activequeues (lbase s) ! q)" using hd by simp
  from take_off_spec [OF b env hd(1) this] obtain d where d: "take_off env ev (lbase s) = (Inr (), d)" "dispatch_ok d"
    "steady (lbase s) d" "taken_off ev (lbase s) d" "ev_has_base (lbase s) ev" "event_count_active d < event_count_active (lbase s)"
    by blast
  have base: "ev_has_base (lbase (s\<lparr>lbase := d\<rparr>)) ev" using d(3,5) by (simp add: steady_def)
  have dok: "dispatch_ok (lbase (s\<lparr>lbase := d\<rparr>))" using d(2) by simp
  from closure_spec [OF pg dok env base, of q] obtain b1 s' where
    s': "run_closure env pg q ev (s\<lparr>lbase := d\<rparr>) = Some (Inr (), s')" "steady d b1" "dispatch_ok b1"
    "\<not> bit (ev_flags d ev) 3 \<longrightarrow> activequeues b1 = activequeues d"
    "s' = callback pg ev (ev_res b1 ev) (s\<lparr>lbase := b1, ran_log := ran_log s @ [(ev, ev_res d ev, q)]\<rparr>)"
    "tame d (lbase s')" "ran_log s' = ran_log s @ [(ev, ev_res d ev, q)]" by auto
  have st: "steady (lbase s) b1" using steady_trans [OF d(3) s'(2)] .
  then have res: "ev_res d = ev_res (lbase s)" "ev_res b1 = ev_res (lbase s)" using d(3) by (simp_all add: steady_def)
  have q: "queues_ok (lbase s)" using b by (simp add: dispatch_ok_def base_ok_def)
  have "activequeues d = (activequeues (lbase s))[q := rest]"
  proof (rule nth_equalityI)
    fix i assume i: "i < length (activequeues d)"
    then have li: "i < length (activequeues (lbase s))" using d(4) by (simp add: taken_off_def)
    have dist: "distinct (ev # rest)" using q hd by (metis queues_ok_def list_all_length)
    have "ev \<notin> set (activequeues (lbase s) ! i)" if "i \<noteq> q"
    proof -
      have "ev_pri (lbase s) ev = q" using q hd(1) mem by (simp add: queues_ok_def flags_ok_def)
      then show ?thesis using q that li by (auto simp: queues_ok_def flags_ok_def)
    qed
    then show "activequeues d ! i = (activequeues (lbase s))[q := rest] ! i"
      using d(4) li hd dist by (cases "i = q") (simp_all add: taken_off_def removeAll_id)
  qed (use d(4) in \<open>simp add: taken_off_def\<close>)
  then have act: "activequeues b1 = (activequeues (lbase s))[q := rest]" using s'(4) d(4) by (simp add: taken_off_def)
  have e: "\<not> test (ev_flags d ev) EVLIST_INTERNAL \<longleftrightarrow> ext (lbase s) ev"
    using d(3) by (simp add: steady_def ext_def fun_eq_iff flag_simps)
  have "on_base (take_off env ev) s = (Inr (), s\<lparr>lbase := d\<rparr>)" using d(1) by (simp add: on_base_def)
  then have run: "event_process_active_single_queue env pg q c s =
      (let c = (if ext (lbase s) ev then c + 1 else c) in
       if event_break s' then Some (Inr (- 1), s')
       else if event_continue (lbase s') then Some (Inr c, s')
       else event_process_active_single_queue env pg q c s')"
    using hd s'(1) e by (subst event_process_active_single_queue.simps) (simp add: Let_def)
  have t: "tame (lbase s) (lbase s')" using tame_trans [OF tame_steady [OF d(3,2)] s'(6)] .
  have "event_count_active (lbase s') < event_count_active (lbase s)"
    using s'(6) d(6) by (simp add: tame_def)
  then show ?thesis using run t s'(3,5,7) res act st by (intro exI [of _ s']) auto
qed

text \<open>How many of the events that ran are not internal.\<close>

definition externals :: "event_base \<Rightarrow> (event \<times> u16 \<times> nat) list \<Rightarrow> int" where
  "externals b es = int (length (filter (\<lambda>x. ext b (fst x)) es))"

definition starts_with :: "event_base \<Rightarrow> nat \<Rightarrow> (event \<times> u16 \<times> nat) list \<Rightarrow> bool" where
  "starts_with b q es \<longleftrightarrow>
     (case activequeues b ! q of [] \<Rightarrow> es = [] | ev # _ \<Rightarrow> \<exists>t. es = (ev, ev_res b ev, q) # t)"

lemma single_queue_spec:
  assumes pg: "well_behaved pg" and env: "clock_ok env"
  shows "dispatch_ok (lbase s) \<Longrightarrow> q < length (activequeues (lbase s)) \<Longrightarrow>
    \<exists>r s' es. event_process_active_single_queue env pg q c s = Some (Inr r, s') \<and> tame (lbase s) (lbase s') \<and>
      ran_log s' = ran_log s @ es \<and> (\<forall>x\<in>set es. snd (snd x) = q) \<and>
      (r = - 1 \<or> r = c + externals (lbase s) es) \<and> starts_with (lbase s) q es"
proof (induction "nat (event_count_active (lbase s))" arbitrary: s c rule: less_induct)
  case less
  show ?case
  proof (cases "activequeues (lbase s) ! q")
    case Nil
    have "tame (lbase s) (lbase s)" using less.prems(1) by (simp add: tame_def)
    moreover have "event_process_active_single_queue env pg q c s = Some (Inr c, s)"
      using Nil less.prems(2) by (subst event_process_active_single_queue.simps) simp
    ultimately show ?thesis using Nil
      by (intro exI [of _ c] exI [of _ s] exI [of _ "[]"]) (simp add: externals_def starts_with_def)
  next
    case (Cons ev rest)
    let ?x = "(ev, ev_res (lbase s) ev, q)" and ?c = "if ext (lbase s) ev then c + 1 else c"
    obtain s1 where s1: "event_process_active_single_queue env pg q c s =
        (let c = ?c in if event_break s1 then Some (Inr (- 1), s1)
         else if event_continue (lbase s1) then Some (Inr c, s1)
         else event_process_active_single_queue env pg q c s1)"
      "tame (lbase s) (lbase s1)" "event_count_active (lbase s1) < event_count_active (lbase s)"
      "ran_log s1 = ran_log s @ [?x]"
      using serve_one [OF pg less.prems(1) env less.prems(2) Cons, of c] by auto
    have sw: "starts_with (lbase s) q (?x # t)" for t using Cons by (simp add: starts_with_def)
    have one: "externals (lbase s) (?x # t) + c = ?c + externals (lbase s) t" for t by (simp add: externals_def)
    show ?thesis
    proof (cases "event_break s1 \<or> event_continue (lbase s1)")
      case True
      then show ?thesis using s1 sw [of "[]"] one [of "[]"]
        by (intro exI [of _ "if event_break s1 then - 1 else ?c"] exI [of _ s1] exI [of _ "[?x]"])
          (auto simp: externals_def)
    next
      case False
      have ok1: "dispatch_ok (lbase s1)" and l1: "length (activequeues (lbase s1)) = length (activequeues (lbase s))"
        and e1: "ext (lbase s1) = ext (lbase s)" using s1(2) by (simp_all add: tame_def)
      have "0 \<le> event_count_active (lbase s1)" using ok1 active_count_nonneg by (simp add: dispatch_ok_def)
      then have "nat (event_count_active (lbase s1)) < nat (event_count_active (lbase s))" using s1(3) by simp
      from less.hyps [OF this ok1, of ?c] obtain r s2 es where
        s2: "event_process_active_single_queue env pg q ?c s1 = Some (Inr r, s2)" "tame (lbase s1) (lbase s2)"
          "ran_log s2 = ran_log s1 @ es" "\<forall>x\<in>set es. snd (snd x) = q"
          "r = - 1 \<or> r = ?c + externals (lbase s1) es"
        using l1 less.prems(2) by auto
      have "externals (lbase s1) es = externals (lbase s) es" by (simp add: externals_def e1)
      then have "r = - 1 \<or> r = c + externals (lbase s) (?x # es)" using s2(5) one [of es] by linarith
      moreover have "event_process_active_single_queue env pg q c s = Some (Inr r, s2)"
        unfolding s1(1) Let_def using False s2(1) by (simp only: if_False de_Morgan_disj)
      ultimately show ?thesis
        using tame_trans [OF s1(2) s2(2)] s1(4) s2(3,4) sw [of es]
        by (intro exI [of _ r] exI [of _ s2] exI [of _ "?x # es"]) simp
    qed
  qed
qed

lemma running_priority_ok:
  "dispatch_ok (b\<lparr>event_running_priority := p\<rparr>) = dispatch_ok b"
  "dispatch_ok (b\<lparr>event_continue := c\<rparr>) = dispatch_ok b"
proof -
  have "ext (b\<lparr>event_running_priority := p\<rparr>) = ext b" by (simp add: ext_def fun_eq_iff)
  moreover have fr: "frame b (b\<lparr>event_running_priority := p\<rparr>)" by (simp add: frame_def)
  ultimately have "base_ok (b\<lparr>event_running_priority := p\<rparr>) = base_ok b"
    using frame_io [OF fr]
    by (simp add: base_ok_def queues_ok_def flags_ok_def events_ok_def counts_ok_def timers_def)
  then show "dispatch_ok (b\<lparr>event_running_priority := p\<rparr>) = dispatch_ok b"
    "dispatch_ok (b\<lparr>event_continue := c\<rparr>) = dispatch_ok b"
    by (simp_all add: dispatch_ok_def base_ok_res timers_def)
qed

text \<open>
  By priority: the queues in order, and once an event that is not internal has run, no later queue.
\<close>

definition by_priority :: "event_base \<Rightarrow> (event \<times> u16 \<times> nat) list \<Rightarrow> bool" where
  "by_priority b es \<longleftrightarrow> sorted (map (\<lambda>x. snd (snd x)) es) \<and>
     (\<forall>x\<in>set es. \<forall>y\<in>set es. snd (snd x) < snd (snd y) \<longrightarrow> \<not> ext b (fst x))"

definition first_queue :: "event_base \<Rightarrow> nat \<Rightarrow> nat \<Rightarrow> bool" where
  "first_queue b i q \<longleftrightarrow> i \<le> q \<and> q < length (activequeues b) \<and> activequeues b ! q \<noteq> [] \<and>
     (\<forall>p. i \<le> p \<longrightarrow> p < q \<longrightarrow> activequeues b ! p = [])"

lemma externals_zero: "externals b es = 0 \<Longrightarrow> x \<in> set es \<Longrightarrow> \<not> ext b (fst x)"
  by (auto simp: externals_def filter_empty_conv)

lemma queue_scan_spec:
  assumes pg: "well_behaved pg" and env: "clock_ok env"
  shows "dispatch_ok (lbase s) \<Longrightarrow> i + n = length (activequeues (lbase s)) \<Longrightarrow>
    \<exists>r s' es. queue_scan env pg i n 0 s = Some (Inr r, s') \<and> tame (lbase s) (lbase s') \<and>
      ran_log s' = ran_log s @ es \<and> (\<forall>x\<in>set es. i \<le> snd (snd x)) \<and> by_priority (lbase s) es \<and>
      (r = - 1 \<or> r = externals (lbase s) es) \<and>
      (\<forall>q. first_queue (lbase s) i q \<longrightarrow>
         (\<exists>t. es = (hd (activequeues (lbase s) ! q), ev_res (lbase s) (hd (activequeues (lbase s) ! q)), q) # t))"
proof (induction n arbitrary: i s)
  case 0
  then show ?case
    by (intro exI [of _ 0] exI [of _ s] exI [of _ "[]"])
      (auto simp: tame_def by_priority_def externals_def first_queue_def)
next
  case (Suc n)
  have i: "i < length (activequeues (lbase s))" "i + 1 + n = length (activequeues (lbase s))" using Suc.prems by simp_all
  show ?case
  proof (cases "activequeues (lbase s) ! i = []")
    case True
    obtain r s' es where r: "queue_scan env pg (i + 1) n 0 s = Some (Inr r, s')" "tame (lbase s) (lbase s')"
      "ran_log s' = ran_log s @ es" "\<forall>x\<in>set es. i + 1 \<le> snd (snd x)" "by_priority (lbase s) es"
      "r = - 1 \<or> r = externals (lbase s) es"
      "\<forall>q. first_queue (lbase s) (i + 1) q \<longrightarrow>
         (\<exists>t. es = (hd (activequeues (lbase s) ! q), ev_res (lbase s) (hd (activequeues (lbase s) ! q)), q) # t)"
      using Suc.IH [OF Suc.prems(1) i(2)] by blast
    have "first_queue (lbase s) (i + 1) q" if "first_queue (lbase s) i q" for q
      using that True by (auto simp: first_queue_def) (metis Suc_leI le_neq_implies_less)
    then show ?thesis using r True i(1)
      by (intro exI [of _ r] exI [of _ s'] exI [of _ es]) (auto simp: Suc_le_eq)
  next
    case False
    define s1 where "s1 = s\<lparr>lbase := (lbase s)\<lparr>event_running_priority := int i\<rparr>\<rparr>"
    have s1: "dispatch_ok (lbase s1)" "activequeues (lbase s1) = activequeues (lbase s)" "ran_log s1 = ran_log s"
      "ext (lbase s1) = ext (lbase s)" "ev_res (lbase s1) = ev_res (lbase s)" "tame (lbase s) (lbase s1)"
      using Suc.prems(1) by (simp_all add: s1_def running_priority_ok tame_def ext_def fun_eq_iff)
    obtain c s2 es where c: "event_process_active_single_queue env pg i 0 s1 = Some (Inr c, s2)" "tame (lbase s1) (lbase s2)"
      "ran_log s2 = ran_log s @ es" "\<forall>x\<in>set es. snd (snd x) = i" "c = - 1 \<or> c = externals (lbase s) es"
      "starts_with (lbase s1) i es"
      using single_queue_spec [OF pg env s1(1), of i 0] i(1) s1 by (auto simp: externals_def)
    obtain ev rest where ev: "activequeues (lbase s) ! i = ev # rest" using False by (cases "activequeues (lbase s) ! i") auto
    obtain t where t: "es = (ev, ev_res (lbase s) ev, i) # t" using c(6) s1 ev by (auto simp: starts_with_def)
    have first: "\<exists>t. es @ fs = (hd (activequeues (lbase s) ! q), ev_res (lbase s) (hd (activequeues (lbase s) ! q)), q) # t"
      if "first_queue (lbase s) i q" for q fs
    proof -
      have "q = i" using that False by (auto simp: first_queue_def)
      then show ?thesis using t ev by simp
    qed
    have pri: "by_priority (lbase s) es"
    proof -
      have "map (\<lambda>x. snd (snd x)) es = replicate (length es) i" using c(4) by (simp add: map_replicate_const [symmetric])
      then show ?thesis using c(4) by (simp add: by_priority_def)
    qed
    have t2: "tame (lbase s) (lbase s2)" using tame_trans [OF s1(6) c(2)] .
    show ?thesis
    proof (cases "c = 0")
      case False
      have "queue_scan env pg i (Suc n) 0 s = Some (Inr c, s2)"
        using False \<open>activequeues (lbase s) ! i \<noteq> []\<close> i(1) c(1) by (simp add: s1_def)
      then show ?thesis using t2 c(3,4,5) pri first [of _ "[]"]
        by (intro exI [of _ c] exI [of _ s2] exI [of _ es]) (simp del: queue_scan.simps)
    next
      case True
      have ok2: "dispatch_ok (lbase s2)" "i + 1 + n = length (activequeues (lbase s2))" "ext (lbase s2) = ext (lbase s)"
        using t2 i(2) by (simp_all add: tame_def)
      obtain r s3 fs where r: "queue_scan env pg (i + 1) n 0 s2 = Some (Inr r, s3)" "tame (lbase s2) (lbase s3)"
        "ran_log s3 = ran_log s2 @ fs" "\<forall>x\<in>set fs. i + 1 \<le> snd (snd x)" "by_priority (lbase s2) fs"
        "r = - 1 \<or> r = externals (lbase s2) fs"
        using Suc.IH [OF ok2(1,2)] by blast
      have "queue_scan env pg i (Suc n) 0 s = Some (Inr r, s3)"
        using True \<open>activequeues (lbase s) ! i \<noteq> []\<close> i(1) c(1) r(1) by (simp add: s1_def)
      moreover have z: "externals (lbase s) es = 0" using c(5) True by simp
      then have "externals (lbase s) (es @ fs) = externals (lbase s2) fs"
        by (simp add: externals_def ok2(3))
      moreover have "by_priority (lbase s) (es @ fs)"
      proof -
        have es: "snd (snd x) = i" "\<not> ext (lbase s) (fst x)" if "x \<in> set es" for x
          using that c(4) externals_zero [OF z] by blast+
        have fs: "i < snd (snd x)" if "x \<in> set fs" for x using that r(4) by (simp add: Suc_le_eq)
        have "\<not> ext (lbase s) (fst x)"
          if x: "x \<in> set (es @ fs)" and y: "y \<in> set (es @ fs)" and less: "snd (snd x) < snd (snd y)" for x y
        proof (cases "x \<in> set es")
          case False
          then have "x \<in> set fs" "y \<in> set fs" using x y less es(1) [of y] fs [of x] by auto
          then have "\<not> ext (lbase s2) (fst x)" using r(5) less unfolding by_priority_def by blast
          then show ?thesis by (simp add: ok2(3))
        qed (rule es(2))
        moreover have "sorted (map (\<lambda>x. snd (snd x)) (es @ fs))"
          using pri r(5) es(1) fs by (simp add: by_priority_def sorted_append less_imp_le)
        ultimately show ?thesis by (simp add: by_priority_def)
      qed
      ultimately show ?thesis using tame_trans [OF t2 r(2)] r(3,4,6) c(3,4) first [of _ fs]
        by (intro exI [of _ r] exI [of _ s3] exI [of _ "es @ fs"]) (auto simp del: queue_scan.simps)
    qed
  qed
qed

lemma deferred_spec:
  assumes "well_behaved pg"
  shows "dispatch_ok (lbase s) \<Longrightarrow>
    dispatch_ok (lbase (process_deferred pg n s)) \<and> ran_log (process_deferred pg n s) = ran_log s"
proof (induction n arbitrary: s)
  case (Suc n)
  show ?case
  proof (cases "defer_queue s")
    case (Cons cb cbs)
    let ?s = "deferred pg cb (s\<lparr>defer_queue := cbs\<rparr>)"
    have d: "dispatch_ok (lbase (s\<lparr>defer_queue := cbs\<rparr>))" using Suc.prems by simp
    have "dispatch_ok (lbase ?s) \<and> ran_log ?s = ran_log (s\<lparr>defer_queue := cbs\<rparr>)"
      using assms d unfolding well_behaved_def by blast
    then show ?thesis using Cons Suc.IH [of ?s] by (simp add: Let_def)
  qed (use Suc.prems in simp)
qed simp

lemma process_active_spec:
  assumes pg: "well_behaved pg" and env: "clock_ok env" and b: "dispatch_ok (lbase s)"
  shows "\<exists>r s' es. event_process_active env pg s = Some (Inr r, s') \<and> dispatch_ok (lbase s') \<and>
      ran_log s' = ran_log s @ es \<and> by_priority (lbase s) es \<and> (r = - 1 \<or> r = externals (lbase s) es) \<and>
      (\<forall>q. first_queue (lbase s) 0 q \<longrightarrow>
         (\<exists>t. es = (hd (activequeues (lbase s) ! q), ev_res (lbase s) (hd (activequeues (lbase s) ! q)), q) # t))"
proof -
  have n: "0 + length (activequeues (lbase s)) = length (activequeues (lbase s))" by simp
  obtain r s1 es where r: "queue_scan env pg 0 (length (activequeues (lbase s))) 0 s = Some (Inr r, s1)"
    "tame (lbase s) (lbase s1)" "ran_log s1 = ran_log s @ es" "by_priority (lbase s) es"
    "r = - 1 \<or> r = externals (lbase s) es"
    "\<forall>q. first_queue (lbase s) 0 q \<longrightarrow>
       (\<exists>t. es = (hd (activequeues (lbase s) ! q), ev_res (lbase s) (hd (activequeues (lbase s) ! q)), q) # t)"
    using queue_scan_spec [OF pg env b n] by blast
  define s2 where "s2 = (if r < 0 then s1 else event_process_deferred_callbacks pg s1)"
  have "dispatch_ok (lbase s1)" using r(2) by (simp add: tame_def)
  then have s2: "dispatch_ok (lbase s2)" "ran_log s2 = ran_log s1"
    using deferred_spec [OF pg, of s1 MAX_DEFERRED] by (simp_all add: s2_def event_process_deferred_callbacks_def)
  have "event_process_active env pg s =
      Some (Inr r, s2\<lparr>lbase := (lbase s2)\<lparr>event_running_priority := - 1\<rparr>\<rparr>)"
    by (simp add: event_process_active_def r(1) s2_def Let_def)
  then show ?thesis using s2 r(3-6)
    by (intro exI [of _ r] exI [of _ "s2\<lparr>lbase := (lbase s2)\<lparr>event_running_priority := - 1\<rparr>\<rparr>"] exI [of _ es])
      (simp add: running_priority_ok)
qed

end
