(* ===== verification/EventRounds.thy ===== *)
theory EventRounds
  imports EventDispatch
begin

unbundle bit_operations_syntax

text \<open>
  What the dispatch loop guarantees (\<^verbatim>\<open>event_base_loop\<close> in
  \<^verbatim>\<open>src/depend/event/project/event.c\<close>): how deadlines and reported descriptors wake events, that
  rounds of the loop run without a fault, that exactly the due callbacks run, in the order of the
  priorities, and the pace of persistent timers.
\<close>

section \<open>Waking events\<close>

text \<open>What serving deadlines and reporting descriptors leave alone.\<close>

definition waking :: "event_base \<Rightarrow> event_base \<Rightarrow> bool" where
  "waking b b' \<longleftrightarrow> ev_has_base b' = ev_has_base b \<and> ev_io_timeout b' = ev_io_timeout b \<and>
     ev_closure b' = ev_closure b \<and> tv_cache b' = tv_cache b \<and> ext b' = ext b \<and>
     ev_events b' = ev_events b \<and> ev_pri b' = ev_pri b \<and> length (activequeues b') = length (activequeues b) \<and>
     event_running_priority b' = event_running_priority b \<and> event_tv b' = event_tv b \<and>
     (event_running_priority b = - 1 \<longrightarrow> event_continue b' = event_continue b)"

lemma waking_refl [simp]: "waking b b" by (simp add: waking_def)

lemma waking_trans [trans]: "waking a b \<Longrightarrow> waking b c \<Longrightarrow> waking a c" by (simp add: waking_def)

lemma waking_steady: "steady a b \<Longrightarrow> waking a b" by (simp add: waking_def steady_def)

lemma dispatch_waking:
  assumes "dispatch_ok b" and "waking b b'" and "base_ok b'" and "ev_timeout (timeheap b') = ev_timeout (timeheap b)"
    and "set (timers b') \<subseteq> set (timers b)"
  shows "dispatch_ok b'"
  using assms unfolding dispatch_ok_def waking_def by (simp, blast)

lemma waking_active: "waking b (snd (event_active_nolock env ev res n b))"
proof (cases "test (ev_flags b ev) EVLIST_ACTIVE")
  case True
  then show ?thesis by (simp add: event_active_nolock_def waking_def ext_def fun_eq_iff)
next
  case False
  define b1 where "b1 = b\<lparr>ev_res := (ev_res b)(ev := res)\<rparr>"
  define b2 where "b2 = (if int (ev_pri b1 ev) < event_running_priority b1 then b1\<lparr>event_continue := True\<rparr> else b1)"
  define b3 where "b3 = (if test (ev_events b2 ev) EV_SIGNAL then b2\<lparr>ev_ncalls := (ev_ncalls b2)(ev := n),
      ev_pncalls := (ev_pncalls b2)(ev := None)\<rparr> else b2)"
  define b4 where "b4 = count_external ev 1 b3"
  define b5 where "b5 = b4\<lparr>ev_flags := (ev_flags b4)(ev := ev_flags b4 ev OR EVLIST_ACTIVE)\<rparr>"
  have e: "waking x y" if "ev_has_base y = ev_has_base x" "ev_io_timeout y = ev_io_timeout x"
     "ev_closure y = ev_closure x" "tv_cache y = tv_cache x" "\<And>e. bit (ev_flags y e) 4 = bit (ev_flags x e) 4"
     "ev_events y = ev_events x" "ev_pri y = ev_pri x" "length (activequeues y) = length (activequeues x)"
     "event_running_priority y = event_running_priority x" "event_tv y = event_tv x"
     "event_running_priority x = - 1 \<Longrightarrow> event_continue y = event_continue x" for x y
    using that ext_flags [OF that(5)] by (simp add: waking_def)
  have "waking b b1" by (rule e) (simp_all add: b1_def)
  also have "waking b1 b2" by (rule e) (simp_all add: b2_def)
  also have "waking b2 b3" by (rule e) (simp_all add: b3_def)
  also have "waking b3 b4" by (rule e) (simp_all add: b4_def count_external_def)
  also have "waking b4 b5" by (rule e) (simp_all add: b5_def flag_simps)
  finally have w: "waking b b5" .
  have "waking b5 (b5\<lparr>event_count_active := event_count_active b5 + 1, activequeues := (activequeues b5)[i := l]\<rparr>)" for i l
    by (rule e) simp_all
  note w2 = waking_trans [OF w this]
  have w3: "waking b b3" using \<open>waking b b1\<close> \<open>waking b1 b2\<close> \<open>waking b2 b3\<close> by (blast intro: waking_trans)
  have ins: "waking b (snd (event_queue_insert env ev EVLIST_ACTIVE b3))"
    unfolding event_queue_insert_def Let_def b4_def [symmetric] b5_def [symmetric]
    using w w2 w3 by (simp add: flag_simps split: option.split)
  have "event_active_nolock env ev res n b = event_queue_insert env ev EVLIST_ACTIVE b3"
    using False by (simp only: event_active_nolock_def Let_def b1_def b2_def b3_def if_False)
  then show ?thesis using ins by simp
qed

lemma waking_timeout_loop: "timeout_loop env now b = Some y \<Longrightarrow> waking b (snd y)"
proof (erule timeout_loop.raw_induct [where P = "\<lambda>env now b y. waking b (snd y)", rotated])
  fix loop env now b y
  assume IH: "\<And>env now b y. loop env now b = Some y \<Longrightarrow> waking b (snd y)"
    and run: "(case min_heap_top (timeheap b) of None \<Rightarrow> Some (Inl BadAccess, b) | Some None \<Rightarrow> Some (Inr (), b)
       | Some (Some ev) \<Rightarrow>
           if evutil_timercmp (ev_timeout (timeheap b) ev) now (>) then Some (Inr (), b)
           else case bindM (event_del_internal env ev) (\<lambda>_. event_active_nolock env ev EV_TIMEOUT 1) b of
               (Inl f, b') \<Rightarrow> Some (Inl f, b') | (Inr _, b') \<Rightarrow> loop env now b') = Some y"
  have one: "waking b (snd (bindM (event_del_internal env ev) (\<lambda>_. event_active_nolock env ev EV_TIMEOUT 1) b))" for ev
  proof -
    have "keeps (waking b) (event_del_internal env ev)"
    proof (rule keepsI)
      fix c assume "waking b c"
      moreover have "waking c (snd (event_del_internal env ev c))"
        using keepsD [OF steady_del steady_refl] waking_steady by blast
      ultimately show "waking b (snd (event_del_internal env ev c))" by (rule waking_trans)
    qed
    moreover have "keeps (waking b) (event_active_nolock env ev EV_TIMEOUT 1)"
      using waking_active waking_trans by (blast intro: keepsI)
    ultimately have "keeps (waking b) (bindM (event_del_internal env ev) (\<lambda>_. event_active_nolock env ev EV_TIMEOUT 1))"
      by (rule keeps_bindM)
    then show ?thesis using keepsD by fastforce
  qed
  show "waking b (snd y)"
  proof (cases "min_heap_top (timeheap b)")
    case (Some top)
    show ?thesis
    proof (cases top)
      case (Some ev)
      obtain x b1 where m: "bindM (event_del_internal env ev) (\<lambda>_. event_active_nolock env ev EV_TIMEOUT 1) b = (x, b1)"
        by (meson surj_pair)
      have w: "waking b b1" using one [of ev] m by simp
      show ?thesis
      proof (cases "evutil_timercmp (ev_timeout (timeheap b) ev) now (>)")
        case True
        then have "Some y = Some (Inr (), b)" using run \<open>min_heap_top (timeheap b) = Some top\<close> Some by simp
        then show ?thesis by simp
      next
        case False
        show ?thesis
        proof (cases x)
          case (Inl f)
          then have "Some y = Some (Inl f, b1)"
            using run m False \<open>min_heap_top (timeheap b) = Some top\<close> Some by simp
          then show ?thesis using w by simp
        next
          case (Inr u)
          then have "loop env now b1 = Some y"
            using run m False \<open>min_heap_top (timeheap b) = Some top\<close> Some by simp
          then show ?thesis using IH w waking_trans by blast
        qed
      qed
    qed (use run Some in auto)
  qed (use run in auto)
qed

lemma drained_timeouts:
  "heap_ok h \<Longrightarrow> distinct es \<Longrightarrow> set es \<subseteq> set (elems h) \<Longrightarrow> ev_timeout (fold heap_out es h) = ev_timeout h"
proof (induction es arbitrary: h)
  case (Cons e es)
  have e: "e \<in> set (elems h)" using Cons.prems(3) by simp
  note out = heap_out_spec [OF Cons.prems(1) e]
  have "heap_ok (heap_out e h)" "ev_timeout (heap_out e h) = ev_timeout h" using out(2) by (simp_all add: taken_out_def)
  moreover have "set es \<subseteq> set (elems (heap_out e h))" using out(3) Cons.prems(2,3) by auto
  ultimately show ?case using Cons.IH [of "heap_out e h"] Cons.prems(2) by simp
qed simp

text \<open>Serving the deadlines wakes the events that are due and keeps the base fit.\<close>

lemma timeout_spec:
  assumes b: "dispatch_ok b" and env: "clock_ok env" and now: "gettime env b = Some now"
  shows "\<exists>es b'. timeout_process env b = Some (Inr (), b') \<and> dispatch_ok b' \<and> served es b b' \<and> waking b b' \<and>
    set es = {e \<in> set (timers b). ev_timeout (timeheap b) e \<le> now} \<and> distinct es"
proof -
  have ok: "base_ok b" and e: "env_ok env" using b env by (simp_all add: dispatch_ok_def clock_ok_def)
  obtain es b' where r: "timeout_process env b = Some (Inr (), b')" "base_ok b'" "served es b b'"
    "set es = {e \<in> set (timers b). ev_timeout (timeheap b) e \<le> now}" "distinct es"
    "set (timers b') = set (timers b) - set es"
    using process_spec [OF ok e now] by blast
  have w: "waking b b'"
    using r(1) now waking_timeout_loop [of env now b "(Inr (), b')"]
    by (simp add: timeout_process_def split: if_splits)
  have "heap_ok (timeheap b)" using ok by (simp add: base_ok_def queues_ok_def)
  then have "ev_timeout (timeheap b') = ev_timeout (timeheap b)"
    using drained_timeouts [of "timeheap b" es] r(3,4,5) by (simp add: served_def timers_def)
  from dispatch_waking [OF b w r(2) this] show ?thesis using r w by blast
qed

text \<open>The events of a descriptor wake when the backend reports it.\<close>

definition on_active :: "event_base \<Rightarrow> event \<Rightarrow> bool" where
  "on_active b e \<longleftrightarrow> (\<exists>q\<in>set (activequeues b). e \<in> set q)"

lemma on_active_bit: "base_ok b \<Longrightarrow> on_active b e \<longleftrightarrow> bit (ev_flags b e) 3"
proof -
  assume ok: "base_ok b"
  have i: "e \<in> set (activequeues b ! i) \<longleftrightarrow> bit (ev_flags b e) 3 \<and> ev_pri b e = i" if "i < length (activequeues b)" for i
    using ok that by (simp add: base_ok_def queues_ok_def flags_ok_def)
  have p: "ev_pri b e < length (activequeues b)" if "bit (ev_flags b e) 3"
    using ok that by (auto simp: base_ok_def queues_ok_def events_ok_def)
  have "on_active b e \<longleftrightarrow> (\<exists>i<length (activequeues b). e \<in> set (activequeues b ! i))"
    unfolding on_active_def by (metis in_set_conv_nth)
  also have "\<dots> \<longleftrightarrow> bit (ev_flags b e) 3" using i p by blast
  finally show ?thesis .
qed

definition woken :: "(event \<Rightarrow> bool) \<Rightarrow> event_base \<Rightarrow> event_base \<Rightarrow> bool" where
  "woken W b b' \<longleftrightarrow> waking b b' \<and> timeheap b' = timeheap b \<and> eventqueue b' = eventqueue b \<and> ev_fd b' = ev_fd b \<and>
     io b' = io b \<and> (\<forall>e. bit (ev_flags b' e) 3 \<longleftrightarrow> bit (ev_flags b e) 3 \<or> W e)"

lemma woken_trans:
  assumes "woken V a b" and "woken W b c" and "\<And>e. X e \<longleftrightarrow> V e \<or> W e"
  shows "woken X a c"
  using assms unfolding woken_def waking_def by simp

lemma activate_spec:
  assumes b: "dispatch_ok b" and base: "ev_has_base b ev"
  shows "\<exists>b'. event_active_nolock env ev res n b = (Inr (), b') \<and> dispatch_ok b' \<and> woken (\<lambda>e. e = ev) b b'"
proof -
  have ok: "base_ok b" using b by (simp add: dispatch_ok_def)
  obtain b' where b': "event_active_nolock env ev res n b = (Inr (), b')" "base_ok b'" "activated ev b b'"
    using active_spec [OF ok base] by blast
  have w: "waking b b'" using waking_active [of b env ev res n] b'(1) by simp
  have "dispatch_ok b'" using dispatch_waking [OF b w b'(2)] b'(3) by (simp add: activated_def timers_def)
  moreover have "bit (ev_flags b' e) 3 \<longleftrightarrow> bit (ev_flags b e) 3 \<or> e = ev" for e
    using b'(3) by (cases "e = ev") (simp_all add: activated_def)
  ultimately show ?thesis using b'(1,3) w by (auto simp: woken_def activated_def)
qed

lemma io_active_spec:
  assumes b: "dispatch_ok b" and fd: "0 \<le> fd" "nat fd < length (io b)" "io b ! nat fd = Some ctx"
  shows "\<exists>b'. evmap_io_active env fd evs b = (Inr (), b') \<and> dispatch_ok b' \<and>
    woken (\<lambda>e. e \<in> set (eventqueue b) \<and> ev_fd b e = fd \<and> test (ev_events b e) evs) b b'"
proof -
  define step :: "event \<Rightarrow> unit ev_op \<Rightarrow> unit ev_op" where "step = (\<lambda>ev k. seqM (\<lambda>b. if test (ev_events b ev) evs
      then event_active_nolock env ev (ev_events b ev AND evs) 1 b else (Inr (), b)) k)"
  have run: "\<exists>c'. foldr step es (returnM ()) c = (Inr (), c') \<and> dispatch_ok c' \<and>
      woken (\<lambda>e. e \<in> set es \<and> test (ev_events c e) evs) c c'"
    if "dispatch_ok c" "\<And>e. e \<in> set es \<Longrightarrow> ev_has_base c e" for es c
    using that
  proof (induction es arbitrary: c)
    case Nil
    then show ?case by (simp add: woken_def)
  next
    case (Cons e es)
    obtain c1 where c1: "(if test (ev_events c e) evs then event_active_nolock env e (ev_events c e AND evs) 1 c else (Inr (), c)) =
        (Inr (), c1)" "dispatch_ok c1" "woken (\<lambda>x. x = e \<and> test (ev_events c e) evs) c c1"
    proof (cases "test (ev_events c e) evs")
      case True
      have "ev_has_base c e" using Cons.prems(2) by simp
      from activate_spec [OF Cons.prems(1) this] obtain c1 where
        "event_active_nolock env e (ev_events c e AND evs) 1 c = (Inr (), c1)" "dispatch_ok c1" "woken (\<lambda>x. x = e) c c1"
        by blast
      then show ?thesis using True that [of c1] by simp
    next
      case False
      then show ?thesis using that [of c] Cons.prems(1) by (simp add: woken_def)
    qed
    have "ev_has_base c1 x" if "x \<in> set es" for x
      using Cons.prems(2) that c1(3) by (simp add: woken_def waking_def)
    from Cons.IH [OF c1(2) this] obtain c2 where
      c2: "foldr step es (returnM ()) c1 = (Inr (), c2)" "dispatch_ok c2"
        "woken (\<lambda>e. e \<in> set es \<and> test (ev_events c1 e) evs) c1 c2" by blast
    have "foldr step (e # es) (returnM ()) c = (Inr (), c2)"
      using c1(1) c2(1) by (simp add: step_def seqM_Inr)
    moreover have "woken (\<lambda>x. x \<in> set (e # es) \<and> test (ev_events c x) evs) c c2"
      using c1(3) by (intro woken_trans [OF c1(3) c2(3)]) (auto simp: woken_def waking_def)
    ultimately show ?case using c2(2) by blast
  qed
  have "slot_ok b (set (eventqueue b)) (nat fd) (io_ctx b (nat fd)) (interest (backend_log b) (int (nat fd)))"
    using b unfolding dispatch_ok_def base_ok_def io_ok_def by blast
  then have evs: "set (io_events ctx) = {e \<in> set (eventqueue b). rw b e \<and> ev_fd b e = fd}"
    using fd by (simp add: io_ctx_def slot_ok_def)
  have on: "ev_has_base b e \<and> rw b e" if "e \<in> set (eventqueue b)" for e
    using b that by (auto simp: dispatch_ok_def base_ok_def queues_ok_def flags_ok_def events_ok_def)
  obtain b' where b': "foldr step (io_events ctx) (returnM ()) b = (Inr (), b')" "dispatch_ok b'"
    "woken (\<lambda>e. e \<in> set (io_events ctx) \<and> test (ev_events b e) evs) b b'"
    using run [OF b, of "io_events ctx"] evs on by auto
  have "evmap_io_active env fd evs b = (Inr (), b')"
    using fd b'(1) by (simp add: evmap_io_active_def step_def)
  moreover have "woken (\<lambda>e. e \<in> set (eventqueue b) \<and> ev_fd b e = fd \<and> test (ev_events b e) evs) b b'"
    using b'(3) evs on by (auto simp: woken_def)
  ultimately show ?thesis using b'(2) by blast
qed

text \<open>The backend reports only descriptors it was asked to watch.\<close>

definition watched :: "event_base \<Rightarrow> int \<Rightarrow> bool" where
  "watched b fd \<longleftrightarrow> 0 \<le> fd \<and> test (interest (backend_log b) fd) (EV_READ OR EV_WRITE)"

lemma watched_slot:
  assumes "base_ok b" and "watched b fd"
  shows "nat fd < length (io b) \<and> (\<exists>ctx. io b ! nat fd = Some ctx)"
proof (rule ccontr)
  assume no: "\<not> ?thesis"
  have "slot_ok b (set (eventqueue b)) (nat fd) (io_ctx b (nat fd)) (interest (backend_log b) fd)"
    using assms by (auto simp: base_ok_def io_ok_def watched_def) (metis int_nat_eq)
  moreover have "io_ctx b (nat fd) = evmap_io_init" using no by (auto simp: io_ctx_def split: option.split)
  ultimately show False using assms(2) by (simp add: slot_ok_def evmap_io_init_def watched_def flag_simps)
qed

lemma report_spec:
  assumes "dispatch_ok b" and "\<And>fd evs. (fd, evs) \<in> set ready \<Longrightarrow> 0 \<le> fd \<and> nat fd < length (io b) \<and> (\<exists>c. io b ! nat fd = Some c)"
  shows "\<exists>b'. report_ready env ready b = (Inr (), b') \<and> dispatch_ok b' \<and>
    woken (\<lambda>e. e \<in> set (eventqueue b) \<and> (\<exists>evs. (ev_fd b e, evs) \<in> set ready \<and> test (ev_events b e) evs)) b b'"
  using assms
proof (induction ready arbitrary: b)
  case Nil
  then show ?case by (simp add: woken_def)
next
  case (Cons r ready)
  obtain fd evs where r: "r = (fd, evs)" by (cases r)
  obtain c where fd: "0 \<le> fd" "nat fd < length (io b)" "io b ! nat fd = Some c" using Cons.prems(2) [of fd evs] r by auto
  obtain b1 where b1: "evmap_io_active env fd evs b = (Inr (), b1)" "dispatch_ok b1"
    "woken (\<lambda>e. e \<in> set (eventqueue b) \<and> ev_fd b e = fd \<and> test (ev_events b e) evs) b b1"
    using io_active_spec [OF Cons.prems(1) fd] by blast
  have io: "io b1 = io b" using b1(3) by (simp add: woken_def)
  obtain b2 where b2: "report_ready env ready b1 = (Inr (), b2)" "dispatch_ok b2"
    "woken (\<lambda>e. e \<in> set (eventqueue b1) \<and> (\<exists>evs. (ev_fd b1 e, evs) \<in> set ready \<and> test (ev_events b1 e) evs)) b1 b2"
    using Cons.IH [OF b1(2)] Cons.prems(2) io by auto
  have "report_ready env (r # ready) b = (Inr (), b2)" using b1(1) b2(1) r by (simp add: seqM_Inr)
  moreover have "woken (\<lambda>e. e \<in> set (eventqueue b) \<and> (\<exists>evs. (ev_fd b e, evs) \<in> set (r # ready) \<and> test (ev_events b e) evs)) b b2"
    using b1(3) r by (intro woken_trans [OF b1(3) b2(3)]) (auto simp: woken_def waking_def)
  ultimately show ?case using b2(2) by blast
qed

section \<open>Rounds of the loop\<close>

definition round_ok :: "round \<Rightarrow> bool" where
  "round_ok rd \<longleftrightarrow> clock_ok (before rd) \<and> clock_ok (after rd) \<and>
     (\<forall>tv b fd evs. (fd, evs) \<in> set (snd (backend rd tv b)) \<longrightarrow> watched b fd)"

lemma dispatch_ok_cache: "dispatch_ok b \<Longrightarrow> time_ok t \<Longrightarrow> dispatch_ok (b\<lparr>tv_cache := t\<rparr>)"
proof -
  have "ext (b\<lparr>tv_cache := t\<rparr>) = ext b" "rw (b\<lparr>tv_cache := t\<rparr>) = rw b" by (simp_all add: ext_def rw_def fun_eq_iff)
  moreover have "io_ok W (b\<lparr>tv_cache := t\<rparr>) = io_ok W b" for W
    by (simp add: io_ok_def io_ctx_def slot_ok_def users_def rw_def)
  ultimately have "base_ok (b\<lparr>tv_cache := t\<rparr>) = base_ok b"
    by (simp add: base_ok_def queues_ok_def flags_ok_def events_ok_def counts_ok_def timers_def plain_events_def)
  then show "dispatch_ok b \<Longrightarrow> time_ok t \<Longrightarrow> dispatch_ok (b\<lparr>tv_cache := t\<rparr>)" by (simp add: dispatch_ok_def timers_def)
qed

text \<open>A clock that has gone back: the deadlines are shifted, and the heap stays a heap.\<close>

definition micros :: "timeval \<Rightarrow> int" where
  "micros t = tv_sec t * 1000000 + tv_usec t"

lemma micros_add: "micros (evutil_timeradd t u) = micros t + micros u"
  by (simp add: micros_def evutil_timeradd_def Let_def)

lemma micros_sub: "micros (evutil_timersub t u) = micros t - micros u"
  by (simp add: micros_def evutil_timersub_def Let_def)

lemma micros_less: "time_ok t \<Longrightarrow> time_ok u \<Longrightarrow> evutil_timercmp t u (<) \<longleftrightarrow> micros t < micros u"
  by (simp add: micros_def evutil_timercmp_def time_ok_def) linarith

lemma timersub_ok: "time_ok t \<Longrightarrow> time_ok u \<Longrightarrow> time_ok (evutil_timersub t u)"
  by (simp add: time_ok_def evutil_timersub_def Let_def)

lemma micros_le: "time_ok t \<Longrightarrow> time_ok u \<Longrightarrow> t \<le> u \<longleftrightarrow> micros t \<le> micros u"
  using micros_less [of u t] by (simp add: timercmp_less not_less [symmetric])

lemma timersub_mono:
  assumes "t \<le> u" and "time_ok t" "time_ok u" "time_ok off"
  shows "evutil_timersub t off \<le> evutil_timersub u off"
  using assms micros_le [OF assms(2,3)] micros_le [OF timersub_ok [OF assms(2,4)] timersub_ok [OF assms(3,4)]]
  by (simp add: micros_sub)

lemma fold_updates:
  "distinct xs \<Longrightarrow> fold (\<lambda>e t. t(e := f (t e))) xs g = (\<lambda>e. if e \<in> set xs then f (g e) else g e)"
  by (induction xs arbitrary: g) (auto simp: fun_eq_iff)

lemma shift_spec:
  assumes h: "heap_ok h" and times: "\<And>e. e \<in> set (elems h) \<Longrightarrow> time_ok (ev_timeout h e)" "time_ok off"
  shows "heap_ok (shift_deadlines off h)" "elems (shift_deadlines off h) = elems h"
    "ev_timeout (shift_deadlines off h) e =
       (if e \<in> set (elems h) then evutil_timersub (ev_timeout h e) off else ev_timeout h e)"
proof -
  have t: "ev_timeout (shift_deadlines off h) =
      (\<lambda>e. if e \<in> set (elems h) then evutil_timersub (ev_timeout h e) off else ev_timeout h e)"
    using h fold_updates [of "elems h" "\<lambda>t. evutil_timersub t off" "ev_timeout h"]
    by (simp add: shift_deadlines_def heap_ok_def)
  then show "ev_timeout (shift_deadlines off h) e =
      (if e \<in> set (elems h) then evutil_timersub (ev_timeout h e) off else ev_timeout h e)" by simp
  show el: "elems (shift_deadlines off h) = elems h" by (simp add: shift_deadlines_def elems_def)
  have f: "mh_p (shift_deadlines off h) = mh_p h" "mh_n (shift_deadlines off h) = mh_n h"
    "mh_a (shift_deadlines off h) = mh_a h" "min_heap_idx (shift_deadlines off h) = min_heap_idx h"
    by (simp_all add: shift_deadlines_def)
  have mem: "mh_p h ! i \<in> set (elems h)" if "i < unat (mh_n h)" for i
    using that h by (auto simp: elems_def heap_ok_def in_set_conv_nth intro!: exI [of _ i])
  have "ordered (deadline_at (shift_deadlines off h) (mh_p h)) (unat (mh_n h))"
    unfolding ordered_def
  proof (intro allI impI)
    fix i assume i: "i < unat (mh_n h)" "0 < i"
    have p: "par i < unat (mh_n h)" using par_less [OF i(2)] i(1) by simp
    have "deadline_at h (mh_p h) (par i) \<le> deadline_at h (mh_p h) i" using h i by (simp add: heap_ok_def ordered_def)
    then show "deadline_at (shift_deadlines off h) (mh_p h) (par i) \<le> deadline_at (shift_deadlines off h) (mh_p h) i"
      using mem [OF i(1)] mem [OF p] by (simp add: deadline_at_def t timersub_mono times)
  qed
  then show "heap_ok (shift_deadlines off h)" using h by (simp add: heap_ok_def f el)
qed

lemma dispatch_ok_tv: "dispatch_ok b \<Longrightarrow> time_ok t \<Longrightarrow> dispatch_ok (b\<lparr>event_tv := t\<rparr>)"
proof -
  have fr: "frame b (b\<lparr>event_tv := t\<rparr>)" by (simp add: frame_def)
  have "ext (b\<lparr>event_tv := t\<rparr>) = ext b" by (simp add: ext_def fun_eq_iff)
  then have "base_ok (b\<lparr>event_tv := t\<rparr>) = base_ok b" using frame_io [OF fr]
    by (simp add: base_ok_def queues_ok_def flags_ok_def events_ok_def counts_ok_def timers_def)
  then show "dispatch_ok b \<Longrightarrow> time_ok t \<Longrightarrow> dispatch_ok (b\<lparr>event_tv := t\<rparr>)" by (simp add: dispatch_ok_def timers_def)
qed

lemma correct_spec:
  assumes b: "dispatch_ok b" and env: "clock_ok env"
  shows "\<exists>tv h. gettime env b = Some tv \<and> timeout_correct env monotonic b =
      (Inr (), if monotonic then b else b\<lparr>timeheap := h, event_tv := tv\<rparr>) \<and>
    dispatch_ok (b\<lparr>timeheap := h, event_tv := tv\<rparr>) \<and> elems h = timers b \<and>
    (\<forall>e. ev_timeout h e = (if tv < event_tv b \<and> e \<in> set (timers b)
       then evutil_timersub (ev_timeout (timeheap b) e) (evutil_timersub (event_tv b) tv) else ev_timeout (timeheap b) e)) \<and>
    (event_tv b \<le> tv \<longrightarrow> h = timeheap b)"
proof -
  have t: "time_ok (tv_cache b)" "time_ok (event_tv b)" and h: "heap_ok (timeheap b)"
    using b by (simp_all add: dispatch_ok_def base_ok_def queues_ok_def)
  obtain tv where tv: "gettime env b = Some tv" "time_ok tv" using gettime_ok [OF env t(1)] by blast
  define off where "off = evutil_timersub (event_tv b) tv"
  define k where "k = (if tv < event_tv b then shift_deadlines off (timeheap b) else timeheap b)"
  have off: "time_ok off" using timersub_ok t(2) tv(2) by (simp add: off_def)
  have tm: "time_ok (ev_timeout (timeheap b) e)" if "e \<in> set (elems (timeheap b))" for e
    using b that by (simp add: dispatch_ok_def timers_def)
  note sh = shift_spec [OF h tm off]
  have k: "heap_ok k" "elems k = timers b" using h sh by (simp_all add: k_def timers_def)
  have "base_ok (b\<lparr>timeheap := k\<rparr>)" using b k by (intro base_ok_heap) (simp_all add: dispatch_ok_def)
  then have "dispatch_ok (b\<lparr>timeheap := k\<rparr>)"
    using b off timersub_ok sh(2,3) tm by (auto simp: dispatch_ok_def k_def timers_def)
  from dispatch_ok_tv [OF this tv(2)] have "dispatch_ok (b\<lparr>timeheap := k, event_tv := tv\<rparr>)" .
  moreover have "n_common_timeouts b = 0" using b by (simp add: dispatch_ok_def base_ok_def queues_ok_def)
  moreover have "evutil_timercmp tv (event_tv b) (\<ge>) \<longleftrightarrow> \<not> tv < event_tv b"
    by (auto simp: evutil_timercmp_def less_timeval_def)
  ultimately show ?thesis
    using tv(1) k sh(3)
    by (intro exI [of _ tv] exI [of _ k])
      (auto simp: timeout_correct_def Let_def off_def [symmetric] k_def timers_def)
qed

lemma clear_ok: "dispatch_ok b \<Longrightarrow> dispatch_ok (clear_time_cache b)"
  unfolding clear_time_cache_def by (rule dispatch_ok_cache) (simp_all add: dispatch_ok_def time_ok_def)

lemma update_ok:
  assumes "dispatch_ok b" and "clock_ok env"
  shows "\<exists>now tv. update_time_cache env nc b = (clear_time_cache b)\<lparr>tv_cache := tv\<rparr> \<and> clock env = Some now \<and>
    dispatch_ok (update_time_cache env nc b) \<and> gettime env (update_time_cache env nc b) = Some now"
proof -
  obtain now where now: "clock env = Some now" "time_ok now" using assms(2) by (auto simp: clock_ok_def env_ok_def env_works_def)
  define tv where "tv = (if nc then tv_cache (clear_time_cache b) else now)"
  have u: "update_time_cache env nc b = (clear_time_cache b)\<lparr>tv_cache := tv\<rparr>"
    using now(1) by (simp add: update_time_cache_def gettime_def clear_time_cache_def tv_def)
  have "time_ok tv" using now(2) clear_ok [OF assms(1)] by (simp add: tv_def dispatch_ok_def)
  then have "dispatch_ok (update_time_cache env nc b)"
    unfolding u by (rule dispatch_ok_cache [OF clear_ok [OF assms(1)]])
  then show ?thesis using u now(1) by (auto simp: gettime_def tv_def clear_time_cache_def)
qed

lemma wait_spec:
  assumes b: "dispatch_ok (lbase s)" and env: "clock_ok env"
  shows "\<exists>tv. wait_time env nonblock s = Inr tv"
proof -
  let ?b = "lbase s"
  have h: "heap_ok (timeheap ?b)" and t: "time_ok (tv_cache ?b)"
    using b by (simp_all add: dispatch_ok_def base_ok_def queues_ok_def)
  obtain now where now: "gettime env ?b = Some now" using gettime_ok [OF env t] by blast
  obtain top where "min_heap_top (timeheap ?b) = Some top"
    using top_spec(1,2) [OF h] by (cases "elems (timeheap ?b) = []") auto
  then show ?thesis using now by (auto simp: wait_time_def timeout_next_def split: option.split)
qed

lemma serve_spec:
  assumes pg: "well_behaved pg" and b: "dispatch_ok (lbase s)" and env: "clock_ok env"
  shows "\<exists>r s' es. serve pg once nonblock env s = Some (Inr r, s') \<and> dispatch_ok (lbase s') \<and>
    ran_log s' = ran_log s @ es \<and> r \<in> {None, Some 0}"
proof -
  let ?u = "update_time_cache env (no_cache_time s) (lbase s)"
  obtain now where u: "dispatch_ok ?u" "gettime env ?u = Some now" using update_ok [OF b env] by blast
  obtain b1 where b1: "timeout_process env ?u = Some (Inr (), b1)" "dispatch_ok b1"
    using timeout_spec [OF u(1) env u(2)] by blast
  show ?thesis
  proof (cases "N_ACTIVE_CALLBACKS (s\<lparr>lbase := b1\<rparr>) = 0")
    case True
    then show ?thesis using b1
      by (intro exI [of _ "if nonblock then Some 0 else None"] exI [of _ "s\<lparr>lbase := b1\<rparr>"] exI [of _ "[]"])
        (simp add: serve_def)
  next
    case False
    have "dispatch_ok (lbase (s\<lparr>lbase := b1\<rparr>))" using b1(2) by simp
    from process_active_spec [OF pg env this] obtain n s' es where
      n: "event_process_active env pg (s\<lparr>lbase := b1\<rparr>) = Some (Inr n, s')" "dispatch_ok (lbase s')" "ran_log s' = ran_log s @ es"
      by auto
    then show ?thesis using False b1(1)
      by (intro exI [of _ "if once \<and> N_ACTIVE_CALLBACKS s' = 0 \<and> n \<noteq> 0 then Some 0 else None"]
          exI [of _ s'] exI [of _ es]) (simp add: serve_def)
  qed
qed

text \<open>A loop with nothing to wait for and nothing to call.\<close>

definition idle_loop :: "ev_loop \<Rightarrow> bool" where
  "idle_loop s \<longleftrightarrow> \<not> event_haveevents (lbase s) \<and> N_ACTIVE_CALLBACKS s = 0"

text \<open>The base the backend is asked about in a round, if the clock has not gone back.\<close>

definition polled :: "timeval \<Rightarrow> event_base \<Rightarrow> event_base" where
  "polled t b = clear_time_cache (b\<lparr>event_continue := False, event_tv := t\<rparr>)"

lemma polled_fields [simp]:
  "eventqueue (polled t b) = eventqueue b" "activequeues (polled t b) = activequeues b" "ev_fd (polled t b) = ev_fd b"
  "ev_events (polled t b) = ev_events b" "timeheap (polled t b) = timeheap b" "ev_flags (polled t b) = ev_flags b"
  "io (polled t b) = io b" "ext (polled t b) = ext b" "event_continue (polled t b) = False"
  "event_running_priority (polled t b) = event_running_priority b" "ev_pri (polled t b) = ev_pri b"
  "ev_has_base (polled t b) = ev_has_base b"
  by (simp_all add: polled_def clear_time_cache_def ext_def fun_eq_iff)

lemma polled_ok: "dispatch_ok b \<Longrightarrow> time_ok t \<Longrightarrow> dispatch_ok (polled t b)"
  unfolding polled_def by (intro clear_ok dispatch_ok_tv) (simp_all add: running_priority_ok)

lemma wait_cong:
  assumes "event_count_active b' = event_count_active (lbase s)" and "timeheap b' = timeheap (lbase s)"
    and "tv_cache b' = tv_cache (lbase s)"
  shows "wait_time env nonblock (s\<lparr>lbase := b'\<rparr>) = wait_time env nonblock s"
proof -
  have "timeout_next env b' = timeout_next env (lbase s)" unfolding timeout_next_def assms(2) gettime_cong [OF assms(3)] ..
  then show ?thesis using assms(1) by (simp add: wait_time_def N_ACTIVE_CALLBACKS_def)
qed

definition unhurried :: "ev_env \<Rightarrow> ev_loop \<Rightarrow> bool" where
  "unhurried env s \<longleftrightarrow> use_monotonic s \<or> (\<forall>t. gettime env (lbase s) = Some t \<longrightarrow> event_tv (lbase s) \<le> t)"

lemma round_head:
  assumes b: "dispatch_ok (lbase s)" and env: "clock_ok env"
  shows "\<exists>c tv t. timeout_correct env (use_monotonic s) ((lbase s)\<lparr>event_continue := False\<rparr>) = (Inr (), c) \<and>
    wait_time env nonblock (s\<lparr>lbase := c\<rparr>) = Inr tv \<and> idle_loop (s\<lparr>lbase := c\<rparr>) = idle_loop s \<and> dispatch_ok c \<and>
    dispatch_ok (clear_time_cache (last_time env c)) \<and> gettime env (lbase s) = Some t \<and> time_ok t \<and>
    (unhurried env s \<longrightarrow> wait_time env nonblock (s\<lparr>lbase := c\<rparr>) = wait_time env nonblock s \<and>
       clear_time_cache (last_time env c) = polled t (lbase s))"
proof -
  let ?b = "(lbase s)\<lparr>event_continue := False\<rparr>"
  have b1: "dispatch_ok ?b" using b by (simp add: running_priority_ok)
  have g: "gettime env (?b\<lparr>event_tv := u\<rparr>) = gettime env (lbase s)" "gettime env ?b = gettime env (lbase s)"
    "gettime env (?b\<lparr>timeheap := h, event_tv := u\<rparr>) = gettime env (lbase s)" for u h by (simp_all add: gettime_def)
  obtain t h where t: "gettime env ?b = Some t"
    "timeout_correct env (use_monotonic s) ?b = (Inr (), if use_monotonic s then ?b else ?b\<lparr>timeheap := h, event_tv := t\<rparr>)"
    "dispatch_ok (?b\<lparr>timeheap := h, event_tv := t\<rparr>)" "event_tv ?b \<le> t \<longrightarrow> h = timeheap ?b"
    using correct_spec [OF b1 env, of "use_monotonic s"] by blast
  have tok: "time_ok t" using gettime_ok [OF env, of ?b] b1 t(1) by (auto simp: dispatch_ok_def)
  define c where "c = (if use_monotonic s then ?b else ?b\<lparr>timeheap := h, event_tv := t\<rparr>)"
  have c: "dispatch_ok c" "gettime env c = Some t" "idle_loop (s\<lparr>lbase := c\<rparr>) = idle_loop s"
    using b1 t(1,3) g by (simp_all add: c_def idle_loop_def event_haveevents_def N_ACTIVE_CALLBACKS_def)
  have "dispatch_ok (lbase (s\<lparr>lbase := c\<rparr>))" using c(1) by simp
  then obtain tv where tv: "wait_time env nonblock (s\<lparr>lbase := c\<rparr>) = Inr tv" using wait_spec [OF _ env] by blast
  have "dispatch_ok (clear_time_cache (last_time env c))"
    using clear_ok [OF dispatch_ok_tv [OF c(1) tok]] by (simp add: last_time_def c(2))
  moreover have "wait_time env nonblock (s\<lparr>lbase := c\<rparr>) = wait_time env nonblock s \<and>
      clear_time_cache (last_time env c) = polled t (lbase s)" if un: "unhurried env s"
  proof -
    have cc: "c = ?b \<or> c = ?b\<lparr>event_tv := t\<rparr>" using un t(1,4) g by (auto simp: c_def unhurried_def)
    have "wait_time env nonblock (s\<lparr>lbase := ?b\<rparr>) = wait_time env nonblock s"
      "wait_time env nonblock (s\<lparr>lbase := ?b\<lparr>event_tv := t\<rparr>\<rparr>) = wait_time env nonblock s"
      by (rule wait_cong; simp)+
    then show ?thesis using cc c(2) by (auto simp: last_time_def polled_def)
  qed
  ultimately show ?thesis using t(1,2) g c tv tok by (intro exI [of _ c] exI [of _ tv] exI [of _ t]) (simp add: c_def)
qed

lemma round_spec:
  assumes pg: "well_behaved pg" and b: "dispatch_ok (lbase s)" and rd: "round_ok rd"
  shows "\<exists>r s' es. loop_round pg once nonblock rd s = Some (Inr r, s') \<and> dispatch_ok (lbase s') \<and>
    ran_log s' = ran_log s @ es \<and> r \<in> {None, Some 0, Some 1, Some (- 1)} \<and>
    (r = Some 1 \<longleftrightarrow> \<not> event_gotterm s \<and> \<not> event_break s \<and> idle_loop s) \<and> (r = Some 1 \<longrightarrow> idle_loop s')"
proof (cases "event_gotterm s \<or> event_break s")
  case True
  then have "loop_round pg once nonblock rd s = Some (Inr (Some 0), s\<lparr>lbase := (lbase s)\<lparr>event_continue := False\<rparr>\<rparr>)"
    by (auto simp: loop_round_def Let_def)
  then show ?thesis using True b
    by (intro exI [of _ "Some 0"] exI [of _ "s\<lparr>lbase := (lbase s)\<lparr>event_continue := False\<rparr>\<rparr>"] exI [of _ "[]"])
      (auto simp: running_priority_ok)
next
  case go: False
  have env: "clock_ok (before rd)" "clock_ok (after rd)" using rd by (simp_all add: round_ok_def)
  obtain c tv where c: "timeout_correct (before rd) (use_monotonic s) ((lbase s)\<lparr>event_continue := False\<rparr>) = (Inr (), c)"
    "wait_time (before rd) nonblock (s\<lparr>lbase := c\<rparr>) = Inr tv" "idle_loop (s\<lparr>lbase := c\<rparr>) = idle_loop s" "dispatch_ok c"
    "dispatch_ok (clear_time_cache (last_time (before rd) c))"
    using round_head [OF b env(1), of nonblock] by blast
  define s2 where "s2 = s\<lparr>lbase := clear_time_cache (last_time (before rd) c)\<rparr>"
  have s2: "dispatch_ok (lbase s2)" "ran_log s2 = ran_log s" using c(5) by (simp_all add: s2_def)
  obtain res ready where ans: "backend rd tv (lbase s2) = (res, ready)" by fastforce
  have run: "loop_round pg once nonblock rd s =
      (if idle_loop (s\<lparr>lbase := c\<rparr>) then Some (Inr (Some 1), s\<lparr>lbase := c\<rparr>)
       else if res = - 1 then Some (Inr (Some (- 1)), s2)
       else case on_base (report_ready (after rd) ready) s2 of
           (Inl f, s) \<Rightarrow> Some (Inl f, s) | (Inr _, s) \<Rightarrow> serve pg once nonblock (after rd) s)"
    using go c(1,2) ans by (simp add: loop_round_def Let_def on_base_def s2_def idle_loop_def)
  consider (idle) "idle_loop (s\<lparr>lbase := c\<rparr>)" | (failed) "\<not> idle_loop (s\<lparr>lbase := c\<rparr>)" "res = - 1" | (polled) "\<not> idle_loop (s\<lparr>lbase := c\<rparr>)" "res \<noteq> - 1" by blast
  then show ?thesis
  proof cases
    case idle
    then show ?thesis using run c(3,4) go
      by (intro exI [of _ "Some 1"] exI [of _ "s\<lparr>lbase := c\<rparr>"] exI [of _ "[]"]) simp
  next
    case failed
    then show ?thesis using run s2 c(3)
      by (intro exI [of _ "Some (- 1)"] exI [of _ s2] exI [of _ "[]"]) simp
  next
    case polled
    have slots: "0 \<le> fd \<and> nat fd < length (io (lbase s2)) \<and> (\<exists>c. io (lbase s2) ! nat fd = Some c)"
      if "(fd, evs) \<in> set ready" for fd evs
    proof -
      have "watched (lbase s2) fd" using rd that ans unfolding round_ok_def by (metis snd_conv)
      then show ?thesis using watched_slot [of "lbase s2" fd] s2(1) by (simp add: dispatch_ok_def watched_def)
    qed
    obtain b3 where b3: "report_ready (after rd) ready (lbase s2) = (Inr (), b3)" "dispatch_ok b3"
      using report_spec [OF s2(1), of ready "after rd"] slots by blast
    have "dispatch_ok (lbase (s2\<lparr>lbase := b3\<rparr>))" using b3(2) by simp
    from serve_spec [OF pg this env(2)] obtain r s4 es where
      r: "serve pg once nonblock (after rd) (s2\<lparr>lbase := b3\<rparr>) = Some (Inr r, s4)" "dispatch_ok (lbase s4)"
        "ran_log s4 = ran_log (s2\<lparr>lbase := b3\<rparr>) @ es" "r \<in> {None, Some 0}" by blast
    have "loop_round pg once nonblock rd s = Some (Inr r, s4)"
      using run polled b3(1) r(1) by (simp add: on_base_def)
    then show ?thesis using r s2(2) polled(1) c(3)
      by (intro exI [of _ r] exI [of _ s4] exI [of _ es]) auto
  qed
qed

lemma rounds_spec:
  assumes pg: "well_behaved pg"
  shows "dispatch_ok (lbase s) \<Longrightarrow> (\<And>rd. rd \<in> set rds \<Longrightarrow> round_ok rd) \<Longrightarrow>
    \<exists>r s' es. loop_rounds pg once nonblock rds s = Some (Inr r, s') \<and> dispatch_ok (lbase s') \<and>
      ran_log s' = ran_log s @ es \<and> r \<in> {None, Some 0, Some 1, Some (- 1)} \<and> (r = Some 1 \<longrightarrow> idle_loop s')"
proof (induction rds arbitrary: s)
  case Nil
  then show ?case by simp
next
  case (Cons rd rds)
  obtain r s1 es where r: "loop_round pg once nonblock rd s = Some (Inr r, s1)" "dispatch_ok (lbase s1)"
    "ran_log s1 = ran_log s @ es" "r \<in> {None, Some 0, Some 1, Some (- 1)}" "r = Some 1 \<longrightarrow> idle_loop s1"
    using round_spec [OF pg Cons.prems(1), of rd once nonblock] Cons.prems(2) [of rd] by auto
  show ?case
  proof (cases "r = None")
    case True
    obtain r2 s2 fs where "loop_rounds pg once nonblock rds s1 = Some (Inr r2, s2)" "dispatch_ok (lbase s2)"
      "ran_log s2 = ran_log s1 @ fs" "r2 \<in> {None, Some 0, Some 1, Some (- 1)}" "r2 = Some 1 \<longrightarrow> idle_loop s2"
      using Cons.IH [OF r(2)] Cons.prems(2) by (metis list.set_intros(2))
    then show ?thesis using True r by auto
  next
    case False
    then show ?thesis using r by auto
  qed
qed


section \<open>Quiet programs\<close>

text \<open>
  A program is quiet if its callbacks neither stop the loop nor activate or deactivate other
  events. Then every event of the queue being served has its callback called, once and in order.
\<close>

definition quiet :: "program \<Rightarrow> bool" where
  "quiet pg \<longleftrightarrow> well_behaved pg \<and>
     (\<forall>ev res s. activequeues (lbase (callback pg ev res s)) = activequeues (lbase s) \<and>
        event_break (callback pg ev res s) = event_break s \<and>
        event_continue (lbase (callback pg ev res s)) = event_continue (lbase s))"

lemma quiet_queue:
  assumes pg: "quiet pg" and env: "clock_ok env"
  shows "dispatch_ok (lbase s) \<Longrightarrow> q < length (activequeues (lbase s)) \<Longrightarrow> \<not> event_break s \<Longrightarrow>
    \<not> event_continue (lbase s) \<Longrightarrow> xs = activequeues (lbase s) ! q \<Longrightarrow>
    \<exists>s' es. event_process_active_single_queue env pg q c s = Some (Inr (c + externals (lbase s) es), s') \<and>
      dispatch_ok (lbase s') \<and> ran_log s' = ran_log s @ es \<and> map fst es = xs \<and> (\<forall>x\<in>set es. snd (snd x) = q)"
proof (induction xs arbitrary: s c)
  case Nil
  then have "event_process_active_single_queue env pg q c s = Some (Inr c, s)"
    by (subst event_process_active_single_queue.simps) simp
  then show ?case using Nil by (intro exI [of _ s] exI [of _ "[]"]) (simp add: externals_def)
next
  case (Cons ev rest)
  let ?x = "(ev, ev_res (lbase s) ev, q)" and ?c = "if ext (lbase s) ev then c + 1 else c"
  have wb: "well_behaved pg" using pg by (simp add: quiet_def)
  obtain s1 b1 where s1: "event_process_active_single_queue env pg q c s =
      (let c = ?c in if event_break s1 then Some (Inr (- 1), s1)
       else if event_continue (lbase s1) then Some (Inr c, s1)
       else event_process_active_single_queue env pg q c s1)"
    "tame (lbase s) (lbase s1)" "ran_log s1 = ran_log s @ [?x]"
    "s1 = callback pg ev (ev_res (lbase s) ev) (s\<lparr>lbase := b1, ran_log := ran_log s @ [?x]\<rparr>)"
    "steady (lbase s) b1" "activequeues b1 = (activequeues (lbase s))[q := rest]"
    using serve_one [OF wb Cons.prems(1) env Cons.prems(2) Cons.prems(5) [symmetric], of c] by blast
  have q: "activequeues (lbase s1) = (activequeues (lbase s))[q := rest]" "\<not> event_break s1" "\<not> event_continue (lbase s1)"
    using pg s1(4-6) Cons.prems(3,4) by (simp_all add: quiet_def steady_def)
  have "dispatch_ok (lbase s1)" "q < length (activequeues (lbase s1))" "rest = activequeues (lbase s1) ! q"
    and ext: "ext (lbase s1) = ext (lbase s)"
    using s1(2) q(1) Cons.prems(2) by (simp_all add: tame_def)
  from Cons.IH [OF this(1,2) q(2,3) this(3), of ?c] obtain s2 es where
    s2: "event_process_active_single_queue env pg q ?c s1 = Some (Inr (?c + externals (lbase s1) es), s2)"
      "dispatch_ok (lbase s2)" "ran_log s2 = ran_log s1 @ es" "map fst es = rest" "\<forall>x\<in>set es. snd (snd x) = q"
    by blast
  have "?c + externals (lbase s1) es = c + externals (lbase s) (?x # es)" by (simp add: externals_def ext)
  then have "event_process_active_single_queue env pg q c s = Some (Inr (c + externals (lbase s) (?x # es)), s2)"
    unfolding s1(1) Let_def using q s2(1) by (simp only: if_False)
  then show ?case using s2(2-5) s1(3)
    by (intro exI [of _ s2] exI [of _ "?x # es"]) simp
qed

lemma quiet_scan:
  assumes pg: "quiet pg" and env: "clock_ok env" and e: "e \<in> set (activequeues (lbase s) ! q)" "ext (lbase s) e"
    and s: "dispatch_ok (lbase s)" "\<not> event_break s" "\<not> event_continue (lbase s)"
  shows "i + n = length (activequeues (lbase s)) \<Longrightarrow> first_queue (lbase s) i q \<Longrightarrow>
    \<exists>s' es. queue_scan env pg i n 0 s = Some (Inr (externals (lbase s) es), s') \<and> dispatch_ok (lbase s') \<and>
      ran_log s' = ran_log s @ es \<and> map fst es = activequeues (lbase s) ! q \<and> (\<forall>x\<in>set es. snd (snd x) = q) \<and>
      0 < externals (lbase s) es"
proof (induction n arbitrary: i)
  case 0
  then show ?case by (auto simp: first_queue_def)
next
  case (Suc n)
  have i: "i < length (activequeues (lbase s))" using Suc.prems(1) by simp
  show ?case
  proof (cases "i = q")
    case False
    then have "activequeues (lbase s) ! i = []" "first_queue (lbase s) (i + 1) q"
      using Suc.prems(2) by (auto simp: first_queue_def)
    then show ?thesis using Suc.IH [of "i + 1"] Suc.prems(1) i by simp
  next
    case True
    define s1 where "s1 = s\<lparr>lbase := (lbase s)\<lparr>event_running_priority := int i\<rparr>\<rparr>"
    have s1: "dispatch_ok (lbase s1)" "activequeues (lbase s1) = activequeues (lbase s)" "ran_log s1 = ran_log s"
      "ext (lbase s1) = ext (lbase s)" "\<not> event_break s1" "\<not> event_continue (lbase s1)"
      using s by (simp_all add: s1_def running_priority_ok ext_def fun_eq_iff)
    have q1: "q < length (activequeues (lbase s1))" using i True s1(2) by simp
    obtain s2 es where r: "event_process_active_single_queue env pg q 0 s1 = Some (Inr (0 + externals (lbase s1) es), s2)"
      "dispatch_ok (lbase s2)" "ran_log s2 = ran_log s1 @ es" "map fst es = activequeues (lbase s1) ! q"
      "\<forall>x\<in>set es. snd (snd x) = q"
      using quiet_queue [OF pg env s1(1) q1 s1(5,6) refl, of 0] by blast
    have x: "externals (lbase s1) es = externals (lbase s) es" by (simp add: externals_def s1(4))
    have pos: "0 < externals (lbase s) es"
    proof -
      have "e \<in> fst ` set es" using e(1) r(4) s1(2) by (metis list.set_map)
      then show ?thesis using e(2) by (force simp: externals_def filter_empty_conv)
    qed
    have "queue_scan env pg i (Suc n) 0 s = Some (Inr (externals (lbase s) es), s2)"
      using i e(1) r(1) x pos True by (auto simp: s1_def)
    then show ?thesis using r s1 pos by (intro exI [of _ s2] exI [of _ es]) simp
  qed
qed

text \<open>
  In a quiet program a pass over the active events is complete for the most urgent queue: if an event
  that is not internal is waiting there, the callback of each event of that queue, and of no other, is called exactly
  once, in the order in which the events became active, and the pass reports how many were not internal.
\<close>

lemma urgent_queue_served:
  assumes "quiet pg" and "clock_ok env" and "dispatch_ok (lbase s)" and "\<not> event_break s" and "\<not> event_continue (lbase s)"
    and "first_queue (lbase s) 0 q" and "e \<in> set (activequeues (lbase s) ! q)" and "ext (lbase s) e"
  shows "\<exists>s' es. event_process_active env pg s = Some (Inr (externals (lbase s) es), s') \<and>
    ran_log s' = ran_log s @ es \<and> map fst es = activequeues (lbase s) ! q \<and> (\<forall>x\<in>set es. snd (snd x) = q) \<and>
    dispatch_ok (lbase s')"
proof -
  have n: "0 + length (activequeues (lbase s)) = length (activequeues (lbase s))" by simp
  obtain s1 es where r: "queue_scan env pg 0 (length (activequeues (lbase s))) 0 s = Some (Inr (externals (lbase s) es), s1)"
    "dispatch_ok (lbase s1)" "ran_log s1 = ran_log s @ es" "map fst es = activequeues (lbase s) ! q"
    "\<forall>x\<in>set es. snd (snd x) = q" "0 < externals (lbase s) es"
    using quiet_scan [OF assms(1,2,7,8,3,4,5) n assms(6)] by blast
  define s2 where "s2 = event_process_deferred_callbacks pg s1"
  have "well_behaved pg" using assms(1) by (simp add: quiet_def)
  then have s2: "dispatch_ok (lbase s2)" "ran_log s2 = ran_log s1"
    using deferred_spec [of pg s1 MAX_DEFERRED] r(2) by (simp_all add: s2_def event_process_deferred_callbacks_def)
  have "event_process_active env pg s =
      Some (Inr (externals (lbase s) es), s2\<lparr>lbase := (lbase s2)\<lparr>event_running_priority := - 1\<rparr>\<rparr>)"
    using r(6) by (simp add: event_process_active_def r(1) s2_def Let_def)
  then show ?thesis using s2 r(3-5)
    by (intro exI [of _ "s2\<lparr>lbase := (lbase s2)\<lparr>event_running_priority := - 1\<rparr>\<rparr>"] exI [of _ es])
      (simp add: running_priority_ok)
qed

text \<open>With no event active, a pass only makes the deferred calls.\<close>

lemma deferred_only:
  assumes "well_behaved pg" and "dispatch_ok (lbase s)" and "activequeues (lbase s) = [[]]"
  shows "\<exists>s'. event_process_active env pg s = Some (Inr 0, s') \<and> ran_log s' = ran_log s"
proof -
  have "queue_scan env pg 0 (length (activequeues (lbase s))) 0 s = Some (Inr 0, s)" using assms(3) by simp
  then show ?thesis
    using deferred_spec [OF assms(1,2), of MAX_DEFERRED]
    by (simp add: event_process_active_def Let_def event_process_deferred_callbacks_def)
qed

definition wakes :: "(int \<times> u16) list \<Rightarrow> timeval \<Rightarrow> event_base \<Rightarrow> event \<Rightarrow> bool" where
  "wakes ready now b e \<longleftrightarrow> on_active b e \<or>
     e \<in> set (eventqueue b) \<and> (\<exists>evs. (ev_fd b e, evs) \<in> set ready \<and> test (ev_events b e) evs) \<or>
     e \<in> set (timers b) \<and> ev_timeout (timeheap b) e \<le> now"

lemma woken_round:
  assumes b: "dispatch_ok b" and one: "length (activequeues b) = 1" and rp: "event_running_priority b = - 1"
    and rdy: "\<And>fd evs. (fd, evs) \<in> set ready \<Longrightarrow> watched (polled t b) fd" and t: "time_ok t" and env: "clock_ok env" "clock env = Some now"
  shows "\<exists>b1 b2. report_ready env ready (polled t b) = (Inr (), b1) \<and>
    timeout_process env (update_time_cache env nc b1) = Some (Inr (), b2) \<and> dispatch_ok b2 \<and>
    \<not> event_continue b2 \<and> length (activequeues b2) = 1 \<and> ext b2 = ext b \<and>
    set (activequeues b2 ! 0) = {e. wakes ready now b e} \<and> ev_has_base b2 = ev_has_base b"
proof -
  note p = polled_ok [OF b t]
  have slots: "0 \<le> fd \<and> nat fd < length (io (polled t b)) \<and> (\<exists>c. io (polled t b) ! nat fd = Some c)"
    if "(fd, evs) \<in> set ready" for fd evs
    using watched_slot [of "polled t b" fd] rdy [OF that] p by (simp add: dispatch_ok_def watched_def)
  obtain b1 where b1: "report_ready env ready (polled t b) = (Inr (), b1)" "dispatch_ok b1"
    "woken (\<lambda>e. e \<in> set (eventqueue b) \<and> (\<exists>evs. (ev_fd b e, evs) \<in> set ready \<and> test (ev_events b e) evs)) (polled t b) b1"
    using report_spec [OF p, of ready env] slots by auto
  let ?u = "update_time_cache env nc b1"
  obtain now' ct where u': "?u = (clear_time_cache b1)\<lparr>tv_cache := ct\<rparr>" "clock env = Some now'" "dispatch_ok ?u" "gettime env ?u = Some now'"
    using update_ok [OF b1(2) env(1)] by blast
  then have u: "?u = (clear_time_cache b1)\<lparr>tv_cache := ct\<rparr>" "dispatch_ok ?u" "gettime env ?u = Some now"
    using env(2) by simp_all
  have uf: "activequeues ?u = activequeues b1" "timeheap ?u = timeheap b1" "ev_pri ?u = ev_pri b1" "ext ?u = ext b1"
    "event_continue ?u = event_continue b1" "event_running_priority ?u = event_running_priority b1"
    "ev_has_base ?u = ev_has_base b1"
    by (simp_all add: u(1) clear_time_cache_def ext_def fun_eq_iff)
  obtain es b2 where b2: "timeout_process env ?u = Some (Inr (), b2)" "dispatch_ok b2" "served es ?u b2" "waking ?u b2"
    "set es = {e \<in> set (timers ?u). ev_timeout (timeheap ?u) e \<le> now}"
    using timeout_spec [OF u(2) env(1) u(3)] by blast
  have w1: "waking (polled t b) b1" and th: "timeheap b1 = timeheap b" using b1(3) by (simp_all add: woken_def)
  have rest: "\<not> event_continue b2" "length (activequeues b2) = 1" "ext b2 = ext b" "ev_has_base b2 = ev_has_base b"
    "length (activequeues b1) = 1"
    using w1 b2(4) uf rp one by (simp_all add: waking_def)
  have es: "set es = {e \<in> set (timers b). ev_timeout (timeheap b) e \<le> now}"
    using b2(5) uf(2) th by (simp add: timers_def)
  have base: "ev_pri b1 e = 0" if "e \<in> set es" for e
  proof -
    have "e \<in> set (timers ?u)" using b2(5) that by simp
    then have "ev_has_base ?u e" using u(2) by (auto simp: dispatch_ok_def base_ok_def queues_ok_def flags_ok_def events_ok_def)
    then have "ev_pri ?u e < 1"
      using u(2) rest(5) uf(1) by (auto simp: dispatch_ok_def base_ok_def queues_ok_def events_ok_def)
    then show ?thesis using uf(3) by simp
  qed
  have "set (activequeues b2 ! 0) = set (activequeues b1 ! 0) \<union> set es"
    using b2(3) rest(5) uf base by (auto simp: served_def)
  moreover have "e \<in> set (activequeues b1 ! 0) \<longleftrightarrow> on_active b e \<or>
      e \<in> set (eventqueue b) \<and> (\<exists>evs. (ev_fd b e, evs) \<in> set ready \<and> test (ev_events b e) evs)" for e
  proof -
    have "e \<in> set (activequeues b1 ! 0) \<longleftrightarrow> on_active b1 e"
      using rest(5) by (cases "activequeues b1") (auto simp: on_active_def)
    also have "\<dots> \<longleftrightarrow> bit (ev_flags b1 e) 3" using b1(2) by (intro on_active_bit) (simp add: dispatch_ok_def)
    also have "\<dots> \<longleftrightarrow> bit (ev_flags b e) 3 \<or>
        e \<in> set (eventqueue b) \<and> (\<exists>evs. (ev_fd b e, evs) \<in> set ready \<and> test (ev_events b e) evs)"
      using b1(3) by (simp add: woken_def)
    also have "bit (ev_flags b e) 3 \<longleftrightarrow> on_active b e"
      using b on_active_bit [of b e] by (simp add: dispatch_ok_def)
    finally show ?thesis .
  qed
  ultimately have "set (activequeues b2 ! 0) = {e. wakes ready now b e}" using es by (auto simp: wakes_def)
  then show ?thesis using b1(1) b2(1,2) rest by blast
qed



section \<open>The pace of persistent timers\<close>

lemma next_run_micros:
  assumes "time_ok now" "time_ok (ev_io_timeout b ev)" "time_ok (ev_timeout (timeheap b) ev)"
  shows "micros (next_run now ev b) =
    (let due = micros (ev_timeout (timeheap b) ev) + micros (ev_io_timeout b ev) in
     if test (ev_res b ev) EV_TIMEOUT \<and> micros now \<le> due then due else micros now + micros (ev_io_timeout b ev))"
proof (cases "test (ev_res b ev) EV_TIMEOUT")
  case True
  have "time_ok (evutil_timeradd (ev_timeout (timeheap b) ev) (ev_io_timeout b ev))" using assms(2,3) timeradd_ok by blast
  from micros_less [OF this assms(1)] True show ?thesis by (simp add: next_run_def Let_def micros_add)
next
  case False
  then show ?thesis by (simp add: next_run_def Let_def micros_add)
qed

text \<open>C23:
  A persistent timer keeps its pace. Before its callback runs, an event with an interval is given its next deadline, unless
  memory or the backend refuses: if it fired because its deadline was reached and is late by at most one
  interval, the next deadline is exactly one interval after the old one, so lateness does not add up; in all
  other cases it is one interval from now. A deadline in the past is never set.
\<close>

theorem persistent_timer_pace:
  assumes "dispatch_ok (lbase s)" and "clock_ok env" and "ev_has_base (lbase s) ev"
    and "ev_io_timeout (lbase s) ev \<noteq> Timeval 0 0" and "0 \<le> tv_sec (ev_io_timeout (lbase s) ev)"
  shows "\<exists>now r b'. gettime env (lbase s) = Some now \<and>
    event_persist_closure env pg q ev s = call pg q ev (s\<lparr>lbase := b'\<rparr>) \<and>
    event_add_internal env ev (Some (next_run now ev (lbase s))) True (lbase s) = (Inr r, b') \<and> r \<in> {- 1, 0} \<and>
    (r = 0 \<longrightarrow> ev \<in> set (timers b') \<and> micros now \<le> micros (ev_timeout (timeheap b') ev) \<and>
       micros (ev_timeout (timeheap b') ev) =
         (let due = micros (ev_timeout (timeheap (lbase s)) ev) + micros (ev_io_timeout (lbase s) ev) in
          if test (ev_res (lbase s) ev) EV_TIMEOUT \<and> micros now \<le> due then due
          else micros now + micros (ev_io_timeout (lbase s) ev)))"
proof -
  obtain b' now r where r: "event_persist_closure env pg q ev s = call pg q ev (s\<lparr>lbase := b'\<rparr>)"
    "gettime env (lbase s) = Some now"
    "event_add_internal env ev (Some (next_run now ev (lbase s))) True (lbase s) = (Inr r, b')" "r \<in> {- 1, 0}"
    "r = 0 \<longrightarrow> ev \<in> set (timers b') \<and> ev_timeout (timeheap b') ev = next_run now ev (lbase s)"
    using persist_spec [OF assms(1,2,3) refl, of pg q] assms(4) by blast
  have t: "time_ok (ev_io_timeout (lbase s) ev)" "time_ok (ev_timeout (timeheap (lbase s)) ev)" "time_ok now"
    using assms(1,3,4) gettime_ok [OF assms(2), of "lbase s"] r(2) by (auto simp: dispatch_ok_def)
  note n = next_run_micros [OF t(3) t(1,2)]
  have pos: "0 \<le> micros (ev_io_timeout (lbase s) ev)" using assms(5) t(1) by (simp add: micros_def time_ok_def)
  have "micros now \<le> micros (next_run now ev (lbase s))"
    unfolding n Let_def using pos by (simp split: if_splits)
  then show ?thesis using r n by (intro exI [of _ now] exI [of _ r] exI [of _ b']) simp
qed

section \<open>A loop that runs\<close>

text \<open>
  The program of \<^verbatim>\<open>event_base_loopexit\<close>: its callback asks the loop to end. The base has one
  descriptor event, which the backend reports as readable.
\<close>

definition exit_program :: program where
  "exit_program = \<lparr>callback = (\<lambda>_ _. event_loopexit_cb), deferred = (\<lambda>_ s. s)\<rparr>"

lemma exit_program_quiet: "quiet exit_program"
  by (simp add: quiet_def well_behaved_def exit_program_def event_loopexit_cb_def tame_def)

lemma exit_program_well_behaved: "well_behaved exit_program"
  using exit_program_quiet by (simp add: quiet_def)

lemma plain_env_clock: "clock_ok plain_env"
  using plain_env_ok by (simp add: clock_ok_def plain_env_def time_ok_def)

lemma watched_reader:
  assumes "base_ok b" and "e \<in> set (eventqueue b)" and "ev_fd b e = int fd" and "test (ev_events b e) EV_READ"
  shows "watched b (int fd)"
proof -
  have sl: "slot_ok b (set (eventqueue b)) fd (io_ctx b fd) (interest (backend_log b) (int fd))"
    using assms(1) by (simp add: base_ok_def io_ok_def)
  then have "e \<in> set (io_events (io_ctx b fd))" using assms(2-4) by (simp add: slot_ok_def rw_def flag_simps)
  then have "users b 1 (io_events (io_ctx b fd)) \<noteq> 0"
    using assms(4) by (auto simp: users_def filter_empty_conv flag_simps)
  then show ?thesis using sl by (auto simp: slot_ok_def watched_def flag_simps)
qed

lemma reader_fits:
  "dispatch_ok base_with_reader" "length (activequeues base_with_reader) = 1"
  "event_running_priority base_with_reader = - 1" "ext base_with_reader e" "\<not> event_continue base_with_reader"
  "0 < event_count base_with_reader" "ev_timeout (timeheap base_with_reader) e = Timeval 0 0"
  "event_tv base_with_reader = Timeval 0 0" "tv_cache base_with_reader = Timeval 0 0"
proof -
  define b where "b = snd (event_assign 1 5 EV_READ new_base)"
  have sig: "\<not> test EV_READ EV_SIGNAL" by (simp add: flag_simps)
  have np: "\<not> test EV_READ EV_PERSIST" by (simp add: test_def EV_READ_def EV_PERSIST_def)
  have b: "ev_has_base b = (\<lambda>e. e = 1)" "ev_io_timeout b = (\<lambda>_. Timeval 0 0)" "ev_closure b = (\<lambda>_. EV_CLOSURE_NONE)"
    "tv_cache b = Timeval 0 0" "length (activequeues b) = 1" "event_running_priority b = - 1" "\<not> event_continue b"
    "ext b e" for e
    using sig np by (auto simp: b_def event_assign_def new_base_def Let_def fun_eq_iff ext_def EVLIST_INIT_def bit_numeral_rec)
  have "event_add_internal plain_env 1 None False = event_add_internal plain_env 1 None True"
    by (simp only: event_add_internal_def option.case)
  then have "base_with_reader = snd (event_add_internal plain_env 1 None True b)"
    by (simp add: base_with_reader_def b_def)
  then have st: "steady b base_with_reader"
    using keepsD [OF steady_add steady_refl, of b plain_env 1 None] by (simp only:)
  have ok: "base_ok base_with_reader" using base_states_ok [OF base_with_reader_reachable(1)] .
  have f: "finite {e. e = (1 :: nat)}" "card {e. e = (1 :: nat)} = 1" by simp_all
  have heap: "timeheap base_with_reader = timeheap b"
  proof -
    obtain r where r: "event_assign 1 5 EV_READ new_base = (r, b)" by (metis b_def prod.collapse)
    have "base_ok b" by (rule base_states_ok [OF base_states.assign [OF base_states.new idle_new sig _ r]]) simp
    moreover have "ev_has_base b 1" "\<not> test (ev_flags b 1) (NOT EVLIST_ALL)"
      using sig init_bits(4) by (simp_all add: b_def event_assign_def Let_def flags_known_def)
    ultimately obtain x c where "event_add_internal plain_env 1 None False b = (Inr x, c)" "timeheap c = timeheap b"
      using add_watch_spec [of b 1 plain_env] by (auto simp: event_add_internal_def reserve_timer_def bindM_def)
    then show ?thesis unfolding base_with_reader_def b_def by simp
  qed
  have tb: "ev_timeout (timeheap b) e = Timeval 0 0" "event_tv b = Timeval 0 0" for e
    using sig by (simp_all add: b_def event_assign_def Let_def min_heap_elem_init_def new_base_def)
  show time: "ev_timeout (timeheap base_with_reader) e = Timeval 0 0" "event_tv base_with_reader = Timeval 0 0"
    "tv_cache base_with_reader = Timeval 0 0" for e
    using heap tb st b by (simp_all add: steady_def)
  have "ev_has_base base_with_reader = (\<lambda>e. e = 1)" "ev_io_timeout base_with_reader = (\<lambda>_. Timeval 0 0)"
    "ev_closure base_with_reader = (\<lambda>_. EV_CLOSURE_NONE)" using st b(1-3) by (simp_all add: steady_def)
  then show "dispatch_ok base_with_reader" using ok f time by (simp add: dispatch_ok_def time_ok_def)
  show "length (activequeues base_with_reader) = 1" "event_running_priority base_with_reader = - 1"
    "\<not> event_continue base_with_reader" using st b by (simp_all add: steady_def)
  show e: "ext base_with_reader e" for e using st b by (simp add: steady_def)
  have "event_count base_with_reader = cnt (ext base_with_reader) (timers base_with_reader) + 1 +
      sum_list (map (cnt (ext base_with_reader)) (activequeues base_with_reader))"
    using ok base_with_reader_reachable(3) e by (simp add: base_ok_def queues_ok_def counts_ok_def)
  moreover have "0 \<le> cnt f xs" for f xs by (simp add: cnt_def)
  moreover have "0 \<le> sum_list (map (cnt f) xs)" for f xs by (rule sum_list_nonneg) (auto simp: cnt_def)
  ultimately show "0 < event_count base_with_reader" by (simp add: add_nonneg_pos add_pos_nonneg)
qed

definition reader_loop :: ev_loop where
  "reader_loop = \<lparr>lbase = base_with_reader, event_break = False, event_gotterm = False, running_loop = False,
     use_monotonic = False, no_cache_time = False, defer_queue = [], ran_log = []\<rparr>"

definition readable_round :: round where
  "readable_round = \<lparr>before = plain_env, after = plain_env,
     backend = (\<lambda>tv b. if watched b 5 then (1, [(5, EV_READ)]) else (0, []))\<rparr>"

lemma readable_round_ok: "round_ok readable_round"
  by (simp add: round_ok_def readable_round_def plain_env_clock)



text \<open>The same base with the reader active, and as a persistent event with an interval.\<close>

definition active_loop :: ev_loop where
  "active_loop = reader_loop\<lparr>lbase := snd (event_active_nolock plain_env 1 EV_READ 1 base_with_reader)\<rparr>"

lemma active_fits:
  "dispatch_ok (lbase active_loop)" "\<not> event_break active_loop" "\<not> event_continue (lbase active_loop)"
  "1 \<in> set (activequeues (lbase active_loop) ! 0)" "first_queue (lbase active_loop) 0 0" "ext (lbase active_loop) 1"
proof -
  obtain b where b: "event_active_nolock plain_env 1 EV_READ 1 base_with_reader = (Inr (), b)" "dispatch_ok b"
    "woken (\<lambda>e. e = 1) base_with_reader b"
    using activate_spec [OF reader_fits(1) base_with_reader_reachable(2)] by blast
  have l: "lbase active_loop = b" unfolding active_loop_def b(1) by simp
  show "dispatch_ok (lbase active_loop)" by (simp add: l b(2))
  show "\<not> event_break active_loop" by (simp add: active_loop_def reader_loop_def)
  show "\<not> event_continue (lbase active_loop)" "ext (lbase active_loop) 1"
    using b(3) reader_fits by (simp_all add: l woken_def waking_def)
  have len: "length (activequeues b) = 1" using b(3) reader_fits(2) by (simp add: woken_def waking_def)
  have "on_active b 1" using b(2,3) on_active_bit [of b 1] by (simp add: dispatch_ok_def woken_def)
  then show "1 \<in> set (activequeues (lbase active_loop) ! 0)"
    using len by (cases "activequeues b") (auto simp: on_active_def l)
  then show "first_queue (lbase active_loop) 0 0" using len by (auto simp: first_queue_def l)
qed


definition interval_loop :: ev_loop where
  "interval_loop = reader_loop\<lparr>lbase := base_with_reader
     \<lparr>ev_closure := (\<lambda>_. EV_CLOSURE_PERSIST), ev_io_timeout := (\<lambda>_. Timeval 1 0)\<rparr>\<rparr>"

lemma interval_fits: "dispatch_ok (lbase interval_loop)"
proof -
  let ?b = "base_with_reader\<lparr>ev_closure := (\<lambda>_. EV_CLOSURE_PERSIST), ev_io_timeout := (\<lambda>_. Timeval 1 0)\<rparr>"
  have ok: "dispatch_ok base_with_reader" by (rule reader_fits(1))
  have fr: "frame base_with_reader ?b" by (simp add: frame_def)
  have "ext ?b = ext base_with_reader" by (simp add: ext_def fun_eq_iff)
  then have "base_ok ?b" using ok frame_io [OF fr]
    by (simp add: dispatch_ok_def base_ok_def queues_ok_def flags_ok_def events_ok_def counts_ok_def timers_def)
  moreover have "time_ok (ev_timeout (timeheap base_with_reader) e)" for e
    by (simp add: reader_fits(7) time_ok_def)
  ultimately show ?thesis using ok by (simp add: dispatch_ok_def interval_loop_def time_ok_def)
qed

lemma persistent_timer_pace_witness:
  "\<exists>b'. event_persist_closure plain_env exit_program 0 1 interval_loop =
     call exit_program 0 1 (interval_loop\<lparr>lbase := b'\<rparr>)"
proof -
  have "ev_has_base (lbase interval_loop) 1" "ev_io_timeout (lbase interval_loop) 1 \<noteq> Timeval 0 0"
    "0 \<le> tv_sec (ev_io_timeout (lbase interval_loop) 1)"
    using base_with_reader_reachable(2) by (simp_all add: interval_loop_def)
  from persistent_timer_pace [OF interval_fits plain_env_clock this] show ?thesis by blast
qed

text \<open>C24:
  A clock that goes back does not disturb the timers. When the time is before the last
  one the loop has seen, the timer queue keeps its events and its order, and the time left to each
  deadline, in microseconds, is what it was before.
\<close>

theorem clock_steps_back:
  assumes "dispatch_ok b" and "clock_ok env" and "gettime env b = Some now" and "now < event_tv b"
  shows "\<exists>b'. timeout_correct env False b = (Inr (), b') \<and> dispatch_ok b' \<and> event_tv b' = now \<and> timers b' = timers b \<and>
    (\<forall>e\<in>set (timers b). micros (ev_timeout (timeheap b') e) - micros now =
       micros (ev_timeout (timeheap b) e) - micros (event_tv b))"
proof -
  obtain tv h where h: "gettime env b = Some tv"
    "timeout_correct env False b = (Inr (), if False then b else b\<lparr>timeheap := h, event_tv := tv\<rparr>)"
    "dispatch_ok (b\<lparr>timeheap := h, event_tv := tv\<rparr>)" "elems h = timers b"
    "\<forall>e. ev_timeout h e = (if tv < event_tv b \<and> e \<in> set (timers b)
       then evutil_timersub (ev_timeout (timeheap b) e) (evutil_timersub (event_tv b) tv) else ev_timeout (timeheap b) e)"
    using correct_spec [OF assms(1,2), of False] by blast
  have "tv = now" using h(1) assms(3) by simp
  then show ?thesis using h(2-5) assms(4)
    by (intro exI [of _ "b\<lparr>timeheap := h, event_tv := tv\<rparr>"]) (simp add: timers_def micros_sub)
qed

text \<open>The reader with a deadline as well.\<close>

definition timer_base :: event_base where
  "timer_base = snd (event_add_internal plain_env 1 (Some (Timeval 30 0)) True base_with_reader)"

lemma timer_base_fits:
  "dispatch_ok timer_base" "1 \<in> set (timers timer_base)" "ev_timeout (timeheap timer_base) 1 = Timeval 30 0"
  "tv_cache timer_base = Timeval 0 0"
proof -
  let ?b = base_with_reader
  have b: "dispatch_ok ?b" "base_ok ?b" using reader_fits(1) by (simp_all add: dispatch_ok_def)
  have now: "gettime plain_env ?b = Some (Timeval 10 0)" by (simp add: gettime_def plain_env_def reader_fits)
  obtain r c where c: "event_add_internal plain_env 1 (Some (Timeval 30 0)) True ?b = (Inr r, c)" "base_ok c" "r \<in> {- 1, 0}"
    "r = 0 \<longrightarrow> set (timers c) = insert 1 (set (timers ?b)) \<and>
       ev_timeout (timeheap c) = (ev_timeout (timeheap ?b))(1 := Timeval 30 0)"
    using add_spec [OF b(2) base_with_reader_reachable(2) env_okD(1) [OF plain_env_ok] dispatch_few [OF b(1)] now, of "Some (Timeval 30 0)" True]
    by auto
  have "r = 0"
  proof (rule ccontr)
    assume "r \<noteq> 0"
    have "fst (min_heap_reserve plain_realloc n h) = 0" for n h
      by (simp add: min_heap_reserve_def plain_realloc_def Let_def)
    then obtain h where h: "min_heap_reserve plain_realloc (1 + min_heap_size (timeheap ?b)) (timeheap ?b) = (0, h)"
      by (metis prod.collapse)
    have "\<exists>h. reserve_timer plain_env 1 (Some (Timeval 30 0)) ?b = (Inr 0, ?b\<lparr>timeheap := h\<rparr>)"
    proof (cases "test (ev_flags ?b 1) EVLIST_TIMEOUT")
      case True
      then show ?thesis by (intro exI [of _ "timeheap ?b"]) (simp add: reserve_timer_def)
    next
      case False
      have "env_realloc plain_env = plain_realloc" by (simp add: plain_env_def)
      then show ?thesis using False h by (intro exI [of _ h]) (simp add: reserve_timer_def)
    qed
    then obtain k where k: "reserve_timer plain_env 1 (Some (Timeval 30 0)) ?b = (Inr 0, ?b\<lparr>timeheap := k\<rparr>)" by blast
    have "bit (ev_flags ?b 1) 1"
      using b(2) base_with_reader_reachable(3) by (simp add: base_ok_def queues_ok_def flags_ok_def)
    then have w: "add_watch plain_env 1 (?b\<lparr>timeheap := k\<rparr>) = (Inr 0, ?b\<lparr>timeheap := k\<rparr>)"
      by (simp add: add_watch_def flag_simps)
    define m where "m = add_timeout plain_env 1 (Timeval 30 0) True (?b\<lparr>timeheap := k\<rparr>)"
    have "event_add_internal plain_env 1 (Some (Timeval 30 0)) True ?b =
        (if test (ev_flags ?b 1) (NOT EVLIST_ALL) then (Inl AssertFailed, ?b)
         else case m of (Inl e, s') \<Rightarrow> (Inl e, s') | (Inr x, s') \<Rightarrow> returnM 0 s')"
      using k w by (simp add: event_add_internal_def bindM_def seqM_def m_def)
    then show False using c(1,3) \<open>r \<noteq> 0\<close> by (cases m) (auto split: if_splits sum.splits)
  qed
  then have t: "set (timers c) = insert 1 (set (timers ?b))" "ev_timeout (timeheap c) = (ev_timeout (timeheap ?b))(1 := Timeval 30 0)"
    using c(4) by simp_all
  have l: "timer_base = c" unfolding timer_base_def c(1) by simp
  have st: "steady ?b c" using keeps_steadyD [OF steady_add c(1)] .
  show "dispatch_ok timer_base"
    unfolding l by (rule dispatch_steady [OF b(1) st c(2)]) (use t in \<open>auto simp: time_ok_def\<close>)
  show "1 \<in> set (timers timer_base)" "ev_timeout (timeheap timer_base) 1 = Timeval 30 0" "tv_cache timer_base = Timeval 0 0"
    using t st by (simp_all add: l steady_def reader_fits)
qed

lemma clock_steps_back_witness:
  "\<exists>b'. timeout_correct plain_env False (timer_base\<lparr>event_tv := Timeval 20 0\<rparr>) = (Inr (), b') \<and>
     micros (ev_timeout (timeheap b') 1) = 20000000"
proof -
  let ?b = "timer_base\<lparr>event_tv := Timeval 20 0\<rparr>"
  have "dispatch_ok ?b" by (rule dispatch_ok_tv [OF timer_base_fits(1)]) (simp add: time_ok_def)
  moreover have "gettime plain_env ?b = Some (Timeval 10 0)" by (simp add: gettime_def plain_env_def timer_base_fits)
  moreover have "Timeval 10 0 < event_tv ?b" by (simp add: less_timeval_def)
  ultimately obtain b' where "timeout_correct plain_env False ?b = (Inr (), b')"
    "\<forall>e\<in>set (timers ?b). micros (ev_timeout (timeheap b') e) - micros (Timeval 10 0) =
       micros (ev_timeout (timeheap ?b) e) - micros (event_tv ?b)"
    using clock_steps_back [OF _ plain_env_clock] by blast
  moreover have "1 \<in> set (timers ?b)" using timer_base_fits(2) by (simp add: timers_def)
  ultimately show ?thesis
    using timer_base_fits(3) by (intro exI [of _ b']) (auto simp: micros_def dest!: bspec [of _ _ 1])
qed

end
