(* ===== verification/Epoll.thy ===== *)
theory Epoll
  imports EventRounds
begin

unbundle bit_operations_syntax

text \<open>
  The epoll backend of the event library (\<^verbatim>\<open>src/depend/event/project/epoll.c\<close>) and the list of
  pending changes it can use (\<^verbatim>\<open>evmap.c\<close> and \<^verbatim>\<open>changelist-internal.h\<close>): which call of
  \<^verbatim>\<open>epoll_ctl\<close> a change becomes, the retries, and the translation of what \<^verbatim>\<open>epoll_wait\<close> reports.

  The kernel is an argument: \<open>ctl\<close> is \<^verbatim>\<open>epoll_ctl\<close> on a kernel state and \<open>reg\<close> what it has
  registered under a descriptor; \<open>kernel_ok\<close> says what its manual page promises. It promises no success: any
  call may fail, with \<^verbatim>\<open>EBADF\<close> for a closed descriptor or for want of memory.
\<close>

section \<open>The kernel\<close>

datatype ctl_op = EPOLL_CTL_ADD | EPOLL_CTL_DEL | EPOLL_CTL_MOD

datatype errno = ENOENT | EEXIST | EBADF | EPERM | EINTR | Other_error

definition EPOLLIN :: u32 where "EPOLLIN = 0x001"
definition EPOLLOUT :: u32 where "EPOLLOUT = 0x004"
definition EPOLLERR :: u32 where "EPOLLERR = 0x008"
definition EPOLLHUP :: u32 where "EPOLLHUP = 0x010"
definition EPOLLET :: u32 where "EPOLLET = 0x80000000"

type_synonym 'k ctl = "'k \<Rightarrow> ctl_op \<Rightarrow> int \<Rightarrow> u32 \<Rightarrow> errno option \<times> 'k"

definition kernel_ok :: "'k ctl \<Rightarrow> ('k \<Rightarrow> int \<Rightarrow> u32 option) \<Rightarrow> bool" where
  "kernel_ok ctl reg \<longleftrightarrow> (\<forall>k fd. fd < 0 \<longrightarrow> reg k fd = None) \<and> (\<forall>k op fd ev r k'. ctl k op fd ev = (r, k') \<longrightarrow>
     (\<forall>f. f \<noteq> fd \<longrightarrow> reg k' f = reg k f) \<and>
     reg k' fd = (if r \<noteq> None then reg k fd else if op = EPOLL_CTL_DEL then None else Some ev) \<and>
     (r = None \<longrightarrow> (reg k fd = None \<longleftrightarrow> op = EPOLL_CTL_ADD)) \<and>
     (r = Some EEXIST \<longrightarrow> op = EPOLL_CTL_ADD \<and> reg k fd \<noteq> None) \<and>
     (r = Some ENOENT \<longrightarrow> op \<noteq> EPOLL_CTL_ADD \<and> reg k fd = None))"

text \<open>
  A file stays in the set while a duplicate of its descriptor is open, so the deletion of a closed
  descriptor can answer \<^verbatim>\<open>EBADF\<close> (or \<^verbatim>\<open>EPERM\<close>, if its number names another kind of file by then) though the kernel
  still reports it. \<open>closed_cleanly\<close> says that the program does not do this to a descriptor it watches.
\<close>

definition closed_cleanly :: "'k ctl \<Rightarrow> ('k \<Rightarrow> int \<Rightarrow> u32 option) \<Rightarrow> bool" where
  "closed_cleanly ctl reg \<longleftrightarrow> (\<forall>k fd ev. reg k fd \<noteq> None \<longrightarrow>
     fst (ctl k EPOLL_CTL_DEL fd ev) \<noteq> Some EBADF \<and> fst (ctl k EPOLL_CTL_DEL fd ev) \<noteq> Some EPERM)"

lemma kernelD:
  assumes "kernel_ok ctl reg" and "ctl k op fd ev = (r, k')"
  shows "f \<noteq> fd \<Longrightarrow> reg k' f = reg k f"
    "reg k' fd = (if r \<noteq> None then reg k fd else if op = EPOLL_CTL_DEL then None else Some ev)"
    "r = None \<Longrightarrow> reg k fd = None \<longleftrightarrow> op = EPOLL_CTL_ADD"
    "r = Some EEXIST \<Longrightarrow> op = EPOLL_CTL_ADD \<and> reg k fd \<noteq> None"
    "r = Some ENOENT \<Longrightarrow> op \<noteq> EPOLL_CTL_ADD \<and> reg k fd = None"
  using assms unfolding kernel_ok_def by blast+

section \<open>One change\<close>

definition EV_CHANGE_ADD :: byte where "EV_CHANGE_ADD = 0x01"
definition EV_CHANGE_DEL :: byte where "EV_CHANGE_DEL = 0x02"

record event_change =
  ch_fd :: int
  old_events :: u16
  read_change :: byte
  write_change :: byte

definition test8 :: "byte \<Rightarrow> byte \<Rightarrow> bool" where
  "test8 w m \<longleftrightarrow> w AND m \<noteq> 0"

text \<open>The call a change asks for; none if there is nothing to change.\<close>

definition change_op :: "event_change \<Rightarrow> (ctl_op \<times> u32) option" where
  "change_op ch =
     (let rc = read_change ch; wc = write_change ch; old = old_events ch;
          (op, events) =
            (if test8 rc EV_CHANGE_ADD \<or> test8 wc EV_CHANGE_ADD then
               let events = (if test8 rc EV_CHANGE_ADD then EPOLLIN
                             else if test8 rc EV_CHANGE_DEL then 0
                             else if test old EV_READ then EPOLLIN else 0);
                   events = events OR (if test8 wc EV_CHANGE_ADD then EPOLLOUT
                             else if test8 wc EV_CHANGE_DEL then 0
                             else if test old EV_WRITE then EPOLLOUT else 0);
                   events = (if test8 (rc OR wc) (ucast EV_ET) then events OR EPOLLET else events)
               in (if old \<noteq> 0 then EPOLL_CTL_MOD else EPOLL_CTL_ADD, events)
             else if test8 rc EV_CHANGE_DEL \<or> test8 wc EV_CHANGE_DEL then
               (if test8 rc EV_CHANGE_DEL then
                  (if test8 wc EV_CHANGE_DEL then (EPOLL_CTL_DEL, EPOLLIN OR EPOLLOUT)
                   else if test old EV_WRITE then (EPOLL_CTL_MOD, EPOLLOUT)
                   else (EPOLL_CTL_DEL, EPOLLIN))
                else if test8 wc EV_CHANGE_DEL then
                  (if test old EV_READ then (EPOLL_CTL_MOD, EPOLLIN) else (EPOLL_CTL_DEL, EPOLLOUT))
                else (EPOLL_CTL_DEL, 0))
             else (EPOLL_CTL_ADD, 0))
      in if events = 0 then None else Some (op, events))"

definition epoll_apply_one_change :: "'k ctl \<Rightarrow> event_change \<Rightarrow> 'k \<Rightarrow> int \<times> 'k" where
  "epoll_apply_one_change ctl ch k =
     (case change_op ch of
        None \<Rightarrow> (0, k)
      | Some (op, events) \<Rightarrow>
          (case ctl k op (ch_fd ch) events of
             (None, k) \<Rightarrow> (0, k)
           | (Some e, k) \<Rightarrow>
               if op = EPOLL_CTL_MOD \<and> e = ENOENT then
                 (case ctl k EPOLL_CTL_ADD (ch_fd ch) events of (None, k) \<Rightarrow> (0, k) | (Some _, k) \<Rightarrow> (- 1, k))
               else if op = EPOLL_CTL_ADD \<and> e = EEXIST then
                 (case ctl k EPOLL_CTL_MOD (ch_fd ch) events of (None, k) \<Rightarrow> (0, k) | (Some _, k) \<Rightarrow> (- 1, k))
               else if op = EPOLL_CTL_DEL \<and> (e = ENOENT \<or> e = EBADF \<or> e = EPERM) then (0, k)
               else (- 1, k)))"

definition epoll_nochangelist_add :: "'k ctl \<Rightarrow> int \<Rightarrow> u16 \<Rightarrow> u16 \<Rightarrow> 'k \<Rightarrow> int \<times> 'k" where
  "epoll_nochangelist_add ctl fd old events =
     epoll_apply_one_change ctl
       \<lparr>ch_fd = fd, old_events = old,
        read_change = (if test events EV_READ then EV_CHANGE_ADD OR ucast (events AND EV_ET) else 0),
        write_change = (if test events EV_WRITE then EV_CHANGE_ADD OR ucast (events AND EV_ET) else 0)\<rparr>"

definition epoll_nochangelist_del :: "'k ctl \<Rightarrow> int \<Rightarrow> u16 \<Rightarrow> u16 \<Rightarrow> 'k \<Rightarrow> int \<times> 'k" where
  "epoll_nochangelist_del ctl fd old events =
     epoll_apply_one_change ctl
       \<lparr>ch_fd = fd, old_events = old,
        read_change = (if test events EV_READ then EV_CHANGE_DEL else 0),
        write_change = (if test events EV_WRITE then EV_CHANGE_DEL else 0)\<rparr>"

section \<open>What a change is to achieve\<close>

lemma test8_bit: "test8 w EV_CHANGE_ADD \<longleftrightarrow> bit w 0" "test8 w EV_CHANGE_DEL \<longleftrightarrow> bit w 1"
  "test8 w (ucast EV_ET) \<longleftrightarrow> bit w 5"
proof -
  have t: "w AND 2 ^ n \<noteq> 0 \<longleftrightarrow> bit w n" for w :: byte and n by (simp add: and_exp_eq_0_iff_not_bit)
  show "test8 w EV_CHANGE_ADD \<longleftrightarrow> bit w 0" using t [of w 0] by (simp add: test8_def EV_CHANGE_ADD_def)
  show "test8 w EV_CHANGE_DEL \<longleftrightarrow> bit w 1" using t [of w 1] by (simp add: test8_def EV_CHANGE_DEL_def)
  show "test8 w (ucast EV_ET) \<longleftrightarrow> bit w 5" using t [of w 5] by (simp add: test8_def EV_ET_def)
qed

text \<open>Whether reading (writing) is wanted once a change is made.\<close>

definition wants :: "byte \<Rightarrow> bool \<Rightarrow> bool" where
  "wants c old \<longleftrightarrow> bit c 0 \<or> \<not> bit c 1 \<and> old"

definition wants_read :: "event_change \<Rightarrow> bool" where
  "wants_read ch \<longleftrightarrow> wants (read_change ch) (test (old_events ch) EV_READ)"

definition wants_write :: "event_change \<Rightarrow> bool" where
  "wants_write ch \<longleftrightarrow> wants (write_change ch) (test (old_events ch) EV_WRITE)"

definition adds :: "event_change \<Rightarrow> bool" where
  "adds ch \<longleftrightarrow> bit (read_change ch) 0 \<or> bit (write_change ch) 0"

definition changes_something :: "event_change \<Rightarrow> bool" where
  "changes_something ch \<longleftrightarrow> adds ch \<or> bit (read_change ch) 1 \<or> bit (write_change ch) 1"

definition want_mask :: "event_change \<Rightarrow> u32" where
  "want_mask ch = (if wants_read ch then EPOLLIN else 0) OR (if wants_write ch then EPOLLOUT else 0) OR
     (if adds ch \<and> (bit (read_change ch) 5 \<or> bit (write_change ch) 5) then EPOLLET else 0)"

definition change_ok :: "event_change \<Rightarrow> bool" where
  "change_ok ch \<longleftrightarrow> \<not> (bit (read_change ch) 0 \<and> bit (read_change ch) 1) \<and>
     \<not> (bit (write_change ch) 0 \<and> bit (write_change ch) 1) \<and> old_events ch AND NOT (EV_READ OR EV_WRITE) = 0"

lemma epoll_masks: "EPOLLIN \<noteq> 0" "EPOLLOUT \<noteq> 0" "EPOLLIN OR EPOLLOUT \<noteq> 0" "EPOLLIN OR x \<noteq> 0" "EPOLLOUT OR x \<noteq> 0"
  "x OR EPOLLOUT \<noteq> 0"
  by (simp_all add: EPOLLIN_def EPOLLOUT_def or_eq_0_iff)

lemma old_zero: "old AND NOT (EV_READ OR EV_WRITE) = 0 \<Longrightarrow> old = 0 \<longleftrightarrow> \<not> test old EV_READ \<and> \<not> test old EV_WRITE"
proof -
  assume z: "old AND NOT (EV_READ OR EV_WRITE) = 0"
  have "old = (old AND (EV_READ OR EV_WRITE)) OR (old AND NOT (EV_READ OR EV_WRITE))"
    by (rule bit_word_eqI) (auto simp: bit_and_iff bit_or_iff bit_not_iff)
  then have "old = old AND (EV_READ OR EV_WRITE)" using z by simp
  then show ?thesis by (metis bit.conj_disj_distrib or_eq_0_iff test_def)
qed

lemma change_op_spec:
  assumes "change_ok ch"
  shows "change_op ch =
    (if \<not> changes_something ch then None
     else if wants_read ch \<or> wants_write ch
     then Some (if adds ch \<and> old_events ch = 0 then EPOLL_CTL_ADD else EPOLL_CTL_MOD, want_mask ch)
     else Some (EPOLL_CTL_DEL, (if bit (read_change ch) 1 then EPOLLIN else 0) OR
       (if bit (write_change ch) 1 then EPOLLOUT else 0)))"
proof -
  note z = old_zero [of "old_events ch"]
  show ?thesis
    using assms z
    by (cases "bit (read_change ch) 0"; cases "bit (read_change ch) 1"; cases "bit (write_change ch) 0"; cases "bit (write_change ch) 1";
        cases "test (old_events ch) EV_READ"; cases "test (old_events ch) EV_WRITE")
      (simp_all add: change_op_def Let_def test8_bit change_ok_def changes_something_def adds_def wants_read_def wants_write_def
        wants_def want_mask_def epoll_masks bit_or_iff or.assoc)
qed

text \<open>The deletion of what is registered was answered as if it were gone.\<close>

definition left_behind :: "'k ctl \<Rightarrow> ('k \<Rightarrow> int \<Rightarrow> u32 option) \<Rightarrow> 'k \<Rightarrow> int \<Rightarrow> bool" where
  "left_behind ctl reg k fd \<longleftrightarrow> reg k fd \<noteq> None \<and>
     (\<exists>ev. fst (ctl k EPOLL_CTL_DEL fd ev) = Some EBADF \<or> fst (ctl k EPOLL_CTL_DEL fd ev) = Some EPERM)"

text \<open>The kernel objects only to a wrong guess whether the descriptor is registered.\<close>

definition guesses_only :: "'k ctl \<Rightarrow> int \<Rightarrow> bool" where
  "guesses_only ctl fd \<longleftrightarrow> (\<forall>k op ev. fst (ctl k op fd ev) \<in> {None, Some EEXIST, Some ENOENT})"

lemma change_heals:
  assumes "kernel_ok ctl reg" and "change_ok ch" and "epoll_apply_one_change ctl ch k = (r, k')"
  shows "(r = 0 \<or> r = - 1) \<and> (\<forall>f. f \<noteq> ch_fd ch \<longrightarrow> reg k' f = reg k f) \<and>
    (r = 0 \<longrightarrow> changes_something ch \<longrightarrow>
       reg k' (ch_fd ch) = (if wants_read ch \<or> wants_write ch then Some (want_mask ch) else None) \<or>
       \<not> wants_read ch \<and> \<not> wants_write ch \<and> left_behind ctl reg k (ch_fd ch) \<and> reg k' (ch_fd ch) = reg k (ch_fd ch)) \<and>
    (r = - 1 \<or> \<not> changes_something ch \<longrightarrow> reg k' (ch_fd ch) = reg k (ch_fd ch)) \<and>
    (guesses_only ctl (ch_fd ch) \<longrightarrow> r = 0)"
proof -
  let ?fd = "ch_fd ch"
  show ?thesis
  proof (cases "change_op ch")
    case None
    then have "\<not> changes_something ch" using change_op_spec [OF assms(2)] by (auto split: if_splits)
    then show ?thesis using assms(3) None by (simp add: epoll_apply_one_change_def)
  next
    case (Some oe)
    obtain op ev where oe: "oe = (op, ev)" by (cases oe)
    have some: "changes_something ch" using Some change_op_spec [OF assms(2)] by (auto split: if_splits)
    obtain x k1 where x: "ctl k op ?fd ev = (x, k1)" by (meson surj_pair)
    note l1 = kernelD [OF assms(1) x]
    have g1: "x \<in> {None, Some EEXIST, Some ENOENT}"
      if "guesses_only ctl ?fd" using that x unfolding guesses_only_def by (metis fst_conv)
    show ?thesis
    proof (cases "wants_read ch \<or> wants_write ch")
      case True
      then have op: "op \<noteq> EPOLL_CTL_DEL" and ev: "ev = want_mask ch"
        using change_op_spec [OF assms(2)] Some oe some by (auto split: if_splits)
      define op2 where "op2 = (if op = EPOLL_CTL_MOD then EPOLL_CTL_ADD else EPOLL_CTL_MOD)"
      obtain y k2 where y: "ctl k1 op2 ?fd ev = (y, k2)" by (meson surj_pair)
      note l2 = kernelD [OF assms(1) y]
      have g2: "y \<in> {None, Some EEXIST, Some ENOENT}"
        if "guesses_only ctl ?fd" using that y unfolding guesses_only_def by (metis fst_conv)
      have run: "epoll_apply_one_change ctl ch k =
          (case x of None \<Rightarrow> (0, k1)
           | Some e \<Rightarrow> if op = EPOLL_CTL_MOD \<and> e = ENOENT \<or> op = EPOLL_CTL_ADD \<and> e = EEXIST
                then (case y of None \<Rightarrow> (0, k2) | Some _ \<Rightarrow> (- 1, k2)) else (- 1, k1))"
        using Some oe x y op by (cases op) (auto simp: epoll_apply_one_change_def op2_def split: option.split)
      have d: "op2 \<noteq> EPOLL_CTL_DEL" by (simp add: op2_def)
      show ?thesis
      proof (cases x)
        case None
        then show ?thesis using l1 run assms(3) True some ev op by auto
      next
        case x: (Some e)
        have same: "reg k1 ?fd = reg k ?fd" using l1(2) x by simp
        show ?thesis
        proof (cases "op = EPOLL_CTL_MOD \<and> e = ENOENT \<or> op = EPOLL_CTL_ADD \<and> e = EEXIST")
          case retry: True
          have "y = None" if "y \<in> {None, Some EEXIST, Some ENOENT}"
            using that l1(4,5) l2(4,5) x same retry by (auto simp: op2_def)
          then show ?thesis using l1(1) l2(1,2) same run assms(3) True some ev d x retry g2 by (cases y) auto
        next
          case no: False
          have "e \<noteq> EEXIST" "e \<noteq> ENOENT" using l1(4,5) x no op by (cases op; auto)+
          then show ?thesis using no l1(1) same run assms(3) True some x g1 by auto
        qed
      qed
    next
      case False
      then have op: "op = EPOLL_CTL_DEL" using change_op_spec [OF assms(2)] Some oe some by (auto split: if_splits)
      have run: "epoll_apply_one_change ctl ch k =
          (case x of None \<Rightarrow> (0, k1) | Some e \<Rightarrow> if e = ENOENT \<or> e = EBADF \<or> e = EPERM then (0, k1) else (- 1, k1))"
        using Some oe x op by (auto simp: epoll_apply_one_change_def split: option.split)
      have "left_behind ctl reg k ?fd \<or> reg k ?fd = None" if "x = Some EBADF \<or> x = Some EPERM"
        unfolding left_behind_def using that x op by (metis fst_conv)
      then show ?thesis using l1 run g1 op assms(3) False some
        by (cases x) (auto split: if_splits)
    qed
  qed
qed

lemma change_heals_clean:
  assumes "kernel_ok ctl reg" and "closed_cleanly ctl reg" and "change_ok ch" and "epoll_apply_one_change ctl ch k = (r, k')"
  shows "(r = 0 \<or> r = - 1) \<and> (\<forall>f. f \<noteq> ch_fd ch \<longrightarrow> reg k' f = reg k f) \<and>
    (r = 0 \<longrightarrow> changes_something ch \<longrightarrow>
       reg k' (ch_fd ch) = (if wants_read ch \<or> wants_write ch then Some (want_mask ch) else None)) \<and>
    (r = - 1 \<or> \<not> changes_something ch \<longrightarrow> reg k' (ch_fd ch) = reg k (ch_fd ch))"
proof -
  have "\<not> left_behind ctl reg k (ch_fd ch)" using assms(2) by (auto simp: closed_cleanly_def left_behind_def)
  then show ?thesis using change_heals [OF assms(1,3,4)] by blast
qed

text \<open>C36:
  A change heals the registration. Whatever the kernel has registered for the descriptor before (the file
  may have been closed and opened again since the last change), a change that reports success leaves exactly what is
  wanted afterwards: nothing, or reading and writing as asked. The one exception is a deletion that the kernel refuses
  because the descriptor is no longer open, or not of a kind it can watch, while its file is still registered: it counts as
  done and the registration stays. A wrong guess whether the descriptor is registered is always made good: as long as
  the kernel objects to nothing else, the change succeeds. A change that fails, or changes nothing, leaves the kernel as it was;
  other descriptors are never touched.
\<close>

theorem epoll_change_heals:
  assumes "kernel_ok ctl reg" and "change_ok ch" and "epoll_apply_one_change ctl ch k = (r, k')"
  shows "(r = 0 \<or> r = - 1) \<and> (\<forall>f. f \<noteq> ch_fd ch \<longrightarrow> reg k' f = reg k f) \<and>
    (r = 0 \<longrightarrow> changes_something ch \<longrightarrow>
       reg k' (ch_fd ch) = (if wants_read ch \<or> wants_write ch then Some (want_mask ch) else None) \<or>
       \<not> wants_read ch \<and> \<not> wants_write ch \<and> left_behind ctl reg k (ch_fd ch) \<and> reg k' (ch_fd ch) = reg k (ch_fd ch)) \<and>
    (r = - 1 \<or> \<not> changes_something ch \<longrightarrow> reg k' (ch_fd ch) = reg k (ch_fd ch)) \<and>
    (guesses_only ctl (ch_fd ch) \<longrightarrow> r = 0)"
  using change_heals [OF assms] .

section \<open>The kernel watches what the event base thinks it does\<close>

text \<open>What the kernel has registered agrees with an interest in reading and writing.\<close>

definition epoll_sees :: "u32 option \<Rightarrow> u16 \<Rightarrow> bool" where
  "epoll_sees m w \<longleftrightarrow>
     (case m of
        None \<Rightarrow> \<not> bit w 1 \<and> \<not> bit w 2
      | Some x \<Rightarrow> (bit w 1 \<or> bit w 2) \<and> (bit x 0 \<longleftrightarrow> bit w 1) \<and> (bit x 2 \<longleftrightarrow> bit w 2))"

text \<open>The requests of a log, oldest last, with the old interest of the descriptor as \<^verbatim>\<open>evmap.c\<close> passes it.\<close>

definition old_interest :: "(bool \<times> int \<times> u16) list \<Rightarrow> int \<Rightarrow> u16" where
  "old_interest log fd = interest log fd AND (EV_READ OR EV_WRITE)"

fun epoll_replay :: "'k ctl \<Rightarrow> (bool \<times> int \<times> u16) list \<Rightarrow> 'k \<Rightarrow> bool \<times> 'k" where
  "epoll_replay ctl [] k = (True, k)"
| "epoll_replay ctl ((added, fd, m) # log) k =
     (let (ok, k) = epoll_replay ctl log k;
          (r, k) = (if added then epoll_nochangelist_add else epoll_nochangelist_del) ctl fd (old_interest log fd) m k
      in (ok \<and> r = 0, k))"

lemma change_bits:
  "bit (if c then EV_CHANGE_ADD OR ucast (m AND EV_ET) else 0) 0 \<longleftrightarrow> c"
  "\<not> bit (if c then EV_CHANGE_ADD OR ucast (m AND EV_ET) else 0) 1"
  "bit (if c then EV_CHANGE_DEL else 0) 1 \<longleftrightarrow> c" "\<not> bit (if c then EV_CHANGE_DEL else 0) 0"
  for m :: u16
  by (simp_all add: EV_CHANGE_ADD_def EV_CHANGE_DEL_def EV_ET_def bit_or_iff bit_and_iff bit_ucast_iff bit_numeral_rec bit_1_iff)

lemma old_interest_bits:
  "test (old_interest log fd) EV_READ \<longleftrightarrow> bit (interest log fd) 1"
  "test (old_interest log fd) EV_WRITE \<longleftrightarrow> bit (interest log fd) 2"
  "old_interest log fd AND NOT (EV_READ OR EV_WRITE) = 0"
proof -
  show "test (old_interest log fd) EV_READ \<longleftrightarrow> bit (interest log fd) 1"
    "test (old_interest log fd) EV_WRITE \<longleftrightarrow> bit (interest log fd) 2"
    by (simp_all add: old_interest_def flag_simps bit_and_iff bit_or_iff)
  show "old_interest log fd AND NOT (EV_READ OR EV_WRITE) = 0"
    by (rule bit_word_eqI) (auto simp: old_interest_def bit_and_iff bit_or_iff bit_not_iff)
qed

lemma want_mask_bits: "bit (want_mask ch) 0 \<longleftrightarrow> wants_read ch" "bit (want_mask ch) 2 \<longleftrightarrow> wants_write ch"
  by (simp_all add: want_mask_def bit_or_iff EPOLLIN_def EPOLLOUT_def EPOLLET_def bit_numeral_rec)


lemma request_step:
  fixes m :: u16
  assumes ok: "kernel_ok ctl reg" "closed_cleanly ctl reg"
    and req: "(if added then epoll_nochangelist_add else epoll_nochangelist_del) ctl fd (old_interest log fd) m k = (r, k')"
  shows "(r = 0 \<or> r = - 1) \<and> (\<forall>f. f \<noteq> fd \<longrightarrow> reg k' f = reg k f) \<and>
    (r = 0 \<and> (bit m 1 \<or> bit m 2) \<longrightarrow> epoll_sees (reg k' fd) (interest ((added, fd, m) # log) fd)) \<and>
    (r = - 1 \<or> \<not> (bit m 1 \<or> bit m 2) \<longrightarrow> reg k' fd = reg k fd)"
proof -
  define rc where "rc = (if test m EV_READ then if added then EV_CHANGE_ADD OR ucast (m AND EV_ET) else EV_CHANGE_DEL else 0)"
  define wc where "wc = (if test m EV_WRITE then if added then EV_CHANGE_ADD OR ucast (m AND EV_ET) else EV_CHANGE_DEL else 0)"
  define ch where "ch = \<lparr>ch_fd = fd, old_events = old_interest log fd, read_change = rc, write_change = wc\<rparr>"
  have t: "test m EV_READ \<longleftrightarrow> bit m 1" "test m EV_WRITE \<longleftrightarrow> bit m 2" by (simp_all add: flag_simps)
  have b: "bit rc 0 \<longleftrightarrow> bit m 1 \<and> added" "bit rc 1 \<longleftrightarrow> bit m 1 \<and> \<not> added"
    "bit wc 0 \<longleftrightarrow> bit m 2 \<and> added" "bit wc 1 \<longleftrightarrow> bit m 2 \<and> \<not> added"
    using change_bits(1,2) [of True m] change_bits(3,4) [of True] by (simp_all add: rc_def wc_def t)
  have run: "epoll_apply_one_change ctl ch k = (r, k')"
    using req by (cases added; cases "test m EV_READ"; cases "test m EV_WRITE") (simp_all add: epoll_nochangelist_add_def epoll_nochangelist_del_def ch_def rc_def wc_def)
  have cok: "change_ok ch" using b old_interest_bits(3) by (simp add: change_ok_def ch_def)
  note h = change_heals_clean [OF ok cok run]
  have w: "wants_read ch \<longleftrightarrow> bit (interest ((added, fd, m) # log) fd) 1" "wants_write ch \<longleftrightarrow> bit (interest ((added, fd, m) # log) fd) 2"
    using b old_interest_bits(1,2) [of log fd]
    by (auto simp: wants_read_def wants_write_def wants_def ch_def bit_or_iff bit_and_iff bit_not_iff)
  have c: "changes_something ch \<longleftrightarrow> bit m 1 \<or> bit m 2" using b by (auto simp: changes_something_def adds_def ch_def)
  have "epoll_sees (if wants_read ch \<or> wants_write ch then Some (want_mask ch) else None) (interest ((added, fd, m) # log) fd)"
    unfolding epoll_sees_def w(1) [symmetric] w(2) [symmetric] by (simp add: want_mask_bits)
  then show ?thesis using h c by (auto simp: ch_def)
qed

lemma interest_same:
  assumes "\<not> (bit m 1 \<or> bit m 2)"
  shows "bit (interest ((added, fd, m) # log) f) 1 = bit (interest log f) 1"
    "bit (interest ((added, fd, m) # log) f) 2 = bit (interest log f) 2"
  using assms by (auto simp: bit_or_iff bit_and_iff bit_not_iff)

lemma sees_cong: "bit v 1 = bit w 1 \<Longrightarrow> bit v 2 = bit w 2 \<Longrightarrow> epoll_sees m v = epoll_sees m w"
  by (simp add: epoll_sees_def split: option.split)

lemma replay_sees:
  assumes ok: "kernel_ok ctl reg" "closed_cleanly ctl reg" and fresh: "\<And>fd. reg k0 fd = None"
  shows "epoll_replay ctl log k0 = (True, k) \<Longrightarrow> epoll_sees (reg k f) (interest log f)"
proof (induction log arbitrary: k f)
  case Nil
  then have "k = k0" by simp
  then show ?case by (simp add: fresh epoll_sees_def)
next
  case (Cons e log)
  obtain added fd m where e: "e = (added, fd, m)" by (cases e)
  obtain k1 where k1: "epoll_replay ctl log k0 = (True, k1)"
    and run: "(if added then epoll_nochangelist_add else epoll_nochangelist_del) ctl fd (old_interest log fd) m k1 = (0, k)"
    using Cons.prems by (auto simp: e split: prod.splits)
  note st = request_step [OF ok run]
  show ?case
  proof (cases "f = fd \<and> (bit m 1 \<or> bit m 2)")
    case True
    then show ?thesis using st e by blast
  next
    case False
    have "bit (interest (e # log) f) 1 = bit (interest log f) 1" "bit (interest (e # log) f) 2 = bit (interest log f) 2"
      using False interest_same [of m added fd log f] by (auto simp: e)
    then have "epoll_sees (reg k1 f) (interest (e # log) f)" using Cons.IH [OF k1, of f] sees_cong by blast
    moreover have "reg k f = reg k1 f" using st False by (cases "f = fd") simp_all
    ultimately show ?thesis by simp
  qed
qed


section \<open>Waiting\<close>

definition LONG_MAX :: int where "LONG_MAX = 2 ^ 63 - 1"

definition MAX_SECONDS_IN_MSEC_LONG :: int where "MAX_SECONDS_IN_MSEC_LONG = (LONG_MAX - 999) div 1000"

definition evutil_tv_to_msec :: "timeval \<Rightarrow> int" where
  "evutil_tv_to_msec tv =
     (if tv_usec tv > 1000000 \<or> tv_sec tv > MAX_SECONDS_IN_MSEC_LONG then - 1
      else tv_sec tv * 1000 + (tv_usec tv + 999) div 1000)"

definition MAX_EPOLL_TIMEOUT_MSEC :: int where "MAX_EPOLL_TIMEOUT_MSEC = 35 * 60 * 1000"

definition epoll_timeout :: "timeval option \<Rightarrow> int" where
  "epoll_timeout tv =
     (case tv of
        None \<Rightarrow> - 1
      | Some tv \<Rightarrow>
          let timeout = evutil_tv_to_msec tv
          in if timeout < 0 \<or> timeout > MAX_EPOLL_TIMEOUT_MSEC then MAX_EPOLL_TIMEOUT_MSEC else timeout)"

text \<open>What one entry of \<^verbatim>\<open>epoll_wait\<close> means for the events of the descriptor.\<close>

definition reported :: "u32 \<Rightarrow> u16" where
  "reported what =
     (if what AND (EPOLLHUP OR EPOLLERR) \<noteq> 0 then EV_READ OR EV_WRITE
      else (if what AND EPOLLIN \<noteq> 0 then EV_READ else 0) OR (if what AND EPOLLOUT \<noteq> 0 then EV_WRITE else 0))"

definition activations :: "(u32 \<times> int) list \<Rightarrow> (int \<times> u16) list" where
  "activations evs = map (\<lambda>(what, fd). (fd, reported what OR EV_ET)) (filter (\<lambda>(what, fd). reported what \<noteq> 0) evs)"

definition MAX_NEVENT :: nat where "MAX_NEVENT = 4096"

text \<open>
  The wait for a number of events at most and a number of milliseconds; the result, what is
  activated, and the room for the next time. A \<open>wait\<close> that returns more than asked for fails the assertion.
\<close>

type_synonym 'k epoll_wait = "'k \<Rightarrow> nat \<Rightarrow> int \<Rightarrow> errno + (u32 \<times> int) list"

definition epoll_collect ::
  "'k epoll_wait \<Rightarrow> (nat \<Rightarrow> bool) \<Rightarrow> nat \<Rightarrow> timeval option \<Rightarrow> 'k \<Rightarrow> ev_fault + int \<times> (int \<times> u16) list \<times> nat" where
  "epoll_collect wait mem nevents tv k =
     (case wait k nevents (epoll_timeout tv) of
        Inl e \<Rightarrow> Inr (if e \<noteq> EINTR then - 1 else 0, [], nevents)
      | Inr evs \<Rightarrow>
          if length evs > nevents then Inl AssertFailed
          else Inr (0, activations evs,
            if length evs = nevents \<and> nevents < MAX_NEVENT \<and> mem (nevents * 2 * 12) then nevents * 2 else nevents))"

text \<open>
  \<^verbatim>\<open>epoll_wait\<close> reports registered descriptors, at most as many as asked for; with a file left behind under a number
  that was opened again it would report that one too.
\<close>

definition wait_ok :: "'k epoll_wait \<Rightarrow> ('k \<Rightarrow> int \<Rightarrow> u32 option) \<Rightarrow> bool" where
  "wait_ok wait reg \<longleftrightarrow> (\<forall>k n t evs. wait k n t = Inr evs \<longrightarrow>
     length evs \<le> n \<and> (\<forall>what fd. (what, fd) \<in> set evs \<longrightarrow> reg k fd \<noteq> None))"

lemma collect_spec:
  assumes "wait_ok wait reg" and "0 < nevents"
  shows "\<exists>r ready n. epoll_collect wait mem nevents tv k = Inr (r, ready, n) \<and> (r = 0 \<or> r = - 1) \<and>
    (\<forall>fd evs. (fd, evs) \<in> set ready \<longrightarrow> reg k fd \<noteq> None) \<and> (n = nevents \<or> n = 2 * nevents) \<and> (nevents \<le> MAX_NEVENT \<longrightarrow> n < 2 * MAX_NEVENT)"
proof (cases "wait k nevents (epoll_timeout tv)")
  case (Inl e)
  then show ?thesis using assms(2) by (simp add: epoll_collect_def MAX_NEVENT_def)
next
  case (Inr evs)
  then have "length evs \<le> nevents" "\<And>what fd. (what, fd) \<in> set evs \<Longrightarrow> reg k fd \<noteq> None"
    using assms(1) unfolding wait_ok_def by blast+
  then show ?thesis using Inr by (auto simp: epoll_collect_def activations_def MAX_NEVENT_def)
qed

text \<open>C38:
  The dispatch loop can rely on epoll. Take a base fit for the loop whose counted requests the kernel has granted, a kernel that
  answers as its manual page says, and a program that closes no watched file of which it keeps a duplicate. Whatever the wait
  returns, an error included, it ends without a failed assertion; every descriptor it reports has an added event waiting to
  read or write; handing the reports to the base succeeds, leaves the base fit, and makes active no event but added
  ones of the reported descriptors that asked for what is reported.
\<close>

theorem epoll_serves_loop:
  assumes "kernel_ok ctl reg" and "closed_cleanly ctl reg" and "\<forall>fd. reg k0 fd = None" and "wait_ok wait reg" and "0 < nevents"
    and "dispatch_ok b" and "epoll_replay ctl (backend_log b) k0 = (True, k)"
  shows "\<exists>r ready n b'. epoll_collect wait mem nevents tv k = Inr (r, ready, n) \<and> (r = 0 \<or> r = - 1) \<and>
    (\<forall>fd evs. (fd, evs) \<in> set ready \<longrightarrow>
       (\<exists>e\<in>set (eventqueue b). ev_fd b e = fd \<and> test (ev_events b e) (EV_READ OR EV_WRITE))) \<and>
    report_ready env ready b = (Inr (), b') \<and> dispatch_ok b' \<and>
    woken (\<lambda>e. e \<in> set (eventqueue b) \<and> (\<exists>evs. (ev_fd b e, evs) \<in> set ready \<and> test (ev_events b e) evs)) b b'"
proof -
  obtain r ready n where c: "epoll_collect wait mem nevents tv k = Inr (r, ready, n)" "r = 0 \<or> r = - 1"
    and reg: "\<And>fd evs. (fd, evs) \<in> set ready \<Longrightarrow> reg k fd \<noteq> None"
    using collect_spec [OF assms(4,5), of mem tv k] by blast
  have ok: "base_ok b" using assms(6) by (simp add: dispatch_ok_def)
  have w: "watched b fd" if "(fd, evs) \<in> set ready" for fd evs
  proof -
    have "0 \<le> fd" using assms(1) reg [OF that] unfolding kernel_ok_def by (meson not_le)
    moreover have "epoll_sees (reg k fd) (interest (backend_log b) fd)"
      using replay_sees [OF assms(1,2), of k0] assms(3,7) by simp
    ultimately show ?thesis using reg [OF that] by (auto simp: watched_def epoll_sees_def flag_simps split: option.splits)
  qed
  have slot: "0 \<le> fd \<and> nat fd < length (io b) \<and> (\<exists>c. io b ! nat fd = Some c)" if "(fd, evs) \<in> set ready" for fd evs
    using watched_slot [OF ok w [OF that]] w [OF that] by (simp add: watched_def)
  obtain b' where b': "report_ready env ready b = (Inr (), b')" "dispatch_ok b'"
    "woken (\<lambda>e. e \<in> set (eventqueue b) \<and> (\<exists>evs. (ev_fd b e, evs) \<in> set ready \<and> test (ev_events b e) evs)) b b'"
    using report_spec [OF assms(6), of ready env] slot by blast
  have "\<exists>e\<in>set (eventqueue b). ev_fd b e = fd \<and> test (ev_events b e) (EV_READ OR EV_WRITE)" if "(fd, evs) \<in> set ready" for fd evs
    using w [OF that] base_watches [OF ok, of "nat fd"] by (auto simp: watched_def flag_simps)
  then show ?thesis using c b' by blast
qed

text \<open>C39:
  The milliseconds epoll waits never end before the deadline: up to 35 minutes they cover the time asked for
  and add less than a millisecond; a longer wait is cut to 35 minutes, and no deadline means no limit.
\<close>

theorem epoll_wait_time:
  assumes "time_ok tv" and "0 \<le> tv_sec tv"
  shows "(if micros tv \<le> 35 * 60 * 1000000
     then micros tv \<le> epoll_timeout (Some tv) * 1000 \<and> epoll_timeout (Some tv) * 1000 < micros tv + 1000
     else epoll_timeout (Some tv) = 35 * 60 * 1000) \<and> epoll_timeout None = - 1"
proof -
  have u: "(tv_usec tv + 999) div 1000 * 1000 \<ge> tv_usec tv" "(tv_usec tv + 999) div 1000 * 1000 < tv_usec tv + 1000"
    "0 \<le> (tv_usec tv + 999) div 1000" "(tv_usec tv + 999) div 1000 \<le> 1000"
    using assms(1) by (auto simp: time_ok_def)
  show ?thesis
    using u assms
    by (auto simp: epoll_timeout_def evutil_tv_to_msec_def Let_def micros_def time_ok_def MAX_EPOLL_TIMEOUT_MSEC_def
        MAX_SECONDS_IN_MSEC_LONG_def LONG_MAX_def)
qed

section \<open>The list of pending changes\<close>

text \<open>
  With the change list, requests are collected and applied before the next wait. An entry is found
  through \<open>idxplus1\<close> in the data of its descriptor (or signal), here a map from a
  flag for signals and the number.
\<close>

definition EV_CHANGE_SIGNAL :: byte where "EV_CHANGE_SIGNAL = ucast EV_SIGNAL"

record changelist =
  changes :: "event_change list"
  changes_size :: nat
  idxplus1 :: "bool \<times> int \<Rightarrow> nat"

type_synonym 'a cl_op = "(changelist, ev_fault, 'a) op"

definition event_changelist_init :: "changelist \<Rightarrow> changelist" where
  "event_changelist_init cl = cl\<lparr>changes := [], changes_size := 0\<rparr>"

definition event_change_get_fdinfo :: "event_change \<Rightarrow> bool \<times> int" where
  "event_change_get_fdinfo ch = (test8 (read_change ch) EV_CHANGE_SIGNAL, ch_fd ch)"

fun remove_all_from :: "nat \<Rightarrow> event_change list \<Rightarrow> unit cl_op" where
  "remove_all_from i [] = returnM ()"
| "remove_all_from i (ch # chs) = (\<lambda>cl.
     let p = event_change_get_fdinfo ch in
     if idxplus1 cl p \<noteq> i + 1 then (Inl AssertFailed, cl)
     else remove_all_from (i + 1) chs (cl\<lparr>idxplus1 := (idxplus1 cl)(p := 0)\<rparr>))"

definition event_changelist_remove_all :: "unit cl_op" where
  "event_changelist_remove_all = (\<lambda>cl.
     seqM (remove_all_from 0 (changes cl)) (\<lambda>cl. (Inr (), cl\<lparr>changes := []\<rparr>)) cl)"

definition event_changelist_grow :: "(nat \<Rightarrow> bool) \<Rightarrow> changelist \<Rightarrow> int \<times> changelist" where
  "event_changelist_grow mem cl =
     (let new_size = (if changes_size cl < 64 then 64 else changes_size cl * 2)
      in if mem (new_size * 8) then (0, cl\<lparr>changes_size := new_size\<rparr>) else (- 1, cl))"

text \<open>The index of the entry for the descriptor; none if memory is short.\<close>

definition event_changelist_get_or_construct :: "(nat \<Rightarrow> bool) \<Rightarrow> int \<Rightarrow> u16 \<Rightarrow> bool \<times> int \<Rightarrow> nat option cl_op" where
  "event_changelist_get_or_construct mem fd old p = (\<lambda>cl.
     if idxplus1 cl p = 0 then
       if length (changes cl) > changes_size cl then (Inl AssertFailed, cl)
       else
         let (r, cl) = (if length (changes cl) = changes_size cl then event_changelist_grow mem cl else (0, cl))
         in if r < 0 then (Inr None, cl)
            else (Inr (Some (length (changes cl))),
                  cl\<lparr>changes := changes cl @ [\<lparr>ch_fd = fd, old_events = old, read_change = 0, write_change = 0\<rparr>],
                     idxplus1 := (idxplus1 cl)(p := length (changes cl) + 1)\<rparr>)
     else if length (changes cl) \<le> idxplus1 cl p - 1 then (Inl BadAccess, cl)
     else if ch_fd (changes cl ! (idxplus1 cl p - 1)) \<noteq> fd then (Inl AssertFailed, cl)
     else (Inr (Some (idxplus1 cl p - 1)), cl))"

definition change_add :: "u16 \<Rightarrow> event_change \<Rightarrow> event_change" where
  "change_add events ch =
     (let c = EV_CHANGE_ADD OR ucast (events AND (EV_ET OR EV_PERSIST OR EV_SIGNAL));
          ch = (if test events (EV_READ OR EV_SIGNAL) then ch\<lparr>read_change := c\<rparr> else ch)
      in if test events EV_WRITE then ch\<lparr>write_change := c\<rparr> else ch)"

definition change_del :: "u16 \<Rightarrow> event_change \<Rightarrow> event_change" where
  "change_del events ch =
     (let ch = (if test events (EV_READ OR EV_SIGNAL)
                then ch\<lparr>read_change := (if \<not> test (old_events ch) (EV_READ OR EV_SIGNAL) \<and> test8 (read_change ch) EV_CHANGE_ADD
                                       then 0 else EV_CHANGE_DEL)\<rparr> else ch)
      in if test events EV_WRITE
         then ch\<lparr>write_change := (if \<not> test (old_events ch) EV_WRITE \<and> test8 (write_change ch) EV_CHANGE_ADD
                                 then 0 else EV_CHANGE_DEL)\<rparr> else ch)"

definition changelist_update :: "(event_change \<Rightarrow> event_change) \<Rightarrow> (nat \<Rightarrow> bool) \<Rightarrow> int \<Rightarrow> u16 \<Rightarrow> bool \<times> int \<Rightarrow> int cl_op" where
  "changelist_update f mem fd old p =
     bindM (event_changelist_get_or_construct mem fd old p) (\<lambda>change cl.
       case change of
         None \<Rightarrow> (Inr (- 1), cl)
       | Some i \<Rightarrow> (Inr 0, cl\<lparr>changes := (changes cl)[i := f (changes cl ! i)]\<rparr>))"

definition event_changelist_add :: "(nat \<Rightarrow> bool) \<Rightarrow> int \<Rightarrow> u16 \<Rightarrow> u16 \<Rightarrow> bool \<times> int \<Rightarrow> int cl_op" where
  "event_changelist_add mem fd old events p = changelist_update (change_add events) mem fd old p"

definition event_changelist_del :: "(nat \<Rightarrow> bool) \<Rightarrow> int \<Rightarrow> u16 \<Rightarrow> u16 \<Rightarrow> bool \<times> int \<Rightarrow> int cl_op" where
  "event_changelist_del mem fd old events p = changelist_update (change_del events) mem fd old p"

fun epoll_apply_changes :: "'k ctl \<Rightarrow> event_change list \<Rightarrow> 'k \<Rightarrow> int \<times> 'k" where
  "epoll_apply_changes ctl [] k = (0, k)"
| "epoll_apply_changes ctl (ch # chs) k =
     (let (r, k) = epoll_apply_one_change ctl ch k; (r', k) = epoll_apply_changes ctl chs k
      in (if r < 0 then - 1 else r', k))"

text \<open>A whole wait: pending changes first; a change that fails is not reported.\<close>

record 'k epollop =
  ep_kernel :: 'k
  nevents :: nat
  pending :: changelist

definition epoll_dispatch ::
  "'k ctl \<Rightarrow> 'k epoll_wait \<Rightarrow> (nat \<Rightarrow> bool) \<Rightarrow> timeval option \<Rightarrow> 'k epollop \<Rightarrow> (ev_fault + int \<times> (int \<times> u16) list) \<times> 'k epollop" where
  "epoll_dispatch ctl wait mem tv ep =
     (let k = snd (epoll_apply_changes ctl (changes (pending ep)) (ep_kernel ep)); ep = ep\<lparr>ep_kernel := k\<rparr>
      in case event_changelist_remove_all (pending ep) of
           (Inl f, cl) \<Rightarrow> (Inl f, ep\<lparr>pending := cl\<rparr>)
         | (Inr _, cl) \<Rightarrow>
             let ep = ep\<lparr>pending := cl\<rparr> in
             case epoll_collect wait mem (nevents ep) tv k of
               Inl f \<Rightarrow> (Inl f, ep)
             | Inr (r, ready, n) \<Rightarrow> (Inr (r, ready), ep\<lparr>nevents := n\<rparr>))"

section \<open>Pending changes are as good as direct ones\<close>

definition cl_request :: "(nat \<Rightarrow> bool) \<Rightarrow> (bool \<times> int \<times> u16) list \<Rightarrow> bool \<times> int \<times> u16 \<Rightarrow> int cl_op" where
  "cl_request mem log = (\<lambda>(added, fd, m).
     (if added then event_changelist_add else event_changelist_del) mem fd (old_interest log fd) m (False, fd))"

text \<open>Requests, newest first, on top of those of a log; whether all were granted.\<close>

fun cl_replay :: "(nat \<Rightarrow> bool) \<Rightarrow> (bool \<times> int \<times> u16) list \<Rightarrow> (bool \<times> int \<times> u16) list \<Rightarrow> bool cl_op" where
  "cl_replay mem log [] = returnM True"
| "cl_replay mem log (req # reqs) =
     bindM (cl_replay mem log reqs) (\<lambda>ok. bindM (cl_request mem (reqs @ log) req) (\<lambda>r. returnM (ok \<and> r = 0)))"

text \<open>The list and the data of the descriptors point to each other.\<close>

definition cl_ok :: "changelist \<Rightarrow> bool" where
  "cl_ok cl \<longleftrightarrow> length (changes cl) \<le> changes_size cl \<and>
     (\<forall>i<length (changes cl). event_change_get_fdinfo (changes cl ! i) = (False, ch_fd (changes cl ! i)) \<and>
        idxplus1 cl (False, ch_fd (changes cl ! i)) = i + 1) \<and>
     (\<forall>p. idxplus1 cl p \<noteq> 0 \<longrightarrow> idxplus1 cl p \<le> length (changes cl) \<and> p = (False, ch_fd (changes cl ! (idxplus1 cl p - 1))))"

definition plain_update :: "(event_change \<Rightarrow> event_change) \<Rightarrow> bool" where
  "plain_update f \<longleftrightarrow> (\<forall>ch. ch_fd (f ch) = ch_fd ch \<and> old_events (f ch) = old_events ch \<and>
     (\<not> bit (read_change ch) 3 \<longrightarrow> \<not> bit (read_change (f ch)) 3))"

definition new_change :: "int \<Rightarrow> u16 \<Rightarrow> event_change" where
  "new_change fd old = \<lparr>ch_fd = fd, old_events = old, read_change = 0, write_change = 0\<rparr>"

lemma signal_bit: "test8 w EV_CHANGE_SIGNAL \<longleftrightarrow> bit w 3"
proof -
  have t: "w AND 2 ^ n \<noteq> 0 \<longleftrightarrow> bit w n" for n by (simp add: and_exp_eq_0_iff_not_bit)
  then show ?thesis using t [of 3] by (simp add: test8_def EV_CHANGE_SIGNAL_def EV_SIGNAL_def)
qed

lemma fdinfo_plain: "event_change_get_fdinfo ch = (False, ch_fd ch) \<longleftrightarrow> \<not> bit (read_change ch) 3"
  by (simp add: event_change_get_fdinfo_def signal_bit)

lemma update_spec:
  assumes ok: "cl_ok cl" and f: "plain_update f"
  shows "\<exists>r cl'. changelist_update f mem fd old (False, fd) cl = (Inr r, cl') \<and> cl_ok cl' \<and>
    (r = - 1 \<and> cl' = cl \<or>
     r = 0 \<and> idxplus1 cl (False, fd) = 0 \<and> changes cl' = changes cl @ [f (new_change fd old)] \<and>
       idxplus1 cl' = (idxplus1 cl)((False, fd) := length (changes cl) + 1) \<or>
     r = 0 \<and> idxplus1 cl (False, fd) \<noteq> 0 \<and> idxplus1 cl' = idxplus1 cl \<and>
       (let i = idxplus1 cl (False, fd) - 1 in i < length (changes cl) \<and> ch_fd (changes cl ! i) = fd \<and>
          changes cl' = (changes cl)[i := f (changes cl ! i)]))"
proof (cases "idxplus1 cl (False, fd) = 0")
  case new: True
  define cl1 where "cl1 = (if length (changes cl) = changes_size cl then event_changelist_grow mem cl else (0, cl))"
  have le: "length (changes cl) \<le> changes_size cl" using ok by (simp add: cl_ok_def)
  show ?thesis
  proof (cases "fst cl1 < 0")
    case True
    then have "changelist_update f mem fd old (False, fd) cl = (Inr (- 1), cl)"
      using new le by (auto simp: cl1_def changelist_update_def event_changelist_get_or_construct_def bindM_def Let_def
          event_changelist_grow_def split: if_splits)
    then show ?thesis using ok by blast
  next
    case False
    obtain n where n: "cl1 = (0, cl\<lparr>changes_size := n\<rparr>)" "length (changes cl) < n"
    proof (cases "length (changes cl) = changes_size cl")
      case True
      then show ?thesis using False that [of "if changes_size cl < 64 then 64 else changes_size cl * 2"]
        by (auto simp: cl1_def event_changelist_grow_def Let_def split: if_splits)
    next
      case False
      then show ?thesis using that [of "changes_size cl"] le by (simp add: cl1_def)
    qed
    let ?ch = "f (new_change fd old)"
    define cl2 where "cl2 = cl\<lparr>changes := changes cl @ [?ch], changes_size := n,
        idxplus1 := (idxplus1 cl)((False, fd) := length (changes cl) + 1)\<rparr>"
    have run: "changelist_update f mem fd old (False, fd) cl = (Inr 0, cl2)"
      using new le n(1) unfolding cl1_def
      by (simp add: changelist_update_def event_changelist_get_or_construct_def bindM_def cl2_def new_change_def)
    have ch: "ch_fd ?ch = fd" "\<not> bit (read_change ?ch) 3" using f by (simp_all add: plain_update_def new_change_def)
    have fd': "ch_fd (changes cl ! i) \<noteq> fd" if "i < length (changes cl)" for i
      using ok that new by (metis add_is_0 cl_ok_def one_neq_zero)
    have "cl_ok cl2"
      unfolding cl_ok_def
    proof (intro conjI allI impI)
      show "length (changes cl2) \<le> changes_size cl2" using n(2) by (simp add: cl2_def)
      fix i assume i: "i < length (changes cl2)"
      show "event_change_get_fdinfo (changes cl2 ! i) = (False, ch_fd (changes cl2 ! i))"
        using ok i ch(2) by (auto simp: cl2_def cl_ok_def nth_append fdinfo_plain less_Suc_eq)
      show "idxplus1 cl2 (False, ch_fd (changes cl2 ! i)) = i + 1"
        using ok i ch(1) fd' by (auto simp: cl2_def cl_ok_def nth_append less_Suc_eq)
    next
      fix p assume p: "idxplus1 cl2 p \<noteq> 0"
      have "idxplus1 cl p \<noteq> 0 \<Longrightarrow> idxplus1 cl p \<le> length (changes cl)" using ok unfolding cl_ok_def by blast
      then show "idxplus1 cl2 p \<le> length (changes cl2)" using p by (simp add: cl2_def split: if_splits)
      show "p = (False, ch_fd (changes cl2 ! (idxplus1 cl2 p - 1)))"
      proof (cases "p = (False, fd)")
        case True
        then show ?thesis using ch(1) by (simp add: cl2_def)
      next
        case False
        then have q: "idxplus1 cl p \<noteq> 0" using p by (simp add: cl2_def)
        then have "idxplus1 cl p \<le> length (changes cl)" "p = (False, ch_fd (changes cl ! (idxplus1 cl p - 1)))"
          using ok unfolding cl_ok_def by blast+
        moreover have "idxplus1 cl p - 1 < length (changes cl)" using q calculation(1) by simp
        ultimately show ?thesis using False q by (simp add: cl2_def nth_append)
      qed
    qed
    then show ?thesis using run new by (intro exI [of _ 0] exI [of _ cl2]) (simp add: cl2_def)
  qed
next
  case False
  define i where "i = idxplus1 cl (False, fd) - 1"
  have i: "idxplus1 cl (False, fd) = i + 1" "i < length (changes cl)" "ch_fd (changes cl ! i) = fd"
  proof -
    have "idxplus1 cl (False, fd) \<le> length (changes cl)" "(False, fd) = (False, ch_fd (changes cl ! (idxplus1 cl (False, fd) - 1)))"
      using ok False unfolding cl_ok_def by blast+
    then show "idxplus1 cl (False, fd) = i + 1" "i < length (changes cl)" "ch_fd (changes cl ! i) = fd"
      using False by (simp_all add: i_def)
  qed
  define cl2 where "cl2 = cl\<lparr>changes := (changes cl)[i := f (changes cl ! i)]\<rparr>"
  have run: "changelist_update f mem fd old (False, fd) cl = (Inr 0, cl2)"
    using i by (simp add: changelist_update_def event_changelist_get_or_construct_def bindM_def cl2_def)
  have fdeq: "ch_fd (changes cl2 ! j) = ch_fd (changes cl ! j)" if "j < length (changes cl)" for j
    using that f by (cases "j = i") (simp_all add: cl2_def plain_update_def)
  have sig: "\<not> bit (read_change (changes cl2 ! j)) 3" if "j < length (changes cl)" for j
    using that f ok i(2) by (cases "j = i") (auto simp: cl2_def plain_update_def cl_ok_def fdinfo_plain)
  have len: "length (changes cl2) = length (changes cl)" "changes_size cl2 = changes_size cl" "idxplus1 cl2 = idxplus1 cl"
    by (simp_all add: cl2_def)
  have "cl_ok cl2"
    unfolding cl_ok_def len
  proof (intro conjI allI impI)
    show "length (changes cl) \<le> changes_size cl" using ok by (simp add: cl_ok_def)
    fix j assume j: "j < length (changes cl)"
    show "event_change_get_fdinfo (changes cl2 ! j) = (False, ch_fd (changes cl2 ! j))" using sig [OF j] by (simp add: fdinfo_plain)
    show "idxplus1 cl (False, ch_fd (changes cl2 ! j)) = j + 1" using ok j by (simp add: fdeq cl_ok_def)
  next
    fix p assume p: "idxplus1 cl p \<noteq> 0"
    then have q: "idxplus1 cl p \<le> length (changes cl)" "p = (False, ch_fd (changes cl ! (idxplus1 cl p - 1)))"
      using ok unfolding cl_ok_def by blast+
    then show "idxplus1 cl p \<le> length (changes cl)" by simp
    have "idxplus1 cl p - 1 < length (changes cl)" using p q(1) by simp
    from fdeq [OF this] show "p = (False, ch_fd (changes cl2 ! (idxplus1 cl p - 1)))" using q(2) by simp
  qed
  then show ?thesis using run i by (intro exI [of _ 0] exI [of _ cl2]) (simp add: cl2_def)
qed

text \<open>What the entries say: the kernel is still as at the last wait, and what is wanted is the interest of the log.\<close>

definition cl_sees :: "('k \<Rightarrow> int \<Rightarrow> u32 option) \<Rightarrow> 'k \<Rightarrow> (bool \<times> int \<times> u16) list \<Rightarrow> changelist \<Rightarrow> bool" where
  "cl_sees reg k log cl \<longleftrightarrow>
     (\<forall>fd. idxplus1 cl (False, fd) = 0 \<longrightarrow> epoll_sees (reg k fd) (interest log fd)) \<and>
     (\<forall>ch\<in>set (changes cl). change_ok ch \<and> epoll_sees (reg k (ch_fd ch)) (old_events ch) \<and>
        (wants_read ch \<longleftrightarrow> bit (interest log (ch_fd ch)) 1) \<and> (wants_write ch \<longleftrightarrow> bit (interest log (ch_fd ch)) 2))"

lemma change_update_bits:
  assumes m: "\<not> bit m 3"
  shows "plain_update (change_add m)" "plain_update (change_del m)"
    "change_ok ch \<Longrightarrow> change_ok (change_add m ch)" "change_ok ch \<Longrightarrow> change_ok (change_del m ch)"
    "wants_read (change_add m ch) \<longleftrightarrow> bit m 1 \<or> wants_read ch" "wants_write (change_add m ch) \<longleftrightarrow> bit m 2 \<or> wants_write ch"
    "wants_read (change_del m ch) \<longleftrightarrow> \<not> bit m 1 \<and> wants_read ch" "wants_write (change_del m ch) \<longleftrightarrow> \<not> bit m 2 \<and> wants_write ch"
proof -
  define c where "c = EV_CHANGE_ADD OR (ucast (m AND (EV_ET OR EV_PERSIST OR EV_SIGNAL)) :: byte)"
  have c: "bit c 0" "\<not> bit c 1" "\<not> bit c 3"
    using m by (simp_all add: c_def EV_CHANGE_ADD_def EV_ET_def EV_PERSIST_def EV_SIGNAL_def bit_or_iff bit_and_iff bit_ucast_iff
        bit_numeral_rec bit_1_iff)
  have d: "\<not> bit EV_CHANGE_DEL 0" "bit EV_CHANGE_DEL 1" "\<not> bit EV_CHANGE_DEL 3"
    by (simp_all add: EV_CHANGE_DEL_def bit_numeral_rec)
  have t: "test m (EV_READ OR EV_SIGNAL) \<longleftrightarrow> bit m 1" "test m EV_WRITE \<longleftrightarrow> bit m 2"
    using m by (simp_all add: flag_simps)
  have a: "change_add m ch = ch\<lparr>read_change := (if bit m 1 then c else read_change ch),
      write_change := (if bit m 2 then c else write_change ch)\<rparr>" for ch
    unfolding change_add_def Let_def t c_def by simp
  show "plain_update (change_add m)" using c by (simp add: plain_update_def a)
  show "plain_update (change_del m)" using d by (simp add: plain_update_def change_del_def Let_def)
  show "change_ok ch \<Longrightarrow> change_ok (change_add m ch)" using c by (simp add: change_ok_def a)
  show "change_ok ch \<Longrightarrow> change_ok (change_del m ch)" using d by (simp add: change_ok_def change_del_def Let_def)
  show "wants_read (change_add m ch) \<longleftrightarrow> bit m 1 \<or> wants_read ch" "wants_write (change_add m ch) \<longleftrightarrow> bit m 2 \<or> wants_write ch"
    using c by (auto simp: wants_read_def wants_write_def wants_def a)
  show "wants_read (change_del m ch) \<longleftrightarrow> \<not> bit m 1 \<and> wants_read ch" "wants_write (change_del m ch) \<longleftrightarrow> \<not> bit m 2 \<and> wants_write ch"
    using d t by (auto simp: wants_read_def wants_write_def wants_def change_del_def Let_def test_or)
qed

lemma request_sees:
  assumes ok: "cl_ok cl" and sees: "cl_sees reg k log cl" and m: "\<not> bit m 3"
  shows "\<exists>r cl'. cl_request mem log (added, fd, m) cl = (Inr r, cl') \<and> cl_ok cl' \<and>
    (r = 0 \<longrightarrow> cl_sees reg k ((added, fd, m) # log) cl')"
proof -
  define f where "f = (if added then change_add m else change_del m)"
  note u = change_update_bits [OF m]
  have pf: "plain_update f" using u(1,2) by (simp add: f_def)
  have cok: "change_ok ch \<Longrightarrow> change_ok (f ch)" for ch using u(3,4) by (simp add: f_def)
  have wants: "wants_read (f ch) \<longleftrightarrow> (if added then bit m 1 \<or> wants_read ch else \<not> bit m 1 \<and> wants_read ch)"
    "wants_write (f ch) \<longleftrightarrow> (if added then bit m 2 \<or> wants_write ch else \<not> bit m 2 \<and> wants_write ch)" for ch
    using u(5-8) by (simp_all add: f_def)
  let ?L = "(added, fd, m) # log"
  have int: "bit (interest ?L fd) 1 \<longleftrightarrow> (if added then bit m 1 \<or> bit (interest log fd) 1 else \<not> bit m 1 \<and> bit (interest log fd) 1)"
    "bit (interest ?L fd) 2 \<longleftrightarrow> (if added then bit m 2 \<or> bit (interest log fd) 2 else \<not> bit m 2 \<and> bit (interest log fd) 2)"
    "g \<noteq> fd \<Longrightarrow> interest ?L g = interest log g" for g
    by (auto simp: bit_or_iff bit_and_iff bit_not_iff)
  have run: "cl_request mem log (added, fd, m) = changelist_update f mem fd (old_interest log fd) (False, fd)"
    by (simp add: cl_request_def event_changelist_add_def event_changelist_del_def f_def fun_eq_iff)
  obtain r cl' where r: "changelist_update f mem fd (old_interest log fd) (False, fd) cl = (Inr r, cl')" "cl_ok cl'"
    and cases: "r = - 1 \<and> cl' = cl \<or>
     r = 0 \<and> idxplus1 cl (False, fd) = 0 \<and> changes cl' = changes cl @ [f (new_change fd (old_interest log fd))] \<and>
       idxplus1 cl' = (idxplus1 cl)((False, fd) := length (changes cl) + 1) \<or>
     r = 0 \<and> idxplus1 cl (False, fd) \<noteq> 0 \<and> idxplus1 cl' = idxplus1 cl \<and>
       (let i = idxplus1 cl (False, fd) - 1 in i < length (changes cl) \<and> ch_fd (changes cl ! i) = fd \<and>
          changes cl' = (changes cl)[i := f (changes cl ! i)])"
    using update_spec [OF ok pf, of mem fd "old_interest log fd"] by blast
  have old: "change_ok ch \<and> epoll_sees (reg k (ch_fd ch)) (old_events ch) \<and>
        (wants_read ch \<longleftrightarrow> bit (interest log (ch_fd ch)) 1) \<and> (wants_write ch \<longleftrightarrow> bit (interest log (ch_fd ch)) 2)"
    if "ch \<in> set (changes cl)" for ch using sees that by (simp add: cl_sees_def)
  have upd: "change_ok (f ch) \<and> epoll_sees (reg k (ch_fd (f ch))) (old_events (f ch)) \<and>
        (wants_read (f ch) \<longleftrightarrow> bit (interest ?L (ch_fd (f ch))) 1) \<and> (wants_write (f ch) \<longleftrightarrow> bit (interest ?L (ch_fd (f ch))) 2)"
    if "ch_fd ch = fd" "change_ok ch" "epoll_sees (reg k fd) (old_events ch)" "wants_read ch \<longleftrightarrow> bit (interest log fd) 1"
      "wants_write ch \<longleftrightarrow> bit (interest log fd) 2" for ch
    using that pf cok wants [of ch] int(1,2) by (simp add: plain_update_def)
  have "cl_sees reg k ?L cl'" if r0: "r = 0"
  proof (cases "idxplus1 cl (False, fd) = 0")
    case True
    then have cl': "changes cl' = changes cl @ [f (new_change fd (old_interest log fd))]"
      "idxplus1 cl' = (idxplus1 cl)((False, fd) := length (changes cl) + 1)" using cases r0 by auto
    have fd: "ch_fd ch \<noteq> fd" if "ch \<in> set (changes cl)" for ch
      using that ok True by (auto simp: cl_ok_def in_set_conv_nth)
    have se: "epoll_sees (reg k fd) (interest log fd)" using sees True by (simp add: cl_sees_def)
    have "epoll_sees (reg k fd) (old_interest log fd)"
      using se sees_cong [of "old_interest log fd" "interest log fd"] old_interest_bits(1,2) [of log fd] by (simp add: flag_simps)
    then have new: "change_ok (f (new_change fd (old_interest log fd))) \<and>
        epoll_sees (reg k (ch_fd (f (new_change fd (old_interest log fd))))) (old_events (f (new_change fd (old_interest log fd)))) \<and>
        (wants_read (f (new_change fd (old_interest log fd))) \<longleftrightarrow> bit (interest ?L (ch_fd (f (new_change fd (old_interest log fd))))) 1) \<and>
        (wants_write (f (new_change fd (old_interest log fd))) \<longleftrightarrow> bit (interest ?L (ch_fd (f (new_change fd (old_interest log fd))))) 2)"
      using old_interest_bits [of log fd]
      by (intro upd) (simp_all add: new_change_def change_ok_def wants_read_def wants_write_def wants_def)
    show ?thesis
      unfolding cl_sees_def
    proof (intro conjI allI ballI impI)
      fix g assume "idxplus1 cl' (False, g) = 0"
      then have "g \<noteq> fd" "idxplus1 cl (False, g) = 0" using cl'(2) by (auto split: if_splits)
      then show "epoll_sees (reg k g) (interest ?L g)" using sees int(3) [of g] by (simp add: cl_sees_def)
    next
      fix ch assume "ch \<in> set (changes cl')"
      then consider "ch = f (new_change fd (old_interest log fd))" | "ch \<in> set (changes cl)" using cl'(1) by auto
      then have "change_ok ch \<and> epoll_sees (reg k (ch_fd ch)) (old_events ch) \<and>
        (wants_read ch \<longleftrightarrow> bit (interest ?L (ch_fd ch)) 1) \<and> (wants_write ch \<longleftrightarrow> bit (interest ?L (ch_fd ch)) 2)"
        using new old int(3) fd by cases auto
      then show "change_ok ch" "epoll_sees (reg k (ch_fd ch)) (old_events ch)"
        "wants_read ch \<longleftrightarrow> bit (interest ?L (ch_fd ch)) 1" "wants_write ch \<longleftrightarrow> bit (interest ?L (ch_fd ch)) 2" by simp_all
    qed
  next
    case False
    define i where "i = idxplus1 cl (False, fd) - 1"
    have cl': "idxplus1 cl' = idxplus1 cl" "i < length (changes cl)" "ch_fd (changes cl ! i) = fd"
      "changes cl' = (changes cl)[i := f (changes cl ! i)]" using cases r0 False by (auto simp: i_def Let_def)
    have new: "change_ok (f (changes cl ! i)) \<and> epoll_sees (reg k (ch_fd (f (changes cl ! i)))) (old_events (f (changes cl ! i))) \<and>
        (wants_read (f (changes cl ! i)) \<longleftrightarrow> bit (interest ?L (ch_fd (f (changes cl ! i)))) 1) \<and>
        (wants_write (f (changes cl ! i)) \<longleftrightarrow> bit (interest ?L (ch_fd (f (changes cl ! i)))) 2)"
      using old [of "changes cl ! i"] cl'(2,3) by (intro upd) simp_all
    have other: "ch_fd (changes cl ! j) \<noteq> fd" if "j < length (changes cl)" "j \<noteq> i" for j
    proof
      assume "ch_fd (changes cl ! j) = fd"
      then have "idxplus1 cl (False, fd) = j + 1" using ok that(1) unfolding cl_ok_def by metis
      then show False using that(2) by (simp add: i_def)
    qed
    show ?thesis
      unfolding cl_sees_def
    proof (intro conjI allI ballI impI)
      fix g assume "idxplus1 cl' (False, g) = 0"
      then have "g \<noteq> fd" "idxplus1 cl (False, g) = 0" using cl'(1) False by auto
      then show "epoll_sees (reg k g) (interest ?L g)" using sees int(3) [of g] by (simp add: cl_sees_def)
    next
      fix ch assume "ch \<in> set (changes cl')"
      then obtain j where j: "j < length (changes cl)" "ch = (if j = i then f (changes cl ! i) else changes cl ! j)"
        using cl'(4) by (auto simp: in_set_conv_nth nth_list_update)
      then have "change_ok ch \<and> epoll_sees (reg k (ch_fd ch)) (old_events ch) \<and>
        (wants_read ch \<longleftrightarrow> bit (interest ?L (ch_fd ch)) 1) \<and> (wants_write ch \<longleftrightarrow> bit (interest ?L (ch_fd ch)) 2)"
        using new old [of "changes cl ! j"] int(3) other [OF j(1)] by (cases "j = i") auto
      then show "change_ok ch" "epoll_sees (reg k (ch_fd ch)) (old_events ch)"
        "wants_read ch \<longleftrightarrow> bit (interest ?L (ch_fd ch)) 1" "wants_write ch \<longleftrightarrow> bit (interest ?L (ch_fd ch)) 2" by simp_all
    qed
  qed
  then show ?thesis using run r by auto
qed

lemma cl_replay_spec:
  assumes "cl_ok cl" and "cl_sees reg k log cl" and "\<forall>req\<in>set reqs. \<not> bit (snd (snd req)) 3"
  shows "\<exists>ok cl'. cl_replay mem log reqs cl = (Inr ok, cl') \<and> cl_ok cl' \<and> (ok \<longrightarrow> cl_sees reg k (reqs @ log) cl')"
  using assms(3)
proof (induction reqs)
  case Nil
  then show ?case using assms(1,2) by (intro exI [of _ True] exI [of _ cl]) simp
next
  case (Cons req reqs)
  obtain ok cl1 where c1: "cl_replay mem log reqs cl = (Inr ok, cl1)" "cl_ok cl1" "ok \<longrightarrow> cl_sees reg k (reqs @ log) cl1"
    using Cons by auto
  obtain added fd m where req: "req = (added, fd, m)" by (cases req)
  have m: "\<not> bit m 3" using Cons.prems req by simp
  show ?case
  proof (cases ok)
    case True
    obtain r cl2 where "cl_request mem (reqs @ log) (added, fd, m) cl1 = (Inr r, cl2)" "cl_ok cl2"
      "r = 0 \<longrightarrow> cl_sees reg k ((added, fd, m) # reqs @ log) cl2"
      using request_sees [OF c1(2) mp [OF c1(3) True] m, of mem added fd] by meson
    note r = this
    have "cl_replay mem log (req # reqs) cl = (Inr (r = 0), cl2)"
      by (simp add: bindM_def c1(1) r(1) req True returnM_def)
    then show ?thesis using r(2,3) req by auto
  next
    case False
    have pf: "plain_update (if added then change_add m else change_del m)" using change_update_bits(1,2) [OF m] by simp
    obtain r cl2 where "changelist_update (if added then change_add m else change_del m) mem fd (old_interest (reqs @ log) fd) (False, fd) cl1 =
        (Inr r, cl2)" "cl_ok cl2"
      using update_spec [OF c1(2) pf] by blast
    then have "cl_request mem (reqs @ log) (added, fd, m) cl1 = (Inr r, cl2)"
      by (simp add: cl_request_def event_changelist_add_def event_changelist_del_def split: if_splits)
    then have "cl_replay mem log (req # reqs) cl = (Inr False, cl2)"
      by (simp add: bindM_def c1(1) req False returnM_def)
    then show ?thesis using \<open>cl_ok cl2\<close> by blast
  qed
qed

lemma apply_changes_spec:
  assumes ok: "kernel_ok ctl reg" "closed_cleanly ctl reg"
  shows "distinct (map ch_fd chs) \<Longrightarrow> (\<And>ch. ch \<in> set chs \<Longrightarrow> change_ok ch \<and> epoll_sees (reg k (ch_fd ch)) (old_events ch)) \<Longrightarrow>
    epoll_apply_changes ctl chs k = (r, k') \<Longrightarrow> r = 0 \<Longrightarrow>
    (\<forall>f. f \<notin> ch_fd ` set chs \<longrightarrow> reg k' f = reg k f) \<and>
    (\<forall>ch\<in>set chs. \<forall>w. (bit w 1 \<longleftrightarrow> wants_read ch) \<longrightarrow> (bit w 2 \<longleftrightarrow> wants_write ch) \<longrightarrow> epoll_sees (reg k' (ch_fd ch)) w)"
proof (induction chs arbitrary: k r k')
  case (Cons ch chs)
  obtain r1 k1 where one: "epoll_apply_one_change ctl ch k = (r1, k1)" by (meson surj_pair)
  obtain r2 k2 where rest: "epoll_apply_changes ctl chs k1 = (r2, k2)" by (meson surj_pair)
  have cok: "change_ok ch" and s: "epoll_sees (reg k (ch_fd ch)) (old_events ch)" using Cons.prems(2) [of ch] by simp_all
  note h = change_heals_clean [OF ok cok one]
  have r: "r1 = 0" "r2 = 0" "k' = k2" using Cons.prems(3,4) one rest h by (auto split: if_splits)
  have mine: "epoll_sees (reg k1 (ch_fd ch)) w" if w: "bit w 1 \<longleftrightarrow> wants_read ch" "bit w 2 \<longleftrightarrow> wants_write ch" for w
  proof (cases "changes_something ch")
    case True
    then have "reg k1 (ch_fd ch) = (if wants_read ch \<or> wants_write ch then Some (want_mask ch) else None)" using h r(1) by blast
    then show ?thesis using w by (simp add: epoll_sees_def want_mask_bits)
  next
    case False
    then have "reg k1 (ch_fd ch) = reg k (ch_fd ch)" using h by blast
    moreover have "wants_read ch \<longleftrightarrow> bit (old_events ch) 1" "wants_write ch \<longleftrightarrow> bit (old_events ch) 2"
      using False by (auto simp: changes_something_def adds_def wants_read_def wants_write_def wants_def flag_simps)
    ultimately show ?thesis using s w sees_cong [of w "old_events ch"] by simp
  qed
  have d: "distinct (map ch_fd chs)" "ch_fd ch \<notin> ch_fd ` set chs" using Cons.prems(1) by auto
  have sub: "change_ok c \<and> epoll_sees (reg k1 (ch_fd c)) (old_events c)" if "c \<in> set chs" for c
  proof -
    have "ch_fd c \<noteq> ch_fd ch" using that d(2) by (metis image_eqI)
    then have "reg k1 (ch_fd c) = reg k (ch_fd c)" using h by blast
    then show ?thesis using Cons.prems(2) [of c] that by simp
  qed
  note IH = Cons.IH [OF d(1) sub rest r(2)]
  have a: "reg k' f = reg k f" if "f \<notin> ch_fd ` set (ch # chs)" for f
    using IH h that r(3) by simp
  have "reg k' (ch_fd ch) = reg k1 (ch_fd ch)" using IH d(2) r(3) by simp
  then show ?case using a IH mine r(3) by simp
qed simp

lemma remove_all_spec:
  "(\<And>j. j < length chs \<Longrightarrow> idxplus1 cl (event_change_get_fdinfo (chs ! j)) = i + j + 1) \<Longrightarrow> distinct (map event_change_get_fdinfo chs) \<Longrightarrow>
    \<exists>cl'. remove_all_from i chs cl = (Inr (), cl') \<and>
      idxplus1 cl' = (\<lambda>p. if p \<in> event_change_get_fdinfo ` set chs then 0 else idxplus1 cl p)"
proof (induction chs arbitrary: i cl)
  case Nil
  then show ?case by simp
next
  case (Cons ch chs)
  let ?p = "event_change_get_fdinfo ch"
  define cl1 where "cl1 = cl\<lparr>idxplus1 := (idxplus1 cl)(?p := 0)\<rparr>"
  have "idxplus1 cl1 (event_change_get_fdinfo (chs ! j)) = i + 1 + j + 1" if j: "j < length chs" for j
  proof -
    have "event_change_get_fdinfo (chs ! j) \<noteq> ?p" using Cons.prems(2) j by (metis distinct.simps(2) image_eqI list.set_map list.simps(9) nth_mem)
    then show ?thesis using Cons.prems(1) [of "j + 1"] j by (simp add: cl1_def)
  qed
  from Cons.IH [OF this] Cons.prems(2) obtain cl' where cl': "remove_all_from (i + 1) chs cl1 = (Inr (), cl')"
    "idxplus1 cl' = (\<lambda>p. if p \<in> event_change_get_fdinfo ` set chs then 0 else idxplus1 cl1 p)" by auto
  have "remove_all_from i (ch # chs) cl = (Inr (), cl')"
    using Cons.prems(1) [of 0] cl'(1) by (simp add: Let_def cl1_def)
  then show ?case using cl'(2) by (auto simp: cl1_def fun_eq_iff)
qed

lemma collected_spec:
  assumes "kernel_ok ctl reg" and "closed_cleanly ctl reg" and "\<forall>fd. epoll_sees (reg k fd) (interest log fd)"
    and "changes cl = []" and "\<forall>p. idxplus1 cl p = 0" and "\<forall>req\<in>set reqs. \<not> bit (snd (snd req)) 3"
  shows "\<exists>ok cl' cl''. cl_replay mem log reqs cl = (Inr ok, cl') \<and>
    (ok \<longrightarrow> fst (epoll_apply_changes ctl (changes cl') k) = 0 \<longrightarrow>
       (\<forall>fd. epoll_sees (reg (snd (epoll_apply_changes ctl (changes cl') k)) fd) (interest (reqs @ log) fd))) \<and>
    event_changelist_remove_all cl' = (Inr (), cl'') \<and> changes cl'' = [] \<and> (\<forall>p. idxplus1 cl'' p = 0)"
proof -
  have "cl_ok cl" "cl_sees reg k log cl" using assms(3-5) by (simp_all add: cl_ok_def cl_sees_def)
  from cl_replay_spec [OF this assms(6), of mem] obtain ok cl' where
    r: "cl_replay mem log reqs cl = (Inr ok, cl')" "cl_ok cl'" "ok \<longrightarrow> cl_sees reg k (reqs @ log) cl'" by blast
  let ?chs = "changes cl'"
  have idx: "event_change_get_fdinfo (?chs ! i) = (False, ch_fd (?chs ! i))" "idxplus1 cl' (False, ch_fd (?chs ! i)) = i + 1"
    if "i < length ?chs" for i using r(2) that by (simp_all add: cl_ok_def)
  have d: "distinct (map ch_fd ?chs)"
    unfolding distinct_conv_nth
  proof (intro allI impI)
    fix i j assume "i < length (map ch_fd ?chs)" "j < length (map ch_fd ?chs)" "i \<noteq> j"
    then show "map ch_fd ?chs ! i \<noteq> map ch_fd ?chs ! j" using idx(2) [of i] idx(2) [of j] by auto
  qed
  have in_list: "idxplus1 cl' (False, fd) = 0 \<or> fd \<in> ch_fd ` set ?chs" for fd
  proof (cases "idxplus1 cl' (False, fd) = 0")
    case False
    then have "idxplus1 cl' (False, fd) \<le> length ?chs" "fd = ch_fd (?chs ! (idxplus1 cl' (False, fd) - 1))"
      using r(2) unfolding cl_ok_def by blast+
    moreover have "idxplus1 cl' (False, fd) - 1 < length ?chs" using False calculation(1) by simp
    ultimately show ?thesis by (metis image_eqI nth_mem)
  qed simp
  have sees: "epoll_sees (reg (snd (epoll_apply_changes ctl ?chs k)) fd) (interest (reqs @ log) fd)"
    if "ok" "fst (epoll_apply_changes ctl ?chs k) = 0" for fd
  proof -
    have s: "cl_sees reg k (reqs @ log) cl'" using r(3) that(1) by simp
    obtain x k' where x: "epoll_apply_changes ctl ?chs k = (x, k')" by (meson surj_pair)
    have pre: "change_ok ch \<and> epoll_sees (reg k (ch_fd ch)) (old_events ch)" if "ch \<in> set ?chs" for ch
      using s that by (simp add: cl_sees_def)
    have "x = 0" using that(2) x by simp
    note ap = apply_changes_spec [OF assms(1,2) d pre x this]
    show ?thesis
    proof (cases "fd \<in> ch_fd ` set ?chs")
      case True
      then obtain ch where ch: "ch \<in> set ?chs" "fd = ch_fd ch" by blast
      then show ?thesis using ap s x by (simp add: cl_sees_def)
    next
      case False
      then have "idxplus1 cl' (False, fd) = 0" using in_list by blast
      then show ?thesis using ap False s x by (simp add: cl_sees_def)
    qed
  qed
  have fi: "map event_change_get_fdinfo ?chs = map (\<lambda>ch. (False, ch_fd ch)) ?chs"
    by (intro map_cong refl) (metis idx(1) in_set_conv_nth)
  have "distinct (map (\<lambda>ch. (False, ch_fd ch)) ?chs)" using d by (simp add: distinct_map inj_on_def)
  then have "distinct (map event_change_get_fdinfo ?chs)" by (simp add: fi)
  moreover have "idxplus1 cl' (event_change_get_fdinfo (?chs ! j)) = 0 + j + 1" if "j < length ?chs" for j
    using idx that by simp
  ultimately obtain c where c: "remove_all_from 0 ?chs cl' = (Inr (), c)"
    "idxplus1 c = (\<lambda>p. if p \<in> event_change_get_fdinfo ` set ?chs then 0 else idxplus1 cl' p)"
    using remove_all_spec [of ?chs cl' 0] by blast
  have "event_change_get_fdinfo ` set ?chs = (\<lambda>ch. (False, ch_fd ch)) ` set ?chs"
    using arg_cong [OF fi, of set] by simp
  moreover have "p = (False, snd p)" if "idxplus1 cl' p \<noteq> 0" for p using r(2) that unfolding cl_ok_def by (metis snd_conv)
  moreover have "(False, fd) \<in> (\<lambda>ch. (False, ch_fd ch)) ` set ?chs" if "idxplus1 cl' (False, fd) \<noteq> 0" for fd
    using in_list [of fd] that by auto
  ultimately have zero: "idxplus1 c p = 0" for p
    unfolding c(2) by metis
  have "event_changelist_remove_all cl' = (Inr (), c\<lparr>changes := []\<rparr>)"
    using c(1) by (simp add: event_changelist_remove_all_def seqM_Inr)
  then show ?thesis using r(1) sees zero by (intro exI [of _ ok] exI [of _ cl'] exI [of _ "c\<lparr>changes := []\<rparr>"]) simp
qed


section \<open>A descriptor with two edge-triggered events\<close>

text \<open>
  Deleting one of two edge-triggered events of a descriptor registers the other without
  \<^verbatim>\<open>EPOLLET\<close>: the one left is level-triggered from then on.
\<close>

lemma edge_trigger_lost:
  assumes "kernel_ok ctl reg" and "reg k fd = Some (EPOLLIN OR EPOLLOUT OR EPOLLET)"
    and "epoll_nochangelist_del ctl fd (EV_READ OR EV_WRITE) (EV_READ OR EV_ET) k = (0, k')"
  shows "reg k' fd = Some EPOLLOUT"
proof -
  define ch where "ch = \<lparr>ch_fd = fd, old_events = EV_READ OR EV_WRITE, read_change = EV_CHANGE_DEL, write_change = 0\<rparr>"
  have run: "epoll_apply_one_change ctl ch k = (0, k')"
  proof -
    have "test (EV_READ OR EV_ET) EV_READ" "\<not> test (EV_READ OR EV_ET) EV_WRITE"
      by (simp_all add: test_def EV_READ_def EV_WRITE_def EV_ET_def)
    then show ?thesis using assms(3) by (simp add: epoll_nochangelist_del_def ch_def)
  qed
  have b: "bit EV_CHANGE_DEL 1" "\<not> bit EV_CHANGE_DEL 0" "\<not> bit EV_CHANGE_DEL 5"
    by (simp_all add: EV_CHANGE_DEL_def bit_numeral_rec)
  have cok: "change_ok ch" using b by (simp add: change_ok_def ch_def EV_READ_def EV_WRITE_def)
  have w: "wants_write ch" "\<not> wants_read ch" "changes_something ch" "want_mask ch = EPOLLOUT"
    using b by (simp_all add: wants_write_def wants_read_def wants_def changes_something_def adds_def want_mask_def ch_def flag_simps bit_or_iff)
  show ?thesis using change_heals [OF assms(1) cok run] w assms(2) by (auto simp: ch_def)
qed

section \<open>A file with two descriptors\<close>

text \<open>Closing a watched descriptor whose file has another one, and then deleting its event, leaves the file in the set.\<close>

lemma duplicate_stays_watched:
  assumes "kernel_ok ctl reg" and "ctl k EPOLL_CTL_DEL fd EPOLLIN = (Some EBADF, k')"
  shows "epoll_nochangelist_del ctl fd EV_READ EV_READ k = (0, k') \<and> reg k' fd = reg k fd"
  using kernelD(2) [OF assms] assms(2)
  by (simp add: epoll_nochangelist_del_def epoll_apply_one_change_def change_op_def test8_def test_def
      EV_READ_def EV_WRITE_def EV_ET_def EV_CHANGE_ADD_def EV_CHANGE_DEL_def EPOLLIN_def)

section \<open>A kernel to run the theorems on\<close>

text \<open>A kernel that knows every descriptor from 0 on, and reports those of 0 to 7.\<close>

type_synonym map_kernel = "int \<Rightarrow> u32 option"

definition map_reg :: "map_kernel \<Rightarrow> int \<Rightarrow> u32 option" where
  "map_reg k fd = (if fd < 0 then None else k fd)"

definition map_ctl :: "map_kernel ctl" where
  "map_ctl k op fd ev =
     (case op of
        EPOLL_CTL_ADD \<Rightarrow>
          if fd < 0 then (Some EBADF, k) else if k fd \<noteq> None then (Some EEXIST, k) else (None, k(fd \<mapsto> ev))
      | EPOLL_CTL_MOD \<Rightarrow> if map_reg k fd = None then (Some ENOENT, k) else (None, k(fd \<mapsto> ev))
      | EPOLL_CTL_DEL \<Rightarrow> if map_reg k fd = None then (Some ENOENT, k) else (None, k(fd := None)))"

definition map_wait :: "map_kernel epoll_wait" where
  "map_wait k n t = Inr (take n (concat (map (\<lambda>fd. case map_reg k fd of None \<Rightarrow> [] | Some ev \<Rightarrow> [(ev, fd)]) [0, 1, 2, 3, 4, 5, 6, 7])))"

lemma map_kernel_ok: "kernel_ok map_ctl map_reg"
  unfolding kernel_ok_def
proof (intro conjI allI impI)
  fix k fd show "fd < 0 \<Longrightarrow> map_reg k fd = None" by (simp add: map_reg_def)
next
  fix k :: map_kernel and op fd ev r k' f assume a: "map_ctl k op fd ev = (r, k')" "f \<noteq> fd"
  then show "map_reg k' f = map_reg k f"
    by (cases op) (auto simp: map_ctl_def map_reg_def split: if_splits)
next
  fix k :: map_kernel and op fd ev r k' assume a: "map_ctl k op fd ev = (r, k')"
  then show "map_reg k' fd = (if r \<noteq> None then map_reg k fd else if op = EPOLL_CTL_DEL then None else Some ev)"
    "r = None \<Longrightarrow> map_reg k fd = None \<longleftrightarrow> op = EPOLL_CTL_ADD"
    "r = Some EEXIST \<Longrightarrow> op = EPOLL_CTL_ADD" "r = Some EEXIST \<Longrightarrow> map_reg k fd \<noteq> None"
    "r = Some ENOENT \<Longrightarrow> op \<noteq> EPOLL_CTL_ADD" "r = Some ENOENT \<Longrightarrow> map_reg k fd = None"
    by (cases op; auto simp: map_ctl_def map_reg_def split: if_splits)+
qed

lemma map_kernel_clean: "closed_cleanly map_ctl map_reg"
  by (simp add: closed_cleanly_def map_ctl_def)

lemma take_bound: "length (take n xs) \<le> n"
  by simp

lemma map_wait_ok: "wait_ok map_wait map_reg"
proof -
  have "map_reg k fd \<noteq> None"
    if "(what, fd) \<in> set (concat (map (\<lambda>fd. case map_reg k fd of None \<Rightarrow> [] | Some ev \<Rightarrow> [(ev, fd)]) fds))" for k what fd fds
    using that by (cases "map_reg k fd") (auto split: option.splits)
  note there = this
  show ?thesis
    unfolding wait_ok_def
  proof (intro allI impI)
    fix k n t evs assume "map_wait k n t = Inr evs"
    then have e: "evs = take n (concat (map (\<lambda>fd. case map_reg k fd of None \<Rightarrow> [] | Some ev \<Rightarrow> [(ev, fd)]) [0, 1, 2, 3, 4, 5, 6, 7]))"
      unfolding map_wait_def by (rule Inr_inject [symmetric])
    show "length evs \<le> n \<and> (\<forall>what fd. (what, fd) \<in> set evs \<longrightarrow> map_reg k fd \<noteq> None)"
      unfolding e by (intro conjI allI impI, rule take_bound, erule there [OF in_set_takeD])
  qed
qed

lemma epoll_change_heals_witness:
  "epoll_apply_one_change map_ctl \<lparr>ch_fd = 1, old_events = EV_READ, read_change = 0, write_change = EV_CHANGE_ADD\<rparr> Map.empty =
     (0, Map.empty(1 \<mapsto> EPOLLIN OR EPOLLOUT)) \<and>
   map_reg (Map.empty(1 \<mapsto> EPOLLIN OR EPOLLOUT)) 1 = Some (EPOLLIN OR EPOLLOUT)"
proof -
  let ?ch = "\<lparr>ch_fd = 1, old_events = EV_READ, read_change = 0, write_change = EV_CHANGE_ADD\<rparr>"
  have ok: "change_ok ?ch" by (simp add: change_ok_def EV_READ_def EV_WRITE_def EV_CHANGE_ADD_def bit_numeral_rec)
  have run: "epoll_apply_one_change map_ctl ?ch Map.empty = (0, Map.empty(1 \<mapsto> EPOLLIN OR EPOLLOUT))"
    by (simp add: epoll_apply_one_change_def change_op_def map_ctl_def map_reg_def test8_def test_def EV_READ_def EV_WRITE_def
        EV_CHANGE_ADD_def EV_CHANGE_DEL_def EV_ET_def EPOLLIN_def EPOLLOUT_def)
  have b: "bit EV_CHANGE_ADD 0" "\<not> bit EV_CHANGE_ADD 1" "\<not> bit EV_CHANGE_ADD 5"
    by (simp_all add: EV_CHANGE_ADD_def bit_numeral_rec bit_1_iff)
  have w: "wants_read ?ch" "wants_write ?ch" "changes_something ?ch" "want_mask ?ch = EPOLLIN OR EPOLLOUT"
    using b by (simp_all add: wants_write_def wants_read_def wants_def changes_something_def adds_def want_mask_def flag_simps)
  show ?thesis using epoll_change_heals [OF map_kernel_ok ok run] w run by simp
qed

lemma reader_replay: "epoll_replay map_ctl (backend_log base_with_reader) Map.empty = (True, Map.empty(5 \<mapsto> EPOLLIN))"
  unfolding base_with_reader_reachable(6)
  by (simp add: epoll_nochangelist_add_def old_interest_def epoll_apply_one_change_def change_op_def map_ctl_def
      map_reg_def test8_def test_def EV_READ_def EV_WRITE_def EV_CHANGE_ADD_def EV_CHANGE_DEL_def EV_ET_def EPOLLIN_def EPOLLOUT_def)


lemma epoll_wait_time_witness:
  "epoll_timeout (Some (Timeval 1 500001)) * 1000 \<ge> 1500001 \<and> epoll_timeout (Some (Timeval 1 500001)) = 1501"
proof -
  have "time_ok (Timeval 1 500001)" "0 \<le> tv_sec (Timeval 1 500001)" by (simp_all add: time_ok_def)
  from epoll_wait_time [OF this] show ?thesis
    by (simp add: micros_def epoll_timeout_def evutil_tv_to_msec_def MAX_SECONDS_IN_MSEC_LONG_def LONG_MAX_def MAX_EPOLL_TIMEOUT_MSEC_def)
qed

lemma epoll_serves_loop_witness:
  "\<exists>b'. epoll_collect map_wait (\<lambda>_. True) 32 None (Map.empty(5 \<mapsto> EPOLLIN)) = Inr (0, [(5, EV_READ OR EV_ET)], 32) \<and>
     report_ready plain_env [(5, EV_READ OR EV_ET)] base_with_reader = (Inr (), b')"
proof -
  have e: "\<forall>fd. map_reg Map.empty fd = None" by (simp add: map_reg_def)
  have c: "epoll_collect map_wait (\<lambda>_. True) 32 None (Map.empty(5 \<mapsto> EPOLLIN)) = Inr (0, [(5, EV_READ OR EV_ET)], 32)"
    by (simp add: epoll_collect_def map_wait_def map_reg_def activations_def reported_def EPOLLIN_def EPOLLOUT_def EPOLLHUP_def EPOLLERR_def
        EV_READ_def)
  show ?thesis
    using epoll_serves_loop [OF map_kernel_ok map_kernel_clean e map_wait_ok _ reader_fits(1) reader_replay,
        of 32 "\<lambda>_. True" None plain_env] c by auto
qed


end
