(* ===== verification/StrUtils.thy ===== *)
theory StrUtils
  imports Prelude "HOL-Library.Sublist"
begin

text \<open>
  The string functions of \<^verbatim>\<open>libbase/Utils.cpp\<close>: trimming, replacing and splitting. A
  \<^verbatim>\<open>std::string\<close> is the list of its characters, \<^verbatim>\<open>npos\<close> is \<open>None\<close>.
\<close>

section \<open>Members of \<^verbatim>\<open>std::string\<close>\<close>

fun find_sub :: "'a list \<Rightarrow> 'a list \<Rightarrow> nat option" where
  "find_sub p [] = (if p = [] then Some 0 else None)"
| "find_sub p (x # xs) = (if prefix p (x # xs) then Some 0 else map_option Suc (find_sub p xs))"

text \<open>\<^verbatim>\<open>str.find(p, from)\<close>\<close>

definition str_find :: "'a list \<Rightarrow> 'a list \<Rightarrow> nat \<Rightarrow> nat option" where
  "str_find str p from =
     (if from \<le> length str then map_option ((+) from) (find_sub p (drop from str)) else None)"

text \<open>\<^verbatim>\<open>str.erase(pos, n)\<close> and \<^verbatim>\<open>str.replace(pos, n, to)\<close>\<close>

definition str_replace :: "nat \<Rightarrow> nat \<Rightarrow> 'a list \<Rightarrow> 'a list \<Rightarrow> 'a list" where
  "str_replace pos n to str = take pos str @ to @ drop (pos + n) str"

definition str_erase :: "nat \<Rightarrow> nat \<Rightarrow> 'a list \<Rightarrow> 'a list" where
  "str_erase pos n str = str_replace pos n [] str"

definition find_first_not_of :: "'a \<Rightarrow> 'a list \<Rightarrow> nat option" where
  "find_first_not_of c str =
     (case filter (\<lambda>i. str ! i \<noteq> c) [0..<length str] of [] \<Rightarrow> None | i # _ \<Rightarrow> Some i)"

definition find_last_not_of :: "'a \<Rightarrow> 'a list \<Rightarrow> nat option" where
  "find_last_not_of c str =
     (case rev (filter (\<lambda>i. str ! i \<noteq> c) [0..<length str]) of [] \<Rightarrow> None | i # _ \<Rightarrow> Some i)"

lemma find_sub_bound: "find_sub p xs = Some i \<Longrightarrow> i + length p \<le> length xs \<and> prefix p (drop i xs)"
proof (induction xs arbitrary: i)
  case (Cons x xs)
  show ?case
  proof (cases "prefix p (x # xs)")
    case True
    then show ?thesis using Cons.prems prefix_length_le [OF True] by simp
  next
    case False
    then show ?thesis using Cons by auto
  qed
qed (auto split: if_splits)

lemma str_find_bound: "str_find str p from = Some i \<Longrightarrow> from \<le> i \<and> i + length p \<le> length str"
  by (auto simp: str_find_def split: if_splits dest!: find_sub_bound)

section \<open>The functions\<close>

text \<open>Every occurrence is erased, from the last position found on.\<close>

function trim_loop :: "'a \<Rightarrow> nat \<Rightarrow> 'a list \<Rightarrow> 'a list" where
  "trim_loop c index str =
     (case str_find str [c] index of
        None \<Rightarrow> str
      | Some i \<Rightarrow> trim_loop c i (str_erase i 1 str))"
  by pat_completeness auto
termination
  by (relation "measure (\<lambda>(_, _, str). length str)")
    (auto simp: str_erase_def str_replace_def dest!: str_find_bound)

declare trim_loop.simps [simp del]

definition trimString :: "'a \<Rightarrow> 'a list \<Rightarrow> 'a list" where
  "trimString c str = (if str = [] then str else trim_loop c 0 str)"

definition trimTailAllString :: "'a \<Rightarrow> 'a list \<Rightarrow> 'a list" where
  "trimTailAllString c str =
     (if str = [] then str
      else case str_find str [c] 0 of
        None \<Rightarrow> str
      | Some pos \<Rightarrow> str_erase pos (length str - pos) str)"

definition isStringBeginOf :: "'a list \<Rightarrow> 'a list \<Rightarrow> bool" where
  "isStringBeginOf str s = (if str = [] \<or> s = [] then False else str_find str s 0 = Some 0)"

definition trimHeadString :: "'a \<Rightarrow> 'a list \<Rightarrow> 'a list" where
  "trimHeadString c str =
     (if str = [] then str
      else case find_first_not_of c str of
        None \<Rightarrow> []
      | Some i \<Rightarrow> str_erase 0 i str)"

definition trimTailString :: "'a \<Rightarrow> 'a list \<Rightarrow> 'a list" where
  "trimTailString c str =
     (if str = [] then str
      else case find_last_not_of c str of
        None \<Rightarrow> []
      | Some i \<Rightarrow> take (i + 1) str)"

text \<open>
  The search goes on behind the length of the text replaced, not of the replacement, so it
  may find what was just put in: \<open>None\<close> is a loop that never ends.
\<close>

partial_function (option) replace_loop :: "'a list \<Rightarrow> 'a list \<Rightarrow> nat option \<Rightarrow> 'a list \<Rightarrow> 'a list option" where
  "replace_loop from to index str =
     (case index of
        None \<Rightarrow> Some str
      | Some i \<Rightarrow>
          (let str' = str_replace i (length from) to str in
           replace_loop from to (str_find str' from (i + length from)) str'))"

definition replaceAllChar :: "'a list \<Rightarrow> 'a list \<Rightarrow> 'a list \<Rightarrow> 'a list option" where
  "replaceAllChar str from to =
     (if from = to \<or> str = [] then Some str
      else replace_loop from to (str_find str from 0) str)"

text \<open>
  The parts found, and where the rest starts. A separator of any length is skipped by one
  character; \<open>index\<close> limits the number of cuts, zero means all.
\<close>

function split_loop :: "'a list \<Rightarrow> 'a list \<Rightarrow> nat \<Rightarrow> nat \<Rightarrow> nat \<Rightarrow> 'a list list \<times> nat" where
  "split_loop str c index left ct =
     (case str_find str c left of
        None \<Rightarrow> ([], left)
      | Some right \<Rightarrow>
          let part = take (right - left) (drop left str) in
          if index \<noteq> 0 \<and> ct + 1 \<ge> index then ([part], right + 1)
          else case split_loop str c index (right + 1) (ct + 1) of
                 (ps, l) \<Rightarrow> (part # ps, l))"
  by pat_completeness auto
termination
  by (relation "measure (\<lambda>(str, _, _, left, _). Suc (length str) - left)")
    (auto dest!: str_find_bound)

declare split_loop.simps [simp del]

text \<open>\<open>None\<close> is the \<^verbatim>\<open>out_of_range\<close> that \<^verbatim>\<open>substr\<close> throws behind the end.\<close>

definition splitString :: "'a list \<Rightarrow> 'a list list \<Rightarrow> 'a list \<Rightarrow> nat \<Rightarrow> 'a list list option" where
  "splitString str parts c index =
     (if str = [] then Some parts
      else case split_loop str c index 0 0 of
        (ps, left) \<Rightarrow>
          if left = length str then Some (parts @ ps)
          else if length str < left then None
          else Some (parts @ ps @ [drop left str]))"

definition toupper :: "char \<Rightarrow> char" where
  "toupper c = (if 97 \<le> (of_char c :: nat) \<and> (of_char c :: nat) \<le> 122 then char_of ((of_char c :: nat) - 32) else c)"

definition tolower :: "char \<Rightarrow> char" where
  "tolower c = (if 65 \<le> (of_char c :: nat) \<and> (of_char c :: nat) \<le> 90 then char_of ((of_char c :: nat) + 32) else c)"

definition stringUp :: "string \<Rightarrow> string" where
  "stringUp str = map toupper str"

definition stringLow :: "string \<Rightarrow> string" where
  "stringLow str = map tolower str"

section \<open>What they compute\<close>

lemma find_char: "find_sub [c] xs = (if c \<in> set xs then Some (length (takeWhile (\<lambda>x. x \<noteq> c) xs)) else None)"
  by (induction xs) auto

lemma find_char_from:
  "from \<le> length str \<Longrightarrow> str_find str [c] from =
     (if c \<in> set (drop from str) then Some (from + length (takeWhile (\<lambda>x. x \<noteq> c) (drop from str))) else None)"
  by (simp add: str_find_def find_char)

lemma dropWhile_split: "c \<in> set xs \<Longrightarrow> xs = takeWhile (\<lambda>x. x \<noteq> c) xs @ c # tl (dropWhile (\<lambda>x. x \<noteq> c) xs)"
  by (induction xs) auto

lemma erase_middle: "str_erase (length p + length w) 1 (p @ w @ c # r) = p @ w @ r"
  by (simp add: str_erase_def str_replace_def)

lemma trim_loop_filter:
  "index \<le> length str \<Longrightarrow> c \<notin> set (take index str) \<Longrightarrow> trim_loop c index str = filter (\<lambda>x. x \<noteq> c) str"
proof (induction c index str rule: trim_loop.induct)
  case (1 c index str)
  show ?case
  proof (cases "c \<in> set (drop index str)")
    case False
    then have "c \<notin> set str" using 1 by (metis append_take_drop_id UnE set_append)
    then have "filter (\<lambda>x. x \<noteq> c) str = str" by (intro filter_True) auto
    with False 1 show ?thesis by (subst trim_loop.simps) (simp add: find_char_from)
  next
    case True
    define w where "w = takeWhile (\<lambda>x. x \<noteq> c) (drop index str)"
    define r where "r = tl (dropWhile (\<lambda>x. x \<noteq> c) (drop index str))"
    let ?i = "index + length w"
    have "drop index str = w @ c # r" using dropWhile_split [OF True] by (simp add: w_def r_def)
    then have str: "str = take index str @ w @ c # r" by (metis append_take_drop_id)
    have w: "c \<notin> set w" by (auto simp: w_def dest: set_takeWhileD)
    have len: "length (take index str) = index" using 1 by simp
    have er: "str_erase ?i 1 str = take index str @ w @ r"
      using erase_middle [of "take index str" w c r] str len by simp
    have fnd: "str_find str [c] index = Some ?i" using True 1 by (simp add: find_char_from w_def)
    have "?i \<le> length (take index str @ w @ r)" "c \<notin> set (take ?i (take index str @ w @ r))"
      using "1.prems" w len by simp_all
    from "1.IH" [OF fnd, unfolded er, OF this]
    have "trim_loop c ?i (str_erase ?i 1 str) = filter (\<lambda>x. x \<noteq> c) (str_erase ?i 1 str)"
      unfolding er .
    also have "\<dots> = filter (\<lambda>x. x \<noteq> c) (take index str @ w @ c # r)" unfolding er by simp
    also have "\<dots> = filter (\<lambda>x. x \<noteq> c) str" by (rule arg_cong [OF str [symmetric]])
    finally show ?thesis using fnd by (subst trim_loop.simps) simp
  qed
qed

lemma trimString_filter: "trimString c str = filter (\<lambda>x. x \<noteq> c) str"
  by (simp add: trimString_def trim_loop_filter)

lemma trimTailAllString_takeWhile: "trimTailAllString c str = takeWhile (\<lambda>x. x \<noteq> c) str"
proof (cases "c \<in> set str")
  case True
  have "take (length (takeWhile (\<lambda>x. x \<noteq> c) str)) str = takeWhile (\<lambda>x. x \<noteq> c) str"
    by (metis takeWhile_eq_take)
  with True show ?thesis
    by (auto simp: trimTailAllString_def find_char_from str_erase_def str_replace_def)
next
  case False
  then have tw: "takeWhile (\<lambda>x. x \<noteq> c) str = str" by (auto simp: takeWhile_eq_all_conv)
  show ?thesis unfolding tw using False by (simp add: trimTailAllString_def find_char_from)
qed

lemma isStringBeginOf_prefix: "isStringBeginOf str s \<longleftrightarrow> str \<noteq> [] \<and> s \<noteq> [] \<and> prefix s str"
proof (cases str)
  case (Cons x xs)
  then show ?thesis by (auto simp: isStringBeginOf_def str_find_def split: if_splits)
qed (simp add: isStringBeginOf_def)

lemma upt_filter_hd:
  "filter (\<lambda>i. str ! i \<noteq> c) [0..<length str] =
     (let k = length (takeWhile (\<lambda>x. x = c) str) in
      if k < length str then k # filter (\<lambda>i. str ! i \<noteq> c) [Suc k..<length str] else [])"
proof -
  define k where "k = length (takeWhile (\<lambda>x. x = c) str)"
  have before: "str ! i = c" if "i < k" for i
    using that set_takeWhileD [of "str ! i" "\<lambda>x. x = c" str]
    by (metis k_def nth_mem takeWhile_nth)
  have k: "k \<le> length str" by (simp add: k_def length_takeWhile_le)
  have split: "[0..<length str] = [0..<k] @ [k..<length str]" using k by (metis le0 le_add_diff_inverse upt_add_eq_append)
  have "filter (\<lambda>i. str ! i \<noteq> c) [0..<k] = []" using before by (simp add: filter_empty_conv)
  then have f: "filter (\<lambda>i. str ! i \<noteq> c) [0..<length str] = filter (\<lambda>i. str ! i \<noteq> c) [k..<length str]"
    by (simp add: split)
  show ?thesis
  proof (cases "k < length str")
    case True
    then have "str ! k \<noteq> c" using nth_length_takeWhile [of "\<lambda>x. x = c" str] by (simp add: k_def)
    then show ?thesis using True f by (simp add: k_def [symmetric] Let_def upt_conv_Cons)
  next
    case False
    then show ?thesis using f k by (simp add: k_def [symmetric])
  qed
qed

lemma trimHeadString_dropWhile: "trimHeadString c str = dropWhile (\<lambda>x. x = c) str"
proof (cases "length (takeWhile (\<lambda>x. x = c) str) < length str")
  case True
  then have "str \<noteq> []" by auto
  with True show ?thesis
    by (simp add: trimHeadString_def find_first_not_of_def upt_filter_hd Let_def str_erase_def
        str_replace_def dropWhile_eq_drop)
next
  case False
  then have "takeWhile (\<lambda>x. x = c) str = str"
    by (metis length_takeWhile_le order.antisym not_less takeWhile_eq_take take_all)
  then have dw: "dropWhile (\<lambda>x. x = c) str = []" by (simp add: takeWhile_eq_all_conv)
  show ?thesis unfolding dw using False
    by (simp add: trimHeadString_def find_first_not_of_def upt_filter_hd)
qed

lemma trimTailString_snoc: "trimTailString c (str @ [x]) = (if x = c then trimTailString c str else str @ [x])"
proof -
  have f: "filter (\<lambda>i. (str @ [x]) ! i \<noteq> c) [0..<length str] = filter (\<lambda>i. str ! i \<noteq> c) [0..<length str]"
    by (rule filter_cong) (auto simp: nth_append)
  have "trimTailString c str = (case find_last_not_of c str of None \<Rightarrow> [] | Some i \<Rightarrow> take (i + 1) str)"
    by (cases "str = []") (simp_all add: trimTailString_def find_last_not_of_def)
  moreover have "find_last_not_of c (str @ [x]) = (if x = c then find_last_not_of c str else Some (length str))"
    by (simp add: find_last_not_of_def f)
  moreover have "i < length str" if "find_last_not_of c str = Some i" for i
  proof -
    have "i \<in> set (rev (filter (\<lambda>i. str ! i \<noteq> c) [0..<length str]))"
      using that unfolding find_last_not_of_def
      by (cases "rev (filter (\<lambda>i. str ! i \<noteq> c) [0..<length str])") (simp_all del: set_rev)
    then show ?thesis by simp
  qed
  ultimately show ?thesis by (auto simp: trimTailString_def split: option.splits)
qed

text \<open>Replacing one character by another is a map, and the loop ends.\<close>

lemma replace_loop_chars:
  assumes "a \<noteq> b"
  shows "a \<notin> set p \<Longrightarrow> replace_loop [a] [b] (str_find (p @ s) [a] (length p)) (p @ s) =
    Some (p @ map (\<lambda>x. if x = a then b else x) s)"
proof (induction "length s" arbitrary: p s rule: less_induct)
  case less
  show ?case
  proof (cases "a \<in> set s")
    case False
    then have "map (\<lambda>x. if x = a then b else x) s = s" by (induction s) auto
    with False show ?thesis by (subst replace_loop.simps) (simp add: find_char_from)
  next
    case True
    define w where "w = takeWhile (\<lambda>x. x \<noteq> a) s"
    define r where "r = tl (dropWhile (\<lambda>x. x \<noteq> a) s)"
    have s: "s = w @ a # r" using dropWhile_split [OF True] by (simp add: w_def r_def)
    have w: "a \<notin> set w" by (auto simp: w_def dest: set_takeWhileD)
    have fnd: "str_find (p @ s) [a] (length p) = Some (length p + length w)"
      using True by (simp add: find_char_from w_def)
    have rp: "str_replace (length p + length w) 1 [b] (p @ s) = (p @ w @ [b]) @ r"
      by (simp add: s str_replace_def)
    have mw: "map (\<lambda>x. if x = a then b else x) w = w" using w by (induction w) auto
    have "replace_loop [a] [b] (str_find ((p @ w @ [b]) @ r) [a] (length (p @ w @ [b]))) ((p @ w @ [b]) @ r) =
        Some ((p @ w @ [b]) @ map (\<lambda>x. if x = a then b else x) r)"
      using less.prems w assms by (intro less.hyps) (simp_all add: s)
    moreover have "replace_loop [a] [b] (str_find (p @ s) [a] (length p)) (p @ s) =
        replace_loop [a] [b] (str_find ((p @ w @ [b]) @ r) [a] (length (p @ w @ [b]))) ((p @ w @ [b]) @ r)"
      unfolding fnd using rp by (subst replace_loop.simps) (simp add: Let_def)
    moreover have "map (\<lambda>x. if x = a then b else x) s = w @ b # map (\<lambda>x. if x = a then b else x) r"
      using mw by (simp add: s)
    ultimately show ?thesis by simp
  qed
qed

lemma replaceAllChar_chars:
  "replaceAllChar str [a] [b] = Some (map (\<lambda>x. if x = a then b else x) str)"
proof (cases "a = b \<or> str = []")
  case True
  moreover have "map (\<lambda>x. if x = b then b else x) str = str" by (induction str) auto
  ultimately show ?thesis by (auto simp: replaceAllChar_def)
next
  case False
  then show ?thesis using replace_loop_chars [of a b "[]" str] by (simp add: replaceAllChar_def)
qed

text \<open>
  A loop that does not end: replacing a character by a text that has it again behind its
  first character.
\<close>

lemma replace_loop_grows:
  assumes "replace_loop from to index str = Some r"
    and "from = [a]" and "to = [a, a]" and "index = Some i" and "i < length str"
  shows False
  using assms(2-5)
proof (induction arbitrary: i rule: replace_loop.raw_induct [OF _ assms(1)])
  case (1 f fr tt ix str r)
  let ?s = "str_replace i (Suc 0) [a, a] str"
  have eqs: "fr = [a]" "tt = [a, a]" "ix = Some i" and il: "i < length str" using 1 by simp_all
  have len: "length ?s = length str + 1" using il by (simp add: str_replace_def)
  have tl: "drop (Suc i) ?s = a # drop (Suc i) str" using il by (simp add: str_replace_def)
  have fnd: "str_find ?s [a] (Suc i) = Some (Suc i)"
    using il len by (simp add: find_char_from tl)
  have "f [a] [a, a] (Some (Suc i)) ?s = Some r" using "1"(2) by (simp add: eqs Let_def fnd)
  from "1"(1) [OF this] show ?case using len il by simp
qed

lemma replaceAllChar_diverges: "a \<in> set str \<Longrightarrow> replaceAllChar str [a] [a, a] = None"
proof -
  assume a: "a \<in> set str"
  then obtain i where i: "str_find str [a] 0 = Some i" by (simp add: find_char_from)
  then have "i < length str" using str_find_bound [OF i] by simp
  then have "replace_loop [a] [a, a] (Some i) str = None"
    using replace_loop_grows [of "[a]" "[a, a]" "Some i" str _ a i] by (cases "replace_loop [a] [a, a] (Some i) str") auto
  then show ?thesis using a i by (auto simp: replaceAllChar_def)
qed

text \<open>One cut at the first separator.\<close>

lemma splitString_first:
  assumes "c \<notin> set k" and "v \<noteq> []"
  shows "splitString (k @ c # v) parts [c] 1 = Some (parts @ [k, v])"
proof -
  have tw: "takeWhile (\<lambda>x. x \<noteq> c) (k @ c # v) = k" using assms(1) by (simp add: takeWhile_append)
  have "split_loop (k @ c # v) [c] 1 0 0 = ([k], length k + 1)"
    by (subst split_loop.simps) (simp add: find_char_from tw)
  then show ?thesis using assms(2) by (simp add: splitString_def)
qed

lemma splitString_none: "c \<notin> set str \<Longrightarrow> str \<noteq> [] \<Longrightarrow> splitString str parts [c] n = Some (parts @ [str])"
  by (simp add: splitString_def split_loop.simps [of str] find_char_from)

text \<open>All cuts: the parts joined again.\<close>

fun join :: "'a \<Rightarrow> 'a list list \<Rightarrow> 'a list" where
  "join c [] = []"
| "join c [x] = x"
| "join c (x # y # xs) = x @ c # join c (y # xs)"

lemma split_loop_join:
  assumes "list_all (\<lambda>x. c \<notin> set x) (x # xs)"
  shows "split_loop (p @ join c (x # xs)) [c] 0 (length p) n =
    (butlast (x # xs), length (p @ join c (x # xs)) - length (last (x # xs)))"
  using assms
proof (induction xs arbitrary: x p n)
  case Nil
  then show ?case by (subst split_loop.simps) (simp add: find_char_from)
next
  case (Cons y ys)
  let ?str = "p @ x @ c # join c (y # ys)"
  have tw: "takeWhile (\<lambda>z. z \<noteq> c) (x @ c # join c (y # ys)) = x"
    using Cons.prems by (simp add: takeWhile_append)
  have "split_loop ((p @ x @ [c]) @ join c (y # ys)) [c] 0 (length (p @ x @ [c])) (n + 1) =
      (butlast (y # ys), length ((p @ x @ [c]) @ join c (y # ys)) - length (last (y # ys)))"
    using Cons.prems by (intro Cons.IH) simp
  then have "split_loop ?str [c] 0 (length p + length x + 1) (n + 1) =
      (butlast (y # ys), length ?str - length (last (y # ys)))" by (simp add: add_ac)
  then show ?case by (subst split_loop.simps) (simp add: find_char_from tw)
qed

lemma join_length: "length (last (x # xs)) \<le> length (join c (x # xs))"
proof (induction xs arbitrary: x)
  case (Cons y ys)
  from Cons.IH [of y] show ?case by (auto split: if_splits)
qed simp

lemma join_drop: "drop (length (join c (x # xs)) - length (last (x # xs))) (join c (x # xs)) = last (x # xs)"
proof (induction xs arbitrary: x)
  case (Cons y ys)
  then show ?case using join_length [of y ys c] by (simp add: Suc_diff_le)
qed simp

lemma splitString_join:
  assumes "list_all (\<lambda>x. c \<notin> set x) (x # xs)" and "last (x # xs) \<noteq> []"
  shows "splitString (join c (x # xs)) parts [c] 0 = Some (parts @ x # xs)"
proof -
  have ne: "join c (x # xs) \<noteq> []" using assms(2) join_length [of x xs c] by auto
  have "length (join c (x # xs)) - length (last (x # xs)) < length (join c (x # xs))"
    using assms(2) ne by simp
  then show ?thesis
    using ne split_loop_join [OF assms(1), of "[]" 0] join_drop [of c x xs]
    by (simp add: splitString_def)
qed

section \<open>Printing numbers\<close>

text \<open>\<^verbatim>\<open>%d\<close> and \<^verbatim>\<open>std::to_string\<close>, and \<^verbatim>\<open>%02d\<close>.\<close>

fun decimal :: "nat \<Rightarrow> string" where
  "decimal n = (if n < 10 then [] else decimal (n div 10)) @ [char_of (48 + n mod 10)]"

declare decimal.simps [simp del]

definition print_int :: "int \<Rightarrow> string" where
  "print_int n = (if n < 0 then CHR ''-'' # decimal (nat (- n)) else decimal (nat n))"

definition print02 :: "int \<Rightarrow> string" where
  "print02 n = (if 0 \<le> n \<and> n < 10 then CHR ''0'' # print_int n else print_int n)"

end
