(* ===== verification/Ini.thy ===== *)
theory Ini
  imports StrUtils "HOL-Library.AList"
begin

text \<open>
  The configuration files of the server: \<^verbatim>\<open>parserIni\<close> of \<^verbatim>\<open>include/tool/ParseIni.h\<close>, which
  reads sections of \<^verbatim>\<open>key = value\<close> lines, and \<^verbatim>\<open>ServerConfig::load\<close> of
  \<^verbatim>\<open>EchoServer/ServerConfig.cpp\<close>, which reads the settings of the service from them.

  A \<^verbatim>\<open>std::map\<close> is an association list without repeated keys, a file the list of its
  characters. The lemmas show that a file written for a list of sections is read back as
  that list, and what the settings are when entries are missing, repeated or malformed.
\<close>

section \<open>The parser\<close>

type_synonym ConfigMap = "(string \<times> string) list"
type_synonym ConfigDic = "(string \<times> ConfigMap) list"

text \<open>\<^verbatim>\<open>std::map::insert\<close> keeps an entry that is already there.\<close>

definition map_insert :: "'k \<times> 'v \<Rightarrow> ('k \<times> 'v) list \<Rightarrow> ('k \<times> 'v) list" where
  "map_insert e m = (case map_of m (fst e) of None \<Rightarrow> e # m | Some _ \<Rightarrow> m)"

text \<open>The lines that \<^verbatim>\<open>getline\<close> hands out: a last line needs no newline, and none is empty.\<close>

function getlines :: "string \<Rightarrow> string list" where
  "getlines cs =
     (if cs = [] then []
      else takeWhile (\<lambda>c. c \<noteq> CHR 0x0A) cs # getlines (tl (dropWhile (\<lambda>c. c \<noteq> CHR 0x0A) cs)))"
  by pat_completeness auto
termination
proof (relation "measure length")
  fix cs :: string assume "cs \<noteq> []"
  then show "(tl (dropWhile (\<lambda>c. c \<noteq> CHR 0x0A) cs), cs) \<in> measure length"
    using length_dropWhile_le [of "\<lambda>c. c \<noteq> CHR 0x0A" cs] by (cases cs) auto
qed simp

declare getlines.simps [simp del]

text \<open>\<^verbatim>\<open>config[0]\<close>: the terminating zero of an empty string.\<close>

definition first_char :: "string \<Rightarrow> char" where
  "first_char str = (case str of [] \<Rightarrow> CHR 0x00 | c # _ \<Rightarrow> c)"

text \<open>The body of the loop: the title in force and the entries so far.\<close>

definition store_entry :: "string \<Rightarrow> string \<Rightarrow> string \<Rightarrow> ConfigDic \<Rightarrow> ConfigDic" where
  "store_entry title key val dic =
     (let dic' = (case map_of dic title of
                    None \<Rightarrow> map_insert (title, []) dic
                  | Some _ \<Rightarrow> dic)
      in AList.update title (map_insert (key, val) (the (map_of dic' title))) dic')"

definition load_line :: "string \<Rightarrow> string \<times> ConfigDic \<Rightarrow> (string \<times> ConfigDic) option" where
  "load_line line = (\<lambda>(title, dic).
     let config = trimString (CHR '' '') line in
     if config = [] then Some (title, dic)
     else if first_char config = CHR ''#'' then Some (title, dic)
     else
       let config = trimTailAllString (CHR ''#'') config;
           config = trimString (CHR 0x0D) config;
           config = trimString (CHR 0x09) config
       in
       if first_char config = CHR ''['' then
         Some (trimTailString (CHR '']'') (trimHeadString (CHR ''['') config), dic)
       else if title = [] then Some (title, dic)
       else case splitString config [] ''='' 1 of
              None \<Rightarrow> None
            | Some parts \<Rightarrow>
                if length parts < 2 then Some (title, dic)
                else Some (title, store_entry title (parts ! 0) (parts ! 1) dic))"

fun load_lines :: "string list \<Rightarrow> string \<times> ConfigDic \<Rightarrow> (string \<times> ConfigDic) option" where
  "load_lines [] s = Some s"
| "load_lines (line # lines) s = Option.bind (load_line line s) (load_lines lines)"

definition parserIni_load :: "string \<Rightarrow> (bool \<times> ConfigDic) option" where
  "parserIni_load file = (case load_lines (getlines file) ([], []) of
     None \<Rightarrow> None
   | Some (title, dic) \<Rightarrow> Some (dic \<noteq> [], dic))"

definition getString :: "ConfigDic \<Rightarrow> string \<Rightarrow> string \<Rightarrow> string option" where
  "getString dic title key =
     (case map_of dic title of
        None \<Rightarrow> None
      | Some m \<Rightarrow> map_of m key)"

text \<open>
  \<^verbatim>\<open>atoi\<close> of the C library: leading white space, a sign, digits up to the first other
  character. The value is that of \<^verbatim>\<open>strtol\<close>, which stops at the ends of \<^verbatim>\<open>long\<close>, cut to an
  \<^verbatim>\<open>int\<close>; the language leaves values outside \<^verbatim>\<open>int\<close> undefined, and this is what the GNU
  library does.
\<close>

definition wrap_int :: "int \<Rightarrow> int" where
  "wrap_int n = (n + 2 ^ 31) mod 2 ^ 32 - 2 ^ 31"

definition is_space :: "char \<Rightarrow> bool" where
  "is_space c \<longleftrightarrow> of_char c = (32 :: nat) \<or> (9 \<le> (of_char c :: nat) \<and> (of_char c :: nat) \<le> 13)"

definition is_digit :: "char \<Rightarrow> bool" where
  "is_digit c \<longleftrightarrow> 48 \<le> (of_char c :: nat) \<and> (of_char c :: nat) \<le> 57"

fun digits_value :: "string \<Rightarrow> int \<Rightarrow> int" where
  "digits_value [] acc = acc"
| "digits_value (c # cs) acc =
     (if is_digit c then digits_value cs (10 * acc + (of_char c - 48)) else acc)"

definition strtol :: "string \<Rightarrow> int" where
  "strtol str =
     (let s = dropWhile is_space str;
          n = (if first_char s = CHR ''-'' then - digits_value (tl s) 0
               else if first_char s = CHR ''+'' then digits_value (tl s) 0
               else digits_value s 0)
      in max (- (2 ^ 63)) (min (2 ^ 63 - 1) n))"

definition atoi :: "string \<Rightarrow> int" where
  "atoi str = wrap_int (strtol str)"

definition getInt :: "ConfigDic \<Rightarrow> string \<Rightarrow> string \<Rightarrow> int option" where
  "getInt dic title key =
     (case getString dic title key of
        None \<Rightarrow> None
      | Some ret \<Rightarrow> if ret = [] then None else Some (atoi ret))"

definition getBool :: "ConfigDic \<Rightarrow> string \<Rightarrow> string \<Rightarrow> bool option" where
  "getBool dic title key =
     (case getString dic title key of
        None \<Rightarrow> None
      | Some ret \<Rightarrow> if ret = [] then None else Some (stringLow ret = ''true''))"

section \<open>The settings of the service\<close>

record ServerConfig =
  sLogFileName :: string
  nLogFileSize :: int
  nLogLevel :: int
  nStdOut :: bool
  nServerID :: int
  nListenPort :: int
  nServerTimeOut :: int
  nServerThreads :: int
  nClientThreads :: int
  nMaxSockets :: int
  nPairDealCount :: int
  nDaemon :: bool

text \<open>\<^verbatim>\<open>GET_BASE\<close>: the value of the member, and whether the macro returns \<^verbatim>\<open>false\<close>.\<close>

definition GET_BASE :: "'a option \<Rightarrow> 'a \<Rightarrow> bool \<Rightarrow> 'a \<times> bool" where
  "GET_BASE ret dflt failreturn = (case ret of Some v \<Rightarrow> (v, False) | None \<Rightarrow> (dflt, failreturn))"

text \<open>The path separator of the Linux build.\<close>

definition PF :: string where
  "PF = ''/''"

text \<open>
  The members are set in the order of the code, so that an early \<^verbatim>\<open>return false\<close> leaves the
  rest as it was. \<open>None\<close> is an exception or a loop that does not end inside a helper.
\<close>

definition load_log :: "ConfigDic \<Rightarrow> ServerConfig \<Rightarrow> ServerConfig option" where
  "load_log ini c =
     (let name = (case getString ini ''log'' ''filename'' of None \<Rightarrow> ''server'' | Some v \<Rightarrow> v) in
      case replaceAllChar name [CHR 0x5C] PF of None \<Rightarrow> None | Some name \<Rightarrow>
      case replaceAllChar name ''/'' PF of None \<Rightarrow> None | Some name \<Rightarrow>
      let c = c\<lparr>sLogFileName := name\<rparr>;
          c = c\<lparr>nLogFileSize := fst (GET_BASE (getInt ini ''log'' ''filesize'') 256 False)\<rparr>;
          c = c\<lparr>nLogLevel := fst (GET_BASE (getInt ini ''log'' ''loglevel'') 0 False)\<rparr>;
          c = c\<lparr>nStdOut := fst (GET_BASE (getBool ini ''log'' ''stdout'') True False)\<rparr>
      in Some (c\<lparr>nLogFileSize := wrap_int (nLogFileSize c * (1024 * 1024))\<rparr>))"

definition load_server :: "ConfigDic \<Rightarrow> ServerConfig \<Rightarrow> bool \<times> ServerConfig" where
  "load_server ini c =
     (case GET_BASE (getInt ini ''server'' ''serverid'') 0 True of (v, failed) \<Rightarrow>
      let c = c\<lparr>nServerID := v\<rparr> in
      if failed then (False, c) else
      case GET_BASE (getInt ini ''server'' ''listenport'') 0 True of (v, failed) \<Rightarrow>
      let c = c\<lparr>nListenPort := v\<rparr> in
      if failed then (False, c) else
      let c = c\<lparr>nServerTimeOut := fst (GET_BASE (getInt ini ''server'' ''timeout'') 120 False)\<rparr>;
          c = c\<lparr>nServerThreads := fst (GET_BASE (getInt ini ''server'' ''serverthreads'') 2 False)\<rparr>;
          c = c\<lparr>nClientThreads := fst (GET_BASE (getInt ini ''server'' ''clientthreads'') 2 False)\<rparr>;
          c = c\<lparr>nMaxSockets := fst (GET_BASE (getInt ini ''server'' ''maxsockets'') 5000 False)\<rparr>;
          c = c\<lparr>nPairDealCount := fst (GET_BASE (getInt ini ''server'' ''pairdealcount'') 5000 False)\<rparr>;
          c = c\<lparr>nDaemon := fst (GET_BASE (getBool ini ''server'' ''daemon'') False False)\<rparr>
      in (True, c))"

definition ServerConfig_load :: "string \<Rightarrow> ServerConfig \<Rightarrow> (bool \<times> ServerConfig) option" where
  "ServerConfig_load file c =
     (case parserIni_load file of
        None \<Rightarrow> None
      | Some (ok, ini) \<Rightarrow>
          if \<not> ok then Some (False, c)
          else case load_log ini c of
                 None \<Rightarrow> None
               | Some c \<Rightarrow> Some (load_server ini c))"

section \<open>What is read back\<close>

text \<open>A configuration file for a list of sections, each a title and its entries.\<close>

type_synonym sections = "(string \<times> (string \<times> string) list) list"

definition entry_line :: "string \<times> string \<Rightarrow> string" where
  "entry_line e = fst e @ '' = '' @ snd e"

definition title_line :: "string \<Rightarrow> string" where
  "title_line t = ''['' @ t @ '']''"

definition section_lines :: "string \<times> (string \<times> string) list \<Rightarrow> string list" where
  "section_lines s = title_line (fst s) # map entry_line (snd s)"

definition write_lines :: "string list \<Rightarrow> string" where
  "write_lines ls = concat (map (\<lambda>l. l @ [CHR 0x0A]) ls)"

definition write_ini :: "sections \<Rightarrow> string" where
  "write_ini secs = write_lines (concat (map section_lines secs))"

definition entries :: "sections \<Rightarrow> ((string \<times> string) \<times> string) list" where
  "entries secs = concat (map (\<lambda>(t, es). map (\<lambda>(k, v). ((t, k), v)) es) secs)"

text \<open>What can be written: the parser gives blanks, tabs, \<^verbatim>\<open>#\<close>, brackets and \<^verbatim>\<open>=\<close> a meaning.\<close>

definition plain :: "string \<Rightarrow> bool" where
  "plain str \<longleftrightarrow> list_all (\<lambda>c. c \<notin> set [CHR '' '', CHR ''#'', CHR 0x0D, CHR 0x09, CHR 0x0A]) str"

definition entry_wf :: "string \<times> string \<Rightarrow> bool" where
  "entry_wf e \<longleftrightarrow> plain (fst e) \<and> plain (snd e) \<and> CHR ''='' \<notin> set (fst e) \<and>
     first_char (fst e) \<noteq> CHR ''['' \<and> snd e \<noteq> []"

definition section_wf :: "string \<times> (string \<times> string) list \<Rightarrow> bool" where
  "section_wf s \<longleftrightarrow> fst s \<noteq> [] \<and> plain (fst s) \<and> hd (fst s) \<noteq> CHR ''['' \<and>
     last (fst s) \<noteq> CHR '']'' \<and> list_all entry_wf (snd s)"

lemma getlines_write_lines: "list_all (\<lambda>l. CHR 0x0A \<notin> set l) ls \<Longrightarrow> getlines (write_lines ls) = ls"
proof (induction ls)
  case Nil
  then show ?case by (simp add: write_lines_def getlines.simps [of "[]"])
next
  case (Cons l ls)
  have "takeWhile (\<lambda>c. c \<noteq> CHR 0x0A) (l @ CHR 0x0A # write_lines ls) = l"
    and "dropWhile (\<lambda>c. c \<noteq> CHR 0x0A) (l @ CHR 0x0A # write_lines ls) = CHR 0x0A # write_lines ls"
    using Cons.prems by (simp_all add: takeWhile_append dropWhile_append list.pred_set)
  moreover have "write_lines (l # ls) = l @ CHR 0x0A # write_lines ls"
    by (simp add: write_lines_def)
  ultimately show ?case using Cons by (subst getlines.simps) simp
qed

lemma plain_filter:
  "plain str \<Longrightarrow> c \<in> set [CHR '' '', CHR ''#'', CHR 0x0D, CHR 0x09, CHR 0x0A] \<Longrightarrow> c \<notin> set str"
  by (auto simp: plain_def list.pred_set)

lemma trim_plain [simp]:
  "plain str \<Longrightarrow> filter (\<lambda>x. x \<noteq> CHR '' '') str = str"
  "plain str \<Longrightarrow> filter (\<lambda>x. x \<noteq> CHR 0x0D) str = str"
  "plain str \<Longrightarrow> filter (\<lambda>x. x \<noteq> CHR 0x09) str = str"
  "plain str \<Longrightarrow> takeWhile (\<lambda>x. x \<noteq> CHR ''#'') str = str"
  by (auto simp: plain_def list.pred_set filter_id_conv takeWhile_eq_all_conv)

lemma plain_append [simp]: "plain (a @ b) \<longleftrightarrow> plain a \<and> plain b"
  by (simp add: plain_def)

lemma plain_Cons:
  "plain (c # s) \<longleftrightarrow> c \<notin> set [CHR '' '', CHR ''#'', CHR 0x0D, CHR 0x09, CHR 0x0A] \<and> plain s"
  by (simp add: plain_def)

lemmas trims = trimString_filter trimTailAllString_takeWhile trimHeadString_dropWhile

text \<open>The two kinds of lines.\<close>

lemma load_title:
  assumes "section_wf (t, es)"
  shows "load_line (title_line t) s = Some (t, snd s)"
proof -
  obtain c r where t: "t = c # r" using assms by (cases t) (auto simp: section_wf_def)
  have p: "plain (title_line t)" using assms by (simp add: section_wf_def title_line_def plain_Cons plain_def)
  have "trimTailString (CHR '']'') (t @ [CHR '']'']) = t"
  proof -
    have "t = butlast t @ [last t]" using t by simp
    moreover have "trimTailString (CHR '']'') (butlast t @ [last t]) = butlast t @ [last t]"
      using assms by (simp only: trimTailString_snoc) (simp add: section_wf_def)
    ultimately show ?thesis by (simp add: trimTailString_snoc)
  qed
  then have "trimTailString (CHR '']'') (trimHeadString (CHR ''['') (title_line t)) = t"
    using assms t by (simp add: trims title_line_def section_wf_def)
  then show ?thesis
    using p unfolding load_line_def
    by (simp only: trims trim_plain Let_def split: prod.split if_split) (simp add: first_char_def title_line_def)
qed

lemma load_entry:
  assumes "entry_wf (k, v)" and "t \<noteq> []"
  shows "load_line (entry_line (k, v)) (t, dic) = Some (t, store_entry t k v dic)"
proof -
  have f: "filter (\<lambda>x. x \<noteq> CHR '' '') (entry_line (k, v)) = k @ CHR ''='' # v"
    using assms(1) by (simp add: entry_wf_def entry_line_def)
  have p: "plain (k @ CHR ''='' # v)" using assms(1) by (simp add: entry_wf_def plain_Cons)
  have fc: "first_char (k @ CHR ''='' # v) \<noteq> CHR ''#'' \<and> first_char (k @ CHR ''='' # v) \<noteq> CHR ''[''"
    using assms(1) p by (cases k) (auto simp: entry_wf_def first_char_def plain_Cons)
  have "splitString (k @ CHR ''='' # v) [] ''='' 1 = Some [k, v]"
    using assms(1) splitString_first [of "CHR ''=''" k v "[]"] by (simp add: entry_wf_def)
  then show ?thesis
    using f fc p assms(2) unfolding load_line_def by (simp only: trims trim_plain Let_def split: prod.split if_split) simp
qed

text \<open>Entries are stored once: the first value of a key wins.\<close>

lemma map_of_insert: "map_of (map_insert (k, v) m) k' = (if k' = k \<and> map_of m k = None then Some v else map_of m k')"
  by (auto simp: map_insert_def split: option.splits)

lemma getString_store:
  "getString (store_entry t k v dic) t' k' =
     (if (t', k') = (t, k) \<and> getString dic t k = None then Some v else getString dic t' k')"
  by (auto simp: getString_def store_entry_def update_conv' map_of_insert split: option.splits)

lemma store_entry_nonempty: "store_entry t k v dic \<noteq> []"
proof -
  have "AList.update t x dic' \<noteq> []" for x :: ConfigMap and dic' by (cases dic') auto
  then show ?thesis by (simp add: store_entry_def Let_def)
qed

definition reads :: "ConfigDic \<Rightarrow> ((string \<times> string) \<times> string) list \<Rightarrow> ConfigDic \<Rightarrow> bool" where
  "reads dic es dic' \<longleftrightarrow> (dic' = [] \<longleftrightarrow> dic = [] \<and> es = []) \<and>
     (\<forall>t k. getString dic' t k = (case getString dic t k of None \<Rightarrow> map_of es (t, k) | Some w \<Rightarrow> Some w))"

lemma reads_Nil: "reads dic [] dic"
  by (simp add: reads_def split: option.splits)

lemma reads_store: "reads (store_entry t k v dic) es dic' \<Longrightarrow> reads dic (((t, k), v) # es) dic'"
  by (auto simp: reads_def getString_store store_entry_nonempty split: option.splits)

lemma reads_append: "reads dic es dic' \<Longrightarrow> reads dic' es' dic'' \<Longrightarrow> reads dic (es @ es') dic''"
  by (auto simp: reads_def map_add_def split: option.splits)

lemma load_lines_append: "load_lines (xs @ ys) s = Option.bind (load_lines xs s) (load_lines ys)"
  by (induction xs arbitrary: s) (simp_all split: bind_splits)

lemma load_entries:
  assumes "list_all entry_wf es" and "t \<noteq> []"
  shows "\<exists>dic'. load_lines (map entry_line es) (t, dic) = Some (t, dic') \<and>
    reads dic (map (\<lambda>(k, v). ((t, k), v)) es) dic'"
  using assms(1)
proof (induction es arbitrary: dic)
  case Nil
  then show ?case by (simp add: reads_Nil)
next
  case (Cons e es)
  obtain k v where e: "e = (k, v)" by (cases e)
  obtain dic' where
    "load_lines (map entry_line es) (t, store_entry t k v dic) = Some (t, dic')"
    "reads (store_entry t k v dic) (map (\<lambda>(k, v). ((t, k), v)) es) dic'"
    using Cons by fastforce
  then show ?case using Cons.prems assms(2) by (auto simp: e load_entry intro: reads_store)
qed

lemma load_sections:
  "list_all section_wf secs \<Longrightarrow>
   \<exists>t' dic'. load_lines (concat (map section_lines secs)) (t, dic) = Some (t', dic') \<and>
     reads dic (entries secs) dic'"
proof (induction secs arbitrary: t dic)
  case Nil
  then show ?case by (simp add: entries_def reads_Nil)
next
  case (Cons s secs)
  obtain title es where s: "s = (title, es)" by (cases s)
  from Cons.prems have wf: "section_wf (title, es)" by (simp add: s)
  then have "list_all entry_wf es" "title \<noteq> []" by (auto simp: section_wf_def)
  then obtain dic1 where 1: "load_lines (map entry_line es) (title, dic) = Some (title, dic1)"
    "reads dic (map (\<lambda>(k, v). ((title, k), v)) es) dic1"
    using load_entries by metis
  obtain t' dic' where "load_lines (concat (map section_lines secs)) (title, dic1) = Some (t', dic')"
    "reads dic1 (entries secs) dic'"
    using Cons by fastforce
  moreover have "load_lines (concat (map section_lines (s # secs))) (t, dic) =
      load_lines (concat (map section_lines secs)) (title, dic1)"
    using load_title [OF wf, of "(t, dic)"] 1(1) by (simp add: s section_lines_def load_lines_append)
  moreover have "entries (s # secs) = map (\<lambda>(k, v). ((title, k), v)) es @ entries secs"
    by (simp add: s entries_def)
  ultimately show ?case using reads_append [OF 1(2)] by metis
qed

lemma newline_free:
  "entry_wf e \<Longrightarrow> CHR 0x0A \<notin> set (entry_line e)"
  "plain t \<Longrightarrow> CHR 0x0A \<notin> set (title_line t)"
  by (auto simp: entry_wf_def plain_def list.pred_set entry_line_def title_line_def)

lemma lines_plain:
  assumes "list_all section_wf secs"
  shows "list_all (\<lambda>l. CHR 0x0A \<notin> set l) (concat (map section_lines secs))"
  using assms
  by (induction secs) (auto simp: section_lines_def section_wf_def list.pred_set newline_free)

lemma parse_written:
  assumes "list_all section_wf secs"
  shows "\<exists>dic. parserIni_load (write_ini secs) = Some (entries secs \<noteq> [], dic) \<and> reads [] (entries secs) dic"
proof -
  obtain t dic where "load_lines (concat (map section_lines secs)) ([], []) = Some (t, dic)"
    "reads [] (entries secs) dic"
    using load_sections [OF assms] by metis
  then show ?thesis
    by (simp add: parserIni_load_def write_ini_def getlines_write_lines [OF lines_plain [OF assms]] reads_def)
qed

lemma reads_getString: "reads [] es dic \<Longrightarrow> getString dic title key = map_of es (title, key)"
  by (simp add: reads_def getString_def [of "[]"])

text \<open>
  C27: A configuration file is read back as it was written: for any list of sections with
  titles, keys and values the format can hold, the parser finishes, reports success exactly
  when there is an entry, and answers every look-up with the first value the file gives for
  that title and key, and with nothing for the others. Titles, keys and values hold no blanks,
  tabs, line ends or \<open>#\<close>, and neither keys nor values an equality sign: the comment in
  \<^verbatim>\<open>ParseIni.h\<close> says that what follows a second one on a line is cut off, while the code
  keeps it (\<open>value_keeps_equals\<close>), so such values are left out here.
\<close>

theorem ini_roundtrip:
  assumes "list_all section_wf secs" and "\<forall>e \<in> set (entries secs). CHR ''='' \<notin> set (snd e)"
  shows "\<exists>dic. parserIni_load (write_ini secs) = Some (entries secs \<noteq> [], dic) \<and>
    (\<forall>title key. getString dic title key = map_of (entries secs) (title, key))"
  using parse_written [OF assms(1)] reads_getString by metis

lemma ini_roundtrip_witness:
  "\<exists>dic. parserIni_load (write_ini [(''server'', [(''serverid'', ''1''), (''listenport'', ''6000''), (''serverid'', ''2'')])]) = Some (True, dic) \<and>
    getString dic ''server'' ''serverid'' = Some ''1'' \<and> getString dic ''log'' ''filename'' = None"
proof -
  let ?secs = "[(''server'', [(''serverid'', ''1''), (''listenport'', ''6000''), (''serverid'', ''2'')])]"
  have "list_all section_wf ?secs"
    by (simp add: section_wf_def entry_wf_def plain_def first_char_def)
  moreover have "\<forall>e \<in> set (entries ?secs). CHR ''='' \<notin> set (snd e)" by (simp add: entries_def)
  ultimately show ?thesis using ini_roundtrip [of ?secs] by (auto simp: entries_def)
qed

section \<open>The settings\<close>

definition int_range :: "int \<Rightarrow> bool" where
  "int_range n \<longleftrightarrow> - (2 ^ 31) \<le> n \<and> n < 2 ^ 31"

lemma digit_char: "d < 10 \<Longrightarrow> of_char (char_of (48 + d) :: char) = (48 + d :: nat)"
  by simp

lemma digit_char_int: "d < 10 \<Longrightarrow> of_char (char_of (48 + d) :: char) = (48 + int d)"
  using digit_char [of d] by (metis of_nat_add of_nat_numeral of_nat_of_char)

lemma digits_value_append:
  "list_all is_digit xs \<Longrightarrow> digits_value (xs @ ys) acc = digits_value ys (digits_value xs acc)"
  by (induction xs arbitrary: acc) auto

lemma wrap_int_range: "int_range (wrap_int n)"
  by (simp add: int_range_def wrap_int_def)

lemma wrap_int_id: "int_range n \<Longrightarrow> wrap_int n = n"
  by (simp add: int_range_def wrap_int_def)

lemma decimal_digits: "list_all is_digit (decimal n)"
proof (induction n rule: decimal.induct)
  case (1 n)
  have "is_digit (char_of (48 + n mod 10))" using digit_char [of "n mod 10"] by (simp add: is_digit_def)
  then show ?case using 1 by (subst decimal.simps) simp
qed

lemma decimal_value: "digits_value (decimal n) 0 = int n"
proof (induction n rule: decimal.induct)
  case (1 n)
  have d: "is_digit (char_of (48 + n mod 10))" using digit_char [of "n mod 10"] by (simp add: is_digit_def)
  have v: "of_char (char_of (48 + n mod 10) :: char) = 48 + int (n mod 10)"
    by (rule digit_char_int) simp
  show ?case
  proof (cases "n < 10")
    case True
    then show ?thesis using d v by (subst decimal.simps) simp
  next
    case False
    have "digits_value (decimal n) 0 = 10 * digits_value (decimal (n div 10)) 0 + int (n mod 10)"
      using False d v by (subst decimal.simps) (simp add: digits_value_append [OF decimal_digits])
    then show ?thesis using 1 [OF False] by (simp add: zdiv_int zmod_int)
  qed
qed

lemma decimal_nonempty: "decimal n \<noteq> []"
  by (subst decimal.simps) simp

lemma digit_first:
  assumes "list_all is_digit s" and "s \<noteq> []"
  shows "dropWhile is_space s = s" and "first_char s \<noteq> CHR ''-''" and "first_char s \<noteq> CHR ''+''"
  using assms by (cases s; auto simp: is_digit_def is_space_def first_char_def)+

lemma atoi_print: "int_range n \<Longrightarrow> atoi (print_int n) = n"
proof -
  assume n: "int_range n"
  have "strtol (print_int n) = n"
  proof (cases "n < 0")
    case True
    have "dropWhile is_space (CHR ''-'' # s) = CHR ''-'' # s" for s by (simp add: is_space_def)
    then show ?thesis using True n
      by (simp add: strtol_def print_int_def first_char_def decimal_value int_range_def)
  next
    case False
    then show ?thesis
      using n digit_first [OF decimal_digits decimal_nonempty, of "nat n"]
      by (simp add: strtol_def print_int_def decimal_value int_range_def)
  qed
  then show ?thesis by (simp add: atoi_def wrap_int_id [OF n])
qed

lemma plain_print: "plain (print_int n) \<and> print_int n \<noteq> []"
proof -
  have "is_digit c \<Longrightarrow> c \<notin> set [CHR '' '', CHR ''#'', CHR 0x0D, CHR 0x09, CHR 0x0A]" for c
    by (auto simp: is_digit_def)
  then have "list_all is_digit s \<Longrightarrow> plain s" for s
    unfolding plain_def by (metis (no_types, lifting) list.pred_mono_strong)
  then show ?thesis using decimal_digits decimal_nonempty by (simp add: print_int_def plain_Cons)
qed

text \<open>A configuration file with every setting, the log size in megabytes.\<close>

definition print_bool :: "bool \<Rightarrow> string" where
  "print_bool b = (if b then ''true'' else ''false'')"

definition config_sections :: "ServerConfig \<Rightarrow> sections" where
  "config_sections c =
     [(''server'',
        [(''serverid'', print_int (nServerID c)), (''listenport'', print_int (nListenPort c)),
         (''timeout'', print_int (nServerTimeOut c)), (''serverthreads'', print_int (nServerThreads c)),
         (''maxsockets'', print_int (nMaxSockets c)), (''clientthreads'', print_int (nClientThreads c)),
         (''pairdealcount'', print_int (nPairDealCount c)), (''daemon'', print_bool (nDaemon c))]),
      (''log'',
        [(''filename'', sLogFileName c), (''filesize'', print_int (nLogFileSize c)),
         (''loglevel'', print_int (nLogLevel c)), (''stdout'', print_bool (nStdOut c))])]"

definition config_typed :: "ServerConfig \<Rightarrow> bool" where
  "config_typed c \<longleftrightarrow> list_all int_range
     [nLogFileSize c, nLogLevel c, nServerID c, nListenPort c, nServerTimeOut c, nServerThreads c,
      nClientThreads c, nMaxSockets c, nPairDealCount c]"

lemma config_sections_wf: "plain (sLogFileName c) \<Longrightarrow> sLogFileName c \<noteq> [] \<Longrightarrow> list_all section_wf (config_sections c)"
  using plain_print
  by (simp add: config_sections_def section_wf_def entry_wf_def print_bool_def plain_def first_char_def)

lemma print_bool_true: "print_bool b \<noteq> [] \<and> (stringLow (print_bool b) = ''true'') = b"
  by (simp add: print_bool_def stringLow_def tolower_def)

text \<open>Both replacements of the separators end, whatever the name.\<close>

definition slashes :: "string \<Rightarrow> string" where
  "slashes = map (\<lambda>x. if x = CHR 0x5C then CHR ''/'' else x)"

lemma load_log_total:
  "\<exists>c'. load_log ini c = Some c' \<and>
     sLogFileName c' = slashes (case getString ini ''log'' ''filename'' of None \<Rightarrow> ''server'' | Some v \<Rightarrow> v)"
  by (simp add: load_log_def PF_def replaceAllChar_chars slashes_def Let_def)

lemma load_log_fields:
  "load_log ini c = Some c' \<Longrightarrow>
     c' = c\<lparr>sLogFileName := slashes (case getString ini ''log'' ''filename'' of None \<Rightarrow> ''server'' | Some v \<Rightarrow> v),
       nLogFileSize := wrap_int (fst (GET_BASE (getInt ini ''log'' ''filesize'') 256 False) * (1024 * 1024)),
       nLogLevel := fst (GET_BASE (getInt ini ''log'' ''loglevel'') 0 False),
       nStdOut := fst (GET_BASE (getBool ini ''log'' ''stdout'') True False)\<rparr>"
  by (auto simp: load_log_def PF_def replaceAllChar_chars slashes_def Let_def)

text \<open>
  The settings are read as they were written: a file with every setting of a
  configuration, numbers in decimal and the flags as \<^verbatim>\<open>true\<close> and \<^verbatim>\<open>false\<close>, loads successfully
  into that configuration, whatever was in the object before; the log file name has its
  separators turned into slashes and the log size is the megabytes times 2^20, wrapped to
  32 bits.
\<close>

theorem config_roundtrip:
  assumes "config_typed c" and "plain (sLogFileName c)" and "sLogFileName c \<noteq> []"
  shows "ServerConfig_load (write_ini (config_sections c)) c0 =
    Some (True, c\<lparr>sLogFileName := slashes (sLogFileName c),
                   nLogFileSize := wrap_int (nLogFileSize c * 2 ^ 20)\<rparr>)"
proof -
  have "entries (config_sections c) \<noteq> []" by (simp add: entries_def config_sections_def)
  then obtain dic where dic: "parserIni_load (write_ini (config_sections c)) = Some (True, dic)"
    "reads [] (entries (config_sections c)) dic"
    using parse_written [OF config_sections_wf [OF assms(2,3)]] by auto
  note get = reads_getString [OF dic(2)]
  obtain c1 where c1: "load_log dic c0 = Some c1" using load_log_total by metis
  have ints: "getInt dic t k = Some n" if "map_of (entries (config_sections c)) (t, k) = Some (print_int n)"
    and "int_range n" for t k n
    using that get plain_print by (simp add: getInt_def atoi_print)
  have bools: "getBool dic t k = Some b" if "map_of (entries (config_sections c)) (t, k) = Some (print_bool b)" for t k b
    using that get print_bool_true by (simp add: getBool_def)
  have vals: "getInt dic ''log'' ''filesize'' = Some (nLogFileSize c)"
    "getInt dic ''log'' ''loglevel'' = Some (nLogLevel c)"
    "getBool dic ''log'' ''stdout'' = Some (nStdOut c)"
    "getInt dic ''server'' ''serverid'' = Some (nServerID c)"
    "getInt dic ''server'' ''listenport'' = Some (nListenPort c)"
    "getInt dic ''server'' ''timeout'' = Some (nServerTimeOut c)"
    "getInt dic ''server'' ''serverthreads'' = Some (nServerThreads c)"
    "getInt dic ''server'' ''clientthreads'' = Some (nClientThreads c)"
    "getInt dic ''server'' ''maxsockets'' = Some (nMaxSockets c)"
    "getInt dic ''server'' ''pairdealcount'' = Some (nPairDealCount c)"
    "getBool dic ''server'' ''daemon'' = Some (nDaemon c)"
    "getString dic ''log'' ''filename'' = Some (sLogFileName c)"
    using assms(1) by (auto intro!: ints bools simp: get config_typed_def entries_def config_sections_def)
  show ?thesis
    by (simp add: ServerConfig_load_def dic(1) c1 load_log_fields [OF c1] load_server_def vals GET_BASE_def)
qed

definition sample_config :: ServerConfig where
  "sample_config = \<lparr>sLogFileName = ''log'' @ [CHR 0x5C] @ ''EchoServer'', nLogFileSize = 256, nLogLevel = 10,
     nStdOut = True, nServerID = 1, nListenPort = 6000, nServerTimeOut = 0, nServerThreads = 2,
     nClientThreads = 2, nMaxSockets = 50000, nPairDealCount = 1000, nDaemon = True\<rparr>"

lemma config_roundtrip_witness:
  "\<exists>c. ServerConfig_load (write_ini (config_sections sample_config)) (sample_config\<lparr>nDaemon := False\<rparr>) = Some (True, c) \<and>
     sLogFileName c = ''log/EchoServer'' \<and> nLogFileSize c = 268435456 \<and> nListenPort c = 6000 \<and> nDaemon c"
proof -
  have "config_typed sample_config" "plain (sLogFileName sample_config)" "sLogFileName sample_config \<noteq> []"
    by (simp_all add: config_typed_def sample_config_def int_range_def plain_def)
  from config_roundtrip [OF this, of "sample_config\<lparr>nDaemon := False\<rparr>"] show ?thesis
    by (simp add: sample_config_def slashes_def wrap_int_def)
qed

text \<open>The size wraps: four gigabytes are a limit of zero, two a negative one.\<close>

lemma log_size_wraps: "wrap_int (2048 * 2 ^ 20) = - (2 ^ 31) \<and> wrap_int (4096 * 2 ^ 20) = 0"
  by (simp add: wrap_int_def)

text \<open>A value keeps its further equality signs, whatever the comment in \<^verbatim>\<open>ParseIni.h\<close> says.\<close>

lemma value_keeps_equals: "load_line ''url = a=b=c'' (''s'', []) = Some (''s'', [(''s'', [(''url'', ''a=b=c'')])])"
proof -
  have f: "filter (\<lambda>x. x \<noteq> CHR '' '') ''url = a=b=c'' = ''url=a=b=c''" by simp
  have "splitString ''url=a=b=c'' [] ''='' 1 = Some [''url'', ''a=b=c'']"
    using splitString_first [of "CHR ''=''" "''url''" "''a=b=c''" "[]"] by simp
  then show ?thesis
    unfolding load_line_def trims f by (simp add: first_char_def store_entry_def map_insert_def)
qed

text \<open>No file stops the parser.\<close>

lemma splitString_char: "splitString str parts [c] 1 \<noteq> None"
proof (cases "c \<in> set str")
  case True
  then obtain k v where str: "str = k @ c # v" and k: "c \<notin> set k" by (meson split_list_first)
  show ?thesis
  proof (cases "v = []")
    case True
    have "split_loop (k @ [c]) [c] 1 0 0 = ([k], length k + 1)"
      using k by (subst split_loop.simps) (simp add: find_char_from takeWhile_append)
    then show ?thesis by (simp add: str True splitString_def)
  next
    case False
    then show ?thesis using splitString_first [OF k] str by simp
  qed
next
  case False
  then show ?thesis using splitString_none [OF False] by (cases "str = []") (simp_all add: splitString_def)
qed

lemma load_line_total: "load_line line s \<noteq> None"
  by (auto simp: load_line_def Let_def splitString_char [unfolded One_nat_def] split: prod.splits option.splits)

lemma load_lines_total: "load_lines ls s \<noteq> None"
  using load_line_total by (induction ls arbitrary: s) (fastforce split: bind_splits)+

lemma parserIni_load_total: "\<exists>ok dic. parserIni_load file = Some (ok, dic)"
  using load_lines_total by (auto simp: parserIni_load_def split: option.splits)

lemma getInt_range: "getInt ini t k = Some n \<Longrightarrow> int_range n"
  by (auto simp: getInt_def atoi_def wrap_int_range split: option.splits if_splits)

lemma GET_BASE_range: "int_range d \<Longrightarrow> int_range (fst (GET_BASE (getInt ini t k) d f))"
  by (auto simp: GET_BASE_def dest: getInt_range split: option.splits)

lemma GET_BASE_failed: "snd (GET_BASE r d True) \<longleftrightarrow> r = None"
  by (auto simp: GET_BASE_def split: option.splits)

lemma load_log_typed: "load_log ini c = Some c' \<Longrightarrow> config_typed c \<Longrightarrow> config_typed c'"
  using wrap_int_range GET_BASE_range
  by (auto simp: config_typed_def int_range_def [of 0] int_range_def [of 256] dest!: load_log_fields)

lemma load_server_typed: "config_typed c \<Longrightarrow> config_typed (snd (load_server ini c))"
proof -
  have "int_range n" if "n \<in> {0, 2, 120, 5000}" for n using that by (auto simp: int_range_def)
  then show "config_typed c \<Longrightarrow> ?thesis"
    using GET_BASE_range by (simp add: load_server_def Let_def config_typed_def split: prod.split)
      (metis GET_BASE_range fst_conv insertI1)
qed

lemma load_server_ok:
  "fst (load_server ini c) \<longleftrightarrow> getInt ini ''server'' ''serverid'' \<noteq> None \<and> getInt ini ''server'' ''listenport'' \<noteq> None"
  by (auto simp: load_server_def Let_def GET_BASE_def split: option.splits)

text \<open>
  C28: Every file, well-formed or not, is loaded in the end: no line makes the parser or the
  string helpers fail, every numeric setting is an \<^verbatim>\<open>int\<close> in range, and the load succeeds
  exactly when the file has a server id and a listening port.
\<close>

theorem config_load_typed:
  assumes "config_typed c0"
  shows "\<exists>ok c ini ini_ok. ServerConfig_load file c0 = Some (ok, c) \<and> config_typed c \<and>
    parserIni_load file = Some (ini_ok, ini) \<and>
    (ok \<longleftrightarrow> ini_ok \<and> getInt ini ''server'' ''serverid'' \<noteq> None \<and> getInt ini ''server'' ''listenport'' \<noteq> None)"
proof -
  obtain ini_ok ini where ini: "parserIni_load file = Some (ini_ok, ini)" using parserIni_load_total by blast
  obtain c1 where c1: "load_log ini c0 = Some c1" using load_log_total by metis
  obtain ok c where c: "load_server ini c1 = (ok, c)" by (cases "load_server ini c1")
  have "config_typed c" using load_server_typed [OF load_log_typed [OF c1 assms], of ini] c by simp
  then show ?thesis
    using load_server_ok [of ini c1] assms by (cases ini_ok) (auto simp: ServerConfig_load_def ini c1 c)
qed

lemma config_load_typed_witness:
  "\<exists>ok c. ServerConfig_load ''garbage'' sample_config = Some (ok, c) \<and> \<not> ok"
proof -
  have "config_typed sample_config" by (simp add: config_typed_def sample_config_def int_range_def)
  moreover have "parserIni_load ''garbage'' = Some (False, [])"
    by (simp add: parserIni_load_def getlines.simps load_line_def trims first_char_def)
  ultimately show ?thesis using config_load_typed [of sample_config "''garbage''"] by auto
qed

end
