(* ===== verification/Calendar.thy ===== *)
theory Calendar
  imports Prelude
begin

text \<open>
  The calendar functions of \<^verbatim>\<open>libbase/Utils.cpp\<close>: \<^verbatim>\<open>time_to_tm\<close>, the library's own
  thread-safe \<^verbatim>\<open>localtime\<close> for UTC+8, its inverse \<^verbatim>\<open>tm_to_time\<close>, and the date and time
  stamps of the log that are built from them.

  \<^verbatim>\<open>time_t\<close> is a 64-bit integer (an \<^verbatim>\<open>int\<close> here); the casts to \<^verbatim>\<open>unsigned int\<close> are written out.
  The system clock and \<^verbatim>\<open>mktime\<close> belong to the platform and are arguments.
\<close>

section \<open>From seconds to a date\<close>

record tm =
  tm_sec :: int
  tm_min :: int
  tm_hour :: int
  tm_mday :: int
  tm_mon :: int
  tm_year :: int
  tm_wday :: int
  tm_yday :: int
  tm_isdst :: int

definition month_days :: "int list" where
  "month_days = [31, 28, 31, 30, 31, 30, 31, 31, 30, 31, 30, 31]"

definition leap_year :: "bool list" where
  "leap_year = [False, False, True, False]"

text \<open>The loop over the years of a four-year cycle: the year reached and the days left in it.\<close>

fun year_loop :: "nat \<Rightarrow> nat \<Rightarrow> int \<Rightarrow> nat \<times> int" where
  "year_loop 0 i days = (i, days)"
| "year_loop (Suc k) i days =
     (let day_count = (if leap_year ! i then 366 else 365) in
      if days \<le> day_count then (i, days) else year_loop k (i + 1) (days - day_count))"

text \<open>The loop over the months: the month reached and the days left in it.\<close>

fun month_loop :: "nat \<Rightarrow> nat \<Rightarrow> bool \<Rightarrow> int \<Rightarrow> nat \<times> int" where
  "month_loop 0 j leap days = (j, days)"
| "month_loop (Suc k) j leap days =
     (if leap \<and> j = 1 then
        (if days < 29 then (j, days)
         else if days = 29 then (j + 1, 0)
         else month_loop k (j + 1) leap (days - 29))
      else if days < month_days ! j then (j, days)
      else if days = month_days ! j then (j + 1, 0)
      else month_loop k (j + 1) leap (days - month_days ! j))"

definition time_to_tm :: "int \<Rightarrow> tm" where
  "time_to_tm time_input =
     (let t0 = (time_input mod 2 ^ 32) div 60;
          t1 = t0 div 60 + 8;
          t2 = t1 div 24;
          four_year_count = (t2 div 1461) mod 2 ^ 16;
          (i, ydays) = year_loop 4 0 (t2 mod 1461);
          (j, mdays) = month_loop 12 0 (leap_year ! i) ydays;
          year = four_year_count * 4 + int i + 70
      in \<lparr>tm_sec = time_input mod 60, tm_min = t0 mod 60, tm_hour = t1 mod 24,
          tm_mday = mdays + 1,
          tm_mon = (if j \<ge> 12 then int j - 12 else int j),
          tm_year = (if j \<ge> 12 then year + 1 else year),
          tm_wday = (t2 + 4) mod 7, tm_yday = ydays, tm_isdst = - 1\<rparr>)"

section \<open>From a date to seconds\<close>

definition monthlen :: "int list" where
  "monthlen = [31, 28, 31, 30, 31, 30, 31, 31, 30, 31, 30, 31]"

definition monthbegin :: "int list" where
  "monthbegin = [0, 31, 59, 90, 120, 151, 181, 212, 243, 273, 304, 334]"

definition of_b :: "bool \<Rightarrow> int" where
  "of_b c = (if c then 1 else 0)"

text \<open>
  The result and the structure with \<^verbatim>\<open>tm_yday\<close> and \<^verbatim>\<open>tm_wday\<close> filled in. Divisions and
  remainders of C truncate; here their operands are not negative for years from 1970 on.
  \<open>None\<close> is an access outside the month tables.
\<close>

definition tm_to_time :: "(tm \<Rightarrow> int) \<Rightarrow> tm \<Rightarrow> (int \<times> tm) option" where
  "tm_to_time mktime inp =
     (if 0 \<le> tm_mon inp \<and> tm_mon inp < 12 then
        let mon = nat (tm_mon inp); leap4 = (tm_year inp mod 4 = 0);
            d = monthbegin ! mon + tm_mday inp - 1 + of_b (leap4 \<and> tm_mon inp > 1);
            days = d + (365 * (tm_year inp - 70) + (tm_year inp - 69) div 4);
            out = inp\<lparr>tm_yday := d, tm_wday := (days + 4) mod 7\<rparr>;
            t = days * 86400 + (tm_hour inp - 8) * 3600 + tm_min inp * 60 + tm_sec inp
        in if tm_mday inp > monthlen ! mon + of_b (leap4 \<and> tm_mon inp = 1)
           then Some (mktime out, out) else Some (t, out)
      else None)"

section \<open>Stamps\<close>

text \<open>The date (\<^verbatim>\<open>getNowDay\<close>) and time (\<^verbatim>\<open>getNowTime\<close>) as one number, from the clock's value.\<close>

definition getNowDay :: "int \<Rightarrow> u32" where
  "getNowDay now = (let t = time_to_tm now in
     of_int ((tm_year t + 1900) * 10000 + tm_mon t * 100 + tm_mday t))"

definition getNowTime :: "int \<Rightarrow> u32" where
  "getNowTime now = (let t = time_to_tm now in
     of_int (tm_hour t * 10000 + tm_min t * 100 + tm_sec t))"

section \<open>The loops\<close>

lemma year_loop_4:
  assumes "0 \<le> r" "r < 1461"
  shows "year_loop 4 0 r = (if r \<le> 365 then (0, r) else if r \<le> 730 then (1, r - 365)
    else if r \<le> 1096 then (2, r - 730) else (3, r - 1096))"
  using assms by (simp add: eval_nat_numeral leap_year_def)

definition mlen :: "bool \<Rightarrow> nat \<Rightarrow> int" where
  "mlen leap j = (if leap \<and> j = 1 then 29 else month_days ! j)"

definition cum :: "bool \<Rightarrow> nat \<Rightarrow> int" where
  "cum leap j = (\<Sum>k<j. mlen leap k)"

lemma month_cases: "(j :: nat) < 12 \<longleftrightarrow> j \<in> {0, 1, 2, 3, 4, 5, 6, 7, 8, 9, 10, 11}"
  unfolding insert_iff empty_iff by presburger

lemma mlen_pos: "j < 12 \<Longrightarrow> 28 \<le> mlen leap j"
  unfolding month_cases by (auto simp: mlen_def month_days_def)

lemma month_loop_Suc:
  "month_loop (Suc k) j leap d =
     (if d < mlen leap j then (j, d) else if d = mlen leap j then (j + 1, 0)
      else month_loop k (j + 1) leap (d - mlen leap j))"
  by (simp add: mlen_def)

declare month_loop.simps(2) [simp del]

lemma month_loop_spec:
  assumes "j + k = 12" and "0 \<le> d" and "d \<le> cum leap 12 - cum leap j" and "month_loop k j leap d = (m, r)"
  shows "cum leap m + r = cum leap j + d \<and> m \<le> 12 \<and> 0 \<le> r \<and> (if m < 12 then r < mlen leap m else r = 0)"
  using assms
proof (induction k arbitrary: j d)
  case 0
  then show ?case by simp
next
  case (Suc k)
  have j: "j < 12" using Suc.prems(1) by simp
  have next_cum: "cum leap (Suc j) = cum leap j + mlen leap j" by (simp add: cum_def)
  consider "d < mlen leap j" | "d = mlen leap j" | "mlen leap j < d" by linarith
  then show ?case
  proof cases
    case 1
    then show ?thesis using Suc.prems j by (simp add: month_loop_Suc)
  next
    case 2
    then show ?thesis
      using Suc.prems j next_cum mlen_pos [of "Suc j" leap] by (auto simp: month_loop_Suc)
  next
    case 3
    then show ?thesis
      using Suc.prems next_cum by (intro Suc.IH [of "Suc j" "d - mlen leap j", simplified next_cum, simplified])
        (auto simp: month_loop_Suc)
  qed
qed

lemma cum_12: "cum leap 12 = 365 + of_b leap"
  by (simp add: cum_def mlen_def month_days_def eval_nat_numeral of_b_def)

lemma monthbegin_cum: "j < 12 \<Longrightarrow> monthbegin ! j + of_b (leap \<and> 1 < j) = cum leap j"
  unfolding month_cases
  by (auto simp: monthbegin_def cum_def mlen_def month_days_def eval_nat_numeral of_b_def)

lemma monthlen_mlen: "monthlen ! j + of_b (leap \<and> j = 1) = mlen leap j"
  by (simp add: monthlen_def mlen_def month_days_def of_b_def)

section \<open>Dates of the time structure\<close>

text \<open>Days from the epoch to a date, with a leap year every four years.\<close>

definition julian_day :: "int \<Rightarrow> nat \<Rightarrow> int \<Rightarrow> int" where
  "julian_day year m d = 365 * (year - 70) + (year - 69) div 4 + cum (year mod 4 = 0) m + d - 1"

lemma year_split:
  assumes "0 \<le> r" "r < 1461" "year_loop 4 0 r = (i, y)" "year = q * 4 + int i + 70"
  shows "i < 4 \<and> 0 \<le> y \<and> y \<le> 365 + of_b (leap_year ! i) \<and> (year mod 4 = 0 \<longleftrightarrow> leap_year ! i) \<and>
    365 * (year - 70) + (year - 69) div 4 + y = 1461 * q + r \<and>
    (y = 365 + of_b (leap_year ! i) \<longrightarrow>
       365 * (year + 1 - 70) + (year + 1 - 69) div 4 = 1461 * q + r)"
proof -
  consider "i = 0" "y = r" "r \<le> 365" | "i = 1" "y = r - 365" "365 < r" "r \<le> 730"
    | "i = 2" "y = r - 730" "730 < r" "r \<le> 1096" | "i = 3" "y = r - 1096" "1096 < r"
    using assms(3) year_loop_4 [OF assms(1,2)] by (auto split: if_splits)
  then show ?thesis
  proof cases
    case 1
    then show ?thesis using assms by (simp add: leap_year_def of_b_def; presburger)
  next
    case 2
    then show ?thesis using assms by (simp add: leap_year_def of_b_def; presburger)
  next
    case 3
    then show ?thesis using assms by (simp add: leap_year_def of_b_def; presburger)
  next
    case 4
    then show ?thesis using assms by (simp add: leap_year_def of_b_def; presburger)
  qed
qed

lemma time_to_tm_eq:
  assumes "0 \<le> t" and "t < 2 ^ 32" and D: "D = (t div 3600 + 8) div 24"
    and iy: "year_loop 4 0 (D mod 1461) = (i, y)" and md: "month_loop 12 0 (leap_year ! i) y = (m, d)"
  shows "time_to_tm t =
    (let year = D div 1461 * 4 + int i + 70 in
     \<lparr>tm_sec = t mod 60, tm_min = t div 60 mod 60, tm_hour = (t div 3600 + 8) mod 24, tm_mday = d + 1,
      tm_mon = (if m \<ge> 12 then int m - 12 else int m), tm_year = (if m \<ge> 12 then year + 1 else year),
      tm_wday = (D + 4) mod 7, tm_yday = y, tm_isdst = - 1\<rparr>)"
    "0 \<le> D" "D < 49711"
proof -
  have e: "t mod 2 ^ 32 = t" using assms(1,2) by (rule mod_pos_pos_trivial)
  have h: "t div 60 div 60 = t div 3600" using zdiv_zmult2_eq [of 60 t 60] by simp
  have "0 \<le> t div 3600" "t div 3600 < 1193047" using assms(1,2) by simp_all
  then show b: "0 \<le> D" "D < 49711" unfolding D by linarith+
  have "D div 1461 < 2 ^ 16" "0 \<le> D div 1461" using b by simp_all
  then have c: "D div 1461 mod 2 ^ 16 = D div 1461" by (intro mod_pos_pos_trivial)
  show "time_to_tm t =
    (let year = D div 1461 * 4 + int i + 70 in
     \<lparr>tm_sec = t mod 60, tm_min = t div 60 mod 60, tm_hour = (t div 3600 + 8) mod 24, tm_mday = d + 1,
      tm_mon = (if m \<ge> 12 then int m - 12 else int m), tm_year = (if m \<ge> 12 then year + 1 else year),
      tm_wday = (D + 4) mod 7, tm_yday = y, tm_isdst = - 1\<rparr>)"
    by (simp only: time_to_tm_def Let_def e h D [symmetric] c iy md prod.case)
qed

lemma date_all:
  assumes t: "0 \<le> t" "t < 2 ^ 32"
  defines "T \<equiv> time_to_tm t"
  shows "0 \<le> tm_mon T \<and> tm_mon T < 12 \<and> 70 \<le> tm_year T \<and> 1 \<le> tm_mday T \<and>
    tm_mday T \<le> mlen (tm_year T mod 4 = 0) (nat (tm_mon T)) \<and>
    julian_day (tm_year T) (nat (tm_mon T)) (tm_mday T) = (t div 3600 + 8) div 24"
proof -
  define D where "D = (t div 3600 + 8) div 24"
  define q where "q = D div 1461"
  define r where "r = D mod 1461"
  obtain i y where iy: "year_loop 4 0 r = (i, y)" by (cases "year_loop 4 0 r")
  obtain m d where md: "month_loop 12 0 (leap_year ! i) y = (m, d)" by (cases "month_loop 12 0 (leap_year ! i) y")
  note eq = time_to_tm_eq [OF t D_def iy [unfolded r_def] md]
  have q: "0 \<le> q" "0 \<le> r" "r < 1461" "D = 1461 * q + r"
    using eq(2) by (simp_all add: q_def r_def)
  define year where "year = q * 4 + int i + 70"
  note ys = year_split [OF q(2,3) iy year_def]
  have c0: "cum (leap_year ! i) 0 = 0" by (simp add: cum_def)
  have ms: "cum (leap_year ! i) m + d = y" "m \<le> 12" "0 \<le> d"
    "if m < 12 then d < mlen (leap_year ! i) m else d = 0"
    using month_loop_spec [OF _ _ _ md] ys c0 by (simp_all add: cum_12)
  have T: "tm_mday T = d + 1" "tm_mon T = (if m \<ge> 12 then int m - 12 else int m)"
    "tm_year T = (if m \<ge> 12 then year + 1 else year)"
    by (simp_all add: T_def eq(1) Let_def q_def year_def)
  have y0: "70 \<le> year" using q(1) by (simp add: year_def)
  show ?thesis
  proof (cases "m < 12")
    case True
    have "julian_day year m (d + 1) = D"
      using ms(1) ys q(4) by (simp add: julian_day_def)
    then show ?thesis using True T ms y0 ys by (simp add: D_def)
  next
    case False
    then have m: "m = 12" "d = 0" using ms by auto
    then have "y = 365 + of_b (leap_year ! i)" using ms(1) by (simp add: cum_12)
    then have "julian_day (year + 1) 0 1 = D" using ys q(4) by (simp add: julian_day_def cum_def)
    then show ?thesis using T m y0 mlen_pos [of 0 "(year + 1) mod 4 = 0"] by (simp add: D_def)
  qed
qed

lemma date_spec:
  assumes t: "0 \<le> t" "t < 2 ^ 32"
  shows "0 \<le> tm_mon (time_to_tm t)" "tm_mon (time_to_tm t) < 12" "70 \<le> tm_year (time_to_tm t)"
    "1 \<le> tm_mday (time_to_tm t)"
    "tm_mday (time_to_tm t) \<le> mlen (tm_year (time_to_tm t) mod 4 = 0) (nat (tm_mon (time_to_tm t)))"
    "julian_day (tm_year (time_to_tm t)) (nat (tm_mon (time_to_tm t))) (tm_mday (time_to_tm t)) =
      (t div 3600 + 8) div 24"
  using date_all [OF assms] by blast+

lemma clock_spec:
  assumes t: "0 \<le> t" "t < 2 ^ 32"
  defines "T \<equiv> time_to_tm t"
  shows "tm_sec T = t mod 60" "tm_min T = t div 60 mod 60" "tm_hour T = (t div 3600 + 8) mod 24"
    "tm_wday T = ((t div 3600 + 8) div 24 + 4) mod 7"
proof -
  let ?D = "(t div 3600 + 8) div 24"
  obtain i y where iy: "year_loop 4 0 (?D mod 1461) = (i, y)" by (cases "year_loop 4 0 (?D mod 1461)")
  obtain m d where md: "month_loop 12 0 (leap_year ! i) y = (m, d)" by (cases "month_loop 12 0 (leap_year ! i) y")
  show "tm_sec T = t mod 60" "tm_min T = t div 60 mod 60" "tm_hour T = (t div 3600 + 8) mod 24"
    "tm_wday T = (?D + 4) mod 7"
    by (simp_all only: T_def time_to_tm_eq(1) [OF t refl iy md] Let_def tm.simps)
qed

section \<open>The Gregorian calendar\<close>

text \<open>The reference: years, months and days counted one by one from the first of January 1970.\<close>

definition is_leap :: "int \<Rightarrow> bool" where
  "is_leap y \<longleftrightarrow> 4 dvd y \<and> (\<not> 100 dvd y \<or> 400 dvd y)"

definition year_days :: "int \<Rightarrow> int" where
  "year_days y = 365 + of_b (is_leap y)"

definition gregorian_day :: "int \<Rightarrow> nat \<Rightarrow> int \<Rightarrow> int" where
  "gregorian_day y m d = (\<Sum>k<nat (y - 1970). year_days (1970 + int k)) + cum (is_leap y) m + d - 1"

lemma is_leap_20th: "1970 \<le> y \<Longrightarrow> y < 2100 \<Longrightarrow> is_leap y \<longleftrightarrow> y mod 4 = 0"
proof -
  assume y: "1970 \<le> y" "y < 2100"
  have "400 dvd y" if "100 dvd y"
  proof -
    from that obtain k where "y = 100 * k" ..
    with y have "k = 20" by linarith
    with \<open>y = 100 * k\<close> show ?thesis by simp
  qed
  then show ?thesis by (auto simp: is_leap_def dvd_eq_mod_eq_0)
qed

lemma years_before:
  "int n \<le> 130 \<Longrightarrow> (\<Sum>k<n. year_days (1970 + int k)) = 365 * int n + (int n + 1) div 4"
proof (induction n)
  case (Suc n)
  have "is_leap (1970 + int n) \<longleftrightarrow> (1970 + int n) mod 4 = 0"
    using Suc.prems by (intro is_leap_20th) simp_all
  then have "year_days (1970 + int n) = 365 + ((int n + 2) div 4 - (int n + 1) div 4)"
    by (simp add: year_days_def of_b_def; presburger)
  then show ?case using Suc by simp
qed simp

lemma julian_gregorian:
  assumes "70 \<le> y" and "y < 200"
  shows "julian_day y m d = gregorian_day (y + 1900) m d"
proof -
  have "int (nat (y - 70)) = y - 70" using assms by simp
  then have "(\<Sum>k<nat (y - 70). year_days (1970 + int k)) = 365 * (y - 70) + (y - 69) div 4"
    using years_before [of "nat (y - 70)"] assms by simp
  moreover have "is_leap (y + 1900) \<longleftrightarrow> y mod 4 = 0"
    using assms by (subst is_leap_20th; presburger)
  ultimately show ?thesis by (simp add: julian_day_def gregorian_day_def)
qed

lemma local_split:
  fixes t :: int
  shows "(t div 3600 + 8) div 24 = (t + 28800) div 86400"
    "((t div 3600 + 8) mod 24) * 3600 + t div 60 mod 60 * 60 + t mod 60 = (t + 28800) mod 86400"
    "(t + 28800) div 86400 * 86400 + ((t div 3600 + 8) mod 24 - 8) * 3600 + t div 60 mod 60 * 60 + t mod 60 = t"
proof -
  define H where "H = t div 3600"
  define M where "M = t div 60"
  define D where "D = (t + 28800) div 86400"
  have h: "(t + 28800) div 3600 = H + 8" by (simp add: H_def)
  have "D = (t + 28800) div 3600 div 24"
    using zdiv_zmult2_eq [of 24 "t + 28800" 3600] by (simp add: D_def)
  then have D: "(H + 8) div 24 = D" using h by simp
  have "M div 60 = H" using zdiv_zmult2_eq [of 60 t 60] by (simp add: M_def H_def)
  then have M: "M mod 60 = M - 60 * H" using minus_div_mult_eq_mod [of M 60] by simp
  have S: "t mod 60 = t - 60 * M" using minus_div_mult_eq_mod [of t 60] by (simp add: M_def)
  have h24: "(H + 8) mod 24 = H + 8 - 24 * D" using minus_div_mult_eq_mod [of "H + 8" 24] by (simp add: D)
  have day: "(t + 28800) mod 86400 = t + 28800 - 86400 * D"
    using minus_div_mult_eq_mod [of "t + 28800" 86400] by (simp add: D_def)
  show "(t div 3600 + 8) div 24 = (t + 28800) div 86400"
    using D by (simp only: H_def D_def)
  show "((t div 3600 + 8) mod 24) * 3600 + t div 60 mod 60 * 60 + t mod 60 = (t + 28800) mod 86400"
    unfolding H_def [symmetric] M_def [symmetric] M S h24 day by (simp add: algebra_simps)
  show "(t + 28800) div 86400 * 86400 + ((t div 3600 + 8) mod 24 - 8) * 3600 + t div 60 mod 60 * 60 + t mod 60 = t"
    unfolding H_def [symmetric] M_def [symmetric] D_def [symmetric] M S h24 by (simp add: algebra_simps)
qed

text \<open>C26:
  Until the end of 2099 the library's own calendar is the Gregorian one in UTC+8: the date
  is a valid date, it is the day counted from the epoch, and hour, minute, second and day of
  the week are right. (It has no rule for the year 2100.)
\<close>

theorem date_is_gregorian:
  assumes "0 \<le> t" and "t < 4102416000"
  defines "T \<equiv> time_to_tm t" and "local_time \<equiv> t + 8 * 3600"
  shows "gregorian_day (tm_year T + 1900) (nat (tm_mon T)) (tm_mday T) = local_time div 86400 \<and>
    0 \<le> tm_mon T \<and> tm_mon T < 12 \<and> 1 \<le> tm_mday T \<and>
    tm_mday T \<le> mlen (is_leap (tm_year T + 1900)) (nat (tm_mon T)) \<and>
    tm_hour T * 3600 + tm_min T * 60 + tm_sec T = local_time mod 86400 \<and>
    tm_min T < 60 \<and> tm_sec T < 60 \<and>
    tm_wday T = (local_time div 86400 + 4) mod 7"
proof -
  have t: "0 \<le> t" "t < 2 ^ 32" using assms(1,2) by simp_all
  have lt: "local_time = t + 28800" by (simp add: local_time_def)
  note date = date_spec [OF t, folded T_def] and clk = clock_spec [OF t, folded T_def]
  define D where "D = local_time div 86400"
  have D: "(t div 3600 + 8) div 24 = D" using local_split(1) [of t] by (simp only: D_def lt)
  have day: "julian_day (tm_year T) (nat (tm_mon T)) (tm_mday T) = D" using date(6) D by (rule trans)
  have mon: "nat (tm_mon T) < 12" using date(1,2) by (auto simp: nat_less_iff)
  have y: "70 \<le> tm_year T" "tm_year T < 200"
  proof -
    show "70 \<le> tm_year T" by (fact date(3))
    have "D < 47482" using assms(2) by (simp add: D_def local_time_def)
    moreover have "0 \<le> cum (tm_year T mod 4 = 0) (nat (tm_mon T))"
      using mon by (auto simp: cum_def intro!: sum_nonneg order_trans [OF _ mlen_pos])
    ultimately have few: "365 * (tm_year T - 70) + (tm_year T - 69) div 4 < 47482"
      using day date(4) unfolding julian_day_def by linarith
    show "tm_year T < 200"
    proof (rule ccontr)
      assume "\<not> tm_year T < 200"
      then have late: "200 \<le> tm_year T" by simp
      have "(131 :: int) div 4 \<le> (tm_year T - 69) div 4" using late by (intro zdiv_mono1) simp_all
      then have "32 \<le> (tm_year T - 69) div 4" by simp
      moreover have "365 * 130 \<le> 365 * (tm_year T - 70)" using late by simp
      ultimately show False using few by simp
    qed
  qed
  have leap: "is_leap (tm_year T + 1900) \<longleftrightarrow> tm_year T mod 4 = 0"
    using y by (subst is_leap_20th; presburger)
  have "tm_hour T * 3600 + tm_min T * 60 + tm_sec T = local_time mod 86400"
    unfolding clk lt by (rule local_split(2))
  moreover have "tm_min T < 60" "tm_sec T < 60" unfolding clk by simp_all
  moreover have "tm_wday T = (D + 4) mod 7" unfolding clk(4) D ..
  ultimately show ?thesis
    unfolding D_def [symmetric] using date(1,2,4,5) day [unfolded julian_gregorian [OF y]] leap by simp
qed

lemma date_is_gregorian_witness:
  "tm_wday (time_to_tm 1559347200) = (18048 + 4) mod 7 \<and>
   gregorian_day (tm_year (time_to_tm 1559347200) + 1900) (nat (tm_mon (time_to_tm 1559347200)))
     (tm_mday (time_to_tm 1559347200)) = 18048"
  using date_is_gregorian [of 1559347200] by simp

text \<open>\<^verbatim>\<open>tm_to_time\<close> undoes \<^verbatim>\<open>time_to_tm\<close> for every 32-bit time, without ever asking the platform's
  \<^verbatim>\<open>mktime\<close>, and recomputes the same day of the week.
\<close>

theorem time_roundtrip:
  assumes "0 \<le> t" and "t < 2 ^ 32"
  shows "\<exists>out. tm_to_time mktime (time_to_tm t) = Some (t, out) \<and>
    tm_wday out = tm_wday (time_to_tm t) \<and> tm_mon out = tm_mon (time_to_tm t)"
proof -
  define T where "T = time_to_tm t"
  note date = date_spec [OF assms, folded T_def] and clk = clock_spec [OF assms, folded T_def]
  define m where "m = nat (tm_mon T)"
  define leap where "leap = (tm_year T mod 4 = 0)"
  define D where "D = (t + 28800) div 86400"
  have D: "(t div 3600 + 8) div 24 = D" using local_split(1) [of t] by (simp only: D_def)
  have m: "m < 12" "tm_mon T = int m" using date(1,2) by (auto simp: m_def nat_less_iff)
  define d where "d = monthbegin ! m + tm_mday T - 1 + of_b (leap \<and> tm_mon T > 1)"
  have one: "(1 < int m) = (1 < m)" "(int m = 1) = (m = 1)" by auto
  have jd: "d + (365 * (tm_year T - 70) + (tm_year T - 69) div 4) = D"
    using date(6) D monthbegin_cum [OF m(1), of leap]
    by (simp add: julian_day_def d_def m_def [symmetric] leap_def [symmetric] m(2) one)
  have nomk: "\<not> tm_mday T > monthlen ! m + of_b (leap \<and> tm_mon T = 1)"
    using date(5) monthlen_mlen [of m leap] by (simp add: m_def [symmetric] leap_def [symmetric] m(2) one)
  have tm: "D * 86400 + (tm_hour T - 8) * 3600 + tm_min T * 60 + tm_sec T = t"
    unfolding clk D_def by (rule local_split(3))
  have "0 \<le> tm_mon T \<and> tm_mon T < 12" using date(1,2) by simp
  then have "tm_to_time mktime T = Some (t, T\<lparr>tm_yday := d, tm_wday := (D + 4) mod 7\<rparr>)"
    using nomk
    by (simp only: tm_to_time_def Let_def m_def [symmetric] leap_def [symmetric] d_def [symmetric] jd tm
        if_True if_False not_less)
      (simp add: not_less)
  moreover have "tm_wday T = (D + 4) mod 7" unfolding clk(4) D ..
  ultimately show ?thesis by (simp add: T_def [symmetric])
qed

lemma time_roundtrip_witness:
  "\<exists>out. tm_to_time (\<lambda>_. 0) (time_to_tm 1559347200) = Some (1559347200, out)"
  using time_roundtrip [of 1559347200 "\<lambda>_. 0"] by auto

section \<open>Where it differs\<close>

text \<open>
  The first of January after a common year has the day of the year 365 (the loop over the
  years keeps it in the old year), and the date stamp counts the months from zero: the first
  of January 2019 is 20190001, not 20190101 as the header says.
\<close>

lemma yday_of_new_year:
  "time_to_tm 31507200 = \<lparr>tm_sec = 0, tm_min = 0, tm_hour = 0, tm_mday = 1, tm_mon = 0, tm_year = 71,
     tm_wday = 5, tm_yday = 365, tm_isdst = - 1\<rparr>"
  by code_simp

lemma getNowDay_months: "getNowDay 1546272000 = 20190001"
  by code_simp

text \<open>The first of March 2100 is called the 29th of February.\<close>

lemma no_century_rule: "tm_mon (time_to_tm 4107513600) = 1 \<and> tm_mday (time_to_tm 4107513600) = 29"
  by code_simp

end
