(* ===== verification/Log.thy ===== *)
theory Log
  imports Calendar StrUtils "HOL-Library.AList" "HOL-Library.Sublist"
begin

text \<open>
  The log of \<^verbatim>\<open>libbase/Log.cpp\<close>: threads put formatted lines into a buffer of fixed size
  under a lock, and the log thread moves the buffer to the screen and to files that are cut
  by day and by size.

  The object is a record, extended by what it acts on: the screen, the files by name, the
  folders. The clock and whether a file can be opened belong to the system; the clock is a
  function of the number of readings, so that two readings may differ. An operation runs
  under \<open>_bufLock\<close> or is the log thread's own, and is one step here. The lemmas show that
  lines come out whole and in order, and where the choice of files goes wrong.
\<close>

section \<open>The object\<close>

record Log =
  bRuning :: bool
  sFilename :: string
  vecPathList :: "string list"
  nFileSize :: u32
  bStdOut :: bool
  bFileOut :: bool
  nNowDay :: u32
  nLastDay :: u32
  fp :: "string option"
  dat :: string
  pLogCur :: nat
  tmpData :: string
  nNowUseSize :: u32
  lDropCount :: u64
  g_loglevel :: u32

datatype printed = Text string | Complaint

record log_sys = Log +
  screen :: "printed list"
  files :: "(string \<times> string) list"
  opened :: "string list"
  folders :: "string list"
  ticks :: nat

record log_env =
  clock :: "nat \<Rightarrow> int"
  can_open :: "string \<Rightarrow> bool"

definition MAX_LOG_BUFFER_SIZE :: nat where
  "MAX_LOG_BUFFER_SIZE = 614400"

definition log_length :: "'a Log_scheme \<Rightarrow> nat" where
  "log_length s = pLogCur s"

section \<open>Putting lines into the buffer\<close>

text \<open>\<^verbatim>\<open>(length() + len) > (MAX_LOG_BUFFER_SIZE - 200)\<close> is computed in \<^verbatim>\<open>unsigned int\<close>.\<close>

definition log :: "string \<Rightarrow> u32 \<Rightarrow> log_sys \<Rightarrow> fault + log_sys" where
  "log buf len s =
     (if of_nat (log_length s) + len > of_nat (MAX_LOG_BUFFER_SIZE - 200) then
        Inr (s\<lparr>screen := screen s @ [Complaint], lDropCount := lDropCount s + 1\<rparr>)
      else if length (dat s) < pLogCur s + unat len then Inl OutOfBounds
      else Inr (s\<lparr>dat := mem_put (pLogCur s) (take (unat len) buf) (dat s),
                  pLogCur := pLogCur s + unat len\<rparr>))"

definition getTimeString :: "int \<Rightarrow> string" where
  "getTimeString now =
     (let t = time_to_tm now in
      ''['' @ print02 (tm_hour t) @ '':'' @ print02 (tm_min t) @ '':'' @ print02 (tm_sec t) @ '']'')"

definition LOGSTREAM :: "log_env \<Rightarrow> u32 \<Rightarrow> string \<Rightarrow> log_sys \<Rightarrow> fault + log_sys" where
  "LOGSTREAM env level str s =
     (if g_loglevel s \<le> level then
        let os = getTimeString (clock env (ticks s)) @ str
        in log os (of_nat (length os)) (s\<lparr>ticks := ticks s + 1\<rparr>)
      else Inr s)"

section \<open>Moving the buffer out\<close>

definition getNowTimeStr :: "int \<Rightarrow> string" where
  "getNowTimeStr now =
     (let t = time_to_tm now in print02 (tm_hour t) @ print02 (tm_min t) @ print02 (tm_sec t))"

text \<open>The folders of the path, except the file itself; the results of \<^verbatim>\<open>createPath\<close> are ignored.\<close>

fun make_folders :: "string \<Rightarrow> string list \<Rightarrow> string list \<Rightarrow> string list" where
  "make_folders tmppath (p # q # ps) fs =
     (let tmppath = tmppath @ p @ ''/''
      in make_folders tmppath (q # ps) (if tmppath \<in> set fs then fs else fs @ [tmppath]))"
| "make_folders tmppath ps fs = fs"

definition file_name :: "string \<Rightarrow> u32 \<Rightarrow> string \<Rightarrow> string" where
  "file_name base day time = base @ ''_'' @ decimal (unat day) @ ''_'' @ time @ ''.log''"

definition close_old :: "log_sys \<Rightarrow> log_sys" where
  "close_old s =
     (if fp s \<noteq> None \<and> (nNowUseSize s \<ge> nFileSize s \<or> nLastDay s \<noteq> nNowDay s)
      then s\<lparr>fp := None\<rparr> else s)"

definition open_new :: "log_env \<Rightarrow> log_sys \<Rightarrow> log_sys" where
  "open_new env s =
     (let name = file_name (sFilename s) (getNowDay (clock env (ticks s)))
                   (getNowTimeStr (clock env (ticks s + 1)));
          s = s\<lparr>folders := make_folders '''' (vecPathList s) (folders s)\<rparr>;
          s = (if can_open env name
               then s\<lparr>fp := Some name, files := AList.update name '''' (files s), opened := opened s @ [name]\<rparr>
               else s)
      in s\<lparr>nLastDay := getNowDay (clock env (ticks s + 2)), nNowUseSize := 0, ticks := ticks s + 3\<rparr>)"

definition openFile :: "log_env \<Rightarrow> log_sys \<Rightarrow> bool \<times> log_sys" where
  "openFile env s =
     (if \<not> bFileOut s then (True, s)
      else let s = close_old s;
               s = (if fp s = None then open_new env s else s)
           in (fp s \<noteq> None, s))"

text \<open>\<^verbatim>\<open>_fp << _tmpData\<close> writes a C string: it stops at the first zero byte.\<close>

definition c_string :: "string \<Rightarrow> string" where
  "c_string str = takeWhile (\<lambda>c. c \<noteq> CHR 0x00) str"

definition write_file :: "string \<Rightarrow> log_sys \<Rightarrow> log_sys" where
  "write_file str s =
     (case fp s of
        None \<Rightarrow> s
      | Some name \<Rightarrow> s\<lparr>files := AList.update name (the (map_of (files s) name) @ str) (files s)\<rparr>)"

definition logFile :: "log_env \<Rightarrow> log_sys \<Rightarrow> fault + bool \<times> log_sys" where
  "logFile env s =
     (if \<not> bRuning s then Inr (False, s)
      else case openFile env s of (ok, s) \<Rightarrow>
      if \<not> ok then Inr (False, s)
      else
        let tmpLine = log_length s in
        if tmpLine = 0 then Inr (False, s)
        else if length (dat s) < tmpLine \<or> length (tmpData s) \<le> tmpLine then Inl OutOfBounds
        else
          let s = s\<lparr>tmpData := mem_put 0 (take tmpLine (dat s)) (tmpData s)\<rparr>;
              s = s\<lparr>pLogCur := 0\<rparr>;
              s = s\<lparr>nNowUseSize := nNowUseSize s + of_nat tmpLine\<rparr>;
              s = s\<lparr>tmpData := (tmpData s)[tmpLine := CHR 0x00]\<rparr>;
              s = (if bFileOut s then write_file (c_string (tmpData s)) s else s);
              s = (if bStdOut s then s\<lparr>screen := screen s @ [Text (c_string (tmpData s))]\<rparr> else s)
          in Inr (True, s))"

text \<open>One round of \<^verbatim>\<open>run\<close>.\<close>

definition run_round :: "log_env \<Rightarrow> log_sys \<Rightarrow> fault + log_sys" where
  "run_round env s =
     (case logFile env s of
        Inl e \<Rightarrow> Inl e
      | Inr (True, s) \<Rightarrow> Inr s
      | Inr (False, s) \<Rightarrow> Inr (s\<lparr>nNowDay := getNowDay (clock env (ticks s)), ticks := ticks s + 1\<rparr>))"

section \<open>Start\<close>

definition Log_new :: "string \<Rightarrow> string \<Rightarrow> log_sys \<Rightarrow> log_sys" where
  "Log_new memory tmp s = s\<lparr>bRuning := False, lDropCount := 0, dat := memory, tmpData := tmp, pLogCur := 0, fp := None\<rparr>"

definition setConfig ::
  "log_env \<Rightarrow> string \<Rightarrow> u32 \<Rightarrow> u32 \<Rightarrow> bool \<Rightarrow> bool \<Rightarrow> log_sys \<Rightarrow> log_sys option" where
  "setConfig env filename filesize loglevel screenout fileout s =
     (case splitString filename (vecPathList s) ''/'' 0 of
        None \<Rightarrow> None
      | Some parts \<Rightarrow>
          Some (s\<lparr>sFilename := filename, nFileSize := filesize, bStdOut := screenout, bFileOut := fileout,
                  vecPathList := parts, nNowUseSize := 0, g_loglevel := loglevel,
                  nNowDay := getNowDay (clock env (ticks s)), nLastDay := 0, ticks := ticks s + 1\<rparr>))"

definition doStart :: "bool \<Rightarrow> log_sys \<Rightarrow> bool \<times> log_sys" where
  "doStart started s = (started, s\<lparr>bRuning := started\<rparr>)"

section \<open>Lines come out whole and in order\<close>

text \<open>The calls that threads make and the rounds of the log thread, in any order.\<close>

datatype log_event = Say string | Round

definition log_step :: "log_env \<Rightarrow> log_event \<Rightarrow> log_sys \<Rightarrow> fault + log_sys" where
  "log_step env e s =
     (case e of
        Say line \<Rightarrow> log line (of_nat (length line)) s
      | Round \<Rightarrow> run_round env s)"

fun log_run :: "log_env \<Rightarrow> log_event list \<Rightarrow> log_sys \<Rightarrow> fault + log_sys" where
  "log_run env [] s = Inr s"
| "log_run env (e # es) s = (case log_step env e s of Inl f \<Rightarrow> Inl f | Inr s \<Rightarrow> log_run env es s)"

fun said :: "log_event list \<Rightarrow> string list" where
  "said [] = []"
| "said (Say line # es) = line # said es"
| "said (Round # es) = said es"

definition log_ok :: "log_sys \<Rightarrow> bool" where
  "log_ok s \<longleftrightarrow> length (dat s) = MAX_LOG_BUFFER_SIZE \<and> length (tmpData s) = MAX_LOG_BUFFER_SIZE \<and>
     pLogCur s \<le> MAX_LOG_BUFFER_SIZE - 200"

definition pending :: "log_sys \<Rightarrow> string" where
  "pending s = take (pLogCur s) (dat s)"

definition shown :: "printed list \<Rightarrow> string" where
  "shown ps = concat (map (\<lambda>p. case p of Text t \<Rightarrow> t | Complaint \<Rightarrow> []) ps)"

definition complaints :: "printed list \<Rightarrow> nat" where
  "complaints ps = length (filter (\<lambda>p. p = Complaint) ps)"

definition no_zero :: "string \<Rightarrow> bool" where
  "no_zero str \<longleftrightarrow> CHR 0x00 \<notin> set str"

lemma shown_simps [simp]:
  "shown (ps @ [Text t]) = shown ps @ t" "shown (ps @ [Complaint]) = shown ps"
  "complaints (ps @ [Text t]) = complaints ps" "complaints (ps @ [Complaint]) = Suc (complaints ps)"
  by (simp_all add: shown_def complaints_def)

lemma c_string_no_zero: "no_zero str \<Longrightarrow> c_string (str @ CHR 0x00 # rest) = str"
  by (simp add: c_string_def no_zero_def takeWhile_append)

lemma log_spec:
  assumes "log_ok s" and "length line < 2 ^ 31"
  shows "(MAX_LOG_BUFFER_SIZE - 200 < pLogCur s + length line \<and>
       log line (of_nat (length line)) s = Inr (s\<lparr>screen := screen s @ [Complaint], lDropCount := lDropCount s + 1\<rparr>)) \<or>
    (\<exists>d. log line (of_nat (length line)) s = Inr (s\<lparr>dat := d, pLogCur := pLogCur s + length line\<rparr>) \<and>
       length d = MAX_LOG_BUFFER_SIZE \<and> pLogCur s + length line \<le> MAX_LOG_BUFFER_SIZE - 200 \<and>
       take (pLogCur s + length line) d = pending s @ line)"
proof -
  let ?n = "pLogCur s + length line"
  have n: "?n < 2 ^ 32" and len: "unat (of_nat (length line) :: u32) = length line"
    using assms by (simp_all add: log_ok_def MAX_LOG_BUFFER_SIZE_def unat_of_nat)
  have "of_nat (log_length s) + (of_nat (length line) :: u32) = of_nat ?n"
    by (simp add: log_length_def)
  then have c: "of_nat (log_length s) + (of_nat (length line) :: u32) > of_nat (MAX_LOG_BUFFER_SIZE - 200)
      \<longleftrightarrow> MAX_LOG_BUFFER_SIZE - 200 < ?n"
    using n by (simp only: word_less_nat_alt unat_of_nat) (simp add: MAX_LOG_BUFFER_SIZE_def)
  show ?thesis
  proof (cases "MAX_LOG_BUFFER_SIZE - 200 < ?n")
    case True
    then show ?thesis using c by (simp add: log_def)
  next
    case False
    let ?d = "mem_put (pLogCur s) line (dat s)"
    have "?n \<le> length (dat s)" using False assms(1) by (simp add: log_ok_def MAX_LOG_BUFFER_SIZE_def)
    then have "length ?d = MAX_LOG_BUFFER_SIZE" "take ?n ?d = pending s @ line"
      "log line (of_nat (length line)) s = Inr (s\<lparr>dat := ?d, pLogCur := ?n\<rparr>)"
      using False c len assms(1) by (simp_all add: log_def mem_simps pending_def log_ok_def)
    then show ?thesis using False by (intro disjI2 exI [of _ ?d]) simp
  qed
qed

text \<open>The files in the order of their opening; the last one is written.\<close>

definition written :: "(string \<times> string) list \<Rightarrow> string" where
  "written fs = concat (map snd fs)"

definition files_ok :: "log_sys \<Rightarrow> bool" where
  "files_ok s \<longleftrightarrow> map fst (files s) = opened s \<and>
     (\<forall>f. fp s = Some f \<longrightarrow> opened s \<noteq> [] \<and> last (opened s) = f)"

lemma update_fresh: "k \<notin> fst ` set al \<Longrightarrow> AList.update k v al = al @ [(k, v)]"
  by (induction al) auto

lemma update_last: "k \<notin> fst ` set al \<Longrightarrow> AList.update k v (al @ [(k, w)]) = al @ [(k, v)]"
  by (induction al) auto

lemma files_last:
  assumes "files_ok s" and "distinct (opened s)" and "fp s = Some f"
  obtains fs w where "files s = fs @ [(f, w)]" and "f \<notin> fst ` set fs"
proof -
  have ne: "files s \<noteq> []" and l: "fst (last (files s)) = f" and d: "distinct (map fst (files s))"
    using assms last_map [of "files s" fst] by (cases "files s"; auto simp: files_ok_def)+
  then have split: "files s = butlast (files s) @ [(f, snd (last (files s)))]"
    by (metis append_butlast_last_id prod.collapse)
  moreover have "f \<notin> fst ` set (butlast (files s))" using d by (subst (asm) split) simp
  ultimately show thesis using that by blast
qed

lemma write_file_written:
  assumes "files_ok s" and "distinct (opened s)" and "fp s \<noteq> None"
  shows "files_ok (write_file str s) \<and> written (files (write_file str s)) = written (files s) @ str"
proof -
  obtain f where f: "fp s = Some f" using assms(3) by blast
  obtain fs w where fs: "files s = fs @ [(f, w)]" "f \<notin> fst ` set fs"
    using files_last [OF assms(1,2) f] by blast
  have "map_of fs f = None" using fs(2) by (simp add: map_of_eq_None_iff)
  then have "map_of (files s) f = Some w" by (simp add: fs(1) map_add_def)
  then show ?thesis
    using assms(1) f fs by (simp add: write_file_def update_last files_ok_def written_def)
qed

text \<open>What choosing a file leaves alone: all but the file written, the files and the stamps.\<close>

definition refiled :: "log_sys \<Rightarrow> log_sys \<Rightarrow> bool" where
  "refiled s s' \<longleftrightarrow> dat s' = dat s \<and> tmpData s' = tmpData s \<and> pLogCur s' = pLogCur s \<and>
     screen s' = screen s \<and> lDropCount s' = lDropCount s \<and> bStdOut s' = bStdOut s \<and>
     bFileOut s' = bFileOut s \<and> bRuning s' = bRuning s \<and> prefix (opened s) (opened s') \<and>
     (files_ok s \<and> distinct (opened s') \<longrightarrow> files_ok s' \<and> written (files s') = written (files s))"

lemma distinct_prefix: "prefix xs ys \<Longrightarrow> distinct ys \<Longrightarrow> distinct xs"
  by (auto elim!: prefixE)

lemma refiled_trans: "refiled s s' \<Longrightarrow> refiled s' s'' \<Longrightarrow> refiled s s''"
  unfolding refiled_def using distinct_prefix by auto

lemma refiled_refl: "refiled s s"
  by (simp add: refiled_def)

lemma close_old_refiled: "refiled s (close_old s)"
  by (simp add: close_old_def refiled_def files_ok_def)

lemma open_new_refiled:
  assumes "fp s = None"
  shows "refiled s (open_new env s)"
proof -
  define name where "name = file_name (sFilename s) (getNowDay (clock env (ticks s))) (getNowTimeStr (clock env (ticks s + 1)))"
  have fresh: "AList.update name '''' (files s) = files s @ [(name, '''')]"
    if "map fst (files s) = opened s" "name \<notin> set (opened s)"
    using that by (intro update_fresh) (metis set_map)
  have "open_new env s =
      (if can_open env name
       then s\<lparr>folders := make_folders '''' (vecPathList s) (folders s), fp := Some name,
              files := AList.update name '''' (files s), opened := opened s @ [name],
              nLastDay := getNowDay (clock env (ticks s + 2)), nNowUseSize := 0, ticks := ticks s + 3\<rparr>
       else s\<lparr>folders := make_folders '''' (vecPathList s) (folders s),
              nLastDay := getNowDay (clock env (ticks s + 2)), nNowUseSize := 0, ticks := ticks s + 3\<rparr>)"
    by (simp add: open_new_def Let_def name_def)
  then show ?thesis
    using assms fresh by (simp add: refiled_def files_ok_def written_def)
qed

lemma openFile_refiled: "openFile env s = (ok, s') \<Longrightarrow> refiled s s' \<and> (bFileOut s \<and> ok \<longrightarrow> fp s' \<noteq> None)"
  using refiled_refl close_old_refiled refiled_trans [OF close_old_refiled open_new_refiled]
  by (auto simp: openFile_def Let_def split: if_splits)

text \<open>
  One step, seen from outside: the text that is out or in the buffer grows by the line said
  or by nothing, and nothing else is lost.
\<close>

definition log_inv :: "log_sys \<Rightarrow> bool" where
  "log_inv s \<longleftrightarrow> log_ok s \<and> no_zero (pending s) \<and> bStdOut s"

definition carries :: "log_sys \<Rightarrow> string list \<Rightarrow> nat \<Rightarrow> log_sys \<Rightarrow> bool" where
  "carries s kept d s' \<longleftrightarrow>
     shown (screen s') @ pending s' = shown (screen s) @ pending s @ concat kept \<and>
     complaints (screen s') = complaints (screen s) + d \<and>
     lDropCount s' = lDropCount s + of_nat d \<and>
     prefix (opened s) (opened s') \<and> (bFileOut s' \<longleftrightarrow> bFileOut s) \<and>
     (bFileOut s \<and> files_ok s \<and> distinct (opened s') \<and> written (files s) = shown (screen s)
        \<longrightarrow> files_ok s' \<and> written (files s') = shown (screen s'))"

lemma carries_trans:
  "carries s k d s' \<Longrightarrow> carries s' k' d' s'' \<Longrightarrow> carries s (k @ k') (d + d') s''"
  unfolding carries_def using distinct_prefix [of "opened s'" "opened s''"]
  by (auto simp: prefix_order.trans [of "opened s" "opened s'"])

lemma say_carries:
  assumes "log_inv s" and "length line < 2 ^ 31" and "no_zero line"
  shows "\<exists>s' kept d. log line (of_nat (length line)) s = Inr s' \<and> log_inv s' \<and> carries s kept d s' \<and>
    (kept = [line] \<and> d = 0 \<and> length (pending s) + length line \<le> MAX_LOG_BUFFER_SIZE - 200
      \<or> kept = [] \<and> d = 1 \<and> MAX_LOG_BUFFER_SIZE - 200 < length (pending s) + length line)"
proof -
  have ok: "log_ok s" and nz: "no_zero (pending s)" and out: "bStdOut s"
    using assms(1) by (simp_all add: log_inv_def)
  have len: "length (pending s) = pLogCur s"
    using ok by (simp add: pending_def log_ok_def MAX_LOG_BUFFER_SIZE_def)
  consider (full) "MAX_LOG_BUFFER_SIZE - 200 < pLogCur s + length line"
      "log line (of_nat (length line)) s = Inr (s\<lparr>screen := screen s @ [Complaint], lDropCount := lDropCount s + 1\<rparr>)"
    | (room) d where "log line (of_nat (length line)) s = Inr (s\<lparr>dat := d, pLogCur := pLogCur s + length line\<rparr>)"
       "length d = MAX_LOG_BUFFER_SIZE" "pLogCur s + length line \<le> MAX_LOG_BUFFER_SIZE - 200"
       "take (pLogCur s + length line) d = pending s @ line"
    using log_spec [OF ok assms(2)] by blast
  then show ?thesis
  proof cases
    case full
    let ?s = "s\<lparr>screen := screen s @ [Complaint], lDropCount := lDropCount s + 1\<rparr>"
    have "log_inv ?s" "pending ?s = pending s" "files_ok ?s = files_ok s"
      using ok nz out by (simp_all add: log_inv_def log_ok_def pending_def files_ok_def)
    then show ?thesis using full len by (intro exI [of _ ?s] exI [of _ "[]"] exI [of _ 1]) (simp add: carries_def)
  next
    case room
    let ?s = "s\<lparr>dat := d, pLogCur := pLogCur s + length line\<rparr>"
    have p: "pending ?s = pending s @ line" using room(4) by (simp add: pending_def)
    have "log_inv ?s" "files_ok ?s = files_ok s"
      using ok nz out room assms(3) p by (simp_all add: log_inv_def log_ok_def files_ok_def no_zero_def)
    then show ?thesis using room p len by (intro exI [of _ ?s] exI [of _ "[line]"] exI [of _ 0]) (simp add: carries_def)
  qed
qed

lemma refiled_log:
  assumes "refiled s s'" and "log_inv s"
  shows "log_inv s' \<and> pending s' = pending s \<and> carries s [] 0 s'"
proof -
  have "pending s' = pending s" "screen s' = screen s"
    using assms(1) by (simp_all add: refiled_def pending_def)
  then show ?thesis using assms by (simp add: refiled_def log_inv_def log_ok_def carries_def)
qed

text \<open>The buffer goes out: what \<^verbatim>\<open>logFile\<close> does once a file is chosen.\<close>

definition flushed :: "log_sys \<Rightarrow> log_sys" where
  "flushed s = (let s = s\<lparr>pLogCur := 0, nNowUseSize := nNowUseSize s + of_nat (pLogCur s),
                     tmpData := (mem_put 0 (pending s) (tmpData s))[pLogCur s := CHR 0x00]\<rparr>;
                   s = (if bFileOut s then write_file (c_string (tmpData s)) s else s)
               in (if bStdOut s then s\<lparr>screen := screen s @ [Text (c_string (tmpData s))]\<rparr> else s))"

lemma logFile_flushed:
  assumes "bRuning s" and "openFile env s = (True, s1)" and "log_ok s1" and "pLogCur s1 \<noteq> 0"
  shows "logFile env s = Inr (True, flushed s1)"
  using assms by (simp add: logFile_def log_length_def log_ok_def MAX_LOG_BUFFER_SIZE_def flushed_def
      pending_def Let_def)

lemma put_terminated:
  assumes "length p = n" and "n < length t"
  shows "(mem_put 0 p t)[n := c] = p @ c # drop (Suc n) t"
proof -
  have "drop n t = t ! n # drop (Suc n) t" using assms(2) by (simp add: Cons_nth_drop_Suc)
  then show ?thesis using assms by (simp add: mem_simps list_update_append)
qed

lemma flushed_carries:
  assumes "log_inv s" and "bFileOut s \<Longrightarrow> fp s \<noteq> None"
  shows "log_inv (flushed s) \<and> carries s [] 0 (flushed s)"
proof -
  have ok: "log_ok s" and nz: "no_zero (pending s)" and out: "bStdOut s"
    using assms(1) by (simp_all add: log_inv_def)
  let ?t = "(mem_put 0 (pending s) (tmpData s))[pLogCur s := CHR 0x00]"
  define s1 where "s1 = s\<lparr>pLogCur := 0, nNowUseSize := nNowUseSize s + of_nat (pLogCur s), tmpData := ?t\<rparr>"
  define s2 where "s2 = (if bFileOut s then write_file (pending s) s1 else s1)"
  have n: "length (pending s) = pLogCur s" "pLogCur s < length (tmpData s)"
    using ok by (simp_all add: pending_def log_ok_def MAX_LOG_BUFFER_SIZE_def)
  then have "?t = pending s @ CHR 0x00 # drop (Suc (pLogCur s)) (tmpData s)"
    by (simp add: put_terminated)
  then have c: "c_string (tmpData s1) = pending s" using c_string_no_zero [OF nz] by (simp add: s1_def)
  have s2: "tmpData s2 = tmpData s1" "bStdOut s2" "pLogCur s2 = 0" "dat s2 = dat s" "screen s2 = screen s"
    "lDropCount s2 = lDropCount s" "bFileOut s2 = bFileOut s" "opened s2 = opened s"
    using out by (simp_all add: s2_def s1_def write_file_def split: option.split)
  have f: "flushed s = s2\<lparr>screen := screen s @ [Text (pending s)]\<rparr>"
  proof -
    have "flushed s = (let t = if bFileOut s1 then write_file (c_string (tmpData s1)) s1 else s1
        in if bStdOut t then t\<lparr>screen := screen t @ [Text (c_string (tmpData t))]\<rparr> else t)"
      by (simp only: flushed_def s1_def Let_def)
    moreover have "(if bFileOut s1 then write_file (c_string (tmpData s1)) s1 else s1) = s2"
      unfolding c by (simp add: s2_def s1_def)
    ultimately show ?thesis by (simp only: s2 c Let_def if_True)
  qed
  have fo: "files_ok s1 = files_ok s" "fp s1 = fp s" "opened s1 = opened s" "files s1 = files s" "bFileOut s1 = bFileOut s"
    by (simp_all add: files_ok_def s1_def)
  have w: "files_ok s2 \<and> written (files s2) = written (files s) @ pending s"
    if "bFileOut s" "files_ok s" "distinct (opened s)"
    using write_file_written [of s1 "pending s"] that fo assms(2) by (simp add: s2_def)
  have lt: "length (tmpData s1) = MAX_LOG_BUFFER_SIZE" using ok n by (simp add: s1_def log_ok_def mem_simps)
  have "log_inv (flushed s)"
    using f s2 lt ok by (simp add: log_inv_def log_ok_def pending_def no_zero_def)
  moreover have "files_ok (flushed s) = files_ok s2" "pending (flushed s) = []"
    using f s2 by (simp_all add: files_ok_def pending_def)
  ultimately show ?thesis using f s2 w by (simp add: carries_def)
qed

lemma stamp_carries:
  "log_inv s \<Longrightarrow> log_inv (s\<lparr>nNowDay := d, ticks := t\<rparr>) \<and> carries s [] 0 (s\<lparr>nNowDay := d, ticks := t\<rparr>)"
  by (simp add: log_inv_def log_ok_def pending_def carries_def files_ok_def)

lemma logFile_carries:
  assumes "log_inv s"
  shows "\<exists>r s'. logFile env s = Inr (r, s') \<and> log_inv s' \<and> carries s [] 0 s'"
proof (cases "bRuning s")
  case False
  then have "logFile env s = Inr (False, s)" by (simp add: logFile_def)
  then show ?thesis using assms refiled_log [OF refiled_refl assms] by blast
next
  case True
  obtain ok s1 where o: "openFile env s = (ok, s1)" by (cases "openFile env s")
  have r: "refiled s s1" and f: "bFileOut s \<and> ok \<longrightarrow> fp s1 \<noteq> None" using openFile_refiled [OF o] by auto
  have 1: "log_inv s1" "carries s [] 0 s1" using refiled_log [OF r assms] by auto
  show ?thesis
  proof (cases "ok \<and> pLogCur s1 \<noteq> 0")
    case True
    have "bFileOut s1 \<Longrightarrow> fp s1 \<noteq> None" using f True r by (simp add: refiled_def)
    then have "log_inv (flushed s1)" "carries s ([] @ []) (0 + 0) (flushed s1)"
      using flushed_carries [OF 1(1)] carries_trans [OF 1(2)] by blast+
    then show ?thesis using logFile_flushed [OF \<open>bRuning s\<close>, of env s1] True o 1(1) by (auto simp: log_inv_def)
  next
    case False
    then have "logFile env s = Inr (False, s1)" using \<open>bRuning s\<close> o by (auto simp: logFile_def log_length_def)
    then show ?thesis using 1 by blast
  qed
qed

lemma round_carries:
  assumes "log_inv s"
  shows "\<exists>s'. run_round env s = Inr s' \<and> log_inv s' \<and> carries s [] 0 s'"
proof -
  obtain r s1 where 1: "logFile env s = Inr (r, s1)" "log_inv s1" "carries s [] 0 s1"
    using logFile_carries [OF assms] by blast
  show ?thesis
    using 1 stamp_carries [OF 1(2)] carries_trans [OF 1(3)] by (cases r) (fastforce simp: run_round_def)+
qed

lemma log_run_carries:
  assumes "log_inv s" and "list_all (\<lambda>l. length l < 2 ^ 31 \<and> no_zero l) (said es)"
  shows "\<exists>s' kept d. log_run env es s = Inr s' \<and> log_inv s' \<and> carries s kept d s' \<and>
    subseq kept (said es) \<and> length kept + d = length (said es)"
  using assms
proof (induction es arbitrary: s)
  case Nil
  then show ?case using refiled_log [OF refiled_refl Nil(1)] by fastforce
next
  case (Cons e es)
  show ?case
  proof (cases e)
    case (Say line)
    obtain s1 k1 d1 where 1: "log line (of_nat (length line)) s = Inr s1" "log_inv s1" "carries s k1 d1 s1"
      "k1 = [line] \<and> d1 = 0 \<or> k1 = [] \<and> d1 = 1"
      using say_carries [OF Cons.prems(1), of line] Cons.prems(2) Say by auto
    obtain s' k d where 2: "log_run env es s1 = Inr s'" "log_inv s'" "carries s1 k d s'"
      "subseq k (said es)" "length k + d = length (said es)"
      using Cons.IH [OF 1(2)] Cons.prems(2) Say by auto
    have "subseq (k1 @ k) (said (e # es))" "length (k1 @ k) + (d1 + d) = length (said (e # es))"
      using 1(4) 2(4,5) Say by auto
    moreover have "log_run env (e # es) s = Inr s'" using 1(1) 2(1) Say by (simp add: log_step_def)
    ultimately show ?thesis using 2(2) carries_trans [OF 1(3) 2(3)] by blast
  next
    case Round
    obtain s1 where 1: "run_round env s = Inr s1" "log_inv s1" "carries s [] 0 s1"
      using round_carries [OF Cons.prems(1)] by blast
    obtain s' k d where 2: "log_run env es s1 = Inr s'" "log_inv s'" "carries s1 k d s'"
      "subseq k (said es)" "length k + d = length (said es)"
      using Cons.IH [OF 1(2)] Cons.prems(2) Round by auto
    moreover have "log_run env (e # es) s = Inr s'" using 1(1) 2(1) Round by (simp add: log_step_def)
    moreover have "carries s k d s'" using carries_trans [OF 1(3) 2(3)] by simp
    ultimately show ?thesis using Round by auto
  qed
qed

text \<open>
  C29: With printing to the screen switched on (\<^verbatim>\<open>bStdOut\<close>) and lines that hold no zero byte
  and fewer than \<open>2 ^ 31\<close> bytes, whatever order threads say lines and the log thread takes its
  rounds in, no write leaves the two buffers, and what is on the screen followed by what waits in the buffer is
  exactly the lines kept, whole and in the order they were said; the others are counted in
  the drop count and complained about. When files are written too, the log files, in the order
  of their opening, hold together exactly what the screen shows, as long as they did before and
  no file name is used twice. (A zero byte would cut off the rest of a buffer, \<open>zero_byte_cuts\<close>.)
\<close>

theorem log_keeps_lines:
  assumes "log_inv s" and "list_all (\<lambda>l. length l < 2 ^ 31 \<and> no_zero l) (said es)"
  shows "\<exists>s' kept. log_run env es s = Inr s' \<and> log_ok s' \<and> subseq kept (said es) \<and>
    shown (screen s') @ pending s' = shown (screen s) @ pending s @ concat kept \<and>
    complaints (screen s') = complaints (screen s) + (length (said es) - length kept) \<and>
    lDropCount s' = lDropCount s + of_nat (length (said es) - length kept) \<and>
    (bFileOut s \<and> files_ok s \<and> written (files s) = shown (screen s) \<and> distinct (opened s')
       \<longrightarrow> written (files s') = shown (screen s'))"
proof -
  obtain s' kept d where 1: "log_run env es s = Inr s'" "log_inv s'" "carries s kept d s'"
    "subseq kept (said es)" "length kept + d = length (said es)"
    using log_run_carries [OF assms] by blast
  have "d = length (said es) - length kept" using 1(5) by simp
  then show ?thesis using 1 by (intro exI [of _ s'] exI [of _ kept]) (auto simp: log_inv_def carries_def)
qed

definition quiet_log :: log_sys where
  "quiet_log = \<lparr>bRuning = True, sFilename = ''log/server'', vecPathList = [''log'', ''server''],
     nFileSize = 1024, bStdOut = True, bFileOut = True, nNowDay = 20190001, nLastDay = 0, fp = None,
     dat = replicate MAX_LOG_BUFFER_SIZE (CHR 0x00), pLogCur = 0,
     tmpData = replicate MAX_LOG_BUFFER_SIZE (CHR 0x00), nNowUseSize = 0, lDropCount = 0, g_loglevel = 0,
     screen = [], files = [], opened = [], folders = [], ticks = 0\<rparr>"

lemma log_keeps_lines_witness:
  "\<exists>s' kept. log_run \<lparr>clock = (\<lambda>_. 1546272000), can_open = (\<lambda>_. True)\<rparr> [Say ''one'', Round, Say ''two''] quiet_log = Inr s' \<and>
     subseq kept [''one'', ''two''] \<and> shown (screen s') @ pending s' = concat kept"
proof -
  have "log_inv quiet_log"
    by (simp add: log_inv_def log_ok_def quiet_log_def pending_def no_zero_def)
  moreover have "list_all (\<lambda>l. length l < 2 ^ 31 \<and> no_zero l) (said [Say ''one'', Round, Say ''two''])"
    by (simp add: no_zero_def)
  ultimately obtain s' kept where
    "log_run \<lparr>clock = (\<lambda>_. 1546272000), can_open = (\<lambda>_. True)\<rparr> [Say ''one'', Round, Say ''two''] quiet_log = Inr s'"
    "subseq kept [''one'', ''two'']"
    "shown (screen s') @ pending s' = shown (screen quiet_log) @ pending quiet_log @ concat kept"
    using log_keeps_lines [of quiet_log "[Say ''one'', Round, Say ''two'']"] by fastforce
  moreover have "shown (screen quiet_log) = []" "pending quiet_log = []"
    by (simp_all add: quiet_log_def shown_def pending_def)
  ultimately show ?thesis by auto
qed

section \<open>Where the choice of files goes wrong\<close>

text \<open>
  While there is something to write, \<^verbatim>\<open>_nNowDay\<close> is not refreshed, but \<^verbatim>\<open>_nLastDay\<close> is set from
  the clock when a file is opened. Once they differ, every round opens a new file, and within
  one second that is the same file again, emptied.
\<close>

lemma busy_round_keeps_day:
  assumes "logFile env s = Inr (True, s')"
  shows "nNowDay s' = nNowDay s"
proof -
  have "nNowDay s1 = nNowDay s" if "openFile env s = (ok, s1)" for ok s1
    using that by (auto simp: openFile_def close_old_def open_new_def Let_def split: if_splits)
  then show ?thesis
    using assms by (auto simp: logFile_def Let_def write_file_def split: if_splits prod.splits option.splits)
qed

lemma stale_day_truncates:
  assumes "bFileOut s" and "fp s = Some name" and "nLastDay s \<noteq> nNowDay s"
    and "file_name (sFilename s) (getNowDay (clock env (ticks s))) (getNowTimeStr (clock env (ticks s + 1))) = name"
    and "can_open env name"
  shows "map_of (files (snd (openFile env s))) name = Some ''''"
  using assms by (simp add: openFile_def close_old_def open_new_def Let_def update_conv')

text \<open>A zero byte in a line cuts off the rest of the buffer.\<close>

lemma zero_byte_cuts: "c_string (''kept'' @ CHR 0x00 # rest) = ''kept''"
  by (simp add: c_string_def)

end
