(* ===== verification/FreeQueue.thy ===== *)
theory FreeQueue
  imports Prelude
begin

text \<open>
  The lock-free queue of \<^verbatim>\<open>include/base/FreeQueue.h\<close>: a linked list with a dummy head node,
  extended and shortened by compare-and-swap. Its header says that it cannot be used yet;
  the theory shows what works and what does not.

  Memory is sequentially consistent. The heap maps addresses to nodes, a thread is the program counter of \<^verbatim>\<open>Push\<close> or \<^verbatim>\<open>Pop\<close> with
  its local pointers, and every access to shared memory is a step of its own, so that the
  steps of threads interleave freely. The allocator may hand out any address not in use,
  those of freed nodes too. Reading a freed node is a fault.
\<close>

section \<open>The steps of the two operations\<close>

record 'v FreeQueueNode =
  node_data :: 'v
  node_next :: "nat option"

record 'v FreeQueue =
  heap :: "nat \<Rightarrow> 'v FreeQueueNode option"
  pHead :: nat
  pTail :: nat

text \<open>Where a thread is: the pointers are \<^verbatim>\<open>n\<close> and \<^verbatim>\<open>p\<close> of the code.\<close>

datatype 'v pc =
    Idle
  | PushRead nat
  | PushCas nat nat
  | PushTail nat nat
  | Pushed nat
  | PopRead
  | PopNext nat
  | PopCas nat "nat option"
  | PopCheck nat
  | PopFix nat
  | PopTake nat
  | Popped "'v option"

definition new_queue :: "nat \<Rightarrow> 'v \<Rightarrow> 'v FreeQueue" where
  "new_queue a junk = \<lparr>heap = [a \<mapsto> \<lparr>node_data = junk, node_next = None\<rparr>], pHead = a, pTail = a\<rparr>"

text \<open>\<^verbatim>\<open>__sync_bool_compare_and_swap\<close> on the \<^verbatim>\<open>next\<close> field of a node and on \<^verbatim>\<open>_pTail\<close>.\<close>

definition cas_next :: "nat \<Rightarrow> nat option \<Rightarrow> nat option \<Rightarrow> 'v FreeQueue \<Rightarrow> fault + bool \<times> 'v FreeQueue" where
  "cas_next p oldv newv q =
     (case heap q p of
        None \<Rightarrow> Inl UseAfterFree
      | Some nd \<Rightarrow>
          if node_next nd = oldv
          then Inr (True, q\<lparr>heap := (heap q)(p \<mapsto> nd\<lparr>node_next := newv\<rparr>)\<rparr>)
          else Inr (False, q))"

definition cas_tail :: "nat \<Rightarrow> nat \<Rightarrow> 'v FreeQueue \<Rightarrow> bool \<times> 'v FreeQueue" where
  "cas_tail oldv newv q = (if pTail q = oldv then (True, q\<lparr>pTail := newv\<rparr>) else (False, q))"

definition read_next :: "nat \<Rightarrow> 'v FreeQueue \<Rightarrow> fault + nat option" where
  "read_next p q = (case heap q p of None \<Rightarrow> Inl UseAfterFree | Some nd \<Rightarrow> Inr (node_next nd))"

text \<open>The first lines of \<^verbatim>\<open>Push\<close>: the node is not shared yet.\<close>

definition begin_push :: "'v \<Rightarrow> nat \<Rightarrow> 'v FreeQueue \<Rightarrow> 'v pc \<times> 'v FreeQueue" where
  "begin_push v n q = (PushRead n, q\<lparr>heap := (heap q)(n \<mapsto> \<lparr>node_data = v, node_next = None\<rparr>)\<rparr>)"

fun pc_step :: "'v pc \<Rightarrow> 'v FreeQueue \<Rightarrow> fault + 'v pc \<times> 'v FreeQueue" where
  "pc_step (PushRead n) q = Inr (PushCas n (pTail q), q)"
| "pc_step (PushCas n p) q =
     (case cas_next p None (Some n) q of
        Inl e \<Rightarrow> Inl e
      | Inr (ok, q) \<Rightarrow> Inr (if ok then PushTail n p else PushRead n, q))"
| "pc_step (PushTail n p) q = Inr (Pushed n, snd (cas_tail p n q))"
| "pc_step PopRead q =
     (case read_next (pHead q) q of
        Inl e \<Rightarrow> Inl e
      | Inr None \<Rightarrow> Inr (Popped None, q)
      | Inr (Some p) \<Rightarrow> Inr (PopNext p, q))"
| "pc_step (PopNext p) q =
     (case read_next p q of Inl e \<Rightarrow> Inl e | Inr nx \<Rightarrow> Inr (PopCas p nx, q))"
| "pc_step (PopCas p nx) q =
     (case cas_next (pHead q) (Some p) nx q of
        Inl e \<Rightarrow> Inl e
      | Inr (ok, q) \<Rightarrow> Inr (if ok then PopCheck p else PopRead, q))"
| "pc_step (PopCheck p) q =
     (case read_next (pHead q) q of
        Inl e \<Rightarrow> Inl e
      | Inr nx \<Rightarrow> Inr (if nx = None then PopFix p else PopTake p, q))"
| "pc_step (PopFix p) q =
     (case cas_tail p (pHead q) q of (ok, q) \<Rightarrow> Inr (if ok then PopTake p else PopFix p, q))"
| "pc_step (PopTake p) q =
     (case heap q p of
        None \<Rightarrow> Inl UseAfterFree
      | Some nd \<Rightarrow> Inr (Popped (Some (node_data nd)), q\<lparr>heap := (heap q)(p := None)\<rparr>))"
| "pc_step done q = Inr (done, q)"

text \<open>One thread alone, for at most so many steps; \<open>None\<close> is a loop that needs more.\<close>

fun finished :: "'v pc \<Rightarrow> bool" where
  "finished (Pushed _) = True"
| "finished (Popped _) = True"
| "finished Idle = True"
| "finished _ = False"

fun run_pc :: "nat \<Rightarrow> 'v pc \<Rightarrow> 'v FreeQueue \<Rightarrow> (fault + 'v pc \<times> 'v FreeQueue) option" where
  "run_pc k c q =
     (if finished c then Some (Inr (c, q))
      else case k of
        0 \<Rightarrow> None
      | Suc k \<Rightarrow> (case pc_step c q of Inl e \<Rightarrow> Some (Inl e) | Inr (c, q) \<Rightarrow> run_pc k c q))"

declare run_pc.simps [simp del]

definition Push :: "nat \<Rightarrow> nat \<Rightarrow> 'v \<Rightarrow> 'v FreeQueue \<Rightarrow> 'v FreeQueue option" where
  "Push k n v q =
     (case begin_push v n q of (c, q) \<Rightarrow>
      case run_pc k c q of Some (Inr (_, q)) \<Rightarrow> Some q | _ \<Rightarrow> None)"

definition Pop :: "nat \<Rightarrow> 'v FreeQueue \<Rightarrow> ('v option \<times> 'v FreeQueue) option" where
  "Pop k q = (case run_pc k PopRead q of Some (Inr (Popped r, q)) \<Rightarrow> Some (r, q) | _ \<Rightarrow> None)"

section \<open>Threads\<close>

record 'v system =
  queue :: "'v FreeQueue"
  pcs :: "nat \<Rightarrow> 'v pc"

datatype 'v action = BeginPush nat 'v nat | BeginPop nat | Step nat

text \<open>\<open>None\<close>: the thread is busy, or the address in use.\<close>

definition sys_step :: "'v action \<Rightarrow> 'v system \<Rightarrow> (fault + 'v system) option" where
  "sys_step a s =
     (case a of
        BeginPush t v n \<Rightarrow>
          if finished (pcs s t) \<and> heap (queue s) n = None then
            (case begin_push v n (queue s) of (c, q) \<Rightarrow>
             Some (Inr (s\<lparr>queue := q, pcs := (pcs s)(t := c)\<rparr>)))
          else None
      | BeginPop t \<Rightarrow>
          if finished (pcs s t) then Some (Inr (s\<lparr>pcs := (pcs s)(t := PopRead)\<rparr>)) else None
      | Step t \<Rightarrow>
          if finished (pcs s t) then None
          else (case pc_step (pcs s t) (queue s) of
                  Inl e \<Rightarrow> Some (Inl e)
                | Inr (c, q) \<Rightarrow> Some (Inr (s\<lparr>queue := q, pcs := (pcs s)(t := c)\<rparr>))))"

fun sys_run :: "'v action list \<Rightarrow> 'v system \<Rightarrow> (fault + 'v system) option" where
  "sys_run [] s = Some (Inr s)"
| "sys_run (a # as) s =
     (case sys_step a s of
        None \<Rightarrow> None
      | Some (Inl e) \<Rightarrow> Some (Inl e)
      | Some (Inr s) \<Rightarrow> sys_run as s)"

definition idle_system :: "nat \<Rightarrow> 'v \<Rightarrow> 'v system" where
  "idle_system a junk = \<lparr>queue = new_queue a junk, pcs = (\<lambda>_. Idle)\<rparr>"

section \<open>The list a queue holds\<close>

fun linked :: "(nat \<Rightarrow> 'v FreeQueueNode option) \<Rightarrow> nat list \<Rightarrow> bool" where
  "linked h [] = True"
| "linked h [a] = (\<exists>nd. h a = Some nd \<and> node_next nd = None)"
| "linked h (a # b # ns) = ((\<exists>nd. h a = Some nd \<and> node_next nd = Some b) \<and> linked h (b # ns))"

definition nodes_of :: "'v FreeQueue \<Rightarrow> nat list \<Rightarrow> bool" where
  "nodes_of q ns \<longleftrightarrow> distinct (pHead q # ns) \<and> linked (heap q) (pHead q # ns)"

definition values_of :: "'v FreeQueue \<Rightarrow> nat list \<Rightarrow> 'v list" where
  "values_of q ns = map (\<lambda>n. node_data (the (heap q n))) ns"

definition holds :: "'v FreeQueue \<Rightarrow> 'v list \<Rightarrow> bool" where
  "holds q vs \<longleftrightarrow> (\<exists>ns. nodes_of q ns \<and> pTail q = last (pHead q # ns) \<and> vs = values_of q ns)"

lemma linked_cong: "(\<And>a. a \<in> set ns \<Longrightarrow> h' a = h a) \<Longrightarrow> linked h' ns = linked h ns"
  by (induction ns rule: induct_list012) auto

lemma linked_Some: "linked h ns \<Longrightarrow> a \<in> set ns \<Longrightarrow> h a \<noteq> None"
  by (induction ns rule: induct_list012) auto

lemma linked_last: "linked h ns \<Longrightarrow> ns \<noteq> [] \<Longrightarrow> \<exists>nd. h (last ns) = Some nd \<and> node_next nd = None"
  by (induction ns rule: induct_list012) auto

lemma linked_inner:
  "linked h ns \<Longrightarrow> distinct ns \<Longrightarrow> a \<in> set ns \<Longrightarrow> h a = Some nd \<Longrightarrow> node_next nd = None \<longleftrightarrow> a = last ns"
  by (induction ns rule: induct_list012) auto

lemma linked_snoc:
  assumes "linked h ns" and "distinct ns" and "ns \<noteq> []" and "n \<notin> set ns"
    and "h (last ns) = Some nd" and "h n = Some nn" and "node_next nn = None"
  shows "linked (h(last ns \<mapsto> nd\<lparr>node_next := Some n\<rparr>)) (ns @ [n])"
  using assms
proof (induction ns rule: induct_list012)
  case (3 a b ns)
  have "a \<noteq> last (b # ns)" using "3.prems"(2) by auto
  then show ?case using 3 by auto
qed auto

lemma linked_drop:
  assumes "linked h (a # b # ns)" and "distinct (a # b # ns)" and "h a = Some nd" and "h b = Some nb"
  shows "linked (h(a \<mapsto> nd\<lparr>node_next := node_next nb\<rparr>)) (a # ns)"
proof (cases ns)
  case Nil
  then show ?thesis using assms by simp
next
  case (Cons c cs)
  then have "linked (h(a \<mapsto> nd\<lparr>node_next := node_next nb\<rparr>)) (c # cs) = linked h (c # cs)"
    using assms(2) by (intro linked_cong) auto
  then show ?thesis using assms Cons by auto
qed

section \<open>One thread at a time\<close>

text \<open>
  The contract of a queue whose elements bring their own memory, and what follows from it
  for a sequence of calls. \<open>free q a\<close> is that the memory \<open>a\<close> is not in use.
\<close>

datatype ('a, 'v) queue_call = CallPush 'a 'v | CallPop

fun pushes :: "('a, 'v) queue_call list \<Rightarrow> 'a list" where
  "pushes [] = []"
| "pushes (CallPush a v # cs) = a # pushes cs"
| "pushes (CallPop # cs) = pushes cs"

fun fifo_results :: "('a, 'v) queue_call list \<Rightarrow> 'v list \<Rightarrow> 'v option list \<times> 'v list" where
  "fifo_results [] vs = ([], vs)"
| "fifo_results (CallPush a v # cs) vs = fifo_results cs (vs @ [v])"
| "fifo_results (CallPop # cs) [] = (case fifo_results cs [] of (rs, vs) \<Rightarrow> (None # rs, vs))"
| "fifo_results (CallPop # cs) (v # vs) = (case fifo_results cs vs of (rs, vs) \<Rightarrow> (Some v # rs, vs))"

fun run_calls ::
  "('a \<Rightarrow> 'v \<Rightarrow> 'q \<Rightarrow> 'q option) \<Rightarrow> ('q \<Rightarrow> ('v option \<times> 'q) option) \<Rightarrow> ('a, 'v) queue_call list \<Rightarrow>
   'q \<Rightarrow> ('v option list \<times> 'q) option" where
  "run_calls push pop [] q = Some ([], q)"
| "run_calls push pop (CallPush a v # cs) q =
     (case push a v q of None \<Rightarrow> None | Some q \<Rightarrow> run_calls push pop cs q)"
| "run_calls push pop (CallPop # cs) q =
     (case pop q of
        None \<Rightarrow> None
      | Some (r, q) \<Rightarrow> map_option (\<lambda>(rs, q). (r # rs, q)) (run_calls push pop cs q))"

locale fifo_queue =
  fixes contents :: "'q \<Rightarrow> 'v list \<Rightarrow> bool"
    and free :: "'q \<Rightarrow> 'a \<Rightarrow> bool"
    and push :: "'a \<Rightarrow> 'v \<Rightarrow> 'q \<Rightarrow> 'q option"
    and pop :: "'q \<Rightarrow> ('v option \<times> 'q) option"
  assumes push_law: "contents q vs \<Longrightarrow> free q a \<Longrightarrow>
      \<exists>q'. push a v q = Some q' \<and> contents q' (vs @ [v]) \<and> (\<forall>b. b \<noteq> a \<longrightarrow> free q b \<longrightarrow> free q' b)"
    and pop_law: "contents q vs \<Longrightarrow>
      \<exists>q'. pop q = Some (case vs of [] \<Rightarrow> None | v # _ \<Rightarrow> Some v, q') \<and> contents q' (tl vs) \<and>
        (\<forall>b. free q b \<longrightarrow> free q' b)"
begin

lemma calls_fifo:
  assumes "contents q vs" and "distinct (pushes cs)" and "list_all (free q) (pushes cs)"
  shows "\<exists>q'. run_calls push pop cs q = Some (fst (fifo_results cs vs), q') \<and> contents q' (snd (fifo_results cs vs))"
  using assms
proof (induction cs vs arbitrary: q rule: fifo_results.induct)
  case (2 a v cs vs)
  obtain q' where "push a v q = Some q'" "contents q' (vs @ [v])" "\<forall>b. b \<noteq> a \<longrightarrow> free q b \<longrightarrow> free q' b"
    using push_law [OF "2.prems"(1), of a v] "2.prems"(3) by auto
  moreover from this have "list_all (free q') (pushes cs)"
    using "2.prems"(2,3) by (auto simp: list.pred_set)
  ultimately show ?case using "2.IH" [of q'] "2.prems"(2) by auto
next
  case (3 cs)
  obtain q' where "pop q = Some (None, q')" "contents q' []" "\<forall>b. free q b \<longrightarrow> free q' b"
    using pop_law [OF "3.prems"(1)] by auto
  moreover from this have "list_all (free q') (pushes cs)" using "3.prems"(3) by (auto simp: list.pred_set)
  ultimately show ?case using "3.IH" [of q'] "3.prems"(2) by (auto split: prod.splits)
next
  case (4 cs v vs)
  obtain q' where "pop q = Some (Some v, q')" "contents q' vs" "\<forall>b. free q b \<longrightarrow> free q' b"
    using pop_law [OF "4.prems"(1)] by auto
  moreover from this have "list_all (free q') (pushes cs)" using "4.prems"(3) by (auto simp: list.pred_set)
  ultimately show ?case using "4.IH" [of q'] "4.prems"(2) by (auto split: prod.splits)
qed simp

end

lemma run_pc_step: "\<not> finished c \<Longrightarrow> pc_step c q = Inr (c', q') \<Longrightarrow> run_pc (Suc k) c q = run_pc k c' q'"
  by (subst run_pc.simps) simp

lemma run_pc_finished: "finished c \<Longrightarrow> run_pc k c q = Some (Inr (c, q))"
  by (subst run_pc.simps) simp

lemma Push_spec:
  assumes "holds q vs" and "heap q n = None"
  shows "\<exists>q'. Push 3 n v q = Some q' \<and> holds q' (vs @ [v]) \<and> (\<forall>b. b \<noteq> n \<longrightarrow> heap q b = None \<longrightarrow> heap q' b = None)"
proof -
  obtain ns where ns: "nodes_of q ns" "pTail q = last (pHead q # ns)" "vs = values_of q ns"
    using assms(1) by (auto simp: holds_def)
  let ?l = "pHead q # ns" and ?p = "pTail q" and ?nn = "\<lparr>node_data = v, node_next = None\<rparr>"
  have d: "distinct ?l" and lk: "linked (heap q) ?l" using ns(1) by (auto simp: nodes_of_def)
  obtain nd where nd: "heap q ?p = Some nd" "node_next nd = None" using linked_last [OF lk] ns(2) by auto
  have fresh: "n \<notin> set ?l" using linked_Some [OF lk] assms(2) by blast
  let ?h = "(heap q)(n \<mapsto> ?nn)"
  let ?h' = "?h(?p \<mapsto> nd\<lparr>node_next := Some n\<rparr>)"
  let ?q' = "q\<lparr>heap := ?h', pTail := n\<rparr>"
  have np: "?p \<noteq> n" using fresh ns(2) by (metis last_in_set list.distinct(1))
  have r: "Push 3 n v q = Some ?q'"
  proof -
    have c: "cas_next ?p None (Some n) (q\<lparr>heap := ?h\<rparr>) = Inr (True, q\<lparr>heap := ?h'\<rparr>)"
      using nd np by (simp add: cas_next_def)
    have "run_pc 3 (PushRead n) (q\<lparr>heap := ?h\<rparr>) = Some (Inr (Pushed n, ?q'))"
      by (simp add: numeral_3_eq_3 run_pc_step run_pc_finished c cas_tail_def)
    then show ?thesis by (simp add: Push_def begin_push_def)
  qed
  have "linked ?h ?l = linked (heap q) ?l" using fresh by (intro linked_cong) auto
  then have "linked ?h' (?l @ [n])"
    using linked_snoc [of ?h ?l n nd ?nn] d lk fresh nd np ns(2) by simp
  then have nodes: "nodes_of ?q' (ns @ [n])" using d fresh by (simp add: nodes_of_def)
  have "values_of ?q' ns = values_of q ns"
    unfolding values_of_def using fresh nd ns(2) by (auto intro!: map_cong)
  then have "values_of ?q' (ns @ [n]) = vs @ [v]" using np ns(3) by (simp add: values_of_def)
  then have "holds ?q' (vs @ [v])" using nodes unfolding holds_def by (intro exI [of _ "ns @ [n]"]) simp
  then show ?thesis using r nd by auto
qed

lemma Pop_spec:
  assumes "holds q vs"
  shows "\<exists>q'. Pop 6 q = Some (case vs of [] \<Rightarrow> None | v # _ \<Rightarrow> Some v, q') \<and> holds q' (tl vs) \<and>
    (\<forall>b. heap q b = None \<longrightarrow> heap q' b = None)"
proof -
  obtain ns where ns: "nodes_of q ns" "pTail q = last (pHead q # ns)" "vs = values_of q ns"
    using assms(1) by (auto simp: holds_def)
  have d: "distinct (pHead q # ns)" and lk: "linked (heap q) (pHead q # ns)" using ns(1) by (auto simp: nodes_of_def)
  obtain hd_nd where h: "heap q (pHead q) = Some hd_nd" using linked_Some [OF lk] by fastforce
  show ?thesis
  proof (cases ns)
    case Nil
    then have "node_next hd_nd = None" using lk h by simp
    then have "Pop 6 q = Some (None, q)"
      using h by (simp add: Pop_def eval_nat_numeral run_pc_step run_pc_finished read_next_def)
    then show ?thesis using assms ns(3) Nil by (simp add: values_of_def)
  next
    case (Cons p ps)
    obtain nd where nd: "heap q p = Some nd" using linked_Some [OF lk] Cons by fastforce
    have hn: "node_next hd_nd = Some p" and pn: "pHead q \<noteq> p" using lk h d Cons by auto
    let ?h = "(heap q)(pHead q \<mapsto> hd_nd\<lparr>node_next := node_next nd\<rparr>)"
    let ?q1 = "q\<lparr>heap := ?h\<rparr>"
    let ?q' = "?q1\<lparr>heap := ?h(p := None), pTail := (if ps = [] then pHead q else pTail q)\<rparr>"
    have last: "node_next nd = None \<longleftrightarrow> ps = []"
      using linked_inner [OF lk d, of p nd] nd d Cons by (auto split: if_splits)
    have c: "cas_next (pHead q) (Some p) (node_next nd) q = Inr (True, ?q1)" using h hn by (simp add: cas_next_def)
    have r: "Pop 6 q = Some (Some (node_data nd), ?q')"
    proof (cases "ps = []")
      case True
      then show ?thesis using h hn nd pn c last ns(2) Cons
        by (simp add: Pop_def eval_nat_numeral run_pc_step run_pc_finished read_next_def cas_tail_def)
    next
      case False
      then obtain y where "node_next nd = Some y" using last by auto
      then show ?thesis using False h hn nd pn c
        by (simp add: Pop_def eval_nat_numeral run_pc_step run_pc_finished read_next_def)
    qed
    have "linked ?h (pHead q # ps)" using linked_drop [of "heap q" "pHead q" p ps hd_nd nd] lk d h nd Cons by simp
    then have "linked (?h(p := None)) (pHead q # ps)"
      using d Cons by (subst linked_cong [of _ _ ?h]) auto
    then have "nodes_of ?q' ps" using d Cons by (simp add: nodes_of_def)
    moreover have "values_of ?q' ps = tl vs"
      unfolding values_of_def ns(3) using d Cons by (auto simp: values_of_def intro!: map_cong)
    moreover have "pTail ?q' = last (pHead q # ps)" using ns(2) Cons by simp
    ultimately have "holds ?q' (tl vs)" unfolding holds_def by (intro exI [of _ ps]) simp
    moreover have "(case vs of [] \<Rightarrow> None | v # _ \<Rightarrow> Some v) = Some (node_data nd)"
      using ns(3) nd Cons by (simp add: values_of_def)
    moreover have "heap ?q' b = None" if "heap q b = None" for b using that h by auto
    ultimately show ?thesis using r by (intro exI [of _ ?q']) simp
  qed
qed

interpretation fq: fifo_queue holds "\<lambda>q n. heap q n = None" "Push 3" "Pop 6"
  by unfold_locales (rule Push_spec, assumption+, rule Pop_spec, assumption)

text \<open>
  C30: Used by one thread, the queue is first in first out: for any sequence of calls, each
  push with a node of its own, every call ends within six steps, no freed node is touched,
  and the results and the final contents are those of a list that is extended at its end
  and shortened at its front.
\<close>

theorem free_queue_sequential:
  assumes "holds q vs" and "distinct (pushes cs)" and "list_all (\<lambda>n. heap q n = None) (pushes cs)"
  shows "\<exists>q'. run_calls (Push 3) (Pop 6) cs q = Some (fst (fifo_results cs vs), q') \<and>
    holds q' (snd (fifo_results cs vs))"
  by (rule fq.calls_fifo [OF assms])

lemma new_queue_empty: "holds (new_queue a junk) []"
  by (auto simp: holds_def nodes_of_def new_queue_def values_of_def)

lemma free_queue_sequential_witness:
  "\<exists>q'. run_calls (Push 3) (Pop 6) [CallPush 1 ''a'', CallPush 2 ''b'', CallPop, CallPop, CallPop] (new_queue 0 '''') =
     Some ([Some ''a'', Some ''b'', None], q') \<and> holds q' []"
  using free_queue_sequential [OF new_queue_empty, of "[CallPush 1 ''a'', CallPush 2 ''b'', CallPop, CallPop, CallPop]" 0 "''''"]
  by (simp add: new_queue_def)

section \<open>Many threads that only push\<close>

text \<open>
  Threads begin pushes and take steps in any order. The tail pointer may lag behind by one
  node while the thread that linked it has not moved it yet; everyone else spins meanwhile.
\<close>

definition push_action :: "'v action \<Rightarrow> bool" where
  "push_action a = (case a of BeginPop _ \<Rightarrow> False | _ \<Rightarrow> True)"

inductive pushing :: "'v system \<Rightarrow> bool" where
  start: "holds (queue s) vs \<Longrightarrow> \<forall>t. pcs s t = Idle \<Longrightarrow> pushing s"
| step: "pushing s \<Longrightarrow> push_action a \<Longrightarrow> sys_step a s = Some (Inr s') \<Longrightarrow> pushing s'"

text \<open>The node a thread has filled but not linked.\<close>

fun own_node :: "'v pc \<Rightarrow> nat option" where
  "own_node (PushRead n) = Some n"
| "own_node (PushCas n p) = Some n"
| "own_node _ = None"

fun push_pc :: "'v pc \<Rightarrow> bool" where
  "push_pc Idle = True"
| "push_pc (PushRead _) = True"
| "push_pc (PushCas _ _) = True"
| "push_pc (PushTail _ _) = True"
| "push_pc (Pushed _) = True"
| "push_pc _ = False"

definition tail_ok :: "'v FreeQueue \<Rightarrow> (nat \<Rightarrow> 'v pc) \<Rightarrow> nat list \<Rightarrow> bool" where
  "tail_ok q c ns \<longleftrightarrow>
     pTail q = last (pHead q # ns) \<and> (\<forall>t n p. c t \<noteq> PushTail n p) \<or>
     ns \<noteq> [] \<and> pTail q = last (pHead q # butlast ns) \<and>
       (\<exists>t. c t = PushTail (last ns) (pTail q) \<and> (\<forall>t' n p. c t' = PushTail n p \<longrightarrow> t' = t))"

definition push_inv :: "'v FreeQueue \<Rightarrow> (nat \<Rightarrow> 'v pc) \<Rightarrow> nat list \<Rightarrow> bool" where
  "push_inv q c ns \<longleftrightarrow> nodes_of q ns \<and> tail_ok q c ns \<and> (\<forall>t. push_pc (c t)) \<and>
     (\<forall>t n. own_node (c t) = Some n \<longrightarrow>
        n \<notin> set (pHead q # ns) \<and> (\<exists>nd. heap q n = Some nd \<and> node_next nd = None)) \<and>
     (\<forall>t n p. c t = PushCas n p \<longrightarrow> p \<in> set (pHead q # ns) \<and> (p = last (pHead q # ns) \<longrightarrow> p = pTail q)) \<and>
     (\<forall>t t' n. own_node (c t) = Some n \<longrightarrow> own_node (c t') = Some n \<longrightarrow> t = t')"

text \<open>What a step does to the list: nothing, or the new node at its end.\<close>

definition appends :: "'v pc \<Rightarrow> 'v pc \<Rightarrow> 'v FreeQueue \<Rightarrow> nat list \<Rightarrow> 'v FreeQueue \<Rightarrow> nat list \<Rightarrow> bool" where
  "appends c c' q ns q' ns' \<longleftrightarrow>
     ns' = ns \<and> values_of q' ns' = values_of q ns \<and> (\<forall>n p. c = PushCas n p \<longrightarrow> c' = PushRead n) \<or>
     (\<exists>n p. c = PushCas n p \<and> c' = PushTail n p \<and> ns' = ns @ [n] \<and>
        values_of q' ns' = values_of q ns @ [node_data (the (heap q n))])"

lemma tail_ok_cong:
  assumes "\<And>t n p. c' t = PushTail n p \<longleftrightarrow> c t = PushTail n p" and "pTail q' = pTail q" and "pHead q' = pHead q"
  shows "tail_ok q' c' ns = tail_ok q c ns"
  using assms by (simp add: tail_ok_def)

lemma begin_push_inv:
  assumes "push_inv q c ns" and "heap q n = None" and "finished (c t)" and "begin_push v n q = (c', q')"
  shows "push_inv q' (c(t := c')) ns \<and> values_of q' ns = values_of q ns"
proof -
  have q': "q' = q\<lparr>heap := (heap q)(n \<mapsto> \<lparr>node_data = v, node_next = None\<rparr>)\<rparr>" and c': "c' = PushRead n"
    using assms(4) by (simp_all add: begin_push_def)
  have lk: "linked (heap q) (pHead q # ns)" using assms(1) by (simp add: push_inv_def nodes_of_def)
  have fresh: "n \<notin> set (pHead q # ns)" using linked_Some [OF lk] assms(2) by blast
  then have "linked (heap q') (pHead q # ns)" using lk q' by (subst linked_cong [of _ _ "heap q"]) auto
  then have "nodes_of q' ns" using assms(1) q' by (simp add: push_inv_def nodes_of_def)
  moreover have "values_of q' ns = values_of q ns" using fresh q' by (auto simp: values_of_def)
  moreover have "tail_ok q' (c(t := c')) ns"
  proof -
    have "c t \<noteq> PushTail a b" for a b using assms(3) by auto
    then have "tail_ok q' (c(t := c')) ns = tail_ok q c ns" using q' c' by (intro tail_ok_cong) auto
    then show ?thesis using assms(1) by (simp add: push_inv_def)
  qed
  moreover have "own_node (c t') \<noteq> Some n" for t' using assms(1,2) unfolding push_inv_def by fastforce
  ultimately show ?thesis using assms(1) fresh q' c' unfolding push_inv_def by auto
qed

lemma push_invI:
  assumes "nodes_of q ns" and "tail_ok q c ns" and "\<And>t. push_pc (c t)"
    and "\<And>t n. own_node (c t) = Some n \<Longrightarrow> n \<notin> set (pHead q # ns) \<and> (\<exists>nd. heap q n = Some nd \<and> node_next nd = None)"
    and "\<And>t n p. c t = PushCas n p \<Longrightarrow> p \<in> set (pHead q # ns) \<and> (p = last (pHead q # ns) \<longrightarrow> p = pTail q)"
    and "\<And>t t' n. own_node (c t) = Some n \<Longrightarrow> own_node (c t') = Some n \<Longrightarrow> t = t'"
  shows "push_inv q c ns"
  unfolding push_inv_def using assms by blast

lemma push_invD: "push_inv q c ns \<Longrightarrow> nodes_of q ns"
  by (simp add: push_inv_def)

lemma push_step_inv:
  assumes inv: "push_inv q c ns" and busy: "\<not> finished (c t)"
  shows "\<exists>c' q' ns'. pc_step (c t) q = Inr (c', q') \<and> push_inv q' (c(t := c')) ns' \<and> appends (c t) c' q ns q' ns'"
proof -
  have nodes: "nodes_of q ns" and tail: "tail_ok q c ns" and pcs: "\<forall>t. push_pc (c t)"
    and own: "\<And>t n. own_node (c t) = Some n \<Longrightarrow> n \<notin> set (pHead q # ns) \<and> (\<exists>nd. heap q n = Some nd \<and> node_next nd = None)"
    and cas: "\<And>t n p. c t = PushCas n p \<Longrightarrow> p \<in> set (pHead q # ns) \<and> (p = last (pHead q # ns) \<longrightarrow> p = pTail q)"
    and uniq: "\<And>t t' n. own_node (c t) = Some n \<Longrightarrow> own_node (c t') = Some n \<Longrightarrow> t = t'"
    using inv by (auto simp: push_inv_def)
  have d: "distinct (pHead q # ns)" and lk: "linked (heap q) (pHead q # ns)" using nodes by (auto simp: nodes_of_def)
  consider (read) n where "c t = PushRead n" | (cas) n p where "c t = PushCas n p" | (tail) n p where "c t = PushTail n p"
    using busy pcs by (cases "c t") (auto dest: spec [of _ t])
  then show ?thesis
  proof cases
    case read
    have "pTail q \<in> set (pHead q # ns)"
      using tail last_in_set [of "pHead q # ns"] last_in_set [of "pHead q # butlast ns"] in_set_butlastD [of _ ns]
      unfolding tail_ok_def by (metis list.distinct(1) set_ConsD list.set_intros)
    moreover have "tail_ok q (c(t := PushCas n (pTail q))) ns"
      using tail read by (subst tail_ok_cong [of _ c _ q]) auto
    ultimately have "push_inv q (c(t := PushCas n (pTail q))) ns"
      using nodes pcs own [of t] own cas uniq read unfolding push_inv_def by (auto dest: uniq [of t])
    then show ?thesis using read by (auto simp: appends_def)
  next
    case cas
    have p: "p \<in> set (pHead q # ns)" "p = last (pHead q # ns) \<Longrightarrow> p = pTail q" using assms(1) cas unfolding push_inv_def by blast+
    obtain nd where nd: "heap q p = Some nd" using linked_Some [OF lk p(1)] by blast
    obtain nn where nn: "heap q n = Some nn" "node_next nn = None" and n: "n \<notin> set (pHead q # ns)"
      using own [of t n] cas by auto
    show ?thesis
    proof (cases "node_next nd = None")
      case False
      then have "pc_step (c t) q = Inr (PushRead n, q)" using cas nd by (simp add: cas_next_def)
      moreover have "push_inv q (c(t := PushRead n)) ns"
      proof -
        have "tail_ok q (c(t := PushRead n)) ns" using tail cas by (subst tail_ok_cong [of _ c _ q]) auto
        then show ?thesis using inv cas unfolding push_inv_def by (auto split: if_splits; metis own_node.simps(2))
      qed
      ultimately show ?thesis using cas by (auto simp: appends_def)
    next
      case True
      then have pl: "p = last (pHead q # ns)" using linked_inner [OF lk d p(1) nd] by simp
      then have pt: "pTail q = p" using p(2) by simp
      let ?q' = "q\<lparr>heap := (heap q)(p \<mapsto> nd\<lparr>node_next := Some n\<rparr>)\<rparr>" and ?c = "c(t := PushTail n p)"
      have st: "pc_step (c t) q = Inr (PushTail n p, ?q')" using cas nd True by (simp add: cas_next_def)
      have np: "n \<noteq> p" using n p(1) by blast
      have nodes': "nodes_of ?q' (ns @ [n])"
        using linked_snoc [OF lk d _ n, of nd nn] nd nn pl d n by (simp add: nodes_of_def)
      have none: "c t' \<noteq> PushTail a b" for t' a b
      proof -
        have "\<not> (ns \<noteq> [] \<and> pTail q = last (pHead q # butlast ns))"
        proof (rule notI)
          assume l: "ns \<noteq> [] \<and> pTail q = last (pHead q # butlast ns)"
          then obtain ms m where ms: "ns = ms @ [m]" by (metis append_butlast_last_id)
          then have "last (pHead q # ms) = m" using l pt pl by (simp split: if_splits)
          moreover have "last (pHead q # ms) \<in> set (pHead q # ms)" by (rule last_in_set) simp
          ultimately show False using d ms by auto
        qed
        then show ?thesis using tail unfolding tail_ok_def by blast
      qed
      have "tail_ok ?q' ?c (ns @ [n])"
        unfolding tail_ok_def using pt pl none by (intro disjI2) auto
      moreover have "values_of ?q' (ns @ [n]) = values_of q ns @ [node_data (the (heap q n))]"
        using nd np by (auto simp: values_of_def)
      moreover have "push_inv ?q' ?c (ns @ [n])"
      proof -
        have o: "n' \<notin> set (pHead q # ns @ [n]) \<and> (\<exists>nd. heap ?q' n' = Some nd \<and> node_next nd = None)"
          if "own_node (?c t') = Some n'" for t' n'
        proof -
          have "t' \<noteq> t" "own_node (c t') = Some n'" using that by (auto split: if_splits)
          then have "n' \<noteq> n" using uniq [of t' n' t] cas by auto
          moreover have "n' \<noteq> p" using own [OF \<open>own_node (c t') = Some n'\<close>] p(1) by blast
          ultimately show ?thesis using own [OF \<open>own_node (c t') = Some n'\<close>] by simp
        qed
        have k: "p' \<in> set (pHead q # ns @ [n]) \<and> (p' = n \<longrightarrow> p' = pTail q)" if "?c t' = PushCas n' p'" for t' n' p'
        proof -
          have "c t' = PushCas n' p'" using that by (auto split: if_splits)
          then have "p' \<in> set (pHead q # ns)" using inv unfolding push_inv_def by blast
          then show ?thesis using n by auto
        qed
        have u: "t1 = t2" if "own_node (?c t1) = Some n'" "own_node (?c t2) = Some n'" for t1 t2 n'
          using that uniq by (auto split: if_splits)
        show ?thesis
        proof (rule push_invI)
          have ph: "pHead ?q' = pHead q" by simp
          show "push_pc (?c t')" for t' using pcs by simp
          show "n' \<notin> set (pHead ?q' # ns @ [n]) \<and> (\<exists>nd. heap ?q' n' = Some nd \<and> node_next nd = None)"
            if "own_node (?c t') = Some n'" for t' n'
            unfolding ph by (rule o [OF that])
          show "p' \<in> set (pHead ?q' # ns @ [n]) \<and> (p' = last (pHead ?q' # ns @ [n]) \<longrightarrow> p' = pTail ?q')"
            if "?c t' = PushCas n' p'" for t' n' p'
            using k [OF that] by simp
        qed (fact nodes' \<open>tail_ok ?q' ?c (ns @ [n])\<close> | rule u)+
      qed
      ultimately show ?thesis using st cas unfolding appends_def by blast
    qed
  next
    case tail: (tail n p)
    have lag: "ns \<noteq> []" "p = pTail q" "n = last ns" "\<And>t' a b. c t' = PushTail a b \<Longrightarrow> t' = t"
      using \<open>tail_ok q c ns\<close> tail unfolding tail_ok_def by (metis pc.inject(3))+
    let ?q' = "q\<lparr>pTail := n\<rparr>" and ?c = "c(t := Pushed n)"
    have st: "pc_step (c t) q = Inr (Pushed n, ?q')" using tail lag(2) by (simp add: cas_tail_def)
    have "nodes_of ?q' ns" "values_of ?q' ns = values_of q ns" using nodes by (simp_all add: nodes_of_def values_of_def)
    moreover have "tail_ok ?q' ?c ns" unfolding tail_ok_def using lag by auto
    moreover have "push_inv ?q' ?c ns"
      unfolding push_inv_def using calculation pcs own cas uniq lag by (auto split: if_splits)
    ultimately show ?thesis using st tail by (auto simp: appends_def)
  qed
qed

lemma pushing_inv: "pushing s \<Longrightarrow> \<exists>ns. push_inv (queue s) (pcs s) ns"
proof (induction rule: pushing.induct)
  case (start s vs)
  then obtain ns where "nodes_of (queue s) ns" "pTail (queue s) = last (pHead (queue s) # ns)"
    by (auto simp: holds_def)
  then have "push_inv (queue s) (pcs s) ns"
    using start(2) by (intro push_invI) (simp_all add: tail_ok_def)
  then show ?case ..
next
  case (step s a s')
  then obtain ns where ns: "push_inv (queue s) (pcs s) ns" by blast
  show ?case
  proof (cases a)
    case (BeginPush t v n)
    then have "finished (pcs s t)" "heap (queue s) n = None" using step.hyps(3) by (simp_all add: sys_step_def split: if_splits)
    moreover obtain c' q' where b: "begin_push v n (queue s) = (c', q')" by (cases "begin_push v n (queue s)")
    ultimately have "push_inv q' ((pcs s)(t := c')) ns" "s' = s\<lparr>queue := q', pcs := (pcs s)(t := c')\<rparr>"
      using begin_push_inv [OF ns] step.hyps(3) BeginPush by (auto simp: sys_step_def)
    then have "push_inv (queue s') (pcs s') ns" by (simp del: fun_upd_apply)
    then show ?thesis ..
  next
    case (Step t)
    then have busy: "\<not> finished (pcs s t)" using step.hyps(3) by (simp add: sys_step_def split: if_splits)
    obtain c' q' ns' where "pc_step (pcs s t) (queue s) = Inr (c', q')" "push_inv q' ((pcs s)(t := c')) ns'"
      using push_step_inv [OF ns busy] by blast
    then have "push_inv (queue s') (pcs s') ns'"
      using step.hyps(3) Step busy by (auto simp: sys_step_def simp del: fun_upd_apply)
    then show ?thesis ..
  qed (use step.hyps(2) in \<open>simp add: push_action_def\<close>)
qed

text \<open>
  Any number of threads may push at the same time, their steps interleaved in any way:
  no step faults, the list stays well formed, and its values change in one place only, when
  the compare-and-swap of a push succeeds, which puts that thread's value behind all the
  others. When no push is under way the tail pointer is the last node again.
\<close>

theorem free_queue_pushes:
  assumes "pushing s" and "push_action a" and "sys_step a s = Some r"
  shows "\<exists>s' ns ns'. r = Inr s' \<and> nodes_of (queue s) ns \<and> nodes_of (queue s') ns' \<and>
    (values_of (queue s') ns' = values_of (queue s) ns \<or>
     (\<exists>t n p. a = Step t \<and> pcs s t = PushCas n p \<and> pcs s' t = PushTail n p \<and>
        values_of (queue s') ns' = values_of (queue s) ns @ [node_data (the (heap (queue s) n))])) \<and>
    ((\<forall>t. finished (pcs s t)) \<longrightarrow> holds (queue s) (values_of (queue s) ns))"
proof -
  obtain ns where ns: "push_inv (queue s) (pcs s) ns" using pushing_inv [OF assms(1)] by blast
  have quiet: "holds (queue s) (values_of (queue s) ns)" if "\<forall>t. finished (pcs s t)"
  proof -
    have "pcs s t \<noteq> PushTail n p" for t n p using that by (metis finished.simps(6))
    then have "pTail (queue s) = last (pHead (queue s) # ns)" using ns unfolding push_inv_def tail_ok_def by blast
    then show ?thesis using ns unfolding holds_def push_inv_def by blast
  qed
  show ?thesis
  proof (cases a)
    case (BeginPush t v n)
    then have "finished (pcs s t)" "heap (queue s) n = None" using assms(3) by (simp_all add: sys_step_def split: if_splits)
    moreover obtain c' q' where b: "begin_push v n (queue s) = (c', q')" by (cases "begin_push v n (queue s)")
    ultimately have "nodes_of q' ns" "values_of q' ns = values_of (queue s) ns"
      "r = Inr (s\<lparr>queue := q', pcs := (pcs s)(t := c')\<rparr>)"
      using begin_push_inv [OF ns] assms(3) BeginPush by (auto simp: sys_step_def push_inv_def)
    moreover have "nodes_of (queue s) ns" using ns by (rule push_invD)
    ultimately show ?thesis using quiet
      by (intro exI [of _ "s\<lparr>queue := q', pcs := (pcs s)(t := c')\<rparr>"] exI [of _ ns] conjI impI) simp_all
  next
    case (Step t)
    then have busy: "\<not> finished (pcs s t)" using assms(3) by (simp add: sys_step_def split: if_splits)
    obtain c' q' ns' where st: "pc_step (pcs s t) (queue s) = Inr (c', q')" "push_inv q' ((pcs s)(t := c')) ns'"
      "appends (pcs s t) c' (queue s) ns q' ns'"
      using push_step_inv [OF ns busy] by blast
    have r: "r = Inr (s\<lparr>queue := q', pcs := (pcs s)(t := c')\<rparr>)" using assms(3) Step busy st(1) by (simp add: sys_step_def)
    have v: "values_of q' ns' = values_of (queue s) ns \<or>
        (\<exists>n p. pcs s t = PushCas n p \<and> c' = PushTail n p \<and>
          values_of q' ns' = values_of (queue s) ns @ [node_data (the (heap (queue s) n))])"
      using st(3) unfolding appends_def by blast
    define s2 where "s2 = s\<lparr>queue := q', pcs := (pcs s)(t := c')\<rparr>"
    have s2: "r = Inr s2" "queue s2 = q'" "pcs s2 t = c'" by (simp_all add: r s2_def)
    have nodes: "nodes_of (queue s) ns" "nodes_of (queue s2) ns'" using push_invD ns st(2) s2(2) by metis+
    have "values_of (queue s2) ns' = values_of (queue s) ns \<or>
     (\<exists>t n p. a = Step t \<and> pcs s t = PushCas n p \<and> pcs s2 t = PushTail n p \<and>
        values_of (queue s2) ns' = values_of (queue s) ns @ [node_data (the (heap (queue s) n))])"
      using v Step unfolding s2(2) s2(3) [symmetric] by blast
    then show ?thesis using s2(1) nodes quiet by blast
  qed (use assms(2) in \<open>simp add: push_action_def\<close>)
qed

lemma free_queue_pushes_witness:
  "\<exists>s'. sys_step (BeginPush 1 ''a'' 1) (idle_system 0 '''') = Some (Inr s') \<and> nodes_of (queue s') []"
proof -
  have "pushing (idle_system 0 '''')"
    by (rule pushing.start [of _ "[]"]) (simp_all add: idle_system_def new_queue_empty)
  moreover have st: "sys_step (BeginPush 1 ''a'' 1) (idle_system 0 '''') =
      Some (Inr (idle_system 0 '''' \<lparr>queue := snd (begin_push ''a'' 1 (new_queue 0 '''')),
        pcs := (\<lambda>_. Idle)(1 := PushRead 1)\<rparr>))"
    by (simp add: sys_step_def idle_system_def begin_push_def new_queue_def)
  ultimately have "\<exists>s'. Inr (idle_system 0 ''''\<lparr>queue := snd (begin_push ''a'' 1 (new_queue 0 '''')),
        pcs := (\<lambda>_. Idle)(1 := PushRead 1)\<rparr>) = (Inr s' :: fault + string system) \<and> (\<exists>ns'. nodes_of (queue s') ns')"
    using free_queue_pushes [OF _ _ st] unfolding push_action_def by (metis action.simps(10))
  then obtain ns' where "nodes_of (snd (begin_push ''a'' 1 (new_queue 0 ''''))) ns'" by auto
  then have "ns' = []" by (cases ns') (auto simp: nodes_of_def begin_push_def new_queue_def)
  then show ?thesis
    unfolding st by (simp add: nodes_of_def begin_push_def new_queue_def)
qed

section \<open>What does not work\<close>

text \<open>
  A pop that takes the last node while a push links behind it: the pop has read that the
  node has no successor, so it empties the list over the new node. Both calls return, and
  the value pushed is gone.
\<close>

definition lost_push :: "string action list" where
  "lost_push =
     [BeginPush 1 ''a'' 1, Step 1, Step 1, Step 1,
      BeginPop 2, Step 2, Step 2,
      BeginPush 1 ''b'' 2, Step 1, Step 1,
      Step 2, Step 2, Step 2, Step 2,
      Step 1]"

lemma push_during_pop_is_lost:
  "\<exists>s. sys_run lost_push (idle_system 0 '''') = Some (Inr s) \<and> pcs s 1 = Pushed 2 \<and>
     pcs s 2 = Popped (Some ''a'') \<and> holds (queue s) []"
proof -
  have "\<exists>s. sys_run lost_push (idle_system 0 '''') = Some (Inr s) \<and> pcs s 1 = Pushed 2 \<and>
     pcs s 2 = Popped (Some ''a'') \<and> pHead (queue s) = 0 \<and> pTail (queue s) = 0 \<and>
     map_option node_next (heap (queue s) 0) = Some None"
    by (simp add: lost_push_def sys_step_def idle_system_def new_queue_def begin_push_def cas_next_def
        cas_tail_def read_next_def)
  then show ?thesis by (auto simp: holds_def nodes_of_def values_of_def)
qed

text \<open>Two pops at once: the slower one reads the node that the faster one has freed.\<close>

lemma two_pops_use_freed_node:
  "sys_run [BeginPush 1 ''a'' 1, Step 1, Step 1, Step 1, BeginPop 2, Step 2, BeginPop 3, Step 3, Step 3, Step 3,
     Step 3, Step 3, Step 3, Step 2] (idle_system 0 '''') = Some (Inl UseAfterFree)"
  by (simp add: sys_step_def idle_system_def new_queue_def begin_push_def cas_next_def cas_tail_def read_next_def)

end
