(* ===== verification/Evbuffer.thy ===== *)
theory Evbuffer
  imports Prelude
begin

unbundle bit_operations_syntax

text \<open>
  The byte buffers of the event library (\<^verbatim>\<open>evbuffer\<close> of \<^verbatim>\<open>buffer.c\<close>), in which the
  connections of the program keep what arrives and what is to be sent: a linked list of chains
  of memory, each with its data somewhere in the middle.

  The list of chains is an Isabelle list; a pointer to the link of a chain (\<^verbatim>\<open>last_with_datap\<close>)
  is the position of that link, the length of the list being the null link at its end.
  \<^verbatim>\<open>buf->last\<close> is the last chain of the list. The chains here are the plain ones the program
  uses: no references to foreign memory, no files and no pinned chains, so the tests of those
  flags are left out. Sizes of memory that exists are numbers; the size computation of a new
  chain is done in 64 bits. The allocator is a parameter. Callbacks are recorded, with what
  they are told; what they do themselves is not part of the buffer.
  The assertions of the code state parts of the invariant below and are not repeated.
\<close>

section \<open>Data\<close>

record evbuffer_chain =
  buffer :: "byte list"
  misalign :: nat
  off :: nat

record evbuffer_cb_entry =
  cb_id :: nat
  cb_flags :: u32

datatype evbuffer_call = Told nat nat nat nat | ToldOld nat nat nat

record evbuffer =
  chains :: "evbuffer_chain list"
  last_with_datap :: nat
  total_len :: nat
  n_add_for_cb :: nat
  n_del_for_cb :: nat
  freeze_start :: bool
  freeze_end :: bool
  deferred_cbs :: bool
  deferred_queued :: bool
  callbacks :: "evbuffer_cb_entry list"
  calls :: "evbuffer_call list"

text \<open>A null link followed, a copy outside a chain, a loop without end.\<close>

datatype evbuffer_fault = NullChain | Overrun | Endless

definition EVBUFFER_CHAIN_SIZE :: nat where "EVBUFFER_CHAIN_SIZE = 48"
definition MIN_BUFFER_SIZE :: nat where "MIN_BUFFER_SIZE = 1024"
definition EVBUFFER_CHAIN_MAX_AUTO_SIZE :: nat where "EVBUFFER_CHAIN_MAX_AUTO_SIZE = 4096"
definition MAX_TO_REALIGN_IN_EXPAND :: nat where "MAX_TO_REALIGN_IN_EXPAND = 2048"
definition EVBUFFER_CB_ENABLED :: u32 where "EVBUFFER_CB_ENABLED = 1"
definition EVBUFFER_CB_NODEFER :: u32 where "EVBUFFER_CB_NODEFER = 2"
definition EVBUFFER_CB_OBSOLETE :: u32 where "EVBUFFER_CB_OBSOLETE = 0x00040000"

type_synonym allocator = "nat \<Rightarrow> byte list option"

definition evbuffer_new :: evbuffer where
  "evbuffer_new = \<lparr>chains = [], last_with_datap = 0, total_len = 0, n_add_for_cb = 0, n_del_for_cb = 0,
     freeze_start = False, freeze_end = False, deferred_cbs = False, deferred_queued = False,
     callbacks = [], calls = []\<rparr>"

section \<open>Chains\<close>

definition CHAIN_SPACE_LEN :: "evbuffer_chain \<Rightarrow> nat" where
  "CHAIN_SPACE_LEN ch = length (buffer ch) - (misalign ch + off ch)"

text \<open>The size of the allocation: doubled from the minimum, in \<^verbatim>\<open>size_t\<close>.\<close>

partial_function (option) to_alloc_loop :: "u64 \<Rightarrow> u64 \<Rightarrow> u64 option" where
  "to_alloc_loop to_alloc need =
     (if to_alloc < need then to_alloc_loop (push_bit 1 to_alloc) need else Some to_alloc)"

definition evbuffer_chain_new :: "allocator \<Rightarrow> nat \<Rightarrow> evbuffer_fault + evbuffer_chain option" where
  "evbuffer_chain_new mm datlen =
     (case to_alloc_loop (of_nat MIN_BUFFER_SIZE) (of_nat datlen + of_nat EVBUFFER_CHAIN_SIZE) of
        None \<Rightarrow> Inl Endless
      | Some to_alloc \<Rightarrow>
          Inr (map_option (\<lambda>bs. \<lparr>buffer = drop EVBUFFER_CHAIN_SIZE bs, misalign = 0, off = 0\<rparr>)
                 (mm (unat to_alloc))))"

text \<open>\<^verbatim>\<open>memcpy\<close> into and out of a chain.\<close>

definition chain_put :: "nat \<Rightarrow> byte list \<Rightarrow> evbuffer_chain \<Rightarrow> evbuffer_fault + evbuffer_chain" where
  "chain_put pos bs ch =
     (if pos + length bs \<le> length (buffer ch) then Inr (ch\<lparr>buffer := mem_put pos bs (buffer ch)\<rparr>)
      else Inl Overrun)"

definition chain_get :: "nat \<Rightarrow> nat \<Rightarrow> evbuffer_chain \<Rightarrow> evbuffer_fault + byte list" where
  "chain_get pos n ch =
     (if pos + n \<le> length (buffer ch) then Inr (mem_get pos n (buffer ch)) else Inl Overrun)"

definition evbuffer_chain_align :: "evbuffer_chain \<Rightarrow> evbuffer_chain" where
  "evbuffer_chain_align ch =
     ch\<lparr>buffer := mem_put 0 (mem_get (misalign ch) (off ch) (buffer ch)) (buffer ch), misalign := 0\<rparr>"

definition evbuffer_chain_should_realign :: "evbuffer_chain \<Rightarrow> nat \<Rightarrow> bool" where
  "evbuffer_chain_should_realign ch datlen \<longleftrightarrow>
     length (buffer ch) - off ch \<ge> datlen \<and> off ch < length (buffer ch) div 2 \<and>
     off ch \<le> MAX_TO_REALIGN_IN_EXPAND"

text \<open>The first chain from \<^verbatim>\<open>*last_with_datap\<close> on that is empty: what a new chain replaces.\<close>

definition first_victim :: "evbuffer \<Rightarrow> nat" where
  "first_victim buf =
     last_with_datap buf + length (takeWhile (\<lambda>ch. off ch \<noteq> 0) (drop (last_with_datap buf) (chains buf)))"

definition evbuffer_free_trailing_empty_chains :: "evbuffer \<Rightarrow> evbuffer" where
  "evbuffer_free_trailing_empty_chains buf = buf\<lparr>chains := take (first_victim buf) (chains buf)\<rparr>"

definition evbuffer_chain_insert :: "evbuffer_chain \<Rightarrow> evbuffer \<Rightarrow> evbuffer" where
  "evbuffer_chain_insert ch buf =
     (let buf =
        (if last_with_datap buf = length (chains buf) then buf\<lparr>chains := [ch]\<rparr>
         else if first_victim buf = length (chains buf) then
           buf\<lparr>chains := chains buf @ [ch],
               last_with_datap := (if off ch \<noteq> 0 then length (chains buf) else last_with_datap buf)\<rparr>
         else buf\<lparr>chains := take (first_victim buf) (chains buf) @ [ch]\<rparr>)
      in buf\<lparr>total_len := total_len buf + off ch\<rparr>)"

section \<open>Callbacks\<close>

definition cb_call :: "nat \<Rightarrow> nat \<Rightarrow> nat \<Rightarrow> nat \<Rightarrow> evbuffer_cb_entry \<Rightarrow> evbuffer_call" where
  "cb_call orig_size new_size n_added n_deleted ent =
     (if cb_flags ent AND EVBUFFER_CB_OBSOLETE \<noteq> 0 then ToldOld (cb_id ent) orig_size new_size
      else Told (cb_id ent) orig_size n_added n_deleted)"

definition evbuffer_run_callbacks :: "bool \<Rightarrow> evbuffer \<Rightarrow> evbuffer" where
  "evbuffer_run_callbacks running_deferred buf =
     (let mask = (if running_deferred \<or> deferred_cbs buf then EVBUFFER_CB_NODEFER OR EVBUFFER_CB_ENABLED
                  else EVBUFFER_CB_ENABLED);
          masked_val = (if \<not> running_deferred \<and> deferred_cbs buf
                        then EVBUFFER_CB_NODEFER OR EVBUFFER_CB_ENABLED else EVBUFFER_CB_ENABLED);
          clear = (running_deferred \<or> \<not> deferred_cbs buf)
      in
      if callbacks buf = [] then buf\<lparr>n_add_for_cb := 0, n_del_for_cb := 0\<rparr>
      else if n_add_for_cb buf = 0 \<and> n_del_for_cb buf = 0 then buf
      else
        let new_size = total_len buf;
            orig_size = new_size + n_del_for_cb buf - n_add_for_cb buf;
            told = map (cb_call orig_size new_size (n_add_for_cb buf) (n_del_for_cb buf))
                     (filter (\<lambda>ent. cb_flags ent AND mask = masked_val) (callbacks buf));
            buf = (if clear then buf\<lparr>n_add_for_cb := 0, n_del_for_cb := 0\<rparr> else buf)
        in buf\<lparr>calls := calls buf @ told\<rparr>)"

definition evbuffer_invoke_callbacks :: "evbuffer \<Rightarrow> evbuffer" where
  "evbuffer_invoke_callbacks buf =
     (if callbacks buf = [] then buf\<lparr>n_add_for_cb := 0, n_del_for_cb := 0\<rparr>
      else if deferred_cbs buf \<and> deferred_queued buf then buf
      else evbuffer_run_callbacks False (if deferred_cbs buf then buf\<lparr>deferred_queued := True\<rparr> else buf))"

definition evbuffer_deferred_callback :: "evbuffer \<Rightarrow> evbuffer" where
  "evbuffer_deferred_callback buf = evbuffer_run_callbacks True (buf\<lparr>deferred_queued := False\<rparr>)"

section \<open>Adding and removing bytes\<close>

text \<open>One partial step after another.\<close>

definition bindE :: "'e + 'a \<Rightarrow> ('a \<Rightarrow> 'e + 'b) \<Rightarrow> 'e + 'b" where
  "bindE m f = (case m of Inl e \<Rightarrow> Inl e | Inr x \<Rightarrow> f x)"

lemma bindE_simps [simp]: "bindE (Inr x) f = f x" "bindE (Inl e) f = Inl e"
  by (simp_all add: bindE_def)

text \<open>Both counters of bytes added.\<close>

definition count_added :: "nat \<Rightarrow> evbuffer \<Rightarrow> evbuffer" where
  "count_added n buf = buf\<lparr>total_len := total_len buf + n, n_add_for_cb := n_add_for_cb buf + n\<rparr>"

definition set_last :: "evbuffer_chain \<Rightarrow> evbuffer \<Rightarrow> evbuffer" where
  "set_last ch buf = buf\<lparr>chains := butlast (chains buf) @ [ch]\<rparr>"

text \<open>Bytes behind the data of the last chain.\<close>

definition append_last :: "byte list \<Rightarrow> evbuffer_chain \<Rightarrow> evbuffer \<Rightarrow> evbuffer_fault + evbuffer" where
  "append_last bs ch buf =
     bindE (chain_put (misalign ch + off ch) bs ch) (\<lambda>ch.
       Inr (count_added (length bs) (set_last (ch\<lparr>off := off ch + length bs\<rparr>) buf)))"

definition grow_size :: "evbuffer_chain \<Rightarrow> nat \<Rightarrow> nat" where
  "grow_size ch datlen =
     (let to_alloc = length (buffer ch);
          to_alloc = (if to_alloc \<le> EVBUFFER_CHAIN_MAX_AUTO_SIZE div 2 then 2 * to_alloc else to_alloc)
      in if datlen > to_alloc then datlen else to_alloc)"

text \<open>The part of \<^verbatim>\<open>evbuffer_add\<close> that needs another chain.\<close>

definition add_chain :: "allocator \<Rightarrow> byte list \<Rightarrow> evbuffer_chain \<Rightarrow> evbuffer \<Rightarrow> evbuffer_fault + int \<times> evbuffer" where
  "add_chain mm data ch buf =
     (let remain = length (buffer ch) - misalign ch - off ch in
      bindE (evbuffer_chain_new mm (grow_size ch (length data))) (\<lambda>new.
        case new of
          None \<Rightarrow> Inr (-1, buf)
        | Some tmp \<Rightarrow>
            bindE (if remain \<noteq> 0 then append_last (take remain data) ch buf else Inr buf) (\<lambda>buf.
            let rest = drop remain data in
            bindE (chain_put 0 rest tmp) (\<lambda>tmp.
            let buf = evbuffer_chain_insert (tmp\<lparr>off := length rest\<rparr>) buf;
                buf = buf\<lparr>n_add_for_cb := n_add_for_cb buf + length rest\<rparr>
            in Inr (0, evbuffer_invoke_callbacks buf)))))"

text \<open>\<open>Inr None\<close> is an allocation that failed.\<close>

definition ensure_chain :: "allocator \<Rightarrow> nat \<Rightarrow> evbuffer \<Rightarrow> evbuffer_fault + evbuffer option" where
  "ensure_chain mm datlen buf =
     (if chains buf = [] then
        bindE (evbuffer_chain_new mm datlen) (\<lambda>new. Inr (map_option (\<lambda>ch. evbuffer_chain_insert ch buf) new))
      else Inr (Some buf))"

definition evbuffer_add :: "allocator \<Rightarrow> byte list \<Rightarrow> evbuffer \<Rightarrow> evbuffer_fault + int \<times> evbuffer" where
  "evbuffer_add mm data buf =
     (if freeze_end buf then Inr (-1, buf)
      else bindE (ensure_chain mm (length data) buf) (\<lambda>b. case b of
        None \<Rightarrow> Inr (-1, buf)
      | Some buf \<Rightarrow>
          let ch = last (chains buf) in
          if length (buffer ch) - misalign ch - off ch \<ge> length data then
            bindE (append_last data ch buf) (\<lambda>buf. Inr (0, evbuffer_invoke_callbacks buf))
          else if evbuffer_chain_should_realign ch (length data) then
            bindE (append_last data (evbuffer_chain_align ch) buf) (\<lambda>buf. Inr (0, evbuffer_invoke_callbacks buf))
          else add_chain mm data ch buf))"

text \<open>Bytes in front of the data of the first chain.\<close>

definition prepend_first :: "byte list \<Rightarrow> evbuffer_chain \<Rightarrow> evbuffer \<Rightarrow> evbuffer_fault + evbuffer" where
  "prepend_first bs ch buf =
     bindE (chain_put (misalign ch - length bs) bs ch) (\<lambda>ch.
       Inr (count_added (length bs)
         (buf\<lparr>chains := ch\<lparr>off := off ch + length bs, misalign := misalign ch - length bs\<rparr> # tl (chains buf)\<rparr>)))"

definition prepend_chain :: "allocator \<Rightarrow> byte list \<Rightarrow> evbuffer \<Rightarrow> evbuffer_fault + int \<times> evbuffer" where
  "prepend_chain mm data buf =
     bindE (evbuffer_chain_new mm (length data)) (\<lambda>new. case new of
       None \<Rightarrow> Inr (-1, buf)
     | Some tmp \<Rightarrow>
         bindE (chain_put (length (buffer tmp) - length data) data tmp) (\<lambda>tmp.
         let tmp = tmp\<lparr>off := length data, misalign := length (buffer tmp) - length data\<rparr>;
             old = hd (chains buf);
             buf = buf\<lparr>chains := tmp # chains buf, last_with_datap := last_with_datap buf + 1,
                       total_len := total_len buf + length data,
                       n_add_for_cb := n_add_for_cb buf + misalign old\<rparr>
         in Inr (0, evbuffer_invoke_callbacks buf)))"

definition evbuffer_prepend :: "allocator \<Rightarrow> byte list \<Rightarrow> evbuffer \<Rightarrow> evbuffer_fault + int \<times> evbuffer" where
  "evbuffer_prepend mm data buf =
     (if freeze_start buf then Inr (-1, buf)
      else bindE (ensure_chain mm (length data) buf) (\<lambda>b. case b of
        None \<Rightarrow> Inr (-1, buf)
      | Some buf \<Rightarrow>
          let ch = hd (chains buf);
              ch = (if off ch = 0 then ch\<lparr>misalign := length (buffer ch)\<rparr> else ch);
              buf = buf\<lparr>chains := ch # tl (chains buf)\<rparr>
          in
          if misalign ch \<ge> length data then
            bindE (prepend_first data ch buf) (\<lambda>buf. Inr (0, evbuffer_invoke_callbacks buf))
          else if misalign ch \<noteq> 0 then
            bindE (prepend_first (drop (length data - misalign ch) data) ch buf) (\<lambda>buf.
              prepend_chain mm (take (length data - misalign ch) data) buf)
          else prepend_chain mm data buf))"

text \<open>
  The loop of \<^verbatim>\<open>evbuffer_drain\<close>: whole chains go, and a link pointer into them falls back to the
  first link; with the chains in front gone, the other links move up by one.
\<close>

fun drain_loop :: "nat \<Rightarrow> evbuffer_chain list \<Rightarrow> nat \<Rightarrow> evbuffer_fault + evbuffer_chain list \<times> nat" where
  "drain_loop remaining [] p = Inl NullChain"
| "drain_loop remaining (ch # chs) p =
     (if remaining \<ge> off ch then drain_loop (remaining - off ch) chs (p - 1)
      else Inr (ch\<lparr>misalign := misalign ch + remaining, off := off ch - remaining\<rparr> # chs, p))"

definition ZERO_CHAIN :: "evbuffer \<Rightarrow> evbuffer" where
  "ZERO_CHAIN buf = buf\<lparr>chains := [], last_with_datap := 0, total_len := 0\<rparr>"

definition evbuffer_drain :: "nat \<Rightarrow> evbuffer \<Rightarrow> evbuffer_fault + int \<times> evbuffer" where
  "evbuffer_drain len buf =
     (let old_len = total_len buf in
      if old_len = 0 then Inr (0, buf)
      else if freeze_start buf then Inr (-1, buf)
      else
        bindE (if len \<ge> old_len then Inr (old_len, ZERO_CHAIN buf)
               else bindE (drain_loop len (chains buf) (last_with_datap buf)) (\<lambda>(chs, p).
                 Inr (len, buf\<lparr>total_len := total_len buf - len, chains := chs, last_with_datap := p\<rparr>)))
          (\<lambda>(len, buf).
             Inr (0, evbuffer_invoke_callbacks (buf\<lparr>n_del_for_cb := n_del_for_cb buf + len\<rparr>))))"

fun copyout_loop :: "nat \<Rightarrow> evbuffer_chain list \<Rightarrow> evbuffer_fault + byte list" where
  "copyout_loop datlen [] = (if datlen = 0 then Inr [] else Inl NullChain)"
| "copyout_loop datlen (ch # chs) =
     (if datlen = 0 then Inr []
      else if datlen \<ge> off ch then
        bindE (chain_get (misalign ch) (off ch) ch) (\<lambda>bs.
        bindE (copyout_loop (datlen - off ch) chs) (\<lambda>rest. Inr (bs @ rest)))
      else chain_get (misalign ch) datlen ch)"

definition evbuffer_copyout :: "nat \<Rightarrow> evbuffer \<Rightarrow> evbuffer_fault + int \<times> byte list" where
  "evbuffer_copyout datlen buf =
     (let datlen = (if datlen \<ge> total_len buf then total_len buf else datlen) in
      if datlen = 0 then Inr (0, [])
      else if freeze_start buf then Inr (-1, [])
      else bindE (copyout_loop datlen (chains buf)) (\<lambda>bs. Inr (int datlen, bs)))"

text \<open>The result is cut to an \<^verbatim>\<open>int\<close>.\<close>

definition to_int :: "int \<Rightarrow> int" where
  "to_int n = (n + 2 ^ 31) mod 2 ^ 32 - 2 ^ 31"

definition evbuffer_remove :: "nat \<Rightarrow> evbuffer \<Rightarrow> evbuffer_fault + (int \<times> byte list) \<times> evbuffer" where
  "evbuffer_remove datlen buf =
     bindE (evbuffer_copyout datlen buf) (\<lambda>(n, bs).
       if n > 0 then
         bindE (evbuffer_drain (nat n) buf) (\<lambda>(r, buf). Inr ((to_int (if r < 0 then -1 else n), bs), buf))
       else Inr ((to_int n, bs), buf))"

section \<open>Moving chains between buffers\<close>

definition COPY_CHAIN :: "evbuffer \<Rightarrow> evbuffer \<Rightarrow> evbuffer" where
  "COPY_CHAIN dst src =
     dst\<lparr>chains := chains src, last_with_datap := last_with_datap src, total_len := total_len src\<rparr>"

definition APPEND_CHAIN :: "evbuffer \<Rightarrow> evbuffer \<Rightarrow> evbuffer" where
  "APPEND_CHAIN dst src =
     dst\<lparr>chains := chains dst @ chains src, last_with_datap := length (chains dst) + last_with_datap src,
         total_len := total_len dst + total_len src\<rparr>"

definition PREPEND_CHAIN :: "evbuffer \<Rightarrow> evbuffer \<Rightarrow> evbuffer" where
  "PREPEND_CHAIN dst src =
     dst\<lparr>chains := chains src @ chains dst,
         last_with_datap :=
           (if last_with_datap dst = length (chains dst) then last_with_datap src
            else length (chains src) + last_with_datap dst),
         total_len := total_len dst + total_len src\<rparr>"

text \<open>Results: the code, the outgoing and the incoming buffer, which are different objects.\<close>

definition move_buffer ::
  "(evbuffer \<Rightarrow> bool) \<Rightarrow> (evbuffer \<Rightarrow> evbuffer \<Rightarrow> evbuffer) \<Rightarrow> evbuffer \<Rightarrow> evbuffer \<Rightarrow> int \<times> evbuffer \<times> evbuffer" where
  "move_buffer frozen join outbuf inbuf =
     (let in_total_len = total_len inbuf in
      if in_total_len = 0 then (0, outbuf, inbuf)
      else if frozen outbuf \<or> freeze_start inbuf then (-1, outbuf, inbuf)
      else
        let outbuf = (if total_len outbuf = 0 then COPY_CHAIN outbuf inbuf else join outbuf inbuf);
            inbuf = ZERO_CHAIN inbuf;
            inbuf = inbuf\<lparr>n_del_for_cb := n_del_for_cb inbuf + in_total_len\<rparr>;
            outbuf = outbuf\<lparr>n_add_for_cb := n_add_for_cb outbuf + in_total_len\<rparr>
        in (0, evbuffer_invoke_callbacks outbuf, evbuffer_invoke_callbacks inbuf))"

definition evbuffer_add_buffer :: "evbuffer \<Rightarrow> evbuffer \<Rightarrow> int \<times> evbuffer \<times> evbuffer" where
  "evbuffer_add_buffer = move_buffer freeze_end APPEND_CHAIN"

definition evbuffer_prepend_buffer :: "evbuffer \<Rightarrow> evbuffer \<Rightarrow> int \<times> evbuffer \<times> evbuffer" where
  "evbuffer_prepend_buffer = move_buffer freeze_start PREPEND_CHAIN"

fun advance_loop :: "evbuffer_chain list \<Rightarrow> nat \<Rightarrow> nat" where
  "advance_loop (ch # ch' # chs) p = (if off ch' \<noteq> 0 then advance_loop (ch' # chs) (p + 1) else p)"
| "advance_loop chs p = p"

definition advance_last_with_data :: "evbuffer \<Rightarrow> evbuffer" where
  "advance_last_with_data buf =
     buf\<lparr>last_with_datap := advance_loop (drop (last_with_datap buf) (chains buf)) (last_with_datap buf)\<rparr>"

text \<open>The chains that move whole, the rest, the bytes left to move, and the link pointer.\<close>

fun move_loop :: "nat \<Rightarrow> evbuffer_chain list \<Rightarrow> nat \<Rightarrow>
    evbuffer_fault + evbuffer_chain list \<times> evbuffer_chain list \<times> nat \<times> nat" where
  "move_loop datlen [] p = Inl NullChain"
| "move_loop datlen (ch # chs) p =
     (if off ch \<le> datlen then
        bindE (move_loop (datlen - off ch) chs (p - 1)) (\<lambda>(moved, rest, d, p). Inr (ch # moved, rest, d, p))
      else Inr ([], ch # chs, datlen, p))"

definition evbuffer_remove_buffer ::
  "allocator \<Rightarrow> nat \<Rightarrow> evbuffer \<Rightarrow> evbuffer \<Rightarrow> evbuffer_fault + int \<times> evbuffer \<times> evbuffer" where
  "evbuffer_remove_buffer mm datlen src dst =
     (if datlen = 0 then Inr (0, src, dst)
      else if freeze_end dst \<or> freeze_start src then Inr (-1, src, dst)
      else if datlen \<ge> total_len src then
        case evbuffer_add_buffer dst src of (_, dst', src') \<Rightarrow> Inr (to_int (int (total_len src)), src', dst')
      else
        bindE (move_loop datlen (chains src) (last_with_datap src)) (\<lambda>(moved, rest, left, p).
        let nread = datlen - left;
            src = src\<lparr>chains := rest, last_with_datap := p\<rparr>;
            dst = (if nread \<noteq> 0 then
                     let dst = evbuffer_free_trailing_empty_chains dst;
                         dst = advance_last_with_data (dst\<lparr>chains := chains dst @ moved\<rparr>)
                     in count_added nread dst
                   else dst)
        in
        bindE (chain_get (misalign (hd rest)) left (hd rest)) (\<lambda>bs.
        bindE (evbuffer_add mm bs dst) (\<lambda>(_, dst).
        let ch = hd rest;
            src = src\<lparr>chains := ch\<lparr>misalign := misalign ch + left, off := off ch - left\<rparr> # tl rest,
                      total_len := total_len src - datlen, n_del_for_cb := n_del_for_cb src + datlen\<rparr>
        in Inr (to_int (int datlen), evbuffer_invoke_callbacks src, evbuffer_invoke_callbacks dst)))))"

section \<open>What a buffer holds\<close>

definition chain_data :: "evbuffer_chain \<Rightarrow> byte list" where
  "chain_data ch = mem_get (misalign ch) (off ch) (buffer ch)"

definition contents :: "evbuffer \<Rightarrow> byte list" where
  "contents buf = concat (map chain_data (chains buf))"

text \<open>No allocation of the program comes near this bound; below it the 64-bit sizes do not wrap.\<close>

definition max_chain :: nat where "max_chain = 2 ^ 62 - 48"

definition chain_ok :: "evbuffer_chain \<Rightarrow> bool" where
  "chain_ok ch \<longleftrightarrow> misalign ch + off ch \<le> length (buffer ch) \<and> length (buffer ch) \<le> max_chain \<and>
     0 < length (buffer ch)"

text \<open>
  The documented meaning of \<^verbatim>\<open>last_with_datap\<close>: it points at the last chain with data, or at
  the first link if no chain has any; only empty chains follow it.
\<close>

definition data_first :: "evbuffer_chain list \<Rightarrow> nat \<Rightarrow> bool" where
  "data_first chs p \<longleftrightarrow> (\<exists>xs ys. chs = xs @ ys \<and> list_all (\<lambda>ch. off ch \<noteq> 0) xs \<and>
     list_all (\<lambda>ch. off ch = 0) ys \<and> p = length xs - 1)"

text \<open>No empty chain behind the data, as in a buffer that is only written by adding to it.\<close>

definition packed :: "evbuffer_chain list \<Rightarrow> nat \<Rightarrow> bool" where
  "packed chs p \<longleftrightarrow> list_all (\<lambda>ch. off ch \<noteq> 0) chs \<and> p = length chs - 1 \<or> (\<exists>ch. chs = [ch] \<and> off ch = 0 \<and> p = 0)"

definition evb_ok :: "evbuffer \<Rightarrow> bool" where
  "evb_ok buf \<longleftrightarrow> list_all chain_ok (chains buf) \<and> total_len buf = sum_list (map off (chains buf)) \<and>
     data_first (chains buf) (last_with_datap buf)"

definition out_ok :: "evbuffer \<Rightarrow> bool" where
  "out_ok buf \<longleftrightarrow> list_all chain_ok (chains buf) \<and> total_len buf = sum_list (map off (chains buf)) \<and>
     packed (chains buf) (last_with_datap buf)"

definition mm_ok :: "allocator \<Rightarrow> bool" where
  "mm_ok mm \<longleftrightarrow> (\<forall>n bs. mm n = Some bs \<longrightarrow> length bs = n)"

lemma data_firstI:
  "list_all (\<lambda>ch. off ch \<noteq> 0) xs \<Longrightarrow> list_all (\<lambda>ch. off ch = 0) ys \<Longrightarrow> data_first (xs @ ys) (length xs - 1)"
  unfolding data_first_def by blast

lemma packed_data_first: "packed chs p \<Longrightarrow> data_first chs p"
  using data_firstI [of chs "[]"] data_firstI [of "[]" chs] by (auto simp: packed_def)

lemma out_evb: "out_ok buf \<Longrightarrow> evb_ok buf"
  by (simp add: out_ok_def evb_ok_def packed_data_first)

lemma length_chain_data: "chain_ok ch \<Longrightarrow> length (chain_data ch) = off ch"
  by (auto simp: chain_ok_def chain_data_def mem_simps min_def)

lemma chains_length: "list_all chain_ok chs \<Longrightarrow> length (concat (map chain_data chs)) = sum_list (map off chs)"
  by (induction chs) (simp_all add: length_chain_data)

lemma contents_length: "evb_ok buf \<Longrightarrow> length (contents buf) = total_len buf"
  by (simp add: evb_ok_def contents_def chains_length)

lemma invoke_callbacks_sel [simp]:
  "chains (evbuffer_invoke_callbacks buf) = chains buf"
  "last_with_datap (evbuffer_invoke_callbacks buf) = last_with_datap buf"
  "total_len (evbuffer_invoke_callbacks buf) = total_len buf"
  "freeze_start (evbuffer_invoke_callbacks buf) = freeze_start buf"
  "freeze_end (evbuffer_invoke_callbacks buf) = freeze_end buf"
  by (simp_all add: evbuffer_invoke_callbacks_def evbuffer_run_callbacks_def Let_def)

lemma ok_invoke [simp]:
  "evb_ok (evbuffer_invoke_callbacks buf) = evb_ok buf" "out_ok (evbuffer_invoke_callbacks buf) = out_ok buf"
  "contents (evbuffer_invoke_callbacks buf) = contents buf"
  by (simp_all add: evb_ok_def out_ok_def contents_def)

lemma ok_counters [simp]:
  "evb_ok (buf\<lparr>n_add_for_cb := n\<rparr>) = evb_ok buf" "out_ok (buf\<lparr>n_add_for_cb := n\<rparr>) = out_ok buf"
  "evb_ok (buf\<lparr>n_del_for_cb := n\<rparr>) = evb_ok buf" "out_ok (buf\<lparr>n_del_for_cb := n\<rparr>) = out_ok buf"
  "contents (buf\<lparr>n_add_for_cb := n\<rparr>) = contents buf" "contents (buf\<lparr>n_del_for_cb := n\<rparr>) = contents buf"
  by (simp_all add: evb_ok_def out_ok_def contents_def)

section \<open>New chains\<close>

lemma push_bit_power: "k < 63 \<Longrightarrow> push_bit 1 (2 ^ k :: u64) = 2 ^ Suc k"
  by (simp add: push_bit_eq_mult)

lemma unat_power_64:
  assumes "k < 64"
  shows "unat (2 ^ k :: u64) = 2 ^ k"
proof -
  have "(2 :: nat) ^ k < 2 ^ 64" using assms by (intro power_strict_increasing) simp_all
  moreover have "(2 ^ k :: u64) = of_nat (2 ^ k)" by simp
  ultimately show ?thesis by (simp only: unat_of_nat) simp
qed

lemma to_alloc_loop_power:
  assumes "k \<le> 62" and "unat need \<le> 2 ^ 62"
  shows "\<exists>j. k \<le> j \<and> j \<le> 62 \<and> to_alloc_loop (2 ^ k) need = Some (2 ^ j) \<and> unat need \<le> 2 ^ j"
  using assms(1)
proof (induction "62 - k" arbitrary: k)
  case 0
  then have k: "k = 62" by simp
  then have "\<not> (2 ^ k < need)" using assms(2) by (simp add: word_less_nat_alt not_less)
  then show ?case using k assms(2) by (subst to_alloc_loop.simps) auto
next
  case (Suc n)
  show ?case
  proof (cases "2 ^ k < need")
    case True
    have "\<exists>j. Suc k \<le> j \<and> j \<le> 62 \<and> to_alloc_loop (2 ^ Suc k) need = Some (2 ^ j) \<and> unat need \<le> 2 ^ j"
      using Suc(2) by (intro Suc(1)) simp_all
    moreover have "to_alloc_loop (2 ^ k) need = to_alloc_loop (2 ^ Suc k) need"
    proof -
      have "push_bit 1 (2 ^ k :: u64) = 2 ^ Suc k" using Suc.hyps(2) by (intro push_bit_power) simp
      then show ?thesis using True by (subst to_alloc_loop.simps) (simp only: if_True)
    qed
    ultimately show ?thesis by (metis Suc_leD)
  next
    case False
    then have "unat need \<le> 2 ^ k"
      using Suc(3) unat_power_64 [of k] by (simp only: word_less_nat_alt not_less)
    then show ?thesis using False Suc(3) by (subst to_alloc_loop.simps) auto
  qed
qed

lemma chain_new_spec:
  assumes "mm_ok mm" and "datlen \<le> max_chain"
  shows "evbuffer_chain_new mm datlen = Inr None \<or>
    (\<exists>ch. evbuffer_chain_new mm datlen = Inr (Some ch) \<and> chain_ok ch \<and> misalign ch = 0 \<and> off ch = 0 \<and>
       datlen \<le> length (buffer ch) \<and> 0 < length (buffer ch))"
proof -
  let ?need = "of_nat datlen + of_nat EVBUFFER_CHAIN_SIZE :: u64"
  have "?need = of_nat (datlen + 48)" by (simp add: EVBUFFER_CHAIN_SIZE_def)
  then have need: "unat ?need = datlen + 48"
    using assms(2) by (simp only: unat_of_nat) (simp add: max_chain_def)
  have "(of_nat MIN_BUFFER_SIZE :: u64) = 2 ^ 10" by (simp add: MIN_BUFFER_SIZE_def)
  moreover obtain j where j: "10 \<le> j" "j \<le> 62" "to_alloc_loop (2 ^ 10) ?need = Some (2 ^ j)" "unat ?need \<le> 2 ^ j"
    using to_alloc_loop_power [of 10 ?need] need assms(2) by (auto simp: max_chain_def)
  moreover have u: "unat (2 ^ j :: u64) = 2 ^ j" using j(2) by (intro unat_power_64) simp
  ultimately have e: "evbuffer_chain_new mm datlen = Inr (map_option (\<lambda>bs. \<lparr>buffer = drop 48 bs, misalign = 0, off = 0\<rparr>) (mm (2 ^ j)))"
    by (simp add: evbuffer_chain_new_def EVBUFFER_CHAIN_SIZE_def)
  show ?thesis
  proof (cases "mm (2 ^ j)")
    case None
    then show ?thesis using e by simp
  next
    case (Some bs)
    have l: "length bs = 2 ^ j" using assms(1) Some by (simp add: mm_ok_def)
    have "(2 :: nat) ^ j \<le> 2 ^ 62" "(2 :: nat) ^ 10 \<le> 2 ^ j"
      using power_increasing [OF j(2), of "2 :: nat"] power_increasing [OF j(1), of "2 :: nat"] by simp_all
    then show ?thesis using e Some l j(4) need u by (auto simp: chain_ok_def max_chain_def)
  qed
qed

text \<open>Beyond the bound the computation fails: it wraps to a small size, or never ends.\<close>

lemma chain_size_wraps: "to_alloc_loop (of_nat MIN_BUFFER_SIZE) (of_nat (2 ^ 64 - 1) + of_nat EVBUFFER_CHAIN_SIZE) = Some 1024"
  by (subst to_alloc_loop.simps) (simp add: MIN_BUFFER_SIZE_def EVBUFFER_CHAIN_SIZE_def)

section \<open>Adding\<close>

lemma chain_put_fits: "pos + length bs \<le> length (buffer ch) \<Longrightarrow> chain_put pos bs ch = Inr (ch\<lparr>buffer := mem_put pos bs (buffer ch)\<rparr>)"
  by (simp add: chain_put_def)

lemma chain_append:
  assumes "chain_ok ch" and "misalign ch + off ch + length bs \<le> length (buffer ch)"
  defines "ch' \<equiv> ch\<lparr>buffer := mem_put (misalign ch + off ch) bs (buffer ch), off := off ch + length bs\<rparr>"
  shows "chain_ok ch' \<and> chain_data ch' = chain_data ch @ bs"
proof -
  let ?b = "mem_put (misalign ch + off ch) bs (buffer ch)"
  have "mem_get (misalign ch) (off ch + length bs) ?b =
      mem_get (misalign ch) (off ch) ?b @ mem_get (misalign ch + off ch) (length bs) ?b"
    by (simp add: mem_get_def take_add add.commute)
  also have "\<dots> = chain_data ch @ bs"
    using assms(2) mem_get_mem_put_disjoint [of "misalign ch + off ch" bs "buffer ch" "misalign ch" "off ch"]
    by (simp add: chain_data_def mem_simps)
  finally show ?thesis using assms by (simp add: chain_ok_def chain_data_def mem_simps)
qed

lemma append_last_spec:
  assumes "chain_ok ch" and "misalign ch + off ch + length bs \<le> length (buffer ch)"
  shows "\<exists>ch'. append_last bs ch buf = Inr (count_added (length bs) (set_last ch' buf)) \<and>
    chain_ok ch' \<and> off ch' = off ch + length bs \<and> chain_data ch' = chain_data ch @ bs \<and>
    length (buffer ch') = length (buffer ch) \<and> misalign ch' = misalign ch"
  by (intro exI [of _ "ch\<lparr>buffer := mem_put (misalign ch + off ch) bs (buffer ch), off := off ch + length bs\<rparr>"])
    (use chain_append [OF assms] assms(2) in \<open>simp add: append_last_def chain_put_fits mem_simps\<close>)

lemma chain_align_spec:
  assumes "chain_ok ch"
  shows "chain_ok (evbuffer_chain_align ch) \<and> chain_data (evbuffer_chain_align ch) = chain_data ch \<and>
    off (evbuffer_chain_align ch) = off ch \<and> misalign (evbuffer_chain_align ch) = 0 \<and>
    length (buffer (evbuffer_chain_align ch)) = length (buffer ch)"
  using assms length_chain_data [OF assms]
  by (auto simp: evbuffer_chain_align_def chain_ok_def chain_data_def mem_simps)

lemma set_last_contents:
  assumes "chains buf \<noteq> []"
  shows "contents (set_last ch buf) = concat (map chain_data (butlast (chains buf))) @ chain_data ch"
  by (simp add: contents_def set_last_def)

lemma contents_last:
  assumes "chains buf \<noteq> []"
  shows "contents buf = concat (map chain_data (butlast (chains buf))) @ chain_data (last (chains buf))"
  using assms by (cases "chains buf" rule: rev_cases) (simp_all add: contents_def)

text \<open>The last chain replaced by one with more data.\<close>

lemma set_last_packed:
  assumes "out_ok buf" and "chains buf \<noteq> []" and "chain_ok ch" and "off ch = off (last (chains buf)) + n"
    and "chain_data ch = chain_data (last (chains buf)) @ bs"
  shows "out_ok (count_added n (set_last ch buf)) \<and> contents (count_added n (set_last ch buf)) = contents buf @ bs"
proof -
  obtain chs c where c: "chains buf = chs @ [c]" using assms(2) by (cases "chains buf" rule: rev_cases) auto
  have "packed (chs @ [ch]) (last_with_datap buf)"
    using assms(1,4) c unfolding out_ok_def packed_def by auto
  then show ?thesis
    using assms c by (auto simp: out_ok_def count_added_def set_last_def contents_def)
qed

lemma packed_cases:
  assumes "packed chs p"
  obtains "chs = []" "p = 0"
  | ch where "chs = [ch]" "p = 0"
  | xs ch where "chs = xs @ [ch]" "p = length xs" "list_all (\<lambda>ch. off ch \<noteq> 0) chs"
  using assms by (cases chs rule: rev_cases) (auto simp: packed_def)

lemma insert_packed:
  assumes "out_ok buf" and "chain_ok ch" and "off ch \<noteq> 0 \<or> chains buf = []"
  shows "out_ok (evbuffer_chain_insert ch buf) \<and> contents (evbuffer_chain_insert ch buf) = contents buf @ chain_data ch \<and>
    n_add_for_cb (evbuffer_chain_insert ch buf) = n_add_for_cb buf \<and>
    freeze_end (evbuffer_chain_insert ch buf) = freeze_end buf \<and>
    freeze_start (evbuffer_chain_insert ch buf) = freeze_start buf"
proof -
  have ok: "list_all chain_ok (chains buf)" "total_len buf = sum_list (map off (chains buf))"
    and pk: "packed (chains buf) (last_with_datap buf)" using assms(1) by (simp_all add: out_ok_def)
  show ?thesis
    using pk
  proof (cases rule: packed_cases)
    case 1
    then show ?thesis using ok assms(2)
      by (auto simp: evbuffer_chain_insert_def out_ok_def contents_def packed_def)
  next
    case (2 c)
    then have "off ch \<noteq> 0" using assms(3) by simp
    moreover have "off c = 0 \<Longrightarrow> chain_data c = []" by (simp add: chain_data_def mem_get_def)
    ultimately show ?thesis using 2 ok assms(2)
      by (auto simp: evbuffer_chain_insert_def first_victim_def out_ok_def contents_def packed_def)
  next
    case (3 xs c)
    then have "off ch \<noteq> 0" using assms(3) by simp
    then show ?thesis using 3 ok assms(2)
      by (auto simp: evbuffer_chain_insert_def first_victim_def out_ok_def contents_def packed_def)
  qed
qed

lemma ensure_chain_spec:
  assumes "out_ok buf" and "mm_ok mm" and "n \<le> max_chain"
  shows "\<exists>b. ensure_chain mm n buf = Inr b \<and>
    (\<forall>buf'. b = Some buf' \<longrightarrow> out_ok buf' \<and> contents buf' = contents buf \<and> chains buf' \<noteq> [] \<and>
       freeze_end buf' = freeze_end buf \<and> freeze_start buf' = freeze_start buf)"
proof (cases "chains buf = []")
  case True
  have ne: "chains (evbuffer_chain_insert ch buf) \<noteq> []" for ch by (simp add: evbuffer_chain_insert_def Let_def)
  consider "evbuffer_chain_new mm n = Inr None"
    | ch where "evbuffer_chain_new mm n = Inr (Some ch)" "chain_ok ch" "off ch = 0"
    using chain_new_spec [OF assms(2,3)] by blast
  then show ?thesis
  proof cases
    case 2
    then have "chain_data ch = []" by (simp add: chain_data_def mem_get_def)
    then show ?thesis using 2 True ne insert_packed [OF assms(1) 2(2)] by (simp add: ensure_chain_def)
  qed (simp add: ensure_chain_def True)
next
  case False
  then show ?thesis using assms(1) by (simp add: ensure_chain_def)
qed

lemma grow_size_bounds:
  "chain_ok ch \<Longrightarrow> n \<le> max_chain \<Longrightarrow> n \<le> grow_size ch n \<and> grow_size ch n \<le> max_chain"
  by (auto simp: grow_size_def chain_ok_def max_chain_def EVBUFFER_CHAIN_MAX_AUTO_SIZE_def Let_def)

lemma count_added_sel [simp]:
  "chains (count_added n buf) = chains buf" "freeze_end (count_added n buf) = freeze_end buf"
  "freeze_start (count_added n buf) = freeze_start buf"
  by (simp_all add: count_added_def)

lemma set_last_sel [simp]:
  "chains (set_last ch buf) \<noteq> []" "freeze_end (set_last ch buf) = freeze_end buf"
  "freeze_start (set_last ch buf) = freeze_start buf"
  by (simp_all add: set_last_def)

definition frozen_alike :: "evbuffer \<Rightarrow> evbuffer \<Rightarrow> bool" where
  "frozen_alike buf buf' \<longleftrightarrow> freeze_start buf' = freeze_start buf \<and> freeze_end buf' = freeze_end buf"

lemma fresh_chain_put:
  assumes "misalign ch = 0" and "length bs \<le> length (buffer ch)" and "chain_ok ch"
  shows "\<exists>ch'. chain_put 0 bs ch = Inr ch' \<and> chain_ok (ch'\<lparr>off := length bs\<rparr>) \<and> chain_data (ch'\<lparr>off := length bs\<rparr>) = bs"
  using assms by (simp add: chain_put_fits chain_ok_def chain_data_def mem_simps)

lemma add_chain_spec:
  assumes "out_ok buf" and "chains buf \<noteq> []" and "mm_ok mm" and "length data \<le> max_chain"
    and "ch = last (chains buf)" and "length (buffer ch) - misalign ch - off ch < length data"
  shows "\<exists>r buf'. add_chain mm data ch buf = Inr (r, buf') \<and> out_ok buf' \<and> frozen_alike buf buf' \<and>
    (r = 0 \<and> contents buf' = contents buf @ data \<or> r = -1 \<and> contents buf' = contents buf)"
proof -
  have ch: "chain_ok ch" using assms(1,2,5) by (simp add: out_ok_def list.pred_set)
  define remain where "remain = length (buffer ch) - misalign ch - off ch"
  define b1 where "b1 = (if remain \<noteq> 0 then append_last (take remain data) ch buf else Inr buf)"
  have lr: "length (take remain data) = remain" using assms(6) by (simp add: remain_def)
  have "\<exists>b. b1 = Inr b \<and> out_ok b \<and> contents b = contents buf @ take remain data \<and> frozen_alike buf b"
  proof (cases "remain = 0")
    case False
    have "misalign ch + off ch + length (take remain data) \<le> length (buffer ch)"
      using ch lr by (simp add: remain_def chain_ok_def)
    then obtain c where "append_last (take remain data) ch buf = Inr (count_added (length (take remain data)) (set_last c buf))"
      "chain_ok c" "off c = off ch + length (take remain data)" "chain_data c = chain_data ch @ take remain data"
      using append_last_spec [OF ch, of "take remain data" buf] by blast
    then show ?thesis
      using False set_last_packed [OF assms(1,2), of c "length (take remain data)" "take remain data"] assms(5)
      by (simp add: b1_def frozen_alike_def)
  qed (use assms(1) in \<open>simp add: b1_def frozen_alike_def\<close>)
  then obtain b where b: "b1 = Inr b" "out_ok b" "contents b = contents buf @ take remain data" "frozen_alike buf b"
    by blast
  have e: "add_chain mm data ch buf =
    bindE (evbuffer_chain_new mm (grow_size ch (length data))) (\<lambda>new. case new of
          None \<Rightarrow> Inr (-1, buf)
        | Some tmp \<Rightarrow> bindE b1 (\<lambda>buf. bindE (chain_put 0 (drop remain data) tmp) (\<lambda>tmp.
            let buf = evbuffer_chain_insert (tmp\<lparr>off := length (drop remain data)\<rparr>) buf;
                buf = buf\<lparr>n_add_for_cb := n_add_for_cb buf + length (drop remain data)\<rparr>
            in Inr (0, evbuffer_invoke_callbacks buf))))"
    by (simp only: add_chain_def Let_def remain_def b1_def)
  have g: "length data \<le> grow_size ch (length data)" "grow_size ch (length data) \<le> max_chain"
    using grow_size_bounds [OF ch assms(4)] by auto
  consider "evbuffer_chain_new mm (grow_size ch (length data)) = Inr None"
    | tmp where "evbuffer_chain_new mm (grow_size ch (length data)) = Inr (Some tmp)"
        "chain_ok tmp" "misalign tmp = 0" "grow_size ch (length data) \<le> length (buffer tmp)"
    using chain_new_spec [OF assms(3) g(2)] by blast
  then show ?thesis
  proof cases
    case 1
    then show ?thesis using assms(1) by (simp add: e frozen_alike_def)
  next
    case 2
    have "length (drop remain data) \<le> length (buffer tmp)" using 2(4) g(1) by simp
    then obtain tmp' where t: "chain_put 0 (drop remain data) tmp = Inr tmp'"
      "chain_ok (tmp'\<lparr>off := length (drop remain data)\<rparr>)"
      "chain_data (tmp'\<lparr>off := length (drop remain data)\<rparr>) = drop remain data"
      using fresh_chain_put [OF 2(3) _ 2(2)] by blast
    have "off (tmp'\<lparr>off := length (drop remain data)\<rparr>) \<noteq> 0" using assms(6) by (simp add: remain_def)
    then show ?thesis
      using insert_packed [OF b(2) t(2)] t b 2(1) by (simp add: e Let_def frozen_alike_def)
  qed
qed

lemma evbuffer_add_spec:
  assumes "out_ok buf" and "mm_ok mm" and "length data \<le> max_chain" and "\<not> freeze_end buf"
  shows "\<exists>r buf'. evbuffer_add mm data buf = Inr (r, buf') \<and> out_ok buf' \<and> frozen_alike buf buf' \<and>
    (r = 0 \<and> contents buf' = contents buf @ data \<or> r = -1 \<and> contents buf' = contents buf)"
proof -
  obtain b where b: "ensure_chain mm (length data) buf = Inr b"
    and s: "\<And>b1. b = Some b1 \<Longrightarrow> out_ok b1 \<and> contents b1 = contents buf \<and> chains b1 \<noteq> [] \<and> frozen_alike buf b1"
    using ensure_chain_spec [OF assms(1-3)] unfolding frozen_alike_def by blast
  show ?thesis
  proof (cases b)
    case None
    then show ?thesis using assms b by (simp add: evbuffer_add_def frozen_alike_def)
  next
    case (Some b1)
    note 1 = s [OF Some]
    let ?c = "last (chains b1)"
    have c: "chain_ok ?c" using 1 by (simp add: out_ok_def list.pred_set)
    have add: "\<exists>r buf'. bindE (append_last data c' b1) (\<lambda>buf. Inr (0 :: int, evbuffer_invoke_callbacks buf)) = Inr (r, buf') \<and>
        out_ok buf' \<and> frozen_alike buf buf' \<and> r = 0 \<and> contents buf' = contents buf @ data"
      if c': "chain_ok c'" "misalign c' + off c' + length data \<le> length (buffer c')" "off c' = off ?c"
        "chain_data c' = chain_data ?c" for c'
    proof -
      obtain c2 where "append_last data c' b1 = Inr (count_added (length data) (set_last c2 b1))"
        "chain_ok c2" "off c2 = off ?c + length data" "chain_data c2 = chain_data ?c @ data"
        using append_last_spec [OF c'(1,2)] c'(3,4) by metis
      then show ?thesis using set_last_packed [of b1 c2 "length data" data] 1 by (simp add: frozen_alike_def)
    qed
    consider "length (buffer ?c) - misalign ?c - off ?c \<ge> length data"
      | "length (buffer ?c) - misalign ?c - off ?c < length data" "evbuffer_chain_should_realign ?c (length data)"
      | "length (buffer ?c) - misalign ?c - off ?c < length data" "\<not> evbuffer_chain_should_realign ?c (length data)"
      by linarith
    then show ?thesis
    proof cases
      case 1
      then have e: "evbuffer_add mm data buf = bindE (append_last data ?c b1) (\<lambda>buf. Inr (0, evbuffer_invoke_callbacks buf))"
        using assms(4) b Some by (simp add: evbuffer_add_def)
      have "misalign ?c + off ?c + length data \<le> length (buffer ?c)" using 1 c unfolding chain_ok_def by linarith
      then show ?thesis unfolding e using add [OF c _ refl refl] by blast
    next
      case 2
      then have e: "evbuffer_add mm data buf =
          bindE (append_last data (evbuffer_chain_align ?c) b1) (\<lambda>buf. Inr (0, evbuffer_invoke_callbacks buf))"
        using assms(4) b Some by (simp add: evbuffer_add_def)
      note al = chain_align_spec [OF c]
      from 2 have "misalign (evbuffer_chain_align ?c) + off (evbuffer_chain_align ?c) + length data
          \<le> length (buffer (evbuffer_chain_align ?c))"
      proof -
        have "length data \<le> length (buffer ?c) - off ?c" "off ?c \<le> length (buffer ?c)"
          using 2 c by (simp_all add: evbuffer_chain_should_realign_def chain_ok_def)
        then show ?thesis using al by linarith
      qed
      then show ?thesis unfolding e using add [of "evbuffer_chain_align ?c"] al by blast
    next
      case 3
      then show ?thesis
        using add_chain_spec [OF _ _ assms(2,3) refl 3(1)] 1 assms(4) b Some
        by (simp add: evbuffer_add_def Let_def frozen_alike_def)
    qed
  qed
qed

section \<open>Draining and copying out\<close>

lemma data_first_tl:
  assumes "data_first (ch # chs) p" and "sum_list (map off (ch # chs)) \<noteq> 0"
  shows "data_first chs (p - 1) \<and> off ch \<noteq> 0"
proof -
  obtain xs ys where xs: "ch # chs = xs @ ys" "list_all (\<lambda>ch. off ch \<noteq> 0) xs" "list_all (\<lambda>ch. off ch = 0) ys"
    "p = length xs - 1"
    using assms(1) by (auto simp: data_first_def)
  show ?thesis
  proof (cases xs)
    case Nil
    then have "sum_list (map off (ch # chs)) = 0" using xs by (auto simp: list.pred_set sum_list_eq_0_iff)
    then show ?thesis using assms(2) by simp
  next
    case (Cons c xs')
    then show ?thesis using xs data_firstI [of xs' ys] by simp
  qed
qed

lemma data_first_hd: "data_first (ch # chs) p \<Longrightarrow> off ch \<noteq> 0 \<Longrightarrow> off ch' \<noteq> 0 \<Longrightarrow> data_first (ch' # chs) p"
  unfolding data_first_def
proof (elim exE conjE)
  fix xs ys assume a: "ch # chs = xs @ ys" "list_all (\<lambda>ch. off ch \<noteq> 0) xs" "list_all (\<lambda>ch. off ch = 0) ys"
    "p = length xs - 1" "off ch \<noteq> 0" "off ch' \<noteq> 0"
  then obtain xs' where "xs = ch # xs'" by (cases xs) auto
  then show "\<exists>xs ys. ch' # chs = xs @ ys \<and> list_all (\<lambda>ch. off ch \<noteq> 0) xs \<and> list_all (\<lambda>ch. off ch = 0) ys \<and> p = length xs - 1"
    using a by (intro exI [of _ "ch' # xs'"] exI [of _ ys]) auto
qed

lemma packed_tl: "packed (ch # chs) p \<Longrightarrow> off ch \<noteq> 0 \<Longrightarrow> packed chs (p - 1)"
  by (auto simp: packed_def)

lemma packed_hd: "packed (ch # chs) p \<Longrightarrow> off ch \<noteq> 0 \<Longrightarrow> off ch' \<noteq> 0 \<Longrightarrow> packed (ch' # chs) p"
  by (auto simp: packed_def)

lemma chain_drop:
  assumes "chain_ok ch" and "n \<le> off ch"
  defines "ch' \<equiv> ch\<lparr>misalign := misalign ch + n, off := off ch - n\<rparr>"
  shows "chain_ok ch' \<and> chain_data ch' = drop n (chain_data ch)"
  using assms by (simp add: chain_ok_def chain_data_def mem_get_def drop_take add.commute)

lemma drain_loop_spec:
  assumes "list_all chain_ok chs" and "n < sum_list (map off chs)"
  shows "\<exists>chs' p'. drain_loop n chs p = Inr (chs', p') \<and> list_all chain_ok chs' \<and>
    concat (map chain_data chs') = drop n (concat (map chain_data chs)) \<and>
    sum_list (map off chs') = sum_list (map off chs) - n \<and>
    (data_first chs p \<longrightarrow> data_first chs' p') \<and> (packed chs p \<longrightarrow> packed chs' p')"
  using assms
proof (induction n chs p rule: drain_loop.induct)
  case (2 n ch chs p)
  have ch: "chain_ok ch" "length (chain_data ch) = off ch" using 2 by (simp_all add: length_chain_data)
  show ?case
  proof (cases "n \<ge> off ch")
    case True
    then obtain chs' p' where 1: "drain_loop (n - off ch) chs (p - 1) = Inr (chs', p')" "list_all chain_ok chs'"
      "concat (map chain_data chs') = drop (n - off ch) (concat (map chain_data chs))"
      "sum_list (map off chs') = sum_list (map off chs) - (n - off ch)"
      "data_first chs (p - 1) \<longrightarrow> data_first chs' p'" "packed chs (p - 1) \<longrightarrow> packed chs' p'"
      using 2 by fastforce
    have s: "sum_list (map off (ch # chs)) \<noteq> 0" using "2.prems"(2) by linarith
    have "packed (ch # chs) p \<Longrightarrow> off ch \<noteq> 0" using data_first_tl [OF packed_data_first s] by blast
    then show ?thesis
      using 1 True ch data_first_tl [OF _ s] packed_tl by (intro exI [of _ chs'] exI [of _ p']) simp
  next
    case False
    let ?ch = "ch\<lparr>misalign := misalign ch + n, off := off ch - n\<rparr>"
    have "chain_ok ?ch" "chain_data ?ch = drop n (chain_data ch)" using chain_drop [OF ch(1), of n] False by simp_all
    moreover have "off ch \<noteq> 0" "off ?ch \<noteq> 0" using False by simp_all
    ultimately show ?thesis
      using False 2 ch data_first_hd [of ch chs p ?ch] packed_hd [of ch chs p ?ch] by simp
  qed
qed simp

lemma copyout_loop_spec:
  "list_all chain_ok chs \<Longrightarrow> n \<le> sum_list (map off chs) \<Longrightarrow>
     copyout_loop n chs = Inr (take n (concat (map chain_data chs)))"
proof (induction n chs rule: copyout_loop.induct)
  case (2 n ch chs)
  have ch: "chain_ok ch" "length (chain_data ch) = off ch" using 2 by (simp_all add: length_chain_data)
  have get: "chain_get (misalign ch) k ch = Inr (take k (chain_data ch))" if "k \<le> off ch" for k
    using that ch(1) by (simp add: chain_get_def chain_ok_def chain_data_def mem_get_def min_def)
  show ?case using 2 ch get by (auto simp: take_all)
qed auto

lemma evbuffer_drain_spec:
  assumes "evb_ok buf" and "\<not> freeze_start buf"
  shows "\<exists>buf'. evbuffer_drain n buf = Inr (0, buf') \<and> evb_ok buf' \<and> (out_ok buf \<longrightarrow> out_ok buf') \<and>
    frozen_alike buf buf' \<and> contents buf' = drop n (contents buf)"
proof -
  have len: "length (contents buf) = total_len buf" by (rule contents_length [OF assms(1)])
  have ok: "list_all chain_ok (chains buf)" "total_len buf = sum_list (map off (chains buf))"
    "data_first (chains buf) (last_with_datap buf)" using assms(1) by (simp_all add: evb_ok_def)
  consider "total_len buf = 0" | "total_len buf \<noteq> 0" "n \<ge> total_len buf" | "total_len buf \<noteq> 0" "n < total_len buf"
    by linarith
  then show ?thesis
  proof cases
    case 1
    then show ?thesis using assms len by (simp add: evbuffer_drain_def frozen_alike_def)
  next
    case 2
    have "data_first [] 0" "packed [] 0" using data_firstI [of "[]" "[]"] by (simp_all add: packed_def)
    then show ?thesis using 2 assms(2) len
      by (simp add: evbuffer_drain_def Let_def ZERO_CHAIN_def evb_ok_def out_ok_def contents_def frozen_alike_def)
  next
    case 3
    obtain chs p where "drain_loop n (chains buf) (last_with_datap buf) = Inr (chs, p)" "list_all chain_ok chs"
      "concat (map chain_data chs) = drop n (contents buf)" "sum_list (map off chs) = total_len buf - n"
      "data_first chs p" "packed (chains buf) (last_with_datap buf) \<longrightarrow> packed chs p"
      using drain_loop_spec [OF ok(1), of n "last_with_datap buf"] 3 ok(2,3) by (auto simp: contents_def)
    then show ?thesis using 3 assms(2)
      by (simp add: evbuffer_drain_def Let_def evb_ok_def out_ok_def contents_def frozen_alike_def)
  qed
qed

lemma evbuffer_copyout_spec:
  assumes "evb_ok buf" and "\<not> freeze_start buf"
  shows "evbuffer_copyout n buf = Inr (int (min n (total_len buf)), take n (contents buf))"
proof -
  have len: "length (contents buf) = total_len buf" by (rule contents_length [OF assms(1)])
  have "copyout_loop k (chains buf) = Inr (take k (contents buf))" if "k \<le> total_len buf" for k
    using copyout_loop_spec [of "chains buf" k] that assms(1) by (simp add: evb_ok_def contents_def)
  then show ?thesis using assms(2) len
    by (cases "n \<ge> total_len buf") (auto simp: evbuffer_copyout_def Let_def min_def)
qed

lemma evbuffer_remove_spec:
  assumes "evb_ok buf" and "\<not> freeze_start buf"
  shows "\<exists>buf'. evbuffer_remove n buf = Inr ((to_int (int (min n (total_len buf))), take n (contents buf)), buf') \<and>
    evb_ok buf' \<and> (out_ok buf \<longrightarrow> out_ok buf') \<and> frozen_alike buf buf' \<and> contents buf' = drop n (contents buf)"
proof -
  have len: "length (contents buf) = total_len buf" by (rule contents_length [OF assms(1)])
  obtain buf' where b: "evbuffer_drain (min n (total_len buf)) buf = Inr (0, buf')" "evb_ok buf'" "out_ok buf \<longrightarrow> out_ok buf'"
    "frozen_alike buf buf'" "contents buf' = drop (min n (total_len buf)) (contents buf)"
    using evbuffer_drain_spec [OF assms] by blast
  show ?thesis
  proof (cases "min n (total_len buf) = 0")
    case True
    then have "drop n (contents buf) = contents buf" using len by (auto simp: min_def split: if_splits)
    then show ?thesis using True assms evbuffer_copyout_spec [OF assms, of n]
      by (simp add: evbuffer_remove_def frozen_alike_def)
  next
    case False
    then have "int (min n (total_len buf)) > 0" by simp
    then have "evbuffer_remove n buf = Inr ((to_int (int (min n (total_len buf))), take n (contents buf)), buf')"
      using b(1) by (simp only: evbuffer_remove_def evbuffer_copyout_spec [OF assms] bindE_simps prod.case if_True nat_int) simp
    moreover have "drop (min n (total_len buf)) (contents buf) = drop n (contents buf)"
      using len by (simp add: min_def)
    ultimately show ?thesis using b by auto
  qed
qed

section \<open>Prepending\<close>

lemma chain_prepend:
  assumes "chain_ok ch" and "length bs \<le> misalign ch"
  defines "ch' \<equiv> ch\<lparr>buffer := mem_put (misalign ch - length bs) bs (buffer ch), off := off ch + length bs,
    misalign := misalign ch - length bs\<rparr>"
  shows "chain_ok ch' \<and> chain_data ch' = bs @ chain_data ch"
proof -
  let ?m = "misalign ch - length bs"
  let ?b = "mem_put ?m bs (buffer ch)"
  have "mem_get ?m (length bs + off ch) ?b = mem_get ?m (length bs) ?b @ mem_get (?m + length bs) (off ch) ?b"
    unfolding mem_get_def take_add drop_drop by (simp add: add.commute)
  also have "\<dots> = bs @ chain_data ch"
    using assms(1,2) mem_get_mem_put_disjoint [of ?m bs "buffer ch" "misalign ch" "off ch"]
    by (simp add: chain_data_def chain_ok_def mem_simps)
  finally show ?thesis using assms by (simp add: chain_ok_def chain_data_def mem_simps add.commute)
qed

text \<open>The first chain as \<^verbatim>\<open>evbuffer_prepend\<close> sees it, and what becomes of the buffer.\<close>

lemma prepend_first_spec:
  assumes ok: "evb_ok buf" and "length bs \<le> misalign ch" and c4: "chains buf = ch # chs"
  shows "\<exists>buf'. prepend_first bs ch buf = Inr buf' \<and> evb_ok buf' \<and> (out_ok buf \<longrightarrow> out_ok buf') \<and>
    frozen_alike buf buf' \<and> contents buf' = bs @ contents buf \<and> chains buf' \<noteq> [] \<and>
    (bs \<noteq> [] \<longrightarrow> off (hd (chains buf')) \<noteq> 0)"
proof -
  have ch: "chain_ok ch" using ok c4 by (simp add: evb_ok_def)
  let ?ch = "ch\<lparr>buffer := mem_put (misalign ch - length bs) bs (buffer ch), off := off ch + length bs,
    misalign := misalign ch - length bs\<rparr>"
  have c: "chain_ok ?ch" "chain_data ?ch = bs @ chain_data ch" using chain_prepend [OF ch assms(2)] by auto
  have df: "data_first (?ch # chs) (last_with_datap buf)"
  proof (cases "off ch = 0")
    case False
    then show ?thesis using data_first_hd [of ch chs _ ?ch] ok c4 by (simp add: evb_ok_def)
  next
    case True
    obtain xs ys where x: "ch # chs = xs @ ys" "list_all (\<lambda>ch. off ch \<noteq> 0) xs" "list_all (\<lambda>ch. off ch = 0) ys"
      "last_with_datap buf = length xs - 1"
      using ok c4 by (auto simp: evb_ok_def data_first_def)
    then have "xs = []" using True by (cases xs) auto
    then show ?thesis
      using x data_firstI [of "[?ch]" chs] data_firstI [of "[]" "?ch # chs"] True by (cases bs) auto
  qed
  have pk: "packed (ch # chs) (last_with_datap buf) \<longrightarrow> packed (?ch # chs) (last_with_datap buf)"
    by (auto simp: packed_def)
  have "prepend_first bs ch buf = Inr (count_added (length bs) (buf\<lparr>chains := ?ch # chs\<rparr>))"
    using ch assms(2) c4 by (simp add: prepend_first_def chain_put_fits chain_ok_def)
  then show ?thesis
    using c df pk ok c4
    by (simp add: count_added_def evb_ok_def out_ok_def frozen_alike_def contents_def)
qed

lemma prepend_chain_spec:
  assumes "evb_ok buf" and "chains buf \<noteq> []" and "off (hd (chains buf)) \<noteq> 0" and "data \<noteq> []"
    and "mm_ok mm" and "length data \<le> max_chain"
  shows "\<exists>r buf'. prepend_chain mm data buf = Inr (r, buf') \<and> evb_ok buf' \<and> (out_ok buf \<longrightarrow> out_ok buf') \<and>
    frozen_alike buf buf' \<and> (r = 0 \<and> contents buf' = data @ contents buf \<or> r = -1 \<and> contents buf' = contents buf)"
proof -
  consider "evbuffer_chain_new mm (length data) = Inr None"
    | tmp where "evbuffer_chain_new mm (length data) = Inr (Some tmp)" "chain_ok tmp" "misalign tmp = 0" "off tmp = 0"
        "length data \<le> length (buffer tmp)"
    using chain_new_spec [OF assms(5,6)] by blast
  then show ?thesis
  proof cases
    case 1
    then show ?thesis using assms(1) by (simp add: prepend_chain_def frozen_alike_def)
  next
    case 2
    let ?m = "length (buffer tmp) - length data"
    let ?tmp = "tmp\<lparr>buffer := mem_put ?m data (buffer tmp), off := length data, misalign := ?m\<rparr>"
    have t: "chain_ok ?tmp" "chain_data ?tmp = data" "off ?tmp \<noteq> 0"
      using 2 assms(4) by (simp_all add: chain_ok_def chain_data_def mem_simps)
    obtain xs ys where x: "chains buf = xs @ ys" "list_all (\<lambda>ch. off ch \<noteq> 0) xs" "list_all (\<lambda>ch. off ch = 0) ys"
      "last_with_datap buf = length xs - 1"
      using assms(1) by (auto simp: evb_ok_def data_first_def)
    then have "xs \<noteq> []" using assms(2,3) by (cases ys) auto
    then have "data_first (?tmp # chains buf) (last_with_datap buf + 1)"
      using data_firstI [of "?tmp # xs" ys] x t(3) by simp
    moreover have "packed (chains buf) (last_with_datap buf) \<longrightarrow> packed (?tmp # chains buf) (last_with_datap buf + 1)"
      using assms(2,3) t(3) by (auto simp: packed_def)
    ultimately show ?thesis
      using 2 t assms(1)
      by (simp add: prepend_chain_def chain_put_fits mem_simps Let_def evb_ok_def out_ok_def frozen_alike_def contents_def)
  qed
qed

text \<open>
  Prepending: all of the data, or, when a second chain cannot be allocated, an error that
  leaves the end of the data in the buffer.
\<close>

lemma ensure_chain_evb:
  assumes "evb_ok buf" and "mm_ok mm" and "n \<le> max_chain"
  shows "\<exists>b. ensure_chain mm n buf = Inr b \<and>
    (\<forall>buf'. b = Some buf' \<longrightarrow> evb_ok buf' \<and> (out_ok buf \<longrightarrow> out_ok buf') \<and> contents buf' = contents buf \<and>
       chains buf' \<noteq> [] \<and> frozen_alike buf buf')"
proof (cases "chains buf = []")
  case True
  then have "out_ok buf" using assms(1) by (auto simp: evb_ok_def out_ok_def data_first_def packed_def)
  then show ?thesis using ensure_chain_spec [OF _ assms(2,3)] out_evb unfolding frozen_alike_def by blast
next
  case False
  then show ?thesis using assms(1) by (simp add: ensure_chain_def frozen_alike_def)
qed

definition front_room :: "evbuffer \<Rightarrow> evbuffer" where
  "front_room buf =
     (let ch = hd (chains buf);
          ch = (if off ch = 0 then ch\<lparr>misalign := length (buffer ch)\<rparr> else ch)
      in buf\<lparr>chains := ch # tl (chains buf)\<rparr>)"

lemma front_room_spec:
  assumes "evb_ok buf" and "chains buf \<noteq> []"
  shows "evb_ok (front_room buf) \<and> (out_ok buf \<longrightarrow> out_ok (front_room buf)) \<and> frozen_alike buf (front_room buf) \<and>
    contents (front_room buf) = contents buf \<and> chains (front_room buf) \<noteq> [] \<and>
    (off (hd (chains (front_room buf))) \<noteq> 0 \<or> misalign (hd (chains (front_room buf))) \<noteq> 0)"
proof -
  obtain ch chs where c: "chains buf = ch # chs" using assms(2) by (cases "chains buf") auto
  show ?thesis
  proof (cases "off ch = 0")
    case True
    let ?ch = "ch\<lparr>misalign := length (buffer ch)\<rparr>"
    have "chain_data ch = []" "chain_data ?ch = []" "chain_ok ?ch" "misalign ?ch \<noteq> 0"
      using True assms(1) c by (simp_all add: chain_data_def mem_get_def evb_ok_def chain_ok_def)
    moreover have "data_first (?ch # chs) p" if "data_first (ch # chs) p" for p
      using that True unfolding data_first_def
    proof (elim exE conjE)
      fix xs ys assume a: "ch # chs = xs @ ys" "list_all (\<lambda>ch. off ch \<noteq> 0) xs" "list_all (\<lambda>ch. off ch = 0) ys" "p = length xs - 1"
      then have "xs = []" using True by (cases xs) auto
      then show "\<exists>xs ys. ?ch # chs = xs @ ys \<and> list_all (\<lambda>ch. off ch \<noteq> 0) xs \<and> list_all (\<lambda>ch. off ch = 0) ys \<and> p = length xs - 1"
        using a by (intro exI [of _ "[]"] exI [of _ "?ch # chs"]) auto
    qed
    moreover have "packed (ch # chs) p \<longrightarrow> packed (?ch # chs) p" for p using True by (auto simp: packed_def)
    ultimately show ?thesis
      using True assms(1) c by (simp add: front_room_def evb_ok_def out_ok_def frozen_alike_def contents_def)
  next
    case False
    then have "front_room buf = buf" using c by (simp add: front_room_def)
    then show ?thesis using assms c False by (simp add: frozen_alike_def)
  qed
qed

lemma evbuffer_prepend_spec:
  assumes "evb_ok buf" and "mm_ok mm" and "length data \<le> max_chain" and "\<not> freeze_start buf"
  shows "\<exists>r buf'. evbuffer_prepend mm data buf = Inr (r, buf') \<and> evb_ok buf' \<and> (out_ok buf \<longrightarrow> out_ok buf') \<and>
    frozen_alike buf buf' \<and>
    (r = 0 \<and> contents buf' = data @ contents buf \<or> r = -1 \<and> (\<exists>k. contents buf' = drop k data @ contents buf))"
proof -
  obtain b where b: "ensure_chain mm (length data) buf = Inr b"
    and s: "\<And>b1. b = Some b1 \<Longrightarrow> evb_ok b1 \<and> (out_ok buf \<longrightarrow> out_ok b1) \<and> contents b1 = contents buf \<and>
       chains b1 \<noteq> [] \<and> frozen_alike buf b1"
    using ensure_chain_evb [OF assms(1-3)] by blast
  show ?thesis
  proof (cases b)
    case None
    then show ?thesis using assms b by (auto simp: evbuffer_prepend_def frozen_alike_def intro!: exI [of _ "length data"])
  next
    case (Some b0)
    define b1 where "b1 = front_room b0"
    define ch where "ch = hd (chains b1)"
    have 1: "evb_ok b1" "out_ok buf \<longrightarrow> out_ok b1" "frozen_alike buf b1" "contents b1 = contents buf" "chains b1 = ch # tl (chains b1)"
      "off ch \<noteq> 0 \<or> misalign ch \<noteq> 0"
      using front_room_spec [of b0] s [OF Some] by (auto simp: b1_def ch_def frozen_alike_def)
    let ?n = "length data - misalign ch"
    have e: "evbuffer_prepend mm data buf =
      (if misalign ch \<ge> length data then bindE (prepend_first data ch b1) (\<lambda>buf. Inr (0, evbuffer_invoke_callbacks buf))
       else if misalign ch \<noteq> 0 then
         bindE (prepend_first (drop ?n data) ch b1) (\<lambda>buf. prepend_chain mm (take ?n data) buf)
       else prepend_chain mm data b1)"
      using assms(4) b Some by (simp add: evbuffer_prepend_def b1_def ch_def front_room_def Let_def)
    consider "misalign ch \<ge> length data" | "misalign ch < length data" "misalign ch \<noteq> 0" | "misalign ch = 0" "data \<noteq> []"
      by (metis le0 list.size(3) not_le)
    then show ?thesis
    proof cases
      case c: 1
      obtain b2 where "prepend_first data ch b1 = Inr b2" "evb_ok b2" "out_ok b1 \<longrightarrow> out_ok b2" "frozen_alike b1 b2"
        "contents b2 = data @ contents b1"
        using prepend_first_spec [OF 1(1) c 1(5)] by blast
      then show ?thesis using c 1 e by (simp add: frozen_alike_def)
    next
      case c: 2
      let ?bs = "drop ?n data"
      have bs: "length ?bs = misalign ch" "?bs \<noteq> []" using c by auto
      obtain b2 where b2: "prepend_first ?bs ch b1 = Inr b2" "evb_ok b2" "out_ok b1 \<longrightarrow> out_ok b2" "frozen_alike b1 b2"
        "contents b2 = ?bs @ contents b1" "chains b2 \<noteq> []" "off (hd (chains b2)) \<noteq> 0"
        using prepend_first_spec [OF 1(1) _ 1(5), of ?bs] bs by auto
      have "take ?n data \<noteq> []" "length (take ?n data) \<le> max_chain" using c assms(3) by auto
      then obtain r b3 where b3: "prepend_chain mm (take ?n data) b2 = Inr (r, b3)" "evb_ok b3" "out_ok b2 \<longrightarrow> out_ok b3"
        "frozen_alike b2 b3" "r = 0 \<and> contents b3 = take ?n data @ contents b2 \<or> r = -1 \<and> contents b3 = contents b2"
        using prepend_chain_spec [OF b2(2,6,7) _ assms(2)] by blast
      have "evbuffer_prepend mm data buf = Inr (r, b3)" using e c b2(1) b3(1) by simp
      moreover have "r = 0 \<and> contents b3 = data @ contents buf \<or> r = -1 \<and> (\<exists>k. contents b3 = drop k data @ contents buf)"
        using b3(5) b2(5) 1(4) by (metis append.assoc append_take_drop_id)
      moreover have "frozen_alike buf b3" using b3(4) b2(4) 1(3) by (simp add: frozen_alike_def)
      ultimately show ?thesis using b3 b2 1 by blast
    next
      case c: 3
      have "chains b1 \<noteq> []" "off (hd (chains b1)) \<noteq> 0" using 1(5,6) c(1) by (metis list.distinct(1), simp add: ch_def)
      then obtain r b3 where b3: "prepend_chain mm data b1 = Inr (r, b3)" "evb_ok b3" "out_ok b1 \<longrightarrow> out_ok b3"
        "frozen_alike b1 b3" "r = 0 \<and> contents b3 = data @ contents b1 \<or> r = -1 \<and> contents b3 = contents b1"
        using prepend_chain_spec [OF 1(1) _ _ c(2) assms(2,3)] by blast
      have "evbuffer_prepend mm data buf = Inr (r, b3)" using e c b3(1) by simp
      moreover have "r = 0 \<and> contents b3 = data @ contents buf \<or> r = -1 \<and> (\<exists>k. contents b3 = drop k data @ contents buf)"
        using b3(5) 1(4) by (metis append_Nil drop_all order_refl)
      moreover have "frozen_alike buf b3" using b3(4) 1(3) by (simp add: frozen_alike_def)
      ultimately show ?thesis using b3 1 by blast
    qed
  qed
qed

text \<open>
  A prepend that fills the first chain and needs a second one adds the space left in front of
  the old chain, which is none, to the count of bytes added, instead of its own length: on a
  buffer with no other change pending no callback is told.
\<close>

lemma prepend_tells_nobody:
  assumes "prepend_chain mm data buf = Inr (0, buf')" and "misalign (hd (chains buf)) = 0"
    and "n_add_for_cb buf = 0" and "n_del_for_cb buf = 0"
  shows "calls buf' = calls buf \<and> total_len buf' = total_len buf + length data"
  using assms
  by (auto simp: prepend_chain_def bindE_def chain_put_def Let_def evbuffer_invoke_callbacks_def
      evbuffer_run_callbacks_def split: sum.splits option.splits if_splits)

section \<open>Moving between buffers\<close>

lemma move_buffer_spec:
  assumes "evb_ok outbuf" and "evb_ok inbuf" and "\<not> frozen outbuf" and "\<not> freeze_start inbuf"
    and "move_buffer frozen join outbuf inbuf = (r, outbuf', inbuf')"
    and "total_len inbuf \<noteq> 0 \<Longrightarrow> total_len outbuf \<noteq> 0 \<Longrightarrow>
      evb_ok (join outbuf inbuf) \<and> contents (join outbuf inbuf) = joined \<and> frozen_alike outbuf (join outbuf inbuf)"
    and "total_len outbuf = 0 \<Longrightarrow> joined = contents inbuf" and "total_len inbuf = 0 \<Longrightarrow> joined = contents outbuf"
  shows "r = 0 \<and> evb_ok outbuf' \<and> evb_ok inbuf' \<and> contents outbuf' = joined \<and> contents inbuf' = [] \<and>
    frozen_alike outbuf outbuf' \<and> frozen_alike inbuf inbuf'"
proof (cases "total_len inbuf = 0")
  case True
  then have "contents inbuf = []" using contents_length [OF assms(2)] by simp
  then show ?thesis using True assms by (simp add: move_buffer_def frozen_alike_def)
next
  case False
  have z: "evb_ok (ZERO_CHAIN inbuf)" "contents (ZERO_CHAIN inbuf) = []" "frozen_alike inbuf (ZERO_CHAIN inbuf)"
    using data_firstI [of "[]" "[]"] by (simp_all add: ZERO_CHAIN_def evb_ok_def contents_def frozen_alike_def)
  define o1 where "o1 = (if total_len outbuf = 0 then COPY_CHAIN outbuf inbuf else join outbuf inbuf)"
  have o1: "evb_ok o1" "contents o1 = joined" "frozen_alike outbuf o1"
    using assms(2,6,7) False by (auto simp: o1_def COPY_CHAIN_def evb_ok_def contents_def frozen_alike_def)
  have "outbuf' = evbuffer_invoke_callbacks (o1\<lparr>n_add_for_cb := n_add_for_cb o1 + total_len inbuf\<rparr>)"
    "inbuf' = evbuffer_invoke_callbacks ((ZERO_CHAIN inbuf)\<lparr>n_del_for_cb := n_del_for_cb (ZERO_CHAIN inbuf) + total_len inbuf\<rparr>)"
    "r = 0"
    using assms(3-5) False by (simp_all add: move_buffer_def Let_def o1_def)
  then show ?thesis using o1 z by (simp add: frozen_alike_def)
qed

lemma empty_data: "evb_ok buf \<Longrightarrow> total_len buf = 0 \<Longrightarrow> contents buf = []"
  using contents_length by fastforce

lemma data_first_nonempty:
  assumes "data_first chs p" and "sum_list (map off chs) \<noteq> 0"
  obtains xs ys where "chs = xs @ ys" "list_all (\<lambda>ch. off ch \<noteq> 0) xs" "list_all (\<lambda>ch. off ch = 0) ys"
    "p = length xs - 1" "xs \<noteq> []"
proof -
  obtain xs ys where xs: "chs = xs @ ys" "list_all (\<lambda>ch. off ch \<noteq> 0) xs" "list_all (\<lambda>ch. off ch = 0) ys"
    "p = length xs - 1" using assms(1) by (auto simp: data_first_def)
  moreover have "xs \<noteq> []"
  proof
    assume "xs = []"
    then have "sum_list (map off chs) = 0" using xs by (auto simp: list.pred_set sum_list_eq_0_iff)
    then show False using assms(2) by simp
  qed
  ultimately show thesis using that by blast
qed

lemma packed_nonempty: "packed chs p \<Longrightarrow> sum_list (map off chs) \<noteq> 0 \<Longrightarrow> chs \<noteq> [] \<and> off (hd chs) \<noteq> 0"
  by (cases chs) (auto simp: packed_def)

lemma data_first_append:
  assumes "packed chs p" and "chs \<noteq> []" and "off (hd chs) \<noteq> 0" and "data_first chs' p'" and "sum_list (map off chs') \<noteq> 0"
  shows "data_first (chs @ chs') (length chs + p')"
proof -
  obtain xs ys where xs: "chs' = xs @ ys" "list_all (\<lambda>ch. off ch \<noteq> 0) xs" "list_all (\<lambda>ch. off ch = 0) ys"
    "p' = length xs - 1" "xs \<noteq> []" using data_first_nonempty [OF assms(4,5)] by blast
  moreover have "list_all (\<lambda>ch. off ch \<noteq> 0) chs" using assms(1-3) by (auto simp: packed_def)
  ultimately show ?thesis using data_firstI [of "chs @ xs" ys] by (cases xs) auto
qed

text \<open>\<^verbatim>\<open>evbuffer_add_buffer\<close> puts the chains of one buffer behind those of the other.\<close>

lemma evbuffer_add_buffer_spec:
  assumes "out_ok outbuf" and "evb_ok inbuf" and "\<not> freeze_end outbuf" and "\<not> freeze_start inbuf"
    and "evbuffer_add_buffer outbuf inbuf = (r, outbuf', inbuf')"
  shows "r = 0 \<and> evb_ok outbuf' \<and> evb_ok inbuf' \<and> contents outbuf' = contents outbuf @ contents inbuf \<and>
    contents inbuf' = [] \<and> frozen_alike outbuf outbuf' \<and> frozen_alike inbuf inbuf'"
proof (rule move_buffer_spec [OF out_evb [OF assms(1)] assms(2) _ assms(4)])
  show "move_buffer freeze_end APPEND_CHAIN outbuf inbuf = (r, outbuf', inbuf')"
    using assms(5) by (simp add: evbuffer_add_buffer_def)
  assume ne: "total_len inbuf \<noteq> 0" "total_len outbuf \<noteq> 0"
  have o: "total_len outbuf = sum_list (map off (chains outbuf))" "packed (chains outbuf) (last_with_datap outbuf)"
    "list_all chain_ok (chains outbuf)" using assms(1) by (simp_all add: out_ok_def)
  then have "chains outbuf \<noteq> []" "off (hd (chains outbuf)) \<noteq> 0" using ne packed_nonempty by metis+
  then have "data_first (chains outbuf @ chains inbuf) (length (chains outbuf) + last_with_datap inbuf)"
    using data_first_append [OF o(2)] assms(2) ne by (simp add: evb_ok_def)
  then show "evb_ok (APPEND_CHAIN outbuf inbuf) \<and> contents (APPEND_CHAIN outbuf inbuf) = contents outbuf @ contents inbuf \<and>
      frozen_alike outbuf (APPEND_CHAIN outbuf inbuf)"
    using o assms(2) by (simp add: APPEND_CHAIN_def evb_ok_def contents_def frozen_alike_def)
qed (use assms empty_data out_evb in auto)

text \<open>\<^verbatim>\<open>evbuffer_prepend_buffer\<close> puts them in front.\<close>

lemma evbuffer_prepend_buffer_spec:
  assumes "evb_ok outbuf" and "out_ok inbuf" and "\<not> freeze_start outbuf" and "\<not> freeze_start inbuf"
    and "evbuffer_prepend_buffer outbuf inbuf = (r, outbuf', inbuf')"
  shows "r = 0 \<and> evb_ok outbuf' \<and> evb_ok inbuf' \<and> contents outbuf' = contents inbuf @ contents outbuf \<and>
    contents inbuf' = [] \<and> frozen_alike outbuf outbuf' \<and> frozen_alike inbuf inbuf'"
proof (rule move_buffer_spec [OF assms(1) out_evb [OF assms(2)] _ assms(4)])
  show "move_buffer freeze_start PREPEND_CHAIN outbuf inbuf = (r, outbuf', inbuf')"
    using assms(5) by (simp add: evbuffer_prepend_buffer_def)
  assume ne: "total_len inbuf \<noteq> 0" "total_len outbuf \<noteq> 0"
  have i: "total_len inbuf = sum_list (map off (chains inbuf))" "packed (chains inbuf) (last_with_datap inbuf)"
    "list_all chain_ok (chains inbuf)" using assms(2) by (simp_all add: out_ok_def)
  then have ic: "chains inbuf \<noteq> []" "off (hd (chains inbuf)) \<noteq> 0" using ne packed_nonempty by metis+
  have o: "data_first (chains outbuf) (last_with_datap outbuf)" "sum_list (map off (chains outbuf)) \<noteq> 0"
    using assms(1) ne by (simp_all add: evb_ok_def)
  obtain xs ys where xs: "chains outbuf = xs @ ys" "last_with_datap outbuf = length xs - 1" "xs \<noteq> []"
    by (rule data_first_nonempty [OF o])
  then have "last_with_datap outbuf \<noteq> length (chains outbuf)" by (cases xs) simp_all
  moreover have "data_first (chains inbuf @ chains outbuf) (length (chains inbuf) + last_with_datap outbuf)"
    by (rule data_first_append [OF i(2) ic o])
  ultimately show "evb_ok (PREPEND_CHAIN outbuf inbuf) \<and> contents (PREPEND_CHAIN outbuf inbuf) = contents inbuf @ contents outbuf \<and>
      frozen_alike outbuf (PREPEND_CHAIN outbuf inbuf)"
    using i assms(1) by (simp add: PREPEND_CHAIN_def evb_ok_def contents_def frozen_alike_def)
qed (use assms empty_data out_evb in auto)

text \<open>\<^verbatim>\<open>evbuffer_remove_buffer\<close>: whole chains are moved, the rest is copied.\<close>

lemma move_loop_spec:
  assumes "list_all chain_ok chs" and "n < sum_list (map off chs)"
  shows "\<exists>moved rest d p'. move_loop n chs p = Inr (moved, rest, d, p') \<and> chs = moved @ rest \<and> rest \<noteq> [] \<and>
    d < off (hd rest) \<and> n = sum_list (map off moved) + d \<and>
    (data_first chs p \<longrightarrow> data_first rest p' \<and> list_all (\<lambda>ch. off ch \<noteq> 0) moved) \<and> (packed chs p \<longrightarrow> packed rest p')"
  using assms
proof (induction n chs p rule: move_loop.induct)
  case (2 n ch chs p)
  show ?case
  proof (cases "off ch \<le> n")
    case True
    then obtain moved rest d p' where 1: "move_loop (n - off ch) chs (p - 1) = Inr (moved, rest, d, p')" "chs = moved @ rest"
      "rest \<noteq> []" "d < off (hd rest)" "n - off ch = sum_list (map off moved) + d"
      "data_first chs (p - 1) \<longrightarrow> data_first rest p' \<and> list_all (\<lambda>ch. off ch \<noteq> 0) moved" "packed chs (p - 1) \<longrightarrow> packed rest p'"
      using 2 by fastforce
    have s: "sum_list (map off (ch # chs)) \<noteq> 0" using "2.prems"(2) by linarith
    have "packed (ch # chs) p \<Longrightarrow> off ch \<noteq> 0" using data_first_tl [OF packed_data_first s] by blast
    then show ?thesis
      using 1 True data_first_tl [OF _ s] packed_tl
      by (intro exI [of _ "ch # moved"] exI [of _ rest] exI [of _ d] exI [of _ p']) auto
  next
    case False
    then show ?thesis by (intro exI [of _ "[]"] exI [of _ "ch # chs"] exI [of _ n] exI [of _ p]) simp
  qed
qed simp

lemma packed_free_trailing:
  assumes "out_ok buf"
  defines "b \<equiv> evbuffer_free_trailing_empty_chains buf"
  shows "list_all chain_ok (chains b) \<and> list_all (\<lambda>ch. off ch \<noteq> 0) (chains b) \<and> contents b = contents buf \<and>
    total_len b = sum_list (map off (chains b)) \<and> last_with_datap b = length (chains b) - 1 \<and> frozen_alike buf b"
proof -
  have ok: "list_all chain_ok (chains buf)" "total_len buf = sum_list (map off (chains buf))"
    and pk: "packed (chains buf) (last_with_datap buf)" using assms(1) by (simp_all add: out_ok_def)
  show ?thesis
    using pk
  proof (cases rule: packed_cases)
    case 1
    then show ?thesis using ok
      by (simp add: b_def evbuffer_free_trailing_empty_chains_def contents_def frozen_alike_def)
  next
    case (2 c)
    then show ?thesis using ok
      by (simp add: b_def evbuffer_free_trailing_empty_chains_def first_victim_def contents_def frozen_alike_def
          chain_data_def mem_get_def)
  next
    case (3 xs c)
    then show ?thesis using ok
      by (simp add: b_def evbuffer_free_trailing_empty_chains_def first_victim_def contents_def frozen_alike_def)
  qed
qed

lemma advance_loop_full: "list_all (\<lambda>ch. off ch \<noteq> 0) chs \<Longrightarrow> chs \<noteq> [] \<Longrightarrow> advance_loop chs p = p + (length chs - 1)"
  by (induction chs p rule: advance_loop.induct) auto

text \<open>The chains moved, put behind the data of the other buffer.\<close>

lemma take_moved:
  assumes "out_ok dst" and "list_all chain_ok moved" and "list_all (\<lambda>ch. off ch \<noteq> 0) moved" and "moved \<noteq> []"
  defines "d \<equiv> evbuffer_free_trailing_empty_chains dst"
  defines "e \<equiv> advance_last_with_data (d\<lparr>chains := chains d @ moved\<rparr>)"
  shows "out_ok (count_added (sum_list (map off moved)) e) \<and>
    contents (count_added (sum_list (map off moved)) e) = contents dst @ concat (map chain_data moved) \<and>
    frozen_alike dst (count_added (sum_list (map off moved)) e)"
proof -
  have d: "list_all chain_ok (chains d)" "list_all (\<lambda>ch. off ch \<noteq> 0) (chains d)" "contents d = contents dst"
    "total_len d = sum_list (map off (chains d))" "last_with_datap d = length (chains d) - 1" "frozen_alike dst d"
    using packed_free_trailing [OF assms(1)] by (auto simp: d_def)
  let ?cs = "chains d @ moved"
  have full: "list_all (\<lambda>ch. off ch \<noteq> 0) ?cs" using d(2) assms(3) by simp
  have "advance_loop (drop (length (chains d) - 1) ?cs) (length (chains d) - 1) = length ?cs - 1"
  proof -
    have "list_all (\<lambda>ch. off ch \<noteq> 0) (drop (length (chains d) - 1) ?cs)"
      using full by (auto simp: list.pred_set dest: in_set_dropD)
    moreover have "drop (length (chains d) - 1) ?cs \<noteq> []" using assms(4) by simp
    ultimately show ?thesis using assms(4) by (subst advance_loop_full) auto
  qed
  then have "packed ?cs (last_with_datap e)" using full d(5) by (simp add: e_def advance_last_with_data_def packed_def)
  then show ?thesis
    using d assms(2) by (simp add: e_def advance_last_with_data_def count_added_def out_ok_def contents_def frozen_alike_def)
qed

text \<open>An operation is refused only when the allocator has no memory left.\<close>

definition memory :: "allocator \<Rightarrow> bool" where
  "memory mm \<longleftrightarrow> (\<forall>n. mm n \<noteq> None)"

lemma chain_new_memory: "memory mm \<Longrightarrow> evbuffer_chain_new mm n \<noteq> Inr None"
  by (auto simp: evbuffer_chain_new_def memory_def split: option.splits)

lemma bindE_Inr: "bindE m f = Inr y \<longleftrightarrow> (\<exists>x. m = Inr x \<and> f x = Inr y)"
  by (cases m) simp_all

lemma ensure_chain_memory: "memory mm \<Longrightarrow> ensure_chain mm n buf \<noteq> Inr None"
  using chain_new_memory by (auto simp: ensure_chain_def bindE_Inr)

lemma ensured_memory: "memory mm \<Longrightarrow> ensure_chain mm n buf = Inr x \<Longrightarrow> \<exists>b. x = Some b"
  using ensure_chain_memory [of mm n buf] by (cases x) simp_all

lemma add_chain_memory: "memory mm \<Longrightarrow> add_chain mm data ch buf = Inr (r, buf') \<Longrightarrow> r = 0"
  using chain_new_memory [of mm "grow_size ch (length data)"]
  by (auto simp: add_chain_def Let_def bindE_Inr split: option.splits)

lemma evbuffer_add_memory:
  assumes "memory mm" and "\<not> freeze_end buf" and "evbuffer_add mm data buf = Inr (r, buf')"
  shows "r = 0"
proof -
  obtain b where b: "ensure_chain mm (length data) buf = Inr (Some b)"
    using ensured_memory [OF assms(1), of "length data" buf] assms(2,3) by (fastforce simp: evbuffer_add_def bindE_Inr)
  show ?thesis
    using assms(2,3) add_chain_memory [OF assms(1)]
    by (auto simp: evbuffer_add_def b Let_def bindE_Inr split: if_splits)
qed

lemma prepend_chain_memory: "memory mm \<Longrightarrow> prepend_chain mm data buf = Inr (r, buf') \<Longrightarrow> r = 0"
  using chain_new_memory [of mm "length data"]
  by (auto simp: prepend_chain_def Let_def bindE_Inr split: option.splits)

lemma evbuffer_prepend_memory:
  assumes "memory mm" and "\<not> freeze_start buf" and "evbuffer_prepend mm data buf = Inr (r, buf')"
  shows "r = 0"
proof -
  obtain b where b: "ensure_chain mm (length data) buf = Inr (Some b)"
    using ensured_memory [OF assms(1), of "length data" buf] assms(2,3) by (fastforce simp: evbuffer_prepend_def bindE_Inr)
  show ?thesis
    using assms(2,3) prepend_chain_memory [OF assms(1)]
    by (simp only: evbuffer_prepend_def b Let_def bindE_simps if_False option.case split: if_splits)
      (auto simp: bindE_Inr)
qed

lemma evbuffer_remove_buffer_spec:
  assumes "evb_ok src" and "out_ok dst" and "mm_ok mm" and "\<not> freeze_end dst" and "\<not> freeze_start src"
    and "n < total_len src" and "n \<noteq> 0"
  shows "\<exists>src' dst'. evbuffer_remove_buffer mm n src dst = Inr (to_int (int n), src', dst') \<and> evb_ok src' \<and> out_ok dst' \<and>
    contents src' = drop n (contents src) \<and>
    (contents dst' = contents dst @ take n (contents src) \<or>
     \<not> memory mm \<and> (\<exists>k<n. contents dst' = contents dst @ take k (contents src)))"
proof -
  have src: "list_all chain_ok (chains src)" "total_len src = sum_list (map off (chains src))"
    "data_first (chains src) (last_with_datap src)" using assms(1) by (simp_all add: evb_ok_def)
  obtain moved rest d p where m: "move_loop n (chains src) (last_with_datap src) = Inr (moved, rest, d, p)"
    "chains src = moved @ rest" "rest \<noteq> []" "d < off (hd rest)" "n = sum_list (map off moved) + d"
    "data_first rest p" "list_all (\<lambda>ch. off ch \<noteq> 0) moved"
    using move_loop_spec [OF src(1), of n "last_with_datap src"] assms(6) src(2,3) by auto
  obtain ch rs where r: "rest = ch # rs" using m(3) by (cases rest) auto
  have okm: "list_all chain_ok moved" and ch: "chain_ok ch" and okr: "list_all chain_ok rs" using src(1) m(2) r by auto
  define nread where "nread = n - d"
  have nread: "nread = sum_list (map off moved)" using m(5) by (simp add: nread_def)
  define dst1 where "dst1 = (if nread \<noteq> 0 then
      let dst = evbuffer_free_trailing_empty_chains dst;
          dst = advance_last_with_data (dst\<lparr>chains := chains dst @ moved\<rparr>)
      in count_added nread dst else dst)"
  have d1: "out_ok dst1 \<and> contents dst1 = contents dst @ concat (map chain_data moved) \<and> frozen_alike dst dst1"
  proof (cases "moved = []")
    case True
    then have "dst1 = dst" using nread by (simp add: dst1_def)
    then show ?thesis using True assms(2) by (simp add: frozen_alike_def)
  next
    case False
    then obtain m ms where "moved = m # ms" by (cases moved) simp_all
    then have "nread \<noteq> 0" using nread m(7) by simp
    then show ?thesis using take_moved [OF assms(2) okm m(7) False] nread by (simp add: dst1_def Let_def)
  qed
  let ?bs = "take d (chain_data ch)"
  have get: "chain_get (misalign ch) d ch = Inr ?bs" "length ?bs = d"
    using m(4) r ch by (auto simp: chain_get_def chain_ok_def chain_data_def mem_get_def min_def)
  have "length ?bs \<le> max_chain" using get(2) m(4) r ch by (simp add: chain_ok_def)
  moreover have "\<not> freeze_end dst1" using d1 assms(4) by (simp add: frozen_alike_def)
  ultimately obtain x dst2 where a: "evbuffer_add mm ?bs dst1 = Inr (x, dst2)" "out_ok dst2"
    and a3': "x = 0 \<and> contents dst2 = contents dst1 @ ?bs \<or> x = -1 \<and> contents dst2 = contents dst1"
    and fe: "\<not> freeze_end dst1"
    using evbuffer_add_spec [OF conjunct1 [OF d1] assms(3), of ?bs] by blast
  have "memory mm \<Longrightarrow> x = 0" by (rule evbuffer_add_memory [OF _ fe a(1)])
  then have a3: "contents dst2 = contents dst1 @ ?bs \<or> \<not> memory mm \<and> contents dst2 = contents dst1"
    using a3' by auto
  let ?ch = "ch\<lparr>misalign := misalign ch + d, off := off ch - d\<rparr>"
  let ?src = "src\<lparr>last_with_datap := p, chains := ?ch # rs, total_len := total_len src - n, n_del_for_cb := n_del_for_cb src + n\<rparr>"
  have c: "chain_ok ?ch" "chain_data ?ch = drop d (chain_data ch)" "off ?ch \<noteq> 0"
    using chain_drop [OF ch, of d] m(4) r by auto
  have e: "evbuffer_remove_buffer mm n src dst = Inr (to_int (int n), evbuffer_invoke_callbacks ?src, evbuffer_invoke_callbacks dst2)"
  proof -
    have "evbuffer_remove_buffer mm n src dst = bindE (chain_get (misalign (hd rest)) d (hd rest)) (\<lambda>bs.
        bindE (evbuffer_add mm bs dst1) (\<lambda>(_, dst). Inr (to_int (int n), evbuffer_invoke_callbacks
          ((src\<lparr>chains := rest, last_with_datap := p\<rparr>)\<lparr>chains := (hd rest)\<lparr>misalign := misalign (hd rest) + d, off := off (hd rest) - d\<rparr> # tl rest,
             total_len := total_len src - n, n_del_for_cb := n_del_for_cb src + n\<rparr>), evbuffer_invoke_callbacks dst)))"
      using assms(4-7) m(1) by (simp add: evbuffer_remove_buffer_def dst1_def nread_def Let_def)
    then show ?thesis using get a(1) r by simp
  qed
  have "data_first (?ch # rs) p" using data_first_hd [of ch rs p ?ch] m(4,6) r c(3) by simp
  then have ok: "evb_ok ?src" using c okr m(2,4,5) src(2) r by (simp add: evb_ok_def)
  have cs: "contents src = concat (map chain_data moved) @ chain_data ch @ concat (map chain_data rs)"
    using m(2) r by (simp add: contents_def)
  have lm: "length (concat (map chain_data moved)) = n - d" using chains_length [OF okm] nread nread_def by simp
  have "d \<le> n" using m(5) by simp
  have split_at: "take n (A @ B @ C) = A @ take d B \<and> drop n (A @ B @ C) = drop d B @ C"
    if "length A = n - d" and "d < length B" for A B C :: "byte list"
    using that \<open>d \<le> n\<close> by simp
  have "contents ?src = drop d (chain_data ch) @ concat (map chain_data rs)" using c(2) by (simp add: contents_def)
  then have t: "take n (contents src) = concat (map chain_data moved) @ ?bs" "drop n (contents src) = contents ?src"
    using split_at [OF lm, of "chain_data ch" "concat (map chain_data rs)"] m(4) r length_chain_data [OF ch]
    unfolding cs by simp_all
  have "contents dst2 = contents dst @ take n (contents src) \<or>
      \<not> memory mm \<and> (\<exists>k<n. contents dst2 = contents dst @ take k (contents src))"
  proof (cases "d = 0")
    case True
    then show ?thesis using a3 d1 t(1) by auto
  next
    case False
    have "concat (map chain_data moved) = take (n - d) (contents src)" using lm by (simp add: cs)
    moreover have "n - d < n" using False \<open>d \<le> n\<close> by simp
    ultimately show ?thesis using a3 d1 t(1) by auto
  qed
  then show ?thesis using e ok t(2) a(2) by auto
qed


section \<open>The buffer as a queue of bytes\<close>

datatype buffer_op = OpAdd "byte list" | OpPrepend "byte list" | OpDrain nat | OpRemove nat

datatype buffer_out = Ret int | Bytes int "byte list"

fun do_op :: "allocator \<Rightarrow> buffer_op \<Rightarrow> evbuffer \<Rightarrow> evbuffer_fault + buffer_out \<times> evbuffer" where
  "do_op mm (OpAdd bs) buf = bindE (evbuffer_add mm bs buf) (\<lambda>(r, buf). Inr (Ret r, buf))"
| "do_op mm (OpPrepend bs) buf = bindE (evbuffer_prepend mm bs buf) (\<lambda>(r, buf). Inr (Ret r, buf))"
| "do_op mm (OpDrain n) buf = bindE (evbuffer_drain n buf) (\<lambda>(r, buf). Inr (Ret r, buf))"
| "do_op mm (OpRemove n) buf = bindE (evbuffer_remove n buf) (\<lambda>((r, bs), buf). Inr (Bytes r bs, buf))"

fun do_ops :: "allocator \<Rightarrow> buffer_op list \<Rightarrow> evbuffer \<Rightarrow> evbuffer_fault + buffer_out list \<times> evbuffer" where
  "do_ops mm [] buf = Inr ([], buf)"
| "do_ops mm (op # ops) buf =
     bindE (do_op mm op buf) (\<lambda>(out, buf). bindE (do_ops mm ops buf) (\<lambda>(outs, buf). Inr (out # outs, buf)))"

text \<open>The abstract queue: what an operation may answer and leave, with and without memory.\<close>

fun queue_step :: "bool \<Rightarrow> byte list \<Rightarrow> buffer_op \<Rightarrow> buffer_out \<Rightarrow> byte list \<Rightarrow> bool" where
  "queue_step mem q (OpAdd bs) out q' \<longleftrightarrow> out = Ret 0 \<and> q' = q @ bs \<or> \<not> mem \<and> out = Ret (-1) \<and> q' = q"
| "queue_step mem q (OpPrepend bs) out q' \<longleftrightarrow>
     out = Ret 0 \<and> q' = bs @ q \<or> \<not> mem \<and> out = Ret (-1) \<and> (\<exists>k\<le>length bs. q' = drop k bs @ q)"
| "queue_step mem q (OpDrain n) out q' \<longleftrightarrow> out = Ret 0 \<and> q' = drop n q"
| "queue_step mem q (OpRemove n) out q' \<longleftrightarrow> out = Bytes (to_int (int (min n (length q)))) (take n q) \<and> q' = drop n q"

fun queue_steps :: "bool \<Rightarrow> byte list \<Rightarrow> buffer_op list \<Rightarrow> buffer_out list \<Rightarrow> byte list \<Rightarrow> bool" where
  "queue_steps mem q [] outs q' \<longleftrightarrow> outs = [] \<and> q' = q"
| "queue_steps mem q (op # ops) [] q' \<longleftrightarrow> False"
| "queue_steps mem q (op # ops) (out # outs) q' \<longleftrightarrow>
     (\<exists>q1. queue_step mem q op out q1 \<and> queue_steps mem q1 ops outs q')"

fun op_fits :: "buffer_op \<Rightarrow> bool" where
  "op_fits (OpAdd bs) = (length bs \<le> max_chain)"
| "op_fits (OpPrepend bs) = (length bs \<le> max_chain)"
| "op_fits op = True"

definition thawed :: "evbuffer \<Rightarrow> bool" where
  "thawed buf \<longleftrightarrow> \<not> freeze_start buf \<and> \<not> freeze_end buf"

lemma thawed_alike: "frozen_alike buf buf' \<Longrightarrow> thawed buf \<Longrightarrow> thawed buf'"
  by (simp add: frozen_alike_def thawed_def)

lemma do_op_spec:
  assumes "out_ok buf" and "thawed buf" and "mm_ok mm" and "op_fits op"
  shows "\<exists>out buf'. do_op mm op buf = Inr (out, buf') \<and> out_ok buf' \<and> thawed buf' \<and>
    queue_step (memory mm) (contents buf) op out (contents buf')"
proof -
  have ok: "evb_ok buf" "\<not> freeze_start buf" "\<not> freeze_end buf"
    using assms(1,2) by (simp_all add: out_evb thawed_def)
  have len: "length (contents buf) = total_len buf" by (rule contents_length [OF ok(1)])
  show ?thesis
  proof (cases op)
    case (OpAdd bs)
    then obtain r buf' where a: "evbuffer_add mm bs buf = Inr (r, buf')" "out_ok buf'" "frozen_alike buf buf'"
      "r = 0 \<and> contents buf' = contents buf @ bs \<or> r = -1 \<and> contents buf' = contents buf"
      using evbuffer_add_spec [OF assms(1,3) _ ok(3), of bs] assms(4) by auto
    have "memory mm \<Longrightarrow> r = 0" by (rule evbuffer_add_memory [OF _ ok(3) a(1)])
    then show ?thesis using a OpAdd thawed_alike [OF a(3) assms(2)] by auto
  next
    case (OpPrepend bs)
    then obtain r buf' where a: "evbuffer_prepend mm bs buf = Inr (r, buf')" "out_ok buf'" "frozen_alike buf buf'"
      "r = 0 \<and> contents buf' = bs @ contents buf \<or> r = -1 \<and> (\<exists>k. contents buf' = drop k bs @ contents buf)"
      using evbuffer_prepend_spec [OF ok(1) assms(3) _ ok(2), of bs] assms(1,4) by auto
    have "memory mm \<Longrightarrow> r = 0" by (rule evbuffer_prepend_memory [OF _ ok(2) a(1)])
    moreover have "\<exists>k'\<le>length bs. drop k bs = drop k' bs" for k
      by (cases "k \<le> length bs") auto
    ultimately show ?thesis using a OpPrepend thawed_alike [OF a(3) assms(2)] by (auto 4 3)
  next
    case (OpDrain n)
    obtain buf' where "evbuffer_drain n buf = Inr (0, buf')" "out_ok buf'" "frozen_alike buf buf'" "contents buf' = drop n (contents buf)"
      using evbuffer_drain_spec [OF ok(1,2)] assms(1) by blast
    then show ?thesis using OpDrain thawed_alike [OF _ assms(2)] by auto
  next
    case (OpRemove n)
    obtain buf' where "evbuffer_remove n buf = Inr ((to_int (int (min n (total_len buf))), take n (contents buf)), buf')"
      "out_ok buf'" "frozen_alike buf buf'" "contents buf' = drop n (contents buf)"
      using evbuffer_remove_spec [OF ok(1,2)] assms(1) by blast
    then show ?thesis using OpRemove thawed_alike [OF _ assms(2)] len by auto
  qed
qed

lemma do_ops_spec:
  assumes "out_ok buf" and "thawed buf" and "mm_ok mm" and "list_all op_fits ops"
  shows "\<exists>outs buf'. do_ops mm ops buf = Inr (outs, buf') \<and> out_ok buf' \<and> thawed buf' \<and>
    queue_steps (memory mm) (contents buf) ops outs (contents buf')"
  using assms
proof (induction ops arbitrary: buf)
  case (Cons op ops)
  obtain out buf1 where 1: "do_op mm op buf = Inr (out, buf1)" "out_ok buf1" "thawed buf1"
    "queue_step (memory mm) (contents buf) op out (contents buf1)"
    using do_op_spec [OF Cons.prems(1-3), of op] Cons.prems(4) by auto
  obtain outs buf2 where "do_ops mm ops buf1 = Inr (outs, buf2)" "out_ok buf2" "thawed buf2"
    "queue_steps (memory mm) (contents buf1) ops outs (contents buf2)"
    using Cons.IH [OF 1(2,3) Cons.prems(3)] Cons.prems(4) by auto
  then show ?case using 1 by auto
qed simp

lemma new_buffer_ok: "out_ok evbuffer_new \<and> thawed evbuffer_new \<and> contents evbuffer_new = []"
  by (simp add: evbuffer_new_def out_ok_def thawed_def contents_def packed_def)

text \<open>
  C33: A new buffer behaves as a queue of bytes under every sequence of adding, prepending,
  draining and removing (sizes up to the bound): no operation faults, the bytes removed are the
  bytes the queue holds at that moment, an operation is refused only when the allocator has no
  memory, and then it leaves the queue as it was (a refused prepend may leave the tail of its
  data in front); the length the buffer announces is the length of the queue.
\<close>

theorem evbuffer_is_byte_queue:
  assumes "mm_ok mm" and "list_all op_fits ops"
  shows "\<exists>outs buf. do_ops mm ops evbuffer_new = Inr (outs, buf) \<and> total_len buf = length (contents buf) \<and>
    queue_steps (memory mm) [] ops outs (contents buf)"
  using do_ops_spec [OF _ _ assms, of evbuffer_new] new_buffer_ok contents_length [OF out_evb] by metis

definition full_memory :: allocator where "full_memory n = Some (replicate n 0)"

lemma full_memory_ok: "mm_ok full_memory \<and> memory full_memory"
  by (simp add: mm_ok_def memory_def full_memory_def)

theorem evbuffer_is_byte_queue_witness:
  "\<exists>buf. do_ops full_memory [OpAdd [1, 2, 3], OpPrepend [9], OpDrain 2, OpRemove 5] evbuffer_new =
     Inr ([Ret 0, Ret 0, Ret 0, Bytes 2 [2, 3]], buf) \<and> contents buf = []"
proof -
  have "list_all op_fits [OpAdd [1, 2, 3], OpPrepend [9], OpDrain 2, OpRemove 5]" by (simp add: max_chain_def)
  then obtain outs buf where "do_ops full_memory [OpAdd [1, 2, 3], OpPrepend [9], OpDrain 2, OpRemove 5] evbuffer_new = Inr (outs, buf)"
    "queue_steps True [] [OpAdd [1, 2, 3], OpPrepend [9], OpDrain 2, OpRemove 5] outs (contents buf)"
    using evbuffer_is_byte_queue [of full_memory "[OpAdd [1, 2, 3], OpPrepend [9], OpDrain 2, OpRemove 5]"] full_memory_ok by auto
  then show ?thesis
    by (cases outs; cases "tl outs"; cases "tl (tl outs)"; cases "tl (tl (tl outs))") (auto simp: to_int_def)
qed

definition add_bytes :: "byte list \<Rightarrow> evbuffer" where
  "add_bytes bs = evbuffer_new\<lparr>chains := [\<lparr>buffer = bs @ replicate (976 - length bs) 0, misalign = 0, off = length bs\<rparr>],
     total_len := length bs\<rparr>"

lemma add_bytes_ok: "0 < length bs \<Longrightarrow> length bs \<le> 976 \<Longrightarrow> out_ok (add_bytes bs) \<and> thawed (add_bytes bs) \<and> contents (add_bytes bs) = bs"
  by (simp add: add_bytes_def evbuffer_new_def out_ok_def thawed_def contents_def packed_def chain_ok_def chain_data_def
      mem_get_def max_chain_def)

text \<open>
  \<^verbatim>\<open>evbuffer_remove_buffer\<close> moves the first bytes of one buffer behind the other's: with
  memory available the destination gains exactly the bytes the source loses, in order, none is
  copied twice or dropped, whatever part of them moves as whole chains.
\<close>

theorem remove_buffer_moves:
  assumes "out_ok src" and "out_ok dst" and "thawed src" and "thawed dst" and "mm_ok mm" and "memory mm"
  shows "\<exists>src' dst'. evbuffer_remove_buffer mm n src dst = Inr (to_int (int (min n (length (contents src)))), src', dst') \<and>
    contents dst' = contents dst @ take n (contents src) \<and> contents src' = drop n (contents src)"
proof -
  have ok: "evb_ok src" "\<not> freeze_start src" "\<not> freeze_end dst" using assms by (simp_all add: out_evb thawed_def)
  have len: "length (contents src) = total_len src" by (rule contents_length [OF ok(1)])
  consider "n = 0" | "n \<noteq> 0" "n < total_len src" | "n \<noteq> 0" "n \<ge> total_len src" by linarith
  then show ?thesis
  proof cases
    case 1
    then show ?thesis by (simp add: evbuffer_remove_buffer_def to_int_def)
  next
    case 2
    then show ?thesis using evbuffer_remove_buffer_spec [OF ok(1) assms(2,5) ok(3,2) 2(2,1)] assms(6) len
      by (auto simp: min_def)
  next
    case 3
    obtain r dst' src' where m: "evbuffer_add_buffer dst src = (r, dst', src')" by (rule prod_cases3)
    then have "contents dst' = contents dst @ contents src" "contents src' = []"
      using evbuffer_add_buffer_spec [OF assms(2) ok(1) ok(3,2) m] by simp_all
    then show ?thesis using 3 ok(2,3) m len by (simp add: evbuffer_remove_buffer_def min_def)
  qed
qed

theorem remove_buffer_moves_witness:
  "\<exists>src' dst'. evbuffer_remove_buffer full_memory 2 (add_bytes [1, 2, 3]) (add_bytes [7]) = Inr (2, src', dst') \<and>
     contents dst' = [7, 1, 2] \<and> contents src' = [3]"
proof -
  note 1 = add_bytes_ok [of "[1, 2, 3]"] and 2 = add_bytes_ok [of "[7]"]
  show ?thesis
    using remove_buffer_moves [of "add_bytes [1, 2, 3]" "add_bytes [7]" full_memory 2] 1 2 full_memory_ok
    by (simp add: to_int_def)
qed

end
