(* ===== verification/BufferIO.thy ===== *)
theory BufferIO
  imports Evbuffer
begin

unbundle bit_operations_syntax

text \<open>
  Reading from a descriptor into a byte buffer and writing out of it (\<^verbatim>\<open>buffer.c\<close>, the branches
  for \<^verbatim>\<open>readv\<close> and \<^verbatim>\<open>writev\<close>): room for the bytes to come in at most four chains, the vectors
  handed to the system call, and the account of what it did.

  The system calls are arguments. \<open>readv\<close> gets the lengths of the vectors and returns the
  bytes, or \<open>None\<close> for an error; \<open>writev\<close> gets the bytes and returns how many it took.
\<close>

section \<open>Room at the end\<close>

definition NUM_READ_IOVEC :: nat where "NUM_READ_IOVEC = 4"
definition EVBUFFER_MAX_READ :: int where "EVBUFFER_MAX_READ = 4096"
definition NUM_WRITE_IOVEC :: nat where "NUM_WRITE_IOVEC = 128"

text \<open>
  The chains from \<^verbatim>\<open>*last_with_datap\<close> on, with the space found, the number of chains used,
  and whether it is enough. An empty chain is realigned.
\<close>

fun scan_space :: "nat \<Rightarrow> nat \<Rightarrow> nat \<Rightarrow> nat \<Rightarrow> evbuffer_chain list \<Rightarrow> evbuffer_chain list \<times> nat \<times> nat \<times> bool" where
  "scan_space datlen n avail used [] = ([], avail, used, False)"
| "scan_space datlen n avail used (ch # chs) =
     (let ch' = (if off ch \<noteq> 0 then ch else ch\<lparr>misalign := 0\<rparr>);
          avail' = avail + (if off ch \<noteq> 0 then CHAIN_SPACE_LEN ch else length (buffer ch));
          used' = (if off ch \<noteq> 0 \<and> CHAIN_SPACE_LEN ch = 0 then used else used + 1)
      in if avail' \<ge> datlen then (ch' # chs, avail', used', True)
         else if used' = n then (ch' # chs, avail', used', False)
         else let (chs', r) = scan_space datlen n avail' used' chs in (ch' # chs', r))"

definition expand_fast :: "allocator \<Rightarrow> nat \<Rightarrow> nat \<Rightarrow> evbuffer \<Rightarrow> evbuffer_fault + int \<times> evbuffer" where
  "expand_fast mm datlen n buf =
     (if chains buf = [] then
        bindE (evbuffer_chain_new mm datlen) (\<lambda>new. case new of
          None \<Rightarrow> Inr (- 1, buf) | Some ch \<Rightarrow> Inr (0, evbuffer_chain_insert ch buf))
      else
        let p = last_with_datap buf;
            (tail, avail, used, enough) = scan_space datlen n 0 0 (drop p (chains buf));
            buf = buf\<lparr>chains := take p (chains buf) @ tail\<rparr>
        in
        if enough then Inr (0, buf)
        else if used < n then
          bindE (evbuffer_chain_new mm (datlen - avail)) (\<lambda>new. case new of
            None \<Rightarrow> Inr (- 1, buf) | Some tmp \<Rightarrow> Inr (0, buf\<lparr>chains := chains buf @ [tmp]\<rparr>))
        else
          let ch = chains buf ! p; rmv_all = (off ch = 0);
              avail = (if rmv_all then 0 else CHAIN_SPACE_LEN ch)
          in bindE (evbuffer_chain_new mm (datlen - avail)) (\<lambda>new. case new of
               None \<Rightarrow> Inr (- 1, if rmv_all then ZERO_CHAIN buf else buf\<lparr>chains := take (p + 1) (chains buf)\<rparr>)
             | Some tmp \<Rightarrow>
                 Inr (0, if rmv_all then buf\<lparr>chains := [tmp], last_with_datap := 0\<rparr>
                         else buf\<lparr>chains := take (p + 1) (chains buf) @ [tmp]\<rparr>)))"

section \<open>Reading\<close>

text \<open>The lengths of the vectors; they start at the free space of consecutive chains.\<close>

fun vec_loop :: "bool \<Rightarrow> nat \<Rightarrow> nat \<Rightarrow> nat \<Rightarrow> evbuffer_chain list \<Rightarrow> evbuffer_fault + nat list" where
  "vec_loop exact howmuch 0 so_far chs = Inr []"
| "vec_loop exact howmuch (Suc n) so_far chs =
     (if so_far \<ge> howmuch then Inr []
      else case chs of
        [] \<Rightarrow> Inl NullChain
      | ch # chs \<Rightarrow>
          let avail = CHAIN_SPACE_LEN ch;
              avail = (if avail > howmuch - so_far \<and> exact then howmuch - so_far else avail)
          in bindE (vec_loop exact howmuch n (so_far + avail) chs) (\<lambda>lens. Inr (avail # lens)))"

definition read_setup_vecs :: "evbuffer \<Rightarrow> nat \<Rightarrow> nat \<Rightarrow> bool \<Rightarrow> evbuffer_fault + nat list \<times> nat" where
  "read_setup_vecs buf howmuch n_vecs_avail exact =
     (let p = last_with_datap buf in
      if p \<ge> length (chains buf) then Inl NullChain
      else
        let first = (if CHAIN_SPACE_LEN (chains buf ! p) = 0 then p + 1 else p)
        in bindE (vec_loop exact howmuch n_vecs_avail 0 (drop first (chains buf))) (\<lambda>lens. Inr (lens, first)))"

text \<open>The bytes \<^verbatim>\<open>readv\<close> writes, and the account of them.\<close>

fun scatter :: "nat list \<Rightarrow> byte list \<Rightarrow> evbuffer_chain list \<Rightarrow> evbuffer_fault + evbuffer_chain list" where
  "scatter [] bs chs = Inr chs"
| "scatter (len # lens) bs [] = Inl NullChain"
| "scatter (len # lens) bs (ch # chs) =
     bindE (chain_put (misalign ch + off ch) (take len bs) ch) (\<lambda>ch.
     bindE (scatter lens (drop len bs) chs) (\<lambda>chs. Inr (ch # chs)))"

text \<open>The chain in which the bytes end becomes \<^verbatim>\<open>*last_with_datap\<close>; \<open>None\<close> if the loop runs out.\<close>

fun fill_chains :: "nat \<Rightarrow> nat \<Rightarrow> nat \<Rightarrow> evbuffer_chain list \<Rightarrow> evbuffer_fault + evbuffer_chain list \<times> nat option" where
  "fill_chains 0 remaining pos chs = Inr (chs, None)"
| "fill_chains (Suc n) remaining pos [] = Inl NullChain"
| "fill_chains (Suc n) remaining pos (ch # chs) =
     (let space = CHAIN_SPACE_LEN ch in
      if space < remaining then
        bindE (fill_chains n (remaining - space) (pos + 1) chs) (\<lambda>(chs, p). Inr (ch\<lparr>off := off ch + space\<rparr> # chs, p))
      else Inr (ch\<lparr>off := off ch + remaining\<rparr> # chs, Some pos))"

type_synonym readv = "nat list \<Rightarrow> byte list option"

text \<open>\<open>readable\<close> is what \<^verbatim>\<open>ioctl\<close> reports to be waiting, negative for an error.\<close>

definition read_limit :: "int \<Rightarrow> int \<Rightarrow> nat" where
  "read_limit readable howmuch =
     (let n = (if readable \<le> 0 \<or> readable > EVBUFFER_MAX_READ then EVBUFFER_MAX_READ else readable)
      in nat (if howmuch < 0 \<or> howmuch > n then n else howmuch))"

definition evbuffer_read :: "allocator \<Rightarrow> readv \<Rightarrow> int \<Rightarrow> int \<Rightarrow> evbuffer \<Rightarrow> evbuffer_fault + int \<times> evbuffer" where
  "evbuffer_read mm readv readable howmuch buf =
     (if freeze_end buf then Inr (- 1, buf)
      else
        let howmuch = read_limit readable howmuch in
        bindE (expand_fast mm howmuch NUM_READ_IOVEC buf) (\<lambda>(r, buf).
          if r = - 1 then Inr (- 1, buf)
          else
            bindE (read_setup_vecs buf howmuch NUM_READ_IOVEC True) (\<lambda>(vecs, first).
              case readv vecs of
                None \<Rightarrow> Inr (- 1, buf)
              | Some bs \<Rightarrow>
                  if bs = [] then Inr (0, buf)
                  else
                    bindE (scatter vecs bs (drop first (chains buf))) (\<lambda>chs.
                    bindE (fill_chains (length vecs) (length bs) first chs) (\<lambda>(chs, p).
                    let buf = buf\<lparr>chains := take first (chains buf) @ chs\<rparr>;
                        buf = (case p of None \<Rightarrow> buf | Some p \<Rightarrow> buf\<lparr>last_with_datap := p\<rparr>);
                        buf = count_added (length bs) buf
                    in Inr (int (length bs), evbuffer_invoke_callbacks buf))))))"

section \<open>Writing\<close>

type_synonym writev = "byte list list \<Rightarrow> nat option"

fun write_vecs :: "nat \<Rightarrow> nat \<Rightarrow> evbuffer_chain list \<Rightarrow> evbuffer_fault + byte list list" where
  "write_vecs 0 howmuch chs = Inr []"
| "write_vecs (Suc n) howmuch [] = Inr []"
| "write_vecs (Suc n) howmuch (ch # chs) =
     (if howmuch = 0 then Inr []
      else if howmuch \<ge> off ch then
        bindE (chain_get (misalign ch) (off ch) ch) (\<lambda>bs.
        bindE (write_vecs n (howmuch - off ch) chs) (\<lambda>vs. Inr (bs # vs)))
      else bindE (chain_get (misalign ch) howmuch ch) (\<lambda>bs. Inr [bs]))"

definition evbuffer_write_iovec :: "writev \<Rightarrow> int \<Rightarrow> evbuffer \<Rightarrow> evbuffer_fault + int" where
  "evbuffer_write_iovec writev howmuch buf =
     (if howmuch < 0 then Inr (- 1)
      else bindE (write_vecs NUM_WRITE_IOVEC (nat howmuch) (chains buf)) (\<lambda>iov.
        if iov = [] then Inr 0 else Inr (case writev iov of None \<Rightarrow> - 1 | Some n \<Rightarrow> int n)))"

definition evbuffer_write_atmost :: "writev \<Rightarrow> int \<Rightarrow> evbuffer \<Rightarrow> evbuffer_fault + int \<times> evbuffer" where
  "evbuffer_write_atmost writev howmuch buf =
     (if freeze_start buf then Inr (- 1, buf)
      else
        let howmuch = (if howmuch < 0 \<or> howmuch > int (total_len buf) then int (total_len buf) else howmuch) in
        bindE (if howmuch > 0 then evbuffer_write_iovec writev howmuch buf else Inr (- 1)) (\<lambda>n.
          if n > 0 then bindE (evbuffer_drain (nat n) buf) (\<lambda>(_, buf). Inr (n, buf)) else Inr (n, buf)))"

definition evbuffer_write :: "writev \<Rightarrow> evbuffer \<Rightarrow> evbuffer_fault + int \<times> evbuffer" where
  "evbuffer_write writev buf = evbuffer_write_atmost writev (- 1) buf"

section \<open>Freezing and callbacks\<close>

definition evbuffer_freeze :: "bool \<Rightarrow> evbuffer \<Rightarrow> evbuffer" where
  "evbuffer_freeze start buf = (if start then buf\<lparr>freeze_start := True\<rparr> else buf\<lparr>freeze_end := True\<rparr>)"

definition evbuffer_unfreeze :: "bool \<Rightarrow> evbuffer \<Rightarrow> evbuffer" where
  "evbuffer_unfreeze start buf = (if start then buf\<lparr>freeze_start := False\<rparr> else buf\<lparr>freeze_end := False\<rparr>)"

definition EVBUFFER_CB_INTERNAL_FLAGS :: u32 where "EVBUFFER_CB_INTERNAL_FLAGS = 0xffff0000"

text \<open>Entries have identities; a new one is put in front, if memory for it can be had.\<close>

definition evbuffer_add_cb :: "bool \<Rightarrow> nat \<Rightarrow> evbuffer \<Rightarrow> nat option \<times> evbuffer" where
  "evbuffer_add_cb mem_left i buf =
     (if mem_left then (Some i, buf\<lparr>callbacks := \<lparr>cb_id = i, cb_flags = EVBUFFER_CB_ENABLED\<rparr> # callbacks buf\<rparr>) else (None, buf))"

definition map_cb :: "nat \<Rightarrow> (u32 \<Rightarrow> u32) \<Rightarrow> evbuffer \<Rightarrow> evbuffer" where
  "map_cb i f buf = buf\<lparr>callbacks := map (\<lambda>ent. if cb_id ent = i then ent\<lparr>cb_flags := f (cb_flags ent)\<rparr> else ent) (callbacks buf)\<rparr>"

definition evbuffer_cb_set_flags :: "nat \<Rightarrow> u32 \<Rightarrow> evbuffer \<Rightarrow> evbuffer" where
  "evbuffer_cb_set_flags i flags = map_cb i (\<lambda>w. w OR (flags AND NOT EVBUFFER_CB_INTERNAL_FLAGS))"

definition evbuffer_cb_clear_flags :: "nat \<Rightarrow> u32 \<Rightarrow> evbuffer \<Rightarrow> evbuffer" where
  "evbuffer_cb_clear_flags i flags = map_cb i (\<lambda>w. w AND NOT (flags AND NOT EVBUFFER_CB_INTERNAL_FLAGS))"

section \<open>Room is made and nothing else changes\<close>

definition spacious :: "evbuffer_chain \<Rightarrow> bool" where
  "spacious ch \<longleftrightarrow> 0 < CHAIN_SPACE_LEN ch"

definition room :: "evbuffer_chain list \<Rightarrow> nat" where
  "room chs = sum_list (map CHAIN_SPACE_LEN chs)"

lemma room_simps [simp]: "room [] = 0" "room (ch # chs) = CHAIN_SPACE_LEN ch + room chs" "room (xs @ ys) = room xs + room ys"
  by (simp_all add: room_def)

abbreviation vacant :: "evbuffer_chain list \<Rightarrow> bool" where
  "vacant \<equiv> list_all (\<lambda>ch. off ch = 0)"

lemma vacant_data: "vacant chs \<Longrightarrow> concat (map chain_data chs) = []"
  by (induction chs) (simp_all add: chain_data_def mem_get_def)

lemma vacant_sum: "vacant chs \<Longrightarrow> sum_list (map off chs) = 0"
  by (induction chs) simp_all

lemma realigned:
  assumes "chain_ok ch" and "off ch = 0"
  shows "chain_ok (ch\<lparr>misalign := 0\<rparr>)" "spacious (ch\<lparr>misalign := 0\<rparr>)" "CHAIN_SPACE_LEN (ch\<lparr>misalign := 0\<rparr>) = length (buffer ch)"
  using assms by (auto simp: chain_ok_def spacious_def CHAIN_SPACE_LEN_def)

text \<open>Enough room in the first chains of a list, at most \<open>n\<close>, each with some.\<close>

definition enough_room :: "nat \<Rightarrow> nat \<Rightarrow> evbuffer_chain list \<Rightarrow> bool" where
  "enough_room datlen n chs \<longleftrightarrow> (\<exists>k\<le>n. k \<le> length chs \<and> list_all spacious (take k chs) \<and> datlen \<le> room (take k chs))"

lemma enough_Cons:
  assumes "spacious ch" and "enough_room (datlen - CHAIN_SPACE_LEN ch) n chs"
  shows "enough_room datlen (Suc n) (ch # chs)"
proof -
  obtain k where "k \<le> n" "k \<le> length chs" "list_all spacious (take k chs)" "datlen - CHAIN_SPACE_LEN ch \<le> room (take k chs)"
    using assms(2) unfolding enough_room_def by blast
  then show ?thesis using assms(1) unfolding enough_room_def by (intro exI [of _ "Suc k"]) auto
qed

lemma enough_zero: "enough_room 0 n chs"
  unfolding enough_room_def by (intro exI [of _ 0]) simp

lemma scan_vacant:
  "list_all chain_ok chs \<Longrightarrow> vacant chs \<Longrightarrow> used < n \<Longrightarrow> avail < datlen \<Longrightarrow> scan_space datlen n avail used chs = (chs', avail', used', enough) \<Longrightarrow>
     list_all chain_ok chs' \<and> vacant chs' \<and> length chs' = length chs \<and>
     (enough \<longrightarrow> enough_room (datlen - avail) (n - used) chs') \<and>
     (\<not> enough \<longrightarrow> avail' < datlen \<and> used' \<le> n \<and> (used' < n \<longrightarrow> list_all spacious chs' \<and> avail' = avail + room chs' \<and> used' = used + length chs))"
proof (induction chs arbitrary: avail used chs' avail' used' enough)
  case (Cons ch chs)
  let ?c = "ch\<lparr>misalign := 0\<rparr>"
  have ch: "chain_ok ?c" "spacious ?c" "CHAIN_SPACE_LEN ?c = length (buffer ch)" "off ch = 0" using Cons.prems realigned [of ch] by auto
  show ?case
  proof (cases "avail + length (buffer ch) \<ge> datlen")
    case True
    then have e: "chs' = ?c # chs" "enough" using Cons.prems(5) ch(4) by (simp_all add: Let_def)
    have "enough_room (datlen - avail - CHAIN_SPACE_LEN ?c) (n - used - 1) chs" using True ch(3) by (simp add: enough_zero)
    then have "enough_room (datlen - avail) (Suc (n - used - 1)) (?c # chs)" by (rule enough_Cons [OF ch(2)])
    moreover have "Suc (n - used - 1) = n - used" using Cons.prems(3) by simp
    ultimately have "enough_room (datlen - avail) (n - used) chs'" using e by metis
    then show ?thesis using e Cons.prems(1,2) ch by simp
  next
    case False
    show ?thesis
    proof (cases "used + 1 = n")
      case True
      then have e: "chs' = ?c # chs" "\<not> enough" "avail' = avail + length (buffer ch)" "used' = n"
        using Cons.prems(5) False ch(4) by (simp_all add: Let_def)
      then show ?thesis using False Cons.prems ch by simp
    next
      case more: False
      obtain cs r where r: "scan_space datlen n (avail + length (buffer ch)) (used + 1) chs = (cs, r)" by (meson surj_pair)
      obtain a u e where r': "r = (a, u, e)" by (cases r)
      have e: "chs' = ?c # cs" "avail' = a" "used' = u" "enough = e"
        using Cons.prems(5) False more ch(4) r r' by (simp_all add: Let_def)
      have IH: "list_all chain_ok cs \<and> vacant cs \<and> length cs = length chs \<and>
         (e \<longrightarrow> enough_room (datlen - (avail + length (buffer ch))) (n - (used + 1)) cs) \<and>
         (\<not> e \<longrightarrow> a < datlen \<and> u \<le> n \<and> (u < n \<longrightarrow> list_all spacious cs \<and> a = avail + length (buffer ch) + room cs \<and> u = used + 1 + length chs))"
        using Cons.IH [of "used + 1" "avail + length (buffer ch)" cs a u e] Cons.prems more False r r' by simp
      have "enough_room (datlen - avail) (n - used) (?c # cs)" if "e"
      proof -
        have "enough_room (datlen - avail - CHAIN_SPACE_LEN ?c) (n - (used + 1)) cs" using IH that ch(3) by (simp add: diff_diff_left)
        then have "enough_room (datlen - avail) (Suc (n - (used + 1))) (?c # cs)" by (rule enough_Cons [OF ch(2)])
        moreover have "Suc (n - (used + 1)) = n - used" using Cons.prems(3) by simp
        ultimately show ?thesis by simp
      qed
      then show ?thesis using e IH ch by simp
    qed
  qed
qed simp

text \<open>The chains from the last one with data on: only the first can hold data.\<close>

lemma scan_tail:
  assumes ok: "list_all chain_ok (ch # chs)" and v: "vacant chs" and n: "2 \<le> n" and d: "0 < datlen"
    and s: "scan_space datlen n 0 0 (ch # chs) = (tail, avail, used, enough)"
  shows "\<exists>c cs. tail = c # cs \<and> list_all chain_ok tail \<and> vacant cs \<and> off c = off ch \<and> chain_data c = chain_data ch \<and>
    (off ch = 0 \<longrightarrow> spacious c) \<and> (off ch \<noteq> 0 \<longrightarrow> c = ch) \<and>
    (enough \<longrightarrow> enough_room datlen n (if spacious c then tail else cs)) \<and>
    (\<not> enough \<longrightarrow> avail < datlen \<and> used \<le> n \<and>
       (used < n \<longrightarrow> list_all spacious cs \<and> avail = room tail \<and> used = (if spacious c then 1 else 0) + length chs) \<and> length cs = length chs)"
proof (cases "off ch = 0")
  case True
  have "vacant (ch # chs)" using True v by simp
  from scan_vacant [OF ok this _ d s] n have r: "list_all chain_ok tail \<and> vacant tail \<and> length tail = length (ch # chs) \<and>
     (enough \<longrightarrow> enough_room datlen n tail) \<and>
     (\<not> enough \<longrightarrow> avail < datlen \<and> used \<le> n \<and> (used < n \<longrightarrow> list_all spacious tail \<and> avail = room tail \<and> used = length (ch # chs)))" by simp
  then obtain c cs where t: "tail = c # cs" by (cases tail) simp_all
  have "c = ch\<lparr>misalign := 0\<rparr>" using s t True by (simp add: Let_def split: if_splits prod.splits)
  then have "spacious c" "chain_data c = []" "off c = 0" using realigned [of ch] True ok by (simp_all add: chain_data_def mem_get_def)
  moreover have "chain_data ch = []" using True by (simp add: chain_data_def mem_get_def)
  ultimately show ?thesis using r t True by simp
next
  case False
  let ?sp = "CHAIN_SPACE_LEN ch"
  have sp: "spacious ch \<longleftrightarrow> ?sp \<noteq> 0" by (simp add: spacious_def)
  show ?thesis
  proof (cases "?sp \<ge> datlen")
    case True
    then have e: "tail = ch # chs" "enough" using s False by (simp_all add: Let_def)
    have "enough_room (datlen - ?sp) (n - 1) chs" using True by (simp add: enough_zero)
    then have "enough_room datlen (Suc (n - 1)) (ch # chs)" using True d sp by (intro enough_Cons) auto
    then have "enough_room datlen n (ch # chs)" using n by simp
    then show ?thesis using e ok v False True d sp by auto
  next
    case less: False
    define u1 where "u1 = (if ?sp = 0 then 0 else 1 :: nat)"
    obtain cs r where r: "scan_space datlen n ?sp u1 chs = (cs, r)" by (meson surj_pair)
    obtain a u e where r': "r = (a, u, e)" by (cases r)
    have e: "tail = ch # cs" "avail = a" "used = u" "enough = e"
      using s False less n r r' by (simp_all add: Let_def u1_def split: if_splits)
    have IH: "list_all chain_ok cs \<and> vacant cs \<and> length cs = length chs \<and> (e \<longrightarrow> enough_room (datlen - ?sp) (n - u1) cs) \<and>
        (\<not> e \<longrightarrow> a < datlen \<and> u \<le> n \<and> (u < n \<longrightarrow> list_all spacious cs \<and> a = ?sp + room cs \<and> u = u1 + length chs))"
      using scan_vacant [of chs u1 n ?sp datlen cs a u e] ok v less r r' n by (simp add: u1_def)
    have "enough_room datlen n (if spacious ch then ch # cs else cs)" if "e"
    proof (cases "?sp = 0")
      case True
      then show ?thesis using IH that sp by (simp add: u1_def)
    next
      case False
      then have "enough_room datlen (Suc (n - 1)) (ch # cs)" using IH that sp by (intro enough_Cons) (simp_all add: u1_def)
      then show ?thesis using False sp n by simp
    qed
    then show ?thesis using e IH ok False sp by (auto simp: u1_def)
  qed
qed

text \<open>What \<^verbatim>\<open>_evbuffer_expand_fast\<close> changes of a buffer.\<close>

definition rechained :: "evbuffer \<Rightarrow> evbuffer \<Rightarrow> bool" where
  "rechained buf buf' \<longleftrightarrow> buf' = buf\<lparr>chains := chains buf', last_with_datap := last_with_datap buf', total_len := total_len buf'\<rparr>"

definition has_room :: "nat \<Rightarrow> nat \<Rightarrow> evbuffer \<Rightarrow> bool" where
  "has_room datlen n buf \<longleftrightarrow> last_with_datap buf < length (chains buf) \<and>
     (let ch = chains buf ! last_with_datap buf; rest = drop (last_with_datap buf + 1) (chains buf)
      in (off ch = 0 \<longrightarrow> spacious ch) \<and> enough_room datlen n (if spacious ch then ch # rest else rest))"

lemma data_first_split:
  assumes "data_first chs p" and "chs \<noteq> []"
  obtains xs ch ys where "chs = xs @ ch # ys" "p = length xs" "list_all (\<lambda>c. off c \<noteq> 0) xs" "vacant ys" "off ch = 0 \<longrightarrow> xs = []"
proof -
  obtain us vs where u: "chs = us @ vs" "list_all (\<lambda>c. off c \<noteq> 0) us" "vacant vs" "p = length us - 1"
    using assms(1) unfolding data_first_def by blast
  show ?thesis
  proof (cases us rule: rev_cases)
    case Nil
    then obtain c cs where "vs = c # cs" using u(1) assms(2) by (cases vs) simp_all
    then show ?thesis using that [of "[]" c cs] u Nil by simp
  next
    case (snoc us' c)
    then show ?thesis using that [of us' c vs] u by simp
  qed
qed

lemma data_first_join:
  assumes "list_all (\<lambda>c. off c \<noteq> 0) xs" and "vacant ys" and "off ch = 0 \<longrightarrow> xs = []"
  shows "data_first (xs @ ch # ys) (length xs)"
proof (cases "off ch = 0")
  case True
  then show ?thesis using data_firstI [of "[]" "ch # ys"] assms by simp
next
  case False
  then show ?thesis using data_firstI [of "xs @ [ch]" ys] assms by simp
qed

text \<open>A buffer given by its chains.\<close>

definition with_chains :: "evbuffer_chain list \<Rightarrow> nat \<Rightarrow> evbuffer \<Rightarrow> evbuffer" where
  "with_chains chs p buf = buf\<lparr>chains := chs, last_with_datap := p\<rparr>"

lemma with_chains_ok:
  assumes "list_all chain_ok (xs @ ch # ys)" and "list_all (\<lambda>c. off c \<noteq> 0) xs" and "vacant ys" and "off ch = 0 \<longrightarrow> xs = []"
    and "total_len buf = sum_list (map off (xs @ [ch]))"
  shows "evb_ok (with_chains (xs @ ch # ys) (length xs) buf)"
    "contents (with_chains (xs @ ch # ys) (length xs) buf) = concat (map chain_data xs) @ chain_data ch"
    "rechained buf (with_chains (xs @ ch # ys) (length xs) buf)"
    "frozen_alike buf (with_chains (xs @ ch # ys) (length xs) buf)"
  using assms data_first_join [OF assms(2-4)]
  by (simp_all add: with_chains_def evb_ok_def vacant_sum contents_def vacant_data rechained_def frozen_alike_def)

lemma with_chains_room:
  "has_room datlen n (with_chains (xs @ ch # ys) (length xs) buf) \<longleftrightarrow>
     (off ch = 0 \<longrightarrow> spacious ch) \<and> enough_room datlen n (if spacious ch then ch # ys else ys)"
  by (simp add: has_room_def with_chains_def Let_def)

lemma new_chain_room: "datlen \<le> length (buffer ch) \<Longrightarrow> 0 < length (buffer ch) \<Longrightarrow> misalign ch = 0 \<Longrightarrow> off ch = 0 \<Longrightarrow>
    spacious ch \<and> CHAIN_SPACE_LEN ch \<ge> datlen \<and> chain_data ch = []"
  by (simp add: spacious_def CHAIN_SPACE_LEN_def chain_data_def mem_get_def)

lemma enough_spacious:
  "list_all spacious chs \<Longrightarrow> length chs \<le> n \<Longrightarrow> datlen \<le> room chs \<Longrightarrow> enough_room datlen n chs"
  unfolding enough_room_def by (intro exI [of _ "length chs"]) simp

lemma expand_fast_spec:
  assumes ok: "evb_ok buf" and mm: "mm_ok mm" and d: "datlen \<le> max_chain" "0 < datlen" and n: "2 \<le> n"
  shows "\<exists>r buf'. expand_fast mm datlen n buf = Inr (r, buf') \<and> evb_ok buf' \<and> contents buf' = contents buf \<and> rechained buf buf' \<and>
    frozen_alike buf buf' \<and> (r = - 1 \<or> r = 0 \<and> has_room datlen n buf')"
proof (cases "chains buf = []")
  case True
  consider "evbuffer_chain_new mm datlen = Inr None"
    | ch where "evbuffer_chain_new mm datlen = Inr (Some ch)" "chain_ok ch" "misalign ch = 0" "off ch = 0" "datlen \<le> length (buffer ch)"
      "0 < length (buffer ch)" using chain_new_spec [OF mm d(1)] by blast
  then show ?thesis
  proof cases
    case 1
    then show ?thesis using True ok by (simp add: expand_fast_def rechained_def frozen_alike_def)
  next
    case 2
    have p: "last_with_datap buf = 0" "total_len buf = 0" using ok True by (auto simp: evb_ok_def data_first_def)
    have "evbuffer_chain_insert ch buf = with_chains ([] @ ch # []) (length ([] :: evbuffer_chain list)) buf"
      using True p 2(4) by (simp add: evbuffer_chain_insert_def with_chains_def)
    moreover note with_chains_ok [of "[]" ch "[]" buf] with_chains_room [of datlen n "[]" ch "[]" buf]
    ultimately show ?thesis
      using 2 True p n new_chain_room [OF 2(5,6,3,4)] enough_spacious [of "[ch]" n datlen]
      by (simp add: expand_fast_def contents_def)
  qed
next
  case False
  have data: "list_all chain_ok (chains buf)" "total_len buf = sum_list (map off (chains buf))"
    "data_first (chains buf) (last_with_datap buf)" using ok by (simp_all add: evb_ok_def)
  obtain xs ch ys where sp: "chains buf = xs @ ch # ys" "last_with_datap buf = length xs" "list_all (\<lambda>c. off c \<noteq> 0) xs" "vacant ys"
    "off ch = 0 \<longrightarrow> xs = []" using data_first_split [OF data(3) False] by metis
  obtain tail avail used enough where sc: "scan_space datlen n 0 0 (ch # ys) = (tail, avail, used, enough)" by (metis prod.exhaust)
  have cok: "list_all chain_ok (ch # ys)" "list_all chain_ok xs" using data(1) sp(1) by simp_all
  obtain c cs where c: "tail = c # cs" "list_all chain_ok tail" "vacant cs" "off c = off ch" "chain_data c = chain_data ch"
    "off ch = 0 \<longrightarrow> spacious c" "off ch \<noteq> 0 \<longrightarrow> c = ch" "enough \<longrightarrow> enough_room datlen n (if spacious c then tail else cs)"
    "\<not> enough \<longrightarrow> avail < datlen \<and> used \<le> n \<and>
       (used < n \<longrightarrow> list_all spacious cs \<and> avail = room tail \<and> used = (if spacious c then 1 else 0) + length ys) \<and> length cs = length ys"
    using scan_tail [OF cok(1) sp(4) n d(2) sc] by (elim exE conjE) (rule that; assumption)
  have tl: "total_len buf = sum_list (map off (xs @ [c]))" using data(2) sp(1,4) c(4) vacant_sum by simp
  have ct: "contents buf = concat (map chain_data xs) @ chain_data c" using sp(1,4) c(5) by (simp add: contents_def vacant_data)
  have xs: "off c = 0 \<longrightarrow> xs = []" using sp(5) c(4) by simp
  let ?W = "\<lambda>ys. with_chains (xs @ c # ys) (length xs) buf"
  have W: "evb_ok (?W zs) \<and> contents (?W zs) = contents buf \<and> rechained buf (?W zs) \<and> frozen_alike buf (?W zs)"
    if "list_all chain_ok zs" "vacant zs" for zs
    using with_chains_ok [of xs c zs buf] that cok(2) c(1,2) sp(3) tl xs ct by simp
  have start: "expand_fast mm datlen n buf =
      (if enough then Inr (0, ?W cs)
       else if used < n then
          bindE (evbuffer_chain_new mm (datlen - avail)) (\<lambda>new. case new of
            None \<Rightarrow> Inr (- 1, ?W cs) | Some tmp \<Rightarrow> Inr (0, ?W (cs @ [tmp])))
       else bindE (evbuffer_chain_new mm (datlen - (if off c = 0 then 0 else CHAIN_SPACE_LEN c))) (\<lambda>new. case new of
               None \<Rightarrow> Inr (- 1, if off c = 0 then ZERO_CHAIN (?W cs) else ?W [])
             | Some tmp \<Rightarrow> Inr (0, if off c = 0 then with_chains [tmp] 0 buf else ?W [tmp])))"
  proof -
    have wc: "buf\<lparr>chains := X\<rparr> = with_chains X (length xs) buf" for X using sp(2) by (simp add: with_chains_def)
    have z: "with_chains X p buf\<lparr>chains := Y\<rparr> = with_chains Y p buf" "chains (with_chains X p buf) = X"
      "with_chains X p buf\<lparr>chains := Y, last_with_datap := q\<rparr> = with_chains Y q buf"
      "with_chains X p buf\<lparr>last_with_datap := q\<rparr> = with_chains X q buf" for X Y p q by (simp_all add: with_chains_def)
    have sl: "take (length xs) (chains buf) @ tail = xs @ c # cs" "drop (length xs) (chains buf) = ch # ys"
      "(xs @ c # cs) ! length xs = c" "take (length xs + 1) (xs @ c # cs) = xs @ [c]" using sp(1) c(1) by simp_all
    show ?thesis
      unfolding expand_fast_def if_not_P [OF False] Let_def sp(2) sl sc prod.case wc z by simp
  qed
  have new: "evbuffer_chain_new mm k = Inr None \<or> (\<exists>tmp. evbuffer_chain_new mm k = Inr (Some tmp) \<and> chain_ok tmp \<and> off tmp = 0 \<and>
      spacious tmp \<and> chain_data tmp = [] \<and> k \<le> CHAIN_SPACE_LEN tmp)" if "k \<le> max_chain" for k
    using chain_new_spec [OF mm that] new_chain_room by blast
  have cs: "list_all chain_ok cs" "vacant cs" using c(1-3) by simp_all
  consider "enough" | "\<not> enough" "used < n" | "\<not> enough" "\<not> used < n" by blast
  then show ?thesis
  proof cases
    case 1
    have "has_room datlen n (?W cs)" unfolding with_chains_room using c(4,6,8) 1 unfolding c(1) by simp
    then show ?thesis using start 1 W [OF cs] by simp
  next
    case 2
    have a: "avail < datlen" "list_all spacious cs" "avail = room tail" "used = (if spacious c then 1 else 0) + length cs" using c(9) 2 by simp_all
    have k: "datlen - avail \<le> max_chain" using d(1) by simp
    show ?thesis
    proof (cases "evbuffer_chain_new mm (datlen - avail) = Inr None")
      case True
      then show ?thesis using start 2 W [OF cs] by simp
    next
      case False
      then obtain tmp where t: "evbuffer_chain_new mm (datlen - avail) = Inr (Some tmp)" "chain_ok tmp" "off tmp = 0" "spacious tmp"
        "datlen - avail \<le> CHAIN_SPACE_LEN tmp" using new [OF k] by blast
      have "room (if spacious c then c # cs @ [tmp] else cs @ [tmp]) \<ge> datlen" using a(1,3) c(1) t(5) by (auto simp: spacious_def)
      then have "enough_room datlen n (if spacious c then c # cs @ [tmp] else cs @ [tmp])"
        using a(2,4) 2(2) t(4) enough_spacious [of "c # cs @ [tmp]" n datlen] enough_spacious [of "cs @ [tmp]" n datlen]
        by (cases "spacious c") simp_all
      then show ?thesis using start 2 t(1-3) cs W [of "cs @ [tmp]"] c(4,6) with_chains_room [of datlen n xs c "cs @ [tmp]" buf] by simp
    qed
  next
    case 3
    define k where "k = datlen - (if off c = 0 then 0 else CHAIN_SPACE_LEN c)"
    have k: "k \<le> max_chain" using d(1) by (simp add: k_def)
    have run: "expand_fast mm datlen n buf = bindE (evbuffer_chain_new mm k) (\<lambda>new. case new of
               None \<Rightarrow> Inr (- 1, if off c = 0 then ZERO_CHAIN (?W cs) else ?W [])
             | Some tmp \<Rightarrow> Inr (0, if off c = 0 then with_chains [tmp] 0 buf else ?W [tmp]))"
      using start 3 by (simp add: k_def)
    have empty: "off c = 0 \<Longrightarrow> contents buf = [] \<and> total_len buf = 0 \<and> xs = []"
      using xs ct tl by (simp add: chain_data_def mem_get_def)
    show ?thesis
    proof (cases "evbuffer_chain_new mm k = Inr None")
      case True
      show ?thesis
      proof (cases "off c = 0")
        case z: True
        have "data_first [] 0" using data_firstI [of "[]" "[]"] by simp
        then have "evb_ok (ZERO_CHAIN (?W cs)) \<and> contents (ZERO_CHAIN (?W cs)) = [] \<and> rechained buf (ZERO_CHAIN (?W cs)) \<and>
            frozen_alike buf (ZERO_CHAIN (?W cs))"
          by (simp add: ZERO_CHAIN_def with_chains_def evb_ok_def contents_def rechained_def frozen_alike_def)
        then show ?thesis using run True z empty by simp
      next
        case nz: False
        then show ?thesis using run True W [of "[]"] by simp
      qed
    next
      case False
      then obtain tmp where t: "evbuffer_chain_new mm k = Inr (Some tmp)" "chain_ok tmp" "off tmp = 0" "spacious tmp" "chain_data tmp = []"
        "k \<le> CHAIN_SPACE_LEN tmp" using new [OF k] by blast
      show ?thesis
      proof (cases "off c = 0")
        case z: True
        have "enough_room datlen n [tmp]" using t(4,6) z n by (intro enough_spacious) (simp_all add: k_def)
        then show ?thesis
          using run t z empty with_chains_ok [of "[]" tmp "[]" buf] with_chains_room [of datlen n "[]" tmp "[]" buf] by simp
      next
        case nz: False
        have "enough_room datlen n (if spacious c then [c, tmp] else [tmp])"
          using t(4,6) nz n enough_spacious [of "[c, tmp]" n datlen] enough_spacious [of "[tmp]" n datlen] by (auto simp: k_def spacious_def)
        then show ?thesis using run t nz c(4,6) W [of "[tmp]"] with_chains_room [of datlen n xs c "[tmp]" buf] by simp
      qed
    qed
  qed
qed

section \<open>Reading appends what came in\<close>

fun fits :: "nat list \<Rightarrow> evbuffer_chain list \<Rightarrow> bool" where
  "fits [] chs = True"
| "fits (len # lens) [] = False"
| "fits (len # lens) (ch # chs) =
     (spacious ch \<and> len \<le> CHAIN_SPACE_LEN ch \<and> (lens \<noteq> [] \<longrightarrow> len = CHAIN_SPACE_LEN ch) \<and> fits lens chs)"

lemma vec_loop_spec:
  "enough_room (howmuch - so_far) n chs \<Longrightarrow> so_far \<le> howmuch \<Longrightarrow>
     \<exists>lens. vec_loop True howmuch n so_far chs = Inr lens \<and> sum_list lens = howmuch - so_far \<and> fits lens chs \<and> length lens \<le> n"
proof (induction n arbitrary: so_far chs)
  case 0
  then show ?case by (auto simp: enough_room_def)
next
  case (Suc n)
  show ?case
  proof (cases "so_far \<ge> howmuch")
    case True
    then show ?thesis using Suc.prems by simp
  next
    case False
    obtain k where k: "k \<le> Suc n" "k \<le> length chs" "list_all spacious (take k chs)" "howmuch - so_far \<le> room (take k chs)"
      using Suc.prems(1) unfolding enough_room_def by blast
    then have "k \<noteq> 0" using False by (intro notI) simp
    then obtain j ch cs where j: "k = Suc j" "chs = ch # cs" using k(2) by (cases k; cases chs) simp_all
    have sp: "spacious ch" using k(3) j by simp
    define len where "len = (if CHAIN_SPACE_LEN ch > howmuch - so_far then howmuch - so_far else CHAIN_SPACE_LEN ch)"
    have le: "so_far + len \<le> howmuch" "len \<le> CHAIN_SPACE_LEN ch" using False by (auto simp: len_def)
    have "howmuch - (so_far + len) \<le> room (take j cs)" using k(4) j by (auto simp: len_def)
    then have "enough_room (howmuch - (so_far + len)) n cs" using k(1-3) j unfolding enough_room_def by (intro exI [of _ j]) simp
    from Suc.IH [OF this le(1)] obtain lens where lens: "vec_loop True howmuch n (so_far + len) cs = Inr lens"
      "sum_list lens = howmuch - (so_far + len)" "fits lens cs" "length lens \<le> n" by blast
    have "lens \<noteq> [] \<Longrightarrow> len = CHAIN_SPACE_LEN ch"
    proof (rule ccontr)
      assume a: "lens \<noteq> []" "len \<noteq> CHAIN_SPACE_LEN ch"
      then have "so_far + len = howmuch" using False by (auto simp: len_def split: if_splits)
      then have "vec_loop True howmuch n (so_far + len) cs = Inr []" by (cases n) simp_all
      then show False using a(1) lens(1) by simp
    qed
    moreover have "vec_loop True howmuch (Suc n) so_far chs = Inr (len # lens)"
      using False lens(1) by (simp add: j(2) Let_def len_def)
    ultimately show ?thesis using lens sp le j(2) by simp
  qed
qed

lemma scatter_Nil: "fits lens chs \<Longrightarrow> list_all chain_ok chs \<Longrightarrow> scatter lens [] chs = Inr chs"
proof (induction lens chs rule: fits.induct)
  case (3 len lens ch chs)
  have "misalign ch + off ch \<le> length (buffer ch)" using 3 by (simp add: chain_ok_def)
  then show ?case using 3 by (simp add: chain_put_def mem_simps)
qed simp_all

lemma scatter_fill:
  "fits lens chs \<Longrightarrow> list_all chain_ok chs \<Longrightarrow> vacant (tl chs) \<Longrightarrow> bs \<noteq> [] \<Longrightarrow> length bs \<le> sum_list lens \<Longrightarrow>
     \<exists>c1 us c vs. scatter lens bs chs = Inr c1 \<and> fill_chains (length lens) (length bs) pos c1 = Inr (us @ c # vs, Some (pos + length us)) \<and>
       list_all chain_ok (us @ c # vs) \<and> list_all (\<lambda>ch. off ch \<noteq> 0) us \<and> off c \<noteq> 0 \<and> vacant vs \<and>
       concat (map chain_data (us @ c # vs)) = concat (map chain_data chs) @ bs \<and>
       sum_list (map off (us @ c # vs)) = sum_list (map off chs) + length bs"
proof (induction lens chs arbitrary: bs pos rule: fits.induct)
  case (3 len lens ch chs)
  let ?sp = "CHAIN_SPACE_LEN ch"
  have ch: "chain_ok ch" and sp: "0 < ?sp" "len \<le> ?sp" "lens \<noteq> [] \<longrightarrow> len = ?sp" and v: "vacant chs" and oks: "list_all chain_ok chs"
    and f: "fits lens chs" using 3 by (simp_all add: spacious_def)
  have space: "misalign ch + off ch + ?sp = length (buffer ch)" using ch sp(1) by (simp add: CHAIN_SPACE_LEN_def)
  define ch1 where "ch1 = ch\<lparr>buffer := mem_put (misalign ch + off ch) (take len bs) (buffer ch)\<rparr>"
  have fit: "misalign ch + off ch + length (take len bs) \<le> length (buffer ch)" using space sp(2) by simp
  have put: "chain_put (misalign ch + off ch) (take len bs) ch = Inr ch1" using chain_put_fits [OF fit] by (simp add: ch1_def)
  have sp1: "CHAIN_SPACE_LEN ch1 = ?sp" "off ch1 = off ch" using fit by (simp_all add: ch1_def CHAIN_SPACE_LEN_def mem_simps)
  have app: "chain_ok (ch1\<lparr>off := off ch + length (take len bs)\<rparr>) \<and>
      chain_data (ch1\<lparr>off := off ch + length (take len bs)\<rparr>) = chain_data ch @ take len bs"
    using chain_append [OF ch fit] by (simp add: ch1_def)
  have data: "concat (map chain_data chs) = []" "sum_list (map off chs) = 0" using v by (simp_all add: vacant_data vacant_sum)
  show ?case
  proof (cases "?sp < length bs")
    case True
    then have "lens \<noteq> []" using 3(6) sp(2) by (intro notI) simp
    then have len: "len = ?sp" "length (take len bs) = ?sp" using sp(3) True by simp_all
    have "drop len bs \<noteq> []" "length (drop len bs) \<le> sum_list lens" using True len 3(6) by simp_all
    moreover have "vacant (tl chs)" using v by (cases chs) simp_all
    ultimately obtain c1 us c vs where IH: "scatter lens (drop len bs) chs = Inr c1"
      "fill_chains (length lens) (length (drop len bs)) (pos + 1) c1 = Inr (us @ c # vs, Some (pos + 1 + length us))"
      "list_all chain_ok (us @ c # vs)" "list_all (\<lambda>ch. off ch \<noteq> 0) us" "off c \<noteq> 0" "vacant vs"
      "concat (map chain_data (us @ c # vs)) = concat (map chain_data chs) @ drop len bs"
      "sum_list (map off (us @ c # vs)) = sum_list (map off chs) + length (drop len bs)"
      using 3(1) [OF f oks, of "drop len bs" "pos + 1"] by blast
    define ch2 where "ch2 = ch1\<lparr>off := off ch + ?sp\<rparr>"
    have ch2: "chain_ok ch2" "chain_data ch2 = chain_data ch @ take len bs" "off ch2 = off ch + ?sp" using app len by (simp_all add: ch2_def)
    have run: "scatter (len # lens) bs (ch # chs) = Inr (ch1 # c1)" using put IH(1) by simp
    have "fill_chains (length (len # lens)) (length bs) pos (ch1 # c1) = Inr ((ch2 # us) @ c # vs, Some (pos + length (ch2 # us)))"
      using True len IH(2) by (simp add: sp1 ch2_def)
    moreover have "concat (map chain_data ((ch2 # us) @ c # vs)) = concat (map chain_data (ch # chs)) @ bs"
      using IH(7) data(1) ch2(2) by simp
    moreover have "sum_list (map off ((ch2 # us) @ c # vs)) = sum_list (map off (ch # chs)) + length bs"
      using IH(8) ch2(3) len True by simp
    moreover have "list_all chain_ok ((ch2 # us) @ c # vs)" "list_all (\<lambda>ch. off ch \<noteq> 0) (ch2 # us)" using IH(3,4) ch2 sp(1) by simp_all
    ultimately show ?thesis using run IH(5,6) by blast
  next
    case False
    have "length bs \<le> len"
    proof (cases lens)
      case Nil
      then show ?thesis using 3(6) by simp
    next
      case (Cons l ls)
      then show ?thesis using False sp(3) by simp
    qed
    then have all: "take len bs = bs" "drop len bs = []" by simp_all
    define ch2 where "ch2 = ch1\<lparr>off := off ch + length bs\<rparr>"
    have ch2: "chain_ok ch2" "chain_data ch2 = chain_data ch @ bs" "off ch2 = off ch + length bs" using app all by (simp_all add: ch2_def)
    have run: "scatter (len # lens) bs (ch # chs) = Inr (ch1 # chs)" using put scatter_Nil [OF f oks] all by simp
    have "fill_chains (length (len # lens)) (length bs) pos (ch1 # chs) = Inr ([] @ ch2 # chs, Some (pos + length ([] :: evbuffer_chain list)))"
      using False by (simp add: sp1 ch2_def)
    moreover have "list_all chain_ok ([] @ ch2 # chs)" "off ch2 \<noteq> 0" using ch2 oks 3(5) by simp_all
    moreover have "concat (map chain_data ([] @ ch2 # chs)) = concat (map chain_data (ch # chs)) @ bs"
      "sum_list (map off ([] @ ch2 # chs)) = sum_list (map off (ch # chs)) + length bs" using ch2 data by (simp_all del: concat_eq_Nil_conv sum_list_eq_0_iff)
    moreover have "list_all (\<lambda>ch. off ch \<noteq> 0) ([] :: evbuffer_chain list)" by simp
    ultimately show ?thesis using run v by blast
  qed
qed simp_all

definition readv_ok :: "readv \<Rightarrow> bool" where
  "readv_ok readv \<longleftrightarrow> (\<forall>lens bs. readv lens = Some bs \<longrightarrow> length bs \<le> sum_list lens)"

text \<open>All but the chains and the counters of a buffer.\<close>

definition same_frame :: "evbuffer \<Rightarrow> evbuffer \<Rightarrow> bool" where
  "same_frame buf buf' \<longleftrightarrow> callbacks buf' = callbacks buf \<and> deferred_cbs buf' = deferred_cbs buf \<and> frozen_alike buf buf'"

lemma rechained_sel: "rechained buf buf' \<Longrightarrow> same_frame buf buf' \<and> calls buf' = calls buf \<and> n_add_for_cb buf' = n_add_for_cb buf \<and>
    n_del_for_cb buf' = n_del_for_cb buf \<and> deferred_queued buf' = deferred_queued buf"
  unfolding rechained_def by (cases buf; cases buf') (simp add: same_frame_def frozen_alike_def)

lemma read_limit_bounds: "howmuch \<noteq> 0 \<Longrightarrow> 0 < read_limit readable howmuch \<and> read_limit readable howmuch \<le> max_chain \<and>
    read_limit readable howmuch \<le> 4096 \<and> (0 < howmuch \<longrightarrow> int (read_limit readable howmuch) \<le> howmuch)"
  by (auto simp: read_limit_def EVBUFFER_MAX_READ_def max_chain_def Let_def)

lemma read_spec:
  assumes ok: "evb_ok buf" and mm: "mm_ok mm" and rd: "readv_ok readv" and h: "howmuch \<noteq> 0"
  shows "\<exists>r buf'. evbuffer_read mm readv readable howmuch buf = Inr (r, buf') \<and> evb_ok buf' \<and> frozen_alike buf buf' \<and>
    (r = - 1 \<and> rechained buf buf' \<and> contents buf' = contents buf \<or>
     \<not> freeze_end buf \<and> (\<exists>lens bs b1. sum_list lens = read_limit readable howmuch \<and> length lens \<le> 4 \<and> readv lens = Some bs \<and>
       r = int (length bs) \<and> contents buf' = contents buf @ bs \<and> rechained buf b1 \<and>
       buf' = (if bs = [] then b1 else evbuffer_invoke_callbacks (count_added (length bs) b1))))"
proof (cases "freeze_end buf")
  case True
  then show ?thesis using ok by (simp add: evbuffer_read_def rechained_def frozen_alike_def)
next
  case thaw: False
  define lim where "lim = read_limit readable howmuch"
  have lim: "0 < lim" "lim \<le> max_chain" using read_limit_bounds [OF h, of readable] by (simp_all add: lim_def)
  obtain r b where b: "expand_fast mm lim 4 buf = Inr (r, b)" "evb_ok b" "contents b = contents buf" "rechained buf b" "frozen_alike buf b"
    "r = - 1 \<or> r = 0 \<and> has_room lim 4 b" using expand_fast_spec [OF ok mm lim(2,1), of 4] by auto
  show ?thesis
  proof (cases "r = - 1")
    case True
    then have "evbuffer_read mm readv readable howmuch buf = Inr (- 1, b)"
      using b(1) thaw by (simp add: evbuffer_read_def lim_def NUM_READ_IOVEC_def)
    then show ?thesis using b by blast
  next
    case False
    then have r0: "r = 0" and hr: "has_room lim 4 b" using b(6) by simp_all
    define p where "p = last_with_datap b"
    have pl: "p < length (chains b)" using hr by (simp add: has_room_def p_def)
    have dat: "list_all chain_ok (chains b)" "total_len b = sum_list (map off (chains b))" "data_first (chains b) p"
      using b(2) by (simp_all add: evb_ok_def p_def)
    obtain xs ch ys where sp: "chains b = xs @ ch # ys" "p = length xs" "list_all (\<lambda>c. off c \<noteq> 0) xs" "vacant ys" "off ch = 0 \<longrightarrow> xs = []"
    proof -
      have "chains b \<noteq> []" using pl by auto
      then show ?thesis using that data_first_split [OF dat(3)] by blast
    qed
    define first where "first = (if spacious ch then p else p + 1)"
    define front where "front = (if spacious ch then xs else xs @ [ch])"
    define rest where "rest = (if spacious ch then ch # ys else ys)"
    have fr: "chains b = front @ rest" "first = length front" using sp(1,2) by (simp_all add: front_def rest_def first_def)
    have er: "enough_room lim 4 rest" using hr sp(1,2) by (simp add: has_room_def rest_def p_def [symmetric] Let_def)
    obtain lens where lens: "vec_loop True lim 4 0 rest = Inr lens" "sum_list lens = lim" "fits lens rest" "length lens \<le> 4"
      using vec_loop_spec [of lim 0 4 rest] er by auto
    have "CHAIN_SPACE_LEN (chains b ! p) = 0 \<longleftrightarrow> \<not> spacious ch" using sp(1,2) by (simp add: spacious_def)
    then have f: "(if CHAIN_SPACE_LEN (chains b ! p) = 0 then p + 1 else p) = first" by (simp add: first_def)
    have dr: "drop first (chains b) = rest" using fr by simp
    have vecs: "read_setup_vecs b lim 4 True = Inr (lens, first)"
      using pl unfolding read_setup_vecs_def Let_def p_def [symmetric] f dr lens(1) by simp
    have base: "evbuffer_read mm readv readable howmuch buf = (case readv lens of
                None \<Rightarrow> Inr (- 1, b)
              | Some bs \<Rightarrow>
                  if bs = [] then Inr (0, b)
                  else
                    bindE (scatter lens bs rest) (\<lambda>chs.
                    bindE (fill_chains (length lens) (length bs) first chs) (\<lambda>(chs, p).
                    let buf = b\<lparr>chains := front @ chs\<rparr>;
                        buf = (case p of None \<Rightarrow> buf | Some p \<Rightarrow> buf\<lparr>last_with_datap := p\<rparr>);
                        buf = count_added (length bs) buf
                    in Inr (int (length bs), evbuffer_invoke_callbacks buf))))"
    proof -
      have t: "take first (chains b) = front" using fr by simp
      have e: "expand_fast mm lim 4 buf = Inr (0, b)" using b(1) r0 by simp
      show ?thesis
        unfolding evbuffer_read_def if_not_P [OF thaw] lim_def [symmetric] NUM_READ_IOVEC_def Let_def e bindE_simps prod.case vecs t dr
        by simp
    qed
    show ?thesis
    proof (cases "readv lens")
      case None
      then show ?thesis using base b by auto
    next
      case (Some bs)
      show ?thesis
      proof (cases "bs = []")
        case True
        then have "evbuffer_read mm readv readable howmuch buf = Inr (0, b)" using base Some by simp
        then show ?thesis
          using b Some lens(2,4) True thaw unfolding lim_def by (intro exI [of _ 0] exI [of _ b]) auto
      next
        case ne: False
        have len: "length bs \<le> sum_list lens" using rd Some by (simp add: readv_ok_def)
        have okr: "list_all chain_ok rest" "list_all chain_ok front" "vacant (tl rest)"
          using dat(1) fr(1) sp(4) by (simp, simp, cases ys) (auto simp: rest_def)
        obtain c1 us c vs where sf: "scatter lens bs rest = Inr c1"
          "fill_chains (length lens) (length bs) first c1 = Inr (us @ c # vs, Some (first + length us))"
          "list_all chain_ok (us @ c # vs)" "list_all (\<lambda>ch. off ch \<noteq> 0) us" "off c \<noteq> 0" "vacant vs"
          "concat (map chain_data (us @ c # vs)) = concat (map chain_data rest) @ bs"
          "sum_list (map off (us @ c # vs)) = sum_list (map off rest) + length bs"
          using scatter_fill [OF lens(3) okr(1,3) ne len, of first] by blast
        define b1 where "b1 = b\<lparr>chains := front @ us @ c # vs, last_with_datap := first + length us\<rparr>"
        have run: "evbuffer_read mm readv readable howmuch buf = Inr (int (length bs), evbuffer_invoke_callbacks (count_added (length bs) b1))"
          using base Some ne sf(1,2) by (simp add: b1_def)
        have fd: "list_all (\<lambda>c. off c \<noteq> 0) front"
        proof (cases "spacious ch")
          case True
          then show ?thesis using sp(3) by (simp add: front_def)
        next
          case False
          have "off ch \<noteq> 0" using False hr sp(1,2) by (simp add: has_room_def p_def [symmetric] Let_def)
          then show ?thesis using False sp(3) by (simp add: front_def)
        qed
        have df: "data_first (chains b1) (last_with_datap b1)"
          using data_first_join [of "front @ us" vs c] fd sf(4-6) fr(2) by (simp add: b1_def)
        have ok1: "evb_ok (count_added (length bs) b1)"
          using df sf(3,8) okr(2) dat(2) fr(1) by (simp add: evb_ok_def count_added_def b1_def)
        have ct: "contents (count_added (length bs) b1) = contents buf @ bs"
          using sf(7) b(3) fr(1) by (simp add: contents_def count_added_def b1_def)
        have rc: "rechained buf b1" using b(4) unfolding rechained_def b1_def by (cases buf; cases b) simp
        show ?thesis
          unfolding run
          using ok1 ct rc Some lens(2,4) ne thaw b(5) unfolding lim_def
          by (intro exI [of _ "int (length bs)"] exI [of _ "evbuffer_invoke_callbacks (count_added (length bs) b1)"] conjI refl disjI2 exI [of _ lens] exI [of _ bs] exI [of _ b1])
            (simp_all add: frozen_alike_def b1_def)
      qed
    qed
  qed
qed

section \<open>Writing sends a prefix\<close>

lemma write_vecs_spec:
  "list_all chain_ok chs \<Longrightarrow> \<exists>vs. write_vecs n h chs = Inr vs \<and> length vs \<le> n \<and> (n \<noteq> 0 \<longrightarrow> h \<noteq> 0 \<longrightarrow> chs \<noteq> [] \<longrightarrow> vs \<noteq> []) \<and>
     concat vs = take (min h (sum_list (map off (take n chs)))) (concat (map chain_data chs))"
proof (induction n h chs rule: write_vecs.induct)
  case (3 n h ch chs)
  have ch: "chain_ok ch" "length (chain_data ch) = off ch" using 3 by (simp_all add: length_chain_data)
  have get: "chain_get (misalign ch) k ch = Inr (take k (chain_data ch))" if "k \<le> off ch" for k
    using that ch(1) by (simp add: chain_get_def chain_ok_def chain_data_def mem_get_def min_def)
  show ?case
  proof (cases "h = 0")
    case False
    show ?thesis
    proof (cases "h \<ge> off ch")
      case True
      obtain vs where vs: "write_vecs n (h - off ch) chs = Inr vs" "length vs \<le> n"
        "concat vs = take (min (h - off ch) (sum_list (map off (take n chs)))) (concat (map chain_data chs))"
        using 3 False True by auto
      have "write_vecs (Suc n) h (ch # chs) = Inr (chain_data ch # vs)" using False True vs(1) get [of "off ch"] ch(2) by simp
      moreover have "min h (off ch + sum_list (map off (take n chs))) = off ch + min (h - off ch) (sum_list (map off (take n chs)))"
        using True by auto
      ultimately show ?thesis using vs(2,3) ch(2) by simp
    next
      case less: False
      then have "min h (off ch + sum_list (map off (take n chs))) = h" by simp
      then show ?thesis using False less get [of h] ch(2) by simp
    qed
  qed simp
qed auto

definition writev_ok :: "writev \<Rightarrow> bool" where
  "writev_ok writev \<longleftrightarrow> (\<forall>vs n. writev vs = Some n \<longrightarrow> n \<le> length (concat vs))"

lemma write_spec:
  assumes ok: "evb_ok buf" and wv: "writev_ok writev"
  shows "\<exists>r buf'. evbuffer_write_atmost writev howmuch buf = Inr (r, buf') \<and>
    (r \<le> 0 \<and> r \<ge> - 1 \<and> buf' = buf \<or>
     \<not> freeze_start buf \<and> (\<exists>vs n. writev vs = Some n \<and> length vs \<le> NUM_WRITE_IOVEC \<and> concat vs = take (length (concat vs)) (contents buf) \<and>
       (0 \<le> howmuch \<longrightarrow> int (length (concat vs)) \<le> howmuch) \<and> 0 < n \<and> n \<le> length (concat vs) \<and> r = int n \<and>
       evbuffer_drain n buf = Inr (0, buf') \<and> contents buf' = drop n (contents buf) \<and> evb_ok buf' \<and> (out_ok buf \<longrightarrow> out_ok buf') \<and> frozen_alike buf buf'))"
proof (cases "freeze_start buf")
  case True
  then show ?thesis by (simp add: evbuffer_write_atmost_def)
next
  case thaw: False
  define h where "h = (if howmuch < 0 \<or> howmuch > int (total_len buf) then int (total_len buf) else howmuch)"
  have len: "length (contents buf) = total_len buf" by (rule contents_length [OF ok])
  show ?thesis
  proof (cases "h > 0")
    case False
    then show ?thesis using thaw by (simp add: evbuffer_write_atmost_def h_def [symmetric] Let_def)
  next
    case True
    have chs: "list_all chain_ok (chains buf)" "total_len buf = sum_list (map off (chains buf))" using ok by (simp_all add: evb_ok_def)
    have "h \<le> int (total_len buf)" by (simp add: h_def)
    then have "chains buf \<noteq> []" using True chs(2) by auto
    then obtain vs where vs: "write_vecs NUM_WRITE_IOVEC (nat h) (chains buf) = Inr vs" "length vs \<le> NUM_WRITE_IOVEC" "vs \<noteq> []"
      "concat vs = take (min (nat h) (sum_list (map off (take NUM_WRITE_IOVEC (chains buf))))) (contents buf)"
      using write_vecs_spec [OF chs(1), of NUM_WRITE_IOVEC "nat h"] True by (auto simp: contents_def NUM_WRITE_IOVEC_def)
    have pre: "concat vs = take (length (concat vs)) (contents buf)" "int (length (concat vs)) \<le> h"
      using vs(4) True by (auto simp: min_def)
    have hm: "0 \<le> howmuch \<longrightarrow> h \<le> howmuch" by (simp add: h_def)
    have run: "evbuffer_write_atmost writev howmuch buf =
        (case writev vs of None \<Rightarrow> Inr (- 1, buf)
         | Some n \<Rightarrow> if n > 0 then bindE (evbuffer_drain n buf) (\<lambda>(_, buf). Inr (int n, buf)) else Inr (0, buf))"
      using thaw True vs(1,3) by (simp add: evbuffer_write_atmost_def h_def [symmetric] Let_def evbuffer_write_iovec_def split: option.split)
    show ?thesis
    proof (cases "writev vs")
      case None
      then show ?thesis using run by simp
    next
      case (Some n)
      show ?thesis
      proof (cases "n = 0")
        case True
        then show ?thesis using run Some by simp
      next
        case False
        have n: "n \<le> length (concat vs)" using wv Some unfolding writev_ok_def by blast
        obtain b where b: "evbuffer_drain n buf = Inr (0, b)" "evb_ok b" "out_ok buf \<longrightarrow> out_ok b" "frozen_alike buf b" "contents b = drop n (contents buf)"
          using evbuffer_drain_spec [OF ok thaw] by blast
        have "evbuffer_write_atmost writev howmuch buf = Inr (int n, b)" using run Some False b(1) by simp
        moreover have "0 \<le> howmuch \<longrightarrow> int (length (concat vs)) \<le> howmuch" using pre(2) hm by linarith
        ultimately show ?thesis using Some vs(2) pre(1) False n b thaw by blast
      qed
    qed
  qed
qed

section \<open>What callbacks hear\<close>

text \<open>Outside of a change nothing is left to tell, and callbacks run at once.\<close>

definition quiet_buf :: "evbuffer \<Rightarrow> bool" where
  "quiet_buf buf \<longleftrightarrow> n_add_for_cb buf = 0 \<and> n_del_for_cb buf = 0 \<and> \<not> deferred_cbs buf \<and> calls buf = []"

definition told :: "nat \<Rightarrow> nat \<Rightarrow> evbuffer \<Rightarrow> evbuffer_call list" where
  "told a d buf =
     (if a = 0 \<and> d = 0 then []
      else map (cb_call (total_len buf + d - a) (total_len buf) a d)
        (filter (\<lambda>ent. cb_flags ent AND EVBUFFER_CB_ENABLED = EVBUFFER_CB_ENABLED) (callbacks buf)))"

definition heard :: "nat \<Rightarrow> nat \<Rightarrow> evbuffer \<Rightarrow> evbuffer \<Rightarrow> bool" where
  "heard a d buf buf' \<longleftrightarrow> callbacks buf' = callbacks buf \<and> calls buf' = told a d buf' \<and> n_add_for_cb buf' = 0 \<and> n_del_for_cb buf' = 0 \<and>
     \<not> deferred_cbs buf'"

lemma invoke_heard:
  assumes "\<not> deferred_cbs b" and "calls b = []"
  shows "heard (n_add_for_cb b) (n_del_for_cb b) b (evbuffer_invoke_callbacks b)"
  using assms by (simp add: heard_def told_def evbuffer_invoke_callbacks_def evbuffer_run_callbacks_def Let_def)

lemma heard_after:
  assumes "quiet_buf buf" and "same_frame buf b" and "calls b = []" and "n_add_for_cb b = a" and "n_del_for_cb b = d"
  shows "heard a d buf (evbuffer_invoke_callbacks b)"
  using assms invoke_heard [of b] by (simp add: heard_def quiet_buf_def same_frame_def)

lemma quiet_heard: "quiet_buf buf \<Longrightarrow> heard 0 0 buf buf"
  by (simp add: heard_def quiet_buf_def told_def)

lemma drain_heard:
  assumes "quiet_buf buf" and "evb_ok buf" and "evbuffer_drain n buf = Inr (0, buf')" and "\<not> freeze_start buf"
  shows "heard 0 (min n (total_len buf)) buf buf'"
proof (cases "total_len buf = 0")
  case True
  then show ?thesis using assms quiet_heard by (simp add: evbuffer_drain_def)
next
  case False
  then obtain b where b: "buf' = evbuffer_invoke_callbacks b" "same_frame buf b" "calls b = calls buf" "n_add_for_cb b = n_add_for_cb buf"
    "n_del_for_cb b = n_del_for_cb buf + min n (total_len buf)"
    using assms(3,4) by (cases "total_len buf \<le> n"; cases "drain_loop n (chains buf) (last_with_datap buf)")
      (auto simp: evbuffer_drain_def Let_def ZERO_CHAIN_def same_frame_def frozen_alike_def)
  then show ?thesis using heard_after [OF assms(1) b(2)] assms(1) by (simp add: quiet_buf_def)
qed

lemma remove_heard:
  assumes "quiet_buf buf" and "evb_ok buf" and "evbuffer_remove n buf = Inr (x, buf')" and "\<not> freeze_start buf"
  shows "heard 0 (min n (total_len buf)) buf buf'"
proof (cases "min n (total_len buf) = 0")
  case True
  then show ?thesis using assms quiet_heard [OF assms(1)]
    by (simp add: evbuffer_remove_def evbuffer_copyout_spec [OF assms(2,4)])
next
  case False
  obtain b where b: "evbuffer_drain (min n (total_len buf)) buf = Inr (0, b)" using evbuffer_drain_spec [OF assms(2,4)] by blast
  have "0 < int (min n (total_len buf))" using False by simp
  then have "buf' = b"
    using assms(3) b by (simp only: evbuffer_remove_def evbuffer_copyout_spec [OF assms(2,4)] bindE_simps prod.case if_True nat_int) simp
  then show ?thesis using drain_heard [OF assms(1,2) b assms(4)] by simp
qed

text \<open>Counters and callbacks of two buffers are the same.\<close>

definition untold :: "evbuffer \<Rightarrow> evbuffer \<Rightarrow> bool" where
  "untold buf b \<longleftrightarrow> same_frame buf b \<and> calls b = calls buf \<and> n_add_for_cb b = n_add_for_cb buf \<and> n_del_for_cb b = n_del_for_cb buf"

lemma untold_refl: "untold buf buf" by (simp add: untold_def same_frame_def frozen_alike_def)

lemma untold_insert: "untold buf (evbuffer_chain_insert ch buf)"
  by (simp add: untold_def same_frame_def frozen_alike_def evbuffer_chain_insert_def Let_def)

lemma ensure_untold: "ensure_chain mm n buf = Inr (Some b) \<Longrightarrow> untold buf b"
  by (cases "evbuffer_chain_new mm n") (auto simp: ensure_chain_def untold_refl untold_insert split: if_splits)

lemma append_last_told:
  "append_last bs ch buf = Inr b \<Longrightarrow> untold (buf\<lparr>n_add_for_cb := n_add_for_cb buf + length bs\<rparr>) b"
  by (auto simp: append_last_def bindE_def count_added_def set_last_def untold_def same_frame_def frozen_alike_def split: sum.splits)

lemma untold_trans: "untold a b \<Longrightarrow> untold b c \<Longrightarrow> untold a c"
  by (simp add: untold_def same_frame_def frozen_alike_def)

lemma untold_add: "untold a b \<Longrightarrow> untold (a\<lparr>n_add_for_cb := n\<rparr>) (b\<lparr>n_add_for_cb := n\<rparr>)"
  by (simp add: untold_def same_frame_def frozen_alike_def)

lemma heard_untold:
  assumes "quiet_buf buf" and "untold (buf\<lparr>n_add_for_cb := a\<rparr>) b"
  shows "heard a 0 buf (evbuffer_invoke_callbacks b)"
  using assms by (intro heard_after) (auto simp: untold_def quiet_buf_def same_frame_def frozen_alike_def)

lemma heard_trans: "untold buf b \<Longrightarrow> heard a d b buf' \<Longrightarrow> heard a d buf buf'"
  by (simp add: untold_def heard_def same_frame_def)

lemma quiet_untold: "untold buf b \<Longrightarrow> quiet_buf buf \<Longrightarrow> quiet_buf b"
  by (simp add: untold_def quiet_buf_def same_frame_def)

lemma add_chain_heard:
  assumes "quiet_buf buf" and "add_chain mm data ch buf = Inr (r, buf')"
  shows "r = 0 \<and> heard (length data) 0 buf buf' \<or> r = - 1 \<and> buf' = buf"
proof -
  define remain where "remain = length (buffer ch) - misalign ch - off ch"
  note d = assms(2) [unfolded add_chain_def Let_def, folded remain_def]
  obtain new where new: "evbuffer_chain_new mm (grow_size ch (length data)) = Inr new"
    using d by (cases "evbuffer_chain_new mm (grow_size ch (length data))") simp_all
  show ?thesis
  proof (cases new)
    case None
    then show ?thesis using d new by simp
  next
    case (Some tmp)
    obtain b where b: "(if remain \<noteq> 0 then append_last (take remain data) ch buf else Inr buf) = Inr b"
      using d new Some by (cases "if remain \<noteq> 0 then append_last (take remain data) ch buf else Inr buf") simp_all
    obtain t where t: "chain_put 0 (drop remain data) tmp = Inr t"
      using d new Some b by (cases "chain_put 0 (drop remain data) tmp") simp_all
    define b2 where "b2 = evbuffer_chain_insert (t\<lparr>off := length (drop remain data)\<rparr>) b"
    have u1: "untold (buf\<lparr>n_add_for_cb := n_add_for_cb buf + length (take remain data)\<rparr>) b"
      using b append_last_told [of "take remain data" ch buf b] untold_refl by (cases "remain = 0") simp_all
    then have u2: "untold (buf\<lparr>n_add_for_cb := n_add_for_cb buf + length (take remain data)\<rparr>) b2"
      unfolding b2_def by (rule untold_trans) (rule untold_insert)
    have n: "n_add_for_cb buf = 0" using assms(1) by (simp add: quiet_buf_def)
    have "r = 0" "buf' = evbuffer_invoke_callbacks (b2\<lparr>n_add_for_cb := n_add_for_cb b2 + length (drop remain data)\<rparr>)"
      using d new Some b t by (simp_all add: b2_def)
    moreover have "untold (buf\<lparr>n_add_for_cb := length data\<rparr>) (b2\<lparr>n_add_for_cb := n_add_for_cb b2 + length (drop remain data)\<rparr>)"
    proof -
      have "n_add_for_cb b2 = length (take remain data)" using u2 n by (simp add: untold_def)
      then have "n_add_for_cb b2 + length (drop remain data) = length data" by simp
      then show ?thesis using untold_add [OF u2, of "length data"] by simp
    qed
    ultimately show ?thesis using heard_untold [OF assms(1)] by simp
  qed
qed

lemma add_heard:
  assumes "quiet_buf buf" and "evbuffer_add mm data buf = Inr (r, buf')"
  shows "r = 0 \<and> heard (length data) 0 buf buf' \<or> r = - 1 \<and> heard 0 0 buf buf'"
proof (cases "freeze_end buf")
  case True
  then show ?thesis using assms quiet_heard by (simp add: evbuffer_add_def)
next
  case False
  obtain eb where eb: "ensure_chain mm (length data) buf = Inr eb"
    using assms(2) False by (cases "ensure_chain mm (length data) buf") (simp_all add: evbuffer_add_def)
  show ?thesis
  proof (cases eb)
    case None
    then show ?thesis using assms eb False quiet_heard by (simp add: evbuffer_add_def)
  next
    case (Some b)
    note u = ensure_untold [OF eb [unfolded Some]]
    note q = quiet_untold [OF u assms(1)]
    have a: "heard (length data) 0 buf (evbuffer_invoke_callbacks c)" if "append_last data ch b = Inr c" for ch c
      using append_last_told [OF that] q heard_untold [OF q] heard_trans [OF u] by (simp add: quiet_buf_def)
    define ch where "ch = last (chains b)"
    note d = assms(2) [unfolded evbuffer_add_def if_not_P [OF False] eb Some bindE_simps option.case Let_def, folded ch_def]
    consider "length (buffer ch) - misalign ch - off ch \<ge> length data"
      | "\<not> length (buffer ch) - misalign ch - off ch \<ge> length data" "evbuffer_chain_should_realign ch (length data)"
      | "\<not> length (buffer ch) - misalign ch - off ch \<ge> length data" "\<not> evbuffer_chain_should_realign ch (length data)" by blast
    then show ?thesis
    proof cases
      case 1
      then show ?thesis using d a by (cases "append_last data ch b") auto
    next
      case 2
      then show ?thesis using d a by (cases "append_last data (evbuffer_chain_align ch) b") auto
    next
      case 3
      then have "add_chain mm data ch b = Inr (r, buf')" using d by simp
      from add_chain_heard [OF q this] show ?thesis using heard_trans [OF u] quiet_heard [OF q] by auto
    qed
  qed
qed

lemma rechained_untold: "rechained buf b \<Longrightarrow> untold buf b"
  using rechained_sel [of buf b] by (simp add: untold_def)

lemma read_heard:
  assumes "quiet_buf buf" and "rechained buf b1"
  shows "heard (length bs) 0 buf (if bs = [] then b1 else evbuffer_invoke_callbacks (count_added (length bs) b1))"
proof -
  have u: "untold buf b1" by (rule rechained_untold [OF assms(2)])
  note q = quiet_untold [OF u assms(1)]
  have "untold (b1\<lparr>n_add_for_cb := length bs\<rparr>) (count_added (length bs) b1)"
    using q by (simp add: untold_def quiet_buf_def count_added_def same_frame_def frozen_alike_def)
  from heard_untold [OF q this] show ?thesis using heard_trans [OF u] quiet_heard [OF q] by auto
qed

text \<open>After the callbacks have been told, the record of what they heard is cleared.\<close>

lemma heard_quiet: "heard a d buf buf' \<Longrightarrow> quiet_buf (buf'\<lparr>calls := []\<rparr>)"
  by (simp add: heard_def quiet_buf_def)

section \<open>A buffer and its descriptor\<close>


text \<open>C32:
  Writing to a descriptor sends from the front. The vectors offered (at most 128) hold the first bytes of the buffer
  in order, no more than asked for; the bytes the descriptor takes are exactly the ones that leave the buffer,
  and if it takes none or fails the buffer is unchanged.
\<close>

theorem buffer_write_sends_prefix:
  assumes "evb_ok buf" and "writev_ok writev"
  shows "\<exists>r buf'. evbuffer_write_atmost writev howmuch buf = Inr (r, buf') \<and> evb_ok buf' \<and>
    ((r = 0 \<or> r = - 1) \<and> buf' = buf \<or>
     (\<exists>vs n. writev vs = Some n \<and> length vs \<le> 128 \<and> r = int n \<and> concat vs = take (length (concat vs)) (contents buf) \<and>
        (0 \<le> howmuch \<longrightarrow> int (length (concat vs)) \<le> howmuch) \<and> contents buf = take n (concat vs) @ contents buf'))"
proof -
  have e: "contents buf = take n (concat vs) @ drop n (contents buf)"
    if "concat vs = take (length (concat vs)) (contents buf)" "n \<le> length (concat vs)" for vs n
  proof -
    have "take n (concat vs) = take n (contents buf)" using that by (metis min.absorb1 take_take)
    then show ?thesis by simp
  qed
  obtain r buf' where r: "evbuffer_write_atmost writev howmuch buf = Inr (r, buf')"
    and s: "r \<le> 0 \<and> r \<ge> - 1 \<and> buf' = buf \<or>
     \<not> freeze_start buf \<and> (\<exists>vs n. writev vs = Some n \<and> length vs \<le> NUM_WRITE_IOVEC \<and> concat vs = take (length (concat vs)) (contents buf) \<and>
       (0 \<le> howmuch \<longrightarrow> int (length (concat vs)) \<le> howmuch) \<and> 0 < n \<and> n \<le> length (concat vs) \<and> r = int n \<and>
       evbuffer_drain n buf = Inr (0, buf') \<and> contents buf' = drop n (contents buf) \<and> evb_ok buf' \<and> (out_ok buf \<longrightarrow> out_ok buf') \<and> frozen_alike buf buf')"
    using write_spec [OF assms, of howmuch] by blast
  from s show ?thesis
  proof (elim disjE conjE exE)
    assume "r \<le> 0" "r \<ge> - 1" "buf' = buf"
    moreover from this have "r = 0 \<or> r = - 1" by linarith
    ultimately show ?thesis using r assms(1) by blast
  next
    fix vs n assume a: "writev vs = Some n" "length vs \<le> NUM_WRITE_IOVEC" "concat vs = take (length (concat vs)) (contents buf)"
      "0 \<le> howmuch \<longrightarrow> int (length (concat vs)) \<le> howmuch" "n \<le> length (concat vs)" "r = int n" "contents buf' = drop n (contents buf)" "evb_ok buf'"
    have "contents buf = take n (concat vs) @ contents buf'" using e [OF a(3,5)] a(7) by simp
    then show ?thesis using r a unfolding NUM_WRITE_IOVEC_def by blast
  qed
qed

text \<open>A descriptor that delivers three bytes, and one that takes at most two.\<close>

definition three_bytes :: readv where
  "three_bytes lens = Some (take (sum_list lens) [1, 2, 3])"

definition takes_two :: writev where
  "takes_two vs = Some (min 2 (length (concat vs)))"

lemma three_bytes_ok: "readv_ok three_bytes" by (simp add: readv_ok_def three_bytes_def)

lemma takes_two_ok: "writev_ok takes_two" by (simp add: writev_ok_def takes_two_def)


lemma buffer_write_sends_prefix_witness:
  "\<exists>r buf'. evbuffer_write_atmost takes_two (- 1) (add_bytes [7, 8, 9]) = Inr (r, buf') \<and> evb_ok buf'"
proof -
  have "evb_ok (add_bytes [7, 8, 9])" using add_bytes_ok [of "[7, 8, 9]"] out_evb by simp
  from buffer_write_sends_prefix [OF this takes_two_ok, of "- 1"] show ?thesis by blast
qed

text \<open>
  A buffer that keeps an empty chain behind its data, as a read leaves it, is spoilt by \<^verbatim>\<open>evbuffer_add\<close>: the bytes go
  to the last chain, and the pointer to the last chain with data stays where it was.
\<close>

lemma add_behind_empty_chain:
  fixes mm
  defines "c \<equiv> \<lparr>buffer = [5, 0], misalign = 0, off = 1\<rparr>" and "d \<equiv> \<lparr>buffer = [0, 0], misalign = 0, off = 0\<rparr>"
  defines "buf \<equiv> with_chains [c, d] 0 (evbuffer_new\<lparr>total_len := 1\<rparr>)"
  shows "evb_ok buf \<and> (\<exists>buf'. evbuffer_add mm [6] buf = Inr (0, buf') \<and> contents buf' = [5, 6] \<and> \<not> evb_ok buf' \<and>
    off (chains buf' ! 1) \<noteq> 0 \<and> last_with_datap buf' = 0)"
proof
  have "data_first [c, d] 0" using data_firstI [of "[c]" "[d]"] by (simp add: c_def d_def)
  then show "evb_ok buf" by (simp add: evb_ok_def buf_def with_chains_def c_def d_def chain_ok_def max_chain_def)
  define buf' where "buf' = evbuffer_invoke_callbacks (count_added 1 (with_chains [c, \<lparr>buffer = [6, 0], misalign = 0, off = 1\<rparr>] 0 (evbuffer_new\<lparr>total_len := 1\<rparr>)))"
  have "evbuffer_add mm [6] buf = Inr (0, buf')"
    by (simp add: evbuffer_add_def buf_def with_chains_def ensure_chain_def c_def d_def append_last_def chain_put_def mem_put_def
        set_last_def buf'_def evbuffer_new_def)
  moreover have ch: "chains buf' = [c, \<lparr>buffer = [6, 0], misalign = 0, off = 1\<rparr>]" "last_with_datap buf' = 0"
    by (simp_all add: buf'_def with_chains_def count_added_def)
  moreover have "contents buf' = [5, 6]" by (simp add: contents_def ch(1) chain_data_def c_def mem_get_def)
  moreover have "\<not> data_first (chains buf') (last_with_datap buf')"
  proof
    assume "data_first (chains buf') (last_with_datap buf')"
    then obtain xs ys where "chains buf' = xs @ ys" "vacant ys" "0 = length xs - 1" using ch(2) unfolding data_first_def by auto
    then show False unfolding ch(1) by (cases xs; cases "tl xs") (auto simp: c_def)
  qed
  ultimately show "\<exists>buf'. evbuffer_add mm [6] buf = Inr (0, buf') \<and> contents buf' = [5, 6] \<and> \<not> evb_ok buf' \<and>
      off (chains buf' ! 1) \<noteq> 0 \<and> last_with_datap buf' = 0"
    by (intro exI [of _ buf']) (simp add: evb_ok_def)
qed

end
