(* ===== verification/Monitor.thy ===== *)
theory Monitor
  imports Complex_Main Ini
begin

text \<open>
  The system information of \<^verbatim>\<open>libbase/SystemMonitor.cpp\<close> on Linux: the files of
  \<^verbatim>\<open>/proc\<close> are read line by line and the values cut out of their lines. A file is its
  contents, \<open>None\<close> if it cannot be opened. Rounding to \<^verbatim>\<open>float\<close> is a parameter. An outer
  \<open>None\<close> of a result is a replacement that never ends.
\<close>

section \<open>Reading a file\<close>

text \<open>
  \<^verbatim>\<open>fgets\<close> for at most so many characters: the characters, the rest of the file, and whether
  the end of the file was met.
\<close>

fun fgets :: "nat \<Rightarrow> string \<Rightarrow> string \<times> string \<times> bool" where
  "fgets 0 cs = ([], cs, False)"
| "fgets (Suc n) [] = ([], [], True)"
| "fgets (Suc n) (c # cs) =
     (if c = CHR 0x0A then ([c], cs, False)
      else case fgets n cs of (l, r, e) \<Rightarrow> (c # l, r, e))"

lemma fgets_shorter: "fgets n cs = (l, r, False) \<Longrightarrow> n \<noteq> 0 \<Longrightarrow> length r < length cs"
proof (induction n cs arbitrary: l rule: fgets.induct)
  case (3 n c cs)
  then show ?case by (cases n) (auto split: if_splits prod.splits)
qed auto

text \<open>The buffer holds 1024 characters, and one more is given away; it is taken as a C string.\<close>

definition line_size :: nat where "line_size = 1022"

function read_lines :: "string \<Rightarrow> string list" where
  "read_lines cs =
     (case fgets line_size cs of (l, r, e) \<Rightarrow>
        takeWhile (\<lambda>c. c \<noteq> CHR 0x00) l # (if e then [] else read_lines r))"
  by pat_completeness auto
termination
proof (relation "measure length")
  fix cs l y r e
  assume "(l, y) = fgets line_size cs" and "(r, e) = y" and "\<not> e"
  then have "fgets line_size cs = (l, r, False)" by simp
  then show "(r, cs) \<in> measure length" using fgets_shorter [of line_size cs l r] by (simp add: line_size_def)
qed simp

declare read_lines.simps [simp del]

definition readFile :: "string option \<Rightarrow> string list option" where
  "readFile file = map_option read_lines file"

section \<open>The values\<close>

definition getMemory :: "string option \<Rightarrow> u32 option" where
  "getMemory file =
     (case readFile file of
        None \<Rightarrow> Some 0
      | Some lines \<Rightarrow>
          let tmp = (case find (\<lambda>l. isStringBeginOf l ''VmRSS:'') lines of None \<Rightarrow> [] | Some l \<Rightarrow> l) in
          if tmp \<noteq> [] then
            let tmp = trimString CHR '' '' tmp;
                tmp = trimString CHR 0x0A tmp;
                tmp = trimString CHR 0x0D tmp;
                tmp = trimString CHR 0x09 tmp
            in map_option (\<lambda>tmp. of_int (atoi tmp)) (replaceAllChar tmp ''VmRSS:'' [])
          else Some 0)"

record SysInfo =
  sys_name :: string
  sys_version :: string

definition initSysInfo :: "string option \<Rightarrow> SysInfo" where
  "initSysInfo file =
     (case readFile file of
        None \<Rightarrow> \<lparr>sys_name = ''Linux'', sys_version = ''unknown''\<rparr>
      | Some lines \<Rightarrow>
          let tmp = concat lines;
              tmp = trimString CHR 0x0A tmp;
              tmp = trimString CHR 0x0D tmp;
              tmp = trimString CHR 0x09 tmp
          in \<lparr>sys_name = ''Linux'', sys_version = tmp\<rparr>)"

record CpuInfo =
  processNum :: u32
  frequency :: string
  manufacture :: string
  cpu_type :: string

definition cpu_line :: "string \<Rightarrow> CpuInfo \<Rightarrow> CpuInfo" where
  "cpu_line line c =
     (if isStringBeginOf line ''processor'' then c\<lparr>processNum := processNum c + 1\<rparr>
      else if isStringBeginOf line ''cpu MHz'' then c\<lparr>frequency := line\<rparr>
      else if isStringBeginOf line ''vendor_id'' then c\<lparr>manufacture := line\<rparr>
      else if isStringBeginOf line ''model name'' then c\<lparr>cpu_type := line\<rparr>
      else c)"

text \<open>The three calls of \<^verbatim>\<open>trimString\<close>, the title taken away, leading blanks cut.\<close>

definition cut_value :: "string \<Rightarrow> string \<Rightarrow> string option" where
  "cut_value title str =
     (let str = trimString CHR 0x09 str;
          str = trimString CHR 0x0A str;
          str = trimString CHR 0x0D str
      in map_option (trimHeadString CHR '' '') (replaceAllChar str title []))"

definition initCpuInfo :: "string option \<Rightarrow> CpuInfo option" where
  "initCpuInfo file =
     (let c = \<lparr>processNum = 0, frequency = ''unknown'', manufacture = ''unknown'', cpu_type = ''unknown''\<rparr> in
      case readFile file of
        None \<Rightarrow> Some c
      | Some lines \<Rightarrow>
          let c = fold cpu_line lines c in
          (case (cut_value ''cpu MHz:'' (frequency c), cut_value ''vendor_id:'' (manufacture c),
                 cut_value ''model name:'' (cpu_type c)) of
             (Some f, Some m, Some t) \<Rightarrow> Some (c\<lparr>frequency := f, manufacture := m, cpu_type := t\<rparr>)
           | _ \<Rightarrow> None))"

record MemoryInfo =
  mem_total :: rat
  mem_avail :: rat

definition DKBYTES :: rat where "DKBYTES = 1024"

text \<open>\<^verbatim>\<open>atol\<close> gives a \<^verbatim>\<open>long\<close>.\<close>

definition memory_line :: "(rat \<Rightarrow> rat) \<Rightarrow> string \<Rightarrow> MemoryInfo \<Rightarrow> MemoryInfo option" where
  "memory_line to_float line m =
     Option.bind (replaceAllChar (trimString CHR '' '' line) ''kb'' []) (\<lambda>tmp.
       if isStringBeginOf tmp ''MemTotal:'' then
         map_option (\<lambda>tmp. m\<lparr>mem_total := to_float (of_int (strtol tmp) / DKBYTES / DKBYTES)\<rparr>) (replaceAllChar tmp ''MemTotal:'' [])
       else if isStringBeginOf tmp ''MemFree:'' then
         map_option (\<lambda>tmp. m\<lparr>mem_avail := to_float (of_int (strtol tmp) / DKBYTES / DKBYTES)\<rparr>) (replaceAllChar tmp ''MemFree:'' [])
       else Some m)"

fun memory_lines :: "(rat \<Rightarrow> rat) \<Rightarrow> string list \<Rightarrow> MemoryInfo \<Rightarrow> MemoryInfo option" where
  "memory_lines to_float [] m = Some m"
| "memory_lines to_float (l # ls) m = Option.bind (memory_line to_float l m) (memory_lines to_float ls)"

definition initMemoryInfo :: "(rat \<Rightarrow> rat) \<Rightarrow> string option \<Rightarrow> MemoryInfo option" where
  "initMemoryInfo to_float file =
     (let m = \<lparr>mem_total = 0, mem_avail = 0\<rparr> in
      case readFile file of None \<Rightarrow> Some m | Some lines \<Rightarrow> memory_lines to_float lines m)"

section \<open>What a file of lines gives\<close>

definition line_wf :: "string \<Rightarrow> bool" where
  "line_wf l \<longleftrightarrow> CHR 0x0A \<notin> set l \<and> CHR 0x00 \<notin> set l \<and> length l < line_size"

lemma fgets_line: "CHR 0x0A \<notin> set l \<Longrightarrow> length l < n \<Longrightarrow> fgets n (l @ CHR 0x0A # cs) = (l @ [CHR 0x0A], cs, False)"
proof (induction l arbitrary: n)
  case Nil
  then show ?case by (cases n) simp_all
next
  case (Cons c l)
  then show ?case by (cases n) auto
qed

lemma read_lines_written:
  "list_all line_wf ls \<Longrightarrow> read_lines (write_lines ls) = map (\<lambda>l. l @ [CHR 0x0A]) ls @ [[]]"
proof (induction ls)
  case Nil
  have "fgets line_size [] = ([], [], True)" by (simp add: line_size_def numeral_eq_Suc)
  then show ?case by (subst read_lines.simps) (simp add: write_lines_def)
next
  case (Cons l ls)
  have w: "write_lines (l # ls) = l @ CHR 0x0A # write_lines ls" by (simp add: write_lines_def)
  have f: "fgets line_size (write_lines (l # ls)) = (l @ [CHR 0x0A], write_lines ls, False)"
    unfolding w using Cons.prems by (intro fgets_line) (simp_all add: line_wf_def)
  have "takeWhile (\<lambda>c. c \<noteq> CHR 0x00) (l @ [CHR 0x0A]) = l @ [CHR 0x0A]"
    using Cons.prems by (simp add: line_wf_def takeWhile_eq_all_conv) auto
  then show ?case using Cons f by (subst read_lines.simps) simp
qed

text \<open>A text that does not have the first character of the title again is not touched again.\<close>

lemma find_sub_absent: "d \<in> set p \<Longrightarrow> d \<notin> set xs \<Longrightarrow> find_sub p xs = None"
proof (induction xs)
  case (Cons x xs)
  then have "\<not> prefix p (x # xs)" using set_mono_prefix by (metis subsetD)
  then show ?case using Cons by simp
qed auto

lemma replace_title:
  assumes "d \<in> set p" and "d \<notin> set s"
  shows "replaceAllChar (p @ s) p [] = Some s"
proof -
  have ne: "p \<noteq> []" using assms(1) by auto
  then have f: "str_find (p @ s) p 0 = Some 0" by (cases p) (simp_all add: str_find_def)
  have r: "str_replace 0 (length p) [] (p @ s) = s" by (simp add: str_replace_def)
  have n: "str_find s p k = None" for k
    using find_sub_absent [OF assms(1), of "drop k s"] assms(2) by (auto simp: str_find_def dest: in_set_dropD)
  have "replace_loop p [] (Some 0) (p @ s) = replace_loop p [] None s"
    by (subst replace_loop.simps) (simp add: r n Let_def)
  also have "\<dots> = Some s" by (subst replace_loop.simps) simp
  finally show ?thesis using f ne by (simp add: replaceAllChar_def)
qed

lemma strtol_digits:
  assumes "n < 2 ^ 63" and "rest = [] \<or> \<not> is_digit (hd rest)"
  shows "strtol (decimal n @ rest) = int n"
proof -
  obtain d ds where d: "decimal n = d # ds" using decimal_nonempty [of n] by (cases "decimal n") auto
  have dig: "is_digit d" using decimal_digits [of n] d by simp
  have "digits_value rest k = k" for k using assms(2) by (cases rest) auto
  then have v: "digits_value (decimal n @ rest) 0 = int n"
    by (simp add: digits_value_append [OF decimal_digits] decimal_value)
  have "\<not> is_space d" "d \<noteq> CHR ''-''" "d \<noteq> CHR ''+''" using dig by (auto simp: is_digit_def is_space_def)
  then show ?thesis using v d assms(1) by (simp add: strtol_def first_char_def)
qed

lemma digit_plain: "is_digit c \<Longrightarrow> c \<noteq> CHR '' '' \<and> c \<noteq> CHR 0x09 \<and> c \<noteq> CHR 0x0A \<and> c \<noteq> CHR 0x0D \<and> c \<noteq> CHR ''V'' \<and> c \<noteq> CHR ''M''"
  by (auto simp: is_digit_def)

lemma decimal_filter:
  "c \<in> set [CHR '' '', CHR 0x09, CHR 0x0A, CHR 0x0D] \<Longrightarrow> filter (\<lambda>x. x \<noteq> c) (decimal n) = decimal n"
  using decimal_digits [of n] digit_plain by (auto simp: filter_id_conv list.pred_set)

definition blanks :: "string \<Rightarrow> bool" where
  "blanks s \<longleftrightarrow> list_all (\<lambda>c. c = CHR '' '' \<or> c = CHR 0x09) s"

lemma blanks_gone: "blanks s \<Longrightarrow> filter (\<lambda>x. x \<noteq> CHR 0x09) (filter (\<lambda>x. x \<noteq> CHR '' '') s) = []"
  by (auto simp: blanks_def filter_empty_conv list.pred_set)

text \<open>The resident memory of the process, as the status file prints it.\<close>

definition vmrss_line :: "string \<Rightarrow> nat \<Rightarrow> string" where
  "vmrss_line sp n = ''VmRSS:'' @ sp @ decimal n @ '' kB''"

lemma begins: "isStringBeginOf (s @ [c]) t \<longleftrightarrow> t \<noteq> [] \<and> prefix t (s @ [c])"
  by (simp add: isStringBeginOf_prefix)

lemma getMemory_line:
  assumes "find (\<lambda>l. isStringBeginOf l ''VmRSS:'') (read_lines cs) = Some l" and "l \<noteq> []"
    and "filter (\<lambda>x. x \<noteq> CHR 0x09) (filter (\<lambda>x. x \<noteq> CHR 0x0D) (filter (\<lambda>x. x \<noteq> CHR 0x0A)
      (filter (\<lambda>x. x \<noteq> CHR '' '') l))) = t"
  shows "getMemory (Some cs) = map_option (\<lambda>tmp. of_int (atoi tmp)) (replaceAllChar t ''VmRSS:'' [])"
  using assms by (simp only: getMemory_def readFile_def trimString_filter Let_def option.map option.case) simp

lemma getMemory_reads:
  assumes "list_all line_wf (before @ vmrss_line sp n # after)" and "blanks sp" and "n < 2 ^ 31"
    and "list_all (\<lambda>l. \<not> prefix ''VmRSS:'' l) before"
  shows "getMemory (Some (write_lines (before @ vmrss_line sp n # after))) = Some (of_nat n)"
proof -
  let ?nl = "\<lambda>l :: string. l @ [CHR 0x0A]"
  have no: "\<not> isStringBeginOf (?nl l) ''VmRSS:''" if "l \<in> set before" for l
    using that assms(4) by (auto simp: begins list.pred_set prefix_snoc)
  have f: "find (\<lambda>l. isStringBeginOf l ''VmRSS:'') (read_lines (write_lines (before @ vmrss_line sp n # after))) = Some (?nl (vmrss_line sp n))"
  proof -
    have "find (\<lambda>l. isStringBeginOf l ''VmRSS:'') (map ?nl before @ xs) = find (\<lambda>l. isStringBeginOf l ''VmRSS:'') xs" for xs
      using no by (induction before) auto
    moreover have "isStringBeginOf (?nl (vmrss_line sp n)) ''VmRSS:''" by (simp add: isStringBeginOf_prefix vmrss_line_def)
    ultimately show ?thesis using read_lines_written [OF assms(1)] by simp
  qed
  have ne: "?nl (vmrss_line sp n) \<noteq> []" by simp
  have fl: "filter (\<lambda>x. x \<noteq> CHR 0x09) (filter (\<lambda>x. x \<noteq> CHR 0x0D) (filter (\<lambda>x. x \<noteq> CHR 0x0A)
      (filter (\<lambda>x. x \<noteq> CHR '' '') (?nl (vmrss_line sp n))))) = ''VmRSS:'' @ decimal n @ ''kB''"
  proof -
    have "filter (\<lambda>x. x \<noteq> CHR 0x09) (filter (\<lambda>x. x \<noteq> CHR 0x0D) (filter (\<lambda>x. x \<noteq> CHR 0x0A) (filter (\<lambda>x. x \<noteq> CHR '' '') sp))) = []"
      using assms(2) by (auto simp: blanks_def filter_empty_conv list.pred_set)
    then show ?thesis by (simp add: vmrss_line_def decimal_filter)
  qed
  have "CHR ''V'' \<notin> set (decimal n @ ''kB'')"
    using decimal_digits [of n] digit_plain by (auto simp: list.pred_set)
  then have "replaceAllChar (''VmRSS:'' @ decimal n @ ''kB'') ''VmRSS:'' [] = Some (decimal n @ ''kB'')"
    using replace_title [of "CHR ''V''" "''VmRSS:''" "decimal n @ ''kB''"] by simp
  moreover have "atoi (decimal n @ ''kB'') = int n"
    using strtol_digits [of n "''kB''"] assms(3) by (simp add: atoi_def is_digit_def wrap_int_id int_range_def)
  ultimately show ?thesis
    unfolding getMemory_line [OF f ne fl] by simp
qed

text \<open>The total of the memory file; the unit is not cut away, since the search is for lower case.\<close>

lemma memory_line_total:
  assumes "list_all (\<lambda>c. c = CHR '' '') sp" and "n < 2 ^ 63"
  shows "memory_line to_float (''MemTotal:'' @ sp @ decimal n @ '' kB'' @ [CHR 0x0A]) m =
    Some (m\<lparr>mem_total := to_float (of_nat n / 1024 / 1024)\<rparr>)"
proof -
  let ?t = "decimal n @ ''kB'' @ [CHR 0x0A]"
  have dig: "CHR ''b'' \<notin> set (decimal n)" "CHR '':'' \<notin> set (decimal n)" using decimal_digits [of n] by (auto simp: list.pred_set is_digit_def)
  have "filter (\<lambda>x. x \<noteq> CHR '' '') sp = []" using assms(1) by (simp add: filter_empty_conv list.pred_set)
  then have f: "trimString CHR '' '' (''MemTotal:'' @ sp @ decimal n @ '' kB'' @ [CHR 0x0A]) = ''MemTotal:'' @ ?t"
    by (simp add: trimString_filter decimal_filter)
  have "find_sub ''kb'' (''MemTotal:'' @ ?t) = None" by (rule find_sub_absent [of "CHR ''b''"]) (simp_all add: dig)
  then have "str_find (''MemTotal:'' @ ?t) ''kb'' 0 = None" by (simp add: str_find_def)
  then have k: "replaceAllChar (''MemTotal:'' @ ?t) ''kb'' [] = Some (''MemTotal:'' @ ?t)"
    by (simp add: replaceAllChar_def replace_loop.simps [of _ _ None] del: append_Cons)
  have r: "replaceAllChar (''MemTotal:'' @ ?t) ''MemTotal:'' [] = Some ?t"
    by (rule replace_title [of "CHR '':''"]) (simp_all add: dig)
  have b: "isStringBeginOf (''MemTotal:'' @ ?t) ''MemTotal:''" by (simp add: isStringBeginOf_prefix)
  have "strtol ?t = int n" using strtol_digits [OF assms(2), of "''kB'' @ [CHR 0x0A]"] by (simp add: is_digit_def)
  then show ?thesis by (simp only: memory_line_def f k r b bind.bind_lunit if_True option.map DKBYTES_def of_int_of_nat_eq)
qed

section \<open>The processors\<close>

datatype cpu_entry = Processor string | Mhz string | Vendor string | Model string | Other string

fun print_entry :: "cpu_entry \<Rightarrow> string" where
  "print_entry (Processor s) = ''processor'' @ [CHR 0x09] @ '': '' @ s"
| "print_entry (Mhz s) = ''cpu MHz'' @ [CHR 0x09, CHR 0x09] @ '': '' @ s"
| "print_entry (Vendor s) = ''vendor_id'' @ [CHR 0x09] @ '': '' @ s"
| "print_entry (Model s) = ''model name'' @ [CHR 0x09] @ '': '' @ s"
| "print_entry (Other s) = s"

text \<open>Values without control characters and colons that begin with no blank; other lines have other titles.\<close>

definition value_wf :: "string \<Rightarrow> bool" where
  "value_wf s \<longleftrightarrow> list_all (\<lambda>c. c \<notin> set [CHR 0x09, CHR 0x0A, CHR 0x0D, CHR 0x00, CHR '':'']) s \<and>
     first_char s \<noteq> CHR '' ''"

fun entry_ok :: "cpu_entry \<Rightarrow> bool" where
  "entry_ok (Other s) = list_all (\<lambda>t. \<not> prefix t s) [''processor'', ''cpu MHz'', ''vendor_id'', ''model name'']"
| "entry_ok (Processor s) = value_wf s"
| "entry_ok (Mhz s) = value_wf s"
| "entry_ok (Vendor s) = value_wf s"
| "entry_ok (Model s) = value_wf s"

fun note_entry :: "cpu_entry \<Rightarrow> CpuInfo \<Rightarrow> CpuInfo" where
  "note_entry (Processor s) c = c\<lparr>processNum := processNum c + 1\<rparr>"
| "note_entry (Mhz s) c = c\<lparr>frequency := s\<rparr>"
| "note_entry (Vendor s) c = c\<lparr>manufacture := s\<rparr>"
| "note_entry (Model s) c = c\<lparr>cpu_type := s\<rparr>"
| "note_entry (Other s) c = c"

definition unknown_cpu :: CpuInfo where
  "unknown_cpu = \<lparr>processNum = 0, frequency = ''unknown'', manufacture = ''unknown'', cpu_type = ''unknown''\<rparr>"

text \<open>A line kept whole, against its value.\<close>

definition holds :: "string \<Rightarrow> string \<Rightarrow> string \<Rightarrow> bool" where
  "holds title line v \<longleftrightarrow> cut_value title line = Some v"

lemma holds_unknown: "CHR '':'' \<in> set title \<Longrightarrow> holds title ''unknown'' ''unknown''"
proof -
  assume "CHR '':'' \<in> set title"
  then have "find_sub title ''unknown'' = None" by (rule find_sub_absent) simp
  then have "str_find ''unknown'' title 0 = None" by (simp add: str_find_def)
  then have "replaceAllChar ''unknown'' title [] = Some ''unknown''"
    by (simp add: replaceAllChar_def replace_loop.simps [of _ _ None])
  then show ?thesis by (simp add: holds_def cut_value_def trimString_filter trimHeadString_dropWhile)
qed

lemma holds_value:
  assumes "value_wf s" and "list_all (\<lambda>c. c = CHR 0x09) tabs"
    and "list_all (\<lambda>c. c \<notin> set [CHR 0x09, CHR 0x0A, CHR 0x0D]) title"
  shows "holds (title @ '':'') ((title @ tabs @ '': '' @ s) @ [CHR 0x0A]) s"
proof -
  have f: "filter (\<lambda>x. x \<noteq> CHR 0x0D) (filter (\<lambda>x. x \<noteq> CHR 0x0A) (filter (\<lambda>x. x \<noteq> CHR 0x09) t)) = t"
    if "list_all (\<lambda>c. c \<notin> set [CHR 0x09, CHR 0x0A, CHR 0x0D]) t" for t
    using that by (simp add: filter_id_conv list.pred_set)
  have "list_all (\<lambda>c. c \<notin> set [CHR 0x09, CHR 0x0A, CHR 0x0D]) s" and c: "CHR '':'' \<notin> set s"
    using assms(1) by (auto simp: value_wf_def list.pred_set)
  moreover have "filter (\<lambda>x. x \<noteq> CHR 0x09) tabs = []" using assms(2) by (simp add: filter_empty_conv list.pred_set)
  ultimately have "filter (\<lambda>x. x \<noteq> CHR 0x0D) (filter (\<lambda>x. x \<noteq> CHR 0x0A) (filter (\<lambda>x. x \<noteq> CHR 0x09)
      ((title @ tabs @ '': '' @ s) @ [CHR 0x0A]))) = (title @ '':'') @ CHR '' '' # s"
    using f [OF assms(3)] f [of s] by simp
  moreover have "replaceAllChar ((title @ '':'') @ CHR '' '' # s) (title @ '':'') [] = Some (CHR '' '' # s)"
    using c by (intro replace_title [of "CHR '':''"]) simp_all
  moreover have "dropWhile (\<lambda>x. x = CHR '' '') (CHR '' '' # s) = s"
    using assms(1) by (cases s) (simp_all add: value_wf_def first_char_def)
  ultimately show ?thesis by (simp add: holds_def cut_value_def trimString_filter trimHeadString_dropWhile)
qed

text \<open>The pass over the lines follows the entries.\<close>

definition cpu_sim :: "CpuInfo \<Rightarrow> CpuInfo \<Rightarrow> bool" where
  "cpu_sim c d \<longleftrightarrow> processNum c = processNum d \<and> holds ''cpu MHz:'' (frequency c) (frequency d) \<and>
     holds ''vendor_id:'' (manufacture c) (manufacture d) \<and> holds ''model name:'' (cpu_type c) (cpu_type d)"

lemma cpu_line_sim:
  assumes "entry_ok e" and "cpu_sim c d"
  shows "cpu_sim (cpu_line (print_entry e @ [CHR 0x0A]) c) (note_entry e d)"
proof (cases e)
  case (Processor s)
  then show ?thesis using assms(2) by (simp add: cpu_line_def cpu_sim_def isStringBeginOf_prefix)
next
  case (Mhz s)
  then show ?thesis using assms holds_value [of s "[CHR 0x09, CHR 0x09]" "''cpu MHz''"]
    by (simp add: cpu_line_def cpu_sim_def isStringBeginOf_prefix)
next
  case (Vendor s)
  then show ?thesis using assms holds_value [of s "[CHR 0x09]" "''vendor_id''"]
    by (simp add: cpu_line_def cpu_sim_def isStringBeginOf_prefix)
next
  case (Model s)
  then show ?thesis using assms holds_value [of s "[CHR 0x09]" "''model name''"]
    by (simp add: cpu_line_def cpu_sim_def isStringBeginOf_prefix)
next
  case (Other s)
  have "\<not> isStringBeginOf (s @ [CHR 0x0A]) t" if "t \<in> set [''processor'', ''cpu MHz'', ''vendor_id'', ''model name'']" for t
  proof -
    have "\<not> prefix t s" "CHR 0x0A \<notin> set t" using that assms(1) Other by auto
    then show ?thesis by (auto simp: isStringBeginOf_prefix prefix_snoc)
  qed
  then show ?thesis using Other assms(2) by (simp add: cpu_line_def)
qed

lemma cpu_fold_sim:
  "list_all entry_ok es \<Longrightarrow> cpu_sim c d \<Longrightarrow>
    cpu_sim (fold cpu_line (map (\<lambda>e. print_entry e @ [CHR 0x0A]) es) c) (fold note_entry es d)"
  by (induction es arbitrary: c d) (auto intro: cpu_line_sim)

text \<open>
  From the processor list the kernel writes, the monitor takes the number of processor
  entries and the values of the last frequency, vendor and model lines, with titles, tabs and
  leading blanks cut off; all other lines are ignored and a missing value stays unknown.
\<close>

theorem cpu_info_read:
  assumes "list_all entry_ok es" and "list_all line_wf (map print_entry es)"
  shows "initCpuInfo (Some (write_lines (map print_entry es))) = Some (fold note_entry es unknown_cpu)"
proof -
  let ?c = "fold cpu_line (map (\<lambda>e. print_entry e @ [CHR 0x0A]) es) unknown_cpu"
  have "cpu_sim unknown_cpu unknown_cpu" by (simp add: cpu_sim_def unknown_cpu_def holds_unknown)
  then have s: "cpu_sim ?c (fold note_entry es unknown_cpu)" by (rule cpu_fold_sim [OF assms(1)])
  have l: "cpu_line [] c = c" for c by (simp add: cpu_line_def isStringBeginOf_def)
  have "read_lines (write_lines (map print_entry es)) = map (\<lambda>e. print_entry e @ [CHR 0x0A]) es @ [[]]"
    using read_lines_written [OF assms(2)] by simp
  then have "initCpuInfo (Some (write_lines (map print_entry es))) =
      (case (cut_value ''cpu MHz:'' (frequency ?c), cut_value ''vendor_id:'' (manufacture ?c), cut_value ''model name:'' (cpu_type ?c)) of
         (Some f, Some m, Some t) \<Rightarrow> Some (?c\<lparr>frequency := f, manufacture := m, cpu_type := t\<rparr>) | _ \<Rightarrow> None)"
    by (simp add: initCpuInfo_def readFile_def unknown_cpu_def [symmetric] l Let_def)
  also have "\<dots> = Some (fold note_entry es unknown_cpu)"
    using s by (simp add: cpu_sim_def holds_def)
  finally show ?thesis .
qed

definition two_cores :: "cpu_entry list" where
  "two_cores = [Processor ''0'', Vendor ''GenuineIntel'', Model ''Intel(R) Xeon(R) CPU'', Mhz ''2200.000'', Other ''flags : fpu'',
     Processor ''1'', Vendor ''GenuineIntel'', Model ''Intel(R) Xeon(R) CPU'', Mhz ''2400.000'', Other []]"

lemma cpu_info_read_witness:
  "initCpuInfo (Some (write_lines (map print_entry two_cores))) =
     Some \<lparr>processNum = 2, frequency = ''2400.000'', manufacture = ''GenuineIntel'', cpu_type = ''Intel(R) Xeon(R) CPU''\<rparr>"
proof -
  have 1: "list_all entry_ok two_cores" by (simp add: two_cores_def value_wf_def first_char_def)
  have 2: "list_all line_wf (map print_entry two_cores)" by (simp add: two_cores_def line_wf_def line_size_def)
  show ?thesis unfolding cpu_info_read [OF 1 2] by (simp add: two_cores_def unknown_cpu_def)
qed

end
