(* ===== verification/Threads.thy ===== *)
theory Threads
  imports Prelude
begin

text \<open>
  The thread object of \<^verbatim>\<open>libbase/Thread.cpp\<close> and the timed wait of \<^verbatim>\<open>libbase/Condition.cpp\<close>
  on Linux. Every section under the lock of the object is one step, and so is every single
  read or write outside and each step of the thread function; waiting gives the lock back. A step that cannot be taken yet is
  \<open>None\<close>. The state holds the object together with the threads that work on it: the thread
  functions that were started, and the calls of \<^verbatim>\<open>terminate\<close> that had to wait.
\<close>

type_synonym handle = u64

definition INVALID_THREAD_VALUE :: handle where "INVALID_THREAD_VALUE = 0"

text \<open>A thread function is in \<^verbatim>\<open>run\<close>, behind it, has told the waiting calls, or has exited.\<close>

datatype worker = InRun | RunDone | Told | Gone

text \<open>A call of \<^verbatim>\<open>terminate\<close> waits, its wait has ended in either way, or it has returned.\<close>

datatype waiter = Waiting | Woken | TimedOut | Returned

record Thread =
  m_hThread :: handle
  m_brunning :: bool
  workers :: "worker list"
  waiters :: "waiter list"

definition Thread_new :: Thread where
  "Thread_new = \<lparr>m_hThread = INVALID_THREAD_VALUE, m_brunning = False, workers = [], waiters = []\<rparr>"

text \<open>\<^verbatim>\<open>pthread_create\<close> gives a code and what it stored as the handle.\<close>

definition start :: "int \<times> handle \<Rightarrow> Thread \<Rightarrow> bool \<times> Thread" where
  "start created t =
     (if m_hThread t \<noteq> INVALID_THREAD_VALUE \<or> m_brunning t then (False, t)
      else
        let t = t\<lparr>m_brunning := True\<rparr>;
            retval = fst created;
            t = t\<lparr>m_hThread := snd created\<rparr>
        in
        if retval \<noteq> 0 then (False, t\<lparr>m_brunning := False\<rparr>)
        else (True, t\<lparr>workers := workers t @ [InRun]\<rparr>))"

definition broadcast :: "Thread \<Rightarrow> Thread" where
  "broadcast t = t\<lparr>waiters := map (\<lambda>w. if w = Waiting then Woken else w) (waiters t)\<rparr>"

text \<open>\<^verbatim>\<open>terminate\<close> up to the wait, and what follows the wait whatever it returned.\<close>

definition terminate_call :: "Thread \<Rightarrow> Thread" where
  "terminate_call t =
     (if m_brunning t then t\<lparr>m_brunning := False, waiters := waiters t @ [Waiting]\<rparr> else t)"

definition terminate_return :: "nat \<Rightarrow> Thread \<Rightarrow> Thread option" where
  "terminate_return i t =
     (if i < length (waiters t) \<and> waiters t ! i \<in> {Woken, TimedOut}
      then Some (t\<lparr>m_hThread := INVALID_THREAD_VALUE, waiters := (waiters t)[i := Returned]\<rparr>) else None)"

definition isRunning :: "Thread \<Rightarrow> bool" where "isRunning t = m_brunning t"
definition isStop :: "Thread \<Rightarrow> bool" where "isStop t = (\<not> m_brunning t)"

text \<open>
  The thread function: \<^verbatim>\<open>run\<close> returns; then the waiting calls are told, under the lock; then the
  thread exits. A call that was told may return, and the object may be started again, before the exit.
\<close>

definition run_returns :: "nat \<Rightarrow> Thread \<Rightarrow> Thread option" where
  "run_returns i t =
     (if i < length (workers t) \<and> workers t ! i = InRun
      then Some (t\<lparr>workers := (workers t)[i := RunDone]\<rparr>) else None)"

definition worker_broadcasts :: "nat \<Rightarrow> Thread \<Rightarrow> Thread option" where
  "worker_broadcasts i t =
     (if i < length (workers t) \<and> workers t ! i = RunDone
      then Some (broadcast (t\<lparr>workers := (workers t)[i := Told]\<rparr>)) else None)"

definition worker_exits :: "nat \<Rightarrow> Thread \<Rightarrow> Thread option" where
  "worker_exits i t =
     (if i < length (workers t) \<and> workers t ! i = Told
      then Some (t\<lparr>workers := (workers t)[i := Gone]\<rparr>) else None)"

text \<open>The wait of a call ends: its time is over, or without any reason, as the standard allows.\<close>

definition wait_ends :: "waiter \<Rightarrow> nat \<Rightarrow> Thread \<Rightarrow> Thread option" where
  "wait_ends w i t =
     (if i < length (waiters t) \<and> waiters t ! i = Waiting
      then Some (t\<lparr>waiters := (waiters t)[i := w]\<rparr>) else None)"

datatype thread_event =
  Start "int \<times> handle" | TerminateCall | TerminateReturn nat | RunReturns nat
  | WorkerBroadcasts nat | WorkerExits nat
  | Timeout nat | Spurious nat

fun thread_step :: "thread_event \<Rightarrow> Thread \<Rightarrow> Thread option" where
  "thread_step (Start r) t = Some (snd (start r t))"
| "thread_step TerminateCall t = Some (terminate_call t)"
| "thread_step (TerminateReturn i) t = terminate_return i t"
| "thread_step (RunReturns i) t = run_returns i t"
| "thread_step (WorkerBroadcasts i) t = worker_broadcasts i t"
| "thread_step (WorkerExits i) t = worker_exits i t"
| "thread_step (Timeout i) t = wait_ends TimedOut i t"
| "thread_step (Spurious i) t = wait_ends Woken i t"

fun thread_run :: "thread_event list \<Rightarrow> Thread \<Rightarrow> Thread option" where
  "thread_run [] t = Some t"
| "thread_run (e # es) t = Option.bind (thread_step e t) (thread_run es)"

section \<open>The timed wait\<close>

record timespec =
  tv_sec :: u64
  tv_nsec :: u64

definition getTimeStampMsec :: "u64 \<times> u64 \<Rightarrow> u64" where
  "getTimeStampMsec now = (fst now * 1000000 + snd now) div 1000"

text \<open>The deadline that \<^verbatim>\<open>Condition::wait\<close> hands to \<^verbatim>\<open>pthread_cond_timedwait\<close>.\<close>

definition wait_deadline :: "u64 \<times> u64 \<Rightarrow> u32 \<Rightarrow> timespec" where
  "wait_deadline now ms =
     (let expires64 = getTimeStampMsec now + ucast ms
      in \<lparr>tv_sec = expires64 div 1000, tv_nsec = (expires64 mod 1000) * 1000000\<rparr>)"

section \<open>One worker\<close>

text \<open>A thread function works until it has told the waiting calls: behind that it no longer touches the object.\<close>

fun working :: "worker \<Rightarrow> bool" where
  "working InRun = True"
| "working RunDone = True"
| "working Told = False"
| "working Gone = False"

definition live :: "Thread \<Rightarrow> nat" where
  "live t = length (filter working (workers t))"

definition pending :: "Thread \<Rightarrow> nat" where
  "pending t = length (filter (\<lambda>w. w \<in> {Waiting, Woken, TimedOut}) (waiters t))"

text \<open>
  What the object's users may rely on: no wait that ends early, and a handle of a thread that
  was created is not the invalid one.
\<close>

fun clean_event :: "thread_event \<Rightarrow> bool" where
  "clean_event (Start r) = (fst r = 0 \<longrightarrow> snd r \<noteq> INVALID_THREAD_VALUE)"
| "clean_event (Timeout i) = False"
| "clean_event (Spurious i) = False"
| "clean_event e = True"

definition thread_inv :: "Thread \<Rightarrow> bool" where
  "thread_inv t \<longleftrightarrow> live t \<le> 1 \<and> pending t \<le> 1 \<and> TimedOut \<notin> set (waiters t) \<and>
     (live t \<noteq> 0 \<or> m_brunning t \<or> pending t \<noteq> 0 \<longrightarrow> m_hThread t \<noteq> INVALID_THREAD_VALUE) \<and>
     (pending t \<noteq> 0 \<longrightarrow> \<not> m_brunning t) \<and> (Woken \<in> set (waiters t) \<longrightarrow> live t = 0)"

lemma filter_update_count:
  "i < length xs \<Longrightarrow> length (filter P (xs[i := x])) + of_bool (P (xs ! i)) = length (filter P xs) + of_bool (P x)"
proof (induction xs arbitrary: i)
  case (Cons y ys)
  then show ?case by (cases i) auto
qed simp

lemma live_update: "i < length (workers t) \<Longrightarrow>
    length (filter working ((workers t)[i := x])) + of_bool (working (workers t ! i)) = live t + of_bool (working x)"
  using filter_update_count [of i "workers t" working x] by (simp add: live_def)

lemma pending_update: "i < length (waiters t) \<Longrightarrow>
    length (filter (\<lambda>w. w \<in> {Waiting, Woken, TimedOut}) ((waiters t)[i := x])) + of_bool (waiters t ! i \<noteq> Returned) =
      pending t + of_bool (x \<noteq> Returned)"
  using filter_update_count [of i "waiters t" "\<lambda>w. w \<in> {Waiting, Woken, TimedOut}" x]
  by (cases x; cases "waiters t ! i") (simp_all add: pending_def)

lemma pending_zero: "pending t = 0 \<longleftrightarrow> (\<forall>w \<in> set (waiters t). w = Returned)"
proof -
  have "w \<in> {Waiting, Woken, TimedOut} \<longleftrightarrow> w \<noteq> Returned" for w by (cases w) simp_all
  then show ?thesis by (simp add: pending_def filter_empty_conv)
qed

lemma live_zero: "live t = 0 \<longleftrightarrow> (\<forall>w \<in> set (workers t). \<not> working w)"
  by (simp add: live_def filter_empty_conv)

lemma thread_inv_new: "thread_inv Thread_new"
  by (simp add: thread_inv_def Thread_new_def live_def pending_def)

lemma start_inv:
  assumes "thread_inv t" and "clean_event (Start r)"
  shows "thread_inv (snd (start r t))"
proof (cases "m_hThread t \<noteq> INVALID_THREAD_VALUE \<or> m_brunning t")
  case True
  then show ?thesis using assms(1) by (simp add: start_def)
next
  case False
  then have "live t = 0" "pending t = 0" using assms(1) by (auto simp: thread_inv_def)
  moreover have "Woken \<notin> set (waiters t)" using \<open>pending t = 0\<close> by (auto simp: pending_zero)
  ultimately show ?thesis
    using assms False by (simp add: start_def Let_def thread_inv_def) (simp add: live_def pending_def)
qed

lemma terminate_call_inv: "thread_inv t \<Longrightarrow> thread_inv (terminate_call t)"
  by (auto simp: thread_inv_def terminate_call_def live_def pending_def)

lemma set_update_other: "x \<notin> set xs \<Longrightarrow> x \<noteq> y \<Longrightarrow> x \<notin> set (xs[i := y])"
  using set_update_subset_insert [of xs i y] by auto

lemma terminate_return_inv:
  assumes "thread_inv t" and "terminate_return i t = Some t'"
  shows "thread_inv t'"
proof -
  have i: "i < length (waiters t)" "waiters t ! i \<in> {Woken, TimedOut}"
    and t': "t' = t\<lparr>m_hThread := INVALID_THREAD_VALUE, waiters := (waiters t)[i := Returned]\<rparr>"
    using assms(2) by (auto simp: terminate_return_def split: if_splits)
  have mem: "waiters t ! i \<in> set (waiters t)" using i(1) by simp
  then have w: "waiters t ! i = Woken" using i(2) assms(1) by (auto simp: thread_inv_def)
  then have l: "live t = 0" using mem assms(1) by (simp add: thread_inv_def)
  have p: "pending t \<noteq> 0" using mem w by (auto simp: pending_zero)
  have "Suc (pending t') = pending t" using pending_update [OF i(1), of Returned] w by (simp add: t' pending_def)
  moreover have "pending t \<le> 1" using assms(1) by (simp add: thread_inv_def)
  ultimately have "pending t' = 0" by simp
  then show ?thesis
    using p l assms(1) set_update_other [of TimedOut "waiters t" Returned i]
    by (simp add: thread_inv_def t') (simp add: live_def)
qed

lemma run_returns_inv:
  assumes "thread_inv t" and "run_returns i t = Some t'"
  shows "thread_inv t'"
proof -
  have i: "i < length (workers t)" "workers t ! i = InRun" and t': "t' = t\<lparr>workers := (workers t)[i := RunDone]\<rparr>"
    using assms(2) by (auto simp: run_returns_def split: if_splits)
  then have "live t' = live t" using live_update [OF i(1), of RunDone] by (simp add: live_def)
  then show ?thesis using assms(1) by (simp add: thread_inv_def t' pending_def)
qed

lemma broadcast_sets:
  "x \<in> set (waiters (broadcast t)) \<longleftrightarrow> x \<noteq> Waiting \<and> (x \<in> set (waiters t) \<or> x = Woken \<and> Waiting \<in> set (waiters t))"
  by (auto simp: broadcast_def image_iff)

lemma broadcast_counts: "pending (broadcast t) = pending t" "live (broadcast t) = live t"
  "m_hThread (broadcast t) = m_hThread t" "m_brunning (broadcast t) = m_brunning t"
proof -
  have "length (filter (\<lambda>w. w \<in> {Waiting, Woken, TimedOut}) (map (\<lambda>w. if w = Waiting then Woken else w) ws)) =
      length (filter (\<lambda>w. w \<in> {Waiting, Woken, TimedOut}) ws)" for ws
    by (induction ws) auto
  then show "pending (broadcast t) = pending t" by (simp add: broadcast_def pending_def)
qed (simp_all add: broadcast_def live_def)

lemma worker_broadcasts_inv:
  assumes "thread_inv t" and "worker_broadcasts i t = Some t'"
  shows "thread_inv t'"
proof -
  define s where "s = t\<lparr>workers := (workers t)[i := Told]\<rparr>"
  have i: "i < length (workers t)" "workers t ! i = RunDone" and t': "t' = broadcast s"
    using assms(2) by (auto simp: worker_broadcasts_def s_def split: if_splits)
  have "Suc (live s) = live t" using live_update [OF i(1), of Told] i(2) by (simp add: s_def live_def)
  then have "live s = 0" "live t \<noteq> 0" using assms(1) by (simp_all add: thread_inv_def)
  moreover have "pending s = pending t" "m_hThread s = m_hThread t" "m_brunning s = m_brunning t" "waiters s = waiters t"
    by (simp_all add: s_def pending_def)
  ultimately show ?thesis
    using assms(1) by (simp add: t' thread_inv_def broadcast_counts broadcast_sets)
qed

lemma worker_exits_inv:
  assumes "thread_inv t" and "worker_exits i t = Some t'"
  shows "thread_inv t'"
proof -
  have i: "i < length (workers t)" "workers t ! i = Told" and t': "t' = t\<lparr>workers := (workers t)[i := Gone]\<rparr>"
    using assms(2) by (auto simp: worker_exits_def split: if_splits)
  then have "live t' = live t" using live_update [OF i(1), of Gone] by (simp add: live_def)
  then show ?thesis using assms(1) by (simp add: thread_inv_def t' pending_def)
qed

lemma thread_step_inv:
  assumes "thread_inv t" and "clean_event e" and "thread_step e t = Some t'"
  shows "thread_inv t'"
proof (cases e)
  case (Start r)
  then show ?thesis using assms(3) start_inv [OF assms(1), of r] assms(2) by simp
next
  case TerminateCall
  then show ?thesis using assms terminate_call_inv by auto
next
  case (TerminateReturn i)
  then show ?thesis using assms terminate_return_inv by simp
next
  case (RunReturns i)
  then show ?thesis using assms run_returns_inv by simp
next
  case (WorkerBroadcasts i)
  then show ?thesis using assms worker_broadcasts_inv by simp
next
  case (WorkerExits i)
  then show ?thesis using assms worker_exits_inv by simp
qed (use assms in simp_all)

lemma thread_run_inv: "thread_inv t \<Longrightarrow> list_all clean_event es \<Longrightarrow> thread_run es t = Some t' \<Longrightarrow> thread_inv t'"
proof (induction es arbitrary: t)
  case (Cons e es)
  then obtain t1 where "thread_step e t = Some t1" "thread_run es t1 = Some t'" by (auto simp: bind_eq_Some_conv)
  then show ?case using Cons thread_step_inv [of t e t1] by simp
qed simp

definition all_told :: "Thread \<Rightarrow> bool" where
  "all_told t \<longleftrightarrow> list_all (\<lambda>w. w = Told \<or> w = Gone) (workers t)"

lemma all_told_live: "all_told t \<longleftrightarrow> live t = 0"
proof -
  have "(w = Told \<or> w = Gone) = (\<not> working w)" for w by (cases w) simp_all
  then show ?thesis by (simp add: all_told_def live_zero list.pred_set)
qed

text \<open>
  C34: However starting, terminating and the threads themselves interleave, as long as no wait
  of a terminating call ends early (by its time or for no reason) the object has at most one
  thread that is in its run function or behind it and has not yet told the waiting calls; a
  call of terminate that was woken proves that there is none, so that the threads left only
  have their exit before them, and then the call can return and a new start is not refused.
\<close>

theorem thread_lifecycle_safe:
  assumes "list_all clean_event es" and "thread_run es Thread_new = Some t"
  shows "length (filter (\<lambda>w. w = InRun \<or> w = RunDone) (workers t)) \<le> 1 \<and>
    (i < length (waiters t) \<longrightarrow> waiters t ! i = Woken \<longrightarrow>
       all_told t \<and> (\<exists>t'. terminate_return i t = Some t' \<and> fst (start (0, h) t')))"
proof -
  have inv: "thread_inv t" by (rule thread_run_inv [OF thread_inv_new assms])
  have "all_told t \<and> (\<exists>t'. terminate_return i t = Some t' \<and> fst (start (0, h) t'))"
    if "i < length (waiters t)" "waiters t ! i = Woken"
  proof -
    have mem: "Woken \<in> set (waiters t)" using that nth_mem by fastforce
    then have "all_told t" "\<not> m_brunning t" using inv by (auto simp: all_told_live thread_inv_def pending_zero)
    then show ?thesis using that by (simp add: terminate_return_def start_def Let_def)
  qed
  moreover have "(\<lambda>w. w = InRun \<or> w = RunDone) = working"
  proof
    fix w show "(w = InRun \<or> w = RunDone) = working w" by (cases w) simp_all
  qed
  ultimately show ?thesis using inv by (auto simp: thread_inv_def live_def)
qed

lemma thread_lifecycle_safe_witness:
  "\<exists>t. thread_run [Start (0, 7), TerminateCall, RunReturns 0, WorkerBroadcasts 0] Thread_new = Some t \<and> all_told t"
proof -
  let ?es = "[Start (0, 7), TerminateCall, RunReturns 0, WorkerBroadcasts 0]"
  have 1: "list_all clean_event ?es" by (simp add: INVALID_THREAD_VALUE_def)
  obtain t where t: "thread_run ?es Thread_new = Some t" "waiters t = [Woken]"
    by (simp add: Thread_new_def start_def INVALID_THREAD_VALUE_def terminate_call_def run_returns_def
        worker_broadcasts_def broadcast_def)
  have "0 < length (waiters t) \<longrightarrow> waiters t ! 0 = Woken \<longrightarrow> all_told t"
    using thread_lifecycle_safe [OF 1 t(1), of 0 0] by blast
  then show ?thesis using t by simp
qed

text \<open>
  Woken does not mean exited: between the broadcast and the exit the call can return and the object start its
  next thread, while the first one still exists.
\<close>

lemma woken_before_exit:
  assumes "h \<noteq> INVALID_THREAD_VALUE"
  shows "\<exists>t. thread_run [Start (0, h), TerminateCall, RunReturns 0, WorkerBroadcasts 0, TerminateReturn 0, Start (0, h')]
      Thread_new = Some t \<and> workers t = [Told, InRun]"
  using assms
  by (simp add: Thread_new_def start_def INVALID_THREAD_VALUE_def terminate_call_def run_returns_def
      worker_broadcasts_def broadcast_def terminate_return_def)

text \<open>No wake-up is lost: a call that waits for a thread still in \<^verbatim>\<open>run\<close> returns when that ends.\<close>

lemma terminate_served:
  assumes "list_all clean_event es" and "thread_run es Thread_new = Some t"
    and "i < length (waiters t)" and "waiters t ! i = Waiting" and "j < length (workers t)" and "workers t ! j = InRun"
  shows "\<exists>t'. thread_run [RunReturns j, WorkerBroadcasts j, TerminateReturn i] t = Some t' \<and>
    m_hThread t' = INVALID_THREAD_VALUE \<and> waiters t' ! i = Returned"
  using assms(3-6)
  by (simp add: run_returns_def worker_broadcasts_def broadcast_def terminate_return_def)

section \<open>Waits that end early\<close>

text \<open>
  When the wait of \<^verbatim>\<open>terminate\<close> times out, or ends for no reason, the object forgets its
  thread; a second start makes a second thread, and both see the object running.
\<close>

lemma two_workers:
  assumes "e = Timeout 0 \<or> e = Spurious 0" and "h \<noteq> INVALID_THREAD_VALUE"
  shows "\<exists>t. thread_run [Start (0, h), TerminateCall, e, TerminateReturn 0, Start (0, h')] Thread_new = Some t \<and>
    workers t = [InRun, InRun] \<and> isRunning t"
  using assms
  by (auto simp: Thread_new_def start_def INVALID_THREAD_VALUE_def terminate_call_def wait_ends_def terminate_return_def
      isRunning_def)

text \<open>A failed creation that left a handle behind blocks the object for good.\<close>

lemma failed_start_blocks:
  assumes "retval \<noteq> 0" and "h \<noteq> INVALID_THREAD_VALUE"
  shows "\<exists>t. thread_run [Start (retval, h), TerminateCall] Thread_new = Some t \<and> \<not> fst (start r t) \<and> isStop t"
  using assms by (simp add: Thread_new_def start_def INVALID_THREAD_VALUE_def terminate_call_def isStop_def)

text \<open>The call waits, all threads have exited, and nothing but its own time can end the wait.\<close>

definition stuck :: "nat \<Rightarrow> Thread \<Rightarrow> bool" where
  "stuck i t \<longleftrightarrow> i < length (waiters t) \<and> waiters t ! i = Waiting \<and> live t = 0 \<and> pending t = 1 \<and>
     m_hThread t \<noteq> INVALID_THREAD_VALUE \<and> \<not> m_brunning t"

lemma only_pending:
  assumes "stuck i t" and "j < length (waiters t)" and "waiters t ! j \<noteq> Returned"
  shows "j = i"
proof (rule ccontr)
  assume "j \<noteq> i"
  then have "Waiting \<in> set ((waiters t)[j := Returned])"
    using assms(1,2) by (metis length_list_update nth_list_update_neq nth_mem stuck_def)
  moreover have "length (filter (\<lambda>w. w \<in> {Waiting, Woken, TimedOut}) ((waiters t)[j := Returned])) = 0"
    using pending_update [OF assms(2), of Returned] assms(1,3) by (simp add: stuck_def)
  ultimately show False by (auto simp: filter_empty_conv)
qed

lemma stuck_step:
  assumes "stuck i t" and "e \<noteq> Timeout i" and "e \<noteq> Spurious i" and "thread_step e t = Some t'"
  shows "stuck i t'"
proof (cases e)
  case (Start r)
  then show ?thesis using assms(1,4) by (auto simp: stuck_def start_def)
next
  case TerminateCall
  then show ?thesis using assms(1,4) by (auto simp: stuck_def terminate_call_def)
next
  case (TerminateReturn j)
  then show ?thesis using assms(1,4) only_pending [OF assms(1), of j]
    by (auto simp: stuck_def terminate_return_def split: if_splits)
next
  case (RunReturns j)
  then have "j < length (workers t)" "working (workers t ! j)"
    using assms(4) by (auto simp: run_returns_def split: if_splits)
  moreover have "live t = 0" using assms(1) by (simp add: stuck_def)
  ultimately show ?thesis using nth_mem [of j "workers t"] unfolding live_zero by blast
next
  case (WorkerBroadcasts j)
  then have "j < length (workers t)" "working (workers t ! j)"
    using assms(4) by (auto simp: worker_broadcasts_def split: if_splits)
  moreover have "live t = 0" using assms(1) by (simp add: stuck_def)
  ultimately show ?thesis using nth_mem [of j "workers t"] unfolding live_zero by blast
next
  case (WorkerExits j)
  then have j: "j < length (workers t)" "workers t ! j = Told" and t': "t' = t\<lparr>workers := (workers t)[j := Gone]\<rparr>"
    using assms(4) by (auto simp: worker_exits_def split: if_splits)
  then have "live t' = live t" using live_update [OF j(1), of Gone] by (simp add: live_def)
  then show ?thesis using assms(1) by (simp add: stuck_def t' pending_def)
next
  case (Timeout j)
  then show ?thesis using assms only_pending [OF assms(1), of j] by (auto simp: wait_ends_def split: if_splits)
next
  case (Spurious j)
  then show ?thesis using assms only_pending [OF assms(1), of j] by (auto simp: wait_ends_def split: if_splits)
qed

text \<open>
  A thread whose run ends by itself is not noticed: the object stays marked as running, and
  a terminate called afterwards waits for its whole time, whatever else happens, because the
  only signal was given before the wait began.
\<close>

theorem ended_thread_not_noticed:
  assumes "h \<noteq> INVALID_THREAD_VALUE"
    and "\<forall>e \<in> set es. e \<noteq> Timeout 0 \<and> e \<noteq> Spurious 0"
    and "thread_run ([Start (0, h), RunReturns 0, WorkerBroadcasts 0, WorkerExits 0, TerminateCall] @ es) Thread_new = Some t"
  shows "waiters t ! 0 = Waiting"
proof -
  have run_append: "thread_run (xs @ ys) s = Option.bind (thread_run xs s) (thread_run ys)" for xs ys s
  proof (induction xs arbitrary: s)
    case (Cons e xs)
    then show ?case by (cases "thread_step e s") simp_all
  qed simp
  define t0 where "t0 = \<lparr>m_hThread = h, m_brunning = False, workers = [Gone], waiters = [Waiting]\<rparr>"
  have "thread_run [Start (0, h), RunReturns 0, WorkerBroadcasts 0, WorkerExits 0, TerminateCall] Thread_new = Some t0"
    by (simp add: Thread_new_def start_def INVALID_THREAD_VALUE_def terminate_call_def run_returns_def worker_broadcasts_def
        worker_exits_def broadcast_def t0_def)
  then have "thread_run es t0 = Some t" using assms(3) unfolding run_append by simp
  moreover have "stuck 0 t0" using assms(1) by (simp add: t0_def stuck_def live_def pending_def)
  ultimately have "stuck 0 t" using assms(2)
  proof (induction es arbitrary: t0)
    case (Cons e es)
    then obtain t1 where "thread_step e t0 = Some t1" "thread_run es t1 = Some t" by (auto simp: bind_eq_Some_conv)
    then show ?case using Cons stuck_step [of 0 t0 e t1] by simp
  qed simp
  then show ?thesis by (simp add: stuck_def)
qed

lemma ended_thread_not_noticed_witness:
  "\<exists>t. thread_run ([Start (0, 7), RunReturns 0, WorkerBroadcasts 0, WorkerExits 0, TerminateCall] @ [Start (0, 9), TerminateCall]) Thread_new = Some t \<and>
     waiters t ! 0 = Waiting"
proof -
  obtain t where t: "thread_run ([Start (0, 7), RunReturns 0, WorkerBroadcasts 0, WorkerExits 0, TerminateCall] @ [Start (0, 9), TerminateCall]) Thread_new = Some t"
    by (simp add: Thread_new_def start_def INVALID_THREAD_VALUE_def terminate_call_def run_returns_def worker_broadcasts_def
        worker_exits_def broadcast_def)
  then show ?thesis using ended_thread_not_noticed [OF _ _ t] by (simp add: INVALID_THREAD_VALUE_def)
qed

text \<open>
  The deadline of a timed wait lies exactly the given milliseconds behind the clock, in
  seconds and nanoseconds, the nanoseconds below one second, for every clock up to the year
  270000 and every length of the wait.
\<close>

theorem wait_deadline_exact:
  assumes "unat usec < 1000000" and "unat sec < 2 ^ 43"
  shows "unat (tv_nsec (wait_deadline (sec, usec) ms)) < 1000000000 \<and>
    unat (tv_sec (wait_deadline (sec, usec) ms)) * 1000 + unat (tv_nsec (wait_deadline (sec, usec) ms)) div 1000000 =
      unat sec * 1000 + unat usec div 1000 + unat ms"
proof -
  have ms: "unat ms < 2 ^ 32" using unsigned_less [of ms] by simp
  have prod: "unat (sec * 1000000 :: u64) = unat sec * 1000000"
    using assms(2) by (subst unat_mult_lem [THEN iffD1]) simp_all
  have sum: "unat (sec * 1000000 + usec) = unat sec * 1000000 + unat usec"
    using assms prod by (subst unat_add_lem [THEN iffD1]) simp_all
  have now: "unat (getTimeStampMsec (sec, usec)) = unat sec * 1000 + unat usec div 1000"
    by (simp add: getTimeStampMsec_def unat_div sum)
  have u: "unat (ucast ms :: u64) = unat ms" using ms by (simp add: unsigned_ucast_eq take_bit_nat_eq_self)
  have ex: "unat (getTimeStampMsec (sec, usec) + ucast ms) = unat sec * 1000 + unat usec div 1000 + unat ms"
    using assms ms now u by (subst unat_add_lem [THEN iffD1]) simp_all
  let ?e = "getTimeStampMsec (sec, usec) + ucast ms :: u64"
  have m: "unat (?e mod 1000) = unat ?e mod 1000" "unat (?e div 1000) = unat ?e div 1000" by (simp_all add: unat_mod unat_div)
  have n: "unat ((?e mod 1000) * 1000000) = (unat ?e mod 1000) * 1000000"
  proof -
    have "unat ?e mod 1000 < 1000" by simp
    then have "unat (?e mod 1000) * unat (1000000 :: u64) < 2 ^ LENGTH(64)" using m(1) by simp
    then show ?thesis using m(1) by (subst unat_mult_lem [THEN iffD1]) simp_all
  qed
  have "unat ?e mod 1000 < 1000" by simp
  moreover have "unat ?e div 1000 * 1000 + unat ?e mod 1000 = unat ?e" by simp
  ultimately show ?thesis using m(2) n ex by (simp add: wait_deadline_def Let_def)
qed

lemma wait_deadline_exact_witness:
  "unat (tv_sec (wait_deadline (1700000000, 999999) 500)) * 1000 +
     unat (tv_nsec (wait_deadline (1700000000, 999999) 500)) div 1000000 = 1700000001499"
  using wait_deadline_exact [of 999999 1700000000 500] by simp

end
