(* ===== verification/Service.thy ===== *)
theory Service
  imports Threads Ini
begin

text \<open>
  Starting the service: \<^verbatim>\<open>main\<close> of \<^verbatim>\<open>EchoServer/main.cpp\<close>, the construction and \<^verbatim>\<open>begin\<close> of
  \<^verbatim>\<open>libsocket/ServerSocket.cpp\<close> and \<^verbatim>\<open>libsocket/ClientSocket.cpp\<close>, the socket pairs and the
  timers. What the calls of the system and of the event library return is an environment;
  the start of each I/O thread is the one of the thread object. An assertion that fails ends
  the program.
\<close>

record net_env =
  r_base :: bool
  r_timer_new :: bool
  r_frame_new :: bool
  r_socket :: int
  r_reuse :: int
  r_nonblock :: int
  r_bind :: int
  r_listen :: int
  r_event_new :: bool
  r_event_add :: int
  r_timer_add :: int
  r_create :: "nat \<Rightarrow> int \<times> handle"

record timeval =
  sec :: u64
  usec :: u64

record ServerStart =
  nListenSocketFd :: int
  listening :: bool
  ioThreads :: "Thread list"
  timerEvent :: "timeval option"
  frameEvent :: "timeval option"
  dispatched :: bool

datatype stop = Fault fault | Aborted

text \<open>The loop over the I/O threads: it ends at the first that does not start.\<close>

fun start_threads :: "(nat \<Rightarrow> int \<times> handle) \<Rightarrow> nat \<Rightarrow> Thread list \<Rightarrow> bool \<times> Thread list" where
  "start_threads create i [] = (True, [])"
| "start_threads create i (t # ts) =
     (case start (create i) t of (ok, t) \<Rightarrow>
        if \<not> ok then (False, t # ts)
        else case start_threads create (i + 1) ts of (r, ts) \<Rightarrow> (r, t # ts))"

text \<open>
  The priority of the listening event is set before the event is tested. What the addition of the timer
  returns is ignored: when it fails the service runs without its timer.
\<close>

definition ss_begin :: "net_env \<Rightarrow> ServerStart \<Rightarrow> (stop + int) \<times> ServerStart" where
  "ss_begin e s =
     (let s = s\<lparr>nListenSocketFd := r_socket e\<rparr> in
      if nListenSocketFd s < 0 then (Inr (-2), s)
      else if r_reuse e < 0 then (Inr (-3), s)
      else if r_nonblock e < 0 then (Inr (-4), s)
      else if r_bind e < 0 then (Inr (-5), s)
      else if r_listen e < 0 then (Inr (-6), s)
      else if \<not> r_event_new e then (Inl (Fault NullDeref), s)
      else if r_event_add e < 0 then (Inr (-8), s)
      else
        let s = s\<lparr>listening := True\<rparr> in
        case start_threads (r_create e) 0 (ioThreads s) of (ok, ts) \<Rightarrow>
        let s = s\<lparr>ioThreads := ts\<rparr> in
        if \<not> ok then (Inr (-9), s)
        else
          let s = (if r_timer_add e < 0 then s else s\<lparr>timerEvent := Some \<lparr>sec = 1, usec = 0\<rparr>\<rparr>);
              s = s\<lparr>dispatched := True\<rparr>
          in (Inr 0, s))"

definition registFrameTimer :: "int \<Rightarrow> u32 \<Rightarrow> ServerStart \<Rightarrow> int \<times> ServerStart" where
  "registFrameTimer added msec s =
     (added, if added < 0 then s
        else s\<lparr>frameEvent := Some \<lparr>sec = ucast (msec div 1000), usec = ucast ((msec mod 1000) * 1000)\<rparr>\<rparr>)"

definition cs_begin :: "(nat \<Rightarrow> int \<times> handle) \<Rightarrow> Thread list \<Rightarrow> int \<times> Thread list" where
  "cs_begin create ts = (case start_threads create 0 ts of (ok, ts) \<Rightarrow> (if \<not> ok then -1 else 0, ts))"

text \<open>
  \<^verbatim>\<open>initSocketPair\<close>: the results of making the pair, of making both ends non-blocking, of the
  event and of adding it.
\<close>

definition initSocketPair :: "int \<Rightarrow> int \<times> int \<Rightarrow> bool \<Rightarrow> int \<Rightarrow> stop + int" where
  "initSocketPair r nonblock event added =
     (if r \<noteq> 0 then Inr r
      else if fst nonblock = -1 \<or> snd nonblock = -1 then Inr (-1)
      else if \<not> event then Inl (Fault NullDeref)
      else Inr added)"

text \<open>
  The constructor: the event base is tested, the two timer events are not, and their priority is set at once.
  The thread count of the settings is an \<^verbatim>\<open>int\<close> again in the object.
\<close>

definition ServerSocket_new :: "net_env \<Rightarrow> int \<Rightarrow> stop + int \<Rightarrow> stop + ServerStart" where
  "ServerSocket_new e threadcnt pair =
     (if \<not> r_base e then Inl Aborted
      else if \<not> r_timer_new e then Inl (Fault NullDeref)
      else if \<not> r_frame_new e then Inl (Fault NullDeref)
      else case pair of
        Inl f \<Rightarrow> Inl f
      | Inr r \<Rightarrow>
          if r \<noteq> 0 \<or> \<not> threadcnt > 0 then Inl Aborted
          else Inr \<lparr>nListenSocketFd = -1, listening = False, ioThreads = replicate (nat threadcnt) Thread_new,
                 timerEvent = None, frameEvent = None, dispatched = False\<rparr>)"

text \<open>What \<^verbatim>\<open>main\<close> prints apart from the log lines of the parts.\<close>

datatype main_line = LoadError | DaemonStart | BeginError

definition main_run ::
  "string \<Rightarrow> ServerConfig \<Rightarrow> stop + int \<Rightarrow> net_env \<Rightarrow> (stop + int \<times> main_line list \<times> ServerStart option) option" where
  "main_run file c pair e =
     (case ServerConfig_load file c of
        None \<Rightarrow> None
      | Some (ok, c) \<Rightarrow>
          if \<not> ok then Some (Inr (1, [LoadError], None))
          else
            let out = (if nDaemon c then [DaemonStart] else []) in
            case ServerSocket_new e (nServerThreads c) pair of
              Inl f \<Rightarrow> Some (Inl f)
            | Inr s \<Rightarrow>
                (case ss_begin e s of
                   (Inl f, s) \<Rightarrow> Some (Inl f)
                 | (Inr r, s) \<Rightarrow> Some (Inr (0, out @ (if r = 0 then [BeginError] else []), Some s))))"

section \<open>What the codes say\<close>

lemma start_fresh:
  "fst (start r Thread_new) \<longleftrightarrow> fst r = 0"
  "fst r = 0 \<Longrightarrow> workers (snd (start r Thread_new)) = [InRun] \<and> isRunning (snd (start r Thread_new))"
  by (simp_all add: start_def Thread_new_def INVALID_THREAD_VALUE_def Let_def isRunning_def)

lemma start_threads_ok:
  assumes "\<forall>j<length ts. ts ! j = Thread_new" and "\<forall>j<length ts. fst (create (i + j)) = 0"
  shows "\<exists>ts'. start_threads create i ts = (True, ts') \<and> length ts' = length ts \<and>
    list_all (\<lambda>t. workers t = [InRun] \<and> isRunning t) ts'"
  using assms
proof (induction ts arbitrary: i)
  case (Cons t ts)
  have t: "t = Thread_new" "fst (create i) = 0" using Cons.prems by force+
  obtain ok t1 where s: "start (create i) t = (ok, t1)" by (cases "start (create i) t")
  then have t1: "ok" "workers t1 = [InRun]" "isRunning t1" using start_fresh [of "create i"] t by simp_all
  have "\<forall>j<length ts. ts ! j = Thread_new" "\<forall>j<length ts. fst (create (i + 1 + j)) = 0"
    using Cons.prems by (simp_all add: All_less_Suc2)
  then obtain ts1 where "start_threads create (i + 1) ts = (True, ts1)" "length ts1 = length ts"
    "list_all (\<lambda>t. workers t = [InRun] \<and> isRunning t) ts1" using Cons.IH [of "i + 1"] by blast
  then show ?case using s t1 by simp
qed simp

lemma start_threads_fails:
  assumes "\<forall>j<length ts. ts ! j = Thread_new" and "k < length ts" and "fst (create (i + k)) \<noteq> 0"
    and "\<forall>j<k. fst (create (i + j)) = 0"
  shows "\<exists>ts'. start_threads create i ts = (False, ts') \<and> length ts' = length ts \<and>
    (\<forall>j<length ts. isRunning (ts' ! j) \<longleftrightarrow> j < k)"
  using assms
proof (induction ts arbitrary: i k)
  case (Cons t ts)
  have t: "t = Thread_new" using Cons.prems(1) by force
  show ?case
  proof (cases k)
    case 0
    then obtain t1 where "start (create i) t = (False, t1)" "\<not> isRunning t1"
      using Cons.prems(3) t by (cases "start (create i) t") (auto simp: start_def Thread_new_def INVALID_THREAD_VALUE_def Let_def isRunning_def)
    moreover have "\<not> isRunning (ts ! j)" if "j < length ts" for j
      using Cons.prems(1) that by (auto simp: All_less_Suc2 isRunning_def Thread_new_def)
    ultimately show ?thesis using 0 by (auto simp: All_less_Suc2)
  next
    case (Suc k')
    then have "fst (create i) = 0" using Cons.prems(4) by force
    then obtain t1 where t1: "start (create i) t = (True, t1)" "isRunning t1"
      using start_fresh [of "create i"] t by (cases "start (create i) Thread_new") auto
    have "\<forall>j<length ts. ts ! j = Thread_new" "\<forall>j<k'. fst (create (i + 1 + j)) = 0"
      using Cons.prems(1,4) Suc by (auto simp: All_less_Suc2)
    then obtain ts1 where "start_threads create (i + 1) ts = (False, ts1)" "length ts1 = length ts"
      "\<forall>j<length ts. isRunning (ts1 ! j) \<longleftrightarrow> j < k'"
      using Cons.IH [of k' "i + 1"] Cons.prems(2,3) Suc by auto
    then show ?thesis using t1 Suc by (auto simp: All_less_Suc2)
  qed
qed simp

text \<open>The calls before the threads.\<close>

definition net_ok :: "net_env \<Rightarrow> bool" where
  "net_ok e \<longleftrightarrow> 0 \<le> r_socket e \<and> 0 \<le> r_reuse e \<and> 0 \<le> r_nonblock e \<and> 0 \<le> r_bind e \<and> 0 \<le> r_listen e \<and>
     r_event_new e \<and> 0 \<le> r_event_add e"

lemma begin_not_ok:
  assumes "\<not> net_ok e" and "ss_begin e s = (r, s')"
  shows "ioThreads s' = ioThreads s \<and> dispatched s' = dispatched s \<and> listening s' = listening s \<and> timerEvent s' = timerEvent s \<and>
    r \<in> {Inr (-2), Inr (-3), Inr (-4), Inr (-5), Inr (-6), Inr (-8), Inl (Fault NullDeref)}"
  using assms by (auto simp: ss_begin_def net_ok_def Let_def split: if_splits)

lemma begin_ok:
  "net_ok e \<Longrightarrow> start_threads (r_create e) 0 (ioThreads s) = (True, ts) \<Longrightarrow>
    ss_begin e s = (Inr 0, s\<lparr>nListenSocketFd := r_socket e, listening := True, ioThreads := ts,
      timerEvent := (if r_timer_add e < 0 then timerEvent s else Some \<lparr>sec = 1, usec = 0\<rparr>), dispatched := True\<rparr>)"
  by (simp add: ss_begin_def net_ok_def Let_def)

lemma begin_no_thread:
  "net_ok e \<Longrightarrow> start_threads (r_create e) 0 (ioThreads s) = (False, ts) \<Longrightarrow>
    ss_begin e s = (Inr (-9), s\<lparr>nListenSocketFd := r_socket e, listening := True, ioThreads := ts\<rparr>)"
  by (simp add: ss_begin_def net_ok_def Let_def)

lemma new_server:
  "ServerSocket_new e n pair = Inr s \<Longrightarrow> 0 < n \<and> ioThreads s = replicate (nat n) Thread_new \<and> \<not> dispatched s \<and>
     \<not> listening s \<and> timerEvent s = None"
  by (auto simp: ServerSocket_new_def split: sum.splits if_splits)

text \<open>
  C35: A service that begins enters its event loop exactly when the result is zero, and then
  every I/O thread of the settings runs once and the listening event is set; the timer is set to
  one second when its addition succeeds and is not set at all when that fails, which nothing
  reports: the result is zero and the loop is entered all the same. With any other result the loop
  is never entered, the timer is not set, and either no thread was started or (code -9) exactly
  the threads before the first that could not be created are left running.
\<close>

theorem service_begins:
  assumes "ServerSocket_new e n pair = Inr s" and "ss_begin e s = (r, s')"
  shows "(dispatched s' \<longleftrightarrow> r = Inr 0) \<and> (r = Inr 0 \<longleftrightarrow> net_ok e \<and> (\<forall>j<nat n. fst (r_create e j) = 0)) \<and>
    (r = Inr 0 \<longrightarrow> length (ioThreads s') = nat n \<and> list_all (\<lambda>t. workers t = [InRun] \<and> isRunning t) (ioThreads s') \<and>
       listening s' \<and> timerEvent s' = (if r_timer_add e < 0 then None else Some \<lparr>sec = 1, usec = 0\<rparr>)) \<and>
    (r \<noteq> Inr 0 \<longrightarrow> timerEvent s' = None) \<and>
    (r \<noteq> Inr 0 \<longrightarrow> ioThreads s' = ioThreads s \<or>
       r = Inr (-9) \<and> (\<exists>k<nat n. fst (r_create e k) \<noteq> 0 \<and> (\<forall>j<nat n. isRunning (ioThreads s' ! j) \<longleftrightarrow> j < k)))"
proof -
  note s = new_server [OF assms(1)]
  have fresh: "\<forall>j<length (ioThreads s). ioThreads s ! j = Thread_new" using s by simp
  have len: "length (ioThreads s) = nat n" using s by simp
  consider "\<not> net_ok e" | "net_ok e" "\<forall>j<nat n. fst (r_create e j) = 0"
    | k where "net_ok e" "k < nat n" "fst (r_create e k) \<noteq> 0" "\<forall>j<k. fst (r_create e j) = 0"
  proof -
    have "\<exists>k<nat n. fst (r_create e k) \<noteq> 0 \<and> (\<forall>j<k. fst (r_create e j) = 0)" if "\<not> (\<forall>j<nat n. fst (r_create e j) = 0)"
      using exists_least_iff [of "\<lambda>j. j < nat n \<and> fst (r_create e j) \<noteq> 0"] that by (metis order.strict_trans)
    then show thesis using that by blast
  qed
  then show ?thesis
  proof cases
    case 1
    then show ?thesis using begin_not_ok [OF 1 assms(2)] s by auto
  next
    case 2
    then obtain ts where ts: "start_threads (r_create e) 0 (ioThreads s) = (True, ts)" "length ts = nat n"
      "list_all (\<lambda>t. workers t = [InRun] \<and> isRunning t) ts"
      using start_threads_ok [OF fresh, of "r_create e" 0] len by auto
    show ?thesis using begin_ok [OF 2(1) ts(1)] assms(2) 2 ts(2,3) s by auto
  next
    case 3
    then obtain ts where ts: "start_threads (r_create e) 0 (ioThreads s) = (False, ts)"
      "\<forall>j<nat n. isRunning (ts ! j) \<longleftrightarrow> j < k"
      using start_threads_fails [OF fresh, of k "r_create e" 0] len by auto
    show ?thesis using begin_no_thread [OF 3(1) ts(1)] assms(2) 3 ts(2) s by auto
  qed
qed

text \<open>Two threads, of which the second cannot be created.\<close>

definition short_env :: net_env where
  "short_env = \<lparr>r_base = True, r_timer_new = True, r_frame_new = True, r_socket = 5, r_reuse = 0, r_nonblock = 0, r_bind = 0, r_listen = 0, r_event_new = True,
     r_event_add = 0, r_timer_add = 0, r_create = (\<lambda>i. (if i = 1 then 11 else 0, 7))\<rparr>"

definition two_threads :: ServerStart where
  "two_threads = \<lparr>nListenSocketFd = -1, listening = False, ioThreads = [Thread_new, Thread_new], timerEvent = None,
     frameEvent = None, dispatched = False\<rparr>"

lemma service_begins_witness:
  "fst (ss_begin short_env two_threads) = Inr (-9) \<and> \<not> dispatched (snd (ss_begin short_env two_threads)) \<and>
     isRunning (ioThreads (snd (ss_begin short_env two_threads)) ! 0)"
proof -
  have "ServerSocket_new short_env 2 (Inr 0) = Inr two_threads"
    by (simp add: ServerSocket_new_def short_env_def two_threads_def numeral_2_eq_2)
  then have d: "dispatched (snd (ss_begin short_env two_threads)) \<longleftrightarrow> fst (ss_begin short_env two_threads) = Inr 0"
    using service_begins [of short_env 2 "Inr 0" two_threads "fst (ss_begin short_env two_threads)" "snd (ss_begin short_env two_threads)"]
    by (simp only: prod.collapse)
  have "fst (ss_begin short_env two_threads) = Inr (-9) \<and> isRunning (ioThreads (snd (ss_begin short_env two_threads)) ! 0)"
    by (simp add: ss_begin_def Let_def start_def Thread_new_def INVALID_THREAD_VALUE_def isRunning_def short_env_def two_threads_def)
  then show ?thesis using d by simp
qed

text \<open>\<^verbatim>\<open>main\<close> takes the zero of success for a failure: the error is logged exactly when the service ran.\<close>

lemma main_logs_success:
  assumes "main_run file c pair e = Some (Inr (ret, out, Some s))"
  shows "ret = 0 \<and> (BeginError \<in> set out \<longleftrightarrow> dispatched s)"
proof -
  obtain c' s0 r where l: "ServerConfig_load file c = Some (True, c')" "ServerSocket_new e (nServerThreads c') pair = Inr s0"
    "ss_begin e s0 = (Inr r, s)" and out: "ret = 0" "out = (if nDaemon c' then [DaemonStart] else []) @ (if r = 0 then [BeginError] else [])"
    using assms by (auto simp: main_run_def Let_def split: option.splits prod.splits if_splits sum.splits)
  have "dispatched s \<longleftrightarrow> r = 0"
  proof (cases "net_ok e")
    case True
    then show ?thesis
      using begin_ok [OF True, of s0] begin_no_thread [OF True, of s0] l(3) new_server [OF l(2)]
      by (cases "start_threads (r_create e) 0 (ioThreads s0)"; cases "fst (start_threads (r_create e) 0 (ioThreads s0))") auto
  next
    case False
    then show ?thesis using begin_not_ok [OF False l(3)] new_server [OF l(2)] by auto
  qed
  then show ?thesis using out by auto
qed

lemma frame_timer_split:
  "case frameEvent (snd (registFrameTimer 0 msec s)) of None \<Rightarrow> False
   | Some tv \<Rightarrow> unat (usec tv) < 1000000 \<and> unat (sec tv) * 1000000 + unat (usec tv) = unat msec * 1000"
proof -
  have b: "unat msec < 2 ^ 32" using unsigned_less [of msec] by simp
  have "unat (msec mod 1000) = unat msec mod 1000" "unat (msec div 1000) = unat msec div 1000" by (simp_all add: unat_mod unat_div)
  moreover from this have "unat ((msec mod 1000) * 1000) = unat msec mod 1000 * 1000"
    by (subst unat_mult_lem [THEN iffD1]) (simp_all add: less_le_trans [OF mod_less_divisor])
  moreover have "unat (ucast (w :: u32) :: u64) = unat w" for w
  proof -
    have "unat w < 2 ^ 32" using unsigned_less [of w] by simp
    then show ?thesis by (simp add: unsigned_ucast_eq take_bit_nat_eq_self)
  qed
  moreover have "a div 1000 * 1000000 + a mod 1000 * 1000 = a * 1000" for a :: nat
  proof -
    have "(a div 1000 * 1000 + a mod 1000) * 1000 = a * 1000" by (simp only: div_mult_mod_eq)
    then show ?thesis by (simp only: add_mult_distrib mult.assoc)
  qed
  moreover have "unat msec mod 1000 * 1000 < 1000000" by simp
  ultimately show ?thesis by (simp add: registFrameTimer_def)
qed

end
