(* ===== verification/Spec2Isabelle.thy ===== *)
theory Spec2Isabelle
  imports Malloc Protocol Echo ClientSide Epoll Ini Log FreeQueue BufferIO Monitor Service
begin

text \<open>
  Verification of the socket server library EchoServerCpp, of the echo service built on it, and
  of the parts of the bundled event library they run on.

  \<^bold>\<open>The program.\<close> \<^verbatim>\<open>src/EchoServer\<close> is a service that answers heartbeat packets. It is built on
  \<^verbatim>\<open>src/libsocket\<close>: a logic thread accepts connections and hands them to I/O threads; an I/O
  thread reads from its connections, cuts packets out of what arrives (plain or as WebSocket
  frames), and passes them to the logic thread, which answers through agents. The threads talk
  through queues of packages, each with a socket pair that wakes the other side. The client side
  of the library has the same shape. \<^verbatim>\<open>src/libbase\<close> holds what both use: memory pools, the log,
  threads and conditions, calendar and string functions, SHA-1 and base64. Everything waits in
  the event library of \<^verbatim>\<open>src/depend/event\<close>: an event base with its descriptor maps, a heap of
  deadlines, and byte buffers.

  \<^bold>\<open>Theories and sources.\<close> A theory models the files it names; its definitions keep the names of
  the code, a class is a \<open>record\<close> with its members, a method a function on it.
  \<^item> \<open>Prelude\<close>: machine words, little-endian bytes, memory regions, the state-and-exception
    computations, the interface \<open>byte_codec\<close>. A fault (access outside a region, a null or freed
    pointer) is a value, so a theorem that an operation returns also says that it is safe.
  \<^item> \<open>Biostream\<close>, \<open>Protocol\<close>: \<^verbatim>\<open>include/protocol/Biosream.h\<close> and \<^verbatim>\<open>ProtocolBase.h\<close>. Scalars in
    both byte orders, strings, seeking; packet heads, \<^verbatim>\<open>READXY\<close> and \<^verbatim>\<open>GET_TEMPLATE_BUF\<close>.
  \<^item> \<open>Malloc\<close>: \<^verbatim>\<open>libbase/MallocPool.cpp\<close> and \<^verbatim>\<open>MallocManager.cpp\<close>. Pools of pieces in raw memory
    with their free lists, the manager that chooses a pool by size, behind the interface
    \<open>allocator\<close>. Whether the system has a block, and what bytes are in it, is its answer (\<open>answers\<close>);
    without one the code calls \<^verbatim>\<open>abort\<close>, which is the result \<open>None\<close>.
  \<^item> \<open>Sha1\<close>, \<open>Base64\<close>: \<^verbatim>\<open>libbase/sha1.cpp\<close> against the function of the standard, and
    \<^verbatim>\<open>libbase/base64.cpp\<close>.
  \<^item> \<open>SocketBase\<close>: \<^verbatim>\<open>include/socket/SocketBase.h\<close>, the queues of a bufferevent, the interfaces
    \<open>stream_decoder\<close> (packets out of a byte stream) and \<open>send_batching\<close> (a send buffer that is
    filled and flushed), interpreted on the client's and the server's connections.
  \<^item> \<open>ClientIO\<close>, \<open>ServerIO\<close>, \<open>ServerWeb\<close>: \<^verbatim>\<open>libsocket/ClientIOSocket.cpp\<close> and
    \<^verbatim>\<open>ServerIOSocket.cpp\<close>; the last has the handshake and the frames of WebSocket.
  \<^item> \<open>ServerThread\<close>, \<open>ServerLogic\<close>, \<open>Echo\<close>: \<^verbatim>\<open>ServerSocketIOThread.cpp\<close>, \<^verbatim>\<open>ServerSocket.cpp\<close>,
    \<^verbatim>\<open>AgentClient.cpp\<close>, \<^verbatim>\<open>EchoServer/Server.cpp\<close>, and the path of a packet through all of them.
  \<^item> \<open>ClientSide\<close>: \<^verbatim>\<open>ClientSocketIOThread.cpp\<close>, \<^verbatim>\<open>ClientSocket.cpp\<close>, \<^verbatim>\<open>AgentServer.cpp\<close>.
  \<^item> \<open>MinHeap\<close>, \<open>EventBase\<close>, \<open>EventLoop\<close>: \<^verbatim>\<open>minheap-internal.h\<close>, \<^verbatim>\<open>event.c\<close> and \<^verbatim>\<open>evmap.c\<close>; the
    heap behind the interface \<open>timer_queue\<close>, the base with its queues, maps and priorities, and the
    step relation \<open>base_states\<close> of everything a user can do to a base, each step in an environment of its
    own. It ends where the backend refuses a deletion: the code then leaves a deleted event in the list of its
    descriptor (\<open>refused_deletion_stays_listed\<close>).
  \<^item> \<open>EventDispatch\<close>, \<open>EventRounds\<close>: the dispatch loop of \<^verbatim>\<open>event.c\<close>. The callbacks of the program
    are a \<open>program\<close>, what the backend reports in each round is a \<open>round\<close>; the theorems ask of
    them what \<open>well_behaved\<close>, \<open>quiet\<close> and \<open>round_ok\<close> say. Deferred calls count as active callbacks
    (\<open>N_ACTIVE_CALLBACKS\<close>), as in the code.
  \<^item> \<open>Epoll\<close>: \<^verbatim>\<open>epoll.c\<close> and the change list of \<^verbatim>\<open>evmap.c\<close>. The kernel is an argument with the laws
    \<open>kernel_ok\<close> and \<open>wait_ok\<close>, what the manual pages say of \<^verbatim>\<open>epoll_ctl\<close> and \<^verbatim>\<open>epoll_wait\<close>: any call may
    fail, a call that fails changes nothing. \<open>closed_cleanly\<close> is asked where it matters that no watched file is
    closed while a duplicate of its descriptor is open; \<open>duplicate_stays_watched\<close> is what happens otherwise.
  \<^item> \<open>Evbuffer\<close>, \<open>BufferIO\<close>: \<^verbatim>\<open>buffer.c\<close> and \<^verbatim>\<open>evbuffer-internal.h\<close>, the chains of a byte buffer, and
    reading from a descriptor into its free space and writing from its chains.
  \<^item> \<open>Calendar\<close>, \<open>StrUtils\<close>: \<^verbatim>\<open>libbase/Utils.cpp\<close>. \<open>Ini\<close>: \<^verbatim>\<open>include/tool/ParseIni.h\<close> and
    \<^verbatim>\<open>EchoServer/ServerConfig.cpp\<close>. \<open>Log\<close>: \<^verbatim>\<open>libbase/Log.cpp\<close>. \<open>Monitor\<close>:
    \<^verbatim>\<open>libbase/SystemMonitor.cpp\<close>.
  \<^item> \<open>Threads\<close>: \<^verbatim>\<open>libbase/Thread.cpp\<close> and \<^verbatim>\<open>Condition.cpp\<close>. \<open>Service\<close>: \<^verbatim>\<open>EchoServer/main.cpp\<close>
    and the start of the server and client sockets. \<open>FreeQueue\<close>: the lock-free queue of
    \<^verbatim>\<open>include/base/FreeQueue.h\<close>.

  \<^bold>\<open>What the lemmas show.\<close> Round trips: what the streams, packets, WebSocket frames, base64, the
  calendar and the configuration write is what they read. Refinements: the send buffers, the
  deadline heap, the byte buffers and the free queue behave as the abstract queues their users
  see, whatever sequence of operations is made. Invariants over every reachable state: live
  memory blocks are disjoint, the base's queues and maps agree, the agents and the count of
  connections stay in step, log lines are written once and in order. Composition: one heartbeat
  packet goes through read callback, logic thread, agent and send buffer and comes back answered; a
  round of the dispatch loop calls exactly the callbacks that are due; the registrations of the
  kernel are those the events of the base ask for. Where the code does not do
  this, the lemma states what it does instead: packets of mixed sizes in one read, a length of
  zero, frames longer than the frame buffer, a close by the logic, a close for an agent that is
  gone, a base64 remainder of one, a change of day under load, a wait that times out, a refused
  deletion, a timer that could not be added. Comments the code does not follow (the limit of
  packages of a callback, which is exceeded by one, \<open>st_pairCallback_queue\<close>; the equality signs of a
  value, \<open>value_keeps_equals\<close>; complete packets, \<open>short_length_kills\<close>) are named where they matter.

  \<^bold>\<open>The environment.\<close> What the code takes from outside is an argument: the clock, the results of
  system calls, the contents of files, the memory of the C library, the polling backend. What is
  assumed of it is a hypothesis of the theorem (\<open>env_works\<close>, \<open>env_ok\<close>, \<open>clock_ok\<close>, \<open>mm_ok\<close>, \<open>kernel_ok\<close>, \<open>clean_event\<close> and so on)
  and has an instance in the witness. \<^verbatim>\<open>int\<close>, \<^verbatim>\<open>unsigned\<close> and \<^verbatim>\<open>size_t\<close> are words where the code
  can wrap, and \<open>int\<close> or \<open>nat\<close> with the cut written out where it converts; the theorems name the
  lengths up to which they hold (base64 up to 1610612733 bytes, raw blocks of a stream below \<open>2 ^ 63\<close>).

  \<^bold>\<open>Bounds.\<close> Loops that can fail to end are \<open>partial_function (option)\<close>, and that they end is
  proved where they do (heap sifting, the deadline loop, a pass over the active events, the pools' lists, packet extraction with
  non-zero lengths) and refuted where they do not. The steps of a push or a pop of the free queue,
  run alone, are 3 and 6. Byte buffers are bounded by \<open>max_chain\<close>, far beyond any allocation; above
  it the size computation is shown to wrap. The buffers of the program have their sizes in the
  code (4096 and 8192 bytes for connections, 600 KB for the log).

  \<^bold>\<open>Concurrency.\<close> A callback runs in one thread; the queues between threads are changed only under
  their lock, so a locked section is one step, and a theorem about a sequence of steps holds for
  every order in which the threads take the lock. The free queue and the thread object interleave
  single steps under sequential consistency; a thread that has told its waiters and its exit are two steps.

  \<^bold>\<open>Not modelled.\<close> Code that only passes on to the system: creating and closing sockets and
  threads beyond their result codes, daemon mode, file-system calls, the Windows branches. Of the
  event library: the other polling backends, locks, the delivery of signals, common
  timeouts, waking a loop from another thread, bufferevents other than their queues,
  and the parts the program does not use (\<^verbatim>\<open>http.c\<close>, \<^verbatim>\<open>evdns.c\<close>, \<^verbatim>\<open>evrpc.c\<close>, OpenSSL, tagging).
  Of the streams, the text output operators. Relaxed memory orders of the processor are not
  modelled.
\<close>

end
